(* ===== verification/Prelude.thy ===== *)
theory Prelude
  imports Main "HOL-Library.Word" "HOL-Library.Monad_Syntax"
begin

unbundle bit_operations_syntax

section \<open>Prelude: machine types, partial operations and shared lemmas\<close>

text \<open>
  The types and the small library that every component of the model uses.

  \<^item> Bytes and C integers are words: \<open>byte\<close> is \<open>uint8_t\<close>, \<open>u32\<close> is \<open>uint32_t\<close>,
    \<open>u64\<close> is \<open>uint64_t\<close> and \<open>size_t\<close>.
  \<^item> A C string is the list of its bytes before the terminating NUL.
  \<^item> An operation whose C code can run into undefined behaviour (a read outside a buffer, a
    NULL dereference, a failed assertion) or can fail to return has result type
    \<open>'a option\<close>: \<open>None\<close> is that case and nothing else. A C function that
    returns a NULL pointer or an error code returns it as a value, inside the \<open>Some\<close>.
\<close>

type_synonym byte = "8 word"
type_synonym u32 = "32 word"
type_synonym u64 = "64 word"
type_synonym cstring = "byte list"

named_theorems ub_simps \<open>inversion of runs that do not hit undefined behaviour\<close>

subsection \<open>C strings\<close>

definition cstr :: "string \<Rightarrow> cstring" where
  "cstr s = map of_char s"

lemma length_cstr [simp]: "length (cstr s) = length s"
  by (simp add: cstr_def)

text \<open>The length of the string that memory starts with, and the string; without a NUL there is none.\<close>

fun c_strlen :: "byte list \<Rightarrow> nat option" where
  "c_strlen [] = None"
| "c_strlen (c # v) = (if c = 0 then Some 0 else map_option Suc (c_strlen v))"

definition c_string :: "byte list \<Rightarrow> cstring option" where
  "c_string v = map_option (\<lambda>n. take n v) (c_strlen v)"

lemma c_strlen_append: "0 \<notin> set xs \<Longrightarrow> c_strlen (xs @ 0 # ys) = Some (length xs)"
  by (induction xs) auto

lemma c_string_append: "0 \<notin> set xs \<Longrightarrow> c_string (xs @ 0 # ys) = Some xs"
  by (simp add: c_string_def c_strlen_append)

text \<open>The text of a number in decimal.\<close>

function decimal :: "nat \<Rightarrow> cstring" where
  "decimal n = (if n < 10 then [of_nat (48 + n)] else decimal (n div 10) @ [of_nat (48 + n mod 10)])"
  by pat_completeness auto
termination by (relation "measure id") auto

declare decimal.simps [simp del]

definition decimal_int :: "int \<Rightarrow> cstring" where
  "decimal_int i = (if i < 0 then cstr ''-'' @ decimal (nat (- i)) else decimal (nat i))"

subsection \<open>Reading memory\<close>

text \<open>A read of element \<open>i\<close> of a buffer; outside the buffer it is undefined.\<close>

definition rd :: "'a list \<Rightarrow> nat \<Rightarrow> 'a option" where
  "rd xs i = (if i < length xs then Some (xs ! i) else None)"

lemma rd_append1: "i < length xs \<Longrightarrow> rd (xs @ ys) i = rd xs i"
  by (simp add: rd_def nth_append)

lemma rd_eq_Some [ub_simps]: "rd xs i = Some x \<longleftrightarrow> i < length xs \<and> x = xs ! i"
  by (auto simp: rd_def)

lemma rd_simps [simp]:
  "rd (x # xs) 0 = Some x"
  "rd (x # xs) (Suc n) = rd xs n"
  "rd [] n = None"
  by (simp_all add: rd_def)

lemma rd_numeral [simp]: "rd (x # xs) (numeral n) = rd xs (pred_numeral n)"
  by (simp add: numeral_eq_Suc)

lemma rd_one [simp]: "rd (x # xs) 1 = rd xs 0"
  by (simp add: One_nat_def)

lemma bind_Some_iff [ub_simps]:
  "Option.bind m f = Some y \<longleftrightarrow> (\<exists>x. m = Some x \<and> f x = Some y)"
  by (cases m) auto

subsection \<open>Words: bits, bytes and sums of disjoint parts\<close>

lemma or_push_nat: "a < 2 ^ k \<Longrightarrow> a OR push_bit k b = a + push_bit k (b :: nat)"
  apply (subst disjunctive_add [symmetric])
   apply (auto simp: bit_push_bit_iff)
  by (metis bit_take_bit_iff not_le take_bit_nat_eq_self)

lemma unat_or_push_bit:
  fixes r x :: "'a :: len word"
  assumes "unat r < 2 ^ k" and "2 ^ k * unat x < 2 ^ LENGTH('a)"
  shows "unat (r OR push_bit k x) = unat r + 2 ^ k * unat x"
proof -
  have "unat (push_bit k x) = push_bit k (unat x)"
    unfolding unsigned_push_bit_eq using assms(2) 
    by (simp add: push_bit_eq_mult mult.commute take_bit_nat_eq_self)
  then have "unat (r OR push_bit k x) = unat r + push_bit k (unat x)"
    by (simp only: unsigned_or_eq or_push_nat [OF assms(1)])
  then show ?thesis by (simp add: push_bit_eq_mult mult.commute)
qed

lemma bit_0x80: "bit (0x80 :: int) n \<longleftrightarrow> n = 7" "bit (0x80 :: nat) n \<longleftrightarrow> n = 7"
proof -
  have 1: "(0x80 :: int) = push_bit 7 1" "(0x80 :: nat) = push_bit 7 1" by (simp_all add: push_bit_eq_mult)
  show "bit (0x80 :: int) n \<longleftrightarrow> n = 7" "bit (0x80 :: nat) n \<longleftrightarrow> n = 7"
    by (simp_all only: 1 bit_push_bit_iff bit_1_iff) auto
qed
lemma unat_and_7f: "unat (b AND 0x7f :: byte) = unat b mod 128"
proof -
  have "b AND 0x7f = take_bit 7 b" by (simp add: take_bit_eq_mask mask_eq_exp_minus_1)
  then have "unat (b AND 0x7f) = take_bit 7 (unat b)" by (simp only: unsigned_take_bit_eq)
  then show ?thesis by (simp add: take_bit_eq_mod)
qed
lemma byte_msb: "(b AND 0x80 :: byte) = 0 \<longleftrightarrow> unat b < 128"
proof -
  have "(b AND 0x80 :: byte) = 0 \<longleftrightarrow> \<not> bit b 7"
    unfolding bit_eq_iff [of "b AND 0x80" 0] by (simp add: bit_simps) (auto simp: bit_0x80 dest: spec [of _ 7])
  also have "\<dots> \<longleftrightarrow> \<not> odd (unat b div 128)"
    by (simp add: bit_iff_odd [of "unat b" 7, unfolded bit_unsigned_iff, simplified, symmetric])
  also have "\<dots> \<longleftrightarrow> unat b < 128"
  proof -
    have "unat b < 256" using unsigned_less[of b] by simp
    then have "unat b div 128 < 2" by simp
    then show ?thesis by (cases "unat b div 128 = 0") (auto simp: less_2_cases_iff)
  qed
  finally show ?thesis .
qed

lemma unat_drop: "unat (drop_bit k n) = unat n div 2 ^ k" for n :: "'a::len word"
  by (rule trans [OF unat_drop_bit_eq]) (simp add: drop_bit_eq_div)

lemma byte_of_unat: "(ucast n :: byte) = of_nat (unat n)" for n :: "'a::len word"
  by (simp add: unsigned_ucast_eq)

lemma byte_drop: "(ucast (drop_bit k n) :: byte) = of_nat (unat n div 2 ^ k)" for n :: "'a::len word"
  by (simp only: byte_of_unat unat_drop)

lemma unat_ucast_7f: "unat (ucast (b AND 0x7f :: byte) :: 'a::len word) = unat b mod 128" if "8 \<le> LENGTH('a)"
proof -
  have "unat b mod 128 < 2 ^ 7" by simp
  also have "(2::nat) ^ 7 \<le> 2 ^ LENGTH('a)" using that by (intro power_increasing) auto
  finally show ?thesis
   by (simp add: unsigned_ucast_eq take_bit_nat_eq_self unat_and_7f)
qed

lemma ucast_drop: "(ucast (drop_bit k n) :: 'b::len word) = of_nat (unat n div 2 ^ k)" for n :: "'a::len word"
  by (metis of_nat_unat unat_drop)

lemma unat_of_nat_u32: "unat (of_nat n :: u32) = n mod 2 ^ 32"
  by (simp add: unsigned_of_nat take_bit_eq_mod)

lemma unat_of_int_u32: "0 \<le> c \<Longrightarrow> c < 2 ^ 32 \<Longrightarrow> unat (of_int c :: u32) = nat c"
  by (simp add: unsigned_of_int take_bit_int_eq_self)

lemma minus_and_1: "- (x AND 1) = (if bit x 0 then - 1 else 0)" for x :: "'a::len word"
  by (simp add: and_one_eq odd_iff_mod_2_eq_one bit_0)

end
