(* ===== verification/Mersenne.thy ===== *)
theory Mersenne
  imports Prelude
begin

section \<open>Generators that refill their state in place\<close>

text \<open>
  Both random libraries keep \<open>n\<close> words of state and refill all of them in place once they are
  used up: word \<open>j\<close> becomes a function of itself, its right neighbour and the word \<open>m\<close> places
  on, the indices taken around the array, where some of these have been replaced already.
  The abstract view is one infinite sequence with a recurrence. The locale \<open>twister\<close> shows that a
  refill advances the window of the sequence by \<open>n\<close>.
\<close>

record mtstate =
  mt_v :: "u64 list"
  mt_i :: nat

function recur :: "nat \<Rightarrow> nat \<Rightarrow> ('w \<Rightarrow> 'w \<Rightarrow> 'w \<Rightarrow> 'w) \<Rightarrow> 'w list \<Rightarrow> nat \<Rightarrow> 'w" where
  "recur n m f xs k =
     (if 0 < m \<and> m < n \<and> n \<le> k
      then f (recur n m f xs (k - n + m)) (recur n m f xs (k - n)) (recur n m f xs (k - n + 1))
      else xs ! k)"
  by pat_completeness auto
termination by (relation "measure (\<lambda>(n, m, f, xs, k). k)") auto

declare recur.simps [simp del]

definition twist_at :: "nat \<Rightarrow> nat \<Rightarrow> ('w \<Rightarrow> 'w \<Rightarrow> 'w \<Rightarrow> 'w) \<Rightarrow> 'w list \<Rightarrow> nat \<Rightarrow> 'w list" where
  "twist_at n m f v j = v[j := f (v ! ((j + m) mod n)) (v ! j) (v ! ((j + 1) mod n))]"

lemma length_foldl_update: "(\<And>v j. length (g v j) = length v) \<Longrightarrow> length (foldl g v js) = length v"
  by (induction js arbitrary: v) simp_all

lemma foldl_cong_on:
  "(\<And>w j. j \<in> set js \<Longrightarrow> length w = n \<Longrightarrow> g w j = h w j) \<Longrightarrow> (\<And>w j. length (h w j) = length w) \<Longrightarrow>
   length v = n \<Longrightarrow> foldl g v js = foldl h v js"
  by (induction js arbitrary: v) simp_all

lemma length_twist_at [simp]: "length (twist_at n m f v j) = length v"
  by (simp add: twist_at_def)

locale twister =
  fixes n m :: nat and f :: "'w \<Rightarrow> 'w \<Rightarrow> 'w \<Rightarrow> 'w"
  assumes m: "0 < m" "m < n"
begin

lemma recurrence: "recur n m f xs (k + n) = f (recur n m f xs (k + m)) (recur n m f xs k) (recur n m f xs (k + 1))"
  using m by (subst recur.simps) simp

lemma recur_init: "k < n \<Longrightarrow> recur n m f xs k = xs ! k"
  by (subst recur.simps) simp

definition window :: "'w list \<Rightarrow> nat \<Rightarrow> 'w list" where
  "window xs b = map (recur n m f xs) [b..<b + n]"

lemma length_window [simp]: "length (window xs b) = n"
  by (simp add: window_def)

lemma window_nth: "i < n \<Longrightarrow> window xs b ! i = recur n m f xs (b + i)"
  by (simp add: window_def)

lemma window_0: "length xs = n \<Longrightarrow> window xs 0 = xs"
  by (rule nth_equalityI) (simp_all add: window_nth recur_init)

lemma twists:
  assumes "j \<le> n"
  shows "foldl (twist_at n m f) (window xs b) [0..<j]
    = map (\<lambda>i. recur n m f xs (if i < j then b + n + i else b + i)) [0..<n]"
  using assms
proof (induction j)
  case 0
  show ?case by (auto simp: window_def intro: nth_equalityI)
next
  case (Suc j)
  let ?x = "recur n m f xs" and ?v = "foldl (twist_at n m f) (window xs b) [0..<j]"
  have v: "?v = map (\<lambda>i. ?x (if i < j then b + n + i else b + i)) [0..<n]" using Suc by simp
  have v_nth: "?v ! i = ?x (if i < j then b + n + i else b + i)" if "i < n" for i using that by (simp add: v)
  have j: "j < n" using Suc.prems by simp
  have a: "?v ! ((j + m) mod n) = ?x (b + j + m)"
  proof (cases "j + m < n")
    case False
    then have i: "(j + m) mod n = j + m - n" "j + m - n < n" "j + m - n < j" "b + n + (j + m - n) = b + j + m"
      using j m by (simp_all add: mod_if)
    show ?thesis using i(3,4) by (simp only: i(1) v_nth [OF i(2)] if_True)
  qed (simp add: v_nth add.assoc)
  have b': "?v ! j = ?x (b + j)" using j by (simp add: v)
  have c: "?v ! ((j + 1) mod n) = ?x (b + j + 1)"
  proof (cases "j + 1 < n")
    case False
    then have n: "j + 1 = n" using j by simp
    then have "(j + 1) mod n = 0" "0 < j" "b + n + 0 = b + j + 1" using j m by simp_all
    then show ?thesis using v_nth [of 0] j by simp
  qed (simp add: v_nth)
  have "foldl (twist_at n m f) (window xs b) [0..<Suc j] = ?v[j := ?x (b + j + n)]"
    by (simp add: twist_at_def a [simplified] b' c [simplified] recurrence)
  also have "\<dots> = map (\<lambda>i. ?x (if i < Suc j then b + n + i else b + i)) [0..<n]"
    using j by (intro nth_equalityI) (auto simp: v nth_list_update add.commute add.left_commute)
  finally show ?case .
qed

lemma refill: "foldl (twist_at n m f) (window xs b) [0..<n] = window xs (b + n)"
  by (subst twists) (auto simp: window_nth intro: nth_equalityI)

end

end
