(* ===== verification/Ieee.thy ===== *)
theory Ieee
  imports Prelude
begin

section \<open>Rounding to double precision\<close>

text \<open>
  The random number libraries compute with \<open>double\<close>s that are all of the form \<open>k / 2^p\<close> for a
  natural number \<open>k\<close> and a fixed \<open>p\<close>, well inside the exponent range. The result of such an
  operation is the exact result rounded to 53 significant bits, to the nearest, ties to even;
  \<open>rn53\<close> is that rounding on the numerator.
\<close>

fun nbits :: "nat \<Rightarrow> nat" where
  "nbits k = (if k = 0 then 0 else Suc (nbits (k div 2)))"

declare nbits.simps [simp del]

definition excess :: "nat \<Rightarrow> nat" where
  "excess k = nbits k - 53"

definition rn53 :: "nat \<Rightarrow> nat" where
  "rn53 k = (let s = excess k; q = k div 2 ^ s; r = k mod 2 ^ s
             in if 2 * r > 2 ^ s \<or> 2 * r = 2 ^ s \<and> odd q then (q + 1) * 2 ^ s else q * 2 ^ s)"

lemma nbits_0 [simp]: "nbits 0 = 0"
  by (simp add: nbits.simps)

lemma nbits_numeral: "nbits (numeral k) = Suc (nbits (numeral k div 2))" "nbits (Suc 0) = Suc 0"
  by (subst nbits.simps, simp)+

lemma nbits_upper: "k < 2 ^ nbits k"
proof (induction k rule: nbits.induct)
  case (1 k)
  then show ?case by (cases "k = 0") (auto simp: nbits.simps [of k])
qed

lemma nbits_lower: "0 < k \<Longrightarrow> 2 ^ nbits k \<le> 2 * k"
proof (induction k rule: nbits.induct)
  case (1 k)
  show ?case
  proof (cases "k div 2 = 0")
    case True
    with "1.prems" have "k = 1" by auto
    then show ?thesis by (simp add: nbits.simps)
  next
    case False
    with 1 show ?thesis by (auto simp: nbits.simps [of k])
  qed
qed

lemma nbits_le: "k < 2 ^ b \<Longrightarrow> nbits k \<le> b"
proof (rule ccontr)
  assume a: "k < 2 ^ b" "\<not> nbits k \<le> b"
  then have "0 < k" by (cases k) auto
  from nbits_lower [OF this] a(1) have "(2::nat) ^ nbits k < 2 ^ Suc b" by simp
  then have "nbits k < Suc b" by (rule power_less_imp_less_exp [rotated]) simp
  with a(2) show False by simp
qed

lemma excess_0: "k < 2 ^ 53 \<Longrightarrow> excess k = 0"
  using nbits_le [of k 53] by (simp add: excess_def)

lemma rn53_exact: "k < 2 ^ 53 \<Longrightarrow> rn53 k = k"
  by (simp add: rn53_def excess_0)

lemma excess_lower: "0 < excess k \<Longrightarrow> 2 ^ (excess k + 52) \<le> k"
proof -
  assume a: "0 < excess k"
  then have k: "0 < k" and n: "nbits k = Suc (excess k + 52)" by (auto simp: excess_def intro: gr0I)
  have "(2 :: nat) ^ Suc (excess k + 52) = 2 * 2 ^ (excess k + 52)" by (rule power_Suc)
  with nbits_lower [OF k] show ?thesis unfolding n by linarith
qed

lemma rn53_error: "rn53 k * 2 ^ 53 \<le> k * (2 ^ 53 + 1)"
proof (cases "excess k = 0")
  case True
  then show ?thesis by (simp add: rn53_def)
next
  case False
  let ?s = "excess k" and ?r = "k mod 2 ^ excess k"
  have k: "k = k div 2 ^ ?s * 2 ^ ?s + ?r" by (rule div_mult_mod_eq [symmetric])
  have "2 * rn53 k \<le> 2 * k + 2 ^ ?s"
  proof -
    have "(k div 2 ^ ?s + 1) * 2 ^ ?s + ?r = k + 2 ^ ?s" using k by simp
    then show ?thesis using k unfolding rn53_def Let_def by (auto split: if_splits)
  qed
  moreover have "2 ^ ?s * 2 ^ 52 \<le> k" using excess_lower [of k] False by (simp add: power_add)
  ultimately show ?thesis by simp
qed

text \<open>Rounding does not reach a coarse enough upper bound that is not too near.\<close>

lemma rn53_below:
  assumes "2 ^ excess k dvd b" and "2 * k + 2 ^ excess k < 2 * b"
  shows "rn53 k < b"
proof -
  define s where "s = excess k"
  obtain c where b: "b = c * 2 ^ s" using assms(1) unfolding s_def by (metis dvd_def mult.commute)
  define q r where "q = k div 2 ^ s" and "r = k mod 2 ^ s"
  have k: "k = q * 2 ^ s + r" unfolding q_def r_def by (rule div_mult_mod_eq [symmetric])
  have "q < c"
  proof -
    have "k < b" using assms(2) by simp
    then show ?thesis unfolding q_def b by (simp add: less_mult_imp_div_less)
  qed
  then have "q * 2 ^ s < b" unfolding b by simp
  moreover have "(q + 1) * 2 ^ s < b" if "2 ^ s \<le> 2 * r"
  proof -
    have "2 * ((q + 1) * 2 ^ s) \<le> 2 * k + 2 ^ s" using that k by simp
    with assms(2) show ?thesis by (simp only: flip: s_def)
  qed
  ultimately show ?thesis
    by (simp only: rn53_def Let_def flip: s_def q_def r_def) (simp split: if_split)
qed

lemma nbits_eqI: "2 ^ b \<le> k \<Longrightarrow> k < 2 ^ Suc b \<Longrightarrow> nbits k = Suc b"
proof (rule antisym)
  assume "2 ^ b \<le> k" "k < 2 ^ Suc b"
  then show "nbits k \<le> Suc b" by (intro nbits_le)
  have "(2::nat) ^ b < 2 ^ nbits k" using \<open>2 ^ b \<le> k\<close> nbits_upper [of k] by linarith
  then have "b < nbits k" by (rule power_less_imp_less_exp [rotated]) simp
  then show "Suc b \<le> nbits k" by simp
qed

lemma rn53_multiple: "2 ^ excess k dvd k \<Longrightarrow> rn53 k = k"
  by (auto simp: rn53_def Let_def)

lemma rn53_le:
  assumes "2 ^ excess k dvd b" and "k \<le> b"
  shows "rn53 k \<le> b"
proof (cases "k = b")
  case True
  with assms show ?thesis by (simp add: rn53_multiple)
next
  case False
  define s where "s = excess k"
  obtain c where b: "b = c * 2 ^ s" using assms(1) unfolding s_def by (metis dvd_def mult.commute)
  define q r where "q = k div 2 ^ s" and "r = k mod 2 ^ s"
  have "q < c" using False assms(2) unfolding q_def b by (simp add: less_mult_imp_div_less)
  then have "q * 2 ^ s \<le> b" "(q + 1) * 2 ^ s \<le> b"
    using mult_le_mono1 [of "q + 1" c "2 ^ s"] unfolding b by simp_all
  then show ?thesis
    by (simp only: rn53_def Let_def flip: s_def q_def r_def) (simp split: if_split)
qed

lemma excess_le: "k < 2 ^ (53 + p) \<Longrightarrow> excess k \<le> p"
  using nbits_le [of k "53 + p"] by (simp add: excess_def)

lemma rn53_shift: "n < 2 ^ 53 \<Longrightarrow> rn53 (n * 2 ^ p) = n * 2 ^ p"
proof (rule rn53_multiple)
  assume "n < 2 ^ 53"
  then have "n * 2 ^ p < 2 ^ (53 + p)" by (simp add: power_add)
  then have "excess (n * 2 ^ p) \<le> p" by (rule excess_le)
  then show "2 ^ excess (n * 2 ^ p) dvd n * 2 ^ p" by (simp add: le_imp_power_dvd dvd_mult)
qed

lemma rn53_ge:
  assumes "m \<le> k" and "m < 2 ^ 53"
  shows "m \<le> rn53 k"
proof (cases "excess k = 0")
  case True
  with assms show ?thesis by (simp add: rn53_def)
next
  case False
  define s where "s = excess k"
  define q r where "q = k div 2 ^ s" and "r = k mod 2 ^ s"
  have "2 ^ (s + 52) \<le> k" unfolding s_def by (rule excess_lower) (use False in simp)
  then have "2 ^ 52 * 2 ^ s div 2 ^ s \<le> q" unfolding q_def by (intro div_le_mono) (simp add: power_add mult.commute)
  then have "2 ^ 52 \<le> q" by simp
  moreover have "(2 :: nat) ^ 1 \<le> 2 ^ s" using False unfolding s_def by (intro power_increasing) auto
  ultimately have "2 ^ 52 * 2 ^ 1 \<le> q * 2 ^ s" by (rule mult_le_mono)
  moreover have "q * 2 ^ s \<le> rn53 k"
    by (simp only: rn53_def Let_def flip: s_def q_def r_def) (simp split: if_split)
  ultimately show ?thesis using assms(2) by simp
qed

end
