(* ===== verification/Random32.thy ===== *)
theory Random32
  imports Mersenne Ieee
begin

section \<open>The 32-bit generator (lrandom/lrandom.c)\<close>

text \<open>
  The generator object is \<open>MT\<close>: 624 words of type \<open>unsigned long\<close> (64 bits here) and the index
  of the next one. The reference is MT19937 on 32-bit words. The seed the library reads from
  \<open>/dev/urandom\<close> (or the clock) is a parameter; a Lua number the library returns is the
  numerator over \<open>2^32\<close>.
\<close>

definition N :: nat where "N = 624"
definition M :: nat where "M = 397"
definition MATRIX_A :: u64 where "MATRIX_A = 0x9908b0df"
definition UPPER_MASK :: u64 where "UPPER_MASK = 0x80000000"
definition LOWER_MASK :: u64 where "LOWER_MASK = 0x7fffffff"

definition init_genrand :: "mtstate \<Rightarrow> u64 \<Rightarrow> mtstate" where
  "init_genrand ob s =
     (let v = (mt_v ob)[0 := s AND 0xffffffff];
          v = foldl (\<lambda>v i.
                let v = v[i := 1812433253 * (v ! (i - 1) XOR drop_bit 30 (v ! (i - 1))) + of_nat i]
                in v[i := v ! i AND 0xffffffff]) v [1..<N]
      in \<lparr>mt_v = v, mt_i = N\<rparr>)"

definition mag01 :: "u64 \<Rightarrow> u64" where
  "mag01 b = (if b = 0 then 0 else MATRIX_A)"

definition regenerate :: "u64 list \<Rightarrow> u64 list" where
  "regenerate v =
     (let v = foldl (\<lambda>v kk.
            let y = (v ! kk AND UPPER_MASK) OR (v ! (kk + 1) AND LOWER_MASK)
            in v[kk := v ! (kk + M) XOR drop_bit 1 y XOR mag01 (y AND 1)]) v [0..<N - M];
          v = foldl (\<lambda>v kk.
            let y = (v ! kk AND UPPER_MASK) OR (v ! (kk + 1) AND LOWER_MASK)
            in v[kk := v ! (kk + M - N) XOR drop_bit 1 y XOR mag01 (y AND 1)]) v [N - M..<N - 1];
          y = (v ! (N - 1) AND UPPER_MASK) OR (v ! 0 AND LOWER_MASK)
      in v[N - 1 := v ! (M - 1) XOR drop_bit 1 y XOR mag01 (y AND 1)])"

definition tempering :: "u64 \<Rightarrow> u64" where
  "tempering y =
     (let y = y XOR drop_bit 11 y;
          y = y XOR (push_bit 7 y AND 0x9d2c5680);
          y = y XOR (push_bit 15 y AND 0xefc60000)
      in y XOR drop_bit 18 y)"

definition genrand_int32 :: "mtstate \<Rightarrow> u64 \<times> mtstate" where
  "genrand_int32 ob =
     (let ob = (if mt_i ob \<ge> N then
                 (let ob = (if mt_i ob = N + 1 then init_genrand ob 5489 else ob)
                  in \<lparr>mt_v = regenerate (mt_v ob), mt_i = 0\<rparr>)
               else ob);
          y = mt_v ob ! mt_i ob
      in (tempering y, ob\<lparr>mt_i := mt_i ob + 1\<rparr>))"

text \<open>The quotient by \<open>2^32\<close> is exact; the numerator stands for it.\<close>

definition genrand_real2 :: "mtstate \<Rightarrow> nat \<times> mtstate" where
  "genrand_real2 ob = (let (y, ob) = genrand_int32 ob in (unat y, ob))"

definition get_seed :: "u32 option \<Rightarrow> u32 \<Rightarrow> u32" where
  "get_seed urandom now = (case urandom of Some num \<Rightarrow> num | None \<Rightarrow> now)"

definition Lhardrand :: "u32 option \<Rightarrow> u32 \<Rightarrow> int" where
  "Lhardrand urandom now = int (unat (get_seed urandom now))"

definition Lnew :: "mtstate \<Rightarrow> u32 option \<Rightarrow> u32 \<Rightarrow> mtstate" where
  "Lnew fresh urandom now = init_genrand fresh (ucast (get_seed urandom now))"

definition Lseed :: "mtstate \<Rightarrow> u32 option \<Rightarrow> u32 \<Rightarrow> mtstate" where
  "Lseed c urandom now = init_genrand c (ucast (get_seed urandom now))"

datatype lua_value = Number nat | Integer int

text \<open>
  The Lua integers of the call are 64-bit and are cut to \<open>int\<close>. \<open>None\<close> is the signed overflow
  of \<open>b - a + 1\<close>.
\<close>

definition Lvalue :: "mtstate \<Rightarrow> u64 list \<Rightarrow> (lua_value list \<times> mtstate) option" where
  "Lvalue c args =
     (let (r, c) = genrand_real2 c in
      case args of
        [] \<Rightarrow> Some ([Number r], c)
      | x # xs \<Rightarrow>
        (let (a, b) = (case xs of [] \<Rightarrow> (1, sint (ucast x :: u32))
                                | y # _ \<Rightarrow> (sint (ucast x :: u32), sint (ucast y :: u32)));
             (a, b) = (if a > b then (b, a) else (a, b))
         in if a > b then Some ([], c)
            else if b - a + 1 > 2 ^ 31 - 1 then None
            else Some ([Integer (a + int (rn53 (r * nat (b - a + 1)) div 2 ^ 32))], c)))"

subsection \<open>The reference generator on 32-bit words\<close>

fun ref_init :: "u32 \<Rightarrow> nat \<Rightarrow> u32" where
  "ref_init s 0 = s"
| "ref_init s (Suc i) = 1812433253 * (ref_init s i XOR drop_bit 30 (ref_init s i)) + of_nat (Suc i)"

definition ref_twist :: "u32 \<Rightarrow> u32 \<Rightarrow> u32 \<Rightarrow> u32" where
  "ref_twist a b c =
     (let y = (b AND 0x80000000) OR (c AND 0x7fffffff)
      in a XOR drop_bit 1 y XOR (if y AND 1 = 0 then 0 else 0x9908b0df))"

definition ref_temper :: "u32 \<Rightarrow> u32" where
  "ref_temper y =
     (let y = y XOR drop_bit 11 y;
          y = y XOR (push_bit 7 y AND 0x9d2c5680);
          y = y XOR (push_bit 15 y AND 0xefc60000)
      in y XOR drop_bit 18 y)"

definition mt19937 :: "u32 \<Rightarrow> nat \<Rightarrow> u32" where
  "mt19937 s k = ref_temper (recur 624 397 ref_twist (map (ref_init s) [0..<624]) (624 + k))"

subsection \<open>The code works on 32-bit words kept in 64-bit ones\<close>

definition up :: "u32 \<Rightarrow> u64" where "up = ucast"

lemma up_bit: "bit (up a) i \<longleftrightarrow> bit a i"
  by (auto simp: up_def bit_ucast_iff dest: bit_imp_le_length)

lemma up_bitops:
  "up (a XOR b) = up a XOR up b" "up (a OR b) = up a OR up b" "up (a AND b) = up a AND up b"
  "up (drop_bit n a) = drop_bit n (up a)"
  by (rule bit_word_eqI; simp only: up_bit bit_xor_iff bit_or_iff bit_and_iff bit_drop_bit_eq comp_apply)+

lemma up_push: "up (push_bit n a AND c) = push_bit n (up a) AND up c"
proof (rule bit_word_eqI)
  fix i assume "i < LENGTH(64)"
  then show "bit (up (push_bit n a AND c)) i = bit (push_bit n (up a) AND up c) i"
    using bit_imp_le_length [of c i] by (auto simp: up_bit bit_and_iff bit_push_bit_iff)
qed

lemma up_const: "up 0x80000000 = 0x80000000" "up 0x7fffffff = 0x7fffffff" "up 0x9908b0df = 0x9908b0df"
  "up 0x9d2c5680 = 0x9d2c5680" "up 0xefc60000 = 0xefc60000" "up 0 = 0" "up 1 = 1"
  by (simp_all add: up_def)

lemma up_inj: "up a = up b \<longleftrightarrow> a = b"
  by (metis up_bit bit_word_eqI)

definition twist64 :: "u64 \<Rightarrow> u64 \<Rightarrow> u64 \<Rightarrow> u64" where
  "twist64 a b c = (let y = (b AND UPPER_MASK) OR (c AND LOWER_MASK)
     in a XOR drop_bit 1 y XOR mag01 (y AND 1))"

lemma up_twist: "up (ref_twist a b c) = twist64 (up a) (up b) (up c)"
proof -
  have y: "up (b AND 0x80000000 OR c AND 0x7fffffff) = (up b AND UPPER_MASK) OR (up c AND LOWER_MASK)" for b c
    by (simp only: up_bitops up_const UPPER_MASK_def LOWER_MASK_def)
  have "up y AND 1 = 0 \<longleftrightarrow> y AND 1 = 0" for y
    by (metis up_bitops(3) up_const(6,7) up_inj)
  then show ?thesis
    by (simp only: ref_twist_def twist64_def Let_def mag01_def MATRIX_A_def up_bitops(1,4) if_distrib [of up] up_const flip: y)
qed

lemma up_temper: "up (ref_temper y) = tempering (up y)"
  by (simp only: ref_temper_def tempering_def Let_def up_bitops(1,4) up_push up_const)

lemma up_arith: "up (a * b + c) = (up a * up b + up c) AND 0xffffffff"
proof -
  have m: "(0xffffffff :: u64) = mask 32" by (simp add: mask_eq_exp_minus_1)
  have "unat (a * b + c) = (unat a * unat b + unat c) mod 2 ^ 32"
    by (simp add: unat_word_ariths mod_simps)
  moreover have "unat ((up a * up b + up c) AND mask 32) = (unat a * unat b + unat c) mod 2 ^ 64 mod 2 ^ 32"
    unfolding take_bit_eq_mask [symmetric] unsigned_take_bit_eq take_bit_eq_mod
    by (simp add: unat_word_ariths mod_simps up_def unsigned_ucast_eq take_bit_eq_mod)
  ultimately show ?thesis unfolding m
    by (simp only: word_unat_eq_iff up_def unsigned_ucast_eq) (simp add: take_bit_eq_mod mod_mod_cancel)
qed

subsection \<open>Initialisation and refill\<close>

lemma length_regenerate [simp]: "length (regenerate v) = length v"
  by (simp add: regenerate_def Let_def length_foldl_update)

interpretation mt32: twister 624 397 twist64
  by unfold_locales simp_all

lemma regenerate_twists:
  assumes "length v = 624"
  shows "regenerate v = foldl (twist_at 624 397 twist64) v [0..<624]"
proof -
  let ?t = "twist_at 624 397 twist64"
  have r: "[0..<624] = [0..<227] @ [227..<623] @ [623 :: nat]"
    using upt_add_eq_append [of 0 227 397] upt_add_eq_append [of 227 623 1] upt_conv_Cons [of 623 624]
    by (simp del: upt_rec_numeral)
  have 1: "foldl (\<lambda>v kk. let y = (v ! kk AND UPPER_MASK) OR (v ! (kk + 1) AND LOWER_MASK)
            in v[kk := v ! (kk + M) XOR drop_bit 1 y XOR mag01 (y AND 1)]) w [0..<227] = foldl ?t w [0..<227]"
    if "length w = 624" for w
    by (rule foldl_cong_on [OF _ _ that]) (auto simp: twist_at_def twist64_def Let_def M_def simp del: upt_rec_numeral)
  have 2: "foldl (\<lambda>v kk. let y = (v ! kk AND UPPER_MASK) OR (v ! (kk + 1) AND LOWER_MASK)
            in v[kk := v ! (kk + M - N) XOR drop_bit 1 y XOR mag01 (y AND 1)]) w [227..<623] = foldl ?t w [227..<623]"
    if "length w = 624" for w
    by (rule foldl_cong_on [OF _ _ that]) (auto simp: twist_at_def twist64_def Let_def M_def N_def mod_if simp del: upt_rec_numeral)
  have len: "length (foldl ?t v js) = 624" for js
    using assms by (simp add: length_foldl_update)
  have 3: "(let y = (w ! 623 AND UPPER_MASK) OR (w ! 0 AND LOWER_MASK)
     in w[623 := w ! 396 XOR drop_bit 1 y XOR mag01 (y AND 1)]) = ?t w 623" for w
    by (simp add: twist_at_def twist64_def Let_def)
  show ?thesis unfolding r
    using 1 [OF assms] 2 [OF len] 3 by (simp add: regenerate_def N_def M_def del: upt_rec_numeral)
qed

lemma init_loop:
  assumes "length v = 624" and "v ! 0 = up s" and "j \<le> 624"
  shows "\<forall>i < j. foldl (\<lambda>v i.
                let v = v[i := 1812433253 * (v ! (i - 1) XOR drop_bit 30 (v ! (i - 1))) + of_nat i]
                in v[i := v ! i AND 0xffffffff]) v [1..<j] ! i = up (ref_init s i)"
  (is "\<forall>i < j. foldl ?g v [1..<j] ! i = _")
  using assms(3)
proof (induction j)
  case (Suc j)
  show ?case
  proof (cases j)
    case 0
    then show ?thesis using assms(2) by simp
  next
    case (Suc k)
    let ?w = "foldl ?g v [1..<j]"
    have len: "length ?w = 624" using assms(1) by (subst length_foldl_update) (simp_all add: Let_def)
    have IH: "\<forall>i < j. ?w ! i = up (ref_init s i)" using Suc.IH Suc.prems by simp
    have "up (of_nat j) = of_nat j" using Suc.prems
      by (simp add: up_def word_unat_eq_iff unsigned_ucast_eq unsigned_of_nat take_bit_nat_eq_self)
    then have "(1812433253 * (?w ! (j - 1) XOR drop_bit 30 (?w ! (j - 1))) + of_nat j) AND 0xffffffff
      = up (ref_init s j)"
      using IH Suc up_arith [of 1812433253 "ref_init s k XOR drop_bit 30 (ref_init s k)" "of_nat j"]
      by (simp add: up_bitops) (simp add: up_def)
    then show ?thesis using IH len Suc Suc.prems
      by (simp add: Let_def nth_list_update less_Suc_eq)
  qed
qed simp

lemma init_genrand_eq:
  assumes "length (mt_v ob) = 624"
  shows "init_genrand ob s = \<lparr>mt_v = map up (map (ref_init (ucast s)) [0..<624]), mt_i = 624\<rparr>"
proof -
  let ?g = "\<lambda>v i. let v = v[i := 1812433253 * (v ! (i - 1) XOR drop_bit 30 (v ! (i - 1))) + of_nat i]
                in v[i := v ! i AND 0xffffffff]"
  let ?v = "(mt_v ob)[0 := s AND 0xffffffff]"
  have "s AND 0xffffffff = up (ucast s)"
  proof -
    have m: "(0xffffffff :: u64) = mask 32" by (simp add: mask_eq_exp_minus_1)
    show ?thesis unfolding m
      by (rule bit_word_eqI) (auto simp: up_bit bit_and_iff bit_ucast_iff bit_mask_iff)
  qed
  then have "?v ! 0 = up (ucast s)" using assms by simp
  moreover have "length ?v = 624" using assms by simp
  ultimately have "\<forall>i < 624. foldl ?g ?v [1..<624] ! i = up (ref_init (ucast s) i)"
    by (intro init_loop) simp_all
  moreover have "length (foldl ?g ?v [1..<624]) = 624"
    using assms by (subst length_foldl_update) (simp_all add: Let_def)
  ultimately have "foldl ?g ?v [1..<624] = map up (map (ref_init (ucast s)) [0..<624])"
    by (intro nth_equalityI) (simp_all del: upt_rec_numeral)
  then show ?thesis by (simp add: init_genrand_def N_def Let_def del: upt_rec_numeral)
qed

lemma recur_up:
  assumes "length xs = 624"
  shows "recur 624 397 twist64 (map up xs) i = up (recur 624 397 ref_twist xs i)"
proof (induction i rule: less_induct)
  case (less i)
  show ?case
  proof (cases "i < 624")
    case True
    then show ?thesis using assms by (simp add: recur.simps [of _ _ _ _ i])
  next
    case False
    then show ?thesis using less [of "i - 624 + 397"] less [of "i - 624"] less [of "i - 624 + 1"]
      by (simp add: recur.simps [of _ _ _ _ i] up_twist)
  qed
qed

subsection \<open>Sequences of draws\<close>

fun genrands :: "nat \<Rightarrow> mtstate \<Rightarrow> u64 list \<times> mtstate" where
  "genrands 0 ob = ([], ob)"
| "genrands (Suc n) ob =
     (let (y, ob) = genrand_int32 ob; (ys, ob) = genrands n ob in (y # ys, ob))"

text \<open>The object holds a window of the sequence that starts from \<open>xs\<close>; the next draw is number \<open>k\<close>.\<close>

definition mt_at :: "u64 list \<Rightarrow> nat \<Rightarrow> mtstate \<Rightarrow> bool" where
  "mt_at xs k ob \<longleftrightarrow> mt_i ob \<le> 624 \<and> (\<exists>b. mt_v ob = mt32.window xs b \<and> k = b + mt_i ob)"

lemma genrand_at:
  assumes "mt_at xs k ob"
  shows "\<exists>ob'. genrand_int32 ob = (tempering (recur 624 397 twist64 xs k), ob') \<and> mt_at xs (Suc k) ob'"
proof -
  obtain b where b: "mt_v ob = mt32.window xs b" "k = b + mt_i ob" and i: "mt_i ob \<le> 624"
    using assms by (auto simp: mt_at_def)
  show ?thesis
  proof (cases "mt_i ob < 624")
    case True
    then show ?thesis using b
      by (auto simp: genrand_int32_def N_def Let_def mt32.window_nth mt_at_def intro!: exI [of _ b])
  next
    case False
    with i have i: "mt_i ob = 624" by simp
    have "regenerate (mt_v ob) = mt32.window xs (b + 624)"
      using mt32.refill [of xs b] by (simp add: regenerate_twists b(1))
    then show ?thesis using b i
      by (auto simp: genrand_int32_def N_def Let_def mt32.window_nth mt_at_def add.commute intro!: exI [of _ "b + 624"])
  qed
qed

lemma genrands_at:
  assumes "mt_at xs k ob"
  shows "fst (genrands n ob) = map (\<lambda>j. tempering (recur 624 397 twist64 xs (k + j))) [0..<n]
    \<and> mt_at xs (k + n) (snd (genrands n ob))"
  using assms
proof (induction n arbitrary: k ob)
  case (Suc n)
  obtain ob' where g: "genrand_int32 ob = (tempering (recur 624 397 twist64 xs k), ob')" "mt_at xs (Suc k) ob'"
    using genrand_at [OF Suc.prems] by blast
  from Suc.IH [OF g(2)] show ?case
    by (auto simp: g(1) Let_def split: prod.splits simp del: upt_Suc simp: upt_conv_Cons map_Suc_upt [symmetric])
qed simp

lemma init_at: "length (mt_v ob) = 624 \<Longrightarrow>
    mt_at (map up (map (ref_init (ucast s)) [0..<624])) 624 (init_genrand ob s)"
  by (simp add: init_genrand_eq mt_at_def mt32.window_0 exI [of _ 0] del: upt_rec_numeral)

subsection \<open>Properties\<close>

text \<open>
  C14: after seeding, the draws of \<open>genrand_int32\<close> are exactly the outputs of the MT19937 reference
  generator on 32-bit words, however often the state was refilled in place, and whatever the
  object held before.\<close>

theorem genrands_mt19937:
  assumes "length (mt_v ob) = 624"
  shows "fst (genrands n (init_genrand ob s)) = map (\<lambda>k. ucast (mt19937 (ucast s) k)) [0..<n]"
  using genrands_at [OF init_at [OF assms]]
  by (simp add: mt19937_def recur_up up_temper [symmetric] del: upt_rec_numeral map_map) (simp add: up_def)

lemma genrands_mt19937_witness:
  "fst (genrands 2000 (init_genrand \<lparr>mt_v = replicate 624 7, mt_i = 625\<rparr> 5489)) =
     map (\<lambda>k. ucast (mt19937 (ucast (5489 :: u64)) k)) [0..<2000]"
  by (rule genrands_mt19937) simp

lemma draw_bound:
  assumes "length xs = 624" and "mt_at (map up xs) k ob"
  obtains r ob' where "genrand_real2 ob = (r, ob')" and "r < 2 ^ 32"
proof -
  obtain ob' where "genrand_int32 ob = (up (ref_temper (recur 624 397 ref_twist xs k)), ob')"
    using genrand_at [OF assms(2)] by (auto simp: recur_up [OF assms(1)] up_temper)
  moreover have "unat (up y) < 2 ^ 32" for y
  proof -
    have y: "unat y < 2 ^ 32" by (rule less_le_trans [OF unsigned_less]) simp
    then have "unat y < 2 ^ 64" by simp
    with y show ?thesis by (simp only: up_def unsigned_ucast_eq) (simp add: take_bit_nat_eq_self)
  qed
  ultimately show thesis by (intro that) (auto simp: genrand_real2_def)
qed

lemma scaled_draw:
  assumes "r < 2 ^ 32" and "0 < n"
  shows "rn53 (r * n) div 2 ^ 32 < n"
proof -
  have "r * n \<le> (2 ^ 32 - 1) * n" using assms(1) by simp
  then have "r * n * (2 ^ 53 + 1) \<le> (2 ^ 32 - 1) * n * (2 ^ 53 + 1)" by (rule mult_le_mono1)
  also have "\<dots> < 2 ^ 32 * n * 2 ^ 53" using assms(2) by simp
  finally have "rn53 (r * n) * 2 ^ 53 < 2 ^ 32 * n * 2 ^ 53" using rn53_error [of "r * n"] by linarith
  then have "rn53 (r * n) < n * 2 ^ 32" by simp
  then show ?thesis by (rule less_mult_imp_div_less)
qed

text \<open>
  \<open>value(a, b)\<close> returns an integer between the two bounds, in either order, whatever was drawn
  before, as long as the width of the range fits an \<open>int\<close>; the rounding of the product of the
  draw with the width never reaches the width.\<close>

theorem Lvalue_range:
  assumes "length (mt_v ob) = 624"
    and "a = sint (ucast x :: u32)" and "b = sint (ucast y :: u32)" and "\<bar>b - a\<bar> + 1 < 2 ^ 31"
  shows "\<exists>r c'. Lvalue (snd (genrands n (init_genrand ob s))) [x, y] = Some ([Integer r], c')
    \<and> min a b \<le> r \<and> r \<le> max a b"
proof -
  let ?c = "snd (genrands n (init_genrand ob s))" and ?w = "nat (\<bar>b - a\<bar> + 1)"
  have "mt_at (map up (map (ref_init (ucast s)) [0..<624])) (624 + n) ?c"
    using genrands_at [OF init_at [OF assms(1)]] by blast
  then obtain r c' where r: "genrand_real2 ?c = (r, c')" "r < 2 ^ 32"
    by (rule draw_bound [rotated]) simp_all
  have w: "rn53 (r * ?w) div 2 ^ 32 < ?w" using r(2) by (rule scaled_draw) simp
  have "Lvalue ?c [x, y] = Some ([Integer (min a b + int (rn53 (r * ?w) div 2 ^ 32))], c')"
  proof -
    have "\<not> b - a + 1 > 2 ^ 31 - 1" "\<not> a - b + 1 > 2 ^ 31 - 1" using assms(4) by linarith+
    then show ?thesis
      by (cases "a > b") (simp_all add: Lvalue_def r(1) Let_def abs_if min_def flip: assms(2,3))
  qed
  moreover have "min a b + int q \<le> max a b" if "q < ?w" for q
    using that by (simp add: min_def max_def abs_if split: if_splits)
  ultimately show ?thesis using w by auto
qed

lemma Lvalue_range_witness:
  "\<exists>r c'. Lvalue (snd (genrands 3 (init_genrand \<lparr>mt_v = replicate 624 0, mt_i = 0\<rparr> 42))) [6, 1] = Some ([Integer r], c')
    \<and> min 6 1 \<le> r \<and> r \<le> max 6 (1 :: int)"
  by (rule Lvalue_range) simp_all

end
