(* ===== verification/Random64.thy ===== *)
theory Random64
  imports Mersenne Ieee
begin

section \<open>The 64-bit generator (lrandom/lrandom64.c)\<close>

text \<open>
  One generator per thread, 312 words of 64 bits, seeded on its first draw from 32 values of
  \<open>/dev/urandom\<close> and the clock (a parameter) and warmed up by 5000 draws. A double is the
  numerator of a fraction over \<open>2^105\<close>, the exponent that makes every product exact before it is
  rounded.
\<close>

definition NN :: nat where "NN = 312"
definition MM :: nat where "MM = 156"
definition MATRIX_A64 :: u64 where "MATRIX_A64 = 0xB5026F5AA96619E9"
definition UM :: u64 where "UM = 0xFFFFFFFF80000000"
definition LM :: u64 where "LM = 0x7FFFFFFF"

definition init_genrand64 :: "mtstate \<Rightarrow> u64 \<Rightarrow> mtstate" where
  "init_genrand64 ob seed =
     \<lparr>mt_v = foldl (\<lambda>v i. v[i := 6364136223846793005 * (v ! (i - 1) XOR drop_bit 62 (v ! (i - 1))) + of_nat i])
        ((mt_v ob)[0 := seed]) [1..<NN],
      mt_i = NN\<rparr>"

text \<open>The two mixing loops over the key, with the C variables \<open>k\<close>, \<open>i\<close> and \<open>j\<close>.\<close>

fun mix_key :: "nat \<Rightarrow> nat \<Rightarrow> nat \<Rightarrow> u64 list \<Rightarrow> u64 list \<Rightarrow> nat \<times> u64 list" where
  "mix_key 0 i j v key = (i, v)"
| "mix_key (Suc k) i j v key =
     (let v = v[i := (v ! i XOR ((v ! (i - 1) XOR drop_bit 62 (v ! (i - 1))) * 3935559000370003845))
                      + key ! j + of_nat j];
          i = i + 1; j = j + 1;
          (v, i) = (if i \<ge> NN then (v[0 := v ! (NN - 1)], 1) else (v, i));
          j = (if j \<ge> length key then 0 else j)
      in mix_key k i j v key)"

fun mix_index :: "nat \<Rightarrow> nat \<Rightarrow> u64 list \<Rightarrow> u64 list" where
  "mix_index 0 i v = v"
| "mix_index (Suc k) i v =
     (let v = v[i := (v ! i XOR ((v ! (i - 1) XOR drop_bit 62 (v ! (i - 1))) * 2862933555777941757)) - of_nat i];
          i = i + 1;
          (v, i) = (if i \<ge> NN then (v[0 := v ! (NN - 1)], 1) else (v, i))
      in mix_index k i v)"

definition init_by_array64 :: "mtstate \<Rightarrow> u64 list \<Rightarrow> mtstate" where
  "init_by_array64 ob key =
     (let ob = init_genrand64 ob 19650218;
          (i, v) = mix_key (if NN > length key then NN else length key) 1 0 (mt_v ob) key;
          v = mix_index (NN - 1) i v
      in ob\<lparr>mt_v := v[0 := push_bit 63 1]\<rparr>)"

definition mag01_64 :: "u64 \<Rightarrow> u64" where
  "mag01_64 b = (if b = 0 then 0 else MATRIX_A64)"

definition regenerate64 :: "u64 list \<Rightarrow> u64 list" where
  "regenerate64 v =
     (let v = foldl (\<lambda>v i.
            let x = (v ! i AND UM) OR (v ! (i + 1) AND LM)
            in v[i := v ! (i + MM) XOR drop_bit 1 x XOR mag01_64 (x AND 1)]) v [0..<NN - MM];
          v = foldl (\<lambda>v i.
            let x = (v ! i AND UM) OR (v ! (i + 1) AND LM)
            in v[i := v ! (i + MM - NN) XOR drop_bit 1 x XOR mag01_64 (x AND 1)]) v [NN - MM..<NN - 1];
          x = (v ! (NN - 1) AND UM) OR (v ! 0 AND LM)
      in v[NN - 1 := v ! (MM - 1) XOR drop_bit 1 x XOR mag01_64 (x AND 1)])"

definition tempering64 :: "u64 \<Rightarrow> u64" where
  "tempering64 x =
     (let x = x XOR (drop_bit 29 x AND 0x5555555555555555);
          x = x XOR (push_bit 17 x AND 0x71D67FFFEDA60000);
          x = x XOR (push_bit 37 x AND 0xFFF7EEE000000000)
      in x XOR drop_bit 43 x)"

text \<open>
  \<open>genrand64_int64\<close> and \<open>init_by_urandom\<close> call each other; \<open>genrand64_core\<close> is the body of the
  first over what it calls to seed. The draws inside \<open>init_by_urandom\<close> come after
  \<open>init_by_array64\<close> set the index to \<open>NN\<close>, so none of them seeds again
  (lemma \<open>warm_up_ready\<close>); there the argument is the identity.
\<close>

definition genrand64_core :: "(mtstate \<Rightarrow> mtstate) \<Rightarrow> mtstate \<Rightarrow> u64 \<times> mtstate" where
  "genrand64_core seeding ob =
     (let ob = (if mt_i ob \<ge> NN then
                 (let ob = (if mt_i ob = NN + 1 then seeding ob else ob)
                  in \<lparr>mt_v = regenerate64 (mt_v ob), mt_i = 0\<rparr>)
               else ob);
          x = mt_v ob ! mt_i ob
      in (tempering64 x, ob\<lparr>mt_i := mt_i ob + 1\<rparr>))"

definition get_seed64 :: "u32 option \<Rightarrow> u32 \<Rightarrow> u32 \<Rightarrow> u64" where
  "get_seed64 urandom rnd now =
     (let seed = (case urandom of Some num \<Rightarrow> num | None \<Rightarrow> rnd)
      in push_bit 32 (ucast seed) OR ucast now)"

definition init_by_urandom :: "u64 list \<Rightarrow> mtstate \<Rightarrow> mtstate" where
  "init_by_urandom seeds ob =
     ((\<lambda>ob. snd (genrand64_core id ob)) ^^ 5000) (init_by_array64 ob (take 32 seeds))"

definition genrand64_int64 :: "u64 list \<Rightarrow> mtstate \<Rightarrow> u64 \<times> mtstate" where
  "genrand64_int64 seeds = genrand64_core (init_by_urandom seeds)"

definition genrand64_int63 :: "u64 list \<Rightarrow> mtstate \<Rightarrow> u64 \<times> mtstate" where
  "genrand64_int63 seeds ob = (let (x, ob) = genrand64_int64 seeds ob in (drop_bit 1 x, ob))"

text \<open>
  The double nearest to \<open>1/9007199254740991\<close> is \<open>(2^52 + 1) / 2^105\<close> (lemma \<open>REAL1_nearest\<close>).
\<close>

definition REAL1 :: nat where "REAL1 = 2 ^ 52 + 1"

definition genrand64_real1 :: "u64 list \<Rightarrow> mtstate \<Rightarrow> nat \<times> mtstate" where
  "genrand64_real1 seeds ob =
     (let (x, ob) = genrand64_int64 seeds ob in (rn53 (unat (drop_bit 11 x) * REAL1), ob))"

definition genrand64_real2 :: "u64 list \<Rightarrow> mtstate \<Rightarrow> nat \<times> mtstate" where
  "genrand64_real2 seeds ob =
     (let (x, ob) = genrand64_int64 seeds ob in (unat (drop_bit 11 x) * 2 ^ 52, ob))"

definition genrand64_real3 :: "u64 list \<Rightarrow> mtstate \<Rightarrow> nat \<times> mtstate" where
  "genrand64_real3 seeds ob =
     (let (x, ob) = genrand64_int64 seeds ob in ((2 * unat (drop_bit 12 x) + 1) * 2 ^ 52, ob))"

text \<open>
  The arguments are Lua integers, read as \<open>uint64_t\<close>. The sum and the product are doubles;
  converting a double outside the 64-bit range to a Lua integer is undefined (\<open>None\<close>).
\<close>

definition Lrandom :: "u64 list \<Rightarrow> mtstate \<Rightarrow> u64 list \<Rightarrow> (int \<times> mtstate) option" where
  "Lrandom seeds ob args =
     (case args of
        [] \<Rightarrow> (let (x, ob) = genrand64_int64 seeds ob in Some (sint x, ob))
      | a # rest \<Rightarrow>
        (let (mn, mx) = (case rest of [] \<Rightarrow> (1, a) | b # _ \<Rightarrow> (a, b));
             (mn, mx) = (if mn > mx then (mx, mn) else (mn, mx))
         in if mn > mx then Some (sint mn, ob)
            else (let (r, ob) = genrand64_real1 seeds ob;
                      r = rn53 (rn53 (unat mn) + rn53 (r * rn53 (unat (mx - mn + 1))) div 2 ^ 105)
                  in if r < 2 ^ 63 then Some (int r, ob) else None)))"

subsection \<open>Sequences of draws\<close>

definition twist64b :: "u64 \<Rightarrow> u64 \<Rightarrow> u64 \<Rightarrow> u64" where
  "twist64b a b c = (let x = (b AND UM) OR (c AND LM) in a XOR drop_bit 1 x XOR mag01_64 (x AND 1))"

interpretation mt64: twister 312 156 twist64b
  by unfold_locales simp_all

lemma regenerate64_twists:
  assumes "length v = 312"
  shows "regenerate64 v = foldl (twist_at 312 156 twist64b) v [0..<312]"
proof -
  let ?t = "twist_at 312 156 twist64b"
  have r: "[0..<312] = [0..<156] @ [156..<311] @ [311 :: nat]"
    using upt_add_eq_append [of 0 156 156] upt_add_eq_append [of 156 311 1] upt_conv_Cons [of 311 312]
    by (simp del: upt_rec_numeral)
  have 1: "foldl (\<lambda>v i. let x = (v ! i AND UM) OR (v ! (i + 1) AND LM)
            in v[i := v ! (i + MM) XOR drop_bit 1 x XOR mag01_64 (x AND 1)]) w [0..<156] = foldl ?t w [0..<156]"
    if "length w = 312" for w
    by (rule foldl_cong_on [OF _ _ that]) (auto simp: twist_at_def twist64b_def Let_def MM_def simp del: upt_rec_numeral)
  have 2: "foldl (\<lambda>v i. let x = (v ! i AND UM) OR (v ! (i + 1) AND LM)
            in v[i := v ! (i + MM - NN) XOR drop_bit 1 x XOR mag01_64 (x AND 1)]) w [156..<311] = foldl ?t w [156..<311]"
    if "length w = 312" for w
    by (rule foldl_cong_on [OF _ _ that])
      (auto simp: twist_at_def twist64b_def Let_def MM_def NN_def mod_if simp del: upt_rec_numeral)
  have len: "length (foldl ?t v js) = 312" for js
    using assms by (simp add: length_foldl_update)
  have 3: "(let x = (w ! 311 AND UM) OR (w ! 0 AND LM)
     in w[311 := w ! 155 XOR drop_bit 1 x XOR mag01_64 (x AND 1)]) = ?t w 311" for w
    by (simp add: twist_at_def twist64b_def Let_def)
  show ?thesis unfolding r
    using 1 [OF assms] 2 [OF len] 3 by (simp add: regenerate64_def NN_def MM_def del: upt_rec_numeral)
qed

text \<open>The state is in use: the next draw is number \<open>k\<close> of the sequence that starts from \<open>xs\<close>.\<close>

definition mt64_at :: "u64 list \<Rightarrow> nat \<Rightarrow> mtstate \<Rightarrow> bool" where
  "mt64_at xs k ob \<longleftrightarrow> mt_i ob \<le> 312 \<and> (\<exists>b. mt_v ob = mt64.window xs b \<and> k = b + mt_i ob)"

lemma genrand64_at:
  assumes "mt64_at xs k ob"
  shows "\<exists>ob'. genrand64_core sd ob = (tempering64 (recur 312 156 twist64b xs k), ob') \<and> mt64_at xs (Suc k) ob'"
proof -
  obtain b where b: "mt_v ob = mt64.window xs b" "k = b + mt_i ob" and i: "mt_i ob \<le> 312"
    using assms by (auto simp: mt64_at_def)
  show ?thesis
  proof (cases "mt_i ob < 312")
    case True
    then show ?thesis using b
      by (auto simp: genrand64_core_def NN_def Let_def mt64.window_nth mt64_at_def intro!: exI [of _ b])
  next
    case False
    with i have i: "mt_i ob = 312" by simp
    have "regenerate64 (mt_v ob) = mt64.window xs (b + 312)"
      using mt64.refill [of xs b] by (simp add: regenerate64_twists b(1))
    then show ?thesis using b i
      by (auto simp: genrand64_core_def NN_def Let_def mt64.window_nth mt64_at_def add.commute
          intro!: exI [of _ "b + 312"])
  qed
qed

fun genrands64 :: "u64 list \<Rightarrow> nat \<Rightarrow> mtstate \<Rightarrow> u64 list \<times> mtstate" where
  "genrands64 seeds 0 ob = ([], ob)"
| "genrands64 seeds (Suc n) ob =
     (let (y, ob) = genrand64_int64 seeds ob; (ys, ob) = genrands64 seeds n ob in (y # ys, ob))"

lemma genrands64_at:
  assumes "mt64_at xs k ob"
  shows "fst (genrands64 seeds n ob) = map (\<lambda>j. tempering64 (recur 312 156 twist64b xs (k + j))) [0..<n]
    \<and> mt64_at xs (k + n) (snd (genrands64 seeds n ob))"
  using assms
proof (induction n arbitrary: k ob)
  case (Suc n)
  obtain ob' where g: "genrand64_int64 seeds ob = (tempering64 (recur 312 156 twist64b xs k), ob')" "mt64_at xs (Suc k) ob'"
    unfolding genrand64_int64_def using genrand64_at [OF Suc.prems] by blast
  from Suc.IH [OF g(2)] show ?case
    by (auto simp: g(1) Let_def split: prod.splits simp del: upt_Suc simp: upt_conv_Cons map_Suc_upt [symmetric])
qed simp

lemma in_use: "length (mt_v ob) = 312 \<Longrightarrow> mt_i ob \<le> 312 \<Longrightarrow> mt64_at (mt_v ob) (mt_i ob) ob"
  by (auto simp: mt64_at_def mt64.window_0 intro!: exI [of _ 0])

lemma mt64_at_in_use: "mt64_at xs k ob \<Longrightarrow> length (mt_v ob) = 312 \<and> mt_i ob \<le> 312"
  by (auto simp: mt64_at_def)

lemma length_mix_key [simp]: "length (snd (mix_key k i j v key)) = length v"
  by (induction k i j v key rule: mix_key.induct) (simp_all add: Let_def)

lemma length_mix_index [simp]: "length (mix_index k i v) = length v"
  by (induction k i v rule: mix_index.induct) (simp_all add: Let_def)

lemma length_init64: "length (mt_v (init_genrand64 ob s)) = length (mt_v ob)"
  by (simp add: init_genrand64_def length_foldl_update)

lemma init_by_array64_ready:
  assumes "length (mt_v ob) = 312"
  shows "length (mt_v (init_by_array64 ob key)) = 312" and "mt_i (init_by_array64 ob key) = 312"
    and "mt_v (init_by_array64 ob key) ! 0 = push_bit 63 1"
proof -
  let ?ob = "init_genrand64 ob 19650218"
  obtain i v where v: "mix_key (if NN > length key then NN else length key) 1 0 (mt_v ?ob) key = (i, v)"
    by (cases "mix_key (if NN > length key then NN else length key) 1 0 (mt_v ?ob) key") auto
  have "length v = 312" using length_mix_key [of _ 1 0 "mt_v ?ob" key] assms
    by (metis v length_init64 snd_conv)
  then have len: "length (mix_index (NN - 1) i v) = 312" by simp
  have e: "init_by_array64 ob key = ?ob\<lparr>mt_v := (mix_index (NN - 1) i v)[0 := push_bit 63 1]\<rparr>"
    by (simp only: init_by_array64_def Let_def v prod.case)
  have i: "mt_i ?ob = 312" by (simp add: init_genrand64_def NN_def)
  show "length (mt_v (init_by_array64 ob key)) = 312" unfolding e using len by simp
  show "mt_i (init_by_array64 ob key) = 312" unfolding e using i by simp
  have "0 < length (mix_index (NN - 1) i v)" using len by linarith
  then show "mt_v (init_by_array64 ob key) ! 0 = push_bit 63 1"
    unfolding e by (cases ?ob) simp
qed

lemma warm_up_ready:
  assumes "length (mt_v ob) = 312" and "mt_i ob \<le> 312"
  shows "length (mt_v (((\<lambda>ob. snd (genrand64_core sd ob)) ^^ n) ob)) = 312
    \<and> mt_i (((\<lambda>ob. snd (genrand64_core sd ob)) ^^ n) ob) \<le> 312"
proof (induction n)
  case (Suc n)
  let ?ob = "((\<lambda>ob. snd (genrand64_core sd ob)) ^^ n) ob"
  from Suc have "mt64_at (mt_v ?ob) (mt_i ?ob) ?ob" by (intro in_use) auto
  from genrand64_at [OF this, of sd] obtain ob' where "snd (genrand64_core sd ?ob) = ob'" "length (mt_v ob') = 312" "mt_i ob' \<le> 312"
    using mt64_at_in_use by (metis snd_conv)
  then show ?case by simp
qed (use assms in simp)

lemma init_by_urandom_ready:
  assumes "length (mt_v ob) = 312"
  shows "length (mt_v (init_by_urandom seeds ob)) = 312"
  unfolding init_by_urandom_def using init_by_array64_ready [OF assms] warm_up_ready by simp

lemma first_draw:
  assumes "length (mt_v ob) = 312" and "mt_i ob = 313"
  shows "genrand64_int64 seeds ob = genrand64_int64 seeds \<lparr>mt_v = mt_v (init_by_urandom seeds ob), mt_i = 312\<rparr>"
  using assms by (simp add: genrand64_int64_def genrand64_core_def NN_def)

lemma REAL1_nearest: "2 * \<bar>2 ^ 105 - int REAL1 * (2 ^ 53 - 1)\<bar> < 2 ^ 53 - 1"
  by (simp add: REAL1_def)

subsection \<open>The reference generator\<close>

text \<open>
  MT19937-64 as published, on its own constants: word size 64, degree 312, middle word 156, separation
  point 31, the twist matrix and the tempering; and its seeding from an array of numbers as three
  sequences, one for each loop over the state. Every word that a loop writes depends on the word written
  before it, since word 0 repeats word 311.\<close>

definition ref_twist64 :: "u64 \<Rightarrow> u64 \<Rightarrow> u64 \<Rightarrow> u64" where
  "ref_twist64 far x next =
     (let y = (x AND NOT (mask 31)) OR (next AND mask 31)
      in far XOR drop_bit 1 y XOR (if bit y 0 then 0xB5026F5AA96619E9 else 0))"

definition ref_temper64 :: "u64 \<Rightarrow> u64" where
  "ref_temper64 x =
     (let z1 = x XOR (drop_bit 29 x AND 0x5555555555555555);
          z2 = z1 XOR (push_bit 17 z1 AND 0x71D67FFFEDA60000);
          z3 = z2 XOR (push_bit 37 z2 AND 0xFFF7EEE000000000)
      in z3 XOR drop_bit 43 z3)"

definition mt19937_64 :: "u64 list \<Rightarrow> nat \<Rightarrow> u64" where
  "mt19937_64 xs k = ref_temper64 (recur 312 156 ref_twist64 xs k)"

fun ref_init64 :: "u64 \<Rightarrow> nat \<Rightarrow> u64" where
  "ref_init64 s 0 = s"
| "ref_init64 s (Suc k) = (let p = ref_init64 s k in 6364136223846793005 * (p XOR drop_bit 62 p) + of_nat (Suc k))"

function key_mix :: "u64 list \<Rightarrow> nat \<Rightarrow> u64" where
  "key_mix key k =
     (if k = 0 then ref_init64 19650218 0
      else let p = key_mix key (k - 1); old = (if k \<le> 311 then ref_init64 19650218 k else key_mix key (k - 311)); j = (k - 1) mod length key
           in (old XOR ((p XOR drop_bit 62 p) * 3935559000370003845)) + key ! j + of_nat j)"
  by pat_completeness auto
termination by (relation "measure snd") auto

declare key_mix.simps [simp del]

fun index_mix :: "u64 list \<Rightarrow> nat \<Rightarrow> u64" where
  "index_mix key 0 = key_mix key 312"
| "index_mix key (Suc m) =
     (let p = index_mix key m
      in (key_mix key (m + 2) XOR ((p XOR drop_bit 62 p) * 2862933555777941757)) - of_nat (if m = 310 then 1 else m + 2))"

definition ref_seed64 :: "u64 list \<Rightarrow> u64 list" where
  "ref_seed64 key = 2 ^ 63 # map (\<lambda>i. index_mix key (if i = 1 then 311 else i - 1)) [1..<312]"

text \<open>The first output for the published default seed.\<close>

lemma mt19937_64_first:
  "mt19937_64 (map (ref_init64 5489) [0..<312]) 312 = 14514284786278117030"
proof -
  have "ref_temper64 (ref_twist64 (ref_init64 5489 156) (ref_init64 5489 0) (ref_init64 5489 1)) = 14514284786278117030"
    by code_simp
  then show ?thesis
    unfolding mt19937_64_def by (subst recur.simps) (simp add: recur.simps del: upt_rec_numeral ref_init64.simps)
qed

lemma tempering64_ref: "tempering64 = ref_temper64"
  by (simp add: fun_eq_iff tempering64_def ref_temper64_def Let_def)

lemma twist64b_ref: "twist64b = ref_twist64"
proof -
  have m: "UM = NOT (mask 31)" "LM = mask 31" by (simp_all add: UM_def LM_def mask_eq_exp_minus_1)
  have b: "x AND 1 = 0 \<longleftrightarrow> \<not> bit x 0" for x :: u64
    by (simp add: and_one_eq bit_0 odd_iff_mod_2_eq_one)
  show ?thesis
    by (simp add: fun_eq_iff twist64b_def ref_twist64_def Let_def mag01_64_def MATRIX_A64_def m b xor.assoc)
qed

lemma init_genrand64_ref:
  assumes "length (mt_v ob) = 312"
  shows "mt_v (init_genrand64 ob s) = map (ref_init64 s) [0..<312]"
proof -
  let ?f = "\<lambda>v i. v[i := 6364136223846793005 * (v ! (i - 1) XOR drop_bit 62 (v ! (i - 1))) + of_nat i]"
  have "k \<le> 311 \<Longrightarrow> (let v = foldl ?f ((mt_v ob)[0 := s]) [1..<Suc k] in length v = 312 \<and> (\<forall>i \<le> k. v ! i = ref_init64 s i))" for k
  proof (induction k)
    case 0
    then show ?case using assms by simp
  next
    case (Suc k)
    have "[1..<Suc (Suc k)] = [1..<Suc k] @ [Suc k]" by simp
    then show ?case using Suc by (auto simp: Let_def nth_list_update le_Suc_eq)
  qed
  from this [of 311] show ?thesis
    by (intro nth_equalityI) (simp_all add: init_genrand64_def NN_def Let_def del: upt_rec_numeral)
qed

text \<open>The first loop is the sequence \<open>key_mix\<close>: \<open>n\<close> steps are done.\<close>

definition mixing :: "u64 list \<Rightarrow> nat \<Rightarrow> u64 list \<Rightarrow> bool" where
  "mixing key n v \<longleftrightarrow> length v = 312 \<and> v ! 0 = (if n = 311 then key_mix key 311 else key_mix key 0)
     \<and> (\<forall>w. 1 \<le> w \<and> w \<le> 311 \<longrightarrow> v ! w = (if w \<le> n then key_mix key w else ref_init64 19650218 w))"

lemma mix_key_step:
  assumes "mixing key n v" and "n < 311" and "key \<noteq> []"
  shows "\<exists>v'. mixing key (Suc n) v' \<and> mix_key (Suc r) (n + 1) (n mod length key) v key
    = mix_key r (if Suc n = 311 then 1 else Suc n + 1) (Suc n mod length key) v' key"
proof -
  have v: "length v = 312" "v ! n = key_mix key n" "v ! (n + 1) = ref_init64 19650218 (n + 1)"
    using assms(1,2) by (cases n; simp add: mixing_def)+
  define x where "x = (v ! (n + 1) XOR ((v ! n XOR drop_bit 62 (v ! n)) * 3935559000370003845)) + key ! (n mod length key) + of_nat (n mod length key)"
  have x: "key_mix key (Suc n) = x"
    using assms(2) v(3) by (subst key_mix.simps) (simp add: v(2) x_def Let_def del: ref_init64.simps)
  let ?v = "if Suc n = 311 then v[n + 1 := x, 0 := x] else v[n + 1 := x]"
  have "mixing key (Suc n) ?v"
    using assms(1,2) x by (auto simp: mixing_def nth_list_update le_Suc_eq)
  moreover have "Suc n mod length key = (if n mod length key + 1 \<ge> length key then 0 else n mod length key + 1)"
    using assms(3) mod_less_divisor [of "length key" n] by (auto simp: mod_Suc simp del: mod_less_divisor)
  ultimately show ?thesis
    using assms(2) v(1) by (intro exI [of _ ?v]) (auto simp: x_def Let_def NN_def)
qed

lemma mix_key_steps:
  assumes "mixing key n v" and "n + k \<le> 311" and "key \<noteq> []"
  shows "\<exists>v'. mixing key (n + k) v' \<and> mix_key (k + r) (if n = 311 then 1 else n + 1) (n mod length key) v key
    = mix_key r (if n + k = 311 then 1 else n + k + 1) ((n + k) mod length key) v' key"
  using assms(1,2)
proof (induction k arbitrary: n v)
  case (Suc k)
  then obtain v1 where v1: "mixing key (Suc n) v1" "mix_key (Suc (k + r)) (n + 1) (n mod length key) v key
    = mix_key (k + r) (if Suc n = 311 then 1 else Suc n + 1) (Suc n mod length key) v1 key"
    using mix_key_step [OF Suc.prems(1) _ assms(3), of "k + r"] by auto
  from Suc.IH [OF v1(1)] Suc.prems(2) obtain v' where "mixing key (Suc n + k) v'"
    "mix_key (k + r) (if Suc n = 311 then 1 else Suc n + 1) (Suc n mod length key) v1 key
      = mix_key r (if Suc n + k = 311 then 1 else Suc n + k + 1) ((Suc n + k) mod length key) v' key" by auto
  with v1(2) Suc.prems(2) show ?case by (intro exI [of _ v']) (simp del: mix_key.simps)
qed auto

text \<open>The second loop goes on from word 2.\<close>

definition indexing :: "u64 list \<Rightarrow> nat \<Rightarrow> u64 list \<Rightarrow> bool" where
  "indexing key m v \<longleftrightarrow> length v = 312 \<and> (m = 310 \<longrightarrow> v ! 0 = index_mix key 310)
     \<and> (\<forall>w. 1 \<le> w \<and> w \<le> 311 \<longrightarrow> v ! w = (if w \<le> m + 1 then index_mix key (w - 1) else key_mix key w))"

lemma mix_index_step:
  assumes "indexing key m v" and "m < 310"
  shows "\<exists>v'. indexing key (Suc m) v' \<and> mix_index (Suc r) (m + 2) v = mix_index r (if Suc m = 310 then 1 else Suc m + 2) v'"
proof -
  have v: "length v = 312" "v ! (m + 1) = index_mix key m" "v ! (m + 2) = key_mix key (m + 2)"
    using assms by (simp_all add: indexing_def)
  define x where "x = (v ! (m + 2) XOR ((v ! (m + 1) XOR drop_bit 62 (v ! (m + 1))) * 2862933555777941757)) - of_nat (m + 2)"
  have x: "index_mix key (Suc m) = x"
    using assms(2) by (simp only: index_mix.simps v Let_def x_def) simp
  let ?v = "if Suc m = 310 then v[m + 2 := x, 0 := x] else v[m + 2 := x]"
  have "w \<le> Suc m + 1 \<longleftrightarrow> w \<le> m + 1 \<or> w = m + 2" for w by auto
  then have "indexing key (Suc m) ?v"
    using assms x by (auto simp: indexing_def nth_list_update simp del: index_mix.simps)
  moreover have "mix_index (Suc r) (m + 2) v = mix_index r (if Suc m = 310 then 1 else Suc m + 2) ?v"
    using assms(2) v(1) by (auto simp: x_def Let_def NN_def)
  ultimately show ?thesis by blast
qed

lemma mix_index_steps:
  assumes "indexing key m v" and "m + k \<le> 310"
  shows "\<exists>v'. indexing key (m + k) v' \<and> mix_index (k + r) (if m = 310 then 1 else m + 2) v
    = mix_index r (if m + k = 310 then 1 else m + k + 2) v'"
  using assms
proof (induction k arbitrary: m v)
  case (Suc k)
  then obtain v1 where v1: "indexing key (Suc m) v1"
    "mix_index (Suc (k + r)) (m + 2) v = mix_index (k + r) (if Suc m = 310 then 1 else Suc m + 2) v1"
    using mix_index_step [OF Suc.prems(1), of "k + r"] by auto
  from Suc.IH [OF v1(1)] Suc.prems(2) obtain v' where "indexing key (Suc m + k) v'"
    "mix_index (k + r) (if Suc m = 310 then 1 else Suc m + 2) v1 = mix_index r (if Suc m + k = 310 then 1 else Suc m + k + 2) v'" by auto
  with v1(2) Suc.prems(2) show ?case by (intro exI [of _ v']) (simp del: mix_index.simps)
qed auto

lemma init_by_array64_ref:
  assumes "length (mt_v ob) = 312" and "key \<noteq> []" and "length key \<le> 312"
  shows "mt_v (init_by_array64 ob key) = ref_seed64 key"
proof -
  let ?ob = "init_genrand64 ob 19650218"
  have "mixing key 0 (mt_v ?ob)"
    by (simp add: mixing_def init_genrand64_ref [OF assms(1)] key_mix.simps del: upt_rec_numeral)
  from mix_key_steps [OF this _ assms(2), of 311 1]
  have "\<exists>v1. mixing key 311 v1 \<and> mix_key 312 1 0 (mt_v ?ob) key = mix_key 1 1 (311 mod length key) v1 key"
    by (simp del: mix_key.simps)
  then obtain v1 where v1: "mixing key 311 v1" "mix_key 312 1 0 (mt_v ?ob) key = mix_key 1 1 (311 mod length key) v1 key" by blast
  define x where "x = (v1 ! 1 XOR ((v1 ! 0 XOR drop_bit 62 (v1 ! 0)) * 3935559000370003845)) + key ! (311 mod length key) + of_nat (311 mod length key)"
  have "key_mix key 312 = x"
    using v1(1) by (subst key_mix.simps) (simp add: mixing_def x_def Let_def)
  then have "indexing key 0 (v1[1 := x])"
    using v1(1) by (auto simp: indexing_def mixing_def nth_list_update)
  from mix_index_steps [OF this, of 310 1]
  have "\<exists>v2. indexing key 310 v2 \<and> mix_index 311 2 (v1[1 := x]) = mix_index 1 1 v2"
    by (simp add: numeral_2_eq_2 del: mix_index.simps)
  then obtain v2 where v2: "indexing key 310 v2" "mix_index 311 2 (v1[1 := x]) = mix_index 1 1 v2" by blast
  define y where "y = (v2 ! 1 XOR ((v2 ! 0 XOR drop_bit 62 (v2 ! 0)) * 2862933555777941757)) - 1"
  have "index_mix key (Suc 310) = y"
    using v2(1) by (simp only: index_mix.simps Let_def) (simp add: indexing_def y_def)
  then have y: "index_mix key 311 = y" by simp
  have "mix_key 312 1 0 (mt_v ?ob) key = (2, v1[1 := x])" using v1 by (simp add: x_def Let_def NN_def)
  moreover have "mix_index 311 2 (v1[1 := x]) = v2[1 := y]" using v2(2) by (simp add: y_def Let_def NN_def)
  ultimately have e: "mt_v (init_by_array64 ob key) = v2[1 := y, 0 := push_bit 63 1]"
    using assms(3) by (simp add: init_by_array64_def Let_def NN_def max_def)
  have l: "length v2 = 312" using v2(1) by (simp add: indexing_def)
  show ?thesis unfolding e
  proof (rule nth_equalityI)
    show "length (v2[1 := y, 0 := push_bit 63 1]) = length (ref_seed64 key)" using l by (simp add: ref_seed64_def)
    fix i assume i: "i < length (v2[1 := y, 0 := push_bit 63 1])"
    consider "i = 0" | "i = 1" | "2 \<le> i" by linarith
    then show "v2[1 := y, 0 := push_bit 63 1] ! i = ref_seed64 key ! i"
    proof cases
      case 1
      then show ?thesis using l by (simp add: ref_seed64_def)
    next
      case 2
      then show ?thesis using l y by (simp add: ref_seed64_def del: upt_rec_numeral)
    next
      case 3
      then show ?thesis using l i v2(1) by (simp add: ref_seed64_def nth_Cons' indexing_def del: upt_rec_numeral)
    qed
  qed
qed

text \<open>The window starts at a multiple of 312, so the warm-up ends with word 8 of a window.\<close>

lemma warm_up_window:
  assumes "mt_v ob = mt64.window xs 0" and "mt_i ob = 312"
  shows "\<exists>q. let ob' = ((\<lambda>ob. snd (genrand64_core sd ob)) ^^ n) ob
    in mt_v ob' = mt64.window xs (312 * q) \<and> 312 * q + mt_i ob' = 312 + n \<and> 1 \<le> mt_i ob' \<and> mt_i ob' \<le> 312"
proof (induction n)
  case 0
  then show ?case using assms by (intro exI [of _ 0]) simp
next
  case (Suc n)
  let ?ob = "((\<lambda>ob. snd (genrand64_core sd ob)) ^^ n) ob"
  obtain q where q: "mt_v ?ob = mt64.window xs (312 * q)" "312 * q + mt_i ?ob = 312 + n" "1 \<le> mt_i ?ob" "mt_i ?ob \<le> 312"
    using Suc by (auto simp: Let_def)
  show ?case
  proof (cases "mt_i ?ob < 312")
    case True
    then show ?thesis using q by (intro exI [of _ q]) (simp add: genrand64_core_def Let_def NN_def)
  next
    case False
    with q have i: "mt_i ?ob = 312" by simp
    have "regenerate64 (mt_v ?ob) = mt64.window xs (312 * Suc q)"
      using mt64.refill [of xs "312 * q"] by (simp add: regenerate64_twists q(1) add.commute)
    with i q show ?thesis by (intro exI [of _ "Suc q"]) (simp add: genrand64_core_def Let_def NN_def)
  qed
qed

lemma init_by_urandom_window:
  assumes "length (mt_v ob) = 312" and "32 \<le> length seeds"
  shows "mt_v (init_by_urandom seeds ob) = mt64.window (ref_seed64 (take 32 seeds)) 5304"
proof -
  let ?xs = "ref_seed64 (take 32 seeds)" and ?ob = "init_by_array64 ob (take 32 seeds)"
  have "take 32 seeds \<noteq> []" "length (take 32 seeds) \<le> 312" using assms(2) by auto
  from init_by_array64_ref [OF assms(1) this] init_by_array64_ready [OF assms(1), of "take 32 seeds"]
  have "mt_v ?ob = mt64.window ?xs 0" "mt_i ?ob = 312" by (simp_all add: mt64.window_0)
  from warm_up_window [OF this, where sd = id and n = 5000] obtain q where
    q: "mt_v (init_by_urandom seeds ob) = mt64.window ?xs (312 * q)" "312 * q + mt_i (init_by_urandom seeds ob) = 5312"
      "1 \<le> mt_i (init_by_urandom seeds ob)" "mt_i (init_by_urandom seeds ob) \<le> 312"
    unfolding init_by_urandom_def Let_def by auto
  then have "q = 17" by presburger
  with q show ?thesis by simp
qed

subsection \<open>Properties\<close>

text \<open>
  C30: the draws of \<open>genrand64_int64\<close> are the outputs of the MT19937-64 reference generator, however
  often the state was refilled in place: for a generator in use, on from its words and its index; for a
  fresh one, which is seeded exactly once, those of the reference seeded from the array of the 32 values
  read, from word 5616 on. The warm-up of 5000 draws ends in the middle of a window, and the rest of that
  window is skipped.\<close>

theorem genrands64_recurrence:
  assumes "length (mt_v ob) = 312" and "mt_i ob \<le> 313" and "32 \<le> length seeds"
  shows "fst (genrands64 seeds n ob) =
    (let (xs, k) = (if mt_i ob = 313 then (ref_seed64 (take 32 seeds), 5616) else (mt_v ob, mt_i ob))
     in map (\<lambda>j. mt19937_64 xs (k + j)) [0..<n])"
proof (cases "mt_i ob = 313")
  case True
  let ?ob = "\<lparr>mt_v = mt_v (init_by_urandom seeds ob), mt_i = 312\<rparr>"
  have "genrands64 seeds n ob = genrands64 seeds n ?ob" if "n \<noteq> 0"
    using that first_draw [OF assms(1) True, of seeds] by (cases n) simp_all
  moreover have "mt64_at (ref_seed64 (take 32 seeds)) 5616 ?ob"
    using init_by_urandom_window [OF assms(1,3)] by (auto simp: mt64_at_def)
  ultimately show ?thesis
    using True genrands64_at [of "ref_seed64 (take 32 seeds)" 5616 ?ob seeds n]
    by (cases "n = 0") (auto simp: mt19937_64_def tempering64_ref twist64b_ref simp del: upt_rec_numeral)
next
  case False
  then have "mt_i ob \<le> 312" using assms(2) by simp
  from genrands64_at [OF in_use [OF assms(1) this]] False show ?thesis
    by (simp add: mt19937_64_def tempering64_ref twist64b_ref)
qed

lemma genrands64_recurrence_witness:
  "fst (genrands64 (replicate 32 7) 500 \<lparr>mt_v = replicate 312 1, mt_i = 313\<rparr>) =
    map (\<lambda>j. mt19937_64 (ref_seed64 (replicate 32 7)) (5616 + j)) [0..<500]"
  using genrands64_recurrence [of "\<lparr>mt_v = replicate 312 1, mt_i = 313\<rparr>" "replicate 32 7" 500]
  by (simp del: upt_rec_numeral)

lemma real1_full: "2 ^ 53 - 2 \<le> k \<Longrightarrow> k < 2 ^ 53 \<Longrightarrow> rn53 (k * REAL1) = 2 ^ 105"
proof -
  assume "2 ^ 53 - 2 \<le> k" "k < 2 ^ 53"
  then consider "k = 2 ^ 53 - 2" | "k = 2 ^ 53 - 1" by fastforce
  then show ?thesis
  proof cases
    case 1
    then have "excess (k * REAL1) = 52"
      using nbits_eqI [of 104 "k * REAL1"] by (simp add: excess_def REAL1_def)
    with 1 show ?thesis by (simp add: rn53_def REAL1_def)
  next
    case 2
    then have "excess (k * REAL1) = 53"
      using nbits_eqI [of 105 "k * REAL1"] by (simp add: excess_def REAL1_def)
    with 2 show ?thesis by (simp add: rn53_def REAL1_def)
  qed
qed

lemma real1_below: "k < 2 ^ 53 - 2 \<Longrightarrow> rn53 (k * REAL1) \<le> 2 ^ 105 - 2 ^ 52"
proof (rule rn53_le)
  assume "k < 2 ^ 53 - 2"
  then have k: "k * REAL1 \<le> (2 ^ 53 - 3) * REAL1" by (intro mult_le_mono1) simp
  also have "\<dots> \<le> 2 ^ 105 - 2 ^ 52" by (simp add: REAL1_def)
  finally show "k * REAL1 \<le> 2 ^ 105 - 2 ^ 52" .
  then have "k * REAL1 < 2 ^ (53 + 52)" by simp
  then have "excess (k * REAL1) \<le> 52" by (rule excess_le)
  then have "(2 :: nat) ^ excess (k * REAL1) dvd 2 ^ 52" by (rule le_imp_power_dvd)
  also have "(2 :: nat) ^ 52 dvd 2 ^ 105 - 2 ^ 52" by simp
  finally show "2 ^ excess (k * REAL1) dvd (2 ^ 105 - 2 ^ 52 :: nat)" .
qed

lemma scaled_below:
  assumes "R \<le> 2 ^ 105 - 2 ^ 52" and "0 < n" and "n \<le> 2 ^ 53"
  shows "rn53 (R * n) div 2 ^ 105 < n"
proof -
  have le: "R * n \<le> (2 ^ 105 - 2 ^ 52) * n" using assms(1) by (rule mult_le_mono1)
  then have k: "2 * (R * n) + 2 ^ 53 * n \<le> 2 * (2 ^ 105 * n)" by (simp add: diff_mult_distrib)
  have s: "2 ^ excess (R * n) < 2 ^ 53 * n"
  proof (cases "excess (R * n) = 0")
    case False
    then have "2 ^ (excess (R * n) + 52) \<le> R * n" by (intro excess_lower) simp
    also have "\<dots> < 2 ^ 105 * n" using k assms(2) by simp
    finally show ?thesis by (simp add: power_add)
  qed (use assms(2) in simp)
  also have "2 ^ 53 * n \<le> 2 ^ 106" using assms(3) by simp
  finally have "excess (R * n) < 106" by (rule power_less_imp_less_exp [rotated]) simp
  then have "(2 :: nat) ^ excess (R * n) dvd 2 ^ 105" by (intro le_imp_power_dvd) simp
  then have "2 ^ excess (R * n) dvd 2 ^ 105 * n" by (rule dvd_mult2)
  moreover have "2 * (R * n) + 2 ^ excess (R * n) < 2 * (2 ^ 105 * n)" using k s by linarith
  ultimately have "rn53 (R * n) < 2 ^ 105 * n" by (rule rn53_below)
  then show ?thesis by (simp add: less_mult_imp_div_less mult.commute)
qed

text \<open>
  C31: for bounds below \<open>2^53 - 1\<close>, \<open>random(a, b)\<close> stays between its bounds unless the 64-bit draw
  is one of the 4096 largest; then it returns the larger bound plus one, because
  \<open>genrand64_real1\<close> ranges over the closed interval from 0 to 1.\<close>

theorem Lrandom_range:
  assumes "unat a < 2 ^ 53 - 1" and "unat b < 2 ^ 53 - 1" and "genrand64_int64 seeds ob = (x, ob')"
  shows "\<exists>r. Lrandom seeds ob [a, b] = Some (int r, ob') \<and>
    (if unat x < 2 ^ 64 - 2 ^ 12 then min (unat a) (unat b) \<le> r \<and> r \<le> max (unat a) (unat b)
     else r = max (unat a) (unat b) + 1)"
proof -
  define mn mx where "mn = min a b" and "mx = max a b"
  define n k where "n = unat (mx - mn + 1)" and "k = unat (drop_bit 11 x)"
  have u: "unat mn = min (unat a) (unat b)" "unat mx = max (unat a) (unat b)"
    by (auto simp: mn_def mx_def min_def max_def word_le_nat_alt)
  have n: "n = unat mx - unat mn + 1"
  proof -
    have "mn \<le> mx" by (auto simp: mn_def mx_def min_def max_def)
    then have "unat (mx - mn) = unat mx - unat mn" by (rule unat_sub)
    moreover have "unat mx - unat mn + 1 < 2 ^ 64" using assms(1,2) u by simp
    ultimately show ?thesis unfolding n_def by (subst unat_word_ariths) simp
  qed
  have nb: "0 < n" "n < 2 ^ 53" "unat mn < 2 ^ 53" using assms(1,2) u n by auto
  define f where "f = rn53 (rn53 (k * REAL1) * rn53 n) div 2 ^ 105"
  have kx: "k = unat x div 2 ^ 11" by (simp only: k_def unat_drop)
  have f: "if unat x < 2 ^ 64 - 2 ^ 12 then f < n else f = n"
  proof (cases "unat x < 2 ^ 64 - 2 ^ 12")
    case True
    then have "k < 2 ^ 53 - 2" unfolding kx by simp
    then show ?thesis using True scaled_below [OF real1_below nb(1)] nb by (simp add: f_def rn53_exact)
  next
    case False
    have "unat x < 2 ^ 64" by (rule less_le_trans [OF unsigned_less]) simp
    with False have "2 ^ 53 - 2 \<le> k" "k < 2 ^ 53" unfolding kx by simp_all
    from real1_full [OF this] nb show ?thesis using False rn53_shift [of n 105]
      by (simp only: f_def rn53_exact mult.commute) simp
  qed
  have sum: "rn53 (rn53 (unat mn) + f) = unat mn + f" "unat mn + f < 2 ^ 63"
  proof -
    have "f \<le> n" using f by (simp split: if_splits)
    moreover have "unat mn \<le> unat mx" "unat mx < 2 ^ 53 - 1" using u assms(1,2) by simp_all
    ultimately have "unat mn + f < 2 ^ 53" using n by linarith
    then show "rn53 (rn53 (unat mn) + f) = unat mn + f" "unat mn + f < 2 ^ 63"
      using nb(3) by (simp_all add: rn53_exact)
  qed
  have "Lrandom seeds ob [a, b] = Some (int (unat mn + f), ob')"
  proof -
    have "\<not> mn > mx" by (auto simp: mn_def mx_def min_def max_def)
    have sw: "(if a > b then (b, a) else (a, b)) = (mn, mx)" by (auto simp: mn_def mx_def min_def max_def)
    have r1: "genrand64_real1 seeds ob = (rn53 (k * REAL1), ob')"
      by (simp only: genrand64_real1_def assms(3) Let_def prod.case k_def)
    show ?thesis using \<open>\<not> mn > mx\<close> sum(2)
      by (simp only: Lrandom_def list.case Let_def prod.case sw r1 if_False sum(1) flip: n_def f_def) simp
  qed
  moreover have "if unat x < 2 ^ 64 - 2 ^ 12 then unat mn \<le> unat mn + f \<and> unat mn + f \<le> unat mx
     else unat mn + f = unat mx + 1"
  proof -
    have "unat mn \<le> unat mx" using u by simp
    with f n show ?thesis by (cases "unat x < 2 ^ 64 - 2 ^ 12") simp_all
  qed
  ultimately show ?thesis unfolding u by blast
qed

lemma Lrandom_range_witness:
  "\<exists>r. Lrandom [] \<lparr>mt_v = replicate 312 0x3a9803feaa40155, mt_i = 0\<rparr> [1, 6]
      = Some (int r, \<lparr>mt_v = replicate 312 0x3a9803feaa40155, mt_i = 1\<rparr>) \<and>
    (if unat (- 1 :: u64) < 2 ^ 64 - 2 ^ 12 then min (unat (1 :: u64)) (unat (6 :: u64)) \<le> r \<and> r \<le> max (unat (1 :: u64)) (unat (6 :: u64))
     else r = max (unat (1 :: u64)) (unat (6 :: u64)) + 1)"
proof (rule Lrandom_range)
  show "genrand64_int64 [] \<lparr>mt_v = replicate 312 0x3a9803feaa40155, mt_i = 0\<rparr> = (- 1, \<lparr>mt_v = replicate 312 0x3a9803feaa40155, mt_i = 1\<rparr>)"
    by (simp add: genrand64_int64_def genrand64_core_def NN_def Let_def tempering64_def)
qed simp_all

text \<open>
  With a negative and a positive bound, \<open>random(a, b)\<close> never returns anything below the
  positive one: the bounds are compared as unsigned numbers.\<close>

theorem Lrandom_negative:
  assumes "sint a < 0" and "0 \<le> sint b" and "unat b < 2 ^ 53"
    and "Lrandom seeds ob [a, b] = Some (r, ob') \<or> Lrandom seeds ob [b, a] = Some (r, ob')"
  shows "sint b \<le> r"
proof -
  have "bit a 63" "\<not> bit b 63" using assms(1,2) by (simp_all add: sint_uint bit_unsigned_iff)
  then have "bit (unat a) 63" "\<not> bit (unat b) 63" by (simp_all add: bit_unsigned_iff)
  then have "odd (unat a div 2 ^ 63)" "even (unat b div 2 ^ 63)" unfolding bit_iff_odd by simp_all
  moreover have "unat b < 2 ^ 64" by (rule less_le_trans [OF unsigned_less]) simp
  then have "unat b div 2 ^ 63 < 2" by (simp add: div_less_iff_less_mult)
  ultimately have "unat a div 2 ^ 63 \<noteq> 0" and "unat b div 2 ^ 63 = 0" by (auto simp: less_2_cases_iff odd_pos)
  then have "b < a" by (simp add: word_less_nat_alt div_eq_0_iff)
  obtain q ob1 where r1: "genrand64_real1 seeds ob = (q, ob1)" by (cases "genrand64_real1 seeds ob")
  define f where "f = rn53 (q * rn53 (unat (a - b + 1))) div 2 ^ 105"
  have "r = int (rn53 (rn53 (unat b) + f))"
    using assms(4) \<open>b < a\<close> by (auto simp: Lrandom_def r1 Let_def f_def split: if_splits)
  moreover have "unat b \<le> rn53 (unat b + f)" by (rule rn53_ge) (use assms(3) in simp_all)
  moreover have "sint b = int (unat b)"
  proof -
    have u: "uint b = int (unat b)" by (rule uint_nat)
    have "unat b < 2 ^ 63" using assms(3) by simp
    then have "int (unat b) < int (2 ^ 63)" by (simp only: of_nat_less_iff)
    then have "int (unat b) < 2 ^ 63" by (simp only: of_nat_power of_nat_numeral)
    then have "take_bit 63 (uint b) = uint b" unfolding u by (intro take_bit_int_eq_self of_nat_0_le_iff)
    then show ?thesis
      using \<open>\<not> bit b 63\<close> by (simp add: sint_uint signed_take_bit_eq_if_positive bit_uint_iff)
  qed
  moreover have "rn53 (unat b) = unat b" using assms(3) by (rule rn53_exact)
  ultimately show ?thesis by (simp only: of_nat_le_iff)
qed

lemma negative_run:
  "genrand64_int64 [] \<lparr>mt_v = replicate 312 0x82400024101001, mt_i = 0\<rparr> = (0x80000000000000, \<lparr>mt_v = replicate 312 0x82400024101001, mt_i = 1\<rparr>)"
  by (simp add: genrand64_int64_def genrand64_core_def NN_def Let_def tempering64_def)

lemma negative_rounding:
  "rn53 79228162514264355185729994752 = 79228162514264355185729994752"
  "rn53 18446744073709551607 = 18446744073709551616"
  "rn53 1461501637330903242722238491143009802811953119232 = 1461501637330903242722238491143009802811953119232"
  "rn53 36028797018963981 = 36028797018963984"
  by (simp_all add: rn53_def excess_def nbits_numeral)

lemma Lrandom_negative_witness: "sint (5 :: u64) \<le> 36028797018963984"
proof (rule Lrandom_negative)
  show "Lrandom [] \<lparr>mt_v = replicate 312 0x82400024101001, mt_i = 0\<rparr> [- 5, 5]
      = Some (36028797018963984, \<lparr>mt_v = replicate 312 0x82400024101001, mt_i = 1\<rparr>) \<or>
    Lrandom [] \<lparr>mt_v = replicate 312 0x82400024101001, mt_i = 0\<rparr> [5, - 5]
      = Some (36028797018963984, \<lparr>mt_v = replicate 312 0x82400024101001, mt_i = 1\<rparr>)"
    by (simp add: Lrandom_def genrand64_real1_def negative_run REAL1_def negative_rounding rn53_exact)
qed simp_all

end
