(* ===== verification/Alloc.thy ===== *)
theory Alloc
  imports Prelude
begin

section \<open>The allocation counter and the page heap (pbc/src/alloc.c)\<close>

text \<open>
  \<open>_g\<close> is the counter of live \<open>malloc\<close> blocks, passed as an \<open>int\<close>; \<open>malloc\<close>
  itself does not fail here, as the source never tests its result. A \<open>struct heap\<close> keeps
  the list of its pages, each a capacity in bytes, the current page first; the page header is
  not counted in the capacity. The address \<open>_pbcH_alloc\<close> returns is the number of the page
  in order of creation (0 for the first) and the offset in it. An operation whose \<open>int\<close>
  arithmetic overflows gives \<open>None\<close>.
\<close>

definition INT_MAX :: int where
  "INT_MAX = 2 ^ 31 - 1"

record heap =
  hp_pages :: "int list"
  hp_size :: int
  hp_used :: int

type_synonym haddr = "nat \<times> int"

definition pbcM_malloc :: "int \<Rightarrow> int" where
  "pbcM_malloc g = g + 1"

definition pbcM_free :: "'p option \<Rightarrow> int \<Rightarrow> int" where
  "pbcM_free p g = (if p \<noteq> None then g - 1 else g)"

definition pbcM_memory :: "int \<Rightarrow> int" where
  "pbcM_memory g = g"

text \<open>\<open>realloc\<close> keeps the common prefix of the block; the counter does not change.\<close>

definition pbcM_realloc :: "'a option list \<Rightarrow> nat \<Rightarrow> 'a option list" where
  "pbcM_realloc cells n = take n cells @ replicate (n - length cells) None"

text \<open>The doubling of \<open>cap\<close>; a signed overflow is undefined.\<close>

function grow_cap :: "int \<Rightarrow> int \<Rightarrow> int option" where
  "grow_cap cap pagesize =
     (if 0 < cap \<and> cap < pagesize then
        (if cap * 2 > INT_MAX then None else grow_cap (cap * 2) pagesize)
      else Some cap)"
  by pat_completeness auto
termination
  by (relation "measure (\<lambda>(cap, n). nat (n - cap))") auto

declare grow_cap.simps [simp del]

definition pbcH_new :: "int \<Rightarrow> int \<Rightarrow> (int \<times> heap) option" where
  "pbcH_new pagesize g = do {
     cap \<leftarrow> grow_cap 1024 pagesize;
     let g = pbcM_malloc g;
     let g = pbcM_malloc g;
     Some (g, \<lparr>hp_pages = [cap], hp_size = cap, hp_used = 0\<rparr>) }"

fun free_pages :: "int list \<Rightarrow> int \<Rightarrow> int" where
  "free_pages [] g = g"
| "free_pages (p # next) g = free_pages next (pbcM_free (Some p) g)"

definition pbcH_delete :: "heap \<Rightarrow> int \<Rightarrow> int" where
  "pbcH_delete h g = pbcM_free (Some h) (free_pages (hp_pages h) g)"

text \<open>\<open>(size + 3) & ~3\<close>; the sum overflows for a size above \<open>INT_MAX - 3\<close>.\<close>

definition round4 :: "int \<Rightarrow> int option" where
  "round4 sz = (if sz + 3 > INT_MAX then None else Some ((sz + 3) AND NOT 3))"

text \<open>
  The other two sums do not overflow as long as no size is negative (\<open>pbcH_alloc_fits\<close> below); a
  negative size, which no caller passes, would hand out memory a second time and gives \<open>None\<close>.\<close>

definition pbcH_alloc :: "heap \<Rightarrow> int \<Rightarrow> int \<Rightarrow> (int \<times> heap \<times> haddr) option" where
  "pbcH_alloc h sz g =
     (if sz < 0 then None
      else do {
        sz \<leftarrow> round4 sz;
        if hp_size h - hp_used h < sz then
          (let p = (if sz < hp_size h then hp_size h else sz)
           in Some (pbcM_malloc g,
                    h\<lparr>hp_pages := p # hp_pages h, hp_used := sz\<rparr>,
                    (length (hp_pages h), 0)))
        else
          Some (g, h\<lparr>hp_used := hp_used h + sz\<rparr>, (length (hp_pages h) - 1, hp_used h)) })"

text \<open>
  The state of the operations that allocate either from \<open>malloc\<close> or from a heap, and the macro
  \<open>HMALLOC\<close> that chooses; the size of a heap block is an \<open>int\<close>.
\<close>

record mem =
  mem_g :: int
  mem_heap :: heap

definition HMALLOC :: "bool \<Rightarrow> int \<Rightarrow> mem \<Rightarrow> mem option" where
  "HMALLOC h sz m =
     (if h then do {
        (g, hp, _) \<leftarrow> pbcH_alloc (mem_heap m) sz (mem_g m);
        Some (m\<lparr>mem_g := g, mem_heap := hp\<rparr>) }
      else Some (m\<lparr>mem_g := pbcM_malloc (mem_g m)\<rparr>))"

text \<open>The state behind an allocation that is not too large; all but the very long strings of a message are.\<close>

definition hmalloc :: "bool \<Rightarrow> int \<Rightarrow> mem \<Rightarrow> mem" where
  "hmalloc h sz m = the (HMALLOC h sz m)"

lemma HMALLOC_ok [simp]:
  "0 \<le> sz \<Longrightarrow> sz \<le> 2147483644 \<Longrightarrow> HMALLOC h sz m = Some (hmalloc h sz m)"
  by (auto simp: hmalloc_def HMALLOC_def pbcH_alloc_def round4_def INT_MAX_def Let_def)

lemma HMALLOC_malloc: "HMALLOC False sz m = Some (m\<lparr>mem_g := mem_g m + 1\<rparr>)"
  by (simp add: HMALLOC_def pbcM_malloc_def)

lemma HMALLOC_Some: "HMALLOC h sz m = Some m' \<Longrightarrow> m' = hmalloc h sz m"
  by (simp add: hmalloc_def)

subsection \<open>Rounding\<close>

lemma align4_eq: "(n + 3) AND NOT (3::int) = (n + 3) div 4 * 4"
proof -
  have "(n + 3) AND NOT 3 = (n + 3) AND NOT (mask 2)" by (simp add: mask_eq_exp_minus_1)
  also have "\<dots> = push_bit 2 (drop_bit 2 (n + 3))"
  proof (rule bit_eqI)
    fix i
    show "bit ((n + 3) AND NOT (mask 2)) i = bit (push_bit 2 (drop_bit 2 (n + 3))) i"
    proof (cases "2 \<le> i")
      case True
      then have "Suc (Suc (i - 2)) = i" by simp
      with True show ?thesis
        by (simp add: bit_and_iff bit_not_iff bit_mask_iff bit_push_bit_iff bit_drop_bit_eq)
    qed (simp add: bit_and_iff bit_not_iff bit_mask_iff bit_push_bit_iff)
  qed
  finally show ?thesis by (simp add: push_bit_eq_mult drop_bit_eq_div)
qed

lemma round4_Some: "round4 n = Some r \<longleftrightarrow> n \<le> INT_MAX - 3 \<and> r = (n + 3) div 4 * 4"
  unfolding round4_def align4_eq by auto

lemma round4_bounds:
  assumes "round4 n = Some r"
  shows "n \<le> r" and "r < n + 4" and "4 dvd r" and "r \<le> INT_MAX"
  using assms unfolding round4_Some by auto

subsection \<open>The heap invariant\<close>

definition heap_inv :: "heap \<Rightarrow> bool" where
  "heap_inv h \<longleftrightarrow> hp_pages h \<noteq> [] \<and> 0 < hp_size h \<and> 4 dvd hp_size h \<and> 0 \<le> hp_used h \<and> 4 dvd hp_used h
     \<and> hp_used h \<le> hd (hp_pages h) \<and> hp_size h \<le> hd (hp_pages h) \<and> hd (hp_pages h) \<le> INT_MAX"

text \<open>A block handed out: its page, offset and length. It lies in its page, and in the current
  page it lies below the used mark.\<close>

type_synonym block = "nat \<times> int \<times> int"

definition page_cap :: "heap \<Rightarrow> nat \<Rightarrow> int" where
  "page_cap h i = rev (hp_pages h) ! i"

definition block_in :: "heap \<Rightarrow> block \<Rightarrow> bool" where
  "block_in h b = (case b of (p, off, len) \<Rightarrow>
     p < length (hp_pages h) \<and> 0 \<le> off \<and> 0 \<le> len \<and> 4 dvd off \<and> off + len \<le> page_cap h p
     \<and> (p = length (hp_pages h) - 1 \<longrightarrow> off + len \<le> hp_used h))"

definition disjoint :: "block \<Rightarrow> block \<Rightarrow> bool" where
  "disjoint b c = (case b of (p, off, len) \<Rightarrow> case c of (q, off', len') \<Rightarrow>
     p \<noteq> q \<or> off + len \<le> off' \<or> off' + len' \<le> off)"

fun pbcH_allocs :: "heap \<Rightarrow> int list \<Rightarrow> int \<Rightarrow> (int \<times> heap \<times> block list) option" where
  "pbcH_allocs h [] g = Some (g, h, [])"
| "pbcH_allocs h (s # ss) g = do {
     (g, h, p, off) \<leftarrow> pbcH_alloc h s g;
     (g, h, bs) \<leftarrow> pbcH_allocs h ss g;
     Some (g, h, (p, off, s) # bs) }"

lemma page_cap_current: "hp_pages h \<noteq> [] \<Longrightarrow> page_cap h (length (hp_pages h) - 1) = hd (hp_pages h)"
  by (cases "hp_pages h") (simp_all add: page_cap_def nth_append)

lemma pbcH_alloc_cases:
  assumes "pbcH_alloc h s g = Some (g', h', p, off)" and "heap_inv h"
  obtains (fresh) r pg where "0 \<le> s" "round4 s = Some r" "g' = g + 1" "h' = h\<lparr>hp_pages := pg # hp_pages h, hp_used := r\<rparr>"
      "p = length (hp_pages h)" "off = 0" "r \<le> pg" "hp_size h \<le> pg" "pg \<le> INT_MAX"
    | (same) r where "0 \<le> s" "round4 s = Some r" "g' = g" "h' = h\<lparr>hp_used := hp_used h + r\<rparr>"
      "p = length (hp_pages h) - 1" "off = hp_used h" "hp_used h + r \<le> hp_size h"
proof -
  obtain r where r: "round4 s = Some r" "0 \<le> s" using assms(1) by (auto simp: pbcH_alloc_def ub_simps split: if_splits)
  show thesis
  proof (cases "hp_size h - hp_used h < r")
    case True
    with assms r round4_bounds(4) [OF r(1)] show thesis
      by (intro fresh [of r "if r < hp_size h then hp_size h else r"])
        (auto simp: pbcH_alloc_def pbcM_malloc_def Let_def heap_inv_def)
  next
    case False
    with assms(1) r show thesis by (intro same [of r]) (auto simp: pbcH_alloc_def Let_def)
  qed
qed

lemma pbcH_alloc_ok:
  assumes inv: "heap_inv h" and al: "pbcH_alloc h s g = Some (g', h', p, off)"
  shows "heap_inv h'" and "block_in h' (p, off, s)"
    and "\<And>b. block_in h b \<Longrightarrow> block_in h' b \<and> disjoint b (p, off, s)"
proof -
  have ne: "hp_pages h \<noteq> []" using inv by (simp add: heap_inv_def)
  have cur: "page_cap h (length (hp_pages h) - 1) = hd (hp_pages h)" by (rule page_cap_current [OF ne])
  have "heap_inv h' \<and> block_in h' (p, off, s) \<and> (\<forall>b. block_in h b \<longrightarrow> block_in h' b \<and> disjoint b (p, off, s))"
    using al inv
  proof (cases rule: pbcH_alloc_cases)
    case (fresh r pg)
    note b = round4_bounds [OF fresh(2)]
    have "page_cap h' q = page_cap h q" if "q < length (hp_pages h)" for q
      using that fresh by (simp add: page_cap_def nth_append)
    moreover have "page_cap h' p = pg" using fresh by (simp add: page_cap_def nth_append)
    ultimately show ?thesis using fresh inv b
      by (auto simp: heap_inv_def block_in_def disjoint_def)
  next
    case (same r)
    note b = round4_bounds [OF same(2)]
    have "page_cap h' = page_cap h" using same by (simp add: page_cap_def fun_eq_iff)
    moreover have "length (hp_pages h) - 1 < length (hp_pages h)" using ne by simp
    ultimately show ?thesis using same inv b cur
      by (auto simp: heap_inv_def block_in_def disjoint_def)
  qed
  then show "heap_inv h'" and "block_in h' (p, off, s)"
    and "\<And>b. block_in h b \<Longrightarrow> block_in h' b \<and> disjoint b (p, off, s)" by auto
qed

text \<open>The sums of \<open>_pbcH_alloc\<close> that are not checked are in the range of \<open>int\<close>.\<close>

lemma pbcH_alloc_fits:
  assumes "heap_inv h" and "0 \<le> s" and "round4 s = Some r"
  shows "- INT_MAX \<le> hp_size h - hp_used h" and "hp_size h - hp_used h \<le> INT_MAX"
    and "r \<le> hp_size h - hp_used h \<Longrightarrow> 0 \<le> hp_used h + r \<and> hp_used h + r \<le> INT_MAX"
  using assms round4_bounds [OF assms(3)] by (auto simp: heap_inv_def)

lemma pbcH_alloc_None: "0 \<le> s \<Longrightarrow> pbcH_alloc h s g = None \<longleftrightarrow> INT_MAX - 3 < s"
  by (auto simp: pbcH_alloc_def round4_def Let_def)

lemma pbcH_allocs_ok:
  assumes "heap_inv h" and "pbcH_allocs h ss g = Some (g', h', bs)"
  shows "heap_inv h' \<and> (\<forall>b \<in> set bs. block_in h' b) \<and> sorted_wrt disjoint bs \<and> map (snd \<circ> snd) bs = ss
    \<and> (\<forall>b. block_in h b \<longrightarrow> block_in h' b \<and> (\<forall>c \<in> set bs. disjoint b c))"
  using assms
proof (induction ss arbitrary: h g bs)
  case (Cons s ss)
  then obtain g1 h1 p off bs' where a: "pbcH_alloc h s g = Some (g1, h1, p, off)"
    and bs: "pbcH_allocs h1 ss g1 = Some (g', h', bs')" "bs = (p, off, s) # bs'"
    by (auto simp: ub_simps)
  note ok = pbcH_alloc_ok [OF Cons.prems(1) a]
  from ok Cons.IH [OF _ bs(1)] show ?case
    unfolding bs(2) by fastforce
qed auto

lemma pbcH_allocs_None:
  assumes "\<forall>s \<in> set ss. 0 \<le> s"
  shows "pbcH_allocs h ss g = None \<longleftrightarrow> (\<exists>s \<in> set ss. INT_MAX - 3 < s)"
  using assms
proof (induction ss arbitrary: h g)
  case (Cons s ss)
  show ?case
  proof (cases "pbcH_alloc h s g")
    case None
    with Cons.prems pbcH_alloc_None [of s h g] show ?thesis by auto
  next
    case (Some r)
    obtain g1 h1 b where r: "r = (g1, h1, b)" by (metis prod_cases3)
    have "pbcH_allocs h1 ss g1 = None \<longleftrightarrow> (\<exists>s \<in> set ss. INT_MAX - 3 < s)" using Cons by simp
    with Cons.prems Some r pbcH_alloc_None [of s h g] show ?thesis
      by (cases b; cases "pbcH_allocs h1 ss g1") auto
  qed
qed simp

lemma grow_cap_Some:
  assumes "grow_cap cap n = Some c" and "0 < cap" and "4 dvd cap"
  shows "cap \<le> c \<and> n \<le> c \<and> 4 dvd c \<and> (cap \<le> INT_MAX \<longrightarrow> c \<le> INT_MAX)"
  using assms
proof (induction cap n rule: grow_cap.induct)
  case (1 cap n)
  show ?case
  proof (cases "cap < n")
    case True
    with "1.prems" have "cap * 2 \<le> INT_MAX" "grow_cap (cap * 2) n = Some c"
      by (auto simp: grow_cap.simps [of cap n] split: if_splits)
    with "1.IH" "1.prems" True have "cap * 2 \<le> c \<and> n \<le> c \<and> 4 dvd c \<and> c \<le> INT_MAX" by (simp add: dvd_mult2)
    with "1.prems" show ?thesis by linarith
  next
    case False
    with "1.prems" show ?thesis by (auto simp: grow_cap.simps [of cap n])
  qed
qed

lemma grow_cap_total:
  assumes "n \<le> 2 ^ 30" and "0 < cap"
  shows "\<exists>c. grow_cap cap n = Some c"
  using assms
proof (induction cap n rule: grow_cap.induct)
  case (1 cap n)
  show ?case
  proof (cases "cap < n")
    case True
    then have "\<not> cap * 2 > INT_MAX" using "1.prems" by (simp add: INT_MAX_def)
    with "1.IH" "1.prems" True show ?thesis by (subst grow_cap.simps) simp
  next
    case False
    then show ?thesis by (subst grow_cap.simps) simp
  qed
qed

lemma pbcH_new_inv: "pbcH_new n g = Some (g', h) \<Longrightarrow> heap_inv h \<and> n \<le> hp_size h \<and> g' = g + 2"
  by (auto simp: pbcH_new_def ub_simps heap_inv_def pbcM_malloc_def Let_def INT_MAX_def dest!: grow_cap_Some)

lemma pbcH_allocs_count:
  assumes "heap_inv h" "pbcH_allocs h ss g = Some (g', h', bs)"
  shows "g' - int (length (hp_pages h')) = g - int (length (hp_pages h))"
  using assms
proof (induction ss arbitrary: h g bs)
  case (Cons s ss)
  then obtain g1 h1 p off bs' where a: "pbcH_alloc h s g = Some (g1, h1, p, off)"
    and bs: "pbcH_allocs h1 ss g1 = Some (g', h', bs')"
    by (auto simp: ub_simps)
  have "heap_inv h1" by (rule pbcH_alloc_ok(1) [OF Cons.prems(1) a])
  with Cons.IH [OF _ bs]
  have "g' - int (length (hp_pages h')) = g1 - int (length (hp_pages h1))" by simp
  also have "\<dots> = g - int (length (hp_pages h))"
    using a Cons.prems(1) by (cases rule: pbcH_alloc_cases) auto
  finally show ?case .
qed simp

lemma free_pages_count: "free_pages ps g = g - int (length ps)"
  by (induction ps arbitrary: g) (simp_all add: pbcM_free_def)

subsection \<open>Properties\<close>

text \<open>
  C24: a sequence of allocations from a fresh heap, of sizes that are not negative, overflows an
  \<open>int\<close> exactly when one of the sizes is above \<open>INT_MAX - 3\<close>; otherwise the blocks
  have the sizes asked for, lie inside their pages, start at a multiple of 4 and are pairwise
  disjoint, and the heap's sizes are in the range of \<open>int\<close>.\<close>

theorem heap_blocks_disjoint:
  assumes "pbcH_new n g = Some (g1, h)" and "\<forall>s \<in> set ss. 0 \<le> s"
  shows "case pbcH_allocs h ss g1 of
      None \<Rightarrow> \<exists>s \<in> set ss. INT_MAX - 3 < s
    | Some (g2, h', bs) \<Rightarrow> (\<forall>s \<in> set ss. s \<le> INT_MAX - 3) \<and> map (snd \<circ> snd) bs = ss
        \<and> list_all (block_in h') bs \<and> sorted_wrt disjoint bs \<and> heap_inv h'"
proof (cases "pbcH_allocs h ss g1")
  case None
  with pbcH_allocs_None [OF assms(2)] show ?thesis by simp
next
  case (Some r)
  obtain g2 h' bs where r: "r = (g2, h', bs)" by (metis prod_cases3)
  have "pbcH_allocs h ss g1 \<noteq> None" using Some by simp
  then have "\<forall>s \<in> set ss. s \<le> INT_MAX - 3" using pbcH_allocs_None [OF assms(2), of h g1] by force
  with Some r pbcH_allocs_ok [of h ss g1 g2 h' bs] pbcH_new_inv [OF assms(1)] show ?thesis
    by (simp add: list_all_iff)
qed

lemma alloc_run:
  "pbcH_new 0 0 = Some (2, \<lparr>hp_pages = [1024], hp_size = 1024, hp_used = 0\<rparr>)"
  "pbcH_allocs \<lparr>hp_pages = [1024], hp_size = 1024, hp_used = 0\<rparr> [3, 1000, 2000, 8] 2 =
     Some (4, \<lparr>hp_pages = [1024, 2000, 1024], hp_size = 1024, hp_used = 8\<rparr>,
      [(0, 0, 3), (0, 4, 1000), (1, 0, 2000), (2, 0, 8)])"
  by code_simp+

lemma heap_blocks_disjoint_witness:
  "list_all (block_in \<lparr>hp_pages = [1024, 2000, 1024], hp_size = 1024, hp_used = 8\<rparr>)
     [(0, 0, 3), (0, 4, 1000), (1, 0, 2000), (2, 0, 8)]
   \<and> sorted_wrt disjoint [(0, 0, 3), (0, 4, 1000), (1, 0, 2000), (2, 0, 8)]"
  using heap_blocks_disjoint [OF alloc_run(1), of "[3, 1000, 2000, 8]"] by (simp only: alloc_run(2)) simp

text \<open>
  Deleting a heap frees exactly the blocks that creating it and allocating from it took.\<close>

theorem heap_delete_balanced:
  assumes "pbcH_new n g = Some (g1, h)" and "pbcH_allocs h ss g1 = Some (g2, h', bs)"
  shows "pbcH_delete h' g2 = g"
  using pbcH_allocs_count [OF _ assms(2)] pbcH_new_inv [OF assms(1)] assms(1)
  by (auto simp: pbcH_delete_def pbcM_free_def free_pages_count pbcH_new_def ub_simps Let_def)

lemma heap_delete_balanced_witness:
  "pbcH_delete \<lparr>hp_pages = [1024, 2000, 1024], hp_size = 1024, hp_used = 8\<rparr> 4 = 0"
  by (rule heap_delete_balanced [OF alloc_run(1) alloc_run(2)])

end
