(* ===== verification/StringPool.thy ===== *)
theory StringPool
  imports Alloc
begin

section \<open>The string pool (pbc/src/stringpool.c)\<close>

text \<open>
  A pool is a chain of nodes, each allocated in one block with the bytes behind it. The nodes
  swap their \<open>buffer\<close> pointers, so a node does not always point at its own bytes; the model
  numbers the byte areas in order of allocation and a node holds the number of an area and the
  length used. The head of the chain comes first. A pointer is an area and an offset.
\<close>

definition PAGE_SIZE :: nat where "PAGE_SIZE = 256"

record stringpool =
  sp_areas :: "byte option list list"
  sp_nodes :: "(nat \<times> nat) list"

definition pbcS_new :: "int \<Rightarrow> int \<times> stringpool" where
  "pbcS_new g = (pbcM_malloc g, \<lparr>sp_areas = [replicate PAGE_SIZE None], sp_nodes = [(0, 0)]\<rparr>)"

fun pbcS_delete :: "(nat \<times> nat) list \<Rightarrow> int \<Rightarrow> int" where
  "pbcS_delete [] g = g"
| "pbcS_delete (pool # next) g = pbcS_delete next (pbcM_free (Some pool) g)"

text \<open>\<open>memcpy\<close> of the bytes \<open>src\<close> to an area at an offset.\<close>

definition area_write :: "byte option list \<Rightarrow> nat \<Rightarrow> byte list \<Rightarrow> byte option list option" where
  "area_write area off src =
     (if off + length src \<le> length area
      then Some (take off area @ map Some src @ drop (off + length src) area) else None)"

text \<open>The room left in a page; the subtraction is one of \<open>size_t\<close>.\<close>

definition room :: "nat \<Rightarrow> nat" where
  "room len = nat ((int PAGE_SIZE - int len) mod 2 ^ 64)"

text \<open>The \<open>int\<close> sum \<open>sz + 1\<close>, which overflows for \<open>INT_MAX\<close>, converted to \<open>size_t\<close>.\<close>

definition copy_size :: "int \<Rightarrow> nat option" where
  "copy_size sz = (if sz + 1 > INT_MAX then None else Some (nat ((sz + 1) mod 2 ^ 64)))"

text \<open>\<open>str\<close> is the memory the argument points to; \<open>sz + 1\<close> bytes of it are copied.\<close>

definition pbcS_build :: "stringpool \<Rightarrow> byte list \<Rightarrow> int \<Rightarrow> int \<Rightarrow> (int \<times> stringpool \<times> nat \<times> nat) option" where
  "pbcS_build pool str sz g = do {
      s \<leftarrow> copy_size sz;
      let src = take s str;
      if length str < s then None else
      case sp_nodes pool of [] \<Rightarrow> None
      | (buffer, len) # rest \<Rightarrow>
        if s < room len then do {
          area \<leftarrow> rd (sp_areas pool) buffer;
          area \<leftarrow> area_write area len src;
          Some (g, \<lparr>sp_areas = (sp_areas pool)[buffer := area], sp_nodes = (buffer, len + s) # rest\<rparr>, buffer, len) }
        else
          (let new = length (sp_areas pool) in
           if s > PAGE_SIZE then do {
             area \<leftarrow> area_write (replicate s None) 0 src;
             Some (pbcM_malloc g, \<lparr>sp_areas = sp_areas pool @ [area],
                     sp_nodes = (buffer, len) # (new, s) # rest\<rparr>, new, 0) }
           else do {
             area \<leftarrow> area_write (replicate PAGE_SIZE None) 0 src;
             Some (pbcM_malloc g, \<lparr>sp_areas = sp_areas pool @ [area],
                     sp_nodes = (new, s) # (buffer, len) # rest\<rparr>, new, 0) }) }"

fun builds :: "stringpool \<Rightarrow> cstring list \<Rightarrow> int \<Rightarrow> (int \<times> stringpool \<times> (nat \<times> nat) list) option" where
  "builds pool [] g = Some (g, pool, [])"
| "builds pool (s # ss) g = do {
     (g, pool, a, off) \<leftarrow> pbcS_build pool (s @ [0]) (int (length s)) g;
     (g, pool, ps) \<leftarrow> builds pool ss g;
     Some (g, pool, (a, off) # ps) }"

subsection \<open>Strings stay where they are\<close>

definition sp_read :: "stringpool \<Rightarrow> nat \<times> nat \<Rightarrow> nat \<Rightarrow> byte option list" where
  "sp_read pool p n = take n (drop (snd p) (sp_areas pool ! fst p))"

definition pool_inv :: "stringpool \<Rightarrow> bool" where
  "pool_inv pool \<longleftrightarrow> length (sp_nodes pool) = length (sp_areas pool) \<and>
     (\<exists>buffer len rest. sp_nodes pool = (buffer, len) # rest \<and> buffer < length (sp_areas pool)
       \<and> length (sp_areas pool ! buffer) = PAGE_SIZE \<and> len \<le> PAGE_SIZE)"

text \<open>The bytes of a string handed out lie in an area; in the head's area, below its mark.\<close>

definition in_pool :: "stringpool \<Rightarrow> nat \<times> nat \<Rightarrow> nat \<Rightarrow> bool" where
  "in_pool pool p n \<longleftrightarrow> fst p < length (sp_areas pool)
     \<and> (fst p = fst (hd (sp_nodes pool)) \<longrightarrow> snd p + n \<le> snd (hd (sp_nodes pool)))"

lemma area_write_simps:
  assumes "off + length src \<le> length area"
  shows "area_write area off src = Some (take off area @ map Some src @ drop (off + length src) area)"
  using assms by (simp add: area_write_def)

lemma copy_size_ok: "int n < INT_MAX \<Longrightarrow> copy_size (int n) = Some (n + 1)"
  by (auto simp: copy_size_def INT_MAX_def)

lemma build_overflow: "pbcS_build pool str INT_MAX g = None"
  by (simp add: pbcS_build_def copy_size_def)

lemma build_ok:
  assumes inv: "pool_inv pool" and sz: "int (length s) < INT_MAX"
  obtains g' pool' p where "pbcS_build pool (s @ [0]) (int (length s)) g = Some (g', pool', p)"
    and "pool_inv pool'" and "in_pool pool' p (length s + 1)"
    and "sp_read pool' p (length s + 1) = map Some (s @ [0])"
    and "\<And>q n. in_pool pool q n \<Longrightarrow> in_pool pool' q n \<and> sp_read pool' q n = sp_read pool q n"
    and "g' - int (length (sp_nodes pool')) = g - int (length (sp_nodes pool))"
proof -
  obtain b l rest where n: "sp_nodes pool = (b, l) # rest" "b < length (sp_areas pool)"
    "length (sp_areas pool ! b) = PAGE_SIZE" "l \<le> PAGE_SIZE" and len: "length (sp_nodes pool) = length (sp_areas pool)"
    using inv by (auto simp: pool_inv_def)
  define src where "src = s @ [0]"
  have src: "length src = length s + 1" by (simp add: src_def)
  have mod: "room l = PAGE_SIZE - l"
    using n(4) by (simp add: room_def PAGE_SIZE_def of_nat_diff)
  consider (fits) "length s + 1 < PAGE_SIZE - l" | (long) "\<not> length s + 1 < PAGE_SIZE - l" "length s + 1 > PAGE_SIZE"
    | (fresh) "\<not> length s + 1 < PAGE_SIZE - l" "length s + 1 \<le> PAGE_SIZE" by linarith
  then show thesis
  proof cases
    case fits
    define area where "area = take l (sp_areas pool ! b) @ map Some src @ drop (l + length src) (sp_areas pool ! b)"
    have w: "area_write (sp_areas pool ! b) l src = Some area"
      using fits n src by (simp add: area_write_def area_def)
    have la: "length area = PAGE_SIZE" using fits n src by (simp add: area_def)
    let ?pool = "\<lparr>sp_areas = (sp_areas pool)[b := area], sp_nodes = (b, l + (length s + 1)) # rest\<rparr>"
    show thesis
    proof (rule that [of g ?pool "(b, l)"])
      show "pbcS_build pool (s @ [0]) (int (length s)) g = Some (g, ?pool, b, l)"
        using fits n w by (simp add: pbcS_build_def copy_size_ok [OF sz] mod Let_def rd_def src_def)
      show "pool_inv ?pool" using n len la fits by (simp add: pool_inv_def)
      show "in_pool ?pool (b, l) (length s + 1)" using n by (simp add: in_pool_def)
      show "sp_read ?pool (b, l) (length s + 1) = map Some (s @ [0])"
        using n la fits by (simp add: sp_read_def area_def src_def)
      show "in_pool ?pool q m \<and> sp_read ?pool q m = sp_read pool q m" if "in_pool pool q m" for q m
        using that n fits by (cases "fst q = b") (auto simp: in_pool_def sp_read_def area_def take_drop)
    qed (use n in simp)
  next
    case long
    let ?pool = "\<lparr>sp_areas = sp_areas pool @ [map Some src], sp_nodes = (b, l) # (length (sp_areas pool), length s + 1) # rest\<rparr>"
    show thesis
    proof (rule that [of "g + 1" ?pool "(length (sp_areas pool), 0)"])
      show "pbcS_build pool (s @ [0]) (int (length s)) g = Some (g + 1, ?pool, length (sp_areas pool), 0)"
        using long n by (simp add: pbcS_build_def copy_size_ok [OF sz] mod Let_def src_def area_write_def pbcM_malloc_def)
      show "pool_inv ?pool" using n len by (simp add: pool_inv_def nth_append)
      show "in_pool ?pool (length (sp_areas pool), 0) (length s + 1)" using n by (simp add: in_pool_def)
      show "in_pool ?pool q m \<and> sp_read ?pool q m = sp_read pool q m" if "in_pool pool q m" for q m
        using that n by (auto simp: in_pool_def sp_read_def nth_append)
    qed (use n in \<open>simp_all add: sp_read_def src_def\<close>)
  next
    case fresh
    let ?area = "map Some src @ replicate (PAGE_SIZE - length src) None"
    let ?pool = "\<lparr>sp_areas = sp_areas pool @ [?area], sp_nodes = (length (sp_areas pool), length s + 1) # (b, l) # rest\<rparr>"
    show thesis
    proof (rule that [of "g + 1" ?pool "(length (sp_areas pool), 0)"])
      show "pbcS_build pool (s @ [0]) (int (length s)) g = Some (g + 1, ?pool, length (sp_areas pool), 0)"
        using fresh n by (simp add: pbcS_build_def copy_size_ok [OF sz] mod Let_def src_def area_write_def pbcM_malloc_def)
      show "pool_inv ?pool" using n len fresh src by (simp add: pool_inv_def nth_append)
      show "in_pool ?pool (length (sp_areas pool), 0) (length s + 1)" using n by (simp add: in_pool_def)
      show "in_pool ?pool q m \<and> sp_read ?pool q m = sp_read pool q m" if "in_pool pool q m" for q m
        using that n by (auto simp: in_pool_def sp_read_def nth_append)
    qed (use n in \<open>simp_all add: sp_read_def src_def\<close>)
  qed
qed

lemma builds_ok:
  assumes "pool_inv pool" and "\<forall>s \<in> set ss. int (length s) < INT_MAX"
  shows "\<exists>g' pool' ps. builds pool ss g = Some (g', pool', ps) \<and> pool_inv pool'
     \<and> map2 (sp_read pool') ps (map (\<lambda>s. length s + 1) ss) = map (\<lambda>s. map Some (s @ [0])) ss
     \<and> (\<forall>q n. in_pool pool q n \<longrightarrow> in_pool pool' q n \<and> sp_read pool' q n = sp_read pool q n)
     \<and> g' - int (length (sp_nodes pool')) = g - int (length (sp_nodes pool))"
  using assms
proof (induction ss arbitrary: pool g)
  case (Cons s ss)
  show ?case
  proof (rule build_ok [OF Cons.prems(1), of s g])
    show "int (length s) < INT_MAX" using Cons.prems(2) by simp
  next
    fix g1 pool1 p
    assume b: "pbcS_build pool (s @ [0]) (int (length s)) g = Some (g1, pool1, p)" "pool_inv pool1"
      "in_pool pool1 p (length s + 1)" "sp_read pool1 p (length s + 1) = map Some (s @ [0])"
      and keep: "\<And>q n. in_pool pool q n \<Longrightarrow> in_pool pool1 q n \<and> sp_read pool1 q n = sp_read pool q n"
      and g: "g1 - int (length (sp_nodes pool1)) = g - int (length (sp_nodes pool))"
    obtain g' pool' ps where IH: "builds pool1 ss g1 = Some (g', pool', ps)" "pool_inv pool'"
      "map2 (sp_read pool') ps (map (\<lambda>s. length s + 1) ss) = map (\<lambda>s. map Some (s @ [0])) ss"
      "\<forall>q n. in_pool pool1 q n \<longrightarrow> in_pool pool' q n \<and> sp_read pool' q n = sp_read pool1 q n"
      "g' - int (length (sp_nodes pool')) = g1 - int (length (sp_nodes pool1))"
      using Cons.IH [OF b(2), of g1] Cons.prems(2) by auto
    have "sp_read pool' p (length s + 1) = map Some (s @ [0])" using IH(4) b(3,4) by metis
    with b(1) IH g keep show ?thesis by (cases p) (auto simp del: map_append)
  qed
qed simp

lemma new_inv: "pool_inv (snd (pbcS_new g))"
  by (simp add: pbcS_new_def pool_inv_def PAGE_SIZE_def)

lemma delete_count: "pbcS_delete ns g = g - int (length ns)"
  by (induction ns arbitrary: g) (simp_all add: pbcM_free_def)

subsection \<open>Properties\<close>

text \<open>
  C29: every string put into a pool can be read at the address that was returned for it, with its
  NUL, after any number of later strings, and deleting the pool frees exactly the blocks taken. The
  strings are shorter than \<open>INT_MAX\<close> bytes: for one of that length the size with the NUL
  overflows an \<open>int\<close> (\<open>build_overflow\<close>).\<close>

theorem stringpool_stable:
  assumes "\<forall>s \<in> set ss. int (length s) < INT_MAX"
  shows "\<exists>g' pool' ps. builds (snd (pbcS_new g)) ss (fst (pbcS_new g)) = Some (g', pool', ps)
     \<and> map2 (sp_read pool') ps (map (\<lambda>s. length s + 1) ss) = map (\<lambda>s. map Some (s @ [0])) ss
     \<and> pbcS_delete (sp_nodes pool') g' = g"
proof -
  obtain g' pool' ps where b: "builds (snd (pbcS_new g)) ss (fst (pbcS_new g)) = Some (g', pool', ps)"
    "map2 (sp_read pool') ps (map (\<lambda>s. length s + 1) ss) = map (\<lambda>s. map Some (s @ [0])) ss"
    "g' - int (length (sp_nodes pool')) = fst (pbcS_new g) - int (length (sp_nodes (snd (pbcS_new g))))"
    using builds_ok [OF new_inv assms] by blast
  moreover from b(3) have "pbcS_delete (sp_nodes pool') g' = g"
    by (simp add: delete_count pbcS_new_def pbcM_malloc_def)
  ultimately show ?thesis by blast
qed

lemma stringpool_stable_witness:
  "\<exists>g' pool' ps. builds (snd (pbcS_new 0)) [[65], replicate 300 66, [] :: cstring] (fst (pbcS_new 0)) = Some (g', pool', ps)
     \<and> map2 (sp_read pool') ps (map (\<lambda>s. length s + 1) [[65], replicate 300 66, [] :: cstring])
       = map (\<lambda>s. map Some (s @ [0])) [[65], replicate 300 66, [] :: cstring]
     \<and> pbcS_delete (sp_nodes pool') g' = 0"
  by (rule stringpool_stable) (simp add: INT_MAX_def)

end
