(* ===== verification/Vararray.thy ===== *)
theory Vararray
  imports Alloc
begin

section \<open>Growing arrays of values (pbc/src/array.c)\<close>

text \<open>
  A \<open>struct array\<close> of 64 bytes has room for two values behind its header (\<open>INNER_FIELD\<close>); the
  third push moves them to a block outside, which doubles whenever \<open>number + 1\<close> is a power of
  two. The block comes from \<open>malloc\<close> or, for an array opened with a heap, from that heap. The
  theory is polymorphic in the value \<open>union _pbc_var\<close>; a cell that was never written is
  \<open>None\<close>. The counter of live blocks and the heap are the state \<open>mem\<close> of the operations. The
  locale \<open>growable\<close> is the contract the message code relies on.
\<close>

definition INNER_FIELD :: nat where
  "INNER_FIELD = (64 - 24) div 16"

lemma INNER_FIELD_2 [simp]: "INNER_FIELD = 2"
  by (simp add: INNER_FIELD_def)

datatype 'v cells = Inner | Outer "'v option list" | Null

record 'v vararray =
  arr_number :: nat
  arr_heap :: bool
  arr_inner :: "'v option list"
  arr_a :: "'v cells"

definition pbcA_open :: "'v vararray" where
  "pbcA_open = \<lparr>arr_number = 0, arr_heap = False, arr_inner = replicate INNER_FIELD None, arr_a = Inner\<rparr>"

definition pbcA_open_heap :: "'v vararray" where
  "pbcA_open_heap = pbcA_open\<lparr>arr_heap := True\<rparr>"

definition pbcA_close :: "'v vararray \<Rightarrow> mem \<Rightarrow> mem \<times> 'v vararray" where
  "pbcA_close a m =
     (case arr_a a of
        Outer cs \<Rightarrow> if \<not> arr_heap a then (m\<lparr>mem_g := pbcM_free (Some cs) (mem_g m)\<rparr>, a\<lparr>arr_a := Null\<rparr>)
                    else (m, a)
      | _ \<Rightarrow> (m, a))"

function first_cap :: "nat \<Rightarrow> nat \<Rightarrow> nat" where
  "first_cap cap number = (if 0 < cap \<and> cap \<le> number + 1 then first_cap (cap * 2) number else cap)"
  by pat_completeness auto
termination by (relation "measure (\<lambda>(cap, n). n + 2 - cap)") auto

declare first_cap.simps [simp del]

text \<open>
  \<open>grow\<close> is the part of \<open>_pbcA_push\<close> before the store. Block sizes are passed to
  \<open>_pbcH_alloc\<close> as an \<open>int\<close>; one that does not fit would give a block smaller than what is
  copied into it.
\<close>

definition grow :: "'v vararray \<Rightarrow> mem \<Rightarrow> (mem \<times> 'v vararray) option" where
  "grow a m =
     (let n = arr_number a in
      if n = 0 then Some (m, a\<lparr>arr_a := Inner\<rparr>)
      else if n \<ge> INNER_FIELD then
        if n = INNER_FIELD then
          (let cap = first_cap 1 n
           in do {
              m \<leftarrow> HMALLOC (arr_heap a) (16 * int cap) m;
              case arr_a a of
                Inner \<Rightarrow> Some (m, a\<lparr>arr_a := Outer (take INNER_FIELD (arr_inner a) @ replicate (cap - INNER_FIELD) None)\<rparr>)
              | Outer cs \<Rightarrow> Some (m, a\<lparr>arr_a := Outer (take INNER_FIELD cs @ replicate (cap - INNER_FIELD) None)\<rparr>)
              | Null \<Rightarrow> None })
        else if (n + 1) XOR n > n then
          (if 16 * (int n + 1) * 2 > INT_MAX then None
           else case arr_a a of
             Outer cs \<Rightarrow> do {
               m \<leftarrow> (if arr_heap a then HMALLOC True (16 * (int n + 1) * 2) m else Some m);
               Some (m, a\<lparr>arr_a := Outer (pbcM_realloc cs ((n + 1) * 2))\<rparr>) }
           | _ \<Rightarrow> None)
        else Some (m, a)
      else Some (m, a))"

definition pbcA_push :: "'v vararray \<Rightarrow> 'v \<Rightarrow> mem \<Rightarrow> (mem \<times> 'v vararray) option" where
  "pbcA_push a v m = do {
     (m, a) \<leftarrow> grow a m;
     let n = arr_number a;
     case arr_a a of
       Inner \<Rightarrow> if n < length (arr_inner a)
                then Some (m, a\<lparr>arr_inner := (arr_inner a)[n := Some v], arr_number := n + 1\<rparr>) else None
     | Outer cs \<Rightarrow> if n < length cs
                   then Some (m, a\<lparr>arr_a := Outer (cs[n := Some v]), arr_number := n + 1\<rparr>) else None
     | Null \<Rightarrow> None }"

definition cells_of :: "'v vararray \<Rightarrow> 'v option list" where
  "cells_of a = (case arr_a a of Inner \<Rightarrow> arr_inner a | Outer cs \<Rightarrow> cs | Null \<Rightarrow> [])"

definition pbcA_index :: "'v vararray \<Rightarrow> int \<Rightarrow> 'v option" where
  "pbcA_index a idx = (if idx < 0 then None else Option.bind (rd (cells_of a) (nat idx)) id)"

text \<open>An address is the index of the cell; \<open>None\<close> in the second is the NULL pointer.\<close>

definition pbcA_index_p :: "'v vararray \<Rightarrow> int \<Rightarrow> int" where
  "pbcA_index_p a idx = idx"

definition pbc_array_size :: "'v vararray \<Rightarrow> nat" where
  "pbc_array_size a = arr_number a"

definition pbc_array_slice :: "'v vararray \<Rightarrow> int \<Rightarrow> int option" where
  "pbc_array_slice a index = (if index < 0 \<or> index > int (arr_number a) then None else Some index)"

definition pbc_array_push :: "'v vararray \<Rightarrow> 'v \<Rightarrow> mem \<Rightarrow> (mem \<times> 'v vararray) option" where
  "pbc_array_push array v m = pbcA_push array v m"

subsection \<open>Doubling\<close>

lemma xor_pow: "(2 ^ k) XOR (2 ^ k - 1) = (2 ^ Suc k - 1 :: nat)"
proof -
  have "(2 ^ k) XOR mask k = (mask (Suc k) :: nat)"
    by (rule bit_eqI) (auto simp: bit_xor_iff bit_exp_iff bit_mask_iff)
  then show ?thesis by (simp add: mask_eq_exp_minus_1)
qed

lemma no_growth: "n < 2 ^ k \<Longrightarrow> \<not> (n + 1) XOR n > n \<Longrightarrow> n + 1 < (2 :: nat) ^ k"
proof (rule ccontr)
  assume a: "n < 2 ^ k" "\<not> (n + 1) XOR n > n" "\<not> n + 1 < 2 ^ k"
  then have n: "n + 1 = 2 ^ k" "n = 2 ^ k - 1" by auto
  have "(n + 1) XOR n = 2 ^ Suc k - 1" unfolding n(1) by (subst n(2)) (rule xor_pow)
  also have "\<dots> > n" using n(1) [symmetric] by simp
  finally show False using a(2) by simp
qed

lemma first_cap_2: "first_cap (Suc 0) 2 = 4"
  by (simp add: first_cap.simps)

subsection \<open>The array as a list\<close>

text \<open>
  The first \<open>number\<close> cells hold the values in order; a block outside has a power of two of
  cells more than there are values.
\<close>

definition arr_inv :: "'v vararray \<Rightarrow> bool" where
  "arr_inv a \<longleftrightarrow> length (arr_inner a) = INNER_FIELD
     \<and> (case arr_a a of
          Inner \<Rightarrow> arr_number a \<le> INNER_FIELD
        | Outer cs \<Rightarrow> INNER_FIELD < arr_number a \<and> (\<exists>k. arr_number a < 2 ^ k \<and> 2 ^ k \<le> length cs)
        | Null \<Rightarrow> False)
     \<and> (\<forall>i < arr_number a. cells_of a ! i \<noteq> None)"

definition arr_list :: "'v vararray \<Rightarrow> 'v list" where
  "arr_list a = map the (take (arr_number a) (cells_of a))"

text \<open>The number of values for which every block size fits an \<open>int\<close>.\<close>

definition PUSH_MAX :: nat where
  "PUSH_MAX = 2 ^ 26 - 2"

lemma open_inv: "arr_inv pbcA_open" "arr_inv pbcA_open_heap" "arr_list pbcA_open = []" "arr_list pbcA_open_heap = []"
  by (auto simp: arr_inv_def pbcA_open_def pbcA_open_heap_def arr_list_def)

lemma arr_inv_length: "arr_inv a \<Longrightarrow> arr_number a \<le> length (cells_of a)"
  by (auto simp: arr_inv_def cells_of_def split: cells.splits)

lemma length_arr_list: "arr_inv a \<Longrightarrow> length (arr_list a) = arr_number a"
  using arr_inv_length by (force simp: arr_list_def)

lemma index_arr_list:
  assumes "arr_inv a" and "0 \<le> i" and "i < int (arr_number a)"
  shows "pbcA_index a i = Some (arr_list a ! nat i)"
proof -
  have "nat i < arr_number a" using assms by simp
  moreover have "cells_of a ! nat i \<noteq> None" using assms calculation by (simp add: arr_inv_def)
  ultimately show ?thesis using arr_inv_length [OF assms(1)] assms(2)
    by (auto simp: pbcA_index_def rd_def arr_list_def)
qed

text \<open>What one push does to the cells: they are kept, and there is room for one more.\<close>

lemma grow_ok:
  assumes inv: "arr_inv a" and lim: "arr_number a \<le> PUSH_MAX"
  obtains m' a' where "grow a m = Some (m', a')" and "arr_number a' = arr_number a"
    and "arr_heap a' = arr_heap a" and "length (arr_inner a') = INNER_FIELD"
    and "take (arr_number a) (cells_of a') = take (arr_number a) (cells_of a)"
    and "case arr_a a' of Inner \<Rightarrow> arr_number a < INNER_FIELD
       | Outer cs \<Rightarrow> INNER_FIELD \<le> arr_number a \<and> (\<exists>k. arr_number a + 1 < 2 ^ k \<and> 2 ^ k \<le> length cs)
       | Null \<Rightarrow> False"
proof (cases "arr_number a < INNER_FIELD")
  case True
  with inv have "arr_a a = Inner" "length (arr_inner a) = 2"
    by (auto simp: arr_inv_def split: cells.splits)
  with True show thesis
    by (intro that [of m "if arr_number a = 0 then a\<lparr>arr_a := Inner\<rparr> else a"]) (auto simp: grow_def Let_def cells_of_def)
next
  case False
  show thesis
  proof (cases "arr_number a = INNER_FIELD")
    case True
    with inv have *: "arr_a a = Inner" "length (arr_inner a) = 2"
      by (auto simp: arr_inv_def split: cells.splits)
    have "\<exists>k. 3 < (2 :: nat) ^ k \<and> 2 ^ k \<le> (4 :: nat)" by (rule exI [of _ 2]) simp
    with True * show thesis
      by (intro that [of "hmalloc (arr_heap a) 64 m" "a\<lparr>arr_a := Outer (arr_inner a @ replicate 2 None)\<rparr>"])
        (auto simp: grow_def Let_def cells_of_def first_cap_2)
  next
    case n: False
    with \<open>\<not> arr_number a < INNER_FIELD\<close> inv obtain cs k where
      cs: "arr_a a = Outer cs" and k: "arr_number a < 2 ^ k" "2 ^ k \<le> length cs" and n2: "2 < arr_number a"
      by (auto simp: arr_inv_def split: cells.splits)
    show thesis
    proof (cases "(arr_number a + 1) XOR arr_number a > arr_number a")
      case True
      obtain j where j: "2 ^ j \<le> arr_number a + 1" "arr_number a + 1 < 2 ^ (j + 1)"
        using ex_power_ivl1 [of 2 "arr_number a + 1"] by auto
      have "\<not> 16 * (int (arr_number a) + 1) * 2 > INT_MAX" "16 * (int (arr_number a) + 1) * 2 \<le> 2147483644"
        using lim by (simp_all add: INT_MAX_def PUSH_MAX_def)
      then show thesis using True n2 cs k j inv
        by (intro that [of "if arr_heap a then hmalloc True (16 * (int (arr_number a) + 1) * 2) m else m"
              "a\<lparr>arr_a := Outer (pbcM_realloc cs ((arr_number a + 1) * 2))\<rparr>"])
          (auto simp: grow_def Let_def cells_of_def pbcM_realloc_def arr_inv_def min_def intro!: exI [of _ "j + 1"])
    next
      case False
      with no_growth [OF k(1) False] show thesis using n2 cs k inv
        by (intro that [of m a]) (auto simp: grow_def Let_def cells_of_def arr_inv_def)
    qed
  qed
qed

lemma push_ok:
  assumes inv: "arr_inv a" and lim: "arr_number a \<le> PUSH_MAX"
  obtains m' a' where "pbcA_push a v m = Some (m', a')" and "arr_inv a'" and "arr_list a' = arr_list a @ [v]"
    and "arr_heap a' = arr_heap a" and "arr_number a' = arr_number a + 1"
proof -
  let ?n = "arr_number a"
  obtain m1 a1 where g: "grow a m = Some (m1, a1)" "arr_number a1 = ?n" "arr_heap a1 = arr_heap a"
    "length (arr_inner a1) = INNER_FIELD" "take ?n (cells_of a1) = take ?n (cells_of a)"
    and st: "case arr_a a1 of Inner \<Rightarrow> arr_number a < INNER_FIELD
       | Outer cs \<Rightarrow> INNER_FIELD \<le> arr_number a \<and> (\<exists>k. arr_number a + 1 < 2 ^ k \<and> 2 ^ k \<le> length cs)
       | Null \<Rightarrow> False"
    by (rule grow_ok [OF assms, of m])
  define a2 where "a2 = (case arr_a a1 of Inner \<Rightarrow> a1\<lparr>arr_inner := (arr_inner a1)[?n := Some v], arr_number := ?n + 1\<rparr>
     | Outer cs \<Rightarrow> a1\<lparr>arr_a := Outer (cs[?n := Some v]), arr_number := ?n + 1\<rparr> | Null \<Rightarrow> a1)"
  have p: "pbcA_push a v m = Some (m1, a2)"
    using st g by (auto simp: pbcA_push_def Let_def a2_def split: cells.splits)
  have lt: "?n < length (cells_of a1)"
    using st g(4) by (auto simp: cells_of_def split: cells.splits)
  have c: "cells_of a2 = (cells_of a1)[?n := Some v]"
    using st by (auto simp: cells_of_def a2_def split: cells.splits)
  have n2: "arr_number a2 = ?n + 1" "arr_heap a2 = arr_heap a"
    using st g by (auto simp: a2_def split: cells.splits)
  have old: "cells_of a1 ! i = cells_of a ! i" if "i < ?n" for i
    using g(5) that by (metis nth_take)
  have "arr_inv a2"
    unfolding arr_inv_def
  proof (intro conjI)
    show "length (arr_inner a2) = INNER_FIELD" using st g by (auto simp: a2_def split: cells.splits)
    show "case arr_a a2 of Inner \<Rightarrow> arr_number a2 \<le> INNER_FIELD
        | Outer cs \<Rightarrow> INNER_FIELD < arr_number a2 \<and> (\<exists>k. arr_number a2 < 2 ^ k \<and> 2 ^ k \<le> length cs)
        | Null \<Rightarrow> False"
      using st g by (auto simp: a2_def n2 split: cells.splits)
    show "\<forall>i < arr_number a2. cells_of a2 ! i \<noteq> None"
      using inv lt old by (auto simp: n2 c nth_list_update less_Suc_eq arr_inv_def)
  qed
  moreover have "arr_list a2 = arr_list a @ [v]"
    using lt by (simp add: arr_list_def n2 c take_Suc_conv_app_nth take_update_cancel g(5))
  ultimately show thesis using p n2 by (intro that) auto
qed

subsection \<open>The contract of a growing array\<close>

fun push_all :: "('a \<Rightarrow> 'v \<Rightarrow> 'm \<Rightarrow> ('m \<times> 'a) option) \<Rightarrow> 'a \<Rightarrow> 'v list \<Rightarrow> 'm \<Rightarrow> ('m \<times> 'a) option" where
  "push_all push a [] m = Some (m, a)"
| "push_all push a (v # vs) m = do { (m, a) \<leftarrow> push a v m; push_all push a vs m }"

locale growable =
  fixes push :: "'a \<Rightarrow> 'v \<Rightarrow> 'm \<Rightarrow> ('m \<times> 'a) option"
    and index :: "'a \<Rightarrow> int \<Rightarrow> 'v option"
    and size_of :: "'a \<Rightarrow> nat"
    and inv :: "'a \<Rightarrow> bool"
    and list_of :: "'a \<Rightarrow> 'v list"
    and limit :: nat
  assumes push: "inv a \<Longrightarrow> length (list_of a) < limit \<Longrightarrow>
      \<exists>m' a'. push a v m = Some (m', a') \<and> inv a' \<and> list_of a' = list_of a @ [v]"
    and index: "inv a \<Longrightarrow> i < length (list_of a) \<Longrightarrow> index a (int i) = Some (list_of a ! i)"
    and size_of: "inv a \<Longrightarrow> size_of a = length (list_of a)"
begin

lemma push_all_ok:
  assumes "inv a" and "length (list_of a) + length vs \<le> limit"
  shows "\<exists>m' a'. push_all push a vs m = Some (m', a') \<and> inv a' \<and> list_of a' = list_of a @ vs"
  using assms
proof (induction vs arbitrary: a m)
  case (Cons v vs)
  obtain m1 a1 where p: "push a v m = Some (m1, a1)" "inv a1" "list_of a1 = list_of a @ [v]"
    using push [of a v m] Cons.prems by auto
  with Cons.IH [OF p(2), of m1] Cons.prems(2) show ?case by auto
qed simp

lemma push_all_read:
  assumes "inv a" and "list_of a = []" and "length vs \<le> limit"
  obtains m' a' where "push_all push a vs m = Some (m', a')" and "inv a'" and "size_of a' = length vs"
    and "map (\<lambda>i. index a' (int i)) [0..<length vs] = map Some vs"
proof -
  obtain m' a' where "push_all push a vs m = Some (m', a')" "inv a'" "list_of a' = vs"
    using push_all_ok [of a vs m] assms by auto
  then show thesis by (intro that [of m' a']) (auto simp: size_of index intro: nth_equalityI)
qed

end

interpretation va: growable pbcA_push pbcA_index pbc_array_size arr_inv arr_list "Suc PUSH_MAX"
proof unfold_locales
  fix a :: "'v vararray" and v :: 'v and m :: mem
  assume i: "arr_inv a" and "length (arr_list a) < Suc PUSH_MAX"
  then have "arr_number a \<le> PUSH_MAX" by (simp add: length_arr_list)
  with i show "\<exists>m' a'. pbcA_push a v m = Some (m', a') \<and> arr_inv a' \<and> arr_list a' = arr_list a @ [v]"
    by (rule push_ok [of a v m]) blast
next
  fix a :: "'v vararray" and i :: nat
  assume "arr_inv a" "i < length (arr_list a)"
  then show "pbcA_index a (int i) = Some (arr_list a ! i)" using index_arr_list [of a "int i"]
    by (simp add: length_arr_list)
qed (simp add: length_arr_list pbc_array_size_def)

text \<open>An array without a heap owns exactly one block when it has more than two values.\<close>

lemma push_count:
  assumes "arr_inv a" "\<not> arr_heap a" "pbcA_push a v m = Some (m', a')"
  shows "mem_g m' - of_bool (\<exists>cs. arr_a a' = Outer cs) = mem_g m - of_bool (\<exists>cs. arr_a a = Outer cs)
    \<and> \<not> arr_heap a'"
  using assms
  by (auto simp: pbcA_push_def grow_def Let_def ub_simps HMALLOC_def pbcM_malloc_def arr_inv_def
      split: if_splits cells.splits)

lemma push_all_count:
  assumes "arr_inv a" "\<not> arr_heap a" "length (arr_list a) + length vs \<le> Suc PUSH_MAX"
    "push_all pbcA_push a vs m = Some (m', a')"
  shows "mem_g m' - of_bool (\<exists>cs. arr_a a' = Outer cs) = mem_g m - of_bool (\<exists>cs. arr_a a = Outer cs)
    \<and> \<not> arr_heap a'"
  using assms
proof (induction vs arbitrary: a m)
  case (Cons v vs)
  obtain m1 a1 where p: "pbcA_push a v m = Some (m1, a1)" "arr_inv a1" "arr_list a1 = arr_list a @ [v]"
    using va.push [of a v m] Cons.prems by auto
  with Cons.prems have "push_all pbcA_push a1 vs m1 = Some (m', a')" by simp
  with Cons.IH [OF p(2), of m1] push_count [OF Cons.prems(1,2) p(1)] Cons.prems(3) p(3) show ?case by simp
qed simp

subsection \<open>Properties\<close>

text \<open>
  C23: fewer than 2 to the 26 values pushed onto a fresh array, with or without a heap, are read back
  by index, in order, and the size is their number: no growth step loses or moves a value.\<close>

theorem array_push_index:
  assumes "length vs < 2 ^ 26"
  shows "\<exists>m' a'. push_all pbcA_push (if h then pbcA_open_heap else pbcA_open) vs m = Some (m', a')
     \<and> pbc_array_size a' = length vs
     \<and> map (\<lambda>i. pbcA_index a' (int i)) [0..<length vs] = map Some vs"
proof -
  have "arr_inv (if h then pbcA_open_heap else pbcA_open)" "arr_list (if h then pbcA_open_heap else pbcA_open) = []"
    by (simp_all add: open_inv)
  then show ?thesis by (rule va.push_all_read [of _ vs m]) (use assms in \<open>auto simp: PUSH_MAX_def\<close>)
qed

lemma array_push_index_witness:
  "\<exists>m' a'. push_all pbcA_push (if True then pbcA_open_heap else pbcA_open) [5, 6, 7, 8, 9 :: nat]
       \<lparr>mem_g = 2, mem_heap = \<lparr>hp_pages = [1024], hp_size = 1024, hp_used = 0\<rparr>\<rparr> = Some (m', a')
     \<and> pbc_array_size a' = length [5, 6, 7, 8, 9 :: nat]
     \<and> map (\<lambda>i. pbcA_index a' (int i)) [0..<length [5, 6, 7, 8, 9 :: nat]] = map Some [5, 6, 7, 8, 9]"
  by (rule array_push_index) simp

text \<open>
  Closing an array that was opened without a heap frees exactly the blocks that pushing onto
  it allocated.\<close>

theorem array_close_balanced:
  assumes "length vs < 2 ^ 26" and "push_all pbcA_push pbcA_open vs m = Some (m', a')"
  shows "mem_g (fst (pbcA_close a' m')) = mem_g m"
proof -
  have "\<not> arr_heap (pbcA_open :: 'a vararray)" "arr_a (pbcA_open :: 'a vararray) = Inner"
    by (simp_all add: pbcA_open_def)
  with push_all_count [OF open_inv(1) _ _ assms(2)] assms(1) show ?thesis
    by (auto simp: open_inv PUSH_MAX_def pbcA_close_def pbcM_free_def split: cells.splits)
qed

lemma array_close_balanced_witness:
  "mem_g (fst (pbcA_close
     \<lparr>arr_number = 3, arr_heap = False, arr_inner = [Some 5, Some 6], arr_a = Outer [Some 5, Some 6, Some (7 :: nat), None]\<rparr>
     \<lparr>mem_g = 3, mem_heap = \<lparr>hp_pages = [1024], hp_size = 1024, hp_used = 0\<rparr>\<rparr>)) =
   mem_g \<lparr>mem_g = 2, mem_heap = \<lparr>hp_pages = [1024], hp_size = 1024, hp_used = 0\<rparr>\<rparr>"
  by (rule array_close_balanced [of "[5, 6, 7]"]) (simp, code_simp)

text \<open>
  \<open>pbc_array_slice\<close> accepts the index that equals the size: on an array holding two values
  it returns the address behind the last cell there is.\<close>

theorem array_slice_end:
  "case push_all pbcA_push pbcA_open [v, w] m of
     Some (_, a) \<Rightarrow> pbc_array_size a = 2 \<and> pbc_array_slice a 2 = Some 2 \<and> length (cells_of a) = 2
       \<and> pbcA_index a 2 = None
   | None \<Rightarrow> False"
  by (simp add: pbcA_push_def grow_def pbcA_open_def Let_def numeral_2_eq_2 pbc_array_slice_def
      pbc_array_size_def pbcA_index_def cells_of_def)

end
