(* ===== verification/Chains.thy ===== *)
theory Chains
  imports Prelude
begin

section \<open>Collision chains inside a table\<close>

text \<open>
  The three maps of pbc keep colliding entries in the table itself: an entry whose home slot is
  taken goes to a free slot, which is linked behind the home slot. Links are slot numbers plus
  one, 0 ends a chain. A chain may run through entries of several homes. This theory is about the
  links alone: \<open>nx i\<close> is the link of slot \<open>i\<close>, \<open>occ i\<close> says that the slot is taken, \<open>home i\<close> is
  the home of the entry in it.
\<close>

subsection \<open>Following the links\<close>

text \<open>
  The search loop of every query: test a slot, stop at the end of the chain. The test and the
  link may be undefined; fuel that runs out stands for a loop that goes on.
\<close>

fun chase :: "nat \<Rightarrow> (nat \<Rightarrow> bool option) \<Rightarrow> (nat \<Rightarrow> nat option) \<Rightarrow> nat \<Rightarrow> nat option option" where
  "chase 0 test nxt i = None"
| "chase (Suc fuel) test nxt i = do {
     b \<leftarrow> test i;
     if b then Some (Some i)
     else do { n \<leftarrow> nxt i; if n = 0 then Some None else chase fuel test nxt (n - 1) } }"

fun chain :: "(nat \<Rightarrow> nat) \<Rightarrow> nat \<Rightarrow> nat list \<Rightarrow> bool" where
  "chain nx i [] = False"
| "chain nx i (x # xs) = (x = i \<and> (nx i = 0 \<longrightarrow> xs = []) \<and> (nx i \<noteq> 0 \<longrightarrow> chain nx (nx i - 1) xs))"

lemma chain_hd: "chain nx i xs \<Longrightarrow> xs \<noteq> [] \<and> hd xs = i \<and> i \<in> set xs"
  by (cases xs) auto

lemma chain_unique: "chain nx i xs \<Longrightarrow> chain nx i ys \<Longrightarrow> xs = ys"
  by (induction nx i xs arbitrary: ys rule: chain.induct) (case_tac ys; auto split: if_splits)+

lemma chain_suffix: "chain nx i xs \<Longrightarrow> j \<in> set xs \<Longrightarrow> \<exists>us vs. xs = us @ vs \<and> chain nx j vs"
proof (induction nx i xs rule: chain.induct)
  case (2 nx i x xs)
  show ?case
  proof (cases "j = i")
    case True
    with "2.prems" show ?thesis by (intro exI [of _ "[]"] exI [of _ "x # xs"]) simp
  next
    case False
    with "2.prems" have "nx i \<noteq> 0" "chain nx (nx i - 1) xs" "j \<in> set xs" by (auto split: if_splits)
    with 2 obtain us vs where "xs = us @ vs" "chain nx j vs" by blast
    then show ?thesis by (intro exI [of _ "x # us"] exI [of _ vs]) simp
  qed
qed simp

lemma chain_distinct: "chain nx i xs \<Longrightarrow> distinct xs"
proof (induction nx i xs rule: chain.induct)
  case (2 nx i x xs)
  show ?case
  proof (cases "nx i = 0")
    case False
    with "2.prems" have c: "chain nx (nx i - 1) xs" "x = i" by (auto split: if_splits)
    then have d: "distinct xs" using "2.IH" False by simp
    have "x \<notin> set xs"
    proof
      assume "x \<in> set xs"
      then obtain us vs where "xs = us @ vs" "chain nx i vs" using chain_suffix [OF c(1)] c(2) by blast
      moreover have "chain nx i (x # xs)" using "2.prems" by simp
      ultimately have "vs = x # us @ vs" using chain_unique by metis
      then show False by (metis append_Cons append_self_conv2 list.distinct(1))
    qed
    with d show ?thesis by simp
  qed (use "2.prems" in simp)
qed simp

lemma chain_cong: "chain nx i xs \<Longrightarrow> (\<And>x. x \<in> set xs \<Longrightarrow> nx' x = nx x) \<Longrightarrow> chain nx' i xs"
  by (induction nx i xs rule: chain.induct) (auto split: if_splits)

text \<open>A search along a chain finds its first element that passes the test.\<close>

lemma chase_chain:
  assumes "chain nx i xs" and "length xs \<le> fuel"
    and "\<And>x. x \<in> set xs \<Longrightarrow> test x = Some (p x)" and "\<And>x. x \<in> set xs \<Longrightarrow> nxt x = Some (nx x)"
  shows "chase fuel test nxt i = Some (find p xs)"
  using assms
proof (induction nx i xs arbitrary: fuel rule: chain.induct)
  case (2 nx i x xs)
  then obtain f where "fuel = Suc f" by (cases fuel) auto
  with 2 show ?case by (auto split: if_splits)
qed simp

subsection \<open>Linking in a slot behind another\<close>

fun insert_after :: "nat \<Rightarrow> nat \<Rightarrow> nat list \<Rightarrow> nat list" where
  "insert_after h e [] = []"
| "insert_after h e (x # xs) = (if x = h then x # e # xs else x # insert_after h e xs)"

lemma set_insert_after: "set (insert_after h e xs) = set xs \<union> (if h \<in> set xs then {e} else {})"
  by (induction xs) auto

lemma chain_link:
  assumes "nx' h = Suc e" and "nx' e = nx h" and "nx h = 0 \<Longrightarrow> xs = []"
    and "nx h \<noteq> 0 \<Longrightarrow> chain nx' (nx h - 1) xs"
  shows "chain nx' h (h # e # xs)"
  using assms by simp

lemma chain_insert_gen:
  assumes nx': "nx' h = Suc e" "nx' e = nx h" "\<And>j. j \<noteq> h \<Longrightarrow> j \<noteq> e \<Longrightarrow> nx' j = nx j"
  shows "chain nx i xs \<Longrightarrow> e \<notin> set xs \<Longrightarrow> distinct xs \<Longrightarrow> chain nx' i (insert_after h e xs)"
proof (induction xs arbitrary: i)
  case (Cons x xs)
  then have x: "x = i" "e \<noteq> i" "e \<notin> set xs" "i \<notin> set xs" "distinct xs"
    and c: "nx i = 0 \<Longrightarrow> xs = []" "nx i \<noteq> 0 \<Longrightarrow> chain nx (nx i - 1) xs" by auto
  show ?case
  proof (cases "i = h")
    case True
    have "chain nx' (nx h - 1) xs" if "nx h \<noteq> 0"
    proof (rule chain_cong [of nx])
      show "chain nx (nx h - 1) xs" using c(2) that True by simp
      show "nx' j = nx j" if "j \<in> set xs" for j using that x True by (intro nx'(3)) auto
    qed
    with True c(1) x have "chain nx' h (h # e # xs)" by (intro chain_link) (use nx' in auto)
    with True x show ?thesis by simp
  next
    case False
    with x have "nx' i = nx i" by (intro nx'(3)) auto
    with False x c Cons.IH show ?thesis by auto
  qed
qed simp

lemma chain_insert_after:
  assumes "chain nx i xs" and "e \<notin> set xs" and "e \<noteq> h"
  shows "chain (nx(e := nx h, h := Suc e)) i (insert_after h e xs)"
  using assms by (intro chain_insert_gen chain_distinct [of nx i]) auto

subsection \<open>The invariant of a table\<close>

definition linked :: "nat \<Rightarrow> (nat \<Rightarrow> nat) \<Rightarrow> (nat \<Rightarrow> bool) \<Rightarrow> (nat \<Rightarrow> nat) \<Rightarrow> bool" where
  "linked n nx occ home \<longleftrightarrow>
     (\<forall>i < n. (\<not> occ i \<longrightarrow> nx i = 0) \<and>
       (occ i \<longrightarrow> home i < n \<and> occ (home i) \<and>
         (\<exists>xs. chain nx i xs \<and> (\<forall>x \<in> set xs. x < n \<and> occ x)) \<and>
         (\<exists>xs. chain nx (home i) xs \<and> i \<in> set xs)))"

lemma linked_empty: "linked n (\<lambda>_. 0) (\<lambda>_. False) home"
  by (simp add: linked_def)

lemma linked_chain:
  assumes "linked n nx occ home" and "i < n" and "occ i"
  obtains xs where "chain nx i xs" and "\<forall>x \<in> set xs. x < n \<and> occ x" and "length xs \<le> n"
proof -
  obtain xs where xs: "chain nx i xs" "\<forall>x \<in> set xs. x < n \<and> occ x"
    using assms by (auto simp: linked_def)
  have "length xs = card (set xs)" using chain_distinct [OF xs(1)] by (simp add: distinct_card)
  also have "\<dots> \<le> card {..<n}" using xs(2) by (intro card_mono) auto
  finally show thesis using xs that by simp
qed

lemma linked_home:
  assumes "linked n nx occ home" and "i < n" and "occ i" and "chain nx (home i) xs"
  shows "i \<in> set xs"
  using assms chain_unique unfolding linked_def by metis

lemma linked_place_head:
  assumes "linked n nx occ home" and "h < n" and "\<not> occ h"
  shows "linked n nx (occ(h := True)) (home(h := h))"
  unfolding linked_def
proof (intro allI impI conjI)
  fix i assume i: "i < n"
  have nh: "nx h = 0" using assms by (auto simp: linked_def)
  have ch: "chain nx h [h]" using nh by simp
  show "nx i = 0" if "\<not> (occ(h := True)) i" using assms(1) i that by (auto simp: linked_def split: if_splits)
  assume o: "(occ(h := True)) i"
  show "(home(h := h)) i < n" "(occ(h := True)) ((home(h := h)) i)"
    using assms i o by (auto simp: linked_def)
  show "\<exists>xs. chain nx i xs \<and> (\<forall>x \<in> set xs. x < n \<and> (occ(h := True)) x)"
  proof (cases "i = h")
    case True
    with ch assms(2) show ?thesis by (intro exI [of _ "[h]"]) auto
  next
    case False
    with o have "occ i" by simp
    with assms(1) i show ?thesis unfolding linked_def by (metis fun_upd_apply)
  qed
  show "\<exists>xs. chain nx ((home(h := h)) i) xs \<and> i \<in> set xs"
  proof (cases "i = h")
    case True
    with ch show ?thesis by (intro exI [of _ "[h]"]) auto
  next
    case False
    with o assms(1) i show ?thesis by (auto simp: linked_def)
  qed
qed

lemma linked_place_after:
  assumes l: "linked n nx occ home" and h: "h < n" "occ h" and e: "e < n" "\<not> occ e"
  shows "linked n (nx(e := nx h, h := Suc e)) (occ(e := True)) (home(e := h))"
  unfolding linked_def
proof (intro allI impI conjI)
  let ?nx = "nx(e := nx h, h := Suc e)" and ?occ = "occ(e := True)" and ?home = "home(e := h)"
  have eh: "e \<noteq> h" using h e by auto
  have ins: "chain ?nx i (insert_after h e xs)" if "chain nx i xs" "\<forall>x \<in> set xs. x < n \<and> occ x" for i xs
    using that e eh by (intro chain_insert_after) auto
  obtain hs where hs: "chain nx h hs" "\<forall>x \<in> set hs. x < n \<and> occ x" by (rule linked_chain [OF l h])
  have inh: "e \<in> set (insert_after h e hs)" using chain_hd [OF hs(1)] by (simp add: set_insert_after)
  obtain tl where tl: "hs = h # tl" using chain_hd [OF hs(1)] by (cases hs) auto
  have ce: "chain ?nx e (e # tl)"
  proof -
    have "insert_after h e hs = h # e # tl" by (simp add: tl)
    with ins [OF hs] have "chain ?nx h (h # e # tl)" by simp
    then show ?thesis by (simp add: eh split: if_splits)
  qed
  fix i assume i: "i < n"
  show "?nx i = 0" if "\<not> ?occ i" using l i that h by (auto simp: linked_def split: if_splits)
  assume o: "?occ i"
  show "?home i < n" "?occ (?home i)" using l h i o by (auto simp: linked_def)
  show "\<exists>xs. chain ?nx i xs \<and> (\<forall>x \<in> set xs. x < n \<and> ?occ x)"
  proof (cases "i = e")
    case True
    with ce hs(2) tl e show ?thesis by (intro exI [of _ "e # tl"]) auto
  next
    case False
    then have "occ i" using o by simp
    then obtain xs where xs: "chain nx i xs" "\<forall>x \<in> set xs. x < n \<and> occ x" by (rule linked_chain [OF l i])
    with ins [OF xs] e show ?thesis by (intro exI [of _ "insert_after h e xs"]) (auto simp: set_insert_after)
  qed
  show "\<exists>xs. chain ?nx (?home i) xs \<and> i \<in> set xs"
  proof (cases "i = e")
    case True
    with ins [OF hs] inh show ?thesis by (intro exI [of _ "insert_after h e hs"]) auto
  next
    case False
    then have oi: "occ i" using o by simp
    then have hi: "home i < n" "occ (home i)" using l i by (auto simp: linked_def)
    obtain xs where xs: "chain nx (home i) xs" "\<forall>x \<in> set xs. x < n \<and> occ x" by (rule linked_chain [OF l hi])
    have "i \<in> set xs" by (rule linked_home [OF l i oi xs(1)])
    with ins [OF xs] False show ?thesis by (intro exI [of _ "insert_after h e xs"]) (auto simp: set_insert_after)
  qed
qed

text \<open>
  A search from a home slot, with a test that holds of at most one taken slot and only of slots
  with that home, finds that slot exactly when there is one.\<close>

lemma chase_linked:
  assumes l: "linked n nx occ home" and h: "h < n" "occ h"
    and test: "\<And>i. i < n \<Longrightarrow> occ i \<Longrightarrow> test i = Some (p i)"
    and nxt: "\<And>i. i < n \<Longrightarrow> nxt i = Some (nx i)"
    and hm: "\<And>i. i < n \<Longrightarrow> occ i \<Longrightarrow> p i \<Longrightarrow> home i = h"
    and uq: "\<And>i j. i < n \<Longrightarrow> j < n \<Longrightarrow> occ i \<Longrightarrow> occ j \<Longrightarrow> p i \<Longrightarrow> p j \<Longrightarrow> i = j"
    and fuel: "n \<le> fuel"
  shows "chase fuel test nxt h = Some (find (\<lambda>i. occ i \<and> p i) [0..<n])"
proof -
  obtain xs where xs: "chain nx h xs" "\<forall>x \<in> set xs. x < n \<and> occ x" "length xs \<le> n" by (rule linked_chain [OF l h])
  have "chase fuel test nxt h = Some (find p xs)"
    using xs fuel test nxt by (intro chase_chain) auto
  also have "find p xs = find (\<lambda>i. occ i \<and> p i) [0..<n]"
  proof (cases "find p xs")
    case None
    have "\<not> (occ i \<and> p i)" if "i < n" for i
    proof
      assume a: "occ i \<and> p i"
      then have "i \<in> set xs" using linked_home [OF l that, of xs] hm [OF that] xs(1) by simp
      with None a show False by (simp add: find_None_iff)
    qed
    then have "find (\<lambda>i. occ i \<and> p i) [0..<n] = None" by (simp add: find_None_iff)
    with None show ?thesis by simp
  next
    case (Some j)
    then have j: "j \<in> set xs" "p j" by (auto simp: find_Some_iff)
    with xs have jn: "j < n" "occ j" by auto
    obtain k where k: "find (\<lambda>i. occ i \<and> p i) [0..<n] = Some k"
      using j jn by (cases "find (\<lambda>i. occ i \<and> p i) [0..<n]") (auto simp: find_None_iff)
    then have "k < n" "occ k" "p k" by (auto simp: find_Some_iff)
    then have "k = j" using uq jn j by blast
    with Some k show ?thesis by simp
  qed
  finally show ?thesis .
qed

subsection \<open>Tables with distinct keys\<close>

text \<open>\<open>key i\<close> is the key in slot \<open>i\<close>, if any, and \<open>hm\<close> takes a key to its home slot.\<close>

definition tab :: "nat \<Rightarrow> ('k \<Rightarrow> nat) \<Rightarrow> (nat \<Rightarrow> nat) \<Rightarrow> (nat \<Rightarrow> 'k option) \<Rightarrow> bool" where
  "tab n hm nx key \<longleftrightarrow> linked n nx (\<lambda>i. key i \<noteq> None) (\<lambda>i. hm (the (key i)))
     \<and> (\<forall>i < n. \<forall>j < n. key i \<noteq> None \<longrightarrow> key i = key j \<longrightarrow> i = j)"

lemma tab_empty: "tab n hm (\<lambda>_. 0) (\<lambda>_. None)"
  by (simp add: tab_def linked_def)

lemma tab_head:
  assumes "tab n hm nx key" and "hm k < n" and "key (hm k) = None" and "\<forall>i < n. key i \<noteq> Some k"
  shows "tab n hm nx (key(hm k \<mapsto> k))"
proof -
  have "linked n nx ((\<lambda>i. key i \<noteq> None)(hm k := True)) ((\<lambda>i. hm (the (key i)))(hm k := hm k))"
    by (rule linked_place_head) (use assms in \<open>simp_all add: tab_def\<close>)
  moreover have "(\<lambda>i. key i \<noteq> None)(hm k := True) = (\<lambda>i. (key(hm k \<mapsto> k)) i \<noteq> None)"
    "(\<lambda>i. hm (the (key i)))(hm k := hm k) = (\<lambda>i. hm (the ((key(hm k \<mapsto> k)) i)))" by (auto simp: fun_eq_iff)
  ultimately have "linked n nx (\<lambda>i. (key(hm k \<mapsto> k)) i \<noteq> None) (\<lambda>i. hm (the ((key(hm k \<mapsto> k)) i)))" by simp
  then show ?thesis using assms(1,4) by (auto simp: tab_def)
qed

lemma tab_after:
  assumes "tab n hm nx key" and "hm k < n" and "key (hm k) \<noteq> None" and "e < n" and "key e = None"
    and "\<forall>i < n. key i \<noteq> Some k"
  shows "tab n hm (nx(e := nx (hm k), hm k := Suc e)) (key(e \<mapsto> k))"
proof -
  have "linked n (nx(e := nx (hm k), hm k := Suc e)) ((\<lambda>i. key i \<noteq> None)(e := True)) ((\<lambda>i. hm (the (key i)))(e := hm k))"
    by (rule linked_place_after) (use assms in \<open>simp_all add: tab_def\<close>)
  moreover have "(\<lambda>i. key i \<noteq> None)(e := True) = (\<lambda>i. (key(e \<mapsto> k)) i \<noteq> None)"
    "(\<lambda>i. hm (the (key i)))(e := hm k) = (\<lambda>i. hm (the ((key(e \<mapsto> k)) i)))" by (auto simp: fun_eq_iff)
  ultimately have "linked n (nx(e := nx (hm k), hm k := Suc e)) (\<lambda>i. (key(e \<mapsto> k)) i \<noteq> None) (\<lambda>i. hm (the ((key(e \<mapsto> k)) i)))"
    by simp
  then show ?thesis using assms(1,6) by (auto simp: tab_def)
qed

lemma tab_search:
  assumes t: "tab n hm nx key" and h: "hm k < n" "key (hm k) \<noteq> None"
    and test: "\<And>i. i < n \<Longrightarrow> key i \<noteq> None \<Longrightarrow> test i = Some (key i = Some k)"
    and nxt: "\<And>i. i < n \<Longrightarrow> nxt i = Some (nx i)"
  shows "chase n test nxt (hm k) = Some (find (\<lambda>i. key i = Some k) [0..<n])"
proof -
  have "chase n test nxt (hm k) = Some (find (\<lambda>i. key i \<noteq> None \<and> key i = Some k) [0..<n])"
    by (rule chase_linked [of n nx "\<lambda>i. key i \<noteq> None" "\<lambda>i. hm (the (key i))"])
      (use t h test nxt in \<open>auto simp: tab_def\<close>)
  also have "find (\<lambda>i. key i \<noteq> None \<and> key i = Some k) [0..<n] = find (\<lambda>i. key i = Some k) [0..<n]"
    by (rule find_cong) auto
  finally show ?thesis .
qed

end
