(* ===== verification/MapSp.thy ===== *)
theory MapSp
  imports Chains Alloc
begin

section \<open>The map from strings to pointers (pbc/src/map.c)\<close>

text \<open>
  \<open>struct map_sp\<close> is a table whose capacity \<open>cap\<close> is a power of two (here the length of the slot
  list); a NULL key marks a free slot. Keys are C strings, the pointers stored are of type
  \<open>'v option\<close>, \<open>None\<close> being NULL. The table doubles when it is full. The theory also has
  \<open>calc_hash\<close>, which \<open>map_si\<close> shares.
\<close>

subsection \<open>The hash of a string\<close>

text \<open>\<open>char\<close> is signed, so a byte is sign-extended.\<close>

function calc_loop :: "cstring \<Rightarrow> nat \<Rightarrow> nat \<Rightarrow> u64 \<Rightarrow> u64" where
  "calc_loop name step i h =
     (if 0 < step \<and> step \<le> i
      then calc_loop name step (i - step) (h XOR (push_bit 5 h + drop_bit 2 h + scast (name ! (i - 1))))
      else h)"
  by pat_completeness auto
termination by (relation "measure (\<lambda>(n, s, i, h). i)") auto

declare calc_loop.simps [simp del]

definition calc_hash :: "cstring \<Rightarrow> u64" where
  "calc_hash name = calc_loop name (drop_bit 5 (length name) + 1) (length name) (of_nat (length name))"

subsection \<open>The table\<close>

record 'v sp_slot =
  spk :: "cstring option"
  sph :: u64
  spp :: "'v option"
  spn :: nat

record 'v map_sp =
  sp_heap :: bool
  sp_size :: nat
  sp_slot :: "'v sp_slot list"

definition free_slot :: "'v sp_slot" where
  "free_slot = \<lparr>spk = None, sph = 0, spp = None, spn = 0\<rparr>"

definition sp_cap :: "'v map_sp \<Rightarrow> nat" where
  "sp_cap m = length (sp_slot m)"

text \<open>The slot block must have a size its allocator can be asked for.\<close>

definition block_ok :: "bool \<Rightarrow> nat \<Rightarrow> bool" where
  "block_ok h n \<longleftrightarrow> (if h then 32 * int n \<le> INT_MAX else 32 * int n < 2 ^ 64)"

lemma HMALLOC_block: "block_ok h n \<Longrightarrow> HMALLOC h (32 * int n) m = Some (hmalloc h (32 * int n) m)"
proof (cases h)
  case True
  assume "block_ok h n"
  with True have "32 * int n \<le> 2147483647" by (simp add: block_ok_def INT_MAX_def)
  then have "int n \<le> 67108863" by simp
  then have "32 * int n \<le> 2147483644" by simp
  then show ?thesis by simp
qed (simp add: hmalloc_def HMALLOC_malloc)

definition pbcM_sp_new :: "int \<Rightarrow> bool \<Rightarrow> mem \<Rightarrow> (mem \<times> 'v map_sp) option" where
  "pbcM_sp_new mx h m = do {
     cap \<leftarrow> grow_cap 1 mx;
     m \<leftarrow> HMALLOC h 32 m;
     if block_ok h (nat cap) then do {
       m \<leftarrow> HMALLOC h (32 * cap) m;
       Some (m, \<lparr>sp_heap = h, sp_size = 0, sp_slot = replicate (nat cap) free_slot\<rparr>) }
     else None }"

definition pbcM_sp_delete :: "'v map_sp option \<Rightarrow> mem \<Rightarrow> mem" where
  "pbcM_sp_delete mp m =
     (case mp of None \<Rightarrow> m
      | Some mp \<Rightarrow> if sp_heap mp then m
          else m\<lparr>mem_g := pbcM_free (Some mp) (pbcM_free (Some (sp_slot mp)) (mem_g m))\<rparr>)"

definition sp_index :: "'v map_sp \<Rightarrow> u64 \<Rightarrow> nat" where
  "sp_index mp hash_full = unat (hash_full AND of_nat (sp_cap mp - 1))"

text \<open>The loop that looks for a free slot; fuel that runs out stands for one that goes on.\<close>

fun probe :: "nat \<Rightarrow> 'v sp_slot list \<Rightarrow> nat \<Rightarrow> nat option" where
  "probe 0 slots em = None"
| "probe (Suc fuel) slots em = do {
     s \<leftarrow> rd slots em;
     if spk s = None then Some em
     else probe fuel slots ((em + 1) AND (length slots - 1)) }"

text \<open>Take the free slot \<open>em\<close> for a key and link it behind the slot \<open>hash\<close>.\<close>

definition link_in :: "'v sp_slot list \<Rightarrow> nat \<Rightarrow> nat \<Rightarrow> ('v sp_slot \<Rightarrow> 'v sp_slot) \<Rightarrow> 'v sp_slot list" where
  "link_in slots hash em fill =
     (let slots = slots[em := (slots ! em)\<lparr>spn := spn (slots ! hash)\<rparr>];
          slots = slots[hash := (slots ! hash)\<lparr>spn := em + 1\<rparr>]
      in slots[em := fill (slots ! em)])"

definition sp_place :: "'v map_sp \<Rightarrow> cstring \<Rightarrow> u64 \<Rightarrow> 'v option \<Rightarrow> 'v map_sp option" where
  "sp_place mp key hash_full value =
     (let hash = sp_index mp hash_full;
          fill = (\<lambda>s. s\<lparr>spk := Some key, spp := value, sph := hash_full\<rparr>)
      in do {
       slot \<leftarrow> rd (sp_slot mp) hash;
       slots \<leftarrow> (if spk slot = None then Some ((sp_slot mp)[hash := fill slot])
                else do {
                  em \<leftarrow> probe (sp_cap mp) (sp_slot mp) ((hash + 1) AND (sp_cap mp - 1));
                  Some (link_in (sp_slot mp) hash em fill) });
       Some (mp\<lparr>sp_slot := slots, sp_size := sp_size mp + 1\<rparr>) })"

text \<open>
  \<open>_pbcM_sp_insert_hash\<close> and \<open>_pbcM_sp_rehash\<close> call each other; the fuel bounds the depth.
\<close>

fun sp_fill :: "('v map_sp \<Rightarrow> cstring \<Rightarrow> u64 \<Rightarrow> 'v option \<Rightarrow> mem \<Rightarrow> (mem \<times> 'v map_sp) option)
    \<Rightarrow> 'v map_sp \<Rightarrow> 'v sp_slot list \<Rightarrow> mem \<Rightarrow> (mem \<times> 'v map_sp) option" where
  "sp_fill ins mp [] m = Some (m, mp)"
| "sp_fill ins mp (s # ss) m = (case spk s of None \<Rightarrow> None | Some key \<Rightarrow> do {
     (m, mp) \<leftarrow> ins mp key (sph s) (spp s) m;
     sp_fill ins mp ss m })"

definition pbcM_sp_rehash :: "('v map_sp \<Rightarrow> cstring \<Rightarrow> u64 \<Rightarrow> 'v option \<Rightarrow> mem \<Rightarrow> (mem \<times> 'v map_sp) option)
    \<Rightarrow> 'v map_sp \<Rightarrow> mem \<Rightarrow> (mem \<times> 'v map_sp) option" where
  "pbcM_sp_rehash ins mp m =
     (let old_slot = sp_slot mp; cap = sp_cap mp * 2
      in if \<not> block_ok (sp_heap mp) cap then None else do {
        m \<leftarrow> HMALLOC (sp_heap mp) (32 * int cap) m;
        (m, mp') \<leftarrow> sp_fill ins (mp\<lparr>sp_size := 0, sp_slot := replicate cap free_slot\<rparr>)
                      (take (sp_size mp) old_slot) m;
        Some (if sp_heap mp then m else m\<lparr>mem_g := pbcM_free (Some old_slot) (mem_g m)\<rparr>, mp') })"

fun sp_insert_hash :: "nat \<Rightarrow> 'v map_sp \<Rightarrow> cstring \<Rightarrow> u64 \<Rightarrow> 'v option \<Rightarrow> mem \<Rightarrow> (mem \<times> 'v map_sp) option" where
  "sp_insert_hash 0 mp key hash_full value m = None"
| "sp_insert_hash (Suc fuel) mp key hash_full value m =
     (if sp_cap mp > sp_size mp then do { mp \<leftarrow> sp_place mp key hash_full value; Some (m, mp) }
      else do {
        (m, mp) \<leftarrow> pbcM_sp_rehash (sp_insert_hash fuel) mp m;
        sp_insert_hash fuel mp key hash_full value m })"

definition pbcM_sp_insert :: "'v map_sp \<Rightarrow> cstring \<Rightarrow> 'v option \<Rightarrow> mem \<Rightarrow> (mem \<times> 'v map_sp) option" where
  "pbcM_sp_insert mp key value m = sp_insert_hash 2 mp key (calc_hash key) value m"

text \<open>The comparison of a slot with a key: \<open>strcmp\<close> with a NULL key is undefined.\<close>

definition sp_match :: "'v map_sp \<Rightarrow> cstring \<Rightarrow> u64 \<Rightarrow> nat \<Rightarrow> bool option" where
  "sp_match mp key hash_full i = do {
     s \<leftarrow> rd (sp_slot mp) i;
     if sph s = hash_full then (case spk s of None \<Rightarrow> None | Some k \<Rightarrow> Some (k = key)) else Some False }"

definition sp_next_link :: "'v map_sp \<Rightarrow> nat \<Rightarrow> nat option" where
  "sp_next_link mp i = map_option spn (rd (sp_slot mp) i)"

definition sp_search :: "'v map_sp \<Rightarrow> cstring \<Rightarrow> nat option option" where
  "sp_search mp key =
     chase (sp_cap mp) (sp_match mp key (calc_hash key)) (sp_next_link mp) (sp_index mp (calc_hash key))"

definition pbcM_sp_query :: "'v map_sp option \<Rightarrow> cstring \<Rightarrow> 'v option option" where
  "pbcM_sp_query mp key =
     (case mp of None \<Rightarrow> Some None
      | Some mp \<Rightarrow> do {
          r \<leftarrow> sp_search mp key;
          Some (case r of None \<Rightarrow> None | Some i \<Rightarrow> spp (sp_slot mp ! i)) })"

text \<open>
  \<open>_pbcM_sp_query_insert_hash\<close> returns the address of the pointer field of a slot: the number of
  the slot here.
\<close>

fun sp_query_insert_hash :: "nat \<Rightarrow> 'v map_sp \<Rightarrow> cstring \<Rightarrow> u64 \<Rightarrow> mem \<Rightarrow> (mem \<times> 'v map_sp \<times> nat) option" where
  "sp_query_insert_hash 0 mp key hash_full m = None"
| "sp_query_insert_hash (Suc fuel) mp key hash_full m =
     (let hash = sp_index mp hash_full;
          fill = (\<lambda>s. s\<lparr>spk := Some key, sph := hash_full\<rparr>);
          again = do {
            (m, mp) \<leftarrow> pbcM_sp_rehash (sp_insert_hash 2) mp m;
            sp_query_insert_hash fuel mp key hash_full m }
      in do {
       slot \<leftarrow> rd (sp_slot mp) hash;
       if spk slot = None then
         (if sp_cap mp \<le> sp_size mp then again
          else Some (m, mp\<lparr>sp_slot := (sp_slot mp)[hash := fill slot], sp_size := sp_size mp + 1\<rparr>, hash))
       else do {
         r \<leftarrow> chase (sp_cap mp) (sp_match mp key hash_full) (sp_next_link mp) hash;
         case r of
           Some i \<Rightarrow> Some (m, mp, i)
         | None \<Rightarrow>
             if sp_cap mp \<le> sp_size mp then again
             else do {
               em \<leftarrow> probe (sp_cap mp) (sp_slot mp) ((hash + 1) AND (sp_cap mp - 1));
               Some (m, mp\<lparr>sp_slot := link_in (sp_slot mp) hash em fill, sp_size := sp_size mp + 1\<rparr>, em) } } })"

definition pbcM_sp_query_insert :: "'v map_sp \<Rightarrow> cstring \<Rightarrow> mem \<Rightarrow> (mem \<times> 'v map_sp \<times> nat) option" where
  "pbcM_sp_query_insert mp key m = sp_query_insert_hash 2 mp key (calc_hash key) m"

text \<open>What a caller writes through that address.\<close>

definition sp_store :: "'v map_sp \<Rightarrow> nat \<Rightarrow> 'v option \<Rightarrow> 'v map_sp" where
  "sp_store mp i v = mp\<lparr>sp_slot := (sp_slot mp)[i := (sp_slot mp ! i)\<lparr>spp := v\<rparr>]\<rparr>"

subsection \<open>Iteration\<close>

definition pbcM_sp_foreach :: "'v map_sp \<Rightarrow> ('v \<Rightarrow> 's \<Rightarrow> 's) \<Rightarrow> 's \<Rightarrow> 's" where
  "pbcM_sp_foreach mp func st =
     foldl (\<lambda>st s. case spp s of None \<Rightarrow> st | Some p \<Rightarrow> func p st) st (sp_slot mp)"

definition pbcM_sp_foreach_ud :: "'v map_sp \<Rightarrow> ('v \<Rightarrow> 'u \<Rightarrow> 's \<Rightarrow> 's) \<Rightarrow> 'u \<Rightarrow> 's \<Rightarrow> 's" where
  "pbcM_sp_foreach_ud mp func ud st =
     foldl (\<lambda>st s. case spp s of None \<Rightarrow> st | Some p \<Rightarrow> func p ud st) st (sp_slot mp)"

function find_from :: "'v map_sp \<Rightarrow> nat \<Rightarrow> int" where
  "find_from mp i =
     (if i < sp_cap mp then (if spp (sp_slot mp ! i) \<noteq> None then int i else find_from mp (i + 1)) else - 1)"
  by pat_completeness auto
termination by (relation "measure (\<lambda>(mp, i). sp_cap mp - i)") auto

declare find_from.simps [simp del]

definition find_first :: "'v map_sp \<Rightarrow> int" where
  "find_first mp = find_from mp 0"

definition find_next :: "'v map_sp \<Rightarrow> cstring \<Rightarrow> int option" where
  "find_next mp key = do {
     r \<leftarrow> sp_search mp key;
     Some (case r of None \<Rightarrow> - 1 | Some i \<Rightarrow> find_from mp (i + 1)) }"

definition pbcM_sp_next :: "'v map_sp option \<Rightarrow> cstring option \<Rightarrow> ('v option \<times> cstring option) option" where
  "pbcM_sp_next mp key =
     (case mp of None \<Rightarrow> Some (None, None)
      | Some mp \<Rightarrow> do {
          idx \<leftarrow> (case key of None \<Rightarrow> Some (find_first mp) | Some k \<Rightarrow> find_next mp k);
          Some (if idx < 0 then (None, None)
                else (spp (sp_slot mp ! nat idx), spk (sp_slot mp ! nat idx))) })"

subsection \<open>The invariant and the abstract map\<close>

definition nx :: "'v sp_slot list \<Rightarrow> nat \<Rightarrow> nat" where "nx sl i = spn (sl ! i)"
definition occ :: "'v sp_slot list \<Rightarrow> nat \<Rightarrow> bool" where "occ sl i \<longleftrightarrow> spk (sl ! i) \<noteq> None"
definition home :: "'v map_sp \<Rightarrow> nat \<Rightarrow> nat" where "home mp i = sp_index mp (sph (sp_slot mp ! i))"

definition sp_inv :: "'v map_sp \<Rightarrow> bool" where
  "sp_inv mp \<longleftrightarrow> (\<exists>k \<le> 58. sp_cap mp = 2 ^ k)
     \<and> sp_size mp = card {i. i < sp_cap mp \<and> occ (sp_slot mp) i}
     \<and> linked (sp_cap mp) (nx (sp_slot mp)) (occ (sp_slot mp)) (home mp)
     \<and> (\<forall>i < sp_cap mp. \<not> occ (sp_slot mp) i \<longrightarrow> sp_slot mp ! i = free_slot)
     \<and> (\<forall>i < sp_cap mp. \<forall>key. spk (sp_slot mp ! i) = Some key \<longrightarrow>
          sph (sp_slot mp ! i) = calc_hash key
          \<and> (\<forall>j < sp_cap mp. spk (sp_slot mp ! j) = Some key \<longrightarrow> j = i))"

definition sp_abs :: "'v map_sp \<Rightarrow> cstring \<Rightarrow> 'v option option" where
  "sp_abs mp key = map_option spp (find (\<lambda>s. spk s = Some key) (sp_slot mp))"

lemma sp_abs_None: "sp_abs mp key = None \<longleftrightarrow> (\<forall>i < sp_cap mp. spk (sp_slot mp ! i) \<noteq> Some key)"
  by (auto simp: sp_abs_def find_None_iff sp_cap_def in_set_conv_nth)

lemma sp_abs_Some:
  assumes "sp_inv mp"
  shows "sp_abs mp key = Some v \<longleftrightarrow> (\<exists>i < sp_cap mp. spk (sp_slot mp ! i) = Some key \<and> spp (sp_slot mp ! i) = v)"
proof
  assume "sp_abs mp key = Some v"
  then show "\<exists>i < sp_cap mp. spk (sp_slot mp ! i) = Some key \<and> spp (sp_slot mp ! i) = v"
    by (auto simp: sp_abs_def find_Some_iff sp_cap_def)
next
  assume "\<exists>i < sp_cap mp. spk (sp_slot mp ! i) = Some key \<and> spp (sp_slot mp ! i) = v"
  then obtain i where i: "i < sp_cap mp" "spk (sp_slot mp ! i) = Some key" "spp (sp_slot mp ! i) = v" by blast
  then have "sp_abs mp key \<noteq> None" by (auto simp: sp_abs_None)
  then obtain s where s: "find (\<lambda>s. spk s = Some key) (sp_slot mp) = Some s" by (auto simp: sp_abs_def)
  then obtain j where "j < sp_cap mp" "s = sp_slot mp ! j" "spk (sp_slot mp ! j) = Some key"
    by (auto simp: find_Some_iff sp_cap_def)
  moreover from this have "j = i" using assms i unfolding sp_inv_def by blast
  ultimately show "sp_abs mp key = Some v" using i s by (simp add: sp_abs_def)
qed

lemma key_unique:
  "sp_inv mp \<Longrightarrow> i < sp_cap mp \<Longrightarrow> j < sp_cap mp \<Longrightarrow> spk (sp_slot mp ! i) = Some key
    \<Longrightarrow> spk (sp_slot mp ! j) = Some key \<Longrightarrow> i = j"
  unfolding sp_inv_def by blast

lemma sp_index_less:
  assumes "sp_inv mp"
  shows "sp_index mp h < sp_cap mp"
proof -
  obtain k where k: "k \<le> 58" "sp_cap mp = 2 ^ k" using assms by (auto simp: sp_inv_def)
  have "(2 :: nat) ^ k \<le> 2 ^ 58" using k by (intro power_increasing) auto
  then have "sp_cap mp - 1 < 2 ^ 64" unfolding k(2) by simp
  then have "unat (of_nat (sp_cap mp - 1) :: u64) = sp_cap mp - 1"
    by (simp add: unsigned_of_nat take_bit_nat_eq_self)
  moreover have "unat (h AND w) \<le> unat w" for w :: u64
    by (simp add: word_and_le1 flip: word_le_nat_alt)
  ultimately have "sp_index mp h \<le> sp_cap mp - 1" unfolding sp_index_def by metis
  moreover have "0 < sp_cap mp" using k by simp
  ultimately show ?thesis by linarith
qed

lemma upd_view: "e < length sl \<Longrightarrow> f (sl[e := x] ! i) = (if i = e then f x else f (sl ! i))"
  by (simp add: nth_list_update)

subsection \<open>Looking for a free slot\<close>

lemma and_cap: "(i + 1) AND (2 ^ k - 1) = (i + 1) mod (2 ^ k :: nat)"
  by (simp only: take_bit_eq_mod flip: take_bit_eq_mask mask_eq_exp_minus_1)

lemma probe_finds:
  assumes "length sl = 2 ^ k" and "e < 2 ^ k" and "j < 2 ^ k" and "spk (sl ! j) = None"
    and "(if e \<le> j then j - e else j + 2 ^ k - e) < fuel"
  shows "\<exists>i < 2 ^ k. probe fuel sl e = Some i \<and> spk (sl ! i) = None"
  using assms(2,5)
proof (induction fuel arbitrary: e)
  case (Suc fuel)
  show ?case
  proof (cases "spk (sl ! e) = None")
    case True
    then show ?thesis using Suc.prems assms(1) by (simp add: rd_def)
  next
    case False
    with assms(4) have ej: "e \<noteq> j" by auto
    let ?e = "(e + 1) mod 2 ^ k"
    have "(if ?e \<le> j then j - ?e else j + 2 ^ k - ?e) < fuel"
    proof (cases "e + 1 = 2 ^ k")
      case True
      then have "?e = 0" by simp
      with True ej assms(3) Suc.prems show ?thesis by (auto split: if_splits)
    next
      case False
      then have "?e = e + 1" using Suc.prems by simp
      with ej Suc.prems show ?thesis by (auto split: if_splits)
    qed
    moreover have "?e < 2 ^ k" by simp
    ultimately obtain i where "i < 2 ^ k" "probe fuel sl ?e = Some i" "spk (sl ! i) = None"
      using Suc.IH by blast
    then show ?thesis using False Suc.prems assms(1) by (auto simp: rd_def and_cap [simplified])
  qed
qed simp

lemma probe_ok:
  assumes "sp_inv mp" and "sp_size mp < sp_cap mp" and "h < sp_cap mp"
  obtains e where "probe (sp_cap mp) (sp_slot mp) ((h + 1) AND (sp_cap mp - 1)) = Some e"
    and "e < sp_cap mp" and "\<not> occ (sp_slot mp) e"
proof -
  obtain k where k: "sp_cap mp = 2 ^ k" "length (sp_slot mp) = 2 ^ k" using assms by (auto simp: sp_inv_def sp_cap_def)
  have "\<exists>j < 2 ^ k. spk (sp_slot mp ! j) = None"
  proof (rule ccontr)
    assume "\<not> ?thesis"
    then have "{i. i < sp_cap mp \<and> occ (sp_slot mp) i} = {..<2 ^ k}" by (auto simp: occ_def k)
    with assms k show False by (simp add: sp_inv_def)
  qed
  then obtain j where j: "j < 2 ^ k" "spk (sp_slot mp ! j) = None" by blast
  have e: "(h + 1) AND (sp_cap mp - 1) < 2 ^ k" unfolding k and_cap by simp
  have "(if ((h + 1) AND (sp_cap mp - 1)) \<le> j then j - ((h + 1) AND (sp_cap mp - 1))
     else j + 2 ^ k - ((h + 1) AND (sp_cap mp - 1))) < sp_cap mp" using j e k by auto
  from probe_finds [OF k(2) e j this] k show thesis by (auto simp: occ_def intro: that)
qed

subsection \<open>Placing an entry\<close>

lemma spn_upd:
  assumes "e < length sl"
  shows "nx (sl[e := x]) = (nx sl)(e := spn x)" and "occ (sl[e := x]) = (occ sl)(e := spk x \<noteq> None)"
  using assms by (auto simp: nx_def occ_def fun_eq_iff nth_list_update)

lemma link_in_view:
  assumes "e < length sl" "h < length sl" "e \<noteq> h" and "\<And>s. spn (fill s) = spn s"
  shows "nx (link_in sl h e fill) = (nx sl)(e := nx sl h, h := Suc e)"
    and "length (link_in sl h e fill) = length sl"
    and "link_in sl h e fill ! e = fill ((sl ! e)\<lparr>spn := nx sl h\<rparr>)"
    and "\<And>i. i \<noteq> e \<Longrightarrow> spk (link_in sl h e fill ! i) = spk (sl ! i) \<and> sph (link_in sl h e fill ! i) = sph (sl ! i)
       \<and> spp (link_in sl h e fill ! i) = spp (sl ! i)"
    and "\<And>i. i \<noteq> e \<Longrightarrow> i \<noteq> h \<Longrightarrow> link_in sl h e fill ! i = sl ! i"
  using assms by (auto simp: link_in_def Let_def nx_def fun_eq_iff nth_list_update)

text \<open>What any operation that takes the free slot \<open>e\<close> for a new key establishes.\<close>

lemma new_entry:
  assumes inv: "sp_inv mp" and e: "e < sp_cap mp" "\<not> occ (sp_slot mp) e"
    and new: "sp_abs mp key = None"
    and sl: "length sl = sp_cap mp" "spk (sl ! e) = Some key" "sph (sl ! e) = calc_hash key" "spp (sl ! e) = v"
    and other: "\<And>i. i \<noteq> e \<Longrightarrow> spk (sl ! i) = spk (sp_slot mp ! i) \<and> sph (sl ! i) = sph (sp_slot mp ! i)
       \<and> spp (sl ! i) = spp (sp_slot mp ! i)"
    and fr: "\<And>i. i \<noteq> e \<Longrightarrow> \<not> occ (sp_slot mp) i \<Longrightarrow> sl ! i = sp_slot mp ! i"
    and l: "linked (sp_cap mp) (nx sl) ((occ (sp_slot mp))(e := True)) ((home mp)(e := sp_index mp (calc_hash key)))"
    and mp': "mp' = mp\<lparr>sp_slot := sl, sp_size := sp_size mp + 1\<rparr>"
  shows "sp_inv mp' \<and> sp_abs mp' = (sp_abs mp)(key \<mapsto> v)"
proof -
  have cap: "sp_cap mp' = sp_cap mp" using sl by (simp add: mp' sp_cap_def)
  have idx: "sp_index mp' = sp_index mp" by (simp add: sp_index_def cap fun_eq_iff)
  have o: "occ sl = (occ (sp_slot mp))(e := True)" using sl other by (auto simp: occ_def fun_eq_iff)
  have hm: "home mp' = (home mp)(e := sp_index mp (calc_hash key))"
  proof -
    have "sp_slot mp' = sl" by (simp add: mp')
    with sl other show ?thesis by (auto simp: home_def fun_eq_iff idx)
  qed
  have nokey: "spk (sp_slot mp ! i) \<noteq> Some key" if "i < sp_cap mp" for i
    using new that by (simp add: sp_abs_None)
  have "{i. i < sp_cap mp \<and> occ sl i} = insert e {i. i < sp_cap mp \<and> occ (sp_slot mp) i}"
    using e o by auto
  then have card: "card {i. i < sp_cap mp \<and> occ sl i} = sp_size mp + 1" using inv e by (simp add: sp_inv_def)
  have uniq: "sph (sl ! i) = calc_hash k \<and> (\<forall>j < sp_cap mp. spk (sl ! j) = Some k \<longrightarrow> j = i)"
    if "i < sp_cap mp" "spk (sl ! i) = Some k" for i k
  proof (cases "i = e")
    case True
    then show ?thesis using that sl other nokey by (metis option.inject)
  next
    case False
    then have "spk (sp_slot mp ! i) = Some k" using that other by simp
    moreover from this have "k \<noteq> key" using nokey that by auto
    ultimately show ?thesis using that inv other sl False unfolding sp_inv_def by (metis option.inject)
  qed
  have inv': "sp_inv mp'"
    unfolding sp_inv_def cap hm
    using inv sl card l o uniq fr by (auto simp: mp' sp_inv_def)
  have "sp_abs mp' k = ((sp_abs mp)(key \<mapsto> v)) k" for k
  proof (cases "k = key")
    case True
    have "sp_abs mp' k = Some v" unfolding sp_abs_Some [OF inv'] cap using e sl True by (auto simp: mp')
    with True show ?thesis by simp
  next
    case False
    have "sp_abs mp' k = Some w \<longleftrightarrow> sp_abs mp k = Some w" for w
      unfolding sp_abs_Some [OF inv'] sp_abs_Some [OF inv] cap using sl other e False
      by (auto simp: mp' occ_def) (metis option.distinct(1) option.inject)+
    then show ?thesis using False by (cases "sp_abs mp k"; cases "sp_abs mp' k") auto
  qed
  with inv' show ?thesis by blast
qed

lemma place_ok:
  assumes inv: "sp_inv mp" and room: "sp_size mp < sp_cap mp" and new: "sp_abs mp key = None"
  obtains mp' where "sp_place mp key (calc_hash key) v = Some mp'" and "sp_inv mp'"
    and "sp_abs mp' = (sp_abs mp)(key \<mapsto> v)"
    and "sp_cap mp' = sp_cap mp" "sp_size mp' = sp_size mp + 1" "sp_heap mp' = sp_heap mp"
proof -
  let ?h = "sp_index mp (calc_hash key)" and ?sl = "sp_slot mp"
  let ?fill = "\<lambda>s :: 'a sp_slot. s\<lparr>spk := Some key, spp := v, sph := calc_hash key\<rparr>"
  have h: "?h < sp_cap mp" by (rule sp_index_less [OF inv])
  then have hl: "?h < length ?sl" by (simp add: sp_cap_def)
  have l: "linked (sp_cap mp) (nx ?sl) (occ ?sl) (home mp)" using inv by (simp add: sp_inv_def)
  show thesis
  proof (cases "occ ?sl ?h")
    case False
    define sl where "sl = ?sl[?h := ?fill (?sl ! ?h)]"
    define mp' where "mp' = mp\<lparr>sp_slot := sl, sp_size := sp_size mp + 1\<rparr>"
    have n: "nx sl = nx ?sl" using hl by (auto simp: sl_def spn_upd nx_def)
    have "sp_inv mp' \<and> sp_abs mp' = (sp_abs mp)(key \<mapsto> v)"
      by (rule new_entry [OF inv h False new _ _ _ _ _ _ _ mp'_def])
        (use hl linked_place_head [OF l h False] n in \<open>auto simp: sl_def sp_cap_def\<close>)
    moreover have "sp_place mp key (calc_hash key) v = Some mp'"
      using False hl by (simp add: sp_place_def Let_def rd_def occ_def mp'_def sl_def)
    ultimately show thesis by (intro that [of mp']) (auto simp: mp'_def sp_cap_def sl_def)
  next
    case True
    obtain e where e: "probe (sp_cap mp) ?sl ((?h + 1) AND (sp_cap mp - 1)) = Some e"
      "e < sp_cap mp" "\<not> occ ?sl e" by (rule probe_ok [OF inv room h])
    have el: "e < length ?sl" "e \<noteq> ?h" using e True by (auto simp: sp_cap_def)
    define sl where "sl = link_in ?sl ?h e ?fill"
    define mp' where "mp' = mp\<lparr>sp_slot := sl, sp_size := sp_size mp + 1\<rparr>"
    note v = link_in_view [OF el(1) hl el(2), of ?fill, folded sl_def]
    have "sp_inv mp' \<and> sp_abs mp' = (sp_abs mp)(key \<mapsto> v)"
      by (rule new_entry [OF inv e(2,3) new _ _ _ _ _ _ _ mp'_def])
        (use v True linked_place_after [OF l h True e(2,3)] in \<open>auto simp: sp_cap_def\<close>)
    moreover have "sp_place mp key (calc_hash key) v = Some mp'"
      using True hl e by (auto simp: sp_place_def Let_def rd_def occ_def mp'_def sl_def)
    ultimately show thesis using v(2) by (intro that [of mp']) (auto simp: mp'_def sp_cap_def)
  qed
qed

subsection \<open>Searching\<close>

lemma search_ok:
  assumes inv: "sp_inv mp" and ok: "calc_hash key \<noteq> 0 \<or> occ (sp_slot mp) (sp_index mp (calc_hash key))"
  shows "sp_search mp key = Some (find (\<lambda>i. spk (sp_slot mp ! i) = Some key) [0..<sp_cap mp])"
proof -
  let ?h = "sp_index mp (calc_hash key)" and ?sl = "sp_slot mp"
  let ?p = "\<lambda>i. sph (?sl ! i) = calc_hash key \<and> spk (?sl ! i) = Some key"
  have h: "?h < sp_cap mp" by (rule sp_index_less [OF inv])
  have eq: "(occ ?sl i \<and> ?p i) = (spk (?sl ! i) = Some key)" if "i < sp_cap mp" for i
    using inv that by (auto simp: sp_inv_def occ_def)
  show ?thesis
  proof (cases "occ ?sl ?h")
    case True
    have "sp_search mp key = Some (find (\<lambda>i. occ ?sl i \<and> ?p i) [0..<sp_cap mp])"
      unfolding sp_search_def
    proof (rule chase_linked [of "sp_cap mp" "nx ?sl" "occ ?sl" "home mp", OF _ h True])
      show "linked (sp_cap mp) (nx ?sl) (occ ?sl) (home mp)" using inv by (simp add: sp_inv_def)
      show "sp_match mp key (calc_hash key) i = Some (?p i)" if "i < sp_cap mp" "occ ?sl i" for i
        using that by (auto simp: sp_match_def rd_def sp_cap_def occ_def)
      show "i = j" if "i < sp_cap mp" "j < sp_cap mp" "?p i" "?p j" for i j
        using inv that unfolding sp_inv_def by blast
    qed (auto simp: sp_next_link_def rd_def sp_cap_def nx_def home_def)
    also have "find (\<lambda>i. occ ?sl i \<and> ?p i) [0..<sp_cap mp] = find (\<lambda>i. spk (?sl ! i) = Some key) [0..<sp_cap mp]"
      by (rule find_cong [OF refl]) (use eq in auto)
    finally show ?thesis .
  next
    case False
    with inv h have z: "?sl ! ?h = free_slot" by (simp add: sp_inv_def)
    have "spk (?sl ! i) \<noteq> Some key" if "i < sp_cap mp" for i
    proof
      assume "spk (?sl ! i) = Some key"
      then have "occ ?sl i" "home mp i = ?h" using inv that by (auto simp: sp_inv_def occ_def home_def)
      then have "occ ?sl ?h" using inv that unfolding sp_inv_def linked_def by metis
      with False show False ..
    qed
    then have "find (\<lambda>i. spk (?sl ! i) = Some key) [0..<sp_cap mp] = None" by (simp add: find_None_iff)
    moreover obtain f where "sp_cap mp = Suc f" using h by (cases "sp_cap mp") auto
    moreover have "?h < length ?sl" using h by (simp add: sp_cap_def)
    ultimately show ?thesis using ok False z
      by (simp add: sp_search_def sp_match_def sp_next_link_def rd_def free_slot_def)
  qed
qed

lemma find_slot:
  assumes "sp_inv mp"
  shows "sp_abs mp key = map_option (\<lambda>i. spp (sp_slot mp ! i)) (find (\<lambda>i. spk (sp_slot mp ! i) = Some key) [0..<sp_cap mp])"
proof (cases "find (\<lambda>i. spk (sp_slot mp ! i) = Some key) [0..<sp_cap mp]")
  case None
  then have "sp_abs mp key = None" by (auto simp: sp_abs_None find_None_iff)
  with None show ?thesis by simp
next
  case (Some i)
  then have "i < sp_cap mp" "spk (sp_slot mp ! i) = Some key" by (auto simp: find_Some_iff)
  then have "sp_abs mp key = Some (spp (sp_slot mp ! i))" using sp_abs_Some [OF assms] by blast
  with Some show ?thesis by simp
qed

lemma query_ok:
  assumes "sp_inv mp" and "calc_hash key \<noteq> 0 \<or> sp_abs mp key \<noteq> None"
  shows "pbcM_sp_query (Some mp) key = Some (Option.bind (sp_abs mp key) id)"
proof -
  have "calc_hash key \<noteq> 0 \<or> occ (sp_slot mp) (sp_index mp (calc_hash key))"
  proof (cases "sp_abs mp key")
    case (Some v)
    then obtain i where i: "i < sp_cap mp" "spk (sp_slot mp ! i) = Some key" using sp_abs_Some [OF assms(1)] by blast
    then have "occ (sp_slot mp) i" "home mp i = sp_index mp (calc_hash key)"
      using assms(1) by (auto simp: sp_inv_def occ_def home_def)
    then show ?thesis using assms(1) i unfolding sp_inv_def linked_def by metis
  qed (use assms(2) in simp)
  from search_ok [OF assms(1) this] find_slot [OF assms(1), of key] show ?thesis
    by (simp add: pbcM_sp_query_def split: option.splits)
qed

subsection \<open>Doubling the table\<close>

lemma fill_ok:
  assumes "sp_inv mp" and "sp_size mp + length ss \<le> sp_cap mp"
    and "\<forall>s \<in> set ss. \<exists>key. spk s = Some key \<and> sph s = calc_hash key \<and> sp_abs mp key = None"
    and "distinct (map spk ss)"
  obtains mp' where "sp_fill (sp_insert_hash (Suc f)) mp ss m = Some (m, mp')" and "sp_inv mp'"
    and "sp_abs mp' = (\<lambda>key. case find (\<lambda>s. spk s = Some key) ss of Some s \<Rightarrow> Some (spp s) | None \<Rightarrow> sp_abs mp key)"
    and "sp_cap mp' = sp_cap mp" "sp_size mp' = sp_size mp + length ss" "sp_heap mp' = sp_heap mp"
  using assms
proof (induction ss arbitrary: mp thesis)
  case Nil
  then show ?case by (intro Nil.prems(1)) auto
next
  case (Cons s ss)
  obtain key where k: "spk s = Some key" "sph s = calc_hash key" "sp_abs mp key = None" using Cons.prems by auto
  have room: "sp_size mp < sp_cap mp" using Cons.prems by simp
  obtain mp1 where p: "sp_place mp key (calc_hash key) (spp s) = Some mp1" "sp_inv mp1"
    "sp_abs mp1 = (sp_abs mp)(key \<mapsto> spp s)" "sp_cap mp1 = sp_cap mp" "sp_size mp1 = sp_size mp + 1" "sp_heap mp1 = sp_heap mp"
    by (rule place_ok [OF Cons.prems(2) room k(3)])
  have ne: "spk t \<noteq> Some key" if "t \<in> set ss" for t using Cons.prems(5) that k(1) by (metis distinct.simps(2) imageI list.simps(9) set_map)
  have a: "\<forall>t \<in> set ss. \<exists>k. spk t = Some k \<and> sph t = calc_hash k \<and> sp_abs mp1 k = None"
    using Cons.prems(4) ne by (auto simp: p(3)) metis
  have b: "sp_size mp1 + length ss \<le> sp_cap mp1" "distinct (map spk ss)" using Cons.prems(3,5) p by auto
  obtain mp' where q: "sp_fill (sp_insert_hash (Suc f)) mp1 ss m = Some (m, mp')" "sp_inv mp'"
    "sp_abs mp' = (\<lambda>key. case find (\<lambda>s. spk s = Some key) ss of Some s \<Rightarrow> Some (spp s) | None \<Rightarrow> sp_abs mp1 key)"
    "sp_cap mp' = sp_cap mp1" "sp_size mp' = sp_size mp1 + length ss" "sp_heap mp' = sp_heap mp1"
    by (rule Cons.IH [OF _ p(2) b(1) a b(2)])
  have nf: "find (\<lambda>s. spk s = Some key) ss = None" using ne by (auto simp: find_None_iff)
  have i: "sp_insert_hash (Suc f) mp key (sph s) (spp s) m = Some (m, mp1)"
    using room by (simp only: sp_insert_hash.simps k(2) p(1) if_True bind.bind_lunit)
  show ?case
  proof (rule Cons.prems(1))
    show "sp_fill (sp_insert_hash (Suc f)) mp (s # ss) m = Some (m, mp')"
      by (simp only: sp_fill.simps k(1) i q(1) option.case bind.bind_lunit prod.case)
    show "sp_abs mp' = (\<lambda>key. case find (\<lambda>s. spk s = Some key) (s # ss) of Some s \<Rightarrow> Some (spp s) | None \<Rightarrow> sp_abs mp key)"
      unfolding q(3) p(3) using k(1) nf by (auto simp: fun_eq_iff split: option.split)
  qed (use p(4-6) q(2,4-6) in simp_all)
qed

lemma empty_inv:
  assumes "k \<le> 58"
  shows "sp_inv \<lparr>sp_heap = h, sp_size = 0, sp_slot = replicate (2 ^ k) free_slot\<rparr>"
    and "sp_abs \<lparr>sp_heap = h, sp_size = 0, sp_slot = replicate (2 ^ k) free_slot\<rparr> = Map.empty"
proof -
  have "linked (2 ^ k) (nx (replicate (2 ^ k) free_slot)) (occ (replicate (2 ^ k) free_slot)) hm" for hm
    by (auto simp: linked_def nx_def occ_def free_slot_def)
  then show "sp_inv \<lparr>sp_heap = h, sp_size = 0, sp_slot = replicate (2 ^ k) free_slot\<rparr>"
    using assms by (auto simp: sp_inv_def sp_cap_def occ_def free_slot_def)
  show "sp_abs \<lparr>sp_heap = h, sp_size = 0, sp_slot = replicate (2 ^ k) free_slot\<rparr> = Map.empty"
    by (auto simp: sp_abs_def free_slot_def find_None_iff fun_eq_iff)
qed

lemma full_occ:
  assumes "sp_inv mp" and "sp_cap mp \<le> sp_size mp" and "i < sp_cap mp"
  shows "occ (sp_slot mp) i"
proof -
  have "{i. i < sp_cap mp \<and> occ (sp_slot mp) i} = {..<sp_cap mp}"
    by (rule card_subset_eq) (use assms in \<open>auto simp: sp_inv_def intro: antisym card_mono [of "{..<sp_cap mp}", simplified]\<close>)
  with assms(3) show ?thesis by auto
qed

lemma rehash_ok:
  assumes inv: "sp_inv mp" and full: "sp_cap mp \<le> sp_size mp" and bl: "block_ok (sp_heap mp) (sp_cap mp * 2)"
  obtains m' mp' where "pbcM_sp_rehash (sp_insert_hash (Suc f)) mp m = Some (m', mp')" and "sp_inv mp'"
    and "sp_abs mp' = sp_abs mp" and "sp_cap mp' = sp_cap mp * 2" "sp_size mp' = sp_size mp" "sp_heap mp' = sp_heap mp"
    and "sp_size mp' < sp_cap mp'"
proof -
  obtain k where k: "sp_cap mp = 2 ^ k" using inv by (auto simp: sp_inv_def)
  have "32 * int (2 ^ Suc k) < 2 ^ 64" using bl by (auto simp: block_ok_def k INT_MAX_def split: if_splits)
  then have "int (2 ^ Suc k) < int (2 ^ 59)" by simp
  then have "(2 :: nat) ^ Suc k < 2 ^ 59" by (simp only: of_nat_less_iff)
  then have k58: "Suc k \<le> 58" by (subst (asm) power_strict_increasing_iff) auto
  have card: "card {i. i < sp_cap mp \<and> occ (sp_slot mp) i} \<le> card {..<sp_cap mp}" by (rule card_mono) auto
  with inv full have sz: "sp_size mp = sp_cap mp" by (simp add: sp_inv_def)
  let ?mp0 = "mp\<lparr>sp_size := 0, sp_slot := replicate (sp_cap mp * 2) free_slot\<rparr>"
  have mp0: "?mp0 = \<lparr>sp_heap = sp_heap mp, sp_size = 0, sp_slot = replicate (2 ^ Suc k) free_slot\<rparr>"
    by (simp add: k mult.commute)
  have take: "take (sp_size mp) (sp_slot mp) = sp_slot mp" by (simp add: sz sp_cap_def)
  have occ: "occ (sp_slot mp) i" if "i < sp_cap mp" for i using full_occ [OF inv full that] .
  have slots: "\<forall>s \<in> set (sp_slot mp). \<exists>key. spk s = Some key \<and> sph s = calc_hash key \<and> sp_abs ?mp0 key = None"
  proof
    fix s assume "s \<in> set (sp_slot mp)"
    then obtain i where i: "i < sp_cap mp" "s = sp_slot mp ! i" by (auto simp: in_set_conv_nth sp_cap_def)
    then obtain key where "spk s = Some key" using occ by (auto simp: occ_def)
    with i inv show "\<exists>key. spk s = Some key \<and> sph s = calc_hash key \<and> sp_abs ?mp0 key = None"
      unfolding mp0 empty_inv [OF k58] by (auto simp: sp_inv_def)
  qed
  have dist: "distinct (map spk (sp_slot mp))"
  proof (unfold distinct_conv_nth, intro allI impI)
    fix i j assume ij: "i < length (map spk (sp_slot mp))" "j < length (map spk (sp_slot mp))" "i \<noteq> j"
    then obtain key where "spk (sp_slot mp ! i) = Some key" using occ by (auto simp: occ_def sp_cap_def)
    with key_unique [OF inv, of i j key] ij show "map spk (sp_slot mp) ! i \<noteq> map spk (sp_slot mp) ! j"
      by (auto simp: sp_cap_def)
  qed
  obtain mp' where f: "sp_fill (sp_insert_hash (Suc f)) ?mp0 (sp_slot mp) (hmalloc (sp_heap mp) (32 * int (sp_cap mp * 2)) m)
      = Some (hmalloc (sp_heap mp) (32 * int (sp_cap mp * 2)) m, mp')" "sp_inv mp'"
    "sp_abs mp' = (\<lambda>key. case find (\<lambda>s. spk s = Some key) (sp_slot mp) of Some s \<Rightarrow> Some (spp s) | None \<Rightarrow> sp_abs ?mp0 key)"
    "sp_cap mp' = sp_cap ?mp0" "sp_size mp' = sp_size ?mp0 + length (sp_slot mp)" "sp_heap mp' = sp_heap ?mp0"
  proof (rule fill_ok [OF _ _ slots dist])
    show "sp_inv ?mp0" unfolding mp0 by (rule empty_inv [OF k58])
    show "sp_size ?mp0 + length (sp_slot mp) \<le> sp_cap ?mp0" by (simp add: sp_cap_def)
  qed
  have "sp_abs mp' = sp_abs mp"
    unfolding f(3) mp0 empty_inv(2) [OF k58] by (auto simp: sp_abs_def fun_eq_iff split: option.split)
  then show thesis using f bl sz k HMALLOC_block [OF bl, of m]
    by (intro that [of _ mp']) (auto simp: pbcM_sp_rehash_def Let_def take sp_cap_def)
qed

subsection \<open>Insertion\<close>

text \<open>The table can double as long as this holds of the number of entries.\<close>

definition sp_small :: "'v map_sp \<Rightarrow> bool" where
  "sp_small mp \<longleftrightarrow> block_ok (sp_heap mp) (2 * sp_size mp)"

lemma sp_size_le: "sp_inv mp \<Longrightarrow> sp_size mp \<le> sp_cap mp"
  using card_mono [of "{..<sp_cap mp}" "{i. i < sp_cap mp \<and> occ (sp_slot mp) i}"] by (force simp: sp_inv_def)

lemma rehash_small:
  assumes "sp_inv mp" and "sp_cap mp \<le> sp_size mp" and "sp_small mp"
  obtains m' mp' where "pbcM_sp_rehash (sp_insert_hash (Suc f)) mp m = Some (m', mp')" and "sp_inv mp'"
    and "sp_abs mp' = sp_abs mp" and "sp_size mp' = sp_size mp" "sp_heap mp' = sp_heap mp" "sp_size mp' < sp_cap mp'"
proof -
  have "sp_cap mp * 2 = 2 * sp_size mp" using assms(1,2) sp_size_le [of mp] by simp
  then have "block_ok (sp_heap mp) (sp_cap mp * 2)" using assms(3) by (simp only: sp_small_def)
  from rehash_ok [OF assms(1,2) this] that show thesis by metis
qed

lemma insert_ok:
  assumes inv: "sp_inv mp" and new: "sp_abs mp key = None" and sm: "sp_small mp"
  obtains m' mp' where "pbcM_sp_insert mp key v m = Some (m', mp')" and "sp_inv mp'"
    and "sp_abs mp' = (sp_abs mp)(key \<mapsto> v)" and "sp_size mp' = sp_size mp + 1" "sp_heap mp' = sp_heap mp"
proof (cases "sp_size mp < sp_cap mp")
  case True
  obtain mp' where p: "sp_place mp key (calc_hash key) v = Some mp'" "sp_inv mp'" "sp_abs mp' = (sp_abs mp)(key \<mapsto> v)"
    "sp_size mp' = sp_size mp + 1" "sp_heap mp' = sp_heap mp" by (rule place_ok [OF inv True new])
  have "pbcM_sp_insert mp key v m = Some (m, mp')"
    using True by (simp add: pbcM_sp_insert_def numeral_2_eq_2 p(1))
  then show thesis using p(2-5) by (rule that)
next
  case False
  then have full: "sp_cap mp \<le> sp_size mp" by simp
  obtain m1 mp1 where r: "pbcM_sp_rehash (sp_insert_hash (Suc 0)) mp m = Some (m1, mp1)" "sp_inv mp1"
    "sp_abs mp1 = sp_abs mp" "sp_size mp1 = sp_size mp" "sp_heap mp1 = sp_heap mp" "sp_size mp1 < sp_cap mp1"
    by (rule rehash_small [OF inv full sm])
  have new1: "sp_abs mp1 key = None" using new r by simp
  obtain mp' where p: "sp_place mp1 key (calc_hash key) v = Some mp'" "sp_inv mp'" "sp_abs mp' = (sp_abs mp1)(key \<mapsto> v)"
    "sp_size mp' = sp_size mp1 + 1" "sp_heap mp' = sp_heap mp1" by (rule place_ok [OF r(2,6) new1])
  have "pbcM_sp_insert mp key v m = Some (m1, mp')"
    using False r(1,6) by (simp add: pbcM_sp_insert_def numeral_2_eq_2 p(1) del: sp_insert_hash.simps
        add: sp_insert_hash.simps(2))
  then show thesis using p(2-5) unfolding r(3-5) by (rule that)
qed

lemma store_ok:
  assumes inv: "sp_inv mp" and i: "i < sp_cap mp" "spk (sp_slot mp ! i) = Some key"
  shows "sp_inv (sp_store mp i v)" and "sp_abs (sp_store mp i v) = (sp_abs mp)(key \<mapsto> v)"
    and "sp_size (sp_store mp i v) = sp_size mp" "sp_heap (sp_store mp i v) = sp_heap mp"
proof -
  let ?mp = "sp_store mp i v"
  have sl: "spk (sp_slot ?mp ! j) = spk (sp_slot mp ! j)" "sph (sp_slot ?mp ! j) = sph (sp_slot mp ! j)"
    "spn (sp_slot ?mp ! j) = spn (sp_slot mp ! j)"
    "spp (sp_slot ?mp ! j) = (if j = i then v else spp (sp_slot mp ! j))"
    "j \<noteq> i \<Longrightarrow> sp_slot ?mp ! j = sp_slot mp ! j" for j
    using i by (auto simp: sp_store_def nth_list_update sp_cap_def)
  have cap: "sp_cap ?mp = sp_cap mp" by (simp add: sp_store_def sp_cap_def)
  have eqs: "nx (sp_slot ?mp) = nx (sp_slot mp)" "occ (sp_slot ?mp) = occ (sp_slot mp)" "home ?mp = home mp"
    by (auto simp: fun_eq_iff nx_def occ_def home_def sl sp_index_def cap)
  show sz: "sp_size ?mp = sp_size mp" "sp_heap ?mp = sp_heap mp" by (simp_all add: sp_store_def)
  have fr: "sp_slot ?mp ! j = free_slot" if "j < sp_cap mp" "\<not> occ (sp_slot mp) j" for j
    using inv i that sl(5) by (cases "j = i") (auto simp: sp_inv_def occ_def)
  show inv': "sp_inv ?mp" unfolding sp_inv_def cap eqs sz(1) sl(1,2) using inv fr by (simp add: sp_inv_def)
  have "sp_abs ?mp k = Some w \<longleftrightarrow> ((sp_abs mp)(key \<mapsto> v)) k = Some w" for k w
    using i key_unique [OF inv] unfolding sp_abs_Some [OF inv'] cap sl
    by (cases "k = key") (auto simp: sp_abs_Some [OF inv], (metis option.inject)+)
  then show "sp_abs ?mp = (sp_abs mp)(key \<mapsto> v)"
    by (intro ext) (metis not_None_eq)
qed

text \<open>The address that \<open>_pbcM_sp_query_insert\<close> returns belongs to the key, old or new.\<close>

lemma query_insert_room:
  assumes inv: "sp_inv mp" and room: "sp_abs mp key = None \<longrightarrow> sp_size mp < sp_cap mp"
  shows "\<exists>mp' i. sp_query_insert_hash (Suc f) mp key (calc_hash key) m = Some (m, mp', i) \<and> sp_inv mp'
    \<and> i < sp_cap mp' \<and> spk (sp_slot mp' ! i) = Some key
    \<and> sp_abs mp' = (if sp_abs mp key = None then (sp_abs mp)(key \<mapsto> None) else sp_abs mp)
    \<and> sp_size mp' = (if sp_abs mp key = None then sp_size mp + 1 else sp_size mp) \<and> sp_heap mp' = sp_heap mp"
proof -
  let ?h = "sp_index mp (calc_hash key)" and ?sl = "sp_slot mp"
  let ?fill = "\<lambda>s :: 'a sp_slot. s\<lparr>spk := Some key, sph := calc_hash key\<rparr>"
  have h: "?h < sp_cap mp" by (rule sp_index_less [OF inv])
  then have hl: "?h < length ?sl" by (simp add: sp_cap_def)
  have l: "linked (sp_cap mp) (nx ?sl) (occ ?sl) (home mp)" using inv by (simp add: sp_inv_def)
  show ?thesis
  proof (cases "occ ?sl ?h")
    case False
    have z: "?sl ! ?h = free_slot" using inv h False by (simp add: sp_inv_def)
    have new: "sp_abs mp key = None"
    proof (rule ccontr)
      assume "sp_abs mp key \<noteq> None"
      then obtain i where i: "i < sp_cap mp" "spk (?sl ! i) = Some key" by (auto simp: sp_abs_None)
      then have "occ ?sl i" "home mp i = ?h" using inv by (auto simp: sp_inv_def occ_def home_def)
      with l i False show False unfolding linked_def by metis
    qed
    define sl where "sl = ?sl[?h := ?fill (?sl ! ?h)]"
    define mp' where "mp' = mp\<lparr>sp_slot := sl, sp_size := sp_size mp + 1\<rparr>"
    have n: "nx sl = nx ?sl" using hl by (auto simp: sl_def spn_upd nx_def)
    have "sp_inv mp' \<and> sp_abs mp' = (sp_abs mp)(key \<mapsto> None)"
      by (rule new_entry [OF inv h False new _ _ _ _ _ _ _ mp'_def])
        (use hl linked_place_head [OF l h False] n z in \<open>auto simp: sl_def sp_cap_def free_slot_def\<close>)
    moreover have "sp_query_insert_hash (Suc f) mp key (calc_hash key) m = Some (m, mp', ?h)"
      using False hl room new by (simp add: Let_def rd_def occ_def mp'_def sl_def)
    ultimately show ?thesis using new hl h
      by (intro exI [of _ mp'] exI [of _ ?h]) (simp add: mp'_def sp_cap_def sl_def)
  next
    case True
    have "chase (sp_cap mp) (sp_match mp key (calc_hash key)) (sp_next_link mp) ?h
        = Some (find (\<lambda>i. spk (?sl ! i) = Some key) [0..<sp_cap mp])" (is "_ = Some ?r")
      using search_ok [OF inv, of key] True by (simp add: sp_search_def)
    note ch = this
    have abs: "sp_abs mp key = map_option (\<lambda>i. spp (?sl ! i)) ?r" by (rule find_slot [OF inv])
    show ?thesis
    proof (cases ?r)
      case (Some i)
      then have "i < sp_cap mp" "spk (?sl ! i) = Some key" by (auto simp: find_Some_iff)
      then show ?thesis using True hl ch Some abs inv
        by (intro exI [of _ mp] exI [of _ i]) (auto simp: Let_def rd_def occ_def)
    next
      case None
      then have new: "sp_abs mp key = None" using abs by simp
      then have room: "sp_size mp < sp_cap mp" using room by simp
      obtain e where e: "probe (sp_cap mp) ?sl ((?h + 1) AND (sp_cap mp - 1)) = Some e"
        "e < sp_cap mp" "\<not> occ ?sl e" by (rule probe_ok [OF inv room h])
      have el: "e < length ?sl" "e \<noteq> ?h" using e True by (auto simp: sp_cap_def)
      have z: "?sl ! e = free_slot" using inv e by (simp add: sp_inv_def)
      define sl where "sl = link_in ?sl ?h e ?fill"
      define mp' where "mp' = mp\<lparr>sp_slot := sl, sp_size := sp_size mp + 1\<rparr>"
      note v = link_in_view [OF el(1) hl el(2), of ?fill, folded sl_def]
      have "sp_inv mp' \<and> sp_abs mp' = (sp_abs mp)(key \<mapsto> None)"
        by (rule new_entry [OF inv e(2,3) new _ _ _ _ _ _ _ mp'_def])
          (use v z True linked_place_after [OF l h True e(2,3)] in \<open>auto simp: sp_cap_def free_slot_def\<close>)
      moreover have "sp_query_insert_hash (Suc f) mp key (calc_hash key) m = Some (m, mp', e)"
        using True hl e ch None room by (auto simp: Let_def rd_def occ_def mp'_def sl_def)
      ultimately show ?thesis using new v e
        by (intro exI [of _ mp'] exI [of _ e]) (simp add: mp'_def sp_cap_def)
    qed
  qed
qed

lemma query_insert_ok:
  assumes inv: "sp_inv mp" and sm: "sp_small mp"
  obtains m' mp' i where "pbcM_sp_query_insert mp key m = Some (m', mp', i)" and "sp_inv mp'"
    and "i < sp_cap mp'" and "spk (sp_slot mp' ! i) = Some key"
    and "sp_abs mp' = (if sp_abs mp key = None then (sp_abs mp)(key \<mapsto> None) else sp_abs mp)"
    and "sp_size mp' = (if sp_abs mp key = None then sp_size mp + 1 else sp_size mp)" "sp_heap mp' = sp_heap mp"
proof (cases "sp_abs mp key = None \<longrightarrow> sp_size mp < sp_cap mp")
  case True
  with query_insert_room [OF inv True, of "Suc 0" m] that show thesis
    unfolding pbcM_sp_query_insert_def numeral_2_eq_2 by blast
next
  case False
  then have full: "sp_cap mp \<le> sp_size mp" and new: "sp_abs mp key = None" by auto
  obtain m1 mp1 where r: "pbcM_sp_rehash (sp_insert_hash 2) mp m = Some (m1, mp1)" "sp_inv mp1"
    "sp_abs mp1 = sp_abs mp" "sp_size mp1 = sp_size mp" "sp_heap mp1 = sp_heap mp" "sp_size mp1 < sp_cap mp1"
    unfolding numeral_2_eq_2 by (rule rehash_small [OF inv full sm])
  have h: "sp_index mp (calc_hash key) < length (sp_slot mp)" using sp_index_less [OF inv] by (simp add: sp_cap_def)
  have o: "spk (sp_slot mp ! sp_index mp (calc_hash key)) \<noteq> None"
    using full_occ [OF inv full sp_index_less [OF inv]] by (simp add: occ_def)
  have "sp_search mp key = Some (find (\<lambda>i. spk (sp_slot mp ! i) = Some key) [0..<sp_cap mp])"
    by (rule search_ok [OF inv]) (use o in \<open>simp add: occ_def\<close>)
  moreover have "find (\<lambda>i. spk (sp_slot mp ! i) = Some key) [0..<sp_cap mp] = None"
    using new find_slot [OF inv, of key] by simp
  ultimately have ch: "chase (sp_cap mp) (sp_match mp key (calc_hash key)) (sp_next_link mp) (sp_index mp (calc_hash key)) = Some None"
    by (simp add: sp_search_def)
  have "pbcM_sp_query_insert mp key m = sp_query_insert_hash (Suc 0) mp1 key (calc_hash key) m1"
    using h o ch full r(1)
    by (auto simp: pbcM_sp_query_insert_def numeral_2_eq_2 Let_def rd_def simp del: sp_query_insert_hash.simps
        simp: sp_query_insert_hash.simps(2) [of "Suc 0"])
  moreover have "sp_abs mp1 key = None \<longrightarrow> sp_size mp1 < sp_cap mp1" using r(6) by simp
  from query_insert_room [OF r(2) this, of 0 m1] obtain mp' i where
    "sp_query_insert_hash (Suc 0) mp1 key (calc_hash key) m1 = Some (m1, mp', i)" "sp_inv mp'"
    "i < sp_cap mp'" "spk (sp_slot mp' ! i) = Some key"
    "sp_abs mp' = (if sp_abs mp1 key = None then (sp_abs mp1)(key \<mapsto> None) else sp_abs mp1)"
    "sp_size mp' = (if sp_abs mp1 key = None then sp_size mp1 + 1 else sp_size mp1)" "sp_heap mp' = sp_heap mp1" by blast
  ultimately show thesis using that r by auto
qed

subsection \<open>The contract of a map from strings\<close>

text \<open>
  What the descriptor code relies on: an entry can be added, or set through the address of its
  pointer field, and a query returns what was stored last. \<open>good\<close> is what a query needs of a key
  that may be absent.\<close>

fun insert_all :: "('m \<Rightarrow> cstring \<Rightarrow> 'v option \<Rightarrow> 's \<Rightarrow> ('s \<times> 'm) option) \<Rightarrow> 'm \<Rightarrow> (cstring \<times> 'v option) list \<Rightarrow> 's
    \<Rightarrow> ('s \<times> 'm) option" where
  "insert_all ins mp [] m = Some (m, mp)"
| "insert_all ins mp ((k, v) # kvs) m = do { (m, mp) \<leftarrow> ins mp k v m; insert_all ins mp kvs m }"

locale string_map =
  fixes ins :: "'m \<Rightarrow> cstring \<Rightarrow> 'v option \<Rightarrow> 's \<Rightarrow> ('s \<times> 'm) option"
    and put :: "'m \<Rightarrow> cstring \<Rightarrow> 'v option \<Rightarrow> 's \<Rightarrow> ('s \<times> 'm) option"
    and query :: "'m \<Rightarrow> cstring \<Rightarrow> 'v option option"
    and abs :: "'m \<Rightarrow> cstring \<Rightarrow> 'v option option"
    and inv :: "'m \<Rightarrow> bool"
    and count :: "'m \<Rightarrow> nat"
    and good :: "cstring \<Rightarrow> bool"
    and ok :: "nat \<Rightarrow> bool"
  assumes ins: "inv mp \<Longrightarrow> abs mp k = None \<Longrightarrow> ok (count mp) \<Longrightarrow>
      \<exists>m' mp'. ins mp k v m = Some (m', mp') \<and> inv mp' \<and> abs mp' = (abs mp)(k \<mapsto> v) \<and> count mp' = count mp + 1"
    and put: "inv mp \<Longrightarrow> ok (count mp) \<Longrightarrow>
      \<exists>m' mp'. put mp k v m = Some (m', mp') \<and> inv mp' \<and> abs mp' = (abs mp)(k \<mapsto> v) \<and> count mp' \<le> count mp + 1"
    and query: "inv mp \<Longrightarrow> good k \<or> abs mp k \<noteq> None \<Longrightarrow> query mp k = Some (Option.bind (abs mp k) id)"
    and ok: "i \<le> j \<Longrightarrow> ok j \<Longrightarrow> ok i"
begin

lemma insert_all_ok:
  assumes "inv mp" and "distinct (map fst kvs)" and "\<forall>k \<in> set (map fst kvs). abs mp k = None"
    and "ok (count mp + length kvs)"
  shows "\<exists>m' mp'. insert_all ins mp kvs m = Some (m', mp') \<and> inv mp' \<and> abs mp' = abs mp ++ map_of kvs
     \<and> count mp' = count mp + length kvs"
  using assms
proof (induction kvs arbitrary: mp m)
  case (Cons kv kvs)
  obtain k v where kv: "kv = (k, v)" by (cases kv)
  have "abs mp k = None" using Cons.prems kv by simp
  moreover have "ok (count mp)" by (rule ok [OF _ Cons.prems(4)]) simp
  ultimately obtain m1 mp1 where i: "ins mp k v m = Some (m1, mp1)" "inv mp1" "abs mp1 = (abs mp)(k \<mapsto> v)" "count mp1 = count mp + 1"
    using ins [OF Cons.prems(1), of k v m] by blast
  have "distinct (map fst kvs)" "\<forall>k \<in> set (map fst kvs). abs mp1 k = None" "ok (count mp1 + length kvs)"
    using Cons.prems i kv by auto
  from Cons.IH [OF i(2) this, of m1] obtain m' mp' where q: "insert_all ins mp1 kvs m1 = Some (m', mp')" "inv mp'"
    "abs mp' = abs mp1 ++ map_of kvs" "count mp' = count mp1 + length kvs" by blast
  have "abs mp' = abs mp ++ map_of (kv # kvs)"
    unfolding q(3) i(3) kv using Cons.prems(2) kv by (simp add: map_add_upd_left dom_map_of_conv_image_fst)
  moreover have "insert_all ins mp (kv # kvs) m = Some (m', mp')" by (simp add: kv i(1) q(1))
  moreover have "count mp' = count mp + length (kv # kvs)" using q(4) i(4) by simp
  ultimately show ?case using q(2) by blast
qed simp

lemma put_all_ok:
  assumes "inv mp" and "ok (count mp + length kvs)"
  shows "\<exists>m' mp'. insert_all put mp kvs m = Some (m', mp') \<and> inv mp' \<and> abs mp' = abs mp ++ map_of (rev kvs)
     \<and> count mp' \<le> count mp + length kvs"
  using assms
proof (induction kvs arbitrary: mp m)
  case (Cons kv kvs)
  obtain k v where kv: "kv = (k, v)" by (cases kv)
  have "ok (count mp)" by (rule ok [OF _ Cons.prems(2)]) simp
  then obtain m1 mp1 where i: "put mp k v m = Some (m1, mp1)" "inv mp1" "abs mp1 = (abs mp)(k \<mapsto> v)" "count mp1 \<le> count mp + 1"
    using put [OF Cons.prems(1), of k v m] by blast
  have "ok (count mp1 + length kvs)" by (rule ok [OF _ Cons.prems(2)]) (use i in simp)
  from Cons.IH [OF i(2) this, of m1] obtain m' mp' where q: "insert_all put mp1 kvs m1 = Some (m', mp')" "inv mp'"
    "abs mp' = abs mp1 ++ map_of (rev kvs)" "count mp' \<le> count mp1 + length kvs" by blast
  have "abs mp' = abs mp ++ map_of (rev (kv # kvs))" unfolding q(3) i(3) kv by (simp add: map_of_append)
  with q i kv show ?case by auto
qed simp

end

definition sp_put :: "'v map_sp \<Rightarrow> cstring \<Rightarrow> 'v option \<Rightarrow> mem \<Rightarrow> (mem \<times> 'v map_sp) option" where
  "sp_put mp key v m = do { (m, mp, i) \<leftarrow> pbcM_sp_query_insert mp key m; Some (m, sp_store mp i v) }"

text \<open>A million entries are no problem for any allocator.\<close>

definition SP_LIMIT :: nat where "SP_LIMIT = 2 ^ 20"

lemma sp_small_limit: "sp_size mp \<le> SP_LIMIT \<Longrightarrow> sp_small mp"
  by (auto simp: sp_small_def block_ok_def INT_MAX_def SP_LIMIT_def)

interpretation sp: string_map pbcM_sp_insert sp_put "\<lambda>mp. pbcM_sp_query (Some mp)" sp_abs sp_inv sp_size
  "\<lambda>key. calc_hash key \<noteq> 0" "\<lambda>n. n \<le> SP_LIMIT"
proof unfold_locales
  fix mp :: "'v map_sp" and k v m
  assume inv: "sp_inv mp" and "sp_size mp \<le> SP_LIMIT"
  then have sm: "sp_small mp" by (intro sp_small_limit)
  show "\<exists>m' mp'. pbcM_sp_insert mp k v m = Some (m', mp') \<and> sp_inv mp' \<and> sp_abs mp' = (sp_abs mp)(k \<mapsto> v)
      \<and> sp_size mp' = sp_size mp + 1" if "sp_abs mp k = None"
    by (rule insert_ok [OF inv that sm, of v m]) blast
  obtain m' mp' i where q: "pbcM_sp_query_insert mp k m = Some (m', mp', i)" "sp_inv mp'"
    "i < sp_cap mp'" "spk (sp_slot mp' ! i) = Some k"
    "sp_abs mp' = (if sp_abs mp k = None then (sp_abs mp)(k \<mapsto> None) else sp_abs mp)"
    "sp_size mp' = (if sp_abs mp k = None then sp_size mp + 1 else sp_size mp)"
    by (rule query_insert_ok [OF inv sm])
  from store_ok [OF q(2-4), of v] q
  show "\<exists>m' mp'. sp_put mp k v m = Some (m', mp') \<and> sp_inv mp' \<and> sp_abs mp' = (sp_abs mp)(k \<mapsto> v)
      \<and> sp_size mp' \<le> sp_size mp + 1"
    by (intro exI [of _ m'] exI [of _ "sp_store mp' i v"]) (auto simp: sp_put_def)
qed (auto simp: query_ok)

subsection \<open>Iterating\<close>

definition sp_entries :: "'v sp_slot list \<Rightarrow> (cstring \<times> 'v) list" where
  "sp_entries sl = List.map_filter (\<lambda>s. case (spk s, spp s) of (Some k, Some v) \<Rightarrow> Some (k, v) | _ \<Rightarrow> None) sl"

text \<open>A client's loop over \<open>_pbcM_sp_next\<close>; it stops at the first NULL.\<close>

fun sp_walk :: "nat \<Rightarrow> 'v map_sp \<Rightarrow> cstring option \<Rightarrow> (cstring \<times> 'v) list option" where
  "sp_walk 0 mp key = None"
| "sp_walk (Suc fuel) mp key = do {
     (p, k) \<leftarrow> pbcM_sp_next (Some mp) key;
     case p of None \<Rightarrow> Some [] | Some v \<Rightarrow> do { rest \<leftarrow> sp_walk fuel mp k; Some ((the k, v) # rest) } }"

lemma find_from_entries:
  assumes "sp_inv mp"
  shows "case sp_entries (drop i (sp_slot mp)) of
       [] \<Rightarrow> find_from mp i = - 1
     | (k, v) # es \<Rightarrow> \<exists>j < sp_cap mp. i \<le> j \<and> find_from mp i = int j \<and> spk (sp_slot mp ! j) = Some k
         \<and> spp (sp_slot mp ! j) = Some v \<and> es = sp_entries (drop (j + 1) (sp_slot mp))"
  using assms
proof (induction mp i rule: find_from.induct)
  case (1 mp i)
  show ?case
  proof (cases "i < sp_cap mp")
    case False
    then show ?thesis by (simp add: sp_cap_def sp_entries_def map_filter_simps find_from.simps [of mp i])
  next
    case True
    let ?s = "sp_slot mp ! i"
    have d: "drop i (sp_slot mp) = ?s # drop (i + 1) (sp_slot mp)"
      using True by (simp add: sp_cap_def Cons_nth_drop_Suc)
    show ?thesis
    proof (cases "spp ?s")
      case None
      then have "find_from mp i = find_from mp (i + 1)" "sp_entries (drop i (sp_slot mp)) = sp_entries (drop (i + 1) (sp_slot mp))"
        using True by (simp_all add: find_from.simps [of mp i] sp_entries_def d map_filter_simps split: option.split)
      with 1 True None show ?thesis by (auto split: list.splits prod.splits intro: Suc_leD)
    next
      case (Some v)
      have "occ (sp_slot mp) i"
      proof (rule ccontr)
        assume "\<not> occ (sp_slot mp) i"
        then have "?s = free_slot" using "1.prems" True by (simp add: sp_inv_def)
        with Some show False by (simp add: free_slot_def)
      qed
      then obtain k where "spk ?s = Some k" by (auto simp: occ_def)
      with Some True show ?thesis
        by (auto simp: find_from.simps [of mp i] sp_entries_def d map_filter_simps intro!: exI [of _ i])
    qed
  qed
qed

lemma sp_walk_from:
  assumes inv: "sp_inv mp" and "i \<le> sp_cap mp" and "sp_cap mp - i < fuel"
    and "i = 0 \<and> key = None \<or> (\<exists>k. 0 < i \<and> key = Some k \<and> spk (sp_slot mp ! (i - 1)) = Some k)"
  shows "sp_walk fuel mp key = Some (sp_entries (drop i (sp_slot mp)))"
  using assms(2-)
proof (induction fuel arbitrary: i key)
  case (Suc fuel)
  have idx: "(case key of None \<Rightarrow> Some (find_first mp) | Some k \<Rightarrow> find_next mp k) = Some (find_from mp i)"
    using Suc.prems(3)
  proof
    assume "i = 0 \<and> key = None"
    then show ?thesis by (simp add: find_first_def)
  next
    assume "\<exists>k. 0 < i \<and> key = Some k \<and> spk (sp_slot mp ! (i - 1)) = Some k"
    then obtain k where k: "0 < i" "key = Some k" "spk (sp_slot mp ! (i - 1)) = Some k" by blast
    have i: "i - 1 < sp_cap mp" using Suc.prems k by simp
    have "occ (sp_slot mp) (sp_index mp (calc_hash k))"
    proof -
      have "occ (sp_slot mp) (i - 1)" "home mp (i - 1) = sp_index mp (calc_hash k)"
        using inv i k by (auto simp: sp_inv_def occ_def home_def)
      with inv i show ?thesis unfolding sp_inv_def linked_def by metis
    qed
    then have s: "sp_search mp k = Some (find (\<lambda>i. spk (sp_slot mp ! i) = Some k) [0..<sp_cap mp])"
      by (intro search_ok [OF inv]) simp
    obtain j where j: "find (\<lambda>i. spk (sp_slot mp ! i) = Some k) [0..<sp_cap mp] = Some j"
      using i k(3) by (cases "find (\<lambda>i. spk (sp_slot mp ! i) = Some k) [0..<sp_cap mp]") (auto simp: find_None_iff)
    then have "j < sp_cap mp" "spk (sp_slot mp ! j) = Some k" by (auto simp: find_Some_iff)
    from key_unique [OF inv i this(1) k(3) this(2)] have "Suc j = i" using k(1) by simp
    with k j s show ?thesis by (simp add: find_next_def)
  qed
  note f = find_from_entries [OF inv, of i]
  show ?case
  proof (cases "sp_entries (drop i (sp_slot mp))")
    case Nil
    with f idx show ?thesis by (simp add: pbcM_sp_next_def)
  next
    case (Cons e es)
    obtain k v where e: "e = (k, v)" by (cases e)
    from f Cons e obtain j where j: "j < sp_cap mp" "i \<le> j" "find_from mp i = int j" "spk (sp_slot mp ! j) = Some k"
      "spp (sp_slot mp ! j) = Some v" "es = sp_entries (drop (j + 1) (sp_slot mp))" by auto
    have "sp_walk fuel mp (Some k) = Some es"
      unfolding j(6) by (rule Suc.IH) (use j Suc.prems in auto)
    with Cons e idx j show ?thesis by (simp add: pbcM_sp_next_def)
  qed
qed simp

lemma sp_entries_abs:
  assumes "sp_inv mp"
  shows "set (sp_entries (sp_slot mp)) = {(k, v). sp_abs mp k = Some (Some v)}"
  unfolding sp_abs_Some [OF assms]
  by (auto simp: sp_entries_def map_filter_def sp_cap_def in_set_conv_nth image_iff split: option.splits) force

lemma sp_entries_distinct:
  assumes "sp_inv mp"
  shows "distinct (map fst (sp_entries (sp_slot mp)))"
proof -
  let ?sl = "sp_slot mp" and ?P = "\<lambda>s. spk s \<noteq> None \<and> spp s \<noteq> None"
  have "sp_entries sl = map (\<lambda>s. (the (spk s), the (spp s))) (filter ?P sl)" for sl :: "'a sp_slot list"
    by (induction sl) (auto simp: sp_entries_def map_filter_simps split: option.split)
  moreover have "filter ?P ?sl = map ((!) ?sl) (filter (?P \<circ> (!) ?sl) [0..<length ?sl])"
    by (subst map_nth [symmetric]) (simp only: filter_map)
  moreover have "inj_on (\<lambda>i. the (spk (?sl ! i))) (set (filter (?P \<circ> (!) ?sl) [0..<length ?sl]))"
    by (rule inj_onI) (use key_unique [OF assms] in \<open>auto simp: sp_cap_def\<close>)
  ultimately show ?thesis by (simp add: distinct_map comp_def)
qed

text \<open>The two \<open>foreach\<close> loops run over the entries.\<close>

lemma foldl_slots:
  "\<forall>s \<in> set sl. spk s = None \<longrightarrow> spp s = None \<Longrightarrow>
    foldl (\<lambda>st s. case spp s of None \<Rightarrow> st | Some p \<Rightarrow> f p st) st sl = foldl (\<lambda>st p. f p st) st (map snd (sp_entries sl))"
  by (induction sl arbitrary: st) (auto simp: sp_entries_def map_filter_simps split: option.split)

lemma foreach_entries:
  assumes "sp_inv mp"
  shows "pbcM_sp_foreach_ud mp func ud st = foldl (\<lambda>st p. func p ud st) st (map snd (sp_entries (sp_slot mp)))"
    and "pbcM_sp_foreach mp fn st = foldl (\<lambda>st p. fn p st) st (map snd (sp_entries (sp_slot mp)))"
proof -
  have "spp s = None" if s: "s \<in> set (sp_slot mp)" "spk s = None" for s
  proof -
    obtain i where i: "i < sp_cap mp" "s = sp_slot mp ! i" using s(1) by (auto simp: in_set_conv_nth sp_cap_def)
    then have "s = free_slot" using assms s(2) by (simp add: sp_inv_def occ_def)
    then show ?thesis by (simp add: free_slot_def)
  qed
  then have "\<forall>s \<in> set (sp_slot mp). spk s = None \<longrightarrow> spp s = None" by blast
  note fold = foldl_slots [OF this]
  show "pbcM_sp_foreach_ud mp func ud st = foldl (\<lambda>st p. func p ud st) st (map snd (sp_entries (sp_slot mp)))"
    unfolding pbcM_sp_foreach_ud_def by (rule fold)
  show "pbcM_sp_foreach mp fn st = foldl (\<lambda>st p. fn p st) st (map snd (sp_entries (sp_slot mp)))"
    unfolding pbcM_sp_foreach_def by (rule fold)
qed

lemma grow_pow: "mx \<le> 2 ^ 20 \<Longrightarrow> i \<le> 20 \<Longrightarrow> \<exists>j \<le> 20. grow_cap (2 ^ i) mx = Some (2 ^ j)"
proof (induction "20 - i" arbitrary: i)
  case 0
  then have "i = 20" by simp
  with 0 show ?case by (intro exI [of _ 20]) (simp add: grow_cap.simps)
next
  case (Suc n)
  show ?case
  proof (cases "(2 :: int) ^ i < mx")
    case True
    have "(2 :: int) ^ Suc i \<le> 2 ^ 20" using Suc by (intro power_increasing) auto
    then have "\<not> (2 :: int) ^ i * 2 > INT_MAX" by (simp add: INT_MAX_def)
    then have "grow_cap (2 ^ i) mx = grow_cap (2 ^ Suc i) mx"
      using True by (subst grow_cap.simps) (simp add: mult.commute)
    with Suc.hyps(1) [of "Suc i"] Suc.hyps(2) Suc.prems show ?thesis by auto
  next
    case False
    with Suc.prems show ?thesis by (subst grow_cap.simps) auto
  qed
qed

lemma new_ok:
  assumes "mx \<le> 2 ^ 20"
  obtains m' mp where "pbcM_sp_new mx h m = Some (m', mp)" and "sp_inv mp" and "sp_abs mp = Map.empty" and "sp_size mp = 0"
proof -
  obtain j where j: "j \<le> 20" "grow_cap 1 mx = Some (2 ^ j)" using grow_pow [OF assms, of 0] by auto
  have "(2 :: int) ^ j \<le> 2 ^ 20" using j by (intro power_increasing) auto
  then have bl: "block_ok h (2 ^ j)" by (simp add: block_ok_def INT_MAX_def)
  have n: "nat (2 ^ j) = 2 ^ j" by (simp add: nat_power_eq)
  note al = HMALLOC_block [OF bl, simplified]
  have j58: "j \<le> 58" using j by simp
  show thesis
    by (rule that [OF _ empty_inv [OF j58, of h]]) (simp_all add: pbcM_sp_new_def j(2) n bl al)
qed

subsection \<open>Properties\<close>

text \<open>
  C12: entries with distinct keys inserted into a fresh map, across every doubling and every chain
  of collisions, are all found again with their pointers, and a key that was not inserted gives
  NULL, unless its hash is 0.\<close>

theorem sp_insert_query:
  fixes kvs :: "(cstring \<times> 'v option) list"
  assumes "mx \<le> 2 ^ 20" and "distinct (map fst kvs)" and "length kvs \<le> 2 ^ 20"
    and "calc_hash key \<noteq> 0 \<or> key \<in> fst ` set kvs"
  shows "\<exists>m1 mp m2 mp'. pbcM_sp_new mx h m = Some (m1, mp) \<and> insert_all pbcM_sp_insert mp kvs m1 = Some (m2, mp')
    \<and> pbcM_sp_query (Some mp') key = Some (Option.bind (map_of kvs key) id)"
proof -
  obtain m1 and mp :: "'v map_sp" where n: "pbcM_sp_new mx h m = Some (m1, mp)" "sp_inv mp" "sp_abs mp = Map.empty" "sp_size mp = 0"
    by (rule new_ok [OF assms(1)])
  obtain m2 mp' where i: "insert_all pbcM_sp_insert mp kvs m1 = Some (m2, mp')" "sp_inv mp'" "sp_abs mp' = map_of kvs"
    using sp.insert_all_ok [OF n(2) assms(2), of m1] n(3,4) assms(3) by (auto simp: SP_LIMIT_def)
  have "calc_hash key \<noteq> 0 \<or> sp_abs mp' key \<noteq> None" using assms(4) i(3) by (auto simp: map_of_eq_None_iff)
  from sp.query [OF i(2) this] n i show ?thesis by auto
qed

definition kvs3 :: "(cstring \<times> nat option) list" where
  "kvs3 = [(cstr ''name'', Some 1), (cstr ''id'', Some 2), (cstr ''email'', None)]"

lemma sp_insert_query_witness:
  "\<exists>m1 mp m2 mp'. pbcM_sp_new 1 False \<lparr>mem_g = 0, mem_heap = \<lparr>hp_pages = [1024], hp_size = 1024, hp_used = 0\<rparr>\<rparr> = Some (m1, mp)
    \<and> insert_all pbcM_sp_insert mp kvs3 m1 = Some (m2, mp')
    \<and> pbcM_sp_query (Some mp') (cstr ''id'') = Some (Option.bind (map_of kvs3 (cstr ''id'')) id)"
  by (rule sp_insert_query) (simp_all add: kvs3_def cstr_def of_char_def)

text \<open>
  Setting entries through the address \<open>_pbcM_sp_query_insert\<close> returns keeps, for every key, the
  pointer stored last, whether the key was new or old.\<close>

theorem sp_put_last:
  fixes kvs :: "(cstring \<times> 'v option) list"
  assumes "mx \<le> 2 ^ 20" and "length kvs \<le> 2 ^ 20" and "key \<in> fst ` set kvs"
  shows "\<exists>m1 mp m2 mp'. pbcM_sp_new mx h m = Some (m1, mp) \<and> insert_all sp_put mp kvs m1 = Some (m2, mp')
    \<and> pbcM_sp_query (Some mp') key = Some (Option.bind (map_of (rev kvs) key) id)"
proof -
  obtain m1 and mp :: "'v map_sp" where n: "pbcM_sp_new mx h m = Some (m1, mp)" "sp_inv mp" "sp_abs mp = Map.empty" "sp_size mp = 0"
    by (rule new_ok [OF assms(1)])
  obtain m2 mp' where i: "insert_all sp_put mp kvs m1 = Some (m2, mp')" "sp_inv mp'" "sp_abs mp' = map_of (rev kvs)"
    using sp.put_all_ok [OF n(2), of kvs m1] n(3,4) assms(2) by (auto simp: SP_LIMIT_def)
  have "sp_abs mp' key \<noteq> None" using assms(3) i(3) by (auto simp: map_of_eq_None_iff)
  with sp.query [OF i(2)] n i show ?thesis by auto
qed

lemma sp_put_last_witness:
  "\<exists>m1 mp m2 mp'. pbcM_sp_new 0 True \<lparr>mem_g = 2, mem_heap = \<lparr>hp_pages = [1024], hp_size = 1024, hp_used = 0\<rparr>\<rparr> = Some (m1, mp)
    \<and> insert_all sp_put mp (kvs3 @ kvs3) m1 = Some (m2, mp')
    \<and> pbcM_sp_query (Some mp') (cstr ''name'') = Some (Option.bind (map_of (rev (kvs3 @ kvs3)) (cstr ''name'')) id)"
  by (rule sp_put_last) (simp_all add: kvs3_def)

text \<open>
  C25: in a map that was filled by \<open>_pbcM_sp_insert\<close> with at most \<open>2 ^ 20\<close> entries of distinct keys, a loop over
  \<open>_pbcM_sp_next\<close> that starts from NULL ends, visits the entries with a non-NULL pointer exactly once each, and nothing
  else. The keys must be distinct: a key that was inserted twice has two slots, and \<open>rmessage_next_cycles\<close> shows
  that the loop then goes on for ever.\<close>

theorem sp_next_iterates:
  fixes kvs :: "(cstring \<times> 'v option) list"
  assumes "mx \<le> 2 ^ 20" and "distinct (map fst kvs)" and "length kvs \<le> 2 ^ 20"
  shows "\<exists>m1 mp m2 mp' es. pbcM_sp_new mx h m = Some (m1, mp) \<and> insert_all pbcM_sp_insert mp kvs m1 = Some (m2, mp')
    \<and> sp_walk (Suc (sp_cap mp')) mp' None = Some es \<and> distinct (map fst es)
    \<and> set es = {(k, v). (k, Some v) \<in> set kvs}"
proof -
  obtain m1 and mp :: "'v map_sp" where n: "pbcM_sp_new mx h m = Some (m1, mp)" "sp_inv mp" "sp_abs mp = Map.empty" "sp_size mp = 0"
    by (rule new_ok [OF assms(1)])
  obtain m2 mp' where i: "insert_all pbcM_sp_insert mp kvs m1 = Some (m2, mp')" "sp_inv mp'" "sp_abs mp' = map_of kvs"
    using sp.insert_all_ok [OF n(2) assms(2), of m1] n(3,4) assms(3) by (auto simp: SP_LIMIT_def)
  let ?es = "sp_entries (sp_slot mp')"
  have w: "sp_walk (Suc (sp_cap mp')) mp' None = Some ?es"
    using sp_walk_from [OF i(2), of 0 "Suc (sp_cap mp')" None] by simp
  have "set ?es = {(k, v). (k, Some v) \<in> set kvs}"
    unfolding sp_entries_abs [OF i(2)] i(3) using assms(2) by (auto dest: map_of_SomeD)
  moreover have "distinct (map fst ?es)" by (rule sp_entries_distinct [OF i(2)])
  ultimately show ?thesis using n i w by blast
qed

lemma sp_next_iterates_witness:
  "\<exists>m1 mp m2 mp' es. pbcM_sp_new 1 False \<lparr>mem_g = 0, mem_heap = \<lparr>hp_pages = [1024], hp_size = 1024, hp_used = 0\<rparr>\<rparr> = Some (m1, mp)
    \<and> insert_all pbcM_sp_insert mp kvs3 m1 = Some (m2, mp')
    \<and> sp_walk (Suc (sp_cap mp')) mp' None = Some es \<and> distinct (map fst es)
    \<and> set es = {(k, v). (k, Some v) \<in> set kvs3}"
  by (rule sp_next_iterates) (simp_all add: kvs3_def cstr_def of_char_def)

text \<open>
  Asking a map for the empty string, whose hash is 0, compares it with the NULL key of a free
  slot: on a fresh map of any size the query is undefined.\<close>

theorem sp_query_empty_key:
  assumes "mx \<le> 2 ^ 20"
  shows "\<exists>m' mp. pbcM_sp_new mx h m = Some (m', mp) \<and> pbcM_sp_query (Some mp) [] = None"
proof -
  obtain m' and mp :: "'a map_sp" where n: "pbcM_sp_new mx h m = Some (m', mp)" "sp_inv mp" "sp_abs mp = Map.empty"
    by (rule new_ok [OF assms])
  have h0: "calc_hash [] = 0" by (simp add: calc_hash_def calc_loop.simps)
  have i: "sp_index mp 0 < sp_cap mp" by (rule sp_index_less [OF n(2)])
  have "sp_slot mp ! sp_index mp 0 = free_slot"
  proof (rule ccontr)
    assume "sp_slot mp ! sp_index mp 0 \<noteq> free_slot"
    then obtain k where "spk (sp_slot mp ! sp_index mp 0) = Some k" using n(2) i by (auto simp: sp_inv_def occ_def)
    then have "sp_abs mp k \<noteq> None" using i by (auto simp: sp_abs_None)
    with n(3) show False by simp
  qed
  then have "sp_match mp [] 0 (sp_index mp 0) = None"
    using i by (simp add: sp_match_def rd_def sp_cap_def free_slot_def)
  then have "pbcM_sp_query (Some mp) [] = None"
    using i by (cases "sp_cap mp") (simp_all add: pbcM_sp_query_def sp_search_def h0)
  with n(1) show ?thesis by blast
qed

lemma sp_query_empty_key_witness:
  "\<exists>m' mp. pbcM_sp_new 8 False \<lparr>mem_g = 0, mem_heap = \<lparr>hp_pages = [1024], hp_size = 1024, hp_used = 0\<rparr>\<rparr> = Some (m', mp)
    \<and> pbcM_sp_query (Some mp) [] = (None :: nat option option)"
  by (rule sp_query_empty_key) simp

end
