(* ===== verification/MapTables.thy ===== *)
theory MapTables
  imports MapSp
begin

section \<open>The two read-only maps (pbc/src/map.c)\<close>

text \<open>
  \<open>map_si\<close> takes strings to integers and \<open>map_ip\<close> integers to pointers. Both are built from an
  array of pairs with exactly as many slots as pairs and are not changed afterwards; \<open>map_ip\<close> is
  a plain array when the numbers are small. A pointer is a \<open>'p option\<close>, NULL being \<open>None\<close>.
\<close>

subsection \<open>From strings to integers\<close>

record si_slot =
  sik :: "cstring option"
  sih :: u64
  sii :: int
  sin :: nat

type_synonym map_si = "si_slot list"

text \<open>\<open>struct map_kv\<close> with a string, and with a pointer.\<close>

record kv_s = kvs_id :: int  kvs_pointer :: cstring
record 'p kv_p = kvp_id :: int  kvp_pointer :: "'p option"

definition si_free :: si_slot where
  "si_free = \<lparr>sik = None, sih = 0, sii = 0, sin = 0\<rparr>"

text \<open>The search for a free slot from \<open>em\<close> on; there is none behind the end.\<close>

function si_empty :: "map_si \<Rightarrow> nat \<Rightarrow> nat option" where
  "si_empty slots em = (if em < length slots then
     (if sik (slots ! em) \<noteq> None then si_empty slots (em + 1) else Some em) else None)"
  by pat_completeness auto
termination by (relation "measure (\<lambda>(sl, e). length sl - e)") auto

declare si_empty.simps [simp del]

fun si_build :: "kv_s list \<Rightarrow> map_si \<Rightarrow> nat \<Rightarrow> map_si option" where
  "si_build [] slots em = Some slots"
| "si_build (kv # table) slots em =
     (let hash_full = calc_hash (kvs_pointer kv); hash = unat (hash_full mod of_nat (length slots))
      in do {
       slot \<leftarrow> rd slots hash;
       if sik slot = None then
         si_build table (slots[hash := slot\<lparr>sik := Some (kvs_pointer kv), sii := kvs_id kv, sih := hash_full\<rparr>]) em
       else do {
         em \<leftarrow> si_empty slots em;
         let slots = slots[em := (slots ! em)\<lparr>sin := sin slot\<rparr>];
         let slots = slots[hash := (slots ! hash)\<lparr>sin := em + 1\<rparr>];
         si_build table (slots[em := (slots ! em)\<lparr>sii := kvs_id kv, sik := Some (kvs_pointer kv), sih := hash_full\<rparr>]) em } })"

definition pbcM_si_new :: "kv_s list \<Rightarrow> int \<Rightarrow> (int \<times> map_si) option" where
  "pbcM_si_new table g =
     map_option (\<lambda>m. (pbcM_malloc g, m)) (si_build table (replicate (length table) si_free) 0)"

definition pbcM_si_delete :: "map_si \<Rightarrow> int \<Rightarrow> int" where
  "pbcM_si_delete mp g = pbcM_free (Some mp) g"

definition si_match :: "map_si \<Rightarrow> cstring \<Rightarrow> u64 \<Rightarrow> nat \<Rightarrow> bool option" where
  "si_match mp key hash_full i = do {
     s \<leftarrow> rd mp i;
     if sih s = hash_full then (case sik s of None \<Rightarrow> None | Some k \<Rightarrow> Some (k = key)) else Some False }"

text \<open>The result is the C return value, 0 or 1, and what is stored in \<open>*result\<close>; a division by a
  size of zero is undefined.\<close>

definition pbcM_si_query :: "map_si \<Rightarrow> cstring \<Rightarrow> (int \<times> int option) option" where
  "pbcM_si_query mp key =
     (if mp = [] then None else
      let hash_full = calc_hash key; hash = unat (hash_full mod of_nat (length mp))
      in do {
        r \<leftarrow> chase (length mp) (si_match mp key hash_full) (\<lambda>i. map_option sin (rd mp i)) hash;
        Some (case r of None \<Rightarrow> (1, None) | Some i \<Rightarrow> (0, Some (sii (mp ! i)))) })"

subsection \<open>From integers to pointers\<close>

record 'p ip_slot =
  ipi :: int
  ipp :: "'p option"
  ipn :: nat

text \<open>Exactly one of the two arrays is present.\<close>

datatype 'p map_ip =
    Array (ip_hash_size: nat) "'p option list"
  | Hash "'p ip_slot list"

definition hash_size :: "'p map_ip \<Rightarrow> nat" where
  "hash_size mp = (case mp of Array n _ \<Rightarrow> n | Hash sl \<Rightarrow> length sl)"

definition ip_free :: "'p ip_slot" where
  "ip_free = \<lparr>ipi = 0, ipp = None, ipn = 0\<rparr>"

function ip_empty :: "'p ip_slot list \<Rightarrow> nat \<Rightarrow> nat option" where
  "ip_empty slots em = (if em < length slots then
     (if ipp (slots ! em) \<noteq> None then ip_empty slots (em + 1) else Some em) else None)"
  by pat_completeness auto
termination by (relation "measure (\<lambda>(sl, e). length sl - e)") auto

declare ip_empty.simps [simp del]

text \<open>The remainder is one of \<open>unsigned\<close>s.\<close>

definition ip_home :: "nat \<Rightarrow> int \<Rightarrow> nat" where
  "ip_home n i = unat ((of_int i :: u32) mod of_nat n)"

fun ip_build :: "'p kv_p list \<Rightarrow> 'p ip_slot list \<Rightarrow> nat \<Rightarrow> 'p ip_slot list option" where
  "ip_build [] slots em = Some slots"
| "ip_build (kv # table) slots em =
     (let hash = ip_home (length slots) (kvp_id kv)
      in do {
       slot \<leftarrow> rd slots hash;
       if ipp slot = None then
         ip_build table (slots[hash := slot\<lparr>ipp := kvp_pointer kv, ipi := kvp_id kv\<rparr>]) em
       else do {
         em \<leftarrow> ip_empty slots em;
         let slots = slots[em := (slots ! em)\<lparr>ipn := ipn slot\<rparr>];
         let slots = slots[hash := (slots ! hash)\<lparr>ipn := em + 1\<rparr>];
         ip_build table (slots[em := (slots ! em)\<lparr>ipi := kvp_id kv, ipp := kvp_pointer kv\<rparr>]) em } })"

definition ip_new_hash :: "'p kv_p list \<Rightarrow> int \<Rightarrow> (int \<times> 'p map_ip) option" where
  "ip_new_hash table g = do {
     sl \<leftarrow> ip_build table (replicate (length table) ip_free) 0;
     Some (pbcM_malloc (pbcM_malloc g), Hash sl) }"

text \<open>The scan for the largest number: \<open>None\<close> is a number for which a hash table is built.\<close>

fun ip_max :: "int \<Rightarrow> int \<Rightarrow> 'p kv_p list \<Rightarrow> int option" where
  "ip_max mx limit [] = Some mx"
| "ip_max mx limit (kv # table) =
     (if kvp_id kv < 0 then None
      else if kvp_id kv > mx then (if kvp_id kv > limit then None else ip_max (kvp_id kv) limit table)
      else ip_max mx limit table)"

definition pbcM_ip_new :: "'p kv_p list \<Rightarrow> int \<Rightarrow> (int \<times> 'p map_ip) option" where
  "pbcM_ip_new table g = do {
     kv \<leftarrow> rd table 0;
     let sz = int (length table); mx = kvp_id kv in
     if mx > sz * 2 \<or> mx < 0 then ip_new_hash table g
     else case ip_max mx (sz * 2) (tl table) of
       None \<Rightarrow> ip_new_hash table g
     | Some mx \<Rightarrow>
         Some (pbcM_malloc (pbcM_malloc g),
           Array (length table)
             (foldl (\<lambda>a kv. a[nat (kvp_id kv) := kvp_pointer kv]) (replicate (nat (mx + 1)) None) table)) }"

definition pbcM_ip_delete :: "'p map_ip option \<Rightarrow> int \<Rightarrow> int" where
  "pbcM_ip_delete mp g =
     (case mp of None \<Rightarrow> g
      | Some mp \<Rightarrow>
         (let array = (case mp of Array _ a \<Rightarrow> Some () | Hash _ \<Rightarrow> None);
              slot = (case mp of Array _ _ \<Rightarrow> None | Hash _ \<Rightarrow> Some ())
          in pbcM_free (Some mp) (pbcM_free slot (pbcM_free array g))))"

text \<open>\<open>_inject\<close> writes to the front of a zeroed table.\<close>

definition inject :: "'p map_ip \<Rightarrow> 'p kv_p list" where
  "inject mp =
     (case mp of
        Array _ a \<Rightarrow> map (\<lambda>i. \<lparr>kvp_id = int i, kvp_pointer = a ! i\<rparr>) (filter (\<lambda>i. a ! i \<noteq> None) [0..<length a])
      | Hash sl \<Rightarrow> map (\<lambda>s. \<lparr>kvp_id = ipi s, kvp_pointer = ipp s\<rparr>) sl)"

definition put_at :: "'a list \<Rightarrow> nat \<Rightarrow> 'a list \<Rightarrow> 'a list option" where
  "put_at table off xs =
     (if off + length xs \<le> length table then Some (take off table @ xs @ drop (off + length xs) table) else None)"

definition pbcM_ip_combine :: "'p map_ip \<Rightarrow> 'p map_ip \<Rightarrow> int \<Rightarrow> (int \<times> 'p map_ip) option" where
  "pbcM_ip_combine a b g =
     (let sz = hash_size a + hash_size b; table = replicate sz \<lparr>kvp_id = 0, kvp_pointer = None\<rparr>; g = pbcM_malloc g
      in do {
        table \<leftarrow> put_at table 0 (inject a);
        table \<leftarrow> put_at table (hash_size a) (inject b);
        (g, r) \<leftarrow> pbcM_ip_new table g;
        Some (pbcM_free (Some table) g, r) })"

definition pbcM_ip_query :: "'p map_ip option \<Rightarrow> int \<Rightarrow> 'p option option" where
  "pbcM_ip_query mp i =
     (case mp of
        None \<Rightarrow> Some None
      | Some (Array _ a) \<Rightarrow> Some (if 0 \<le> i \<and> i < int (length a) then a ! nat i else None)
      | Some (Hash sl) \<Rightarrow>
          if sl = [] then None else do {
            r \<leftarrow> chase (length sl) (\<lambda>j. map_option (\<lambda>s. ipi s = i) (rd sl j))
                   (\<lambda>j. map_option ipn (rd sl j)) (ip_home (length sl) i);
            Some (case r of None \<Rightarrow> None | Some j \<Rightarrow> ipp (sl ! j)) })"

subsection \<open>Building the string table\<close>

definition siK :: "map_si \<Rightarrow> nat \<Rightarrow> cstring option" where "siK sl i = sik (sl ! i)"
definition siN :: "map_si \<Rightarrow> nat \<Rightarrow> nat" where "siN sl i = sin (sl ! i)"
definition si_home :: "nat \<Rightarrow> cstring \<Rightarrow> nat" where "si_home n k = unat (calc_hash k mod of_nat n)"

lemma mod_home: "unat (h mod of_nat n) < n" if "0 < n" "n < 2 ^ LENGTH('a)" for h :: "'a::len word"
proof -
  have "unat (of_nat n :: 'a word) = n" using that by (simp add: unsigned_of_nat take_bit_nat_eq_self)
  with that show ?thesis by (simp add: unat_mod)
qed

lemma si_empty_ok:
  assumes "j < length sl" "siK sl j = None" and "\<forall>i < em. siK sl i \<noteq> None"
  shows "\<exists>e < length sl. si_empty sl em = Some e \<and> siK sl e = None \<and> (\<forall>i < e. siK sl i \<noteq> None)"
  using assms
proof (induction sl em rule: si_empty.induct)
  case (1 sl em)
  have "em \<le> j" using "1.prems" by (meson not_le)
  then have em: "em < length sl" using "1.prems" by simp
  show ?case
  proof (cases "siK sl em = None")
    case True
    with em "1.prems" show ?thesis by (subst si_empty.simps) (auto simp: siK_def)
  next
    case False
    with "1.prems" have "\<forall>i < em + 1. siK sl i \<noteq> None" by (auto simp: less_Suc_eq)
    with 1 em False show ?thesis by (subst si_empty.simps) (auto simp: siK_def)
  qed
qed

text \<open>The slots after the pairs \<open>done\<close>; every slot before \<open>em\<close> is taken.\<close>

definition si_ok :: "map_si \<Rightarrow> nat \<Rightarrow> kv_s list \<Rightarrow> bool" where
  "si_ok sl em done \<longleftrightarrow> tab (length sl) (si_home (length sl)) (siN sl) (siK sl)
     \<and> (\<forall>i < em. siK sl i \<noteq> None) \<and> card {i. i < length sl \<and> siK sl i \<noteq> None} = length done
     \<and> (\<forall>i < length sl. \<forall>k. siK sl i = Some k \<longrightarrow> sih (sl ! i) = calc_hash k)
     \<and> (\<forall>k v. (\<exists>i < length sl. siK sl i = Some k \<and> sii (sl ! i) = v) \<longleftrightarrow> \<lparr>kvs_id = v, kvs_pointer = k\<rparr> \<in> set done)"

lemma si_ok_add:
  assumes ok: "si_ok sl em done" and e: "e < length sl" "siK sl e = None"
    and sl': "length sl' = length sl" "siK sl' = (siK sl)(e \<mapsto> k)" "sih (sl' ! e) = calc_hash k" "sii (sl' ! e) = v"
      "\<And>i. i \<noteq> e \<Longrightarrow> sih (sl' ! i) = sih (sl ! i) \<and> sii (sl' ! i) = sii (sl ! i)"
    and t: "tab (length sl) (si_home (length sl)) (siN sl') ((siK sl)(e \<mapsto> k))" and em: "\<forall>i < em'. siK sl' i \<noteq> None"
  shows "si_ok sl' em' (done @ [\<lparr>kvs_id = v, kvs_pointer = k\<rparr>])"
proof -
  have "{i. i < length sl \<and> ((siK sl)(e \<mapsto> k)) i \<noteq> None} = insert e {i. i < length sl \<and> siK sl i \<noteq> None}"
    using e by auto
  then have card: "card {i. i < length sl \<and> ((siK sl)(e \<mapsto> k)) i \<noteq> None} = length done + 1"
    using ok e by (simp add: si_ok_def)
  have ent: "(\<exists>i < length sl. ((siK sl)(e \<mapsto> k)) i = Some k' \<and> sii (sl' ! i) = v') \<longleftrightarrow>
    (\<lparr>kvs_id = v', kvs_pointer = k'\<rparr> \<in> set (done @ [\<lparr>kvs_id = v, kvs_pointer = k\<rparr>]))" for k' v'
  proof -
    have "(\<exists>i < length sl. ((siK sl)(e \<mapsto> k)) i = Some k' \<and> sii (sl' ! i) = v') \<longleftrightarrow>
      (k' = k \<and> v' = v) \<or> (\<exists>i < length sl. siK sl i = Some k' \<and> sii (sl ! i) = v')"
      using e sl' by (auto split: if_splits) (metis option.distinct(1))
    then show ?thesis using ok unfolding si_ok_def by auto
  qed
  show ?thesis unfolding si_ok_def sl'(1,2)
    using card t em ent sl' ok by (auto simp: si_ok_def)
qed

lemma si_build_ok:
  assumes "si_ok sl em done" and "length done + length table = length sl" and "length sl < 2 ^ 31"
    and "distinct (map kvs_pointer (done @ table))"
  shows "\<exists>sl' em'. si_build table sl em = Some sl' \<and> length sl' = length sl \<and> si_ok sl' em' (done @ table)"
  using assms
proof (induction table arbitrary: sl em "done")
  case (Cons kv table)
  obtain v k where kv: "kv = \<lparr>kvs_id = v, kvs_pointer = k\<rparr>" by (cases kv)
  let ?n = "length sl" and ?h = "si_home (length sl) k"
  have t: "tab ?n (si_home ?n) (siN sl) (siK sl)" using Cons.prems(1) by (simp add: si_ok_def)
  have n: "0 < ?n" unfolding Cons.prems(2) [symmetric] by simp
  have h: "?h < ?n" unfolding si_home_def by (rule mod_home) (use n Cons.prems(3) in simp_all)
  have "\<lparr>kvs_id = w, kvs_pointer = k\<rparr> \<notin> set done" for w using Cons.prems(4) kv by force
  then have new: "\<forall>i < ?n. siK sl i \<noteq> Some k" using Cons.prems(1) unfolding si_ok_def by blast
  have sl_h: "rd sl ?h = Some (sl ! ?h)" using h by (simp add: rd_def)
  have step: "\<exists>sl' em'. si_build table sl1 em1 = Some sl' \<and> length sl' = length sl \<and> si_ok sl' em' (done @ kv # table)"
    if "si_ok sl1 em1 (done @ [kv])" "length sl1 = length sl" for sl1 em1
    using Cons.IH [OF that(1)] that(2) Cons.prems by simp
  show ?case
  proof (cases "siK sl ?h")
    case None
    let ?sl = "sl[?h := (sl ! ?h)\<lparr>sik := Some k, sii := v, sih := calc_hash k\<rparr>]"
    have "siN ?sl = siN sl" "siK ?sl = (siK sl)(?h \<mapsto> k)"
      using h by (auto simp: siN_def siK_def fun_eq_iff nth_list_update)
    then have "si_ok ?sl em (done @ [kv])" unfolding kv
      by (intro si_ok_add [OF Cons.prems(1) h None]) (use h tab_head [OF t h None new] Cons.prems(1) in \<open>auto simp: si_ok_def\<close>)
    moreover have "si_build (kv # table) sl em = si_build table ?sl em"
      using None sl_h by (simp add: kv siK_def si_home_def Let_def)
    ultimately show ?thesis using step by simp
  next
    case (Some k0)
    have "\<exists>j < ?n. siK sl j = None"
    proof (rule ccontr)
      assume "\<not> ?thesis"
      then have "{i. i < ?n \<and> siK sl i \<noteq> None} = {..<?n}" by auto
      with Cons.prems(1,2) show False by (simp add: si_ok_def)
    qed
    then obtain j where j: "j < ?n" "siK sl j = None" by blast
    have "\<forall>i < em. siK sl i \<noteq> None" using Cons.prems(1) by (simp add: si_ok_def)
    from si_empty_ok [OF j this] obtain e where
      e: "e < ?n" "si_empty sl em = Some e" "siK sl e = None" "\<forall>i < e. siK sl i \<noteq> None" by blast
    have eh: "e \<noteq> ?h" using e(3) Some by auto
    let ?sl1 = "sl[e := (sl ! e)\<lparr>sin := sin (sl ! ?h)\<rparr>]"
    let ?sl2 = "?sl1[?h := (?sl1 ! ?h)\<lparr>sin := e + 1\<rparr>]"
    let ?sl = "?sl2[e := (?sl2 ! e)\<lparr>sii := v, sik := Some k, sih := calc_hash k\<rparr>]"
    have v: "siN ?sl = (siN sl)(e := siN sl ?h, ?h := Suc e)" "siK ?sl = (siK sl)(e \<mapsto> k)"
      using h e(1) eh by (auto simp: siN_def siK_def fun_eq_iff nth_list_update)
    have "si_ok ?sl e (done @ [kv])" unfolding kv
    proof (rule si_ok_add [OF Cons.prems(1) e(1,3)])
      show "tab ?n (si_home ?n) (siN ?sl) ((siK sl)(e \<mapsto> k))"
        unfolding v by (rule tab_after [OF t h _ e(1,3) new]) (simp add: Some)
      show "siK ?sl = (siK sl)(e \<mapsto> k)" by (rule v)
      show "\<forall>i < e. siK ?sl i \<noteq> None" unfolding v using e(4) by simp
    qed (use h e(1) eh in \<open>simp_all add: nth_list_update\<close>)
    moreover have "si_build (kv # table) sl em = si_build table ?sl e"
      using Some sl_h e(2) by (simp add: kv siK_def si_home_def Let_def)
    ultimately show ?thesis using step by simp
  qed
qed auto

lemma kv_mem: "(k, v) \<in> (\<lambda>kv. (kvs_pointer kv, kvs_id kv)) ` T \<longleftrightarrow> \<lparr>kvs_id = v, kvs_pointer = k\<rparr> \<in> T"
proof
  assume "(k, v) \<in> (\<lambda>kv. (kvs_pointer kv, kvs_id kv)) ` T"
  then obtain kv where "kv \<in> T" "k = kvs_pointer kv" "v = kvs_id kv" by auto
  then show "\<lparr>kvs_id = v, kvs_pointer = k\<rparr> \<in> T" by (cases kv) simp
next
  assume "\<lparr>kvs_id = v, kvs_pointer = k\<rparr> \<in> T"
  then show "(k, v) \<in> (\<lambda>kv. (kvs_pointer kv, kvs_id kv)) ` T" by (rule rev_image_eqI) simp
qed

lemma si_new_lookup:
  assumes "table \<noteq> []" and "length table < 2 ^ 31" and "distinct (map kvs_pointer table)"
  shows "\<exists>g' mp. pbcM_si_new table g = Some (g', mp) \<and>
    pbcM_si_query mp key = Some (case map_of (map (\<lambda>kv. (kvs_pointer kv, kvs_id kv)) table) key of
       Some v \<Rightarrow> (0, Some v) | None \<Rightarrow> (1, None))"
proof -
  let ?n = "length table" and ?sl0 = "replicate (length table) si_free"
  have v0: "tab ?n hm (siN ?sl0) (siK ?sl0)" for hm
    by (auto simp: tab_def linked_def siN_def siK_def si_free_def)
  have c0: "card {i. i < ?n \<and> siK ?sl0 i \<noteq> None} = 0"
    by (auto simp: siK_def si_free_def)
  have "si_ok ?sl0 0 []"
    using v0 c0 by (auto simp: si_ok_def siK_def si_free_def)
  from si_build_ok [OF this, of table] assms obtain sl em where
    b: "si_build table ?sl0 0 = Some sl" "length sl = ?n" "si_ok sl em table" by auto
  have t: "tab ?n (si_home ?n) (siN sl) (siK sl)" using b by (simp add: si_ok_def)
  have "{i. i < ?n \<and> siK sl i \<noteq> None} = {..<?n}"
    by (rule card_subset_eq) (use b in \<open>auto simp: si_ok_def\<close>)
  then have full: "siK sl i \<noteq> None" if "i < ?n" for i using that by blast
  have h: "si_home ?n key < ?n" unfolding si_home_def by (rule mod_home) (use assms in simp_all)
  have ch: "chase ?n (si_match sl key (calc_hash key)) (\<lambda>i. map_option sin (rd sl i)) (si_home ?n key)
     = Some (find (\<lambda>i. siK sl i = Some key) [0..<?n])"
  proof (rule tab_search [OF t h full [OF h]])
    fix i assume i: "i < ?n"
    then show "map_option sin (rd sl i) = Some (siN sl i)" using b(2) by (simp add: rd_def siN_def)
    obtain k where k: "siK sl i = Some k" using full [OF i] by blast
    then have "sih (sl ! i) = calc_hash k" using b i by (simp add: si_ok_def)
    with k i b(2) show "si_match sl key (calc_hash key) i = Some (siK sl i = Some key)"
      by (auto simp: si_match_def rd_def siK_def)
  qed
  have q: "pbcM_si_query sl key = Some (case find (\<lambda>i. siK sl i = Some key) [0..<?n] of
      None \<Rightarrow> (1, None) | Some i \<Rightarrow> (0, Some (sii (sl ! i))))"
    using ch b(2) assms(1) by (auto simp: pbcM_si_query_def Let_def si_home_def)
  have ent: "(\<exists>i < ?n. siK sl i = Some key \<and> sii (sl ! i) = v) \<longleftrightarrow>
      map_of (map (\<lambda>kv. (kvs_pointer kv, kvs_id kv)) table) key = Some v" for v
  proof -
    have "distinct (map fst (map (\<lambda>kv. (kvs_pointer kv, kvs_id kv)) table))" using assms(3) by (simp add: comp_def)
    then have "map_of (map (\<lambda>kv. (kvs_pointer kv, kvs_id kv)) table) key = Some v \<longleftrightarrow>
      \<lparr>kvs_id = v, kvs_pointer = key\<rparr> \<in> set table"
      by (simp add: map_of_eq_Some_iff kv_mem)
    then show ?thesis using b by (simp add: si_ok_def)
  qed
  have "(case find (\<lambda>i. siK sl i = Some key) [0..<?n] of None \<Rightarrow> (1, None) | Some i \<Rightarrow> (0, Some (sii (sl ! i))))
     = (case map_of (map (\<lambda>kv. (kvs_pointer kv, kvs_id kv)) table) key of Some v \<Rightarrow> (0, Some v) | None \<Rightarrow> (1 :: int, None))"
  proof (cases "find (\<lambda>i. siK sl i = Some key) [0..<?n]")
    case None
    then have "map_of (map (\<lambda>kv. (kvs_pointer kv, kvs_id kv)) table) key = None"
      using ent by (cases "map_of (map (\<lambda>kv. (kvs_pointer kv, kvs_id kv)) table) key") (auto simp: find_None_iff)
    with None show ?thesis by simp
  next
    case (Some i)
    then have "i < ?n" "siK sl i = Some key" by (auto simp: find_Some_iff)
    then have "map_of (map (\<lambda>kv. (kvs_pointer kv, kvs_id kv)) table) key = Some (sii (sl ! i))" using ent by blast
    with Some show ?thesis by simp
  qed
  with q b(1) show ?thesis by (simp add: pbcM_si_new_def)
qed

text \<open>
  C26: a string table built from pairs with distinct keys has an answer to every query: the
  number of the pair with that key, or failure when there is none.\<close>

theorem si_new_query:
  assumes "table \<noteq> []" and "length table < 2 ^ 31" and "distinct (map kvs_pointer table)"
  shows "\<exists>g' mp. pbcM_si_new table g = Some (g', mp) \<and>
    pbcM_si_query mp key = Some (case map_of (map (\<lambda>kv. (kvs_pointer kv, kvs_id kv)) table) key of
       Some v \<Rightarrow> (0, Some v) | None \<Rightarrow> (1, None))"
  by (rule si_new_lookup [OF assms])

lemma si_new_query_witness:
  "\<exists>g' mp. pbcM_si_new [\<lparr>kvs_id = 1, kvs_pointer = cstr ''a''\<rparr>, \<lparr>kvs_id = 7, kvs_pointer = cstr ''b''\<rparr>] 0 = Some (g', mp) \<and>
    pbcM_si_query mp (cstr ''b'') = Some (case map_of (map (\<lambda>kv. (kvs_pointer kv, kvs_id kv))
        [\<lparr>kvs_id = 1, kvs_pointer = cstr ''a''\<rparr>, \<lparr>kvs_id = 7, kvs_pointer = cstr ''b''\<rparr>]) (cstr ''b'') of
       Some v \<Rightarrow> (0, Some v) | None \<Rightarrow> (1, None))"
  by (rule si_new_query) (simp_all add: cstr_def of_char_def)

subsection \<open>Building the number table\<close>

definition ipK :: "'p ip_slot list \<Rightarrow> nat \<Rightarrow> int option" where
  "ipK sl i = (if ipp (sl ! i) \<noteq> None then Some (ipi (sl ! i)) else None)"
definition ipN :: "'p ip_slot list \<Rightarrow> nat \<Rightarrow> nat" where "ipN sl i = ipn (sl ! i)"

lemma ipK_None: "ipK sl i = None \<longleftrightarrow> ipp (sl ! i) = None"
  by (simp add: ipK_def)

lemma ip_empty_ok:
  assumes "j < length sl" "ipK sl j = None" and "\<forall>i < em. ipK sl i \<noteq> None"
  shows "\<exists>e < length sl. ip_empty sl em = Some e \<and> ipK sl e = None \<and> (\<forall>i < e. ipK sl i \<noteq> None)"
  using assms
proof (induction sl em rule: ip_empty.induct)
  case (1 sl em)
  have "em \<le> j" using "1.prems" by (meson not_le)
  then have em: "em < length sl" using "1.prems" by simp
  show ?case
  proof (cases "ipK sl em = None")
    case True
    with em "1.prems" show ?thesis by (subst ip_empty.simps) (auto simp: ipK_None)
  next
    case False
    with "1.prems" have "\<forall>i < em + 1. ipK sl i \<noteq> None" by (auto simp: less_Suc_eq)
    with 1 em False show ?thesis by (subst ip_empty.simps) (auto simp: ipK_None)
  qed
qed

definition ip_ok :: "'p ip_slot list \<Rightarrow> nat \<Rightarrow> 'p kv_p list \<Rightarrow> bool" where
  "ip_ok sl em done \<longleftrightarrow> tab (length sl) (ip_home (length sl)) (ipN sl) (ipK sl)
     \<and> (\<forall>i < em. ipK sl i \<noteq> None) \<and> card {i. i < length sl \<and> ipK sl i \<noteq> None} = length done
     \<and> (\<forall>k p. (\<exists>i < length sl. ipK sl i = Some k \<and> ipp (sl ! i) = p) \<longleftrightarrow> \<lparr>kvp_id = k, kvp_pointer = p\<rparr> \<in> set done)"

lemma ip_ok_add:
  assumes ok: "ip_ok sl em done" and e: "e < length sl" "ipK sl e = None"
    and sl': "length sl' = length sl" "ipK sl' = (ipK sl)(e \<mapsto> k)" "ipp (sl' ! e) = p"
      "\<And>i. i \<noteq> e \<Longrightarrow> ipp (sl' ! i) = ipp (sl ! i)"
    and t: "tab (length sl) (ip_home (length sl)) (ipN sl') ((ipK sl)(e \<mapsto> k))" and em: "\<forall>i < em'. ipK sl' i \<noteq> None"
  shows "ip_ok sl' em' (done @ [\<lparr>kvp_id = k, kvp_pointer = p\<rparr>])"
proof -
  have "{i. i < length sl \<and> ((ipK sl)(e \<mapsto> k)) i \<noteq> None} = insert e {i. i < length sl \<and> ipK sl i \<noteq> None}"
    using e by auto
  then have card: "card {i. i < length sl \<and> ((ipK sl)(e \<mapsto> k)) i \<noteq> None} = length done + 1"
    using ok e by (simp add: ip_ok_def)
  have ent: "(\<exists>i < length sl. ((ipK sl)(e \<mapsto> k)) i = Some k' \<and> ipp (sl' ! i) = p') \<longleftrightarrow>
    (\<lparr>kvp_id = k', kvp_pointer = p'\<rparr> \<in> set (done @ [\<lparr>kvp_id = k, kvp_pointer = p\<rparr>]))" for k' p'
  proof -
    have "(\<exists>i < length sl. ((ipK sl)(e \<mapsto> k)) i = Some k' \<and> ipp (sl' ! i) = p') \<longleftrightarrow>
      (k' = k \<and> p' = p) \<or> (\<exists>i < length sl. ipK sl i = Some k' \<and> ipp (sl ! i) = p')"
      using e sl' by (auto split: if_splits) (metis option.distinct(1))
    then show ?thesis using ok unfolding ip_ok_def by auto
  qed
  show ?thesis unfolding ip_ok_def sl'(1,2)
    using card t em ent sl' ok by (auto simp: ip_ok_def)
qed

lemma ip_build_ok:
  assumes "ip_ok sl em done" and "length done + length table = length sl" and "length sl < 2 ^ 31"
    and "distinct (map kvp_id (done @ table))" and "\<forall>kv \<in> set table. kvp_pointer kv \<noteq> None"
  shows "\<exists>sl' em'. ip_build table sl em = Some sl' \<and> length sl' = length sl \<and> ip_ok sl' em' (done @ table)"
  using assms
proof (induction table arbitrary: sl em "done")
  case (Cons kv table)
  obtain k p where kv: "kv = \<lparr>kvp_id = k, kvp_pointer = p\<rparr>" by (cases kv)
  let ?n = "length sl" and ?h = "ip_home (length sl) k"
  have p: "p \<noteq> None" using Cons.prems(5) kv by auto
  have t: "tab ?n (ip_home ?n) (ipN sl) (ipK sl)" using Cons.prems(1) by (simp add: ip_ok_def)
  have n: "0 < ?n" unfolding Cons.prems(2) [symmetric] by simp
  have h: "?h < ?n" unfolding ip_home_def by (rule mod_home) (use n Cons.prems(3) in simp_all)
  have "\<lparr>kvp_id = k, kvp_pointer = q\<rparr> \<notin> set done" for q using Cons.prems(4) kv by force
  then have new: "\<forall>i < ?n. ipK sl i \<noteq> Some k" using Cons.prems(1) unfolding ip_ok_def by blast
  have sl_h: "rd sl ?h = Some (sl ! ?h)" using h by (simp add: rd_def)
  have step: "\<exists>sl' em'. ip_build table sl1 em1 = Some sl' \<and> length sl' = length sl \<and> ip_ok sl' em' (done @ kv # table)"
    if "ip_ok sl1 em1 (done @ [kv])" "length sl1 = length sl" for sl1 em1
    using Cons.IH [OF that(1)] that(2) Cons.prems by simp
  show ?case
  proof (cases "ipK sl ?h")
    case None
    let ?sl = "sl[?h := (sl ! ?h)\<lparr>ipp := p, ipi := k\<rparr>]"
    have "ipN ?sl = ipN sl" "ipK ?sl = (ipK sl)(?h \<mapsto> k)"
      using h p by (auto simp: ipN_def ipK_def fun_eq_iff nth_list_update)
    then have "ip_ok ?sl em (done @ [kv])" unfolding kv
      by (intro ip_ok_add [OF Cons.prems(1) h None]) (use h tab_head [OF t h None new] Cons.prems(1) in \<open>auto simp: ip_ok_def\<close>)
    moreover have "ip_build (kv # table) sl em = ip_build table ?sl em"
      using None sl_h by (simp add: kv ipK_None Let_def)
    ultimately show ?thesis using step by simp
  next
    case (Some k0)
    have "\<exists>j < ?n. ipK sl j = None"
    proof (rule ccontr)
      assume "\<not> ?thesis"
      then have "{i. i < ?n \<and> ipK sl i \<noteq> None} = {..<?n}" by auto
      with Cons.prems(1,2) show False by (simp add: ip_ok_def)
    qed
    then obtain j where j: "j < ?n" "ipK sl j = None" by blast
    have "\<forall>i < em. ipK sl i \<noteq> None" using Cons.prems(1) by (simp add: ip_ok_def)
    from ip_empty_ok [OF j this] obtain e where
      e: "e < ?n" "ip_empty sl em = Some e" "ipK sl e = None" "\<forall>i < e. ipK sl i \<noteq> None" by blast
    have eh: "e \<noteq> ?h" using e(3) Some by auto
    let ?sl1 = "sl[e := (sl ! e)\<lparr>ipn := ipn (sl ! ?h)\<rparr>]"
    let ?sl2 = "?sl1[?h := (?sl1 ! ?h)\<lparr>ipn := e + 1\<rparr>]"
    let ?sl = "?sl2[e := (?sl2 ! e)\<lparr>ipi := k, ipp := p\<rparr>]"
    have v: "ipN ?sl = (ipN sl)(e := ipN sl ?h, ?h := Suc e)" "ipK ?sl = (ipK sl)(e \<mapsto> k)"
      using h e(1) eh p by (auto simp: ipN_def ipK_def fun_eq_iff nth_list_update)
    have "ip_ok ?sl e (done @ [kv])" unfolding kv
    proof (rule ip_ok_add [OF Cons.prems(1) e(1,3)])
      show "tab ?n (ip_home ?n) (ipN ?sl) ((ipK sl)(e \<mapsto> k))"
        unfolding v by (rule tab_after [OF t h _ e(1,3) new]) (simp add: Some)
      show "ipK ?sl = (ipK sl)(e \<mapsto> k)" by (rule v)
      show "\<forall>i < e. ipK ?sl i \<noteq> None" unfolding v using e(4) by simp
    qed (use h e(1) eh in \<open>simp_all add: nth_list_update\<close>)
    moreover have "ip_build (kv # table) sl em = ip_build table ?sl e"
    proof -
      obtain q where "ipp (sl ! ?h) = Some q" using Some ipK_None [of sl ?h] by auto
      with sl_h e(2) show ?thesis by (simp add: kv Let_def)
    qed
    ultimately show ?thesis using step by simp
  qed
qed auto

subsection \<open>What a number table answers\<close>

text \<open>The map stands for the pairs of \<open>T\<close>, which have distinct numbers and no NULL.\<close>

definition ip_rep :: "'p map_ip \<Rightarrow> 'p kv_p list \<Rightarrow> bool" where
  "ip_rep mp T \<longleftrightarrow> T \<noteq> [] \<and> length T < 2 ^ 31 \<and> distinct (map kvp_id T) \<and> (\<forall>kv \<in> set T. kvp_pointer kv \<noteq> None)
     \<and> hash_size mp = length T
     \<and> (case mp of
          Array _ a \<Rightarrow> \<forall>k p. p \<noteq> None \<longrightarrow> (0 \<le> k \<and> k < int (length a) \<and> a ! nat k = p)
                        \<longleftrightarrow> \<lparr>kvp_id = k, kvp_pointer = p\<rparr> \<in> set T
        | Hash sl \<Rightarrow> \<exists>em. ip_ok sl em T)"

definition ip_look :: "'p kv_p list \<Rightarrow> int \<Rightarrow> 'p option" where
  "ip_look T k = Option.bind (map_of (map (\<lambda>kv. (kvp_id kv, kvp_pointer kv)) T) k) id"

lemma kvp_mem: "(k, p) \<in> (\<lambda>kv. (kvp_id kv, kvp_pointer kv)) ` T \<longleftrightarrow> \<lparr>kvp_id = k, kvp_pointer = p\<rparr> \<in> T"
proof
  assume "(k, p) \<in> (\<lambda>kv. (kvp_id kv, kvp_pointer kv)) ` T"
  then obtain kv where "kv \<in> T" "k = kvp_id kv" "p = kvp_pointer kv" by auto
  then show "\<lparr>kvp_id = k, kvp_pointer = p\<rparr> \<in> T" by (cases kv) simp
next
  assume "\<lparr>kvp_id = k, kvp_pointer = p\<rparr> \<in> T"
  then show "(k, p) \<in> (\<lambda>kv. (kvp_id kv, kvp_pointer kv)) ` T" by (rule rev_image_eqI) simp
qed

lemma ip_look_Some:
  assumes "distinct (map kvp_id T)"
  shows "ip_look T k = Some p \<longleftrightarrow> \<lparr>kvp_id = k, kvp_pointer = Some p\<rparr> \<in> set T"
proof -
  have "distinct (map fst (map (\<lambda>kv. (kvp_id kv, kvp_pointer kv)) T))" using assms by (simp add: comp_def)
  then have "map_of (map (\<lambda>kv. (kvp_id kv, kvp_pointer kv)) T) k = Some (Some p) \<longleftrightarrow>
      \<lparr>kvp_id = k, kvp_pointer = Some p\<rparr> \<in> set T" by (simp add: map_of_eq_Some_iff kvp_mem)
  then show ?thesis by (simp add: ip_look_def Option.bind_eq_Some_conv)
qed

lemma ip_full:
  assumes "ip_ok sl em T" and "length sl = length T" and "i < length sl"
  shows "ipK sl i \<noteq> None"
proof -
  have "{i. i < length sl \<and> ipK sl i \<noteq> None} = {..<length sl}"
    by (rule card_subset_eq) (use assms in \<open>auto simp: ip_ok_def\<close>)
  with assms(3) show ?thesis by blast
qed

lemma ip_query_rep:
  assumes "ip_rep mp T"
  shows "pbcM_ip_query (Some mp) k = Some (ip_look T k)"
proof (cases mp)
  case (Array n a)
  have "(if 0 \<le> k \<and> k < int (length a) then a ! nat k else None) = Some p \<longleftrightarrow> ip_look T k = Some p" for p
    using assms Array by (auto simp: ip_rep_def ip_look_Some)
  then have "(if 0 \<le> k \<and> k < int (length a) then a ! nat k else None) = ip_look T k"
    by (metis option.exhaust)
  then show ?thesis by (simp add: pbcM_ip_query_def Array)
next
  case (Hash sl)
  with assms obtain em where ok: "ip_ok sl em T" and len: "length sl = length T" and T: "T \<noteq> []" "length T < 2 ^ 31"
    "distinct (map kvp_id T)" by (auto simp: ip_rep_def hash_size_def)
  let ?n = "length sl"
  have t: "tab ?n (ip_home ?n) (ipN sl) (ipK sl)" using ok by (simp add: ip_ok_def)
  have h: "ip_home ?n k < ?n" unfolding ip_home_def by (rule mod_home) (use len T in simp_all)
  have ch: "chase ?n (\<lambda>j. map_option (\<lambda>s. ipi s = k) (rd sl j)) (\<lambda>j. map_option ipn (rd sl j)) (ip_home ?n k)
     = Some (find (\<lambda>i. ipK sl i = Some k) [0..<?n])"
    by (rule tab_search [OF t h ip_full [OF ok len h]]) (auto simp: rd_def ipN_def ipK_def split: if_splits)
  have q: "pbcM_ip_query (Some mp) k = Some (case find (\<lambda>i. ipK sl i = Some k) [0..<?n] of None \<Rightarrow> None | Some j \<Rightarrow> ipp (sl ! j))"
    using ch len T by (auto simp: pbcM_ip_query_def Hash)
  have "(case find (\<lambda>i. ipK sl i = Some k) [0..<?n] of None \<Rightarrow> None | Some j \<Rightarrow> ipp (sl ! j)) = ip_look T k"
  proof (cases "find (\<lambda>i. ipK sl i = Some k) [0..<?n]")
    case None
    have "ip_look T k \<noteq> Some p" for p
      using None ok unfolding ip_look_Some [OF T(3)] ip_ok_def find_None_iff by fastforce
    then have "ip_look T k = None" by (cases "ip_look T k") auto
    with None show ?thesis by simp
  next
    case (Some j)
    then have j: "j < ?n" "ipK sl j = Some k" by (auto simp: find_Some_iff)
    then obtain p where p: "ipp (sl ! j) = Some p" using ipK_None [of sl j] by (cases "ipp (sl ! j)") auto
    then have "ip_look T k = Some p" using ok j unfolding ip_look_Some [OF T(3)] ip_ok_def by blast
    with Some p show ?thesis by simp
  qed
  with q show ?thesis by simp
qed

definition ip_table_ok :: "'p kv_p list \<Rightarrow> bool" where
  "ip_table_ok T \<longleftrightarrow> T \<noteq> [] \<and> length T < 2 ^ 29 \<and> distinct (map kvp_id T) \<and> (\<forall>kv \<in> set T. kvp_pointer kv \<noteq> None)"

lemma ip_new_hash_rep:
  assumes "ip_table_ok T"
  shows "\<exists>g' mp. ip_new_hash T g = Some (g', mp) \<and> ip_rep mp T \<and> g' = g + 2"
proof -
  let ?sl0 = "replicate (length T) ip_free"
  have v0: "tab (length T) hm (ipN ?sl0) (ipK ?sl0)" for hm
    by (auto simp: tab_def linked_def ipN_def ipK_def ip_free_def)
  have "ip_ok ?sl0 0 []" using v0 by (auto simp: ip_ok_def ipK_def ip_free_def)
  from ip_build_ok [OF this, of T] assms obtain sl em where
    "ip_build T ?sl0 0 = Some sl" "length sl = length T" "ip_ok sl em T" by (auto simp: ip_table_ok_def)
  with assms show ?thesis
    by (auto simp: ip_new_hash_def ip_rep_def ip_table_ok_def hash_size_def pbcM_malloc_def)
qed

lemma ip_max_Some:
  "ip_max mx limit T = Some m \<Longrightarrow> mx \<le> limit \<Longrightarrow> mx \<le> m \<and> m \<le> limit \<and> (\<forall>kv \<in> set T. 0 \<le> kvp_id kv \<and> kvp_id kv \<le> m)"
  by (induction mx limit T rule: ip_max.induct) (auto split: if_splits)

lemma fill_array:
  assumes "\<forall>kv \<in> set T. 0 \<le> kvp_id kv \<and> kvp_id kv < int (length a)" and "distinct (map kvp_id T)"
  shows "length (foldl (\<lambda>a kv. a[nat (kvp_id kv) := kvp_pointer kv]) a T) = length a \<and>
    (\<forall>i < length a. foldl (\<lambda>a kv. a[nat (kvp_id kv) := kvp_pointer kv]) a T ! i =
       (case map_of (map (\<lambda>kv. (kvp_id kv, kvp_pointer kv)) T) (int i) of Some p \<Rightarrow> p | None \<Rightarrow> a ! i))"
  using assms
proof (induction T arbitrary: a)
  case (Cons kv T)
  have k: "0 \<le> kvp_id kv" "nat (kvp_id kv) < length a" using Cons.prems(1) by auto
  have none: "map_of (map (\<lambda>kv. (kvp_id kv, kvp_pointer kv)) T) (kvp_id kv) = None"
    using Cons.prems(2) by (force simp: map_of_eq_None_iff)
  let ?a = "a[nat (kvp_id kv) := kvp_pointer kv]"
  from Cons.IH [of ?a] Cons.prems show ?case
    using k none by (auto simp: nth_list_update split: option.split)
qed simp

lemma ip_new_rep:
  assumes ok: "ip_table_ok T"
  shows "\<exists>g' mp. pbcM_ip_new T g = Some (g', mp) \<and> ip_rep mp T \<and> g' = g + 2"
proof -
  obtain kv T' where T: "T = kv # T'" using ok by (cases T) (auto simp: ip_table_ok_def)
  let ?sz = "int (length T)" and ?mx = "kvp_id kv"
  show ?thesis
  proof (cases "?mx > ?sz * 2 \<or> ?mx < 0 \<or> ip_max ?mx (?sz * 2) T' = None")
    case True
    then have "pbcM_ip_new T g = ip_new_hash T g" by (auto simp: pbcM_ip_new_def T Let_def)
    with ip_new_hash_rep [OF ok] show ?thesis by simp
  next
    case False
    then obtain m where m: "ip_max ?mx (?sz * 2) T' = Some m" "?mx \<le> ?sz * 2" "0 \<le> ?mx" by auto
    note b = ip_max_Some [OF m(1,2)]
    let ?a = "replicate (nat (m + 1)) None" and ?f = "foldl (\<lambda>a kv. a[nat (kvp_id kv) := kvp_pointer kv])"
    have rng: "\<forall>kv \<in> set T. 0 \<le> kvp_id kv \<and> kvp_id kv < int (length ?a)" using b m by (auto simp: T)
    have d: "distinct (map kvp_id T)" and nn: "\<forall>kv \<in> set T. kvp_pointer kv \<noteq> None" using ok by (auto simp: ip_table_ok_def)
    note f = fill_array [OF rng d]
    have "(0 \<le> k \<and> k < int (length (?f ?a T)) \<and> ?f ?a T ! nat k = p) \<longleftrightarrow> \<lparr>kvp_id = k, kvp_pointer = p\<rparr> \<in> set T"
      if "p \<noteq> None" for k p
    proof -
      have "distinct (map fst (map (\<lambda>kv. (kvp_id kv, kvp_pointer kv)) T))" using d by (simp add: comp_def)
      then have mo: "map_of (map (\<lambda>kv. (kvp_id kv, kvp_pointer kv)) T) k = Some p \<longleftrightarrow> \<lparr>kvp_id = k, kvp_pointer = p\<rparr> \<in> set T" for k
        by (simp add: map_of_eq_Some_iff kvp_mem)
      have "?f ?a T ! nat k = p \<longleftrightarrow> \<lparr>kvp_id = k, kvp_pointer = p\<rparr> \<in> set T" if "0 \<le> k" "k < int (length ?a)"
      proof -
        have nk: "nat k < length ?a" "int (nat k) = k" using that by (auto split: if_splits)
        then have "?f ?a T ! nat k = (case map_of (map (\<lambda>kv. (kvp_id kv, kvp_pointer kv)) T) k of Some p \<Rightarrow> p | None \<Rightarrow> ?a ! nat k)"
          using mp [OF spec [OF conjunct2 [OF f], of "nat k"] nk(1)] by (simp only: nk(2))
        also have "\<dots> = (case map_of (map (\<lambda>kv. (kvp_id kv, kvp_pointer kv)) T) k of Some p \<Rightarrow> p | None \<Rightarrow> None)"
          using nk(1) by (simp split: option.split)
        finally show ?thesis using \<open>p \<noteq> None\<close> by (auto simp: mo [symmetric] split: option.split)
      qed
      moreover have "0 \<le> k \<and> k < int (length ?a)" if "\<lparr>kvp_id = k, kvp_pointer = p\<rparr> \<in> set T"
        using rng that by fastforce
      ultimately show ?thesis using f by auto
    qed
    moreover have "pbcM_ip_new T g = Some (g + 2, Array (length T) (?f ?a T))"
      using m by (simp add: pbcM_ip_new_def T Let_def pbcM_malloc_def)
    ultimately show ?thesis using ok by (auto simp: ip_rep_def ip_table_ok_def hash_size_def)
  qed
qed

subsection \<open>Combining two tables\<close>

lemma inject_rep:
  assumes "ip_rep mp T"
  shows "set (inject mp) = set T \<and> length (inject mp) = length T"
proof (cases mp)
  case (Array n a)
  have "kv \<in> set (inject mp) \<longleftrightarrow> kv \<in> set T" for kv
  proof -
    obtain k p where kv: "kv = \<lparr>kvp_id = k, kvp_pointer = p\<rparr>" by (cases kv)
    have "kv \<in> set (inject mp) \<longleftrightarrow> p \<noteq> None \<and> 0 \<le> k \<and> k < int (length a) \<and> a ! nat k = p"
      unfolding kv by (auto simp: inject_def Array image_iff intro!: exI [of _ "nat k"])
    also have "\<dots> \<longleftrightarrow> kv \<in> set T" using assms by (cases "p = None") (force simp: ip_rep_def Array kv)+
    finally show ?thesis .
  qed
  then have s: "set (inject mp) = set T" by blast
  have "distinct (inject mp)" by (auto simp: inject_def Array distinct_map inj_on_def)
  moreover have "distinct T" using assms by (auto simp: ip_rep_def distinct_map)
  ultimately show ?thesis using s distinct_card by metis
next
  case (Hash sl)
  with assms obtain em where ok: "ip_ok sl em T" and len: "length sl = length T"
    and nn: "\<forall>kv \<in> set T. kvp_pointer kv \<noteq> None" by (auto simp: ip_rep_def hash_size_def)
  have "kv \<in> set (inject mp) \<longleftrightarrow> kv \<in> set T" for kv
  proof -
    obtain k p where kv: "kv = \<lparr>kvp_id = k, kvp_pointer = p\<rparr>" by (cases kv)
    have "kv \<in> set (inject mp) \<longleftrightarrow> (\<exists>i < length sl. ipi (sl ! i) = k \<and> ipp (sl ! i) = p)"
      unfolding kv inject_def Hash map_ip.case in_set_conv_nth by auto
    also have "\<dots> \<longleftrightarrow> (\<exists>i < length sl. ipK sl i = Some k \<and> ipp (sl ! i) = p)"
      using ip_full [OF ok len] by (auto simp: ipK_def split: if_splits) (metis option.distinct(1))+
    also have "\<dots> \<longleftrightarrow> kv \<in> set T" using ok by (simp add: ip_ok_def kv)
    finally show ?thesis .
  qed
  then show ?thesis using len by (auto simp: inject_def Hash)
qed

lemma put_at_0: "length xs \<le> length t \<Longrightarrow> put_at t 0 xs = Some (xs @ drop (length xs) t)"
  by (simp add: put_at_def)

lemma combine_rep:
  assumes a: "ip_rep a Ta" and b: "ip_rep b Tb" and ok: "ip_table_ok (Ta @ Tb)"
  shows "\<exists>g' mp T. pbcM_ip_combine a b g = Some (g', mp) \<and> ip_rep mp T \<and> set T = set (Ta @ Tb) \<and> g' = g + 2"
proof -
  note ia = inject_rep [OF a] and ib = inject_rep [OF b]
  have sz: "hash_size a = length Ta" "hash_size b = length Tb" using a b by (auto simp: ip_rep_def)
  let ?t = "replicate (hash_size a + hash_size b) \<lparr>kvp_id = 0, kvp_pointer = None\<rparr>"
  have p1: "put_at ?t 0 (inject a) = Some (inject a @ replicate (hash_size b) \<lparr>kvp_id = 0, kvp_pointer = None\<rparr>)"
    using ia sz by (simp add: put_at_0)
  have p2: "put_at (inject a @ replicate (hash_size b) \<lparr>kvp_id = 0, kvp_pointer = None\<rparr>) (hash_size a) (inject b)
      = Some (inject a @ inject b)" using ia ib sz by (simp add: put_at_def)
  let ?T = "inject a @ inject b"
  have st: "set ?T = set (Ta @ Tb)" and lt: "length ?T = length (Ta @ Tb)" using ia ib by auto
  have dab: "distinct (map kvp_id (Ta @ Tb))" and nn: "\<forall>kv \<in> set (Ta @ Tb). kvp_pointer kv \<noteq> None"
    using ok by (auto simp: ip_table_ok_def)
  have "set (map kvp_id ?T) = set (map kvp_id (Ta @ Tb))" by (simp only: set_map st)
  moreover have "card (set (map kvp_id (Ta @ Tb))) = length (map kvp_id (Ta @ Tb))" using dab by (rule distinct_card)
  ultimately have "card (set (map kvp_id ?T)) = length (map kvp_id ?T)" using lt by (simp only: length_map)
  then have "distinct (map kvp_id ?T)" by (rule card_distinct)
  moreover have "?T \<noteq> []" using ok lt by (metis ip_table_ok_def length_0_conv)
  moreover have "length ?T < 2 ^ 29" using ok lt by (simp only: ip_table_ok_def)
  moreover have "\<forall>kv \<in> set ?T. kvp_pointer kv \<noteq> None" using nn by (simp only: st)
  ultimately have "ip_table_ok ?T" unfolding ip_table_ok_def by blast
  from ip_new_rep [OF this, of "pbcM_malloc g"] obtain g' mp where
    "pbcM_ip_new ?T (pbcM_malloc g) = Some (g', mp)" "ip_rep mp ?T" "g' = pbcM_malloc g + 2" by blast
  moreover from this p1 p2 have "pbcM_ip_combine a b g = Some (g + 2, mp)"
    by (simp add: pbcM_ip_combine_def Let_def pbcM_malloc_def pbcM_free_def)
  ultimately show ?thesis using st by blast
qed

lemma ip_look_set: "distinct (map kvp_id T) \<Longrightarrow> distinct (map kvp_id T') \<Longrightarrow> set T = set T' \<Longrightarrow> ip_look T k = ip_look T' k"
  by (metis ip_look_Some option.exhaust)

text \<open>
  C27: a number table, in either of its two forms, returns for every number the pointer it was
  built with, and NULL for any other; combining the tables of two sets of numbers gives one that
  answers for both.\<close>

theorem ip_combine_query:
  assumes "ip_table_ok Ta" and "ip_table_ok Tb" and "ip_table_ok (Ta @ Tb)"
  shows "\<exists>g1 a g2 b g3 c. pbcM_ip_new Ta g = Some (g1, a) \<and> pbcM_ip_new Tb g1 = Some (g2, b)
    \<and> pbcM_ip_combine a b g2 = Some (g3, c)
    \<and> pbcM_ip_query (Some a) k = Some (ip_look Ta k) \<and> pbcM_ip_query (Some b) k = Some (ip_look Tb k)
    \<and> pbcM_ip_query (Some c) k = Some (ip_look (Ta @ Tb) k)
    \<and> pbcM_ip_delete (Some a) (pbcM_ip_delete (Some b) (pbcM_ip_delete (Some c) g3)) = g"
proof -
  obtain g1 a where a: "pbcM_ip_new Ta g = Some (g1, a)" "ip_rep a Ta" "g1 = g + 2" using ip_new_rep [OF assms(1)] by blast
  obtain g2 b where b: "pbcM_ip_new Tb g1 = Some (g2, b)" "ip_rep b Tb" "g2 = g1 + 2" using ip_new_rep [OF assms(2)] by blast
  obtain g3 c T where c: "pbcM_ip_combine a b g2 = Some (g3, c)" "ip_rep c T" "set T = set (Ta @ Tb)" "g3 = g2 + 2"
    using combine_rep [OF a(2) b(2) assms(3)] by blast
  have "ip_look T k = ip_look (Ta @ Tb) k"
    by (rule ip_look_set) (use c(2,3) assms(3) in \<open>auto simp: ip_rep_def ip_table_ok_def\<close>)
  moreover have "pbcM_ip_delete (Some mp) n = n - 2" for mp :: "'a map_ip" and n
    by (cases mp) (simp_all add: pbcM_ip_delete_def pbcM_free_def)
  then have "pbcM_ip_delete (Some a) (pbcM_ip_delete (Some b) (pbcM_ip_delete (Some c) g3)) = g" using a b c by simp
  moreover note ip_query_rep [OF a(2), of k] ip_query_rep [OF b(2), of k] ip_query_rep [OF c(2), of k]
  ultimately show ?thesis using a(1) b(1) c(1) by auto
qed

lemma ip_combine_query_witness:
  "\<exists>g1 a g2 b g3 c. pbcM_ip_new [\<lparr>kvp_id = 1, kvp_pointer = Some 10\<rparr>, \<lparr>kvp_id = 2, kvp_pointer = Some 20\<rparr>] 0 = Some (g1, a)
    \<and> pbcM_ip_new [\<lparr>kvp_id = 900, kvp_pointer = Some (30 :: nat)\<rparr>] g1 = Some (g2, b)
    \<and> pbcM_ip_combine a b g2 = Some (g3, c)
    \<and> pbcM_ip_query (Some a) 900 = Some (ip_look [\<lparr>kvp_id = 1, kvp_pointer = Some 10\<rparr>, \<lparr>kvp_id = 2, kvp_pointer = Some 20\<rparr>] 900)
    \<and> pbcM_ip_query (Some b) 900 = Some (ip_look [\<lparr>kvp_id = 900, kvp_pointer = Some 30\<rparr>] 900)
    \<and> pbcM_ip_query (Some c) 900 = Some (ip_look ([\<lparr>kvp_id = 1, kvp_pointer = Some 10\<rparr>, \<lparr>kvp_id = 2, kvp_pointer = Some 20\<rparr>] @
         [\<lparr>kvp_id = 900, kvp_pointer = Some 30\<rparr>]) 900)
    \<and> pbcM_ip_delete (Some a) (pbcM_ip_delete (Some b) (pbcM_ip_delete (Some c) g3)) = 0"
  by (rule ip_combine_query) (simp_all add: ip_table_ok_def)

end
