(* ===== verification/Varint.thy ===== *)
theory Varint
  imports Prelude
begin

section \<open>Base-128 varints and zig-zag integers (pbc/src/varint.c)\<close>

text \<open>
  The encoders return the bytes they write to their ten-byte buffer, whose number is the C
  return value; the decoder returns the number of bytes it consumes and the two halves of the
  result, and is \<open>None\<close> when it reads behind the end of the bytes it is given. After the
  operations come the abstract encoding \<open>leb\<close>, what the decoder computes on any bytes, and the
  round trips, stated once for every pair of an encoder and a decoder in the locale \<open>codec\<close>.
\<close>

record longlong =
  ll_low :: u32
  ll_hi :: u32

definition ll_of :: "u64 \<Rightarrow> longlong" where
  "ll_of n = \<lparr>ll_low = ucast n, ll_hi = ucast (drop_bit 32 n)\<rparr>"

definition u64_of_ll :: "u32 \<Rightarrow> u32 \<Rightarrow> u64" where
  "u64_of_ll lo h = ucast lo OR push_bit 32 (ucast h)"

definition pbcV_encode32 :: "u32 \<Rightarrow> byte list" where
  "pbcV_encode32 number =
     (if number < 0x80 then [ucast number]
      else if number < 0x4000 then
        [ucast (number OR 0x80), ucast (drop_bit 7 number)]
      else if number < 0x200000 then
        [ucast (number OR 0x80), ucast (drop_bit 7 number OR 0x80), ucast (drop_bit 14 number)]
      else if number < 0x10000000 then
        [ucast (number OR 0x80), ucast (drop_bit 7 number OR 0x80),
         ucast (drop_bit 14 number OR 0x80), ucast (drop_bit 21 number)]
      else
        [ucast (number OR 0x80), ucast (drop_bit 7 number OR 0x80),
         ucast (drop_bit 14 number OR 0x80), ucast (drop_bit 21 number OR 0x80),
         ucast (drop_bit 28 number)])"

function pbcV_encode_loop :: "u64 \<Rightarrow> byte list" where
  "pbcV_encode_loop number =
     ucast (number OR 0x80) #
     (let number' = drop_bit 7 number
      in if number' \<ge> 0x80 then pbcV_encode_loop number' else [ucast number'])"
  by pat_completeness auto
termination
proof (relation "measure unat")
  fix n n' :: u64
  assume "n' = drop_bit 7 n" and "0x80 \<le> n'"
  then have "unat n' = drop_bit 7 (unat n)" "128 \<le> unat n'"
    by (simp only: unat_drop_bit_eq, simp only: word_le_nat_alt) simp
  then show "(n', n) \<in> measure unat" by (simp add: drop_bit_eq_div)
qed simp

declare pbcV_encode_loop.simps [simp del]

definition pbcV_encode :: "u64 \<Rightarrow> byte list" where
  "pbcV_encode number =
     (if number AND 0xffffffff = number then pbcV_encode32 (ucast number)
      else pbcV_encode_loop number)"

function pbcV_decode_hi :: "byte list \<Rightarrow> nat \<Rightarrow> u64 \<Rightarrow> u32 \<Rightarrow> (nat \<times> longlong) option" where
  "pbcV_decode_hi buffer i lr r =
     (if i < 10 then do {
        b \<leftarrow> rd buffer i;
        let lr' = lr OR push_bit (7 * (i - 4)) (ucast (b AND 0x7f));
        if b AND 0x80 = 0 then
          Some (i + 1, \<lparr>ll_low = r OR push_bit 28 (ucast lr' AND 0xf),
                        ll_hi = ucast (drop_bit 4 lr')\<rparr>)
        else pbcV_decode_hi buffer (i + 1) lr' r }
      else Some (10, \<lparr>ll_low = 0, ll_hi = 0\<rparr>))"
  by pat_completeness auto
termination
  by (relation "measure (\<lambda>(b, i, lr, r). 10 - i)") auto

declare pbcV_decode_hi.simps [simp del]

function pbcV_decode_low :: "byte list \<Rightarrow> nat \<Rightarrow> u32 \<Rightarrow> (nat \<times> longlong) option" where
  "pbcV_decode_low buffer i r =
     (if i < 4 then do {
        b \<leftarrow> rd buffer i;
        let r' = r OR push_bit (7 * i) (ucast (b AND 0x7f));
        if b AND 0x80 = 0 then Some (i + 1, \<lparr>ll_low = r', ll_hi = 0\<rparr>)
        else pbcV_decode_low buffer (i + 1) r' }
      else pbcV_decode_hi buffer 4 0 r)"
  by pat_completeness auto
termination
  by (relation "measure (\<lambda>(b, i, r). 4 - i)") auto

declare pbcV_decode_low.simps [simp del]

definition pbcV_decode :: "byte list \<Rightarrow> (nat \<times> longlong) option" where
  "pbcV_decode buffer = do {
     b \<leftarrow> rd buffer 0;
     if b AND 0x80 = 0 then Some (1, \<lparr>ll_low = ucast b, ll_hi = 0\<rparr>)
     else pbcV_decode_low buffer 1 (ucast (b AND 0x7f)) }"

definition pbcV_zigzag32 :: "u32 \<Rightarrow> byte list" where
  "pbcV_zigzag32 n = pbcV_encode32 (push_bit 1 n XOR signed_drop_bit 31 n)"

definition pbcV_zigzag :: "u64 \<Rightarrow> byte list" where
  "pbcV_zigzag n = pbcV_encode (push_bit 1 n XOR signed_drop_bit 63 n)"

definition pbcV_dezigzag64 :: "longlong \<Rightarrow> longlong" where
  "pbcV_dezigzag64 r =
     \<lparr>ll_low = (drop_bit 1 (ll_low r) OR push_bit 31 (ll_hi r AND 1)) XOR - (ll_low r AND 1),
      ll_hi = drop_bit 1 (ll_hi r) XOR - (ll_low r AND 1)\<rparr>"

definition pbcV_dezigzag32 :: "longlong \<Rightarrow> longlong" where
  "pbcV_dezigzag32 r =
     \<lparr>ll_low = drop_bit 1 (ll_low r) XOR - (ll_low r AND 1),
      ll_hi = - drop_bit 31 (ll_low r)\<rparr>"

subsection \<open>The abstract encoding: little-endian base 128 over the naturals\<close>

definition cbyte :: "nat \<Rightarrow> byte" where "cbyte n = of_nat (n mod 128 + 128)"
lemma unat_cbyte: "unat (cbyte n) = n mod 128 + 128" 
proof -
  have "n mod 128 < 128" by simp
  then have "n mod 128 + 128 < 256" by linarith
  then show ?thesis
  by (simp add: cbyte_def unat_of_nat take_bit_eq_mod unsigned_of_nat del: of_nat_add) 
qed
lemma byte_cont: "8 \<le> LENGTH('a) \<Longrightarrow> (ucast (n OR 0x80) :: byte) = cbyte (unat n)" for n :: "'a::len word"
proof -
  assume 8: "8 \<le> LENGTH('a)"
  have *: "unat n mod 128 + 128 = take_bit 7 (unat n) OR push_bit 7 1"
    using or_push_nat[of "take_bit 7 (unat n)" 7 1] by (simp add: take_bit_eq_mod push_bit_eq_mult)
  show ?thesis unfolding * cbyte_def using 8
   by (intro bit_word_eqI) (auto simp: bit_simps bit_0x80)
qed


fun leb :: "nat \<Rightarrow> byte list" where
  "leb n = (if n < 128 then [of_nat n] else cbyte n # leb (n div 128))"
declare leb.simps [simp del]
lemma leb_small: "n < 128 \<Longrightarrow> leb n = [of_nat n]" by (simp add: leb.simps)
lemma leb_big: "128 \<le> n \<Longrightarrow> leb n = cbyte n # leb (n div 128)" by (simp add: leb.simps)

lemma leb2: "128 \<le> n \<Longrightarrow> n < 0x4000 \<Longrightarrow> leb n = [cbyte n, of_nat (n div 128)]"
  by (simp add: leb_big leb_small)
lemma leb3:
  assumes "0x4000 \<le> n" and "n < 0x200000"
  shows "leb n = [cbyte n, cbyte (n div 128), of_nat (n div 0x4000)]"
proof -
  have "128 \<le> n" "128 \<le> n div 128" "n div 128 < 0x4000" using assms by auto
  from leb_big [OF this(1)] leb2 [OF this(2,3)] show ?thesis by (simp add: div_mult2_eq [symmetric])
qed
lemma leb4:
  assumes "0x200000 \<le> n" and "n < 0x10000000"
  shows "leb n = [cbyte n, cbyte (n div 128), cbyte (n div 0x4000), of_nat (n div 0x200000)]"
proof -
  have "128 \<le> n" "0x4000 \<le> n div 128" "n div 128 < 0x200000" using assms by auto
  from leb_big [OF this(1)] leb3 [OF this(2,3)] show ?thesis by (simp add: div_mult2_eq [symmetric])
qed
lemma leb5:
  assumes "0x10000000 \<le> n" and "n < 0x800000000"
  shows "leb n = [cbyte n, cbyte (n div 128), cbyte (n div 0x4000), cbyte (n div 0x200000), of_nat (n div 0x10000000)]"
proof -
  have "128 \<le> n" "0x200000 \<le> n div 128" "n div 128 < 0x10000000" using assms by auto
  from leb_big [OF this(1)] leb4 [OF this(2,3)] show ?thesis by (simp add: div_mult2_eq [symmetric])
qed
lemma encode32_leb: "pbcV_encode32 n = leb (unat n)"
proof -
  have u: "unat n < 2^32" using unsigned_less[of n] by simp
  show ?thesis
    unfolding pbcV_encode32_def word_less_nat_alt 
    using u by (simp add: leb_small leb2 leb3 leb4 leb5 byte_cont byte_drop unat_drop)
qed
lemma loop_leb: "0x80 \<le> n \<Longrightarrow> pbcV_encode_loop n = leb (unat n)"
proof (induction n rule: pbcV_encode_loop.induct)
  case (1 n)
  have n: "128 \<le> unat n" using 1 by (simp add: word_le_nat_alt)
  have u: "unat (drop_bit 7 n) = unat n div 128" by (simp only: unat_drop) simp
  show ?case
  proof (cases "0x80 \<le> drop_bit 7 n")
    case True
    with 1 show ?thesis 
      by (subst pbcV_encode_loop.simps) (simp add: leb_big[OF n] byte_cont  u)
  next
    case False
    then have "unat n div 128 < 128" using u by (simp add: word_le_nat_alt not_le)
    with False show ?thesis 
      by (subst pbcV_encode_loop.simps) (simp add: leb_big[OF n] leb_small byte_cont byte_drop u)
  qed
qed
lemma encode_leb: "pbcV_encode n = leb (unat n)"
proof (cases "n AND 0xffffffff = n")
  case True
  then have "take_bit 32 n = n" by (simp add: take_bit_eq_mask mask_eq_exp_minus_1)
  then have "unat n < 2^32" by (metis take_bit_nat_less_exp unsigned_take_bit_eq)
  then have "unat (ucast n :: u32) = unat n" by (simp add: unsigned_ucast_eq take_bit_nat_eq_self)
  with True show ?thesis by (simp add: pbcV_encode_def encode32_leb)
next
  case False
  have "0x80 \<le> n"
  proof (rule ccontr)
    assume "\<not> 0x80 \<le> n"
    then have "unat n < 128" by (simp add: word_le_nat_alt)
    then have "take_bit 32 n = n" by (intro word_unat_eq_iff [THEN iffD2]) (simp add: unsigned_take_bit_eq take_bit_nat_eq_self)
    with False show False by (simp add: take_bit_eq_mask mask_eq_exp_minus_1)
  qed
  with False show ?thesis by (simp add: pbcV_encode_def loop_leb)
qed

lemma ll_of_nat: "ll_of (of_nat v) = \<lparr>ll_low = of_nat v, ll_hi = of_nat (v div 2 ^ 32)\<rparr>"
proof -
  have u: "unat (of_nat v :: u64) = v mod 2 ^ 64" by (simp add: unsigned_of_nat take_bit_eq_mod)
  have "(v mod 2 ^ 64) mod 2 ^ 32 = v mod (2 ^ 32 :: nat)" by (simp add: mod_mod_cancel)
  then have lo: "ucast (of_nat v :: u64) = (of_nat v :: u32)"
    by (metis of_nat_unat u unat_of_nat_u32 word_unat_eq_iff)
  have "v mod (2 ^ 32 * 2 ^ 32) div 2 ^ 32 = v div 2 ^ 32 mod 2 ^ 32" for v :: nat
    by (subst mod_mult2_eq) simp
  from this [of v] have "(v mod 2 ^ 64 div 2 ^ 32) mod 2 ^ 32 = v div 2 ^ 32 mod (2 ^ 32 :: nat)" by simp
  then have "(of_nat (v mod 2 ^ 64 div 2 ^ 32) :: u32) = of_nat (v div 2 ^ 32)"
    by (simp only: word_unat_eq_iff unat_of_nat_u32)
  with lo show ?thesis by (simp only: ll_of_def ucast_drop u)
qed

lemma dec_pair:
  fixes r :: u32 and lr :: u64
  assumes r: "unat r < 2 ^ 28"
  shows "\<lparr>ll_low = r OR push_bit 28 (ucast lr AND 0xf), ll_hi = ucast (drop_bit 4 lr)\<rparr>
     = ll_of (of_nat (unat r + 2 ^ 28 * unat lr))"
proof -
  let ?v = "unat r + 2 ^ 28 * unat lr"
  have and15: "unat ((ucast lr :: u32) AND 0xf) = unat lr mod 16"
  proof -
    have "(ucast lr :: u32) AND 0xf = take_bit 4 (ucast lr)" by (simp add: take_bit_eq_mask mask_eq_exp_minus_1)
    then have "unat ((ucast lr :: u32) AND 0xf) = take_bit 4 (unat (ucast lr :: u32))" by (simp only: unsigned_take_bit_eq)
    then show ?thesis by (simp add: unsigned_ucast_eq take_bit_eq_mod mod_mod_cancel)
  qed
  have lo: "unat (r OR push_bit 28 (ucast lr AND 0xf)) = unat r + 2 ^ 28 * (unat lr mod 16)"
    using r by (subst unat_or_push_bit) (auto simp: and15 intro: le_less_trans [of _ "2 ^ 28 * 15"])
  have "?v mod 2 ^ 32 = (unat r + 2 ^ 28 * (unat lr mod 16)) mod 2 ^ 32"
  proof -
    have "?v = unat r + 2 ^ 28 * (unat lr mod 16) + 2 ^ 32 * (unat lr div 16)"
    proof -
      have "2 ^ 28 * (16 * q + t) = 2 ^ 28 * t + 2 ^ 32 * q" for q t :: nat by simp
      from this [of "unat lr div 16" "unat lr mod 16"] show ?thesis by simp
    qed
    then have "?v mod 2 ^ 32 = (unat r + 2 ^ 28 * (unat lr mod 16) + 2 ^ 32 * (unat lr div 16)) mod 2 ^ 32"
      by (simp only:)
    then show ?thesis by (simp only: mod_mult_self2)
  qed
  also have "\<dots> = unat r + 2 ^ 28 * (unat lr mod 16)"
    using r by simp 
  finally have lo2: "r OR push_bit 28 (ucast lr AND 0xf) = of_nat ?v"
    using lo by (intro word_unat_eq_iff [THEN iffD2]) (simp only: unat_of_nat_u32)
  have "?v div 2 ^ 32 = unat lr div 16" using r by simp
  then have hi: "ucast (drop_bit 4 lr) = (of_nat (?v div 2 ^ 32) :: u32)"
    by (simp only: ucast_drop) simp
  show ?thesis by (simp only: ll_of_nat lo2 hi)
qed

subsection \<open>What the decoder computes on any bytes\<close>

text \<open>
  A varint is a run of bytes in which exactly the last has its top bit clear; its value is the
  sum of the low seven bits of each, little end first. Encodings need not be the shortest.
\<close>

fun vwf :: "byte list \<Rightarrow> bool" where
  "vwf [] = False"
| "vwf (b # bs) = (if b AND 0x80 = 0 then bs = [] else vwf bs)"

fun leval :: "byte list \<Rightarrow> nat" where
  "leval [] = 0"
| "leval (b # bs) = unat b mod 128 + 128 * leval bs"

lemma vwf_leb: "vwf (leb n)"
  by (induction n rule: leb.induct)
    (subst leb.simps, auto simp: byte_msb unat_cbyte unsigned_of_nat take_bit_eq_mod)

lemma leval_leb: "leval (leb n) = n"
  by (induction n rule: leb.induct)
    (subst leb.simps, auto simp: unat_cbyte unsigned_of_nat take_bit_eq_mod)

lemma rd_drop: "drop i buf = b # bs \<Longrightarrow> rd buf i = Some b \<and> drop (i + 1) buf = bs"
  by (metis drop_all hd_drop_conv_nth list.distinct(1) list.sel(1) not_le rd_def Suc_eq_plus1 drop_Suc list.sel(3) tl_drop)

lemma shift_step: "a + 2 ^ k * (c + 128 * v) = a + 2 ^ k * c + 2 ^ (k + 7) * (v :: nat)"
  by (simp add: power_add distrib_left)

lemma shift_bound: "a < 2 ^ k \<Longrightarrow> a + 2 ^ k * (c mod 128) < (2 :: nat) ^ (k + 7)"
proof -
  assume a: "a < 2 ^ k"
  have "2 ^ k * (c mod 128) \<le> 2 ^ k * (127 :: nat)" by (intro mult_le_mono2) simp
  from add_less_le_mono [OF a this] show ?thesis by (simp add: power_add)
qed

lemma or_septet:
  fixes b :: byte and x :: "'a::len word"
  assumes "unat x < 2 ^ k" and "k + 7 \<le> LENGTH('a)" and "8 \<le> LENGTH('a)"
  shows "unat (x OR push_bit k (ucast (b AND 0x7f))) = unat x + 2 ^ k * (unat b mod 128)"
proof -
  have "2 ^ k * (unat b mod 128) < 2 ^ (k + 7)" using shift_bound [of 0 k "unat b"] by simp
  also have "(2 :: nat) ^ (k + 7) \<le> 2 ^ LENGTH('a)" using assms(2) by (intro power_increasing) auto
  finally show ?thesis using assms(1,3) by (subst unat_or_push_bit) (simp_all add: unat_ucast_7f)
qed

lemma decode_hi_spec:
  assumes "4 \<le> i" and "drop i buf = bs @ rest" and "vwf bs" and "i + length bs \<le> 10"
    and "unat lr < 2 ^ (7 * (i - 4))" and r: "unat r < 2 ^ 28"
  shows "pbcV_decode_hi buf i lr r =
     Some (i + length bs, ll_of (of_nat (unat r + 2 ^ 28 * (unat lr + 2 ^ (7 * (i - 4)) * leval bs))))"
  using assms(1-5)
proof (induction bs arbitrary: i lr)
  case (Cons b bs)
  let ?k = "7 * (i - 4)"
  define lr' where "lr' = lr OR push_bit ?k (ucast (b AND 0x7f))"
  have i: "i < 10" "?k + 7 = 7 * (i + 1 - 4)" using Cons.prems(1,4) by auto
  have rdb: "rd buf i = Some b" and dr: "drop (i + 1) buf = bs @ rest"
    using rd_drop [of i buf b "bs @ rest"] Cons.prems(2) by simp_all
  have u: "unat lr' = unat lr + 2 ^ ?k * (unat b mod 128)"
    unfolding lr'_def using Cons.prems(5) i(1) by (intro or_septet) auto
  show ?case
  proof (cases "b AND 0x80 = 0")
    case True
    with Cons.prems(3) have bs: "bs = []" by simp
    show ?thesis using i(1) True dec_pair [OF r, of lr']
      by (subst pbcV_decode_hi.simps) (simp add: rdb bs u flip: lr'_def)
  next
    case False
    have lt: "unat lr' < 2 ^ (7 * (i + 1 - 4))"
      unfolding u i(2) [symmetric] using Cons.prems(5) by (rule shift_bound)
    have "pbcV_decode_hi buf i lr r = pbcV_decode_hi buf (i + 1) lr' r"
      using i(1) False by (subst pbcV_decode_hi.simps) (simp add: rdb flip: lr'_def)
    also have "\<dots> = Some (i + 1 + length bs,
        ll_of (of_nat (unat r + 2 ^ 28 * (unat lr' + 2 ^ (7 * (i + 1 - 4)) * leval bs))))"
      using Cons.IH [OF _ dr _ _ lt] Cons.prems(1,3,4) False by simp
    also have "unat lr' + 2 ^ (7 * (i + 1 - 4)) * leval bs = unat lr + 2 ^ ?k * leval (b # bs)"
      by (simp only: u leval.simps shift_step i(2))
    finally show ?thesis by (simp del: of_nat_add of_nat_mult leval.simps)
  qed
qed simp

lemma decode_low_spec:
  assumes "1 \<le> i" "i \<le> 4" and "drop i buf = bs @ rest" and "vwf bs" and "i + length bs \<le> 10"
    and "unat r < 2 ^ (7 * i)"
  shows "pbcV_decode_low buf i r = Some (i + length bs, ll_of (of_nat (unat r + 2 ^ (7 * i) * leval bs)))"
  using assms
proof (induction bs arbitrary: i r)
  case (Cons b bs)
  show ?case
  proof (cases "i = 4")
    case True
    then show ?thesis using decode_hi_spec [of 4 buf "b # bs" rest 0 r] Cons.prems
      by (subst pbcV_decode_low.simps) simp
  next
    case False
    with Cons.prems have i: "i < 4" "7 * i + 7 = 7 * (i + 1)" by auto
    define r' where "r' = r OR push_bit (7 * i) (ucast (b AND 0x7f))"
    have rdb: "rd buf i = Some b" and dr: "drop (i + 1) buf = bs @ rest"
      using rd_drop [of i buf b "bs @ rest"] Cons.prems(3) by simp_all
    have u: "unat r' = unat r + 2 ^ (7 * i) * (unat b mod 128)"
      unfolding r'_def using Cons.prems(6) i(1) by (intro or_septet) auto
    have lt: "unat r' < 2 ^ (7 * (i + 1))"
      unfolding u i(2) [symmetric] using Cons.prems(6) by (rule shift_bound)
    show ?thesis
    proof (cases "b AND 0x80 = 0")
      case True
      with Cons.prems(4) have bs: "bs = []" by simp
      have "7 * (i + 1) \<le> 28" using i by simp
      then have "(2::nat) ^ (7 * (i + 1)) \<le> 2 ^ 28" by (intro power_increasing) auto
      with lt have r28: "unat r' < 2 ^ 28" by linarith
      have "ll_of (of_nat (unat r')) = \<lparr>ll_low = r', ll_hi = 0\<rparr>"
        using r28 by (subst ll_of_nat) simp_all
      then have "ll_of (of_nat (unat r + 2 ^ (7 * i) * (unat b mod 128))) = \<lparr>ll_low = r', ll_hi = 0\<rparr>"
        by (simp only: u)
      then show ?thesis using i(1) True
        by (subst pbcV_decode_low.simps) (simp add: rdb bs del: of_nat_add of_nat_mult flip: r'_def)
    next
      case False
      have "pbcV_decode_low buf i r = pbcV_decode_low buf (i + 1) r'"
        using i(1) False by (subst pbcV_decode_low.simps) (simp add: rdb flip: r'_def)
      also have "\<dots> = Some (i + 1 + length bs, ll_of (of_nat (unat r' + 2 ^ (7 * (i + 1)) * leval bs)))"
        using Cons.IH [OF _ _ dr _ _ lt] Cons.prems(4,5) i(1) False by simp
      also have "unat r' + 2 ^ (7 * (i + 1)) * leval bs = unat r + 2 ^ (7 * i) * leval (b # bs)"
        by (simp only: u leval.simps shift_step i(2))
      finally show ?thesis by (simp del: of_nat_add of_nat_mult leval.simps)
    qed
  qed
qed simp

lemma decode_spec:
  assumes "vwf bs" and "length bs \<le> 10"
  shows "pbcV_decode (bs @ rest) = Some (length bs, ll_of (of_nat (leval bs)))"
proof (cases bs)
  case Nil
  with assms show ?thesis by simp
next
  case (Cons b bs')
  have u: "unat (ucast (b AND 0x7f) :: u32) = unat b mod 128" by (simp add: unat_ucast_7f)
  show ?thesis
  proof (cases "b AND 0x80 = 0")
    case True
    with assms Cons have bs: "bs = [b]" by simp
    have "unat b < 128" using True by (simp add: byte_msb)
    then have "ll_of (of_nat (unat b mod 128)) = \<lparr>ll_low = ucast b, ll_hi = 0\<rparr>"
      by (subst ll_of_nat) (simp)
    then show ?thesis using True by (simp add: pbcV_decode_def bs)
  next
    case False
    then show ?thesis using decode_low_spec [of 1 "bs @ rest" bs' rest "ucast (b AND 0x7f)"] assms Cons
      by (simp add: pbcV_decode_def u)
  qed
qed

lemma decode_hi_long:
  assumes "4 \<le> i" and "drop i buf = bs @ rest" and "\<forall>b \<in> set bs. b AND 0x80 \<noteq> 0" and "i + length bs = 10"
  shows "pbcV_decode_hi buf i lr r = Some (10, \<lparr>ll_low = 0, ll_hi = 0\<rparr>)"
  using assms
proof (induction bs arbitrary: i lr)
  case Nil
  then show ?case by (subst pbcV_decode_hi.simps) simp
next
  case (Cons b bs)
  then show ?case using rd_drop [of i buf b "bs @ rest"]
    by (subst pbcV_decode_hi.simps) simp
qed

lemma decode_low_long:
  assumes "1 \<le> i" "i \<le> 4" and "drop i buf = bs @ rest" and "\<forall>b \<in> set bs. b AND 0x80 \<noteq> 0" and "i + length bs = 10"
  shows "pbcV_decode_low buf i r = Some (10, \<lparr>ll_low = 0, ll_hi = 0\<rparr>)"
  using assms
proof (induction bs arbitrary: i r)
  case (Cons b bs)
  then show ?case using rd_drop [of i buf b "bs @ rest"] decode_hi_long [of 4 buf "b # bs" rest]
    by (subst pbcV_decode_low.simps) (cases "i = 4"; simp)
qed simp

lemma decode_long:
  assumes "\<forall>b \<in> set bs. b AND 0x80 \<noteq> 0" and "length bs = 10"
  shows "pbcV_decode (bs @ rest) = Some (10, \<lparr>ll_low = 0, ll_hi = 0\<rparr>)"
proof (cases bs)
  case (Cons b bs')
  then show ?thesis using assms decode_low_long [of 1 "bs @ rest" bs' rest]
    by (simp add: pbcV_decode_def)
qed (use assms in simp)

lemma varint_cases:
  obtains (ends) bs rest where "buf = bs @ rest" "vwf bs" "length bs \<le> n"
    | (overlong) bs rest where "buf = bs @ rest" "length bs = n" "\<forall>b \<in> set bs. b AND 0x80 \<noteq> 0"
    | (cut) "length buf < n" "\<forall>b \<in> set buf. b AND 0x80 \<noteq> 0"
proof (induction n arbitrary: buf thesis)
  case 0
  show ?case by (rule 0(2) [of "[]" buf]) simp_all
next
  case (Suc n)
  show ?case
  proof (cases buf)
    case Nil
    then show ?thesis using Suc.prems(3) by simp
  next
    case (Cons b buf')
    show ?thesis
    proof (cases "b AND 0x80 = 0")
      case True
      then show ?thesis using Suc.prems(1) [of "[b]" buf'] Cons by simp
    next
      case False
      show ?thesis
      proof (rule Suc.IH [of buf'])
        fix bs rest assume "buf' = bs @ rest" "vwf bs" "length bs \<le> n"
        then show thesis using Suc.prems(1) [of "b # bs" rest] Cons False by simp
      next
        fix bs rest assume "buf' = bs @ rest" "length bs = n" "\<forall>b \<in> set bs. b AND 0x80 \<noteq> 0"
        then show thesis using Suc.prems(2) [of "b # bs" rest] Cons False by simp
      next
        assume "length buf' < n" "\<forall>b \<in> set buf'. b AND 0x80 \<noteq> 0"
        then show thesis using Suc.prems(3) Cons False by simp
      qed
    qed
  qed
qed

lemma decode_leb:
  assumes "length (leb n) \<le> 10"
  shows "pbcV_decode (leb n @ rest) = Some (length (leb n), ll_of (of_nat n))"
  using decode_spec [OF vwf_leb assms] by (simp add: leval_leb)

lemma length_leb_mono: "length (leb n) \<le> k" if "n < 2 ^ (7 * k)" "0 < k"
  using that
proof (induction k arbitrary: n)
  case (Suc k)
  show ?case
  proof (cases "n < 128")
    case False
    then have "0 < k" using Suc.prems by (cases k) auto
    moreover have "n div 128 < 2 ^ (7 * k)" using Suc.prems(1)
      by (simp add: power_add less_mult_imp_div_less mult.commute)
    ultimately show ?thesis using Suc.IH [of "n div 128"] False by (subst leb.simps) simp
  qed (simp add: leb_small)
qed simp

lemma decode_encode: "pbcV_decode (pbcV_encode n @ rest) = Some (length (pbcV_encode n), ll_of n)"
proof -
  have "unat n < 2 ^ 64" using unsigned_less [of n] by simp
  moreover have "length (leb (unat n)) \<le> 10" 
    using calculation by (intro length_leb_mono) (auto intro: less_trans)
  ultimately show ?thesis using decode_leb [of "unat n" rest] by (simp add: encode_leb)
qed

lemma decode_encode32: "pbcV_decode (pbcV_encode32 n @ rest) = Some (length (pbcV_encode32 n), \<lparr>ll_low = n, ll_hi = 0\<rparr>)"
proof -
  have "unat n < 2 ^ 32" using unsigned_less [of n] by simp
  then have "length (leb (unat n)) \<le> 5" by (intro length_leb_mono) (auto intro: less_trans)
  moreover have "ll_of (of_nat (unat n)) = \<lparr>ll_low = n, ll_hi = 0\<rparr>"
    using \<open>unat n < 2 ^ 32\<close> by (subst ll_of_nat) simp_all
  ultimately show ?thesis using decode_leb [of "unat n" rest] by (simp add: encode32_leb del: of_nat_unat)
qed

lemma bit_zz: "bit (push_bit 1 n XOR signed_drop_bit (LENGTH('a) - 1) n) i \<longleftrightarrow>
    i < LENGTH('a) \<and> ((0 < i \<and> bit n (i - 1)) \<noteq> bit n (LENGTH('a) - 1))"
  for n :: "'a::len word"
proof (cases "i < LENGTH('a)")
  case True
  have "bit (signed_drop_bit (LENGTH('a) - 1) n) i \<longleftrightarrow> bit n (LENGTH('a) - 1)"
    using True by (cases "i = 0") (auto simp: bit_signed_drop_bit_iff)
  moreover have "bit (push_bit 1 n) i \<longleftrightarrow> 0 < i \<and> bit n (i - 1)"
    using True by (simp only: bit_push_bit_iff) auto
  ultimately show ?thesis using True by (simp only: bit_xor_iff) auto
next
  case False
  then show ?thesis using bit_imp_le_length by blast
qed

lemma dezz32:
  fixes n :: u32
  defines "z \<equiv> push_bit 1 n XOR signed_drop_bit 31 n"
  shows "pbcV_dezigzag32 \<lparr>ll_low = z, ll_hi = h\<rparr> = \<lparr>ll_low = n, ll_hi = (if bit n 30 \<noteq> bit n 31 then - 1 else 0)\<rparr>"
proof -
  have z: "bit z i \<longleftrightarrow> i < 32 \<and> ((0 < i \<and> bit n (i - 1)) \<noteq> bit n 31)" for i
    using bit_zz [of n i] by (simp add: z_def)
  have lo: "drop_bit 1 z XOR - (z AND 1) = n"
  proof (rule bit_word_eqI)
    fix i assume "i < LENGTH(32)"
    then show "bit (drop_bit 1 z XOR - (z AND 1)) i \<longleftrightarrow> bit n i"
      by (cases "i = 31") (auto simp: minus_and_1 bit_simps z)
  qed
  have "drop_bit 31 z = (if bit z 31 then 1 else 0)"
    by (rule bit_word_eqI) (auto simp: bit_simps bit_1_iff z)
  then have hi: "- drop_bit 31 z = (if bit n 30 \<noteq> bit n 31 then - 1 else 0)" by (simp add: z)
  show ?thesis unfolding pbcV_dezigzag32_def longlong.select_convs lo hi ..
qed

lemma dezz64:
  fixes n :: u64
  defines "z \<equiv> push_bit 1 n XOR signed_drop_bit 63 n"
  shows "pbcV_dezigzag64 (ll_of z) = ll_of n"
proof -
  have z: "bit z i \<longleftrightarrow> i < 64 \<and> ((0 < i \<and> bit n (i - 1)) \<noteq> bit n 63)" for i
    using bit_zz [of n i] by (simp add: z_def)
  have lo: "ll_low (pbcV_dezigzag64 (ll_of z)) = ucast n"
  proof (rule bit_word_eqI)
    fix i assume "i < LENGTH(32)"
    then show "bit (ll_low (pbcV_dezigzag64 (ll_of z))) i \<longleftrightarrow> bit (ucast n :: u32) i"
      by (cases "i = 31") (auto simp: pbcV_dezigzag64_def ll_of_def minus_and_1 bit_simps z)
  qed
  have hi: "ll_hi (pbcV_dezigzag64 (ll_of z)) = ucast (drop_bit 32 n)"
  proof (rule bit_word_eqI)
    fix i assume "i < LENGTH(32)"
    then show "bit (ll_hi (pbcV_dezigzag64 (ll_of z))) i \<longleftrightarrow> bit (ucast (drop_bit 32 n) :: u32) i"
      by (cases "i = 31") (auto simp: pbcV_dezigzag64_def ll_of_def minus_and_1 bit_simps z)
  qed
  show ?thesis using lo hi by (simp add: ll_of_def)
qed

subsection \<open>Encoders and decoders that belong together\<close>

text \<open>
  The contract between a writer of values and the reader that gets them back: the reader
  returns the value and the number of bytes that the writer produced, whatever follows them.
  Packed fields are sequences of such encodings with nothing between them.
\<close>

fun decode_n :: "(byte list \<Rightarrow> (nat \<times> 'a) option) \<Rightarrow> nat \<Rightarrow> byte list \<Rightarrow> ('a list \<times> byte list) option" where
  "decode_n dec 0 buf = Some ([], buf)"
| "decode_n dec (Suc k) buf = do {
     (n, x) \<leftarrow> dec buf;
     (xs, rest) \<leftarrow> decode_n dec k (drop n buf);
     Some (x # xs, rest) }"

locale codec =
  fixes enc :: "'a \<Rightarrow> byte list"
    and dec :: "byte list \<Rightarrow> (nat \<times> 'a) option"
  assumes dec_enc: "dec (enc x @ rest) = Some (length (enc x), x)"
begin

lemma enc_inj: "enc x @ r = enc y @ s \<Longrightarrow> x = y \<and> r = s"
  using dec_enc [of x r] dec_enc [of y s] by simp

lemma packed_roundtrip: "decode_n dec (length xs) (concat (map enc xs) @ rest) = Some (xs, rest)"
  by (induction xs) (simp_all add: dec_enc)

lemma packed_inj:
  assumes "length xs = length ys" and "concat (map enc xs) @ r = concat (map enc ys) @ s"
  shows "xs = ys \<and> r = s"
proof -
  have "Some (xs, r) = decode_n dec (length xs) (concat (map enc xs) @ r)" by (simp only: packed_roundtrip)
  also have "\<dots> = Some (ys, s)" by (simp only: assms packed_roundtrip)
  finally show ?thesis by simp
qed

end

definition read_uint32 :: "byte list \<Rightarrow> (nat \<times> u32) option" where
  "read_uint32 buf = map_option (\<lambda>(n, r). (n, ll_low r)) (pbcV_decode buf)"

definition read_uint64 :: "byte list \<Rightarrow> (nat \<times> u64) option" where
  "read_uint64 buf = map_option (\<lambda>(n, r). (n, u64_of_ll (ll_low r) (ll_hi r))) (pbcV_decode buf)"

definition read_sint32 :: "byte list \<Rightarrow> (nat \<times> u32) option" where
  "read_sint32 buf = map_option (\<lambda>(n, r). (n, ll_low (pbcV_dezigzag32 r))) (pbcV_decode buf)"

definition read_sint64 :: "byte list \<Rightarrow> (nat \<times> u64) option" where
  "read_sint64 buf = map_option (\<lambda>(n, r). let r = pbcV_dezigzag64 r in (n, u64_of_ll (ll_low r) (ll_hi r)))
     (pbcV_decode buf)"

lemma u64_of_ll_of: "u64_of_ll (ll_low (ll_of n)) (ll_hi (ll_of n)) = n"
proof (rule bit_word_eqI)
  fix i assume "i < LENGTH(64)"
  then show "bit (u64_of_ll (ll_low (ll_of n)) (ll_hi (ll_of n))) i \<longleftrightarrow> bit n i"
    unfolding u64_of_ll_def ll_of_def longlong.select_convs bit_or_iff bit_push_bit_iff bit_ucast_iff bit_drop_bit_eq comp_apply
    by (cases "i < 32") auto
qed

lemma zigzag32_eq:
  obtains z where "pbcV_zigzag32 n = pbcV_encode32 z"
    and "\<And>h. pbcV_dezigzag32 \<lparr>ll_low = z, ll_hi = h\<rparr> = \<lparr>ll_low = n, ll_hi = (if bit n 30 \<noteq> bit n 31 then - 1 else 0)\<rparr>"
  using dezz32 [of n] by (metis pbcV_zigzag32_def)

lemma zigzag_eq:
  obtains z where "pbcV_zigzag n = pbcV_encode z" and "pbcV_dezigzag64 (ll_of z) = ll_of n"
  using dezz64 [of n] by (metis pbcV_zigzag_def)

interpretation uint32: codec pbcV_encode32 read_uint32
  by unfold_locales (simp add: read_uint32_def decode_encode32)

interpretation uint64: codec pbcV_encode read_uint64
  by unfold_locales (simp add: read_uint64_def decode_encode u64_of_ll_of)

interpretation sint32: codec pbcV_zigzag32 read_sint32
proof unfold_locales
  fix n rest show "read_sint32 (pbcV_zigzag32 n @ rest) = Some (length (pbcV_zigzag32 n), n)"
    by (rule zigzag32_eq [of n]) (simp add: read_sint32_def decode_encode32)
qed

interpretation sint64: codec pbcV_zigzag read_sint64
proof unfold_locales
  fix n rest show "read_sint64 (pbcV_zigzag n @ rest) = Some (length (pbcV_zigzag n), n)"
    by (rule zigzag_eq [of n]) (simp add: read_sint64_def decode_encode u64_of_ll_of)
qed

subsection \<open>Properties\<close>

text \<open>
  C15: the decoder gets back every 64-bit number from its encoding, whatever bytes follow, and
  consumes exactly the bytes of the encoding, of which there are at most ten.\<close>

theorem varint_roundtrip:
  "pbcV_decode (pbcV_encode n @ rest) = Some (length (pbcV_encode n), ll_of n) \<and>
   length (pbcV_encode n) \<in> {1..10}"
proof -
  have "unat n < 2 ^ (7 * 10)" by (rule less_trans [OF unsigned_less]) simp
  then have "length (leb (unat n)) \<le> 10" by (rule length_leb_mono) simp
  moreover have "leb (unat n) \<noteq> []" by (subst leb.simps) simp
  ultimately show ?thesis using decode_encode [of n rest] by (simp add: encode_leb Suc_le_eq)
qed

text \<open>
  On any encoding of at most ten bytes, shortest or not, the decoder returns the number of
  its bytes and the value modulo 2 to the 64; bytes after the encoding do not matter.\<close>

theorem varint_decode_value:
  assumes "vwf bs" and "length bs \<le> 10"
  shows "pbcV_decode (bs @ rest) = Some (length bs, ll_of (of_nat (leval bs)))"
  by (rule decode_spec [OF assms])

lemma varint_decode_value_witness:
  "pbcV_decode ([0xac, 0x82, 0x80, 0x00] @ [7]) = Some (length [0xac, 0x82, 0x80, 0x00 :: byte],
     ll_of (of_nat (leval [0xac, 0x82, 0x80, 0x00])))"
  by (rule varint_decode_value) code_simp+

text \<open>
  Given ten bytes to read, the decoder always returns: either the bytes start with an
  encoding of at most ten bytes, and it returns its length and value, or the first ten bytes
  have no end among them, and it returns ten and zero.\<close>

theorem varint_decode_total:
  assumes "10 \<le> length buf"
  shows "if list_all (\<lambda>b. b AND 0x80 \<noteq> 0) (take 10 buf)
    then pbcV_decode buf = Some (10, \<lparr>ll_low = 0, ll_hi = 0\<rparr>)
    else \<exists>n \<in> {1..10}. vwf (take n buf) \<and> pbcV_decode buf = Some (n, ll_of (of_nat (leval (take n buf))))"
proof (rule varint_cases [of buf 10])
  fix bs rest assume *: "buf = bs @ rest" "vwf bs" "length bs \<le> 10"
  then have "\<exists>b \<in> set bs. b AND 0x80 = 0" and "bs \<noteq> []"
    by (induction bs arbitrary: buf) (auto split: if_splits)
  with * have "\<exists>b \<in> set (take 10 buf). b AND 0x80 = 0" by auto
  with * \<open>bs \<noteq> []\<close> show ?thesis
    by (auto simp: decode_spec list_all_iff Suc_le_eq intro!: bexI [of _ "length bs"])
next
  fix bs rest assume "buf = bs @ rest" "length bs = 10" "\<forall>b \<in> set bs. b AND 0x80 \<noteq> 0"
  then show ?thesis by (simp add: decode_long list_all_iff)
qed (use assms in simp)

lemma varint_decode_total_witness:
  "if list_all (\<lambda>b. b AND 0x80 \<noteq> 0) (take 10 (replicate 10 (0xff :: byte)))
    then pbcV_decode (replicate 10 0xff) = Some (10, \<lparr>ll_low = 0, ll_hi = 0\<rparr>)
    else \<exists>n \<in> {1..10}. vwf (take n (replicate 10 0xff))
      \<and> pbcV_decode (replicate 10 0xff) = Some (n, ll_of (of_nat (leval (take n (replicate 10 0xff)))))"
  by (rule varint_decode_total) simp

text \<open>
  Zig-zag encoding is undone: 64-bit numbers come back whole, and so do 32-bit numbers in
  the low half of the result.\<close>

theorem zigzag_roundtrip:
  "read_sint64 (pbcV_zigzag n @ rest) = Some (length (pbcV_zigzag n), n) \<and>
   read_sint32 (pbcV_zigzag32 m @ rest) = Some (length (pbcV_zigzag32 m), m)"
  by (simp add: sint64.dec_enc sint32.dec_enc)

text \<open>
  The high half that \<open>_pbcV_dezigzag32\<close> stores is the top bit of the encoded number, not
  the sign of the decoded one: it is all ones exactly when bits 30 and 31 of the number differ,
  so -1 decodes with a high half of 0 and 2 to the 30 with one of all ones.\<close>

theorem dezigzag32_high_half:
  "map_option (\<lambda>(l, r). pbcV_dezigzag32 r) (pbcV_decode (pbcV_zigzag32 n)) =
     Some \<lparr>ll_low = n, ll_hi = (if bit n 30 \<noteq> bit n 31 then - 1 else 0)\<rparr>"
  by (rule zigzag32_eq [of n], simp only: decode_encode32 [of _ "[]", simplified append_Nil2]) simp

text \<open>
  Packed fields: any sequence of numbers written one after the other is read back by reading
  as many numbers, and what follows the sequence is left unread; this holds of all four
  integer codecs.\<close>

theorem packed_varints_roundtrip:
  "decode_n read_uint64 (length xs) (concat (map pbcV_encode xs) @ rest) = Some (xs, rest) \<and>
   decode_n read_uint32 (length ys) (concat (map pbcV_encode32 ys) @ rest) = Some (ys, rest) \<and>
   decode_n read_sint64 (length xs) (concat (map pbcV_zigzag xs) @ rest) = Some (xs, rest) \<and>
   decode_n read_sint32 (length ys) (concat (map pbcV_zigzag32 ys) @ rest) = Some (ys, rest)"
  by (simp add: uint64.packed_roundtrip uint32.packed_roundtrip sint64.packed_roundtrip sint32.packed_roundtrip)

end
