(* ===== verification/Context.thy ===== *)
theory Context
  imports Varint Alloc
begin

section \<open>Parsing the wire format (pbc/src/context.c, context.h)\<close>

text \<open>
  \<open>_pbcC_open\<close> splits a message into atoms, one per field. An atom is the tag and a union of two
  32-bit words: a number (low and high half) or the offsets of a slice; as the type checks on
  numbers are compiled out, later code may read one as the other, so an atom here is a tag and two
  words. \<open>buffer\<close> is the memory from the pointer on and the size comes separately.

  Near the end of the message the code copies the rest to a local array of ten bytes, whose tail
  is not initialised; its contents are the parameter \<open>junk\<close>.
\<close>

abbreviation WT_VARINT :: u32 where "WT_VARINT \<equiv> 0"
abbreviation WT_BIT64 :: u32 where "WT_BIT64 \<equiv> 1"
abbreviation WT_LEND :: u32 where "WT_LEND \<equiv> 2"
abbreviation WT_BIT32 :: u32 where "WT_BIT32 \<equiv> 5"

definition PBC_CONTEXT_CAP :: nat where "PBC_CONTEXT_CAP = 256"

definition INNER_ATOM :: nat where "INNER_ATOM = (PBC_CONTEXT_CAP - 24) div 12"

abbreviation PTYPE_DOUBLE :: int where "PTYPE_DOUBLE \<equiv> 1"
abbreviation PTYPE_FLOAT :: int where "PTYPE_FLOAT \<equiv> 2"
abbreviation PTYPE_INT64 :: int where "PTYPE_INT64 \<equiv> 3"
abbreviation PTYPE_UINT64 :: int where "PTYPE_UINT64 \<equiv> 4"
abbreviation PTYPE_INT32 :: int where "PTYPE_INT32 \<equiv> 5"
abbreviation PTYPE_FIXED64 :: int where "PTYPE_FIXED64 \<equiv> 6"
abbreviation PTYPE_FIXED32 :: int where "PTYPE_FIXED32 \<equiv> 7"
abbreviation PTYPE_BOOL :: int where "PTYPE_BOOL \<equiv> 8"
abbreviation PTYPE_STRING :: int where "PTYPE_STRING \<equiv> 9"
abbreviation PTYPE_GROUP :: int where "PTYPE_GROUP \<equiv> 10"
abbreviation PTYPE_MESSAGE :: int where "PTYPE_MESSAGE \<equiv> 11"
abbreviation PTYPE_BYTES :: int where "PTYPE_BYTES \<equiv> 12"
abbreviation PTYPE_UINT32 :: int where "PTYPE_UINT32 \<equiv> 13"
abbreviation PTYPE_ENUM :: int where "PTYPE_ENUM \<equiv> 14"
abbreviation PTYPE_SFIXED32 :: int where "PTYPE_SFIXED32 \<equiv> 15"
abbreviation PTYPE_SFIXED64 :: int where "PTYPE_SFIXED64 \<equiv> 16"
abbreviation PTYPE_SINT32 :: int where "PTYPE_SINT32 \<equiv> 17"
abbreviation PTYPE_SINT64 :: int where "PTYPE_SINT64 \<equiv> 18"

record atom =
  wire_id :: u32
  a_low :: u32
  a_hi :: u32

definition a_start :: "atom \<Rightarrow> int" where "a_start a = sint (a_low a)"
definition a_end :: "atom \<Rightarrow> int" where "a_end a = sint (a_hi a)"

record pbc_context =
  ctx_buffer :: "byte list"
  ctx_size :: int
  ctx_number :: "int option"
  ctx_atoms :: "atom list"
  ctx_outer :: bool

subsection \<open>Bytes of fixed-width numbers\<close>

definition le32 :: "byte list \<Rightarrow> nat \<Rightarrow> u32 option" where
  "le32 data o4 = do {
     b0 \<leftarrow> rd data o4; b1 \<leftarrow> rd data (o4 + 1); b2 \<leftarrow> rd data (o4 + 2); b3 \<leftarrow> rd data (o4 + 3);
     Some (ucast b0 OR push_bit 8 (ucast b1) OR push_bit 16 (ucast b2) OR push_bit 24 (ucast b3)) }"

definition int32_encode :: "u32 \<Rightarrow> byte list" where
  "int32_encode v = [ucast (v AND 0xff), ucast (drop_bit 8 v AND 0xff), ucast (drop_bit 16 v AND 0xff),
     ucast (drop_bit 24 v AND 0xff)]"

definition int64_encode :: "u32 \<Rightarrow> u32 \<Rightarrow> byte list" where
  "int64_encode lo h =
     [ucast (lo AND 0xff), ucast (drop_bit 8 lo AND 0xff), ucast (drop_bit 16 lo AND 0xff), ucast (drop_bit 24 lo AND 0xff),
      ucast (h AND 0xff), ucast (drop_bit 8 h AND 0xff), ucast (drop_bit 16 h AND 0xff), ucast (drop_bit 24 h AND 0xff)]"

text \<open>Doubles and floats are their bit patterns.\<close>

definition read_double :: "atom \<Rightarrow> u64" where
  "read_double a = ucast (a_low a) OR push_bit 32 (ucast (a_hi a))"

definition read_float :: "atom \<Rightarrow> u32" where
  "read_float a = a_low a"

definition double_encode :: "u64 \<Rightarrow> byte list" where
  "double_encode e = map (\<lambda>i. ucast (drop_bit (8 * i) e AND 0xff)) [0, 1, 2, 3, 4, 5, 6, 7]"

definition float_encode :: "u32 \<Rightarrow> byte list" where
  "float_encode e = map (\<lambda>i. ucast (drop_bit (8 * i) e AND 0xff)) [0, 1, 2, 3]"

subsection \<open>One field\<close>

text \<open>\<open>memcpy(temp, buffer, cap)\<close> for a \<open>cap\<close> below ten.\<close>

definition fill_temp :: "byte list \<Rightarrow> byte list \<Rightarrow> int \<Rightarrow> byte list option" where
  "fill_temp temp buffer cap =
     (if 0 \<le> cap \<and> nat cap \<le> length buffer then Some (take (nat cap) buffer @ drop (nat cap) temp) else None)"

definition decode_at :: "byte list \<Rightarrow> byte list \<Rightarrow> int \<Rightarrow> (byte list \<times> nat \<times> longlong) option" where
  "decode_at temp buffer cap =
     (if cap \<ge> 10 then do { (len, r) \<leftarrow> pbcV_decode buffer; Some (temp, len, r) }
      else do { temp \<leftarrow> fill_temp temp buffer cap; (len, r) \<leftarrow> pbcV_decode temp; Some (temp, len, r) })"

text \<open>
  The result is the number of bytes the returned pointer is ahead, with the atom; the inner
  \<open>None\<close> is the NULL result. In the check of a length the sum and the comparison are unsigned.
\<close>

definition wiretype_decode :: "byte list \<Rightarrow> byte list \<Rightarrow> int \<Rightarrow> int \<Rightarrow> (nat \<times> atom) option option" where
  "wiretype_decode junk buffer cap start = do {
     (temp, len, r) \<leftarrow> decode_at junk buffer cap;
     if (cap < 10 \<and> int len > cap) \<or> ll_hi r \<noteq> 0 then Some None
     else do {
       let wiretype = ll_low r AND 7;
       let wid = ll_low r;
       let buf = drop len buffer;
       let start = start + int len;
       let cap = cap - int len;
       if wiretype = WT_VARINT then do {
         (temp, len2, v) \<leftarrow> decode_at temp buf cap;
         if cap < 10 \<and> cap < int len2 then Some None
         else Some (Some (len + len2, \<lparr>wire_id = wid, a_low = ll_low v, a_hi = ll_hi v\<rparr>)) }
       else if wiretype = WT_BIT64 then
         (if cap < 8 then Some None
          else do {
            lo \<leftarrow> le32 buf 0; h \<leftarrow> le32 buf 4;
            Some (Some (len + 8, \<lparr>wire_id = wid, a_low = lo, a_hi = h\<rparr>)) })
       else if wiretype = WT_LEND then do {
         (temp, len2, r) \<leftarrow> decode_at temp buf cap;
         if (of_int cap :: u32) < of_nat len2 + ll_low r \<or> ll_hi r \<noteq> 0 then Some None
         else Some (Some (len + (len2 + unat (ll_low r)),
                \<lparr>wire_id = wid, a_low = of_int (start + int len2), a_hi = of_int (start + int len2) + ll_low r\<rparr>)) }
       else if wiretype = WT_BIT32 then
         (if cap < 4 then Some None
          else do {
            lo \<leftarrow> le32 buf 0;
            Some (Some (len + 4, \<lparr>wire_id = wid, a_low = lo, a_hi = 0\<rparr>)) })
       else Some None } }"

subsection \<open>A whole message\<close>

text \<open>
  The loops of \<open>_pbcC_open\<close> decode one atom after the other, the first \<open>INNER_ATOM\<close> into the
  context itself and the rest into a block that grows by 64; in the end all atoms are in one
  array. \<open>atoms\<close> are those decoded so far. The new size is cut to an \<open>int\<close>. The first loop stops at
  size 0, the second at any size that is not positive; a size below 0 is a \<open>memcpy\<close> of a negative
  length. The result is the atoms and whether all were decoded. Fuel bounds the number of atoms.
\<close>

definition to_int32 :: "int \<Rightarrow> int" where
  "to_int32 n = sint (of_int n :: u32)"

fun open_loop :: "nat \<Rightarrow> byte list \<Rightarrow> byte list \<Rightarrow> int \<Rightarrow> int \<Rightarrow> atom list \<Rightarrow> (bool \<times> atom list) option" where
  "open_loop 0 junk buffer sz start atoms = None"
| "open_loop (Suc fuel) junk buffer sz start atoms =
     (if sz = 0 \<or> length atoms \<ge> INNER_ATOM \<and> sz < 0 then Some (True, atoms)
      else do {
        r \<leftarrow> wiretype_decode junk buffer sz start;
        case r of
          None \<Rightarrow> Some (False, atoms)
        | Some (n, a) \<Rightarrow>
            open_loop fuel junk (drop n buffer) (to_int32 (sz - int n)) (to_int32 (start + int n)) (atoms @ [a]) })"

text \<open>
  The buffer is \<open>None\<close> for a NULL pointer. The third component is the count of live blocks: the
  array outside is allocated when a positive size is left after \<open>INNER_ATOM\<close> atoms. The atoms are
  kept in one list also when parsing stops there with an error, where the code has the first of them
  in the context and only the others in the block; no caller reads the atoms of a failed parse.
\<close>

definition outer_needed :: "bool \<Rightarrow> atom list \<Rightarrow> int \<Rightarrow> bool" where
  "outer_needed done atoms sz \<longleftrightarrow> length atoms > INNER_ATOM \<or> (length atoms = INNER_ATOM \<and> \<not> done)"

definition pbcC_open :: "byte list \<Rightarrow> byte list option \<Rightarrow> int \<Rightarrow> int \<Rightarrow> (int \<times> pbc_context \<times> int) option" where
  "pbcC_open junk buffer sz g =
     (case buffer of
        None \<Rightarrow> Some (0, \<lparr>ctx_buffer = [], ctx_size = sz, ctx_number = Some 0, ctx_atoms = [], ctx_outer = False\<rparr>, g)
      | Some buf \<Rightarrow>
        if sz = 0 then
          Some (0, \<lparr>ctx_buffer = buf, ctx_size = sz, ctx_number = Some 0, ctx_atoms = [], ctx_outer = False\<rparr>, g)
        else do {
          (done, atoms) \<leftarrow> open_loop (length buf + 2) junk buf sz 0 [];
          let outer = outer_needed done atoms sz;
          let g = (if outer then pbcM_malloc g else g);
          let i = int (length atoms);
          Some (if done then i else - i,
            \<lparr>ctx_buffer = buf, ctx_size = sz, ctx_number = (if done then Some i else None),
             ctx_atoms = atoms, ctx_outer = outer\<rparr>, g) })"

definition pbcC_close :: "pbc_context \<Rightarrow> int \<Rightarrow> int" where
  "pbcC_close ctx g = (if ctx_outer ctx then pbcM_free (Some (ctx_atoms ctx)) g else g)"

subsection \<open>Packed fields\<close>

definition decode_varint :: "byte list \<Rightarrow> byte list \<Rightarrow> int \<Rightarrow> (nat \<times> atom) option" where
  "decode_varint junk buffer sz =
     map_option (\<lambda>(_, len, v). (len, \<lparr>wire_id = WT_VARINT, a_low = ll_low v, a_hi = ll_hi v\<rparr>))
       (decode_at junk buffer sz)"

text \<open>
  The first loop ends when the size is 0 or the atoms of the context are full, and gives the size that is left; a last
  number that is cut off reads from the uninitialised bytes and can make it negative. The second loop allocates a
  block, but still decodes into \<open>a[i]\<close>, where \<open>a\<close> is the array of the context: the first atom that it decodes is
  written behind the end of the context. It decodes none when the size is negative.
\<close>

fun packed_loop :: "nat \<Rightarrow> byte list \<Rightarrow> byte list \<Rightarrow> int \<Rightarrow> atom list \<Rightarrow> (atom list \<times> int) option" where
  "packed_loop 0 junk buffer sz atoms = None"
| "packed_loop (Suc fuel) junk buffer sz atoms =
     (if sz = 0 \<or> length atoms \<ge> INNER_ATOM then Some (atoms, sz)
      else do {
        (len, a) \<leftarrow> decode_varint junk buffer sz;
        packed_loop fuel junk (drop len buffer) (sz - int len) (atoms @ [a]) })"

definition open_packed_varint :: "byte list \<Rightarrow> byte list \<Rightarrow> int \<Rightarrow> int \<Rightarrow> (atom list \<times> bool \<times> int) option" where
  "open_packed_varint junk buffer sz g = do {
     (atoms, sz) \<leftarrow> packed_loop (length buffer + 2) junk buffer sz [];
     if sz = 0 then Some (atoms, False, g)
     else if sz > 0 then None
     else Some (atoms, True, pbcM_malloc g) }"

text \<open>Division of \<open>int\<close>s rounds towards zero.\<close>

definition c_div :: "int \<Rightarrow> int \<Rightarrow> int" where
  "c_div a b = (if 0 \<le> a then a div b else - ((- a) div b))"

fun fixed_loop :: "nat \<Rightarrow> nat \<Rightarrow> byte list \<Rightarrow> nat \<Rightarrow> atom list option" where
  "fixed_loop bits 0 buffer i = Some []"
| "fixed_loop bits (Suc n) buffer i = do {
     a \<leftarrow> (if bits = 64 then do {
             lo \<leftarrow> le32 buffer (8 * i); h \<leftarrow> le32 buffer (8 * i + 4);
             Some \<lparr>wire_id = WT_BIT64, a_low = lo, a_hi = h\<rparr> }
           else do {
             lo \<leftarrow> le32 buffer (4 * i);
             Some \<lparr>wire_id = WT_BIT32, a_low = lo, a_hi = 0\<rparr> });
     rest \<leftarrow> fixed_loop bits n buffer (i + 1);
     Some (a # rest) }"

definition pbcC_open_packed :: "byte list \<Rightarrow> int \<Rightarrow> byte list option \<Rightarrow> int \<Rightarrow> int \<Rightarrow> (int \<times> pbc_context \<times> int) option" where
  "pbcC_open_packed junk ptype buffer sz g =
     (let ctx0 = \<lparr>ctx_buffer = (case buffer of None \<Rightarrow> [] | Some b \<Rightarrow> b), ctx_size = sz, ctx_number = Some 0,
                  ctx_atoms = [], ctx_outer = False\<rparr>
      in case buffer of
        None \<Rightarrow> Some (0, ctx0, g)
      | Some buf \<Rightarrow>
        if sz = 0 then Some (0, ctx0, g)
        else if ptype \<in> {PTYPE_INT64, PTYPE_UINT64, PTYPE_INT32, PTYPE_BOOL, PTYPE_UINT32, PTYPE_ENUM,
                         PTYPE_SINT32, PTYPE_SINT64} then do {
          (atoms, outer, g) \<leftarrow> open_packed_varint junk buf sz g;
          Some (int (length atoms),
            ctx0\<lparr>ctx_number := Some (int (length atoms)), ctx_atoms := atoms, ctx_outer := outer\<rparr>, g) }
        else if ptype \<in> {PTYPE_DOUBLE, PTYPE_FIXED64, PTYPE_SFIXED64, PTYPE_FLOAT, PTYPE_FIXED32, PTYPE_SFIXED32} then do {
          let bits = (if ptype \<in> {PTYPE_DOUBLE, PTYPE_FIXED64, PTYPE_SFIXED64} then 64 else 32);
          let number = (if bits = 64 then c_div sz 8 else c_div sz 4);
          atoms \<leftarrow> fixed_loop bits (nat number) buf 0;
          let outer = number > int INNER_ATOM;
          Some (number, ctx0\<lparr>ctx_number := Some number, ctx_atoms := atoms, ctx_outer := outer\<rparr>,
                if outer then pbcM_malloc g else g) }
        else Some (0, ctx0, g))"

subsection \<open>Fixed-width round trips\<close>

lemma byte_mask: "(ucast (x AND 0xff) :: byte) = ucast x" if "8 \<le> LENGTH('a)" for x :: "'a::len word"
proof -
  have m: "(0xff :: 'a word) = mask 8" by (simp add: mask_eq_exp_minus_1)
  show ?thesis unfolding m using that
    by (intro bit_word_eqI) (auto simp: bit_ucast_iff bit_and_iff bit_mask_iff)
qed

lemma join4: "(ucast (ucast v :: byte) :: u32) OR push_bit 8 (ucast (ucast (drop_bit 8 v) :: byte))
    OR push_bit 16 (ucast (ucast (drop_bit 16 v) :: byte)) OR push_bit 24 (ucast (ucast (drop_bit 24 v) :: byte)) = v"
  (is "?l = v") for v :: u32
proof (rule bit_word_eqI)
  fix i assume i: "i < LENGTH(32)"
  then consider "i < 8" | "8 \<le> i" "i < 16" | "16 \<le> i" "i < 24" | "24 \<le> i" "i < 32" by fastforce
  then show "bit ?l i = bit v i"
    by cases (auto simp: bit_or_iff bit_push_bit_iff bit_ucast_iff bit_drop_bit_eq)
qed

lemma length_int_encode [simp]: "length (int32_encode v) = 4" "length (int64_encode lo h) = 8"
  by (simp_all add: int32_encode_def int64_encode_def)

lemma le32_encode: "le32 (int32_encode v @ rest) 0 = Some v"
  using join4 [of v] by (simp add: le32_def int32_encode_def byte_mask numeral_2_eq_2 numeral_3_eq_3)

lemma le32_append: "le32 (pre @ data) (length pre + k) = le32 data k"
proof -
  have "rd (pre @ data) (length pre + k) = rd data k" for k by (simp add: rd_def)
  then have "rd (pre @ data) (length pre + k + j) = rd data (k + j)" for j by (simp only: add.assoc)
  with \<open>\<And>k. rd (pre @ data) (length pre + k) = rd data k\<close> show ?thesis by (simp only: le32_def)
qed

lemma int64_encode_eq: "int64_encode lo h = int32_encode lo @ int32_encode h"
  by (simp add: int64_encode_def int32_encode_def)

lemma le64_encode: "le32 (int64_encode lo h @ rest) 0 = Some lo" "le32 (int64_encode lo h @ rest) 4 = Some h"
  using le32_encode [of lo "int32_encode h @ rest"] le32_encode [of h rest] le32_append [of "int32_encode lo" "int32_encode h @ rest" 0]
  by (simp_all add: int64_encode_eq)

lemma low_byte: "(ucast (ucast e :: u32) :: byte) = ucast e"
  and low_byte_drop: "k \<le> 24 \<Longrightarrow> (ucast (drop_bit k (ucast e :: u32)) :: byte) = ucast (drop_bit k e)"
  and high_byte: "(ucast (ucast (drop_bit 32 e) :: u32) :: byte) = ucast (drop_bit 32 e)"
  and high_byte_drop: "k \<le> 24 \<Longrightarrow> (ucast (drop_bit k (ucast (drop_bit 32 e) :: u32)) :: byte) = ucast (drop_bit (32 + k) e)"
  for e :: u64
  by (rule bit_word_eqI; simp add: bit_ucast_iff bit_drop_bit_eq ac_simps)+

lemma double_encode_eq: "double_encode e = int64_encode (ucast e) (ucast (drop_bit 32 e))"
  by (simp add: double_encode_def int64_encode_def byte_mask low_byte low_byte_drop high_byte high_byte_drop)

lemma float_encode_eq: "float_encode e = int32_encode e"
  by (simp add: float_encode_def int32_encode_def)

subsection \<open>Messages that were written field by field\<close>

text \<open>The abstract wire format: a message is the concatenation of its fields.\<close>

datatype wfield =
    WVarint nat u64
  | WBit64 nat u32 u32
  | WLend nat "byte list"
  | WBit32 nat u32

fun wtag :: "wfield \<Rightarrow> nat" where
  "wtag (WVarint n v) = 8 * n"
| "wtag (WBit64 n lo h) = 8 * n + 1"
| "wtag (WLend n bs) = 8 * n + 2"
| "wtag (WBit32 n v) = 8 * n + 5"

fun wbody :: "wfield \<Rightarrow> byte list" where
  "wbody (WVarint n v) = pbcV_encode v"
| "wbody (WBit64 n lo h) = int64_encode lo h"
| "wbody (WLend n bs) = leb (length bs) @ bs"
| "wbody (WBit32 n v) = int32_encode v"

definition wenc :: "wfield \<Rightarrow> byte list" where
  "wenc f = leb (wtag f) @ wbody f"

definition wmsg :: "wfield list \<Rightarrow> byte list" where
  "wmsg fs = concat (map wenc fs)"

text \<open>The atom of a field that starts at an offset; a slice is where the payload lies.\<close>

definition watom :: "nat \<Rightarrow> wfield \<Rightarrow> atom" where
  "watom start f =
     (case f of
        WVarint n v \<Rightarrow> \<lparr>wire_id = of_nat (wtag f), a_low = ll_low (ll_of v), a_hi = ll_hi (ll_of v)\<rparr>
      | WBit64 n lo h \<Rightarrow> \<lparr>wire_id = of_nat (wtag f), a_low = lo, a_hi = h\<rparr>
      | WLend n bs \<Rightarrow>
          (let p = start + length (leb (wtag f)) + length (leb (length bs))
           in \<lparr>wire_id = of_nat (wtag f), a_low = of_nat p, a_hi = of_nat (p + length bs)\<rparr>)
      | WBit32 n v \<Rightarrow> \<lparr>wire_id = of_nat (wtag f), a_low = v, a_hi = 0\<rparr>)"

fun watoms :: "nat \<Rightarrow> wfield list \<Rightarrow> atom list" where
  "watoms start [] = []"
| "watoms start (f # fs) = watom start f # watoms (start + length (wenc f)) fs"

lemma length_watoms [simp]: "length (watoms start fs) = length fs"
  by (induction fs arbitrary: start) simp_all

text \<open>Bytes that are a prefix of the message are also a prefix of the local copy.\<close>

lemma fill_temp_prefix:
  assumes "length p \<le> nat cap" and "0 \<le> cap" and "nat cap \<le> length (p @ rest)"
  shows "\<exists>r. fill_temp junk (p @ rest) cap = Some (p @ r)"
  using assms by (auto simp: fill_temp_def)

lemma decode_at_ok:
  assumes "vwf bs" and "length bs \<le> 10" and "int (length bs) \<le> cap" and "cap \<le> int (length (bs @ rest))"
  shows "\<exists>t. decode_at junk (bs @ rest) cap = Some (t, length bs, ll_of (of_nat (leval bs)))"
proof (cases "cap \<ge> 10")
  case True
  then show ?thesis using assms by (simp add: decode_at_def decode_spec)
next
  case False
  have "length bs \<le> nat cap" "0 \<le> cap" "nat cap \<le> length (bs @ rest)" using assms by auto
  then obtain r where "fill_temp junk (bs @ rest) cap = Some (bs @ r)" using fill_temp_prefix by blast
  with False assms show ?thesis by (simp add: decode_at_def decode_spec)
qed

lemma decode_at_leb:
  assumes "n < 2 ^ 64" and "int (length (leb n)) \<le> cap" and "cap \<le> int (length (leb n @ rest))"
  shows "\<exists>t. decode_at junk (leb n @ rest) cap = Some (t, length (leb n), ll_of (of_nat n))"
proof -
  have "length (leb n) \<le> 10" by (rule length_leb_mono) (use assms(1) in simp_all)
  from decode_at_ok [OF vwf_leb this assms(2,3)] show ?thesis by (simp only: leval_leb)
qed

lemma ll_of_small: "n < 2 ^ 32 \<Longrightarrow> ll_of (of_nat n) = \<lparr>ll_low = of_nat n, ll_hi = 0\<rparr>"
  by (subst ll_of_nat) simp

definition wvalid :: "wfield \<Rightarrow> bool" where
  "wvalid f \<longleftrightarrow> wtag f < 2 ^ 32"

lemma tag_type: "t < 2 ^ 32 \<Longrightarrow> (of_nat t :: u32) AND 7 = of_nat (t mod 8)"
proof -
  have "(of_nat t :: u32) AND 7 = take_bit 3 (of_nat t)"
    by (simp add: take_bit_eq_mask mask_eq_exp_minus_1)
  moreover assume t: "t < 2 ^ 32"
  have "unat (take_bit 3 (of_nat t) :: u32) = t mod 8"
    unfolding unsigned_take_bit_eq unat_of_nat_u32 using t by (simp add: take_bit_eq_mod)
  moreover have "unat (of_nat (t mod 8) :: u32) = t mod 8" unfolding unat_of_nat_u32 by simp
  ultimately show ?thesis by (simp only: word_unat_eq_iff)
qed

lemma wiretype_decode_ok:
  assumes f: "wvalid f" and cap: "int (length (wenc f)) \<le> cap" "cap \<le> int (length (wenc f @ rest))"
    and pos: "int start + cap < 2 ^ 31"
  shows "wiretype_decode junk (wenc f @ rest) cap (int start) = Some (Some (length (wenc f), watom start f))"
proof -
  let ?t = "leb (wtag f)"
  define tw where "tw = (of_nat (wtag f) :: u32)"
  have len: "int (length ?t) + int (length (wbody f)) \<le> cap" using cap by (simp add: wenc_def)
  obtain t1 where d: "decode_at junk (wenc f @ rest) cap = Some (t1, length ?t, \<lparr>ll_low = tw, ll_hi = 0\<rparr>)"
    using decode_at_leb [of "wtag f" cap "wbody f @ rest" junk] f cap len
    by (auto simp: wenc_def wvalid_def ll_of_small tw_def)
  have drop: "drop (length ?t) (wenc f @ rest) = wbody f @ rest" by (simp add: wenc_def)
  have wt: "tw AND 7 = of_nat (wtag f mod 8)" using f unfolding tw_def wvalid_def by (rule tag_type)
  have lw: "length (wenc f) = length ?t + length (wbody f)" by (simp add: wenc_def)
  let ?cap = "cap - int (length ?t)"
  have cap2: "?cap \<le> int (length (wbody f @ rest))" using cap by (simp add: wenc_def)
  show ?thesis
  proof (cases f)
    case (WVarint n v)
    have t0: "tw AND 7 = WT_VARINT" using wt by (simp add: WVarint)
    have w: "watom start f = \<lparr>wire_id = tw, a_low = ll_low (ll_of v), a_hi = ll_hi (ll_of v)\<rparr>"
      by (simp add: watom_def WVarint tw_def)
    have "unat v < 2 ^ 64" by (rule less_le_trans [OF unsigned_less]) simp
    then obtain t where "decode_at t1 (wbody f @ rest) ?cap = Some (t, length (wbody f), ll_of v)"
      using decode_at_leb [of "unat v" ?cap rest t1] len cap2 by (auto simp: WVarint encode_leb)
    then show ?thesis using d drop t0 len
      by (simp add: wiretype_decode_def Let_def w lw del: of_nat_unat)
  next
    case (WBit64 n lo h)
    have "wtag f mod 8 = 1" unfolding WBit64 wtag.simps by presburger
    then have t0: "tw AND 7 = WT_BIT64" using wt by simp
    have w: "watom start f = \<lparr>wire_id = tw, a_low = lo, a_hi = h\<rparr>" by (simp add: watom_def WBit64 tw_def)
    have b: "wbody f = int64_encode lo h" by (simp add: WBit64)
    show ?thesis using d drop t0 len
      by (simp add: wiretype_decode_def Let_def w lw b le64_encode)
  next
    case (WLend n bs)
    have "wtag f mod 8 = 2" unfolding WLend wtag.simps by presburger
    then have t0: "tw AND 7 = WT_LEND" using wt by simp
    have b31: "length bs < 2 ^ 31" using len pos by (simp add: WLend)
    then have b: "length bs < 2 ^ 64" by simp
    let ?l = "leb (length bs)"
    have body: "wbody f @ rest = ?l @ bs @ rest" by (simp add: WLend)
    have lb: "length (wbody f) = length ?l + length bs" by (simp add: WLend)
    obtain t2 where d2: "decode_at t1 (wbody f @ rest) ?cap = Some (t2, length ?l, \<lparr>ll_low = of_nat (length bs), ll_hi = 0\<rparr>)"
      using decode_at_leb [OF b, of ?cap "bs @ rest" t1] len cap2 b31 unfolding body lb by (auto simp: ll_of_small)
    have ub: "unat (of_nat (length bs) :: u32) = length bs"
      using b31 by (simp add: unsigned_of_nat take_bit_nat_eq_self)
    have "\<not> (of_int ?cap :: u32) < of_nat (length ?l) + of_nat (length bs)"
    proof -
      have "unat (of_int ?cap :: u32) = nat ?cap"
        by (rule unat_of_int_u32) (use len pos in simp_all)
      moreover have "unat (of_nat (length ?l + length bs) :: u32) \<le> length ?l + length bs"
        unfolding unat_of_nat_u32 by simp
      ultimately show ?thesis using len lb unfolding word_less_nat_alt of_nat_add [symmetric] by linarith
    qed
    moreover have w: "watom start f = \<lparr>wire_id = tw, a_low = of_nat (start + length ?t + length ?l),
        a_hi = of_nat (start + length ?t + length ?l + length bs)\<rparr>"
      by (simp add: watom_def WLend tw_def Let_def)
    ultimately show ?thesis using d d2 drop t0 len
      by (simp add: wiretype_decode_def Let_def w lw lb ub)
  next
    case (WBit32 n v)
    have "wtag f mod 8 = 5" unfolding WBit32 wtag.simps by presburger
    then have t0: "tw AND 7 = WT_BIT32" using wt by simp
    have w: "watom start f = \<lparr>wire_id = tw, a_low = v, a_hi = 0\<rparr>" by (simp add: watom_def WBit32 tw_def)
    have b: "wbody f = int32_encode v" by (simp add: WBit32)
    show ?thesis using d drop t0 len
      by (simp add: wiretype_decode_def Let_def w lw b le32_encode)
  qed
qed

lemma wenc_ne: "0 < length (wenc f)"
proof -
  have "leb (wtag f) \<noteq> []" by (subst leb.simps) simp
  then show ?thesis by (simp add: wenc_def)
qed

lemma to_int32_id: "- (2 ^ 31) \<le> n \<Longrightarrow> n < 2 ^ 31 \<Longrightarrow> to_int32 n = n"
  unfolding to_int32_def by (simp add: signed_of_int signed_take_bit_int_eq_self)

lemma open_loop_ok:
  assumes "\<forall>f \<in> set fs. wvalid f" and "start + length (wmsg fs) < 2 ^ 31" and "length fs < fuel"
  shows "open_loop fuel junk (wmsg fs @ rest) (int (length (wmsg fs))) (int start) atoms
    = Some (True, atoms @ watoms start fs)"
  using assms
proof (induction fs arbitrary: fuel start atoms)
  case Nil
  then obtain k where "fuel = Suc k" by (cases fuel) auto
  then show ?case by (simp add: wmsg_def)
next
  case (Cons f fs)
  then obtain k where k: "fuel = Suc k" by (cases fuel) auto
  have m: "wmsg (f # fs) = wenc f @ wmsg fs" by (simp add: wmsg_def)
  have pos: "0 < length (wenc f)" by (rule wenc_ne)
  have w: "wiretype_decode junk (wenc f @ wmsg fs @ rest) (int (length (wmsg (f # fs)))) (int start)
      = Some (Some (length (wenc f), watom start f))"
    by (rule wiretype_decode_ok) (use Cons.prems m in auto)
  have i1: "to_int32 (int (length (wmsg (f # fs))) - int (length (wenc f))) = int (length (wmsg fs))"
    using Cons.prems(2) m by (subst to_int32_id) simp_all
  have i2: "to_int32 (int start + int (length (wenc f))) = int (start + length (wenc f))"
    using Cons.prems(2) m by (subst to_int32_id) simp_all
  have IH: "open_loop k junk (wmsg fs @ rest) (int (length (wmsg fs))) (int (start + length (wenc f))) (atoms @ [watom start f])
    = Some (True, (atoms @ [watom start f]) @ watoms (start + length (wenc f)) fs)"
    by (rule Cons.IH) (use Cons.prems m k in auto)
  define sz where "sz = int (length (wmsg (f # fs)))"
  have "length (wmsg (f # fs)) = length (wenc f) + length (wmsg fs)" using m by simp
  then have "sz \<noteq> 0" "\<not> sz < 0" using pos unfolding sz_def by linarith+
  moreover have "drop (length (wenc f)) (wmsg (f # fs) @ rest) = wmsg fs @ rest" using m by simp
  moreover note w [folded sz_def] i1 [folded sz_def] i2 IH
  ultimately show ?case unfolding k sz_def [symmetric] by (simp add: m)
qed

subsection \<open>What a parse that succeeds has checked\<close>

lemma decode_hi_length: "pbcV_decode_hi buf i lr r = Some (n, x) \<Longrightarrow> i \<le> 10 \<Longrightarrow> i \<le> n \<and> n \<le> 10"
proof (induction buf i lr r rule: pbcV_decode_hi.induct)
  case (1 buf i lr r)
  show ?case
  proof (cases "i < 10 \<and> i < length buf \<and> buf ! i AND 0x80 \<noteq> 0")
    case True
    then have "rd buf i = Some (buf ! i)" by (simp add: rd_def)
    from "1.IH" [OF conjunct1 [OF True] this refl] True "1.prems" show ?thesis
      by (auto simp: rd_def Let_def pbcV_decode_hi.simps [of buf i lr r])
  next
    case False
    with "1.prems" show ?thesis
      by (subst (asm) pbcV_decode_hi.simps) (auto simp: ub_simps Let_def split: if_splits)
  qed
qed

lemma decode_low_length: "pbcV_decode_low buf i r = Some (n, x) \<Longrightarrow> i \<le> 4 \<Longrightarrow> i \<le> n \<and> n \<le> 10"
proof (induction buf i r rule: pbcV_decode_low.induct)
  case (1 buf i r)
  show ?case
  proof (cases "i < 4 \<and> i < length buf \<and> buf ! i AND 0x80 \<noteq> 0")
    case True
    then have "rd buf i = Some (buf ! i)" by (simp add: rd_def)
    from "1.IH" [OF conjunct1 [OF True] this refl] True "1.prems" show ?thesis
      by (auto simp: rd_def Let_def pbcV_decode_low.simps [of buf i r])
  next
    case False
    with "1.prems" show ?thesis
      by (subst (asm) pbcV_decode_low.simps) (auto simp: ub_simps Let_def split: if_splits dest!: decode_hi_length)
  qed
qed

lemma decode_length: "pbcV_decode buf = Some (n, x) \<Longrightarrow> 0 < n \<and> n \<le> 10 \<and> buf \<noteq> []"
  by (auto simp: pbcV_decode_def ub_simps split: if_splits dest!: decode_low_length)

lemma decode_at_length:
  "decode_at temp buf cap = Some (t, n, x) \<Longrightarrow> 0 < n \<and> n \<le> 10 \<and> (cap \<ge> 10 \<or> 0 \<le> cap \<and> nat cap \<le> length buf)"
  by (auto simp: decode_at_def fill_temp_def ub_simps split: if_splits dest!: decode_length)

text \<open>
  A field that was accepted lies in the rest of the message, or it is a payload whose length
  wrapped, and then its end is in front of its start.
\<close>

definition in_message :: "int \<Rightarrow> atom \<Rightarrow> bool" where
  "in_message sz a \<longleftrightarrow>
     (wire_id a AND 7 = WT_LEND \<and> a_start a \<le> a_end a \<longrightarrow> 0 \<le> a_start a \<and> a_end a \<le> sz)"

lemma to_int32_wrap: "to_int32 (n - 2 ^ 32) = to_int32 n"
proof -
  have "(of_int (n - 2 ^ 32) :: u32) = of_int n"
    by (simp only: word_of_int_eq_iff take_bit_eq_mod) (simp add: mod_diff_eq [symmetric])
  then show ?thesis by (simp only: to_int32_def)
qed

lemma sint_small: "0 \<le> n \<Longrightarrow> n < 2 ^ 31 \<Longrightarrow> sint (of_int n :: u32) = n"
  using to_int32_id [of n] by (simp add: to_int32_def)

lemma lend_length:
  fixes l :: u32
  assumes cap: "0 \<le> cap" "cap < 2 ^ 31" and n: "n \<le> 10" and ok: "\<not> (of_int cap :: u32) < of_nat n + l"
  obtains (fits) "int (n + unat l) \<le> cap"
    | (wraps) k where "unat l + k = 2 ^ 32" "0 < k" "k \<le> n" "int (n - k) \<le> cap"
proof -
  have c: "unat (of_int cap :: u32) = nat cap" by (rule unat_of_int_u32) (use cap in simp_all)
  have l: "unat l < 2 ^ 32" by (rule less_le_trans [OF unsigned_less]) simp
  have "of_nat n + l = of_nat (n + unat l)" by simp
  then have s: "unat (of_nat n + l) = (n + unat l) mod 2 ^ 32" by (simp only: unat_of_nat_u32)
  from ok have le: "(n + unat l) mod 2 ^ 32 \<le> nat cap" unfolding word_less_nat_alt c s by linarith
  show thesis
  proof (cases "n + unat l < 2 ^ 32")
    case True
    then have "n + unat l \<le> nat cap" using le by simp
    then show thesis using cap by (intro fits) linarith
  next
    case False
    then have "(n + unat l) mod 2 ^ 32 = n + unat l - 2 ^ 32" using n l by (simp add: mod_if)
    with False le l n cap have k: "unat l + (2 ^ 32 - unat l) = 2 ^ 32" "0 < 2 ^ 32 - unat l"
      "2 ^ 32 - unat l \<le> n" "n - (2 ^ 32 - unat l) \<le> nat cap" by linarith+
    then show thesis using cap by (intro wraps [of "2 ^ 32 - unat l"]) linarith+
  qed
qed

lemma wiretype_decode_bounds:
  assumes d: "wiretype_decode junk buffer cap start = Some (Some (n, a))"
    and cap: "0 < cap" "cap \<le> int (length buffer)" and start: "0 \<le> start" "start + cap + 10 < 2 ^ 31"
    and len: "length buffer < 2 ^ 31"
  obtains (inside) "0 < n" "int n \<le> cap" "in_message (start + cap) a"
    | (wrapped) "length buffer < n" "2 ^ 31 < n" "0 \<le> to_int32 (cap - int n)" "\<forall>sz. in_message sz a"
proof -
  obtain t1 len r where d1: "decode_at junk buffer cap = Some (t1, len, r)"
    and r: "\<not> (cap < 10 \<and> int len > cap)" "ll_hi r = 0"
    using d by (auto simp: wiretype_decode_def ub_simps split: if_splits)
  note l1 = decode_at_length [OF d1]
  have lc: "int len \<le> cap" using r(1) l1 by linarith
  define buf c2 where "buf = drop len buffer" and "c2 = cap - int len"
  have c2: "0 \<le> c2" "c2 \<le> int (length buf)" using lc cap(2) by (auto simp: buf_def c2_def)
  define ty where "ty = ll_low r AND 7"
  have d': "(if ty = WT_VARINT then do {
         (temp, len2, v) \<leftarrow> decode_at t1 buf c2;
         if c2 < 10 \<and> c2 < int len2 then Some None
         else Some (Some (len + len2, \<lparr>wire_id = ll_low r, a_low = ll_low v, a_hi = ll_hi v\<rparr>)) }
       else if ty = WT_BIT64 then
         (if c2 < 8 then Some None
          else do {
            lo \<leftarrow> le32 buf 0; h \<leftarrow> le32 buf 4;
            Some (Some (len + 8, \<lparr>wire_id = ll_low r, a_low = lo, a_hi = h\<rparr>)) })
       else if ty = WT_LEND then do {
         (temp, len2, x) \<leftarrow> decode_at t1 buf c2;
         if (of_int c2 :: u32) < of_nat len2 + ll_low x \<or> ll_hi x \<noteq> 0 then Some None
         else Some (Some (len + (len2 + unat (ll_low x)),
                \<lparr>wire_id = ll_low r, a_low = of_int (start + int len + int len2), a_hi = of_int (start + int len + int len2) + ll_low x\<rparr>)) }
       else if ty = WT_BIT32 then
         (if c2 < 4 then Some None
          else do {
            lo \<leftarrow> le32 buf 0;
            Some (Some (len + 4, \<lparr>wire_id = ll_low r, a_low = lo, a_hi = 0\<rparr>)) })
       else Some None) = Some (Some (n, a))"
    using d r d1 unfolding wiretype_decode_def buf_def c2_def ty_def Let_def by (simp split: if_splits)
  show thesis
  proof (cases "ty = WT_LEND")
    case False
    have "0 < n \<and> int n \<le> cap \<and> wire_id a AND 7 \<noteq> WT_LEND"
      using d' False l1 by (auto simp: ub_simps c2_def ty_def split: if_splits dest!: decode_at_length)
    then show thesis by (intro inside) (auto simp: in_message_def)
  next
    case True
    obtain t2 len2 x where d2: "decode_at t1 buf c2 = Some (t2, len2, x)"
      and ok: "\<not> (of_int c2 :: u32) < of_nat len2 + ll_low x" and n: "n = len + (len2 + unat (ll_low x))"
      and a: "a_low a = of_int (start + int len + int len2)" "a_hi a = of_int (start + int len + int len2) + ll_low x"
      using d' True by (auto simp: ub_simps split: if_splits)
    note l2 = decode_at_length [OF d2]
    define p where "p = start + int len + int len2"
    have p: "0 \<le> p" "p < 2 ^ 31" using start lc l2 by (auto simp: p_def)
    have ap: "a_start a = p" using sint_small [OF p] by (simp add: a_start_def a p_def)
    have ah: "a_hi a = of_int (p + int (unat (ll_low x)))" by (simp add: a p_def)
    have c31: "c2 < 2 ^ 31" using start lc l1 by (simp add: c2_def)
    from l2 have "len2 \<le> 10" by simp
    consider (fits) "int (len2 + unat (ll_low x)) \<le> c2"
      | (wraps) k where "unat (ll_low x) + k = 2 ^ 32" "0 < k" "k \<le> len2" "int (len2 - k) \<le> c2"
      by (rule lend_length [OF c2(1) c31 \<open>len2 \<le> 10\<close> ok])
    then show thesis
    proof cases
      case fits
      then have e: "0 \<le> p + int (unat (ll_low x))" "p + int (unat (ll_low x)) < 2 ^ 31"
          "p + int (unat (ll_low x)) \<le> start + cap"
        using p start by (auto simp: p_def c2_def)
      have "a_end a = p + int (unat (ll_low x))" using sint_small [OF e(1,2)] unfolding a_end_def ah by simp
      then show thesis using p ap e(3) fits l1 n by (intro inside) (auto simp: in_message_def c2_def)
    next
      case (wraps k)
      have "int (unat (ll_low x) + k) = int (2 ^ 32)" by (simp only: wraps(1))
      then have u: "int (unat (ll_low x)) = 2 ^ 32 - int k" by simp
      have "a_hi a = of_int (p - int k)" unfolding ah u by simp
      moreover have "0 \<le> p - int k" using wraps(3) start by (simp add: p_def)
      ultimately have "a_end a = p - int k" using p sint_small [of "p - int k"] by (simp add: a_end_def)
      then have in_m: "\<forall>sz. in_message sz a" using ap wraps(2) by (simp add: in_message_def)
      have "cap - int n = c2 - int (len2 - k) - 2 ^ 32" using n u wraps(3) by (simp add: c2_def)
      then have "to_int32 (cap - int n) = to_int32 (c2 - int (len2 - k))" by (simp only: to_int32_wrap)
      then have "0 \<le> to_int32 (cap - int n)" using wraps(4) c31 to_int32_id [of "c2 - int (len2 - k)"] by simp
      moreover have "2 ^ 32 \<le> unat (ll_low x) + 10" using wraps l2 by linarith
      then have "2 ^ 31 < n" unfolding n by simp
      moreover from this have "length buffer < n" using len by simp
      ultimately show thesis using in_m by (intro wrapped)
    qed
  qed
qed

lemma wiretype_decode_end: "0 < sz \<Longrightarrow> wiretype_decode junk [] sz start = None"
  by (auto simp: wiretype_decode_def decode_at_def fill_temp_def pbcV_decode_def rd_def)

lemma open_loop_slices:
  assumes "open_loop fuel junk buffer sz start atoms = Some (d, as)"
    and "0 \<le> sz" "sz \<le> int (length buffer)" "0 \<le> start" "start + sz + 10 < 2 ^ 31" "length buffer < 2 ^ 31"
    and "list_all (in_message (start + sz)) atoms"
  shows "list_all (in_message (start + sz)) as"
  using assms
proof (induction fuel junk buffer sz start atoms arbitrary: d as rule: open_loop.induct)
  case (2 fuel junk buffer sz start atoms)
  show ?case
  proof (cases "sz = 0")
    case True
    with "2.prems" show ?thesis by auto
  next
    case False
    then have z: "0 < sz" using "2.prems" by simp
    then obtain r where r: "wiretype_decode junk buffer sz start = Some r"
      using "2.prems"(1) by (auto simp: ub_simps)
    show ?thesis
    proof (cases r)
      case None
      with "2.prems" r z show ?thesis by auto
    next
      case (Some na)
      obtain n a where na: "na = (n, a)" by (cases na)
      note w = r [unfolded Some na]
      from "2.prems"(1) w z have more: "open_loop fuel junk (drop n buffer) (to_int32 (sz - int n)) (to_int32 (start + int n)) (atoms @ [a])
        = Some (d, as)" by auto
      consider (inside) "0 < n" "int n \<le> sz" "in_message (start + sz) a"
        | (wrapped) "length buffer < n" "2 ^ 31 < n" "0 \<le> to_int32 (sz - int n)" "\<forall>sz. in_message sz a"
        by (rule wiretype_decode_bounds [OF w z "2.prems"(3,4,5,6)])
      then show ?thesis
      proof cases
        case inside
        have i: "to_int32 (sz - int n) = sz - int n" "to_int32 (start + int n) = start + int n"
          using inside "2.prems" by (auto intro!: to_int32_id)
        have "list_all (in_message (to_int32 (start + int n) + to_int32 (sz - int n))) as"
          by (rule "2.IH" [OF _ r Some na [symmetric] more])
            (use "2.prems" inside z in \<open>auto simp: list_all_append i\<close>)
        then show ?thesis by (simp add: i)
      next
        case wrapped
        obtain k where k: "fuel = Suc k" using more by (cases fuel) auto
        have e: "drop n buffer = []" using wrapped by simp
        have "to_int32 (sz - int n) = 0"
          using more wrapped(3) wiretype_decode_end [of "to_int32 (sz - int n)"] unfolding k e by (auto split: if_splits)
        then have "as = atoms @ [a]" using more unfolding k by simp
        then show ?thesis using "2.prems"(7) wrapped(4) by simp
      qed
    qed
  qed
qed simp

subsection \<open>Packed sequences\<close>

lemma packed_loop_ok:
  assumes "length xs < fuel"
  shows "packed_loop fuel junk (concat (map pbcV_encode xs) @ rest) (int (length (concat (map pbcV_encode xs)))) atoms
    = Some (atoms @ map (\<lambda>v. \<lparr>wire_id = WT_VARINT, a_low = ll_low (ll_of v), a_hi = ll_hi (ll_of v)\<rparr>) (take (INNER_ATOM - length atoms) xs),
        int (length (concat (map pbcV_encode (drop (INNER_ATOM - length atoms) xs)))))"
  using assms
proof (induction xs arbitrary: fuel atoms)
  case Nil
  then show ?case by (cases fuel) auto
next
  case (Cons x xs)
  then obtain k where k: "fuel = Suc k" by (cases fuel) auto
  let ?p = "pbcV_encode x" and ?m = "concat (map pbcV_encode xs)"
  define sz where "sz = int (length (concat (map pbcV_encode (x # xs))))"
  have sz: "sz = int (length ?p) + int (length ?m)" by (simp add: sz_def)
  have "unat x < 2 ^ 64" by (rule less_le_trans [OF unsigned_less]) simp
  then obtain t where d: "decode_at junk (?p @ ?m @ rest) sz = Some (t, length ?p, ll_of x)"
    using decode_at_leb [of "unat x" sz "?m @ rest" junk] sz by (auto simp: encode_leb)
  have "0 < length ?p" using decode_at_length [OF d] by simp
  then have "sz \<noteq> 0" "\<not> sz < 0" "sz - int (length ?p) = int (length ?m)" unfolding sz by linarith+
  note s = this
  show ?case
  proof (cases "length atoms < INNER_ATOM")
    case True
    then obtain n where "INNER_ATOM - length atoms = Suc n" "INNER_ATOM - Suc (length atoms) = n" by (cases "INNER_ATOM - length atoms") auto
    then show ?thesis using d s Cons.IH [of k] Cons.prems True unfolding k sz_def [symmetric] by (simp add: decode_varint_def k)
  next
    case False
    then show ?thesis unfolding k sz_def [symmetric] by (simp add: sz_def)
  qed
qed

lemma fixed_loop_64:
  "fixed_loop 64 (length xs) (pre @ concat (map double_encode xs) @ rest) (length pre div 8)
    = Some (map (\<lambda>e. \<lparr>wire_id = WT_BIT64, a_low = ucast e, a_hi = ucast (drop_bit 32 e)\<rparr>) xs)"
  if "8 dvd length pre"
  using that
proof (induction xs arbitrary: pre)
  case (Cons x xs)
  let ?rest = "concat (map double_encode xs) @ rest"
  have l: "length (double_encode x) = 8" by (simp add: double_encode_def)
  have p: "8 * (length pre div 8) = length pre" using Cons.prems by simp
  have "le32 (pre @ double_encode x @ ?rest) (8 * (length pre div 8)) = Some (ucast x)"
    "le32 (pre @ double_encode x @ ?rest) (8 * (length pre div 8) + 4) = Some (ucast (drop_bit 32 x))"
    using le32_append [of pre "double_encode x @ ?rest" 0] le32_append [of pre "double_encode x @ ?rest" 4]
    unfolding p by (simp_all add: double_encode_eq le64_encode)
  moreover have "fixed_loop 64 (length xs) ((pre @ double_encode x) @ ?rest) (length (pre @ double_encode x) div 8)
      = Some (map (\<lambda>e. \<lparr>wire_id = WT_BIT64, a_low = ucast e, a_hi = ucast (drop_bit 32 e)\<rparr>) xs)"
    by (rule Cons.IH) (use Cons.prems l in simp)
  moreover have "length (pre @ double_encode x) div 8 = length pre div 8 + 1" using l by simp
  ultimately show ?case by simp
qed simp

lemma open_fields:
  assumes "\<forall>f \<in> set fs. wvalid f" and "fs \<noteq> []" and "length (wmsg fs) < 2 ^ 31"
  shows "\<exists>ctx g'. pbcC_open junk (Some (wmsg fs @ rest)) (int (length (wmsg fs))) g = Some (int (length fs), ctx, g')
    \<and> ctx_atoms ctx = watoms 0 fs \<and> ctx_number ctx = Some (int (length fs)) \<and> pbcC_close ctx g' = g"
proof -
  have len: "length fs \<le> length (wmsg fs)" for fs
  proof (induction fs)
    case (Cons f fs)
    have "length (wmsg (f # fs)) = length (wenc f) + length (wmsg fs)" by (simp add: wmsg_def)
    with Cons wenc_ne [of f] show ?case unfolding list.size by linarith
  qed simp
  have "open_loop (length (wmsg fs @ rest) + 2) junk (wmsg fs @ rest) (int (length (wmsg fs))) (int 0) []
    = Some (True, [] @ watoms 0 fs)"
    by (rule open_loop_ok) (use assms len [of fs] in simp_all)
  moreover have "int (length (wmsg fs)) \<noteq> 0" using assms(2) len [of fs] by auto
  ultimately show ?thesis
    by (simp add: pbcC_open_def pbcC_close_def pbcM_malloc_def pbcM_free_def Let_def)
qed

subsection \<open>Properties\<close>

text \<open>
  C17: a message made of any fields, one after the other, is split into exactly their atoms, in
  order: tags, numbers, and for a payload the offsets between which it lies; neither what follows
  the message in memory nor the uninitialised bytes of the local copy matter.\<close>

theorem open_message:
  assumes "\<forall>f \<in> set fs. wvalid f" and "fs \<noteq> []" and "length (wmsg fs) < 2 ^ 31"
  shows "\<exists>ctx g'. pbcC_open junk (Some (wmsg fs @ rest)) (int (length (wmsg fs))) g = Some (int (length fs), ctx, g')
    \<and> ctx_atoms ctx = watoms 0 fs \<and> ctx_number ctx = Some (int (length fs)) \<and> pbcC_close ctx g' = g"
  by (rule open_fields [OF assms])

lemma open_message_witness:
  "\<exists>ctx g'. pbcC_open (replicate 10 0xaa) (Some (wmsg [WVarint 1 150, WLend 2 [116, 101], WBit32 3 7] @ [1, 2]))
       (int (length (wmsg [WVarint 1 150, WLend 2 [116, 101], WBit32 3 7]))) 0 = Some (int (length [WVarint 1 150, WLend 2 [116, 101], WBit32 3 7]), ctx, g')
    \<and> ctx_atoms ctx = watoms 0 [WVarint 1 150, WLend 2 [116, 101], WBit32 3 7]
    \<and> ctx_number ctx = Some (int (length [WVarint 1 150, WLend 2 [116, 101], WBit32 3 7])) \<and> pbcC_close ctx g' = 0"
  by (rule open_message) (simp_all add: wvalid_def wmsg_def wenc_def encode_leb leb.simps int32_encode_def)

text \<open>
  C28: the check of a payload's length can be passed by a length close to \<open>2^32\<close>: on the six bytes
  of one field with such a length, in a buffer shorter than four gigabytes, parsing goes on far
  behind the end of the buffer instead of failing.\<close>

theorem open_length_wraps:
  assumes "length rest < 2 ^ 32 - 12"
  shows "wiretype_decode junk ([0x0a, 0xff, 0xff, 0xff, 0xff, 0x0f] @ rest) 6 0
      = Some (Some (2 ^ 32 + 5, \<lparr>wire_id = 0x0a, a_low = 6, a_hi = 5\<rparr>))
    \<and> pbcC_open junk (Some ([0x0a, 0xff, 0xff, 0xff, 0xff, 0x0f] @ rest)) 6 g = None"
proof -
  let ?m = "[0x0a, 0xff, 0xff, 0xff, 0xff, 0x0f] @ rest"
  obtain t1 where "decode_at junk ([0x0a] @ [0xff, 0xff, 0xff, 0xff, 0x0f] @ rest) 6 = Some (t1, length [0x0a :: byte], ll_of (of_nat (leval [0x0a])))"
    using decode_at_ok [of "[0x0a]" 6 "[0xff, 0xff, 0xff, 0xff, 0x0f] @ rest" junk] by auto
  then have d1: "decode_at junk ?m 6 = Some (t1, 1, \<lparr>ll_low = 10, ll_hi = 0\<rparr>)" by (simp add: ll_of_def)
  obtain t2 where "decode_at t1 ([0xff, 0xff, 0xff, 0xff, 0x0f] @ rest) 5
      = Some (t2, length [0xff, 0xff, 0xff, 0xff, 0x0f :: byte], ll_of (of_nat (leval [0xff, 0xff, 0xff, 0xff, 0x0f])))"
    using decode_at_ok [of "[0xff, 0xff, 0xff, 0xff, 0x0f]" 5 rest t1] by auto
  then have d2: "decode_at t1 ([0xff, 0xff, 0xff, 0xff, 0x0f] @ rest) 5 = Some (t2, 5, \<lparr>ll_low = 0xffffffff, ll_hi = 0\<rparr>)"
    by (simp add: ll_of_def drop_bit_eq_div)
  have "(10 :: u32) AND 7 = 2" by simp
  with d1 d2 have w: "wiretype_decode junk ?m 6 0 = Some (Some (2 ^ 32 + 5, \<lparr>wire_id = 0x0a, a_low = 6, a_hi = 5\<rparr>))"
    by (simp add: wiretype_decode_def Let_def)
  have "drop (2 ^ 32 + 5) ?m = []" using assms by simp
  moreover have "wiretype_decode junk [] 1 s = None" for s by (simp add: wiretype_decode_def decode_at_def fill_temp_def)
  ultimately have "open_loop (length ?m + 2) junk ?m 6 0 [] = None"
    using w by (simp add: to_int32_def INNER_ATOM_def)
  with w show ?thesis by (simp add: pbcC_open_def)
qed

lemma open_length_wraps_witness:
  "wiretype_decode [] ([0x0a, 0xff, 0xff, 0xff, 0xff, 0x0f] @ []) 6 0
      = Some (Some (2 ^ 32 + 5, \<lparr>wire_id = 0x0a, a_low = 6, a_hi = 5\<rparr>))
    \<and> pbcC_open [] (Some ([0x0a, 0xff, 0xff, 0xff, 0xff, 0x0f] @ [])) 6 0 = None"
  by (rule open_length_wraps) simp

text \<open>
  C18: whatever the bytes are, a payload slice of a message shorter than 2 gigabytes is either
  inside the message or has its end in front of its start, also when parsing stops with an error
  later on; so a slice of non-negative length can be read.\<close>

theorem open_slices_inside:
  assumes "pbcC_open junk (Some buffer) sz g = Some (i, ctx, g')"
    and "0 \<le> sz" and "sz \<le> int (length buffer)" and "length buffer + 10 < 2 ^ 31"
  shows "list_all (\<lambda>a. if wire_id a AND 7 = WT_LEND \<and> a_start a \<le> a_end a
           then 0 \<le> a_start a \<and> a_end a \<le> sz else True) (ctx_atoms ctx)"
proof -
  have "list_all (in_message (0 + sz)) (ctx_atoms ctx)"
  proof (cases "sz = 0")
    case True
    then show ?thesis using assms(1) by (auto simp: pbcC_open_def)
  next
    case False
    then obtain d as where l: "open_loop (length buffer + 2) junk buffer sz 0 [] = Some (d, as)" and "ctx_atoms ctx = as"
      using assms(1) by (auto simp: pbcC_open_def ub_simps Let_def)
    moreover have "list_all (in_message (0 + sz)) as"
      by (rule open_loop_slices [OF l]) (use assms in auto)
    ultimately show ?thesis by simp
  qed
  then show ?thesis by (simp add: in_message_def list_all_iff)
qed

lemma open_run:
  "pbcC_open [] (Some [0x0a, 10, 1, 2, 3, 4, 5, 6, 7, 8, 9, 10, 0x0b]) 13 0
   = Some (- 1, \<lparr>ctx_buffer = [0x0a, 10, 1, 2, 3, 4, 5, 6, 7, 8, 9, 10, 0x0b], ctx_size = 13, ctx_number = None,
       ctx_atoms = [\<lparr>wire_id = 0x0a, a_low = 2, a_hi = 12\<rparr>], ctx_outer = False\<rparr>, 0)"
  by code_simp

lemma open_slices_inside_witness:
  "list_all (\<lambda>a. if wire_id a AND 7 = WT_LEND \<and> a_start a \<le> a_end a
           then 0 \<le> a_start a \<and> a_end a \<le> 13 else True) [\<lparr>wire_id = 0x0a, a_low = 2, a_hi = 12\<rparr>]"
  using open_slices_inside [OF open_run] by simp

lemma encode_not_empty: "pbcV_encode x \<noteq> []"
  by (subst encode_leb, subst leb.simps) simp

lemma encode_all_length: "length xs \<le> length (concat (map pbcV_encode xs))"
proof (induction xs)
  case (Cons x xs)
  have "0 < length (pbcV_encode x)" using encode_not_empty by simp
  moreover have "length (concat (map pbcV_encode (x # xs))) = length (pbcV_encode x) + length (concat (map pbcV_encode xs))" by simp
  ultimately show ?case using Cons unfolding list.size by linarith
qed simp

lemma packed_loop_open:
  "packed_loop (length (concat (map pbcV_encode xs) @ rest) + 2) junk (concat (map pbcV_encode xs) @ rest)
      (int (length (concat (map pbcV_encode xs)))) []
    = Some (map (\<lambda>v. \<lparr>wire_id = WT_VARINT, a_low = ll_low (ll_of v), a_hi = ll_hi (ll_of v)\<rparr>) (take INNER_ATOM xs),
        int (length (concat (map pbcV_encode (drop INNER_ATOM xs)))))"
  using packed_loop_ok [of xs "length (concat (map pbcV_encode xs) @ rest) + 2" junk rest "[]"] encode_all_length [of xs] by simp

text \<open>
  The packed varints of one field are split into one atom each, if there are at most 19 of them.\<close>

theorem open_packed_varints:
  assumes "xs \<noteq> []" and "length xs \<le> INNER_ATOM" and "ptype \<in> {3, 4, 5, 8, 13, 14, 17, 18}"
  shows "\<exists>ctx g'. pbcC_open_packed junk ptype (Some (concat (map pbcV_encode xs) @ rest)) (int (length (concat (map pbcV_encode xs)))) g
      = Some (int (length xs), ctx, g')
    \<and> map (\<lambda>a. u64_of_ll (a_low a) (a_hi a)) (ctx_atoms ctx) = xs \<and> pbcC_close ctx g' = g"
proof -
  let ?m = "concat (map pbcV_encode xs)"
  have "0 < length xs" using assms(1) by simp
  then have "int (length ?m) \<noteq> 0" using encode_all_length [of xs] by linarith
  then show ?thesis using assms(2,3) packed_loop_open [of xs rest junk]
    by (auto simp: pbcC_open_packed_def open_packed_varint_def pbcC_close_def Let_def u64_of_ll_of comp_def)
qed

text \<open>
  The twentieth varint is written behind the array of the context.\<close>

theorem open_packed_overflow:
  assumes "INNER_ATOM < length xs" and "ptype \<in> {3, 4, 5, 8, 13, 14, 17, 18}"
  shows "pbcC_open_packed junk ptype (Some (concat (map pbcV_encode xs) @ rest)) (int (length (concat (map pbcV_encode xs)))) g = None"
proof -
  have "0 < length (drop INNER_ATOM xs)" using assms(1) by simp
  then have "0 < int (length (concat (map pbcV_encode (drop INNER_ATOM xs))))"
    using encode_all_length [of "drop INNER_ATOM xs"] by linarith
  moreover have "int (length (concat (map pbcV_encode xs))) \<noteq> 0" using assms(1) encode_all_length [of xs] by linarith
  ultimately show ?thesis using assms(2) packed_loop_open [of xs rest junk]
    by (auto simp: pbcC_open_packed_def open_packed_varint_def Let_def)
qed

lemma open_packed_overflow_witness:
  "pbcC_open_packed [] 5 (Some (concat (map pbcV_encode (replicate 20 1)) @ [])) (int (length (concat (map pbcV_encode (replicate 20 1))))) 0 = None"
  by (rule open_packed_overflow) (simp_all add: INNER_ATOM_def PBC_CONTEXT_CAP_def)

lemma open_packed_varints_witness:
  "\<exists>ctx g'. pbcC_open_packed [] 5 (Some (concat (map pbcV_encode [1, 300]) @ [7])) (int (length (concat (map pbcV_encode [1, 300])))) 0
      = Some (int (length [1, 300 :: u64]), ctx, g')
    \<and> map (\<lambda>a. u64_of_ll (a_low a) (a_hi a)) (ctx_atoms ctx) = [1, 300] \<and> pbcC_close ctx g' = 0"
  by (rule open_packed_varints) (simp_all add: INNER_ATOM_def PBC_CONTEXT_CAP_def)

text \<open>
  Packed doubles are split into atoms that read back as the doubles written.\<close>

theorem open_packed_doubles:
  assumes "xs \<noteq> []"
  shows "\<exists>ctx g'. pbcC_open_packed junk 1 (Some (concat (map double_encode xs) @ rest)) (int (8 * length xs)) g
      = Some (int (length xs), ctx, g')
    \<and> map read_double (ctx_atoms ctx) = xs \<and> pbcC_close ctx g' = g"
proof -
  have "fixed_loop 64 (length xs) (concat (map double_encode xs) @ rest) 0
    = Some (map (\<lambda>e. \<lparr>wire_id = WT_BIT64, a_low = ucast e, a_hi = ucast (drop_bit 32 e)\<rparr>) xs)"
    using fixed_loop_64 [of "[]" xs rest] by simp
  moreover have "read_double \<lparr>wire_id = WT_BIT64, a_low = ucast e, a_hi = ucast (drop_bit 32 e)\<rparr> = e" for e
    using u64_of_ll_of [of e] by (simp add: read_double_def u64_of_ll_def ll_of_def)
  ultimately show ?thesis using assms
    by (simp add: pbcC_open_packed_def c_div_def pbcC_close_def pbcM_malloc_def pbcM_free_def Let_def comp_def)
qed

lemma open_packed_doubles_witness:
  "\<exists>ctx g'. pbcC_open_packed [] 1 (Some (concat (map double_encode [0x3ff0000000000000, 1]) @ [])) (int (8 * length [0x3ff0000000000000, 1 :: u64])) 0
      = Some (int (length [0x3ff0000000000000, 1 :: u64]), ctx, g')
    \<and> map read_double (ctx_atoms ctx) = [0x3ff0000000000000, 1] \<and> pbcC_close ctx g' = 0"
  by (rule open_packed_doubles) simp

end
