(* ===== verification/Proto.thy ===== *)
theory Proto
  imports MapTables Vararray Context StringPool
begin

section \<open>Message descriptors (pbc/src/proto.c, proto.h)\<close>

text \<open>
  An environment has three maps from names: files, enums and messages. Fields, messages and enums
  refer to each other by pointers and are changed after they were created, so they live in a
  store: a pointer to one is its number in \<open>st_fields\<close>, \<open>st_messages\<close> or \<open>st_enums\<close>. What is freed
  stays in the store; only the count of live blocks tells. All maps are \<open>malloc\<close>ed (no heap).
\<close>

abbreviation LABEL_OPTIONAL :: int where "LABEL_OPTIONAL \<equiv> 0"
abbreviation LABEL_REQUIRED :: int where "LABEL_REQUIRED \<equiv> 1"
abbreviation LABEL_REPEATED :: int where "LABEL_REPEATED \<equiv> 2"
abbreviation LABEL_PACKED :: int where "LABEL_PACKED \<equiv> 3"

abbreviation PBC_NOEXIST :: int where "PBC_NOEXIST \<equiv> - 1"
abbreviation PBC_INT :: int where "PBC_INT \<equiv> 1"
abbreviation PBC_REAL :: int where "PBC_REAL \<equiv> 2"
abbreviation PBC_BOOL :: int where "PBC_BOOL \<equiv> 3"
abbreviation PBC_ENUM :: int where "PBC_ENUM \<equiv> 4"
abbreviation PBC_STRING :: int where "PBC_STRING \<equiv> 5"
abbreviation PBC_MESSAGE :: int where "PBC_MESSAGE \<equiv> 6"
abbreviation PBC_FIXED64 :: int where "PBC_FIXED64 \<equiv> 7"
abbreviation PBC_FIXED32 :: int where "PBC_FIXED32 \<equiv> 8"
abbreviation PBC_BYTES :: int where "PBC_BYTES \<equiv> 9"
abbreviation PBC_INT64 :: int where "PBC_INT64 \<equiv> 10"
abbreviation PBC_UINT :: int where "PBC_UINT \<equiv> 11"
definition PBC_REPEATED :: int where "PBC_REPEATED = 128"

text \<open>
  \<open>union _pbc_var\<close>, with the member that was written last. A string is the memory from its
  pointer on, \<open>None\<close> for NULL, with its length; an enum value is its number and name; \<open>VNull\<close> is a union of which all bytes are
  zero. Numbers are bit patterns, so that integers and doubles can be read as each other. The
  other reads of a member that was not written last have no defined value here.
\<close>

datatype pbc_var =
    VNull
  | VInt u32 u32
  | VReal u64
  | VStr "byte list option" int
  | VEnum int "cstring option"

definition var_low :: "pbc_var \<Rightarrow> u32 option" where
  "var_low v = (case v of VNull \<Rightarrow> Some 0 | VInt lo h \<Rightarrow> Some lo | VReal d \<Rightarrow> Some (ucast d)
     | VEnum i n \<Rightarrow> Some (of_int i) | VStr s n \<Rightarrow> None)"

definition var_hi :: "pbc_var \<Rightarrow> u32 option" where
  "var_hi v = (case v of VNull \<Rightarrow> Some 0 | VInt lo h \<Rightarrow> Some h | VReal d \<Rightarrow> Some (ucast (drop_bit 32 d)) | _ \<Rightarrow> None)"

definition var_real :: "pbc_var \<Rightarrow> u64 option" where
  "var_real v = (case v of VNull \<Rightarrow> Some 0 | VReal d \<Rightarrow> Some d | VInt lo h \<Rightarrow> Some (u64_of_ll lo h) | _ \<Rightarrow> None)"

definition var_str :: "pbc_var \<Rightarrow> (byte list option \<times> int) option" where
  "var_str v = (case v of VNull \<Rightarrow> Some (None, 0) | VStr s n \<Rightarrow> Some (s, n) | _ \<Rightarrow> None)"

definition var_enum_id :: "pbc_var \<Rightarrow> int option" where
  "var_enum_id v = (case v of VEnum i n \<Rightarrow> Some i | _ \<Rightarrow> map_option sint (var_low v))"

definition var_enum_name :: "pbc_var \<Rightarrow> cstring option option" where
  "var_enum_name v = (case v of VNull \<Rightarrow> Some None | VEnum i n \<Rightarrow> Some n | _ \<Rightarrow> None)"

text \<open>\<open>type_name\<close>: the name at first, then the message or enum, which may be NULL.\<close>

datatype type_ref = TName "cstring option" | TMsg "nat option" | TEnum "nat option"

record pbc_field =
  pf_id :: int
  pf_name :: cstring
  pf_type :: int
  pf_label :: int
  pf_default :: pbc_var
  pf_tname :: type_ref

record pbc_message =
  pm_key :: cstring
  pm_id :: "nat map_ip option"
  pm_name :: "nat map_sp"
  pm_def :: bool

record pbc_enum =
  pe_key :: cstring
  pe_id :: "cstring map_ip"
  pe_name :: map_si
  pe_default :: pbc_var

record 'pool pbc_env =
  env_files :: "'pool map_sp"
  env_enums :: "nat map_sp"
  env_msgs :: "nat map_sp"
  env_lasterror :: string
  st_fields :: "pbc_field list"
  st_messages :: "pbc_message list"
  st_enums :: "pbc_enum list"

subsection \<open>Life of an environment\<close>

definition pbc_error :: "'pool pbc_env \<Rightarrow> string \<times> 'pool pbc_env" where
  "pbc_error p = (env_lasterror p, p\<lparr>env_lasterror := []\<rparr>)"

definition pbcP_get_message :: "'pool pbc_env \<Rightarrow> cstring \<Rightarrow> nat option option" where
  "pbcP_get_message p name = pbcM_sp_query (Some (env_msgs p)) name"

definition g_update :: "(int \<Rightarrow> int) \<Rightarrow> mem \<Rightarrow> mem" where
  "g_update f m = m\<lparr>mem_g := f (mem_g m)\<rparr>"

text \<open>\<open>pbc_new\<close> up to the call of \<open>_pbcB_init\<close>.\<close>

definition pbc_new_tables :: "mem \<Rightarrow> (mem \<times> 'pool pbc_env) option" where
  "pbc_new_tables m = do {
     let m = g_update pbcM_malloc m;
     (m, files) \<leftarrow> pbcM_sp_new 0 False m;
     (m, enums) \<leftarrow> pbcM_sp_new 0 False m;
     (m, msgs) \<leftarrow> pbcM_sp_new 0 False m;
     Some (m, \<lparr>env_files = files, env_enums = enums, env_msgs = msgs, env_lasterror = [],
               st_fields = [], st_messages = [], st_enums = []\<rparr>) }"

definition free_enum :: "pbc_enum \<Rightarrow> mem \<Rightarrow> mem" where
  "free_enum e m = g_update (\<lambda>g. pbcM_free (Some e) (pbcM_si_delete (pe_name e) (pbcM_ip_delete (Some (pe_id e)) g))) m"

definition free_stringpool :: "('pool \<Rightarrow> int \<Rightarrow> int) \<Rightarrow> 'pool \<Rightarrow> mem \<Rightarrow> mem" where
  "free_stringpool delete pool m = g_update (delete pool) m"

definition free_msg :: "pbc_message \<Rightarrow> mem \<Rightarrow> mem" where
  "free_msg msg m =
     (let m = (if pm_id msg \<noteq> None then g_update (pbcM_ip_delete (pm_id msg)) m else m);
          m = g_update (pbcM_free (if pm_def msg then Some msg else None)) m;
          m = pbcM_sp_foreach (pm_name msg) (\<lambda>f. g_update (pbcM_free (Some f))) m;
          m = pbcM_sp_delete (Some (pm_name msg)) m
      in g_update (pbcM_free (Some msg)) m)"

text \<open>\<open>delete\<close> is \<open>_pbcS_delete\<close> of a pool.\<close>

definition pbc_delete :: "('pool \<Rightarrow> int \<Rightarrow> int) \<Rightarrow> 'pool pbc_env \<Rightarrow> mem \<Rightarrow> mem option" where
  "pbc_delete delete p m = do {
     m \<leftarrow> pbcM_sp_foreach (env_enums p) (\<lambda>i mo. do { m \<leftarrow> mo; e \<leftarrow> rd (st_enums p) i; Some (free_enum e m) }) (Some m);
     let m = pbcM_sp_delete (Some (env_enums p)) m;
     m \<leftarrow> pbcM_sp_foreach (env_msgs p) (\<lambda>i mo. do { m \<leftarrow> mo; x \<leftarrow> rd (st_messages p) i; Some (free_msg x m) }) (Some m);
     let m = pbcM_sp_delete (Some (env_msgs p)) m;
     let m = pbcM_sp_foreach (env_files p) (free_stringpool delete) m;
     let m = pbcM_sp_delete (Some (env_files p)) m;
     Some (g_update (pbcM_free (Some p)) m) }"

subsection \<open>Enums\<close>

text \<open>The table pairs numbers with names; it serves for both directions.\<close>

definition names_of :: "kv_s list \<Rightarrow> cstring kv_p list" where
  "names_of table = map (\<lambda>kv. \<lparr>kvp_id = kvs_id kv, kvp_pointer = Some (kvs_pointer kv)\<rparr>) table"

definition pbcP_push_enum :: "'pool pbc_env \<Rightarrow> cstring \<Rightarrow> kv_s list \<Rightarrow> mem \<Rightarrow> (mem \<times> 'pool pbc_env \<times> nat option) option" where
  "pbcP_push_enum p name table m = do {
     check \<leftarrow> pbcM_sp_query (Some (env_enums p)) name;
     if check \<noteq> None then Some (m, p, None)
     else do {
       let m = g_update pbcM_malloc m;
       (g, ids) \<leftarrow> pbcM_ip_new (names_of table) (mem_g m);
       (g, nms) \<leftarrow> pbcM_si_new table g;
       kv \<leftarrow> rd table 0;
       let v = length (st_enums p);
       (m, enums) \<leftarrow> pbcM_sp_insert (env_enums p) name (Some v) (m\<lparr>mem_g := g\<rparr>);
       Some (m, p\<lparr>env_enums := enums,
                  st_enums := st_enums p @ [\<lparr>pe_key = name, pe_id = ids, pe_name = nms,
                    pe_default = VEnum (kvs_id kv) (Some (kvs_pointer kv))\<rparr>]\<rparr>, Some v) } }"

definition pbc_enum_id :: "'pool pbc_env \<Rightarrow> cstring \<Rightarrow> cstring \<Rightarrow> int option" where
  "pbc_enum_id env enum_type enum_name = do {
     e \<leftarrow> pbcM_sp_query (Some (env_enums env)) enum_type;
     case e of None \<Rightarrow> Some (- 1)
     | Some i \<Rightarrow> do {
         e \<leftarrow> rd (st_enums env) i;
         (err, v) \<leftarrow> pbcM_si_query (pe_name e) enum_name;
         Some (if err \<noteq> 0 then - 1 else case v of None \<Rightarrow> 0 | Some x \<Rightarrow> x) } }"

subsection \<open>Messages\<close>

text \<open>A message without fields, put into the map of messages.\<close>

definition new_message :: "'pool pbc_env \<Rightarrow> cstring \<Rightarrow> mem \<Rightarrow> (mem \<times> 'pool pbc_env \<times> nat) option" where
  "new_message p name m = do {
     let m = g_update pbcM_malloc m;
     (m, nm) \<leftarrow> pbcM_sp_new 0 False m;
     let i = length (st_messages p);
     (m, msgs) \<leftarrow> pbcM_sp_insert (env_msgs p) name (Some i) m;
     Some (m, p\<lparr>env_msgs := msgs,
                st_messages := st_messages p @ [\<lparr>pm_key = name, pm_id = None, pm_name = nm, pm_def = False\<rparr>]\<rparr>, i) }"

definition pbcP_push_message :: "'pool pbc_env \<Rightarrow> cstring \<Rightarrow> pbc_field \<Rightarrow> nat vararray \<Rightarrow> mem
    \<Rightarrow> (mem \<times> 'pool pbc_env \<times> nat vararray) option" where
  "pbcP_push_message p name f queue m = do {
     r \<leftarrow> pbcM_sp_query (Some (env_msgs p)) name;
     (m, p, i) \<leftarrow> (case r of None \<Rightarrow> new_message p name m | Some i \<Rightarrow> Some (m, p, i));
     let m = g_update pbcM_malloc m;
     let fi = length (st_fields p);
     let p = p\<lparr>st_fields := st_fields p @ [f]\<rparr>;
     msg \<leftarrow> rd (st_messages p) i;
     (m, nm) \<leftarrow> pbcM_sp_insert (pm_name msg) (pf_name f) (Some fi) m;
     let p = p\<lparr>st_messages := (st_messages p)[i := msg\<lparr>pm_name := nm\<rparr>]\<rparr>;
     if pf_type f = PTYPE_MESSAGE \<or> pf_type f = PTYPE_ENUM then do {
       (m, queue) \<leftarrow> pbcA_push queue fi m;
       Some (m, p, queue) }
     else Some (m, p, queue) }"

text \<open>\<open>_count\<close> and \<open>_set_table\<close> run over the map of the fields by name.\<close>

definition count_fields :: "nat map_sp \<Rightarrow> nat" where
  "count_fields mp = pbcM_sp_foreach_ud mp (\<lambda>p ud n. n + 1) () 0"

definition set_table :: "'pool pbc_env \<Rightarrow> nat map_sp \<Rightarrow> nat kv_p list option" where
  "set_table p mp =
     pbcM_sp_foreach_ud mp (\<lambda>fi ud t. do {
         t \<leftarrow> t; f \<leftarrow> rd (st_fields p) fi;
         Some (t @ [\<lparr>kvp_id = pf_id f, kvp_pointer = Some fi\<rparr>]) }) () (Some [])"

definition pbcP_init_message :: "'pool pbc_env \<Rightarrow> cstring \<Rightarrow> mem \<Rightarrow> (mem \<times> 'pool pbc_env \<times> nat) option" where
  "pbcP_init_message p name m = do {
     r \<leftarrow> pbcM_sp_query (Some (env_msgs p)) name;
     case r of None \<Rightarrow> new_message p name m
     | Some i \<Rightarrow> do {
         msg \<leftarrow> rd (st_messages p) i;
         let m = (if pm_id msg \<noteq> None then g_update (pbcM_ip_delete (pm_id msg)) m else m);
         let count = count_fields (pm_name msg);
         let m = g_update pbcM_malloc m;
         table \<leftarrow> set_table p (pm_name msg);
         if length table > count then None
         else do {
           (g, ids) \<leftarrow> pbcM_ip_new table (mem_g m);
           let m = m\<lparr>mem_g := pbcM_free (Some table) g\<rparr>;
           Some (m, p\<lparr>st_messages := (st_messages p)[i := msg\<lparr>pm_id := Some ids\<rparr>]\<rparr>, i) } } }"

text \<open>The default of a field; for an unknown key the two pointers of the result are NULL.\<close>

definition pbcP_message_default :: "'pool pbc_env \<Rightarrow> nat \<Rightarrow> cstring \<Rightarrow> (int \<times> pbc_var) option" where
  "pbcP_message_default p i name = do {
     msg \<leftarrow> rd (st_messages p) i;
     r \<leftarrow> pbcM_sp_query (Some (pm_name msg)) name;
     case r of None \<Rightarrow> Some (- 1, VNull)
     | Some fi \<Rightarrow> do { f \<leftarrow> rd (st_fields p) fi; Some (pf_type f, pf_default f) } }"

subsection \<open>Types for the callers\<close>

text \<open>
  The second result is what is stored in \<open>*type\<close>, if anything; \<open>want\<close> is whether that pointer is
  not NULL.\<close>

definition pbcP_type :: "bool \<Rightarrow> 'pool pbc_env \<Rightarrow> pbc_field option \<Rightarrow> (int \<times> cstring option) option" where
  "pbcP_type want p field =
     (case field of None \<Rightarrow> Some (0, None)
      | Some f \<Rightarrow> do {
          (ret, type) \<leftarrow>
            (let t = pf_type f in
             if t \<in> {PTYPE_DOUBLE, PTYPE_FLOAT} then Some (PBC_REAL, None)
             else if t \<in> {PTYPE_INT64, PTYPE_SINT64} then Some (PBC_INT64, None)
             else if t \<in> {PTYPE_INT32, PTYPE_SINT32} then Some (PBC_INT, None)
             else if t \<in> {PTYPE_UINT32, PTYPE_UINT64} then Some (PBC_UINT, None)
             else if t \<in> {PTYPE_FIXED32, PTYPE_SFIXED32} then Some (PBC_FIXED32, None)
             else if t \<in> {PTYPE_SFIXED64, PTYPE_FIXED64} then Some (PBC_FIXED64, None)
             else if t = PTYPE_BOOL then Some (PBC_BOOL, None)
             else if t = PTYPE_STRING then Some (PBC_STRING, None)
             else if t = PTYPE_BYTES then Some (PBC_BYTES, None)
             else if t = PTYPE_ENUM then
               if \<not> want then Some (PBC_ENUM, None) else
               (case pf_tname f of TEnum (Some i) \<Rightarrow> do { e \<leftarrow> rd (st_enums p) i; Some (PBC_ENUM, Some (pe_key e)) } | _ \<Rightarrow> None)
             else if t = PTYPE_MESSAGE then
               if \<not> want then Some (PBC_MESSAGE, None) else
               (case pf_tname f of TMsg (Some i) \<Rightarrow> do { x \<leftarrow> rd (st_messages p) i; Some (PBC_MESSAGE, Some (pm_key x)) } | _ \<Rightarrow> None)
             else Some (0, None));
          Some (if ret = 0 then 0
                else if pf_label f = LABEL_REPEATED \<or> pf_label f = LABEL_PACKED then ret OR PBC_REPEATED else ret, type) })"

definition pbc_type :: "bool \<Rightarrow> 'pool pbc_env \<Rightarrow> cstring \<Rightarrow> cstring option \<Rightarrow> (int \<times> cstring option) option" where
  "pbc_type want p type_name key = do {
     m \<leftarrow> pbcP_get_message p type_name;
     case m of None \<Rightarrow> Some (0, None)
     | Some i \<Rightarrow>
         (case key of None \<Rightarrow> Some (PBC_NOEXIST, None)
          | Some key \<Rightarrow> do {
              msg \<leftarrow> rd (st_messages p) i;
              r \<leftarrow> pbcM_sp_query (Some (pm_name msg)) key;
              f \<leftarrow> (case r of None \<Rightarrow> Some None | Some fi \<Rightarrow> map_option Some (rd (st_fields p) fi));
              pbcP_type want p f }) }"

subsection \<open>The fields of one message\<close>

text \<open>Message \<open>i\<close> is found under \<open>name\<close> and its map of names leads to the fields \<open>refs\<close>.\<close>

definition field_entry :: "'pool pbc_env \<Rightarrow> nat \<Rightarrow> cstring \<times> nat option" where
  "field_entry p fi = (pf_name (st_fields p ! fi), Some fi)"

definition field_name :: "'pool pbc_env \<Rightarrow> nat \<Rightarrow> cstring" where
  "field_name p fi = pf_name (st_fields p ! fi)"

definition msg_rep :: "'pool pbc_env \<Rightarrow> cstring \<Rightarrow> nat \<Rightarrow> nat list \<Rightarrow> bool" where
  "msg_rep p name i refs \<longleftrightarrow>
     sp_inv (env_msgs p) \<and> sp_abs (env_msgs p) name = Some (Some i) \<and> i < length (st_messages p)
     \<and> sp_inv (pm_name (st_messages p ! i)) \<and> sp_size (pm_name (st_messages p ! i)) = length refs
     \<and> sp_abs (pm_name (st_messages p ! i)) = map_of (map (field_entry p) refs)
     \<and> distinct (map (field_name p) refs) \<and> (\<forall>fi \<in> set refs. fi < length (st_fields p))"

lemma new_message_rep:
  assumes "sp_inv (env_msgs p)" and "sp_abs (env_msgs p) name = None" and "sp_size (env_msgs p) \<le> SP_LIMIT"
  obtains m' p' where "new_message p name m = Some (m', p', length (st_messages p))"
    and "msg_rep p' name (length (st_messages p)) []" and "st_fields p' = st_fields p"
    and "pm_id (st_messages p' ! length (st_messages p)) = None"
proof -
  obtain m1 and nm :: "nat map_sp" where n: "pbcM_sp_new 0 False (g_update pbcM_malloc m) = Some (m1, nm)"
    "sp_inv nm" "sp_abs nm = Map.empty" "sp_size nm = 0"
    by (rule new_ok [of 0 False]) simp_all
  obtain m2 msgs where i: "pbcM_sp_insert (env_msgs p) name (Some (length (st_messages p))) m1 = Some (m2, msgs)"
    "sp_inv msgs" "sp_abs msgs = (sp_abs (env_msgs p))(name \<mapsto> Some (length (st_messages p)))"
    using sp.ins [OF assms] by blast
  let ?p = "p\<lparr>env_msgs := msgs, st_messages := st_messages p @ [\<lparr>pm_key = name, pm_id = None, pm_name = nm, pm_def = False\<rparr>]\<rparr>"
  show thesis
    by (rule that [of m2 ?p]) (use n i in \<open>simp_all add: new_message_def Let_def msg_rep_def\<close>)
qed

lemma push_field_rep:
  assumes rep: "msg_rep p name i refs" and sz: "length refs \<le> SP_LIMIT"
    and new: "pf_name f \<notin> set (map (field_name p) refs)"
    and q: "arr_inv queue" "length (arr_list queue) \<le> PUSH_MAX"
  obtains m' p' queue' where "pbcP_push_message p name f queue m = Some (m', p', queue')"
    and "msg_rep p' name i (length (st_fields p) # refs)" and "st_fields p' = st_fields p @ [f]"
    and "arr_inv queue'" "length (arr_list queue') \<le> Suc (length (arr_list queue))"
    and "pm_id (st_messages p' ! i) = pm_id (st_messages p ! i)"
proof -
  let ?fi = "length (st_fields p)" and ?nm = "pm_name (st_messages p ! i)"
  note r = rep [unfolded msg_rep_def]
  have ql: "pbcM_sp_query (Some (env_msgs p)) name = Some (Some i)"
    using sp.query [of "env_msgs p" name] r by simp
  have "sp_abs ?nm (pf_name f) = None"
    using new r by (force simp: map_of_eq_None_iff field_entry_def field_name_def)
  then obtain m1 nm where ins: "pbcM_sp_insert ?nm (pf_name f) (Some ?fi) (g_update pbcM_malloc m) = Some (m1, nm)"
    "sp_inv nm" "sp_abs nm = (sp_abs ?nm)(pf_name f \<mapsto> Some ?fi)" "sp_size nm = sp_size ?nm + 1"
    using sp.ins [of ?nm "pf_name f" "Some ?fi" "g_update pbcM_malloc m"] r sz by auto
  define p' where "p' = p\<lparr>st_fields := st_fields p @ [f], st_messages := (st_messages p)[i := (st_messages p ! i)\<lparr>pm_name := nm\<rparr>]\<rparr>"
  obtain m2 queue2 where push: "pbcA_push queue ?fi m1 = Some (m2, queue2)" "arr_inv queue2" "arr_list queue2 = arr_list queue @ [?fi]"
    using va.push [OF q(1), of ?fi m1] q(2) by auto
  have e: "field_entry p' fi = field_entry p fi" if "fi \<in> set refs" for fi
    using r that by (simp add: field_entry_def p'_def nth_append)
  then have es: "map (field_entry p') refs = map (field_entry p) refs" by simp
  have e': "field_entry p' ?fi = (pf_name f, Some ?fi)" by (simp add: field_entry_def p'_def)
  have abs': "sp_abs nm = map_of (map (field_entry p') (?fi # refs))" using r ins(3) unfolding list.map es e' by simp
  have "map (field_name p') refs = map (field_name p) refs"
    using r by (simp add: p'_def nth_append field_name_def)
  moreover have "field_name p' ?fi = pf_name f" by (simp add: p'_def field_name_def)
  ultimately have dist: "distinct (map (field_name p') (?fi # refs))"
    unfolding list.map using r new by (simp only: distinct.simps simp_thms)
  have nm: "pm_name (st_messages p' ! i) = nm" "i < length (st_messages p')" "env_msgs p' = env_msgs p"
    "length (st_fields p') = Suc ?fi" using r by (simp_all add: p'_def)
  have "msg_rep p' name i (?fi # refs)"
    unfolding msg_rep_def nm(1,3,4) using r ins(2,4) abs' dist nm(2) by auto
  moreover have "st_fields p' = st_fields p @ [f]" "pm_id (st_messages p' ! i) = pm_id (st_messages p ! i)"
    using r by (simp_all add: p'_def)
  moreover have "pbcP_push_message p name f queue m =
      (if pf_type f = PTYPE_MESSAGE \<or> pf_type f = PTYPE_ENUM then Some (m2, p', queue2) else Some (m1, p', queue))"
    using ql r ins(1) push(1) by (simp add: pbcP_push_message_def rd_def Let_def p'_def)
  ultimately show thesis using push(2,3) q
    by (cases "pf_type f = PTYPE_MESSAGE \<or> pf_type f = PTYPE_ENUM") (auto intro: that)
qed

text \<open>The registration of the fields of a message, one after the other.\<close>

fun push_fields :: "'pool pbc_env \<Rightarrow> cstring \<Rightarrow> pbc_field list \<Rightarrow> nat vararray \<Rightarrow> mem
    \<Rightarrow> (mem \<times> 'pool pbc_env \<times> nat vararray) option" where
  "push_fields p name [] queue m = Some (m, p, queue)"
| "push_fields p name (f # fs) queue m = do {
     (m, p, queue) \<leftarrow> pbcP_push_message p name f queue m;
     push_fields p name fs queue m }"

lemma push_fields_rep:
  assumes "msg_rep p name i refs" and "length refs + length fs \<le> SP_LIMIT"
    and "distinct (map (field_name p) refs @ map pf_name fs)"
    and "arr_inv queue" "length (arr_list queue) + length fs \<le> PUSH_MAX"
  obtains m' p' queue' refs' where "push_fields p name fs queue m = Some (m', p', queue')"
    and "msg_rep p' name i (refs' @ refs)" and "map ((!) (st_fields p')) (rev refs') = fs"
    and "pm_id (st_messages p' ! i) = pm_id (st_messages p ! i)"
    and "\<exists>more. st_fields p' = st_fields p @ more"
  using assms
proof (induction fs arbitrary: p refs queue m thesis)
  case Nil
  show ?case by (rule Nil.prems(1) [of m p queue "[]"]) (use Nil.prems in auto)
next
  case (Cons f fs)
  have new: "pf_name f \<notin> set (map (field_name p) refs)" using Cons.prems by auto
  obtain m1 p1 q1 where s: "pbcP_push_message p name f queue m = Some (m1, p1, q1)"
    "msg_rep p1 name i (length (st_fields p) # refs)" "st_fields p1 = st_fields p @ [f]"
    "arr_inv q1" "length (arr_list q1) \<le> Suc (length (arr_list queue))"
    "pm_id (st_messages p1 ! i) = pm_id (st_messages p ! i)"
    by (rule push_field_rep [OF Cons.prems(2) _ new Cons.prems(5), of m]) (use Cons.prems in auto)
  have refs: "map (field_name p1) refs = map (field_name p) refs"
    using Cons.prems(2) by (auto simp: msg_rep_def s(3) nth_append field_name_def)
  have "field_name p1 (length (st_fields p)) = pf_name f" by (simp add: field_name_def s(3))
  then have dist: "distinct (map (field_name p1) (length (st_fields p) # refs) @ map pf_name fs)"
    unfolding list.map refs using Cons.prems(4) by simp
  obtain m2 p2 q2 refs' where t: "push_fields p1 name fs q1 m1 = Some (m2, p2, q2)"
    "msg_rep p2 name i (refs' @ length (st_fields p) # refs)" "map ((!) (st_fields p2)) (rev refs') = fs"
    "pm_id (st_messages p2 ! i) = pm_id (st_messages p1 ! i)" "\<exists>more. st_fields p2 = st_fields p1 @ more"
    by (rule Cons.IH [OF _ s(2) _ dist s(4), of m1]) (use Cons.prems s(5) in auto)
  have "st_fields p2 ! length (st_fields p) = f" using t(5) s(3) by (auto simp: nth_append)
  then have "map ((!) (st_fields p2)) (rev (refs' @ [length (st_fields p)])) = f # fs" using t(3) by simp
  moreover have "\<exists>more. st_fields p2 = st_fields p @ more" using t(5) s(3) by auto
  ultimately show ?case
    using s(1,6) t(1,2,4) by (intro Cons.prems(1) [of m2 p2 q2 "refs' @ [length (st_fields p)]"]) simp_all
qed

lemma set_table_foldl:
  "\<forall>fi \<in> set xs. fi < length (st_fields p) \<Longrightarrow>
   foldl (\<lambda>t fi. do { t \<leftarrow> t; f \<leftarrow> rd (st_fields p) fi; Some (t @ [\<lparr>kvp_id = pf_id f, kvp_pointer = Some fi\<rparr>]) }) (Some t) xs
     = Some (t @ map (\<lambda>fi. \<lparr>kvp_id = pf_id (st_fields p ! fi), kvp_pointer = Some fi\<rparr>) xs)"
  by (induction xs arbitrary: t) (simp_all add: rd_def)

lemma count_foldl: "foldl (\<lambda>n p. n + 1) k xs = k + length xs" for k :: nat
  by (induction xs arbitrary: k) simp_all

lemma set_table_rep:
  assumes "msg_rep p name i refs"
  obtains T where "set_table p (pm_name (st_messages p ! i)) = Some T" and "length T = count_fields (pm_name (st_messages p ! i))"
    and "set T = (\<lambda>fi. \<lparr>kvp_id = pf_id (st_fields p ! fi), kvp_pointer = Some fi\<rparr>) ` set refs"
    and "distinct (map kvp_pointer T)"
proof -
  let ?nm = "pm_name (st_messages p ! i)" and ?kv = "\<lambda>fi. \<lparr>kvp_id = pf_id (st_fields p ! fi), kvp_pointer = Some fi\<rparr>"
  note r = assms [unfolded msg_rep_def]
  let ?es = "map snd (sp_entries (sp_slot ?nm))"
  have inv: "sp_inv ?nm" using r by simp
  have es: "set (sp_entries (sp_slot ?nm)) = {(k, v). map_of (map (field_entry p) refs) k = Some (Some v)}"
    unfolding sp_entries_abs [OF inv] using r by simp
  have tab: "set_table p ?nm = Some (map ?kv ?es)" if "\<forall>fi \<in> set ?es. fi < length (st_fields p)"
    unfolding set_table_def foreach_entries [OF inv] by (simp only: set_table_foldl [OF that] append_Nil)
  have cnt: "count_fields ?nm = length ?es"
    unfolding count_fields_def foreach_entries [OF inv] by (simp only: count_foldl add_0)
  have "map fst (map (field_entry p) refs) = map (field_name p) refs" by (simp add: field_entry_def field_name_def)
  then have "distinct (map fst (map (field_entry p) refs))" using r by (simp only:)
  from map_of_eq_Some_iff [OF this]
  have mem: "kv \<in> set (sp_entries (sp_slot ?nm)) \<longleftrightarrow> (fst kv, Some (snd kv)) \<in> field_entry p ` set refs" for kv
    unfolding es by (cases kv) (simp del: map_map)
  have "kv \<in> set (sp_entries (sp_slot ?nm)) \<longleftrightarrow> (\<exists>fi \<in> set refs. kv = (field_name p fi, fi))" for kv
    unfolding mem by (auto simp: image_iff field_entry_def field_name_def prod_eq_iff)
  then have es': "set (sp_entries (sp_slot ?nm)) = (\<lambda>fi. (field_name p fi, fi)) ` set refs" by blast
  have se: "set ?es = set refs" unfolding set_map es' by (simp add: image_image)
  have "inj_on snd (set (sp_entries (sp_slot ?nm)))" unfolding es' by (auto intro!: inj_onI)
  moreover have "distinct (sp_entries (sp_slot ?nm))" using sp_entries_distinct [OF inv] by (simp only: distinct_map)
  ultimately have "distinct ?es" by (simp add: distinct_map)
  then have "distinct (map kvp_pointer (map ?kv ?es))" by (simp add: comp_def distinct_map inj_on_def)
  moreover have "set_table p ?nm = Some (map ?kv ?es)" by (rule tab) (use se r in simp)
  moreover have "set (map ?kv ?es) = ?kv ` set refs" unfolding set_map [of ?kv] se ..
  moreover have "length (map ?kv ?es) = count_fields ?nm" unfolding cnt by simp
  ultimately show thesis by (intro that [of "map ?kv ?es"])
qed

lemma init_rep:
  assumes rep: "msg_rep p name i refs" and "refs \<noteq> []" and "length refs \<le> SP_LIMIT"
    and ids: "distinct (map (\<lambda>fi. pf_id (st_fields p ! fi)) refs)"
  obtains m' p' ids where "pbcP_init_message p name m = Some (m', p', i)" and "msg_rep p' name i refs"
    and "st_fields p' = st_fields p" and "pm_id (st_messages p' ! i) = Some ids"
    and "pm_name (st_messages p' ! i) = pm_name (st_messages p ! i)"
    and "\<And>fi. fi \<in> set refs \<Longrightarrow> pbcM_ip_query (Some ids) (pf_id (st_fields p ! fi)) = Some (Some fi)"
proof -
  let ?kv = "\<lambda>fi. \<lparr>kvp_id = pf_id (st_fields p ! fi), kvp_pointer = Some fi\<rparr>"
  let ?msg = "st_messages p ! i"
  note r = rep [unfolded msg_rep_def]
  obtain T where T: "set_table p (pm_name ?msg) = Some T" "length T = count_fields (pm_name ?msg)"
    "set T = ?kv ` set refs" "distinct (map kvp_pointer T)" by (rule set_table_rep [OF rep])
  have d: "distinct refs" "inj_on (\<lambda>fi. pf_id (st_fields p ! fi)) (set refs)" using ids by (simp_all add: distinct_map)
  have "card (set T) = length refs" unfolding T(3) by (subst card_image) (auto simp: inj_on_def distinct_card d(1))
  moreover have "card (set T) = length T" using T(4) by (simp add: distinct_map distinct_card)
  ultimately have len: "length T = length refs" by simp
  have "inj_on kvp_id (set T)" unfolding T(3) using d(2) by (auto simp: inj_on_def)
  then have idT: "distinct (map kvp_id T)" using T(4) by (simp add: distinct_map)
  have ok: "ip_table_ok T"
    using idT len assms(2,3) T(3) by (auto simp: ip_table_ok_def SP_LIMIT_def)
  define m1 where "m1 = g_update pbcM_malloc (if pm_id ?msg \<noteq> None then g_update (pbcM_ip_delete (pm_id ?msg)) m else m)"
  obtain g mp where mp: "pbcM_ip_new T (mem_g m1) = Some (g, mp)" "ip_rep mp T" using ip_new_rep [OF ok] by blast
  let ?p = "p\<lparr>st_messages := (st_messages p)[i := ?msg\<lparr>pm_id := Some mp\<rparr>]\<rparr>"
  have "pbcM_sp_query (Some (env_msgs p)) name = Some (Some i)"
    using sp.query [of "env_msgs p" name] r by simp
  then have "pbcP_init_message p name m = Some (m1\<lparr>mem_g := pbcM_free (Some T) g\<rparr>, ?p, i)"
    using r T(1,2) mp(1) by (simp add: pbcP_init_message_def rd_def Let_def m1_def)
  moreover have "field_entry ?p = field_entry p" "field_name ?p = field_name p"
    by (simp_all add: fun_eq_iff field_entry_def field_name_def)
  then have "msg_rep ?p name i refs" using r by (simp add: msg_rep_def)
  moreover have "pbcM_ip_query (Some mp) (pf_id (st_fields p ! fi)) = Some (Some fi)" if "fi \<in> set refs" for fi
    using ip_query_rep [OF mp(2)] ip_look_Some [OF idT] T(3) that by auto
  ultimately show thesis using r by (intro that [of "m1\<lparr>mem_g := pbcM_free (Some T) g\<rparr>" ?p mp]) auto
qed

lemma new_tables_map:
  fixes mp :: "'v map_sp"
  assumes "pbcM_sp_new 0 h m = Some (m', mp)"
  shows "sp_inv mp \<and> sp_abs mp = Map.empty \<and> sp_size mp = 0"
proof -
  obtain m2 and mp2 :: "'v map_sp" where "pbcM_sp_new 0 h m = Some (m2, mp2)" "sp_inv mp2" "sp_abs mp2 = Map.empty" "sp_size mp2 = 0"
    by (rule new_ok [of 0 h m]) simp_all
  with assms show ?thesis by simp
qed

lemma new_tables_exist:
  obtains m1 and p :: "'pool pbc_env" where "pbc_new_tables m = Some (m1, p)"
proof -
  have new: "\<exists>m' mp. pbcM_sp_new 0 False m = Some (m', mp :: 'v map_sp)" for m
    by (rule new_ok [of 0 False m]) auto
  obtain m1 and f :: "'pool map_sp" where a: "pbcM_sp_new 0 False (g_update pbcM_malloc m) = Some (m1, f)" using new by blast
  obtain m2 and e :: "nat map_sp" where b: "pbcM_sp_new 0 False m1 = Some (m2, e)" using new by blast
  obtain m3 and x :: "nat map_sp" where c: "pbcM_sp_new 0 False m2 = Some (m3, x)" using new by blast
  show thesis by (rule that) (use a b c in \<open>simp add: pbc_new_tables_def Let_def\<close>)
qed

lemma map_of_Some_values: "map_of (map (\<lambda>x. (f x, Some (g x))) xs) k = map_option Some (map_of (map (\<lambda>x. (f x, g x)) xs) k)"
  by (induction xs) auto

lemma push_enum_ok:
  assumes "sp_inv (env_enums p)" and "sp_abs (env_enums p) name = None" and "sp_size (env_enums p) < 2 ^ 20"
    and "calc_hash name \<noteq> 0"
    and "table \<noteq> []" and "length table < 2 ^ 29" and "distinct (map kvs_pointer table)" and "distinct (map kvs_id table)"
  obtains m' e enums where "pbcP_push_enum p name table m = Some (m', p\<lparr>env_enums := enums, st_enums := st_enums p @ [e]\<rparr>, Some (length (st_enums p)))"
    and "pbcM_sp_query (Some enums) name = Some (Some (length (st_enums p)))"
    and "\<And>key. pbcM_si_query (pe_name e) key = Some (case map_of (map (\<lambda>kv. (kvs_pointer kv, kvs_id kv)) table) key of Some v \<Rightarrow> (0, Some v) | None \<Rightarrow> (1, None))"
    and "\<And>i. pbcM_ip_query (Some (pe_id e)) i = Some (map_of (map (\<lambda>kv. (kvs_id kv, kvs_pointer kv)) table) i)"
    and "pe_default e = VEnum (kvs_id (hd table)) (Some (kvs_pointer (hd table)))"
proof -
  let ?T = "names_of table"
  have T: "map kvp_id ?T = map kvs_id table" "length ?T = length table" by (simp_all add: names_of_def)
  have ok: "ip_table_ok ?T" unfolding ip_table_ok_def T using assms(5,6,8) by (auto simp: names_of_def)
  let ?m = "g_update pbcM_malloc m"
  obtain g ids where ids: "pbcM_ip_new ?T (mem_g ?m) = Some (g, ids)" "ip_rep ids ?T" using ip_new_rep [OF ok] by blast
  have len: "length table < 2 ^ 31" using assms(6) by simp
  note si = si_new_lookup [OF assms(5) len assms(7), of g]
  obtain g2 nms where nms: "pbcM_si_new table g = Some (g2, nms)" using si by blast
  let ?i = "length (st_enums p)"
  have "sp_size (env_enums p) \<le> SP_LIMIT" using assms(3) by (simp add: SP_LIMIT_def)
  then obtain m2 enums where ins: "pbcM_sp_insert (env_enums p) name (Some ?i) (?m\<lparr>mem_g := g2\<rparr>) = Some (m2, enums)"
    "sp_inv enums" "sp_abs enums = (sp_abs (env_enums p))(name \<mapsto> Some ?i)"
    using sp.ins [OF assms(1,2), of "Some ?i" "?m\<lparr>mem_g := g2\<rparr>"] by blast
  let ?e = "\<lparr>pe_key = name, pe_id = ids, pe_name = nms, pe_default = VEnum (kvs_id (hd table)) (Some (kvs_pointer (hd table)))\<rparr>"
  have q0: "pbcM_sp_query (Some (env_enums p)) name = Some None" using sp.query [OF assms(1), of name] assms(2,4) by simp
  have "rd table 0 = Some (hd table)" using assms(5) by (cases table) auto
  then have push: "pbcP_push_enum p name table m = Some (m2, p\<lparr>env_enums := enums, st_enums := st_enums p @ [?e]\<rparr>, Some ?i)"
    using q0 ids(1) nms ins(1) by (simp add: pbcP_push_enum_def Let_def)
  have "ip_look ?T i = map_of (map (\<lambda>kv. (kvs_id kv, kvs_pointer kv)) table) i" for i
    by (cases "map_of (map (\<lambda>kv. (kvs_id kv, kvs_pointer kv)) table) i") (simp_all add: ip_look_def names_of_def comp_def map_of_Some_values)
  then show thesis
    using push sp.query [OF ins(2), of name] ins(3) assms(4) nms si ip_query_rep [OF ids(2)]
    by (intro that [of m2 ?e enums]) simp_all
qed

subsection \<open>Properties\<close>

text \<open>
  C32: a message whose fields, of distinct names and numbers, are registered one after the other
  leads from each name and from each number to the field as it was registered.\<close>

theorem init_message_lookup:
  assumes "pbc_new_tables m = Some (m1, p)" and "fs \<noteq> []" and "length fs \<le> 2 ^ 20"
    and "distinct (map pf_name fs)" and "distinct (map pf_id fs)" and "calc_hash name \<noteq> 0"
  shows "\<exists>m2 p2 queue m3 p3 i msg. push_fields p name fs pbcA_open m1 = Some (m2, p2, queue)
    \<and> pbcP_init_message p2 name m2 = Some (m3, p3, i) \<and> pbcP_get_message p3 name = Some (Some i)
    \<and> rd (st_messages p3) i = Some msg
    \<and> list_all (\<lambda>f. \<exists>fi. rd (st_fields p3) fi = Some f \<and> pbcM_sp_query (Some (pm_name msg)) (pf_name f) = Some (Some fi)
         \<and> pbcM_ip_query (pm_id msg) (pf_id f) = Some (Some fi)) fs"
proof -
  have p: "sp_inv (env_msgs p)" "sp_abs (env_msgs p) = Map.empty" "sp_size (env_msgs p) = 0" "st_fields p = []"
    using assms(1) by (auto simp: pbc_new_tables_def ub_simps Let_def dest!: new_tables_map)
  obtain f0 fs0 where fs: "fs = f0 # fs0" using assms(2) by (cases fs) auto
  let ?i = "length (st_messages p)"
  obtain m0 p0 where n: "new_message p name m1 = Some (m0, p0, ?i)" "msg_rep p0 name ?i []" "st_fields p0 = st_fields p"
    by (rule new_message_rep [OF p(1), of name m1]) (simp_all add: p)
  have "pbcM_sp_query (Some (env_msgs p)) name = Some None"
    using sp.query [OF p(1), of name] assms(6) p(2) by simp
  moreover have "pbcM_sp_query (Some (env_msgs p0)) name = Some (Some ?i)"
    using sp.query [of "env_msgs p0" name] n(2) by (simp add: msg_rep_def)
  ultimately have "pbcP_push_message p name f q m1 = pbcP_push_message p0 name f q m0" for f q
    using n(1) by (simp add: pbcP_push_message_def)
  then have first: "push_fields p name fs pbcA_open m1 = push_fields p0 name fs pbcA_open m0" by (simp add: fs)
  obtain m2 p2 queue refs where r: "push_fields p0 name fs pbcA_open m0 = Some (m2, p2, queue)"
    "msg_rep p2 name ?i (refs @ [])" "map ((!) (st_fields p2)) (rev refs) = fs"
    by (rule push_fields_rep [OF n(2), of fs pbcA_open m0])
      (use assms in \<open>simp_all add: SP_LIMIT_def open_inv PUSH_MAX_def\<close>)
  have len: "length refs = length fs" using r(3) by (metis length_map length_rev)
  have "rev (map (\<lambda>fi. pf_id (st_fields p2 ! fi)) refs) = map pf_id fs"
    unfolding r(3) [symmetric] by (simp add: rev_map)
  then have ids: "distinct (map (\<lambda>fi. pf_id (st_fields p2 ! fi)) refs)" using assms(5) by (metis distinct_rev)
  obtain m3 p3 mp where s: "pbcP_init_message p2 name m2 = Some (m3, p3, ?i)" "msg_rep p3 name ?i refs"
    "st_fields p3 = st_fields p2" "pm_id (st_messages p3 ! ?i) = Some mp"
    "\<And>fi. fi \<in> set refs \<Longrightarrow> pbcM_ip_query (Some mp) (pf_id (st_fields p2 ! fi)) = Some (Some fi)"
    by (rule init_rep [of p2 name ?i refs m2]) (use r(2) len assms(2,3) ids in \<open>auto simp: SP_LIMIT_def\<close>)
  note rep = s(2) [unfolded msg_rep_def]
  have q: "pbcM_sp_query (Some (pm_name (st_messages p3 ! ?i))) (field_name p3 fi) = Some (Some fi)"
    if fi: "fi \<in> set refs" for fi
  proof -
    have "map_of (map (field_entry p3) refs) (field_name p3 fi) = Some (Some fi)"
    proof (rule map_of_is_SomeI)
      have "map fst (map (field_entry p3) refs) = map (field_name p3) refs" by (simp add: field_entry_def field_name_def)
      then show "distinct (map fst (map (field_entry p3) refs))" using rep by (simp only:)
      show "(field_name p3 fi, Some fi) \<in> set (map (field_entry p3) refs)"
        using fi by (force simp: field_entry_def field_name_def)
    qed
    then show ?thesis using sp.query [of "pm_name (st_messages p3 ! ?i)" "field_name p3 fi"] rep by simp
  qed
  have "\<exists>fi. rd (st_fields p3) fi = Some f \<and> pbcM_sp_query (Some (pm_name (st_messages p3 ! ?i))) (pf_name f) = Some (Some fi)
      \<and> pbcM_ip_query (pm_id (st_messages p3 ! ?i)) (pf_id f) = Some (Some fi)" if "f \<in> set fs" for f
  proof -
    obtain fi where fi: "fi \<in> set refs" "f = st_fields p3 ! fi" using \<open>f \<in> set fs\<close> unfolding r(3) [symmetric] s(3) by auto
    then have "rd (st_fields p3) fi = Some f" using rep by (simp add: rd_def)
    with fi q s(3-5) show ?thesis by (auto simp: field_name_def)
  qed
  moreover have "pbcP_get_message p3 name = Some (Some ?i)"
    using sp.query [of "env_msgs p3" name] rep by (simp add: pbcP_get_message_def)
  moreover have "rd (st_messages p3) ?i = Some (st_messages p3 ! ?i)" using rep by (simp add: rd_def)
  ultimately show ?thesis using first r(1) s(1) by (auto simp: list_all_iff)
qed

definition person_fields :: "pbc_field list" where
  "person_fields =
     [\<lparr>pf_id = 1, pf_name = cstr ''name'', pf_type = PTYPE_STRING, pf_label = LABEL_OPTIONAL, pf_default = VStr (Some [0]) 0, pf_tname = TName None\<rparr>,
      \<lparr>pf_id = 2, pf_name = cstr ''id'', pf_type = PTYPE_INT32, pf_label = LABEL_OPTIONAL, pf_default = VInt 0 0, pf_tname = TName None\<rparr>,
      \<lparr>pf_id = 900, pf_name = cstr ''score'', pf_type = PTYPE_INT32, pf_label = LABEL_PACKED, pf_default = VInt 0 0, pf_tname = TName None\<rparr>]"

definition no_mem :: mem where
  "no_mem = \<lparr>mem_g = 0, mem_heap = \<lparr>hp_pages = [1024], hp_size = 1024, hp_used = 0\<rparr>\<rparr>"

lemma init_message_lookup_witness:
  "case pbc_new_tables no_mem of None \<Rightarrow> False
   | Some (m1, p) \<Rightarrow> \<exists>m2 p2 queue m3 p3 i msg. push_fields (p :: stringpool pbc_env) (cstr ''Person'') person_fields pbcA_open m1 = Some (m2, p2, queue)
    \<and> pbcP_init_message p2 (cstr ''Person'') m2 = Some (m3, p3, i) \<and> pbcP_get_message p3 (cstr ''Person'') = Some (Some i)
    \<and> rd (st_messages p3) i = Some msg
    \<and> list_all (\<lambda>f. \<exists>fi. rd (st_fields p3) fi = Some f \<and> pbcM_sp_query (Some (pm_name msg)) (pf_name f) = Some (Some fi)
         \<and> pbcM_ip_query (pm_id msg) (pf_id f) = Some (Some fi)) person_fields"
proof -
  obtain m1 and p :: "stringpool pbc_env" where n: "pbc_new_tables no_mem = Some (m1, p)" by (rule new_tables_exist)
  have h: "calc_hash (cstr ''Person'') \<noteq> 0" by code_simp
  show ?thesis unfolding n option.case prod.case
    by (rule init_message_lookup [OF n _ _ _ _ h]) (simp_all add: person_fields_def cstr_def of_char_def)
qed

text \<open>
  C33: an enum registered from pairs of distinct names and numbers answers every name with its
  number, an unknown name with -1 and a number with its name; an enum name that is taken is refused.\<close>

theorem push_enum_lookup:
  assumes "sp_inv (env_enums p)" and "sp_abs (env_enums p) name = None" and "sp_size (env_enums p) < 2 ^ 20"
    and "calc_hash name \<noteq> 0"
    and "table \<noteq> []" and "length table < 2 ^ 29" and "distinct (map kvs_pointer table)" and "distinct (map kvs_id table)"
  shows "\<exists>m' p' i e. pbcP_push_enum p name table m = Some (m', p', Some i) \<and> rd (st_enums p') i = Some e
    \<and> pbc_enum_id p' name key = Some (case map_of (map (\<lambda>kv. (kvs_pointer kv, kvs_id kv)) table) key of Some v \<Rightarrow> v | None \<Rightarrow> - 1)
    \<and> list_all (\<lambda>kv. pbcM_ip_query (Some (pe_id e)) (kvs_id kv) = Some (Some (kvs_pointer kv))) table
    \<and> pbcP_push_enum p' name table2 m' = Some (m', p', None)"
proof -
  obtain m' e enums where *: "pbcP_push_enum p name table m = Some (m', p\<lparr>env_enums := enums, st_enums := st_enums p @ [e]\<rparr>, Some (length (st_enums p)))"
    "pbcM_sp_query (Some enums) name = Some (Some (length (st_enums p)))"
    "\<And>key. pbcM_si_query (pe_name e) key = Some (case map_of (map (\<lambda>kv. (kvs_pointer kv, kvs_id kv)) table) key of Some v \<Rightarrow> (0, Some v) | None \<Rightarrow> (1, None))"
    "\<And>i. pbcM_ip_query (Some (pe_id e)) i = Some (map_of (map (\<lambda>kv. (kvs_id kv, kvs_pointer kv)) table) i)"
    "pe_default e = VEnum (kvs_id (hd table)) (Some (kvs_pointer (hd table)))"
    by (rule push_enum_ok [OF assms, of m], rule that)
  let ?p = "p\<lparr>env_enums := enums, st_enums := st_enums p @ [e]\<rparr>"
  have r: "rd (st_enums ?p) (length (st_enums p)) = Some e" by (simp add: rd_def nth_append)
  have "map_of (map (\<lambda>kv. (kvs_id kv, kvs_pointer kv)) table) (kvs_id kv) = Some (kvs_pointer kv)" if "kv \<in> set table" for kv
    by (rule map_of_is_SomeI) (use assms(8) that in \<open>simp_all add: comp_def rev_image_eqI\<close>)
  moreover have "pbc_enum_id ?p name key = Some (case map_of (map (\<lambda>kv. (kvs_pointer kv, kvs_id kv)) table) key of Some v \<Rightarrow> v | None \<Rightarrow> - 1)"
    using *(2) r *(3) [of key] by (simp add: pbc_enum_id_def split: option.split)
  moreover have "pbcP_push_enum ?p name table2 m' = Some (m', ?p, None)" using *(2) by (simp add: pbcP_push_enum_def)
  ultimately show ?thesis using *(1) r *(4)
    by (intro exI [of _ m'] exI [of _ ?p] exI [of _ "length (st_enums p)"] exI [of _ e]) (simp add: list_all_iff)
qed

definition phone_types :: "kv_s list" where
  "phone_types = [\<lparr>kvs_id = 0, kvs_pointer = cstr ''MOBILE''\<rparr>, \<lparr>kvs_id = 1, kvs_pointer = cstr ''HOME''\<rparr>, \<lparr>kvs_id = - 7, kvs_pointer = cstr ''WORK''\<rparr>]"

lemma push_enum_lookup_witness:
  "case pbc_new_tables no_mem of None \<Rightarrow> False
   | Some (m1, p) \<Rightarrow> \<exists>m' p' i e. pbcP_push_enum (p :: stringpool pbc_env) (cstr ''PhoneType'') phone_types m1 = Some (m', p', Some i)
    \<and> rd (st_enums p') i = Some e
    \<and> pbc_enum_id p' (cstr ''PhoneType'') (cstr ''HOME'') = Some (case map_of (map (\<lambda>kv. (kvs_pointer kv, kvs_id kv)) phone_types) (cstr ''HOME'') of Some v \<Rightarrow> v | None \<Rightarrow> - 1)
    \<and> list_all (\<lambda>kv. pbcM_ip_query (Some (pe_id e)) (kvs_id kv) = Some (Some (kvs_pointer kv))) phone_types
    \<and> pbcP_push_enum p' (cstr ''PhoneType'') [] m' = Some (m', p', None)"
proof -
  obtain m1 and p :: "stringpool pbc_env" where n: "pbc_new_tables no_mem = Some (m1, p)" by (rule new_tables_exist)
  have h: "calc_hash (cstr ''PhoneType'') \<noteq> 0" by code_simp
  have p: "sp_inv (env_enums p)" "sp_abs (env_enums p) = Map.empty" "sp_size (env_enums p) = 0"
    using n by (auto simp: pbc_new_tables_def ub_simps Let_def dest!: new_tables_map)
  show ?thesis unfolding n option.case prod.case
    by (rule push_enum_lookup [OF p(1) _ _ h]) (simp_all add: p phone_types_def cstr_def of_char_def)
qed

end
