(* ===== verification/FloatBits.thy ===== *)
theory FloatBits
  imports Ieee
begin

section \<open>Conversions between float and double\<close>

text \<open>
  Where the C code assigns a \<open>double\<close> to a \<open>float\<close> or the other way round, the bit pattern is
  converted: to the nearest representable number, ties to even, with overflow to infinity, and
  NaNs made quiet. A pattern is its sign, exponent and mantissa as natural numbers; a finite
  number is \<open>M * 2^x\<close>. \<open>rnd p emin M x\<close> is the pattern, without sign, of that number in the format
  with \<open>p\<close> significant bits whose smallest number is \<open>2^emin\<close>.
\<close>

definition rne :: "nat \<Rightarrow> nat \<Rightarrow> nat" where
  "rne k s = (let q = k div 2 ^ s; r = k mod 2 ^ s
              in if 2 * r > 2 ^ s \<or> 2 * r = 2 ^ s \<and> odd q then q + 1 else q)"

definition rnd :: "nat \<Rightarrow> int \<Rightarrow> nat \<Rightarrow> int \<Rightarrow> nat" where
  "rnd p emin k x =
     (if k = 0 then 0
      else let t = max (x + int (nbits k) - int p) emin; s = t - x;
               q = (if s \<le> 0 then k * 2 ^ nat (- s) else rne k (nat s))
           in nat (t - emin) * 2 ^ (p - 1) + q)"

definition f2d :: "u32 \<Rightarrow> u64" where
  "f2d f =
     (let n = unat f; s = n div 2 ^ 31; ex = n div 2 ^ 23 mod 2 ^ 8; mn = n mod 2 ^ 23;
          b = (if ex = 255 then 2047 * 2 ^ 52 + (if mn = 0 then 0 else 2 ^ 51 + mn mod 2 ^ 22 * 2 ^ 29)
               else if ex = 0 then rnd 53 (- 1074) mn (- 149)
               else rnd 53 (- 1074) (mn + 2 ^ 23) (int ex - 150))
      in of_nat (s * 2 ^ 63 + b))"

definition d2f :: "u64 \<Rightarrow> u32" where
  "d2f d =
     (let n = unat d; s = n div 2 ^ 63; ex = n div 2 ^ 52 mod 2 ^ 11; mn = n mod 2 ^ 52;
          b = (if ex = 2047 then 255 * 2 ^ 23 + (if mn = 0 then 0 else 2 ^ 22 + mn div 2 ^ 29 mod 2 ^ 22)
               else min (255 * 2 ^ 23)
                 (if ex = 0 then rnd 24 (- 149) mn (- 1074)
                  else rnd 24 (- 149) (mn + 2 ^ 52) (int ex - 1075)))
      in of_nat (s * 2 ^ 31 + b))"

text \<open>The operator \<open>==\<close> on doubles.\<close>

definition dbl_nan :: "u64 \<Rightarrow> bool" where
  "dbl_nan d \<longleftrightarrow> unat d mod 2 ^ 63 > 2047 * 2 ^ 52"

definition dbl_eq :: "u64 \<Rightarrow> u64 \<Rightarrow> bool" where
  "dbl_eq a b \<longleftrightarrow> \<not> dbl_nan a \<and> \<not> dbl_nan b \<and> (a = b \<or> unat a mod 2 ^ 63 = 0 \<and> unat b mod 2 ^ 63 = 0)"

definition flt_nan :: "u32 \<Rightarrow> bool" where
  "flt_nan f \<longleftrightarrow> unat f mod 2 ^ 31 > 255 * 2 ^ 23"

lemma rne_exact: "rne (k * 2 ^ s) s = k"
  by (simp add: rne_def)

text \<open>Widening a number of at most 24 bits only shifts it.\<close>

lemma rnd_widen:
  assumes "0 < k" and "k < 2 ^ 24" and "- 149 \<le> x"
  shows "rnd 53 (- 1074) k x = nat (x + int (nbits k) + 1021) * 2 ^ 52 + k * 2 ^ (53 - nbits k)"
    and "2 ^ 52 \<le> k * 2 ^ (53 - nbits k)" and "k * 2 ^ (53 - nbits k) < 2 ^ 53"
proof -
  have n: "nbits k \<le> 24" by (rule nbits_le [OF assms(2)])
  have e: "2 ^ nbits k * 2 ^ (53 - nbits k) = (2 ^ 53 :: nat)" using n by (simp flip: power_add)
  have "2 ^ nbits k * 2 ^ (53 - nbits k) \<le> 2 * k * 2 ^ (53 - nbits k)"
    by (rule mult_right_mono [OF nbits_lower [OF assms(1)]]) simp
  then show "2 ^ 52 \<le> k * 2 ^ (53 - nbits k)" unfolding e by simp
  have "k * 2 ^ (53 - nbits k) < 2 ^ nbits k * 2 ^ (53 - nbits k)"
    by (rule mult_strict_right_mono [OF nbits_upper]) simp
  then show "k * 2 ^ (53 - nbits k) < 2 ^ 53" unfolding e .
  have "max (x + int (nbits k) - 53) (- 1074) = x + int (nbits k) - 53" using assms(3) by simp
  moreover have "nat (53 - int (nbits k)) = 53 - nbits k" by simp
  ultimately show "rnd 53 (- 1074) k x = nat (x + int (nbits k) + 1021) * 2 ^ 52 + k * 2 ^ (53 - nbits k)"
    using assms(1) n by (simp add: rnd_def Let_def algebra_simps)
qed

lemma rnd_narrow:
  assumes "nbits q = 53" and "- 149 \<le> x"
  shows "rnd 24 (- 149) q (x - 29) = nat (x + 149) * 2 ^ 23 + rne q 29"
proof -
  have "q \<noteq> 0" using assms(1) by (intro notI) simp
  moreover have "max (x - 29 + 53 - 24) (- 149) = x" using assms(2) by simp
  ultimately show ?thesis by (simp add: rnd_def Let_def assms)
qed

lemma pattern_parts:
  fixes s b :: nat
  assumes "s < 2" and "b < 2 ^ 63"
  shows "unat (of_nat (s * 2 ^ 63 + b) :: u64) = s * 2 ^ 63 + b" "(s * 2 ^ 63 + b) div 2 ^ 63 = s"
    "(s * 2 ^ 63 + b) div 2 ^ 52 mod 2 ^ 11 = b div 2 ^ 52" "(s * 2 ^ 63 + b) mod 2 ^ 52 = b mod 2 ^ 52"
proof -
  have "s * 2 ^ 63 + b < 2 ^ 64" using assms by simp
  then show "unat (of_nat (s * 2 ^ 63 + b) :: u64) = s * 2 ^ 63 + b"
    by (simp only: unsigned_of_nat take_bit_eq_mod) simp
  show "(s * 2 ^ 63 + b) div 2 ^ 63 = s" using assms by simp
  have e: "s * 2 ^ 63 + b = b + s * 2 ^ 11 * 2 ^ 52" by simp
  have "(s * 2 ^ 63 + b) div 2 ^ 52 = s * 2 ^ 11 + b div 2 ^ 52" unfolding e by (subst div_mult_self1) simp_all
  moreover have "b div 2 ^ 52 < 2 ^ 11" using assms by (simp add: less_mult_imp_div_less)
  ultimately show "(s * 2 ^ 63 + b) div 2 ^ 52 mod 2 ^ 11 = b div 2 ^ 52" by simp
  show "(s * 2 ^ 63 + b) mod 2 ^ 52 = b mod 2 ^ 52" unfolding e by (simp only: mod_mult_self1)
qed

lemma d2f_pattern:
  fixes s b :: nat
  assumes "s < 2" and "b < 2 ^ 63"
  shows "d2f (of_nat (s * 2 ^ 63 + b)) = of_nat (s * 2 ^ 31 +
    (if b div 2 ^ 52 = 2047 then 255 * 2 ^ 23 + (if b mod 2 ^ 52 = 0 then 0 else 2 ^ 22 + b mod 2 ^ 52 div 2 ^ 29 mod 2 ^ 22)
     else min (255 * 2 ^ 23)
       (if b div 2 ^ 52 = 0 then rnd 24 (- 149) (b mod 2 ^ 52) (- 1074)
        else rnd 24 (- 149) (b mod 2 ^ 52 + 2 ^ 52) (int (b div 2 ^ 52) - 1075))))"
  unfolding d2f_def Let_def pattern_parts [OF assms] ..

lemma f2d_finite:
  assumes k: "0 < k" "k < 2 ^ 24" and x: "- 149 \<le> x" "x \<le> 104" and s: "s < 2"
    and d: "d = of_nat (s * 2 ^ 63 + rnd 53 (- 1074) k x)"
  shows "d2f d = of_nat (s * 2 ^ 31 + min (255 * 2 ^ 23) (rnd 24 (- 149) (k * 2 ^ (53 - nbits k)) (x + int (nbits k) - 53)))"
proof -
  define q t where "q = k * 2 ^ (53 - nbits k)" and "t = nat (x + int (nbits k) + 1021)"
  have q: "2 ^ 52 \<le> q" "q < 2 ^ 53" unfolding q_def by (rule rnd_widen [OF k x(1)])+
  have n: "nbits k \<le> 24" by (rule nbits_le [OF k(2)])
  have t: "t + 1 < 2 ^ 11" "int t = x + int (nbits k) + 1021" using n x by (simp_all add: t_def)
  have b: "rnd 53 (- 1074) k x = t * 2 ^ 52 + q" unfolding q_def t_def by (rule rnd_widen [OF k x(1)])
  have bq: "t * 2 ^ 52 + q = (q - 2 ^ 52) + (t + 1) * 2 ^ 52" using q by simp
  have q': "q - 2 ^ 52 < 2 ^ 52" using q by simp
  have bd: "(t * 2 ^ 52 + q) div 2 ^ 52 = t + 1" "(t * 2 ^ 52 + q) mod 2 ^ 52 = q - 2 ^ 52"
    unfolding bq by (subst div_mult_self1, simp_all only: mod_mult_self1 mod_less [OF q'] div_less [OF q']) simp_all
  have b63: "t * 2 ^ 52 + q < 2 ^ 63"
  proof -
    have "(t + 1) * 2 ^ 52 \<le> (2 ^ 11 - 1) * 2 ^ 52" using t(1) by (intro mult_right_mono) simp_all
    then show ?thesis unfolding bq using q' by simp
  qed
  have ex: "t + 1 \<noteq> 2047" "t + 1 \<noteq> 0" using t n x by auto
  have "int (t + 1) - 1075 = x + int (nbits k) - 53" using t(2) by simp
  moreover have "q - 2 ^ 52 + 2 ^ 52 = q" using q by simp
  ultimately show ?thesis
    unfolding d b d2f_pattern [OF s b63] bd q_def [symmetric] using ex by (simp only: if_False simp_thms)
qed

lemma d2f_f2d: "\<not> flt_nan f \<Longrightarrow> d2f (f2d f) = f"
proof -
  assume nan: "\<not> flt_nan f"
  define n s ex mn where "n = unat f" and "s = n div 2 ^ 31" and "ex = n div 2 ^ 23 mod 2 ^ 8" and "mn = n mod 2 ^ 23"
  have n32: "n < 2 ^ 32" unfolding n_def by (rule less_le_trans [OF unsigned_less]) simp
  have s: "s < 2" using n32 unfolding s_def by (simp add: less_mult_imp_div_less)
  have b: "mn < 2 ^ 23" "ex < 2 ^ 8" by (simp_all add: mn_def ex_def)
  have n: "n = s * 2 ^ 31 + (ex * 2 ^ 23 + mn)"
  proof -
    have "n div 2 ^ 23 div 2 ^ 8 = s" by (simp add: s_def div_mult2_eq [symmetric])
    then have "n div 2 ^ 23 = s * 2 ^ 8 + ex" unfolding ex_def by (metis div_mult_mod_eq)
    moreover have "n = n div 2 ^ 23 * 2 ^ 23 + mn" unfolding mn_def by (rule div_mult_mod_eq [symmetric])
    ultimately show ?thesis by simp
  qed
  have f: "f = of_nat (s * 2 ^ 31 + (ex * 2 ^ 23 + mn))" unfolding n [symmetric] n_def by simp
  have "n mod 2 ^ 31 = ex * 2 ^ 23 + mn" unfolding n using b by simp
  then have nan': "ex * 2 ^ 23 + mn \<le> 255 * 2 ^ 23" using nan by (simp add: flt_nan_def n_def)
  note parts = f2d_def Let_def n_def [symmetric] s_def [symmetric] ex_def [symmetric] mn_def [symmetric]
  have g0: "f2d f = of_nat (s * 2 ^ 63 +
      (if ex = 255 then 2047 * 2 ^ 52 + (if mn = 0 then 0 else 2 ^ 51 + mn mod 2 ^ 22 * 2 ^ 29)
       else if ex = 0 then rnd 53 (- 1074) mn (- 149) else rnd 53 (- 1074) (mn + 2 ^ 23) (int ex - 150)))"
    unfolding parts by (rule refl)
  consider "ex = 255" | "ex = 0" "mn = 0" | "ex = 0" "0 < mn" | "0 < ex" "ex < 255" using b by fastforce
  then show ?thesis
  proof cases
    case 1
    then have mn: "mn = 0" using nan' by simp
    have "(2047 * 2 ^ 52 + 0 :: nat) < 2 ^ 63" by simp
    note d = d2f_pattern [OF s this]
    have g: "f2d f = of_nat (s * 2 ^ 63 + (2047 * 2 ^ 52 + 0))" unfolding g0 using 1 mn by simp
    have "d2f (f2d f) = of_nat (s * 2 ^ 31 + 255 * 2 ^ 23)" unfolding g d by simp
    then show ?thesis using f 1 mn by simp
  next
    case 2
    have "(0 :: nat) < 2 ^ 63" by simp
    note d = d2f_pattern [OF s this]
    have g: "f2d f = of_nat (s * 2 ^ 63 + 0)" unfolding g0 using 2 by (simp add: rnd_def)
    have "d2f (f2d f) = of_nat (s * 2 ^ 31)" unfolding g d by (simp add: rnd_def)
    then show ?thesis using f 2 by simp
  next
    case 3
    let ?k = "53 - nbits mn"
    have nb: "nbits mn \<le> 23" by (rule nbits_le [OF b(1)])
    have q: "2 ^ 52 \<le> mn * 2 ^ ?k" "mn * 2 ^ ?k < 2 ^ Suc 52" using rnd_widen(2,3) [of mn "- 149"] 3 b by simp_all
    have "nbits (mn * 2 ^ ?k) = Suc 52" by (rule nbits_eqI [OF q])
    then have nq: "nbits (mn * 2 ^ ?k) = 53" by simp
    have "max (- 149 + int (nbits mn) - 53 + 53 - 24) (- 149) = (- 149 :: int)" using nb by simp
    then have "rnd 24 (- 149) (mn * 2 ^ ?k) (- 149 + int (nbits mn) - 53) = rne (mn * 2 ^ ?k) (nat (53 - int (nbits mn)))"
      using 3 nb by (simp add: rnd_def Let_def nq)
    also have "nat (53 - int (nbits mn)) = ?k" by simp
    finally have "rnd 24 (- 149) (mn * 2 ^ ?k) (- 149 + int (nbits mn) - 53) = mn" by (simp add: rne_exact)
    moreover have "d2f (f2d f) = of_nat (s * 2 ^ 31 + min (255 * 2 ^ 23) (rnd 24 (- 149) (mn * 2 ^ ?k) (- 149 + int (nbits mn) - 53)))"
      by (rule f2d_finite [OF _ _ _ _ s]) (use 3 b in \<open>simp_all add: g0\<close>)
    ultimately show ?thesis using b 3 by (simp add: f)
  next
    case 4
    let ?m = "mn + 2 ^ 23"
    have nm: "nbits ?m = 24" using nbits_eqI [of 23 ?m] b by simp
    have q: "2 ^ 52 \<le> ?m * 2 ^ 29" "?m * 2 ^ 29 < 2 ^ Suc 52" using b by simp_all
    have "nbits (?m * 2 ^ 29) = Suc 52" by (rule nbits_eqI [OF q])
    then have nq: "nbits (?m * 2 ^ 29) = 53" by simp
    have x: "- 149 \<le> int ex - 150" using 4 by simp
    have "rnd 24 (- 149) (?m * 2 ^ 29) (int ex - 150 - 29) = (ex - 1) * 2 ^ 23 + rne (?m * 2 ^ 29) 29"
    proof -
      have "nat (int ex - 150 + 149) = ex - 1" by simp
      with rnd_narrow [OF nq x] show ?thesis by simp
    qed
    also have "\<dots> = ex * 2 ^ 23 + mn" unfolding rne_exact using 4 by (simp add: diff_mult_distrib)
    finally have r: "rnd 24 (- 149) (?m * 2 ^ 29) (int ex - 150 - 29) = ex * 2 ^ 23 + mn" .
    have "d2f (f2d f) = of_nat (s * 2 ^ 31 + min (255 * 2 ^ 23) (rnd 24 (- 149) (?m * 2 ^ (53 - nbits ?m)) (int ex - 150 + int (nbits ?m) - 53)))"
      by (rule f2d_finite [OF _ _ _ _ s]) (use 4 b in \<open>simp_all add: g0\<close>)
    also have "\<dots> = f" unfolding nm using r nan' by (simp add: f)
    finally show ?thesis .
  qed
qed

end
