(* ===== verification/Wmessage.thy ===== *)
theory Wmessage
  imports Proto FloatBits
begin

section \<open>Writing messages (pbc/src/wmessage.c)\<close>

text \<open>
  A \<open>pbc_wmessage\<close> writes its fields to a growing buffer; packed fields are collected in arrays
  and sub-messages in a list, and both are written when the buffer is asked for. The bytes of a
  buffer are \<open>None\<close> until they are written, \<open>wm_ptr\<close> is \<open>ptr - buffer\<close> and \<open>endptr\<close> is the end of
  the list. Sub-messages are shared with the caller, so all messages of a tree are in a store and
  a pointer to one is its number there. All blocks come from the heap of the tree, \<open>mem_heap\<close>.
\<close>

definition WMESSAGE_SIZE :: nat where "WMESSAGE_SIZE = 64"

record packed =
  pk_id :: int
  pk_ptype :: int
  pk_data :: "pbc_var vararray"

record wmessage =
  wm_type :: "nat option"
  wm_buffer :: "byte option list"
  wm_ptr :: nat
  wm_sub :: "(nat \<times> nat) vararray"
  wm_packed :: "packed map_sp option"

record 'pool wstate =
  ws_env :: "'pool pbc_env"
  ws_mem :: mem
  ws_msgs :: "wmessage list"

subsection \<open>The buffer\<close>

definition blit :: "'a list \<Rightarrow> nat \<Rightarrow> 'a list \<Rightarrow> 'a list option" where
  "blit area off src =
     (if off + length src \<le> length area then Some (take off area @ src @ drop (off + length src) area) else None)"

definition wmessage_new :: "nat option \<Rightarrow> mem \<Rightarrow> (mem \<times> wmessage) option" where
  "wmessage_new type m = do {
     m \<leftarrow> HMALLOC True 112 m;
     m \<leftarrow> HMALLOC True (int WMESSAGE_SIZE) m;
     Some (m, \<lparr>wm_type = type, wm_buffer = replicate WMESSAGE_SIZE None, wm_ptr = 0, wm_sub = pbcA_open_heap, wm_packed = None\<rparr>) }"

definition expand_message :: "wmessage \<Rightarrow> int \<Rightarrow> mem \<Rightarrow> (mem \<times> wmessage) option" where
  "expand_message w sz m =
     (if int (wm_ptr w) + sz > int (length (wm_buffer w)) then
        (let cap = int (length (wm_buffer w)) * 2
         in if cap > INT_MAX \<or> cap = 0 then None
         else do {
           cap \<leftarrow> grow_cap cap (int (wm_ptr w) + sz);
           buffer \<leftarrow> blit (replicate (nat cap) None) 0 (take (wm_ptr w) (wm_buffer w));
           m \<leftarrow> HMALLOC True cap m;
           Some (m, w\<lparr>wm_buffer := buffer\<rparr>) })
      else Some (m, w))"

text \<open>Write bytes at \<open>ptr\<close> and advance it; a write behind the end of the buffer is undefined.\<close>

definition wcopy :: "wmessage \<Rightarrow> byte option list \<Rightarrow> wmessage option" where
  "wcopy w bs = do {
     buffer \<leftarrow> blit (wm_buffer w) (wm_ptr w) bs;
     Some (w\<lparr>wm_buffer := buffer, wm_ptr := wm_ptr w + length bs\<rparr>) }"

definition wput :: "wmessage \<Rightarrow> byte list \<Rightarrow> wmessage option" where
  "wput w bs = wcopy w (map Some bs)"

definition wtag_of :: "int \<Rightarrow> u32 \<Rightarrow> u32" where
  "wtag_of fid wiretype = push_bit 3 (of_int fid) OR wiretype"

subsection \<open>Packed fields are collected\<close>

text \<open>The second component is the slot of the map that holds the array.\<close>

definition get_packed :: "wmessage \<Rightarrow> pbc_field \<Rightarrow> cstring \<Rightarrow> mem \<Rightarrow> (mem \<times> packed map_sp \<times> nat \<times> packed) option" where
  "get_packed w f key m = do {
     (m, mp) \<leftarrow> (case wm_packed w of None \<Rightarrow> pbcM_sp_new 4 True m | Some mp \<Rightarrow> Some (m, mp));
     (m, mp, i) \<leftarrow> pbcM_sp_query_insert mp key m;
     slot \<leftarrow> rd (sp_slot mp) i;
     case spp slot of
       None \<Rightarrow>
         (let p = \<lparr>pk_id = pf_id f, pk_ptype = pf_type f, pk_data = pbcA_open_heap\<rparr>
          in do { m \<leftarrow> HMALLOC True 72 m; Some (m, sp_store mp i (Some p), i, p) })
     | Some p \<Rightarrow> Some (m, mp, i, p) }"

text \<open>\<open>_packed_integer\<close> and \<open>_packed_real\<close> push a value.\<close>

definition packed_push :: "wmessage \<Rightarrow> pbc_field \<Rightarrow> cstring \<Rightarrow> pbc_var \<Rightarrow> mem \<Rightarrow> (mem \<times> wmessage) option" where
  "packed_push w f key v m = do {
     (m, mp, i, p) \<leftarrow> get_packed w f key m;
     (m, data) \<leftarrow> pbcA_push (pk_data p) v m;
     Some (m, w\<lparr>wm_packed := Some (sp_store mp i (Some (p\<lparr>pk_data := data\<rparr>)))\<rparr>) }"

definition packed_integer :: "wmessage \<Rightarrow> pbc_field \<Rightarrow> cstring \<Rightarrow> u32 \<Rightarrow> u32 \<Rightarrow> mem \<Rightarrow> (mem \<times> wmessage) option" where
  "packed_integer w f key lo h m = packed_push w f key (VInt lo h) m"

definition packed_real :: "wmessage \<Rightarrow> pbc_field \<Rightarrow> cstring \<Rightarrow> u64 \<Rightarrow> mem \<Rightarrow> (mem \<times> wmessage) option" where
  "packed_real w f key v m = packed_push w f key (VReal v) m"

subsection \<open>Setting fields\<close>

definition wfield_query :: "'pool wstate \<Rightarrow> wmessage \<Rightarrow> cstring \<Rightarrow> pbc_field option option" where
  "wfield_query s w key = do {
     t \<leftarrow> wm_type w;
     msg \<leftarrow> rd (st_messages (ws_env s)) t;
     r \<leftarrow> pbcM_sp_query (Some (pm_name msg)) key;
     case r of None \<Rightarrow> Some None | Some fi \<Rightarrow> map_option Some (rd (st_fields (ws_env s)) fi) }"

definition set_error :: "string \<Rightarrow> 'pool wstate \<Rightarrow> 'pool wstate" where
  "set_error e s = s\<lparr>ws_env := (ws_env s)\<lparr>env_lasterror := e\<rparr>\<rparr>"

definition set_message :: "'pool wstate \<Rightarrow> nat \<Rightarrow> mem \<times> wmessage \<Rightarrow> 'pool wstate" where
  "set_message s i r = s\<lparr>ws_mem := fst r, ws_msgs := (ws_msgs s)[i := snd r]\<rparr>"

definition integer_is_default :: "pbc_field \<Rightarrow> u32 \<Rightarrow> u32 \<Rightarrow> bool option" where
  "integer_is_default f lo h =
     (if pf_type f = PTYPE_ENUM then do { d \<leftarrow> var_enum_id (pf_default f); Some (lo = of_int d) }
      else do { d \<leftarrow> var_low (pf_default f); if lo = d then map_option (\<lambda>d. h = d) (var_hi (pf_default f)) else Some False })"

text \<open>The bytes of an integer field: a \<open>switch\<close> without a case for the type writes nothing.\<close>

definition integer_bytes :: "pbc_field \<Rightarrow> u32 \<Rightarrow> u32 \<Rightarrow> byte list list" where
  "integer_bytes f lo h =
     (let tag = (\<lambda>wt. pbcV_encode32 (wtag_of (pf_id f) wt)); t = pf_type f
      in if t \<in> {PTYPE_INT64, PTYPE_UINT64, PTYPE_INT32} then [tag WT_VARINT, pbcV_encode (u64_of_ll lo h)]
         else if t \<in> {PTYPE_UINT32, PTYPE_ENUM, PTYPE_BOOL} then [tag WT_VARINT, pbcV_encode32 lo]
         else if t \<in> {PTYPE_FIXED64, PTYPE_SFIXED64} then [tag WT_BIT64, int64_encode lo h]
         else if t \<in> {PTYPE_FIXED32, PTYPE_SFIXED32} then [tag WT_BIT32, int32_encode lo]
         else if t = PTYPE_SINT32 then [tag WT_VARINT, pbcV_zigzag32 lo]
         else if t = PTYPE_SINT64 then [tag WT_VARINT, pbcV_zigzag (u64_of_ll lo h)]
         else [])"

fun wputs :: "wmessage \<Rightarrow> byte list list \<Rightarrow> wmessage option" where
  "wputs w [] = Some w"
| "wputs w (b # bs) = do { w \<leftarrow> wput w b; wputs w bs }"

definition pbc_wmessage_integer :: "'pool wstate \<Rightarrow> nat \<Rightarrow> cstring \<Rightarrow> u32 \<Rightarrow> u32 \<Rightarrow> ('pool wstate \<times> int) option" where
  "pbc_wmessage_integer s i key lo h = do {
     w \<leftarrow> rd (ws_msgs s) i;
     f \<leftarrow> wfield_query s w key;
     case f of None \<Rightarrow> Some (set_error ''wmessage_interger query key error'' s, - 1)
     | Some f \<Rightarrow>
         if pf_label f = LABEL_PACKED then do {
           r \<leftarrow> packed_integer w f key lo h (ws_mem s);
           Some (set_message s i r, 0) }
         else do {
           skip \<leftarrow> (if pf_label f = LABEL_OPTIONAL then integer_is_default f lo h else Some False);
           if skip then Some (s, 0)
           else do {
             (m, w) \<leftarrow> expand_message w 20 (ws_mem s);
             w \<leftarrow> wputs w (integer_bytes f lo h);
             Some (set_message s i (m, w), 0) } } }"

definition real_bytes :: "pbc_field \<Rightarrow> u64 \<Rightarrow> byte list list" where
  "real_bytes f v =
     (if pf_type f = PTYPE_FLOAT then [pbcV_encode32 (wtag_of (pf_id f) WT_BIT32), float_encode (d2f v)]
      else if pf_type f = PTYPE_DOUBLE then [pbcV_encode32 (wtag_of (pf_id f) WT_BIT64), double_encode v]
      else [])"

definition pbc_wmessage_real :: "'pool wstate \<Rightarrow> nat \<Rightarrow> cstring \<Rightarrow> u64 \<Rightarrow> ('pool wstate \<times> int) option" where
  "pbc_wmessage_real s i key v = do {
     w \<leftarrow> rd (ws_msgs s) i;
     f \<leftarrow> wfield_query s w key;
     case f of None \<Rightarrow> Some (set_error ''wmessage_real query key error'' s, - 1)
     | Some f \<Rightarrow>
         if pf_label f = LABEL_PACKED then do {
           r \<leftarrow> packed_real w f key v (ws_mem s);
           Some (set_message s i r, 0) }
         else do {
           skip \<leftarrow> (if pf_label f = LABEL_OPTIONAL then map_option (dbl_eq v) (var_real (pf_default f)) else Some False);
           if skip then Some (s, 0)
           else do {
             (m, w) \<leftarrow> expand_message w 18 (ws_mem s);
             w \<leftarrow> wputs w (real_bytes f v);
             Some (set_message s i (m, w), 0) } } }"

subsection \<open>Strings\<close>

text \<open>
  The library functions on C strings: an argument is the memory from the pointer on, and a read
  behind it is undefined.
\<close>

fun strncmp_eq :: "nat \<Rightarrow> byte list \<Rightarrow> byte list \<Rightarrow> bool option" where
  "strncmp_eq 0 a b = Some True"
| "strncmp_eq (Suc n) (x # a) (y # b) = (if x \<noteq> y then Some False else if x = 0 then Some True else strncmp_eq n a b)"
| "strncmp_eq (Suc n) a b = None"

definition strcmp_eq :: "byte list \<Rightarrow> byte list \<Rightarrow> bool option" where
  "strcmp_eq a b = strncmp_eq (Suc (length a)) a b"

text \<open>The length that is meant by the argument \<open>len\<close>, and \<open>varlen\<close>.\<close>

definition string_len :: "byte list \<Rightarrow> int \<Rightarrow> (nat \<times> bool) option" where
  "string_len v len =
     (if len \<le> 0 then map_option (\<lambda>n. (n + nat (- len), True)) (c_strlen v) else Some (nat len, False))"

text \<open>The name of an enum value: a terminated copy where the argument is not terminated there.\<close>

definition enum_name :: "byte list \<Rightarrow> nat \<Rightarrow> bool \<Rightarrow> cstring option" where
  "enum_name v len varlen = do {
     copy \<leftarrow> (if \<not> varlen then Some True else map_option (\<lambda>c. c \<noteq> 0) (rd v len));
     if copy then (if len \<le> length v then c_string (take len v @ [0]) else None) else c_string v }"

definition enum_query :: "'pool pbc_env \<Rightarrow> pbc_field \<Rightarrow> cstring \<Rightarrow> (int \<times> int option) option" where
  "enum_query p f name =
     (case pf_tname f of TEnum (Some e) \<Rightarrow> do { e \<leftarrow> rd (st_enums p) e; pbcM_si_query (pe_name e) name } | _ \<Rightarrow> None)"

definition string_is_default :: "pbc_field \<Rightarrow> byte list \<Rightarrow> nat \<Rightarrow> bool option" where
  "string_is_default f v len =
     (if pf_type f = PTYPE_ENUM then do {
        nm \<leftarrow> var_enum_name (pf_default f); nm \<leftarrow> nm;
        e \<leftarrow> strncmp_eq len v (nm @ [0]);
        if e then map_option (\<lambda>c. c = 0) (rd (nm @ [0]) len) else Some False }
      else if pf_type f = PTYPE_STRING then do {
        (str, dlen) \<leftarrow> var_str (pf_default f);
        if int len = dlen then do { str \<leftarrow> str; strcmp_eq v str } else Some False }
      else if pf_type f = PTYPE_BYTES then Some (len = 0)
      else Some False)"

definition pbc_wmessage_string :: "'pool wstate \<Rightarrow> nat \<Rightarrow> cstring \<Rightarrow> byte list \<Rightarrow> int \<Rightarrow> ('pool wstate \<times> int) option" where
  "pbc_wmessage_string s i key v len = do {
     w \<leftarrow> rd (ws_msgs s) i;
     f \<leftarrow> wfield_query s w key;
     case f of None \<Rightarrow> Some (set_error ''wmessage_string query key error'' s, - 1)
     | Some f \<Rightarrow> do {
         (len, varlen) \<leftarrow> string_len v len;
         if pf_label f = LABEL_PACKED then
           (if pf_type f = PTYPE_ENUM then do {
              name \<leftarrow> enum_name v len varlen;
              (err, e) \<leftarrow> enum_query (ws_env s) f name;
              if err \<noteq> 0 then Some (set_error ''wmessage_string packed invalid enum'' s, - 1)
              else do {
                r \<leftarrow> packed_integer w f key (of_int (the e)) 0 (ws_mem s);
                Some (set_message s i r, 0) } }
            else Some (s, 0))
         else do {
           skip \<leftarrow> (if pf_label f = LABEL_OPTIONAL then string_is_default f v len else Some False);
           if skip then Some (s, 0)
           else do {
             (m, w) \<leftarrow> expand_message w 20 (ws_mem s);
             if pf_type f = PTYPE_ENUM then do {
               name \<leftarrow> enum_name v len varlen;
               (err, e) \<leftarrow> enum_query (ws_env s) f name;
               if err \<noteq> 0 then Some (set_error ''wmessage_string invalid enum'' (set_message s i (m, w)), - 1)
               else do {
                 w \<leftarrow> wputs w [pbcV_encode32 (wtag_of (pf_id f) WT_VARINT), pbcV_encode32 (of_int (the e))];
                 Some (set_message s i (m, w), 0) } }
             else if pf_type f \<in> {PTYPE_STRING, PTYPE_BYTES} then do {
               w \<leftarrow> wputs w [pbcV_encode32 (wtag_of (pf_id f) WT_LEND), pbcV_encode32 (of_nat len)];
               (m, w) \<leftarrow> expand_message w (int len) m;
               w \<leftarrow> (if len \<le> length v then wput w (take len v) else None);
               Some (set_message s i (m, w), 0) }
             else Some (set_message s i (m, w), 0) } } } }"

subsection \<open>Messages\<close>

text \<open>\<open>None\<close> in the result of the two is the NULL pointer.\<close>

definition pbc_wmessage_new :: "'pool pbc_env \<Rightarrow> cstring \<Rightarrow> int \<Rightarrow> 'pool wstate option option" where
  "pbc_wmessage_new env type_name g = do {
     msg \<leftarrow> pbcP_get_message env type_name;
     case msg of None \<Rightarrow> Some None
     | Some t \<Rightarrow> do {
         (g, h) \<leftarrow> pbcH_new 0 g;
         (m, w) \<leftarrow> wmessage_new (Some t) \<lparr>mem_g = g, mem_heap = h\<rparr>;
         Some (Some \<lparr>ws_env = env, ws_mem = m, ws_msgs = [w]\<rparr>) } }"

definition pbc_wmessage_delete :: "'pool wstate \<Rightarrow> int" where
  "pbc_wmessage_delete s = pbcH_delete (mem_heap (ws_mem s)) (mem_g (ws_mem s))"

definition pbc_wmessage_message :: "'pool wstate \<Rightarrow> nat \<Rightarrow> cstring \<Rightarrow> ('pool wstate \<times> nat option) option" where
  "pbc_wmessage_message s i key = do {
     w \<leftarrow> rd (ws_msgs s) i;
     t \<leftarrow> wm_type w;
     msg \<leftarrow> rd (st_messages (ws_env s)) t;
     r \<leftarrow> pbcM_sp_query (Some (pm_name msg)) key;
     case r of None \<Rightarrow> Some (set_error ''wmessage_message query key error'' s, None)
     | Some fi \<Rightarrow> do {
         f \<leftarrow> rd (st_fields (ws_env s)) fi;
         (m, sub) \<leftarrow> wmessage_new (case pf_tname f of TMsg t \<Rightarrow> t | _ \<Rightarrow> None) (ws_mem s);
         let j = length (ws_msgs s);
         (m, a) \<leftarrow> pbcA_push (wm_sub w) (j, fi) m;
         Some (s\<lparr>ws_mem := m, ws_msgs := (ws_msgs s)[i := w\<lparr>wm_sub := a\<rparr>] @ [sub]\<rparr>, Some j) } }"

subsection \<open>Writing the packed fields\<close>

definition values_of :: "pbc_var vararray \<Rightarrow> pbc_var list option" where
  "values_of a = those (map (\<lambda>i. pbcA_index a (int i)) [0..<pbc_array_size a])"

text \<open>The items of a fixed width go to \<open>ptr + i * 8\<close>, in both functions.\<close>

fun write_items :: "byte option list \<Rightarrow> nat \<Rightarrow> byte list list \<Rightarrow> byte option list option" where
  "write_items buffer off [] = Some buffer"
| "write_items buffer off (b # bs) = do {
     buffer \<leftarrow> blit buffer off (map Some b);
     write_items buffer (off + 8) bs }"

definition enc_fixed64 :: "int \<Rightarrow> pbc_var \<Rightarrow> byte list option" where
  "enc_fixed64 ptype v =
     (if ptype = PTYPE_DOUBLE then map_option double_encode (var_real v)
      else do { lo \<leftarrow> var_low v; h \<leftarrow> var_hi v; Some (int64_encode lo h) })"

definition enc_fixed32 :: "int \<Rightarrow> pbc_var \<Rightarrow> byte list option" where
  "enc_fixed32 ptype v =
     (if ptype = PTYPE_FLOAT then map_option (\<lambda>d. float_encode (d2f d)) (var_real v)
      else map_option int32_encode (var_low v))"

definition pack_fixed :: "nat \<Rightarrow> (int \<Rightarrow> pbc_var \<Rightarrow> byte list option) \<Rightarrow> packed \<Rightarrow> mem \<times> wmessage \<Rightarrow> (mem \<times> wmessage) option" where
  "pack_fixed width enc p s = do {
     let len = pbc_array_size (pk_data p) * width;
     if int len > INT_MAX then None else do {
       (m, w) \<leftarrow> expand_message (snd s) (10 + int len) (fst s);
       w \<leftarrow> wput w (pbcV_encode32 (of_nat len));
       vs \<leftarrow> values_of (pk_data p);
       items \<leftarrow> those (map (enc (pk_ptype p)) vs);
       buffer \<leftarrow> write_items (wm_buffer w) (wm_ptr w) items;
       Some (m, w\<lparr>wm_buffer := buffer, wm_ptr := wm_ptr w + len\<rparr>) } }"

definition pack_packed_64 :: "packed \<Rightarrow> mem \<times> wmessage \<Rightarrow> (mem \<times> wmessage) option" where
  "pack_packed_64 p s = pack_fixed 8 enc_fixed64 p s"

definition pack_packed_32 :: "packed \<Rightarrow> mem \<times> wmessage \<Rightarrow> (mem \<times> wmessage) option" where
  "pack_packed_32 p s = pack_fixed 4 enc_fixed32 p s"

text \<open>The encoding of one value; the inner \<open>None\<close> is the \<open>default\<close> case of the \<open>switch\<close>.\<close>

definition enc_varint :: "int \<Rightarrow> (pbc_var \<Rightarrow> byte list option) option" where
  "enc_varint ptype =
     (if ptype \<in> {PTYPE_INT64, PTYPE_UINT64} then
        Some (\<lambda>v. do { lo \<leftarrow> var_low v; h \<leftarrow> var_hi v; Some (pbcV_encode (u64_of_ll lo h)) })
      else if ptype \<in> {PTYPE_INT32, PTYPE_BOOL, PTYPE_UINT32, PTYPE_ENUM} then
        Some (\<lambda>v. map_option pbcV_encode32 (var_low v))
      else if ptype = PTYPE_SINT32 then Some (\<lambda>v. map_option pbcV_zigzag32 (var_low v))
      else if ptype = PTYPE_SINT64 then
        Some (\<lambda>v. do { lo \<leftarrow> var_low v; h \<leftarrow> var_hi v; Some (pbcV_zigzag (u64_of_ll lo h)) })
      else None)"

fun put_varints :: "(pbc_var \<Rightarrow> byte list option) \<Rightarrow> pbc_var list \<Rightarrow> mem \<times> wmessage \<Rightarrow> (mem \<times> wmessage) option" where
  "put_varints enc [] s = Some s"
| "put_varints enc (v # vs) s = do {
     (m, w) \<leftarrow> expand_message (snd s) 10 (fst s);
     b \<leftarrow> enc v;
     w \<leftarrow> wput w b;
     put_varints enc vs (m, w) }"

text \<open>\<open>memmove\<close> inside the buffer.\<close>

definition move_bytes :: "'a list \<Rightarrow> nat \<Rightarrow> nat \<Rightarrow> nat \<Rightarrow> 'a list option" where
  "move_bytes area dst src n = (if src + n \<le> length area then blit area dst (take n (drop src area)) else None)"

text \<open>The length was guessed as \<open>len\<close> before the items were written, and is now set right.\<close>

definition fix_length :: "nat \<Rightarrow> nat \<Rightarrow> nat \<Rightarrow> mem \<times> wmessage \<Rightarrow> (mem \<times> wmessage) option" where
  "fix_length offset len len_len s =
     (let (m, w) = s; end_len = wm_ptr w - (offset + len_len)
      in if end_len = len then Some (m, w)
      else do {
        let temp = pbcV_encode32 (of_nat end_len);
        (m, w) \<leftarrow>
          (if length temp \<noteq> len_len then do {
             (m, w) \<leftarrow> expand_message w (int (length temp)) m;
             buffer \<leftarrow> move_bytes (wm_buffer w) (offset + length temp) (offset + len_len) end_len;
             Some (m, w\<lparr>wm_buffer := buffer, wm_ptr := wm_ptr w + length temp - len_len\<rparr>) }
           else Some (m, w));
        buffer \<leftarrow> blit (wm_buffer w) offset (map Some temp);
        Some (m, w\<lparr>wm_buffer := buffer\<rparr>) })"

text \<open>The third component is whether \<open>lasterror\<close> is set.\<close>

definition pack_packed_varint :: "packed \<Rightarrow> mem \<times> wmessage \<Rightarrow> (mem \<times> wmessage \<times> bool) option" where
  "pack_packed_varint p s = do {
     let n = pbc_array_size (pk_data p);
     let offset = wm_ptr (snd s);
     let len = (if pk_ptype p = PTYPE_BOOL then n else n * 2);
     (m, w) \<leftarrow> expand_message (snd s) (10 + int len) (fst s);
     let len_len = length (pbcV_encode32 (of_nat len));
     w \<leftarrow> wput w (pbcV_encode32 (of_nat len));
     (m, w) \<leftarrow>
       (case enc_varint (pk_ptype p) of
          Some enc \<Rightarrow> do { vs \<leftarrow> values_of (pk_data p); put_varints enc vs (m, w) }
        | None \<Rightarrow> do { w \<leftarrow> wput w (replicate n 0); Some (m, w) });
     (m, w) \<leftarrow> fix_length offset len len_len (m, w);
     Some (m, w, enc_varint (pk_ptype p) = None) }"

definition pack_packed :: "packed \<Rightarrow> nat \<Rightarrow> 'pool wstate \<Rightarrow> 'pool wstate option" where
  "pack_packed p i s = do {
     w \<leftarrow> rd (ws_msgs s) i;
     (m, w) \<leftarrow> expand_message w 10 (ws_mem s);
     w \<leftarrow> wput w (pbcV_encode32 (wtag_of (pk_id p) WT_LEND));
     if pk_ptype p \<in> {PTYPE_DOUBLE, PTYPE_FIXED64, PTYPE_SFIXED64} then
       map_option (set_message s i) (pack_packed_64 p (m, w))
     else if pk_ptype p \<in> {PTYPE_FLOAT, PTYPE_FIXED32, PTYPE_SFIXED32} then
       map_option (set_message s i) (pack_packed_32 p (m, w))
     else do {
       (m, w, err) \<leftarrow> pack_packed_varint p (m, w);
       let s = set_message s i (m, w);
       Some (if err then set_error ''wmessage type error when pack packed'' s else s) } }"

subsection \<open>The finished buffer\<close>

text \<open>
  The slice that \<open>pbc_wmessage_buffer\<close> returns is the first \<open>ptr\<close> bytes of the buffer. The fuel
  bounds the depth of the tree.
\<close>

definition append_sub :: "nat \<Rightarrow> nat \<Rightarrow> nat \<Rightarrow> 'pool wstate \<Rightarrow> 'pool wstate option" where
  "append_sub i j fi s = do {
     sub \<leftarrow> rd (ws_msgs s) j;
     f \<leftarrow> rd (st_fields (ws_env s)) fi;
     w \<leftarrow> rd (ws_msgs s) i;
     (m, w) \<leftarrow> expand_message w (20 + int (wm_ptr sub)) (ws_mem s);
     w \<leftarrow> wputs w [pbcV_encode32 (wtag_of (pf_id f) WT_LEND), pbcV_encode32 (of_nat (wm_ptr sub))];
     w \<leftarrow> wcopy w (take (wm_ptr sub) (wm_buffer sub));
     Some (set_message s i (m, w)) }"

fun write_subs :: "(nat \<Rightarrow> 'pool wstate \<Rightarrow> 'pool wstate option) \<Rightarrow> nat \<Rightarrow> (nat \<times> nat) vararray \<Rightarrow> nat \<Rightarrow> nat
    \<Rightarrow> 'pool wstate \<Rightarrow> 'pool wstate option" where
  "write_subs rec i subs k 0 s = Some s"
| "write_subs rec i subs k (Suc n) s = do {
     (j, fi) \<leftarrow> pbcA_index subs (int k);
     s \<leftarrow> rec j s;
     s \<leftarrow> append_sub i j fi s;
     write_subs rec i subs (k + 1) n s }"

fun wbuffer :: "nat \<Rightarrow> nat \<Rightarrow> 'pool wstate \<Rightarrow> 'pool wstate option" where
  "wbuffer 0 i s = None"
| "wbuffer (Suc fuel) i s = do {
     w \<leftarrow> rd (ws_msgs s) i;
     s \<leftarrow> (case wm_packed w of None \<Rightarrow> Some s
           | Some mp \<Rightarrow> pbcM_sp_foreach_ud mp (\<lambda>p i s. Option.bind s (pack_packed p i)) i (Some s));
     w \<leftarrow> rd (ws_msgs s) i;
     write_subs (wbuffer fuel) i (wm_sub w) 0 (pbc_array_size (wm_sub w)) s }"

definition pbc_wmessage_buffer :: "'pool wstate \<Rightarrow> nat \<Rightarrow> ('pool wstate \<times> byte option list) option" where
  "pbc_wmessage_buffer s i = do {
     s \<leftarrow> wbuffer (length (ws_msgs s)) i s;
     w \<leftarrow> rd (ws_msgs s) i;
     Some (s, take (wm_ptr w) (wm_buffer w)) }"

subsection \<open>The buffer as the list of the bytes written\<close>

definition wm_ok :: "wmessage \<Rightarrow> bool" where
  "wm_ok w \<longleftrightarrow> wm_ptr w \<le> length (wm_buffer w) \<and> 0 < length (wm_buffer w) \<and> 4 dvd length (wm_buffer w)"

definition wm_out :: "wmessage \<Rightarrow> byte option list" where
  "wm_out w = take (wm_ptr w) (wm_buffer w)"

definition wm_room :: "wmessage \<Rightarrow> nat \<Rightarrow> bool" where
  "wm_room w n \<longleftrightarrow> wm_ptr w + n \<le> length (wm_buffer w)"

text \<open>What writing leaves alone.\<close>

definition wm_rest :: "wmessage \<Rightarrow> nat option \<times> (nat \<times> nat) vararray \<times> packed map_sp option" where
  "wm_rest w = (wm_type w, wm_sub w, wm_packed w)"

lemma length_wm_out: "wm_ok w \<Longrightarrow> length (wm_out w) = wm_ptr w"
  by (simp add: wm_ok_def wm_out_def)

lemma new_message_ok: "wmessage_new type m = Some (m', w) \<Longrightarrow> wm_ok w \<and> wm_out w = [] \<and> wm_rest w = (type, pbcA_open_heap, None)"
  by (auto simp: wmessage_new_def Let_def wm_ok_def wm_out_def wm_rest_def WMESSAGE_SIZE_def)

lemma wmessage_new_total:
  obtains m' w where "wmessage_new type m = Some (m', w)"
  by (simp add: wmessage_new_def WMESSAGE_SIZE_def)

lemma expand_ok:
  assumes w: "wm_ok w" and sz: "int (wm_ptr w) + sz \<le> 2 ^ 30"
  obtains m' w' where "expand_message w sz m = Some (m', w')" and "wm_ok w'" and "wm_out w' = wm_out w"
    and "wm_ptr w' = wm_ptr w" and "wm_room w' (nat sz)" and "wm_rest w' = wm_rest w"
proof (cases "int (wm_ptr w) + sz > int (length (wm_buffer w))")
  case False
  then have "wm_room w (nat sz)" using w by (auto simp: wm_room_def wm_ok_def)
  with False show thesis using w by (intro that [of m w]) (simp_all add: expand_message_def)
next
  case True
  let ?cap = "int (length (wm_buffer w)) * 2"
  have "\<not> (?cap > INT_MAX \<or> ?cap = 0)" using True sz w by (auto simp: INT_MAX_def wm_ok_def)
  moreover obtain c where c: "grow_cap ?cap (int (wm_ptr w) + sz) = Some c"
    using grow_cap_total [OF sz, of ?cap] w by (auto simp: wm_ok_def)
  have g: "?cap \<le> c" "int (wm_ptr w) + sz \<le> c" "4 dvd c" "c \<le> 2147483647"
    using grow_cap_Some [OF c] w True sz by (auto simp: wm_ok_def INT_MAX_def)
  then have "0 \<le> c" "c \<le> 2147483644" by presburger+
  then have al: "HMALLOC True c m = Some (hmalloc True c m)" by (rule HMALLOC_ok)
  have p: "wm_ptr w \<le> nat c" "wm_ptr w \<le> length (wm_buffer w)" using g w by (auto simp: wm_ok_def)
  let ?b = "take (wm_ptr w) (wm_buffer w) @ replicate (nat c - wm_ptr w) None"
  have "blit (replicate (nat c) None) 0 (take (wm_ptr w) (wm_buffer w)) = Some ?b"
    using p by (simp add: blit_def min_def)
  ultimately have e: "expand_message w sz m = Some (hmalloc True c m, w\<lparr>wm_buffer := ?b\<rparr>)"
    using True c al by (simp add: expand_message_def Let_def)
  show thesis
  proof (rule that [OF e])
    show "wm_room (w\<lparr>wm_buffer := ?b\<rparr>) (nat sz)" using p g by (auto simp: wm_room_def min_def)
    have "0 < int (length (wm_buffer w))" using w by (simp add: wm_ok_def)
    then have "0 < nat c" using g by linarith
    moreover obtain k where "c = 4 * k" using g(3) by auto
    then have "4 dvd nat c" by (simp add: nat_mult_distrib)
    ultimately show "wm_ok (w\<lparr>wm_buffer := ?b\<rparr>)" using p by (auto simp: wm_ok_def min_def)
  qed (use p in \<open>simp_all add: wm_out_def wm_rest_def min_def\<close>)
qed

lemma wcopy_ok:
  assumes "wm_ok w" and "wm_room w (length bs)"
  obtains w' where "wcopy w bs = Some w'" and "wm_ok w'" and "wm_out w' = wm_out w @ bs"
    and "wm_ptr w' = wm_ptr w + length bs" and "wm_rest w' = wm_rest w"
    and "\<And>n. wm_room w (length bs + n) \<Longrightarrow> wm_room w' n"
proof -
  let ?b = "take (wm_ptr w) (wm_buffer w) @ bs @ drop (wm_ptr w + length bs) (wm_buffer w)"
  have l: "wm_ptr w + length bs \<le> length (wm_buffer w)" "0 < length (wm_buffer w)"
    using assms by (auto simp: wm_room_def wm_ok_def)
  then have len: "length ?b = length (wm_buffer w)" by simp
  moreover have "4 dvd length (wm_buffer w)" using assms(1) by (simp add: wm_ok_def)
  ultimately have al: "4 dvd length ?b" by (simp only:)
  show thesis
    by (rule that [of "w\<lparr>wm_buffer := ?b, wm_ptr := wm_ptr w + length bs\<rparr>"])
      (use l len al in \<open>auto simp: wcopy_def blit_def wm_ok_def wm_out_def wm_room_def wm_rest_def min_def\<close>)
qed

lemma wputs_ok:
  assumes "wm_ok w" and "wm_room w (length (concat bss))"
  obtains w' where "wputs w bss = Some w'" and "wm_ok w'" and "wm_out w' = wm_out w @ map Some (concat bss)"
    and "wm_ptr w' = wm_ptr w + length (concat bss)" and "wm_rest w' = wm_rest w"
    and "\<And>n. wm_room w (length (concat bss) + n) \<Longrightarrow> wm_room w' n"
  using assms
proof (induction bss arbitrary: w thesis)
  case Nil
  show ?case by (rule Nil.prems(1) [of w]) (use Nil.prems in auto)
next
  case (Cons b bss)
  have r: "wm_room w (length (map Some b :: byte option list))" using Cons.prems(3) by (simp add: wm_room_def)
  obtain w1 where w1: "wcopy w (map Some b) = Some w1" "wm_ok w1" "wm_out w1 = wm_out w @ map Some b"
    "wm_ptr w1 = wm_ptr w + length b" "wm_rest w1 = wm_rest w"
    "\<And>n. wm_room w (length b + n) \<Longrightarrow> wm_room w1 n"
    by (rule wcopy_ok [OF Cons.prems(2) r]) auto
  have "wm_room w1 (length (concat bss))" by (rule w1(6)) (use Cons.prems(3) in simp)
  then obtain w2 where w2: "wputs w1 bss = Some w2" "wm_ok w2" "wm_out w2 = wm_out w1 @ map Some (concat bss)"
    "wm_ptr w2 = wm_ptr w1 + length (concat bss)" "wm_rest w2 = wm_rest w1"
    "\<And>n. wm_room w1 (length (concat bss) + n) \<Longrightarrow> wm_room w2 n"
    using Cons.IH [OF _ w1(2)] by metis
  show ?case
    by (rule Cons.prems(1) [of w2]) (use w1 w2 in \<open>auto simp: wput_def add.assoc\<close>)
qed

text \<open>Expand for \<open>sz\<close> bytes and write at most that many.\<close>

lemma emit_ok:
  assumes "wm_ok w" and "int (wm_ptr w) + sz \<le> 2 ^ 30" and "int (length (concat bss)) \<le> sz"
  obtains m1 w1 w' where "expand_message w sz m = Some (m1, w1)" and "wputs w1 bss = Some w'" and "wm_ok w'"
    and "wm_out w' = wm_out w @ map Some (concat bss)" and "wm_rest w' = wm_rest w"
    and "wm_ptr w' = wm_ptr w + length (concat bss)"
proof -
  obtain m1 w1 where e: "expand_message w sz m = Some (m1, w1)" "wm_ok w1" "wm_out w1 = wm_out w" "wm_ptr w1 = wm_ptr w"
    "wm_room w1 (nat sz)" "wm_rest w1 = wm_rest w" by (rule expand_ok [OF assms(1,2)])
  have "wm_room w1 (length (concat bss))" using e(5) assms(3) by (auto simp: wm_room_def)
  then obtain w' where "wputs w1 bss = Some w'" "wm_ok w'" "wm_out w' = wm_out w1 @ map Some (concat bss)"
    "wm_rest w' = wm_rest w1" "wm_ptr w' = wm_ptr w1 + length (concat bss)" by (rule wputs_ok [OF e(2)])
  with e show thesis by (intro that [of m1 w1 w']) simp_all
qed

subsection \<open>Tags and fields\<close>

lemma wtag_unat:
  assumes "0 \<le> fid" and "fid < 2 ^ 29" and "wt < 8"
  shows "unat (wtag_of fid (of_nat wt)) = 8 * nat fid + wt"
proof -
  have "unat (of_int fid :: u32) = nat fid" by (rule unat_of_int_u32) (use assms in simp_all)
  moreover have "unat (of_nat wt :: u32) = wt" using assms(3) unfolding unat_of_nat_u32 by simp
  ultimately show ?thesis
    using unat_or_push_bit [of "of_nat wt :: u32" 3 "of_int fid"] assms
    by (simp add: wtag_of_def or.commute)
qed

lemma wtag_bytes:
  assumes "0 \<le> fid" and "fid < 2 ^ 29"
  shows "pbcV_encode32 (wtag_of fid WT_VARINT) = leb (8 * nat fid)"
    and "pbcV_encode32 (wtag_of fid WT_BIT64) = leb (8 * nat fid + 1)"
    and "pbcV_encode32 (wtag_of fid WT_LEND) = leb (8 * nat fid + 2)"
    and "pbcV_encode32 (wtag_of fid WT_BIT32) = leb (8 * nat fid + 5)"
  using wtag_unat [OF assms, of 0] wtag_unat [OF assms, of 1] wtag_unat [OF assms, of 2] wtag_unat [OF assms, of 5]
  by (simp_all add: encode32_leb)

lemma encode32_encode: "pbcV_encode32 x = pbcV_encode (ucast x)"
proof -
  have "unat x < 2 ^ 64" by (rule less_le_trans [OF unsigned_less]) simp
  then have "unat (ucast x :: u64) = unat x" by (simp add: unsigned_ucast_eq take_bit_nat_eq_self)
  then show ?thesis by (simp add: encode32_leb encode_leb)
qed

lemma length_leb_32: "n < 2 ^ 32 \<Longrightarrow> length (leb n) \<le> 5"
  by (rule length_leb_mono) simp_all

lemma length_encode: "length (pbcV_encode x) \<le> 10"
proof -
  have "unat x < 2 ^ 64" by (rule less_le_trans [OF unsigned_less]) simp
  then show ?thesis unfolding encode_leb by (intro length_leb_mono) simp_all
qed

text \<open>The abstract field that a call writes, if any; \<open>None\<close> where the call is not of that kind.\<close>

definition wfield_of_integer :: "pbc_field \<Rightarrow> u32 \<Rightarrow> u32 \<Rightarrow> wfield option" where
  "wfield_of_integer f lo h =
     (let n = nat (pf_id f); t = pf_type f
      in if t \<in> {PTYPE_INT64, PTYPE_UINT64, PTYPE_INT32} then Some (WVarint n (u64_of_ll lo h))
         else if t \<in> {PTYPE_UINT32, PTYPE_ENUM, PTYPE_BOOL} then Some (WVarint n (ucast lo))
         else if t \<in> {PTYPE_FIXED64, PTYPE_SFIXED64} then Some (WBit64 n lo h)
         else if t \<in> {PTYPE_FIXED32, PTYPE_SFIXED32} then Some (WBit32 n lo)
         else if t = PTYPE_SINT32 then Some (WVarint n (ucast (push_bit 1 lo XOR signed_drop_bit 31 lo)))
         else if t = PTYPE_SINT64 then Some (WVarint n (push_bit 1 (u64_of_ll lo h) XOR signed_drop_bit 63 (u64_of_ll lo h)))
         else None)"

definition good_id :: "pbc_field \<Rightarrow> bool" where
  "good_id f \<longleftrightarrow> 0 \<le> pf_id f \<and> pf_id f < 2 ^ 29"

lemma integer_bytes_wenc:
  assumes "good_id f" and "wfield_of_integer f lo h = Some fl"
  shows "concat (integer_bytes f lo h) = wenc fl" and "length (wenc fl) \<le> 20" and "wvalid fl"
proof -
  note tags = wtag_bytes [of "pf_id f"]
  have id: "0 \<le> pf_id f" "pf_id f < 2 ^ 29" using assms(1) by (simp_all add: good_id_def)
  have n: "8 * nat (pf_id f) + k < 2 ^ 32" if "k < 8" for k using id that by simp
  have l: "length (leb (8 * nat (pf_id f) + k)) \<le> 5" if "k < 8" for k by (rule length_leb_32 [OF n [OF that]])
  note l0 = l [of 0, simplified]
  have v: "length (leb (8 * nat (pf_id f))) + length (pbcV_encode x) \<le> 20" for x
    using l0 length_encode [of x] by linarith
  show "concat (integer_bytes f lo h) = wenc fl"
    using assms(2) tags [OF id]
    by (auto simp: wfield_of_integer_def integer_bytes_def Let_def wenc_def encode32_encode [symmetric]
        pbcV_zigzag32_def pbcV_zigzag_def split: if_splits)
  show "length (wenc fl) \<le> 20" "wvalid fl"
    using assms(2) l [of 1] l [of 5] n [of 0] n [of 1] n [of 5] v
    by (auto simp: wfield_of_integer_def Let_def wenc_def wvalid_def split: if_splits)
qed

lemma real_bytes_wenc:
  assumes "good_id f"
  shows "pf_type f = PTYPE_FLOAT \<Longrightarrow> concat (real_bytes f v) = wenc (WBit32 (nat (pf_id f)) (d2f v))"
    and "pf_type f = PTYPE_DOUBLE \<Longrightarrow> concat (real_bytes f v) = wenc (WBit64 (nat (pf_id f)) (ucast v) (ucast (drop_bit 32 v)))"
    and "length (concat (real_bytes f v)) \<le> 18"
proof -
  have id: "0 \<le> pf_id f" "pf_id f < 2 ^ 29" using assms by (simp_all add: good_id_def)
  note tags = wtag_bytes [OF id]
  show "pf_type f = PTYPE_FLOAT \<Longrightarrow> concat (real_bytes f v) = wenc (WBit32 (nat (pf_id f)) (d2f v))"
    "pf_type f = PTYPE_DOUBLE \<Longrightarrow> concat (real_bytes f v) = wenc (WBit64 (nat (pf_id f)) (ucast v) (ucast (drop_bit 32 v)))"
    using tags by (simp_all add: real_bytes_def wenc_def float_encode_eq double_encode_eq)
  have "length (leb (8 * nat (pf_id f) + k)) \<le> 5" if "k < 8" for k
    by (rule length_leb_32) (use id that in simp)
  from this [of 1] this [of 5] show "length (concat (real_bytes f v)) \<le> 18"
    using tags by (simp add: real_bytes_def float_encode_eq double_encode_eq)
qed

lemma string_bytes_wenc:
  assumes "good_id f" and "length bs < 2 ^ 30"
  shows "concat [pbcV_encode32 (wtag_of (pf_id f) WT_LEND), pbcV_encode32 (of_nat (length bs))] @ bs = wenc (WLend (nat (pf_id f)) bs)"
    and "length (concat [pbcV_encode32 (wtag_of (pf_id f) WT_LEND), pbcV_encode32 (of_nat (length bs))]) \<le> 20"
proof -
  have id: "0 \<le> pf_id f" "pf_id f < 2 ^ 29" using assms by (simp_all add: good_id_def)
  have l: "unat (of_nat (length bs) :: u32) = length bs" unfolding unat_of_nat_u32 using assms(2) by simp
  show "concat [pbcV_encode32 (wtag_of (pf_id f) WT_LEND), pbcV_encode32 (of_nat (length bs))] @ bs = wenc (WLend (nat (pf_id f)) bs)"
    unfolding wtag_bytes [OF id] unfolding encode32_leb l wenc_def by simp
  have "length (leb (8 * nat (pf_id f) + 2)) \<le> 5" by (rule length_leb_32) (use id in simp)
  moreover have "length (leb (length bs)) \<le> 5" by (rule length_leb_32) (use assms(2) in simp)
  ultimately show "length (concat [pbcV_encode32 (wtag_of (pf_id f) WT_LEND), pbcV_encode32 (of_nat (length bs))]) \<le> 20"
    unfolding wtag_bytes [OF id] unfolding encode32_leb l by simp
qed

subsection \<open>What a sequence of calls writes\<close>

text \<open>
  The calls that set a field which is neither packed nor a message, and the abstract fields they
  append: none where the value is the default of an optional field. \<open>None\<close> where the call is
  none of these: an unknown key, a packed field or a type that does not fit.
\<close>

datatype wcall = SetInteger cstring u32 u32 | SetReal cstring u64 | SetString cstring "byte list" int

fun run_call :: "'pool wstate \<Rightarrow> nat \<Rightarrow> wcall \<Rightarrow> ('pool wstate \<times> int) option" where
  "run_call s i (SetInteger key lo h) = pbc_wmessage_integer s i key lo h"
| "run_call s i (SetReal key v) = pbc_wmessage_real s i key v"
| "run_call s i (SetString key v len) = pbc_wmessage_string s i key v len"

fun run_calls :: "'pool wstate \<Rightarrow> nat \<Rightarrow> wcall list \<Rightarrow> ('pool wstate \<times> int list) option" where
  "run_calls s i [] = Some (s, [])"
| "run_calls s i (c # cs) = do { (s, r) \<leftarrow> run_call s i c; (s, rs) \<leftarrow> run_calls s i cs; Some (s, r # rs) }"

definition message_field :: "'pool pbc_env \<Rightarrow> nat \<Rightarrow> cstring \<Rightarrow> pbc_field option" where
  "message_field p t key = do {
     msg \<leftarrow> rd (st_messages p) t;
     r \<leftarrow> pbcM_sp_query (Some (pm_name msg)) key; fi \<leftarrow> r;
     f \<leftarrow> rd (st_fields p) fi;
     if good_id f \<and> pf_label f \<noteq> LABEL_PACKED then Some f else None }"

definition unless :: "bool option \<Rightarrow> wfield option \<Rightarrow> wfield list option" where
  "unless skip fl = do { b \<leftarrow> skip; if b then Some [] else map_option (\<lambda>x. [x]) fl }"

fun call_fields :: "'pool pbc_env \<Rightarrow> nat \<Rightarrow> wcall \<Rightarrow> wfield list option" where
  "call_fields p t (SetInteger key lo h) = do {
     f \<leftarrow> message_field p t key;
     unless (if pf_label f = LABEL_OPTIONAL then integer_is_default f lo h else Some False) (wfield_of_integer f lo h) }"
| "call_fields p t (SetReal key v) = do {
     f \<leftarrow> message_field p t key;
     unless (if pf_label f = LABEL_OPTIONAL then map_option (dbl_eq v) (var_real (pf_default f)) else Some False)
       (if pf_type f = PTYPE_FLOAT then Some (WBit32 (nat (pf_id f)) (d2f v))
        else if pf_type f = PTYPE_DOUBLE then Some (WBit64 (nat (pf_id f)) (ucast v) (ucast (drop_bit 32 v))) else None) }"
| "call_fields p t (SetString key v len) = do {
     f \<leftarrow> message_field p t key;
     (len, _) \<leftarrow> string_len v len;
     unless (if pf_label f = LABEL_OPTIONAL then string_is_default f v len else Some False)
       (if pf_type f \<in> {PTYPE_STRING, PTYPE_BYTES} \<and> len \<le> length v then Some (WLend (nat (pf_id f)) (take len v)) else None) }"

text \<open>Message \<open>i\<close> has type \<open>t\<close>, nothing collected, and these bytes written.\<close>

definition writes :: "'pool wstate \<Rightarrow> nat \<Rightarrow> nat \<Rightarrow> byte list \<Rightarrow> bool" where
  "writes s i t bs \<longleftrightarrow> (\<exists>w. rd (ws_msgs s) i = Some w \<and> wm_ok w \<and> wm_out w = map Some bs \<and> wm_rest w = (Some t, pbcA_open_heap, None))"

lemma message_field_query:
  assumes "message_field (ws_env s) t key = Some f" and "wm_type w = Some t"
  shows "wfield_query s w key = Some (Some f) \<and> good_id f \<and> pf_label f \<noteq> LABEL_PACKED"
  using assms by (auto simp: message_field_def wfield_query_def ub_simps split: if_splits)

lemma set_message_writes:
  assumes "rd (ws_msgs s) i = Some w0" and "wm_ok w" and "wm_out w = map Some bs" and "wm_rest w = (Some t, pbcA_open_heap, None)"
  shows "writes (set_message s i (m, w)) i t bs"
  using assms by (auto simp: writes_def set_message_def rd_def split: if_splits)

lemma set_message_frame [simp]:
  "ws_env (set_message s i r) = ws_env s" "length (ws_msgs (set_message s i r)) = length (ws_msgs s)"
  by (simp_all add: set_message_def)

lemma run_call_writes:
  assumes w: "writes s i t bs" and c: "call_fields (ws_env s) t c = Some fs"
    and len: "length bs + length (wmsg fs) + 20 \<le> 2 ^ 30"
  shows "\<exists>s'. run_call s i c = Some (s', 0) \<and> writes s' i t (bs @ wmsg fs) \<and> ws_env s' = ws_env s
    \<and> length (ws_msgs s') = length (ws_msgs s)"
proof -
  obtain w where rw: "rd (ws_msgs s) i = Some w" and ok: "wm_ok w" and out: "wm_out w = map Some bs"
    and rest: "wm_rest w = (Some t, pbcA_open_heap, None)" using w by (auto simp: writes_def)
  have ptr: "wm_ptr w = length bs" using length_wm_out [OF ok] out by simp
  have ty: "wm_type w = Some t" using rest by (simp add: wm_rest_def)
  have w0: "writes s i t (bs @ wmsg [])" using w by (simp add: wmsg_def)
  show ?thesis
  proof (cases c)
    case (SetInteger key lo h)
    then obtain f where f: "message_field (ws_env s) t key = Some f" using c by (auto simp: ub_simps)
    note q = message_field_query [OF f ty]
    let ?skip = "if pf_label f = LABEL_OPTIONAL then integer_is_default f lo h else Some False"
    obtain b where b: "?skip = Some b" "if b then fs = [] else \<exists>fl. wfield_of_integer f lo h = Some fl \<and> fs = [fl]"
      using c f by (auto simp: SetInteger ub_simps unless_def split: if_splits)
    show ?thesis
    proof (cases b)
      case True
      then show ?thesis using b q rw w0 by (auto simp: SetInteger pbc_wmessage_integer_def)
    next
      case False
      then obtain fl where fl: "wfield_of_integer f lo h = Some fl" "fs = [fl]" using b by auto
      have g: "good_id f" using q by simp
      note ib = integer_bytes_wenc [OF g fl(1)]
      have "int (wm_ptr w) + 20 \<le> 2 ^ 30" "int (length (concat (integer_bytes f lo h))) \<le> 20"
        using ib len ptr by auto
      from emit_ok [OF ok this, of "ws_mem s"] obtain m1 w1 w' where e: "expand_message w 20 (ws_mem s) = Some (m1, w1)"
        "wputs w1 (integer_bytes f lo h) = Some w'" "wm_ok w'" "wm_out w' = wm_out w @ map Some (concat (integer_bytes f lo h))"
        "wm_rest w' = wm_rest w" by metis
      have "run_call s i c = Some (set_message s i (m1, w'), 0)"
        using b(1) False q rw e(1,2) by (auto simp: SetInteger pbc_wmessage_integer_def)
      moreover have "wm_out w' = map Some (bs @ wmsg fs)" using e(4) out by (simp add: ib fl(2) wmsg_def)
      ultimately show ?thesis using set_message_writes [OF rw e(3)] e(5) rest by auto
    qed
  next
    case (SetReal key v)
    then obtain f where f: "message_field (ws_env s) t key = Some f" using c by (auto simp: ub_simps)
    note q = message_field_query [OF f ty]
    have g: "good_id f" using q by simp
    note rb = real_bytes_wenc [OF g]
    let ?skip = "if pf_label f = LABEL_OPTIONAL then map_option (dbl_eq v) (var_real (pf_default f)) else Some False"
    obtain b where b: "?skip = Some b" "if b then fs = [] else wmsg fs = concat (real_bytes f v)"
      using c f rb(1,2) by (auto simp: SetReal ub_simps unless_def wmsg_def split: if_splits)
    show ?thesis
    proof (cases b)
      case True
      then show ?thesis using b q rw w0 by (auto simp: SetReal pbc_wmessage_real_def split: if_splits)
    next
      case False
      have "int (wm_ptr w) + 18 \<le> 2 ^ 30" "int (length (concat (real_bytes f v))) \<le> 18"
        using rb(3) [of v] len ptr by auto
      from emit_ok [OF ok this, of "ws_mem s"] obtain m1 w1 w' where e: "expand_message w 18 (ws_mem s) = Some (m1, w1)"
        "wputs w1 (real_bytes f v) = Some w'" "wm_ok w'" "wm_out w' = wm_out w @ map Some (concat (real_bytes f v))"
        "wm_rest w' = wm_rest w" by metis
      have "run_call s i c = Some (set_message s i (m1, w'), 0)"
        using b(1) False q rw e(1,2) by (auto simp: SetReal pbc_wmessage_real_def split: if_splits)
      moreover have "wm_out w' = map Some (bs @ wmsg fs)" using e(4) out b(2) False by simp
      ultimately show ?thesis using set_message_writes [OF rw e(3)] e(5) rest by auto
    qed
  next
    case (SetString key v len0)
    then obtain f l varlen where f: "message_field (ws_env s) t key = Some f" and l: "string_len v len0 = Some (l, varlen)"
      using c by (auto simp: ub_simps)
    note q = message_field_query [OF f ty]
    have g: "good_id f" using q by simp
    let ?skip = "if pf_label f = LABEL_OPTIONAL then string_is_default f v l else Some False"
    obtain b where b: "?skip = Some b"
      "if b then fs = [] else pf_type f \<in> {PTYPE_STRING, PTYPE_BYTES} \<and> l \<le> length v \<and> fs = [WLend (nat (pf_id f)) (take l v)]"
      using c f l by (auto simp: SetString ub_simps unless_def split: if_splits)
    show ?thesis
    proof (cases b)
      case True
      then show ?thesis using b q rw w0 l by (auto simp: SetString pbc_wmessage_string_def split: if_splits)
    next
      case False
      then have fl: "pf_type f \<in> {PTYPE_STRING, PTYPE_BYTES}" "l \<le> length v" "fs = [WLend (nat (pf_id f)) (take l v)]" using b by auto
      let ?tl = "[pbcV_encode32 (wtag_of (pf_id f) WT_LEND), pbcV_encode32 (of_nat l)]"
      have tl: "length (take l v) = l" using fl(2) by simp
      have wlen: "length (wmsg fs) = length (wenc (WLend (nat (pf_id f)) (take l v)))" by (simp add: fl(3) wmsg_def)
      have l30: "l < 2 ^ 30" using len wlen tl by (simp add: wenc_def)
      note sb = string_bytes_wenc [OF g, of "take l v", unfolded tl, OF l30]
      have "int (wm_ptr w) + 20 \<le> 2 ^ 30" "int (length (concat ?tl)) \<le> 20" using sb(2) len ptr by auto
      from emit_ok [OF ok this, of "ws_mem s"] obtain m1 w1 w2 where e: "expand_message w 20 (ws_mem s) = Some (m1, w1)"
        "wputs w1 ?tl = Some w2" "wm_ok w2" "wm_out w2 = wm_out w @ map Some (concat ?tl)"
        "wm_rest w2 = wm_rest w" "wm_ptr w2 = wm_ptr w + length (concat ?tl)" by metis
      have "length (wmsg fs) = length (concat ?tl) + l" unfolding wlen sb(1) [symmetric] using tl by simp
      then have "int (wm_ptr w2) + int l \<le> 2 ^ 30" using e(6) ptr len by simp
      moreover have "int (length (concat [take l v])) \<le> int l" by simp
      ultimately obtain m3 w3 w4 where e2: "expand_message w2 (int l) m1 = Some (m3, w3)"
        "wputs w3 [take l v] = Some w4" "wm_ok w4" "wm_out w4 = wm_out w2 @ map Some (concat [take l v])"
        "wm_rest w4 = wm_rest w2" using emit_ok [OF e(3), of "int l" "[take l v]" m1] by metis
      have put: "wput w3 (take l v) = Some w4" using e2(2) by (cases "wput w3 (take l v)") simp_all
      obtain wa where wa: "wput w1 (pbcV_encode32 (wtag_of (pf_id f) WT_LEND)) = Some wa" "wput wa (pbcV_encode32 (of_nat l)) = Some w2"
        using e(2) by (auto simp: ub_simps)
      have ne: "pf_type f \<noteq> PTYPE_ENUM" using fl(1) by auto
      have "run_call s i c = Some (set_message s i (m3, w4), 0)"
        using b(1) False q rw e(1) wa e2(1) put l fl(1,2) ne by (auto simp: SetString pbc_wmessage_string_def split: if_splits)
      moreover have "wm_out w4 = map Some (bs @ wmsg fs)"
      proof -
        have "wmsg fs = concat ?tl @ take l v" unfolding sb(1) by (simp add: fl(3) wmsg_def)
        then show ?thesis using e2(4) e(4) out by simp
      qed
      ultimately show ?thesis using set_message_writes [OF rw e2(3)] e2(5) e(5) rest by auto
    qed
  qed
qed

lemma run_calls_write:
  assumes "writes s i t bs" and "those (map (call_fields (ws_env s) t) cs) = Some fss"
    and "length bs + length (wmsg (concat fss)) + 20 \<le> 2 ^ 30"
  shows "\<exists>s'. run_calls s i cs = Some (s', replicate (length cs) 0) \<and> writes s' i t (bs @ wmsg (concat fss))
    \<and> ws_env s' = ws_env s \<and> length (ws_msgs s') = length (ws_msgs s)"
  using assms
proof (induction cs arbitrary: s bs fss)
  case Nil
  then show ?case by (auto simp: wmsg_def)
next
  case (Cons c cs)
  obtain fs fss' where fs: "call_fields (ws_env s) t c = Some fs" "those (map (call_fields (ws_env s) t) cs) = Some fss'" "fss = fs # fss'"
    using Cons.prems(2) by (auto split: option.splits)
  have app: "wmsg (concat fss) = wmsg fs @ wmsg (concat fss')" by (simp add: fs(3) wmsg_def)
  have "length bs + length (wmsg fs) + 20 \<le> 2 ^ 30" using Cons.prems(3) by (simp add: app)
  from run_call_writes [OF Cons.prems(1) fs(1) this] obtain s1 where s1: "run_call s i c = Some (s1, 0)"
    "writes s1 i t (bs @ wmsg fs)" "ws_env s1 = ws_env s" "length (ws_msgs s1) = length (ws_msgs s)" by blast
  have "those (map (call_fields (ws_env s1) t) cs) = Some fss'" using fs(2) by (simp add: s1(3))
  moreover have "length (bs @ wmsg fs) + length (wmsg (concat fss')) + 20 \<le> 2 ^ 30" using Cons.prems(3) by (simp add: app)
  ultimately obtain s2 where "run_calls s1 i cs = Some (s2, replicate (length cs) 0)"
    "writes s2 i t ((bs @ wmsg fs) @ wmsg (concat fss'))" "ws_env s2 = ws_env s1" "length (ws_msgs s2) = length (ws_msgs s1)"
    using Cons.IH [OF s1(2)] by blast
  with s1 show ?case by (simp add: app)
qed

lemma buffer_of_plain:
  assumes "writes s i t bs"
  shows "pbc_wmessage_buffer s i = Some (s, map Some bs)"
proof -
  obtain w where w: "rd (ws_msgs s) i = Some w" "wm_ok w" "wm_out w = map Some bs" "wm_rest w = (Some t, pbcA_open_heap, None)"
    using assms by (auto simp: writes_def)
  obtain n where n: "length (ws_msgs s) = Suc n" using w(1) by (cases "ws_msgs s") auto
  have "pbc_array_size (pbcA_open_heap :: (nat \<times> nat) vararray) = 0"
    by (simp add: pbc_array_size_def pbcA_open_heap_def pbcA_open_def)
  then show ?thesis using w by (simp add: pbc_wmessage_buffer_def n wm_rest_def wm_out_def)
qed

end
