(* ===== verification/WPacked.thy ===== *)
theory WPacked
  imports Wmessage
begin

section \<open>Written messages: the packed fields and the finished buffer\<close>

text \<open>
  What \<open>_pack_packed_varint\<close> and \<open>_pack_packed_32\<close> (wmessage.c) leave in the buffer, and that the
  buffer of a message written with the scalar calls opens (context.c) to the fields written.
\<close>

subsection \<open>The packed fields\<close>

lemma values_of_list: "arr_inv a \<Longrightarrow> values_of a = Some (arr_list a)"
proof -
  assume inv: "arr_inv a"
  have "those (map Some xs) = Some xs" for xs :: "pbc_var list" by (induction xs) simp_all
  moreover have "map (\<lambda>i. pbcA_index a (int i)) [0..<pbc_array_size a] = map Some (arr_list a)"
    using va.index [OF inv] va.size_of [OF inv] by (intro nth_equalityI) simp_all
  ultimately show ?thesis by (simp add: values_of_def)
qed

lemma put_varints_ok:
  assumes "wm_ok w" and "those (map enc vs) = Some bss" and "list_all (\<lambda>b. length b \<le> 10) bss"
    and "wm_ptr w + length (concat bss) + 10 \<le> 2 ^ 30"
  shows "\<exists>m' w'. put_varints enc vs (m, w) = Some (m', w') \<and> wm_ok w' \<and> wm_out w' = wm_out w @ map Some (concat bss)
    \<and> wm_rest w' = wm_rest w \<and> wm_ptr w' = wm_ptr w + length (concat bss)"
  using assms
proof (induction vs arbitrary: m w bss)
  case (Cons v vs)
  obtain b bss' where b: "enc v = Some b" "those (map enc vs) = Some bss'" "bss = b # bss'"
    using Cons.prems(2) by (auto split: option.splits)
  have "int (wm_ptr w) + 10 \<le> 2 ^ 30" "int (length (concat [b])) \<le> 10" using Cons.prems b by auto
  from emit_ok [OF Cons.prems(1) this, of m] obtain m1 w1 w2 where e: "expand_message w 10 m = Some (m1, w1)"
    "wputs w1 [b] = Some w2" "wm_ok w2" "wm_out w2 = wm_out w @ map Some (concat [b])" "wm_rest w2 = wm_rest w"
    "wm_ptr w2 = wm_ptr w + length (concat [b])" by metis
  have p: "wput w1 b = Some w2" using e(2) by (cases "wput w1 b") simp_all
  have "list_all (\<lambda>b. length b \<le> 10) bss'" "wm_ptr w2 + length (concat bss') + 10 \<le> 2 ^ 30"
    using Cons.prems(3,4) e(6) b(3) by auto
  from Cons.IH [OF e(3) b(2) this, of m1] obtain m3 w3 where "put_varints enc vs (m1, w2) = Some (m3, w3)" "wm_ok w3"
    "wm_out w3 = wm_out w2 @ map Some (concat bss')" "wm_rest w3 = wm_rest w2" "wm_ptr w3 = wm_ptr w2 + length (concat bss')" by blast
  with e b p show ?case by simp
qed (auto)

text \<open>The guessed length in front of the items is replaced by the right one, of whatever size.\<close>

lemma fix_length_ok:
  assumes "wm_ok w" and out: "wm_out w = pre @ map Some (pbcV_encode32 (of_nat len)) @ map Some items"
    and len: "len < 2 ^ 30" and sz: "length pre + length items + 15 \<le> 2 ^ 30"
  shows "\<exists>m' w'. fix_length (length pre) len (length (pbcV_encode32 (of_nat len))) (m, w) = Some (m', w') \<and> wm_ok w'
    \<and> wm_out w' = pre @ map Some (leb (length items)) @ map Some items \<and> wm_rest w' = wm_rest w"
proof -
  have enc: "pbcV_encode32 (of_nat k) = leb k" if "k < 2 ^ 30" for k
    using that unfolding encode32_leb unat_of_nat_u32 by simp
  let ?l = "length (leb len)" and ?n = "length items" and ?p = "length pre"
  let ?temp = "leb ?n"
  have n30: "?n < 2 ^ 30" using sz by simp
  have ptr: "wm_ptr w = ?p + ?l + ?n" using length_wm_out [OF assms(1)] out by (simp add: enc [OF len])
  have l5: "length (leb k) \<le> 5" if "k < 2 ^ 30" for k by (rule length_leb_32) (use that in simp)
  have end_len: "wm_ptr w - (?p + ?l) = ?n" by (simp add: ptr)
  note el = enc [OF len] and et = enc [OF n30]
  show ?thesis
  proof (cases "?n = len")
    case True
    then show ?thesis using assms(1) out len by (simp add: fix_length_def Let_def el et end_len)
  next
    case False
    have res: "\<exists>w'. blit (wm_buffer w1) ?p (map Some ?temp) = Some (wm_buffer w') \<and> w' = w1\<lparr>wm_buffer := wm_buffer w'\<rparr>
        \<and> wm_ok w' \<and> wm_out w' = pre @ map Some ?temp @ map Some items"
      if w1: "wm_ok w1" "wm_out w1 = pre @ x @ map Some items" "length x = length ?temp" for w1 x
    proof -
      have p1: "wm_ptr w1 = ?p + length ?temp + ?n" using length_wm_out [OF w1(1)] w1(2,3) by simp
      have lb: "?p + length ?temp + ?n \<le> length (wm_buffer w1)" using w1(1) p1 by (simp add: wm_ok_def)
      obtain tl where tl: "wm_buffer w1 = pre @ x @ map Some items @ tl"
        using w1(2) by (metis append.assoc append_take_drop_id wm_out_def)
      let ?b = "pre @ map Some ?temp @ map Some items @ tl"
      have "blit (wm_buffer w1) ?p (map Some ?temp) = Some ?b" using w1(3) by (simp add: blit_def tl)
      moreover have "length ?b = length (wm_buffer w1)" using w1(3) by (simp add: tl)
      moreover have "take (wm_ptr w1) ?b = pre @ map Some ?temp @ map Some items" by (simp add: p1)
      ultimately show ?thesis using w1(1)
        by (intro exI [of _ "w1\<lparr>wm_buffer := ?b\<rparr>"]) (simp add: wm_ok_def wm_out_def)
    qed
    show ?thesis
    proof (cases "length ?temp = ?l")
      case True
      obtain w' where w': "blit (wm_buffer w) ?p (map Some ?temp) = Some (wm_buffer w')" "w' = w\<lparr>wm_buffer := wm_buffer w'\<rparr>"
        "wm_ok w'" "wm_out w' = pre @ map Some ?temp @ map Some items"
        using res [OF assms(1), of "map Some (leb len)"] out True by (auto simp: enc [OF len])
      have "fix_length ?p len (length (pbcV_encode32 (of_nat len))) (m, w) = Some (m, w\<lparr>wm_buffer := wm_buffer w'\<rparr>)"
        using w'(1) False True by (simp add: fix_length_def Let_def el et end_len)
      then show ?thesis using w'(2-4) by (metis wm_rest_def wmessage.select_convs wmessage.surjective wmessage.update_convs(2))
    next
      case ne: False
      have "int (wm_ptr w) + int (length ?temp) \<le> 2 ^ 30" using ptr sz l5 [OF len] l5 [OF n30] by simp
      from expand_ok [OF assms(1) this, of m] obtain m1 w1 where e: "expand_message w (int (length ?temp)) m = Some (m1, w1)"
        "wm_ok w1" "wm_out w1 = wm_out w" "wm_ptr w1 = wm_ptr w" "wm_room w1 (length ?temp)" "wm_rest w1 = wm_rest w"
        by (metis nat_int)
      obtain tl where tl: "wm_buffer w1 = pre @ map Some (leb len) @ map Some items @ tl"
        using out e(3) by (metis append.assoc append_take_drop_id enc [OF len] wm_out_def)
      have room: "?p + ?l + ?n + length ?temp \<le> length (wm_buffer w1)" using e(5) by (simp add: wm_room_def e(4) ptr)
      have src: "take ?n (drop (?p + ?l) (wm_buffer w1)) = map Some items" by (simp add: tl)
      define b where "b = take (?p + length ?temp) (wm_buffer w1) @ map Some items @ drop (?p + length ?temp + ?n) (wm_buffer w1)"
      have mv: "move_bytes (wm_buffer w1) (?p + length ?temp) (?p + ?l) ?n = Some b"
        using room by (simp add: move_bytes_def src blit_def b_def)
      define w2 where "w2 = w1\<lparr>wm_buffer := b, wm_ptr := ?p + length ?temp + ?n\<rparr>"
      have lb: "length b = length (wm_buffer w1)" using room by (simp add: b_def)
      have le: "length ?temp \<le> length tl" using room by (simp add: tl)
      obtain x where tk: "take (?p + length ?temp) (wm_buffer w1) = pre @ x" and lx: "length x = length ?temp"
      proof
        show "take (?p + length ?temp) (wm_buffer w1) = pre @ take (length ?temp) (map Some (leb len) @ map Some items @ tl)"
          by (simp add: tl)
        show "length (take (length ?temp) (map Some (leb len) @ map Some items @ tl)) = length ?temp"
          using le unfolding length_take length_append by simp
      qed
      have "wm_ok w2" using room lb e(2) by (auto simp: wm_ok_def w2_def)
      moreover have "wm_out w2 = pre @ x @ map Some items"
        using lx by (simp add: wm_out_def w2_def b_def tk)
      ultimately obtain w' where w': "blit (wm_buffer w2) ?p (map Some ?temp) = Some (wm_buffer w')" "w' = w2\<lparr>wm_buffer := wm_buffer w'\<rparr>"
        "wm_ok w'" "wm_out w' = pre @ map Some ?temp @ map Some items"
        using res [of w2 x] lx by blast
      have "wm_ptr w + length ?temp - ?l = ?p + length ?temp + ?n" by (simp add: ptr)
      then have "fix_length ?p len (length (pbcV_encode32 (of_nat len))) (m, w) = Some (m1, w2\<lparr>wm_buffer := wm_buffer w'\<rparr>)"
        using w'(1) False ne e(1,4) mv by (simp add: fix_length_def Let_def el et end_len w2_def)
      moreover have "wm_rest w' = wm_rest w" using e(6) w'(2) by (metis w2_def wm_rest_def wmessage.select_convs wmessage.surjective wmessage.update_convs(2,3))
      ultimately show ?thesis using w' by metis
    qed
  qed
qed


lemma enc_varint_length:
  assumes "enc_varint ptype = Some enc" and "enc v = Some b"
  shows "length b \<le> 10"
proof -
  have "length (pbcV_encode32 x) \<le> 10" for x unfolding encode32_encode by (rule length_encode)
  then show ?thesis using assms
    by (auto simp: enc_varint_def pbcV_zigzag32_def pbcV_zigzag_def length_encode ub_simps split: if_splits)
qed

lemma those_map_all:
  "those (map f xs) = Some ys \<Longrightarrow> (\<And>x y. f x = Some y \<Longrightarrow> P y) \<Longrightarrow> list_all P ys"
  by (induction xs arbitrary: ys) (auto split: option.splits)

lemma pack_varint_ok:
  assumes w: "wm_ok w" and p: "arr_inv (pk_data p)" and enc: "enc_varint (pk_ptype p) = Some enc"
    and bss: "those (map enc (arr_list (pk_data p))) = Some bss"
    and sz: "wm_ptr w + 2 * length (arr_list (pk_data p)) + length (concat bss) + 60 \<le> 2 ^ 30"
  shows "\<exists>m' w'. pack_packed_varint p (m, w) = Some (m', w', False) \<and> wm_ok w' \<and> wm_rest w' = wm_rest w
    \<and> wm_out w' = wm_out w @ map Some (leb (length (concat bss)) @ concat bss)"
proof -
  let ?vs = "arr_list (pk_data p)"
  define len where "len = (if pk_ptype p = PTYPE_BOOL then length ?vs else length ?vs * 2)"
  let ?l = "pbcV_encode32 (of_nat len)"
  have len: "len < 2 ^ 30" "len \<le> 2 * length ?vs" using sz by (auto simp: len_def)
  have l5: "length ?l \<le> 5"
    unfolding encode32_leb by (rule length_leb_32) (rule less_le_trans [OF unsigned_less], simp)
  have a: "int (wm_ptr w) + (10 + int len) \<le> 2 ^ 30" "int (length (concat [?l])) \<le> 10 + int len" using sz len l5 by simp_all
  obtain m1 w1 w2 where e: "expand_message w (10 + int len) m = Some (m1, w1)" "wputs w1 [?l] = Some w2" "wm_ok w2"
    "wm_out w2 = wm_out w @ map Some (concat [?l])" "wm_rest w2 = wm_rest w" "wm_ptr w2 = wm_ptr w + length (concat [?l])"
    by (rule emit_ok [OF w a])
  have put: "wput w1 ?l = Some w2" using e(2) by (cases "wput w1 ?l") simp_all
  have c1: "list_all (\<lambda>b. length b \<le> 10) bss"
    by (rule those_map_all [OF bss]) (rule enc_varint_length [OF enc])
  have c2: "wm_ptr w2 + length (concat bss) + 10 \<le> 2 ^ 30" using sz l5 e(6) by simp
  obtain m3 w3 where v: "put_varints enc ?vs (m1, w2) = Some (m3, w3)" "wm_ok w3"
    "wm_out w3 = wm_out w2 @ map Some (concat bss)" "wm_rest w3 = wm_rest w2"
    using put_varints_ok [OF e(3) bss c1 c2, of m1] by blast
  have out: "wm_out w3 = wm_out w @ map Some ?l @ map Some (concat bss)" using v(3) e(4) by simp
  have ptr: "length (wm_out w) = wm_ptr w" by (rule length_wm_out [OF w])
  have "length (wm_out w) + length (concat bss) + 15 \<le> 2 ^ 30" using sz ptr by simp
  from fix_length_ok [OF v(2) out len(1) this, of m3] obtain m4 w4 where f: "fix_length (wm_ptr w) len (length ?l) (m3, w3) = Some (m4, w4)"
    "wm_ok w4" "wm_out w4 = wm_out w @ map Some (leb (length (concat bss))) @ map Some (concat bss)" "wm_rest w4 = wm_rest w3"
    unfolding ptr by blast
  have n: "pbc_array_size (pk_data p) = length ?vs" by (rule va.size_of [OF p])
  have "pack_packed_varint p (m, w) = Some (m4, w4, False)"
    unfolding pack_packed_varint_def Let_def n enc snd_conv fst_conv len_def [symmetric]
    using e(1) put v(1) f(1) values_of_list [OF p] by simp
  moreover have "wm_rest w4 = wm_rest w" using f(4) v(4) e(5) by simp
  ultimately show ?thesis using f(2,3) by auto
qed


text \<open>Items are written one after the other; a run that succeeds stays inside the buffer.\<close>

lemma blit_length: "blit area off bs = Some area' \<Longrightarrow> length area' = length area \<and> off + length bs \<le> length area"
  by (auto simp: blit_def split: if_splits)

lemma write_items_inside:
  assumes "write_items buffer off items = Some buffer'" and "items \<noteq> []" and "list_all (\<lambda>b. length b = k) items"
  shows "off + 8 * (length items - 1) + k \<le> length buffer"
  using assms
proof (induction items arbitrary: buffer off)
  case (Cons b bs)
  obtain buf where b: "blit buffer off (map Some b) = Some buf" "write_items buf (off + 8) bs = Some buffer'"
    using Cons.prems(1) by (auto simp: ub_simps)
  have l: "length buf = length buffer" "off + k \<le> length buffer" using blit_length [OF b(1)] Cons.prems(3) by auto
  show ?case
  proof (cases bs)
    case (Cons c cs)
    with Cons.IH [OF b(2)] Cons.prems(3) l show ?thesis by simp
  qed (use l in simp)
qed simp

lemma call_fields_valid:
  assumes "call_fields p t c = Some fs"
  shows "\<forall>f \<in> set fs. wvalid f"
  using assms
proof (cases c)
  case (SetInteger key lo h)
  with assms show ?thesis
    by (auto simp: ub_simps message_field_def unless_def dest: integer_bytes_wenc(3) split: if_splits)
next
  case (SetReal key v)
  with assms show ?thesis
    by (auto simp: ub_simps message_field_def unless_def good_id_def wvalid_def split: if_splits)
next
  case (SetString key v len)
  with assms show ?thesis
    by (auto simp: ub_simps message_field_def unless_def good_id_def wvalid_def split: if_splits)
qed

lemma calls_fields_valid: "those (map (call_fields p t) cs) = Some fss \<Longrightarrow> \<forall>f \<in> set (concat fss). wvalid f"
proof (induction cs arbitrary: fss)
  case (Cons c cs)
  obtain fs fss' where "call_fields p t c = Some fs" "those (map (call_fields p t) cs) = Some fss'" "fss = fs # fss'"
    using Cons.prems by (auto split: option.splits)
  with Cons.IH call_fields_valid [of p t c fs] show ?case by auto
qed simp

text \<open>A new message, filled and finished, is the concatenation of its fields.\<close>

lemma written_bytes:
  assumes "pbc_wmessage_new p name g = Some (Some s)" and "pbcP_get_message p name = Some (Some t)"
    and "those (map (call_fields p t) cs) = Some fss" and "length (wmsg (concat fss)) + 20 \<le> 2 ^ 30"
  shows "\<exists>s'. run_calls s 0 cs = Some (s', replicate (length cs) 0)
    \<and> pbc_wmessage_buffer s' 0 = Some (s', map Some (wmsg (concat fss)))"
proof -
  obtain g1 h where h: "pbcH_new 0 g = Some (g1, h)"
    using assms(1) by (auto simp: pbc_wmessage_new_def ub_simps assms(2))
  obtain m w where mw: "wmessage_new (Some t) \<lparr>mem_g = g1, mem_heap = h\<rparr> = Some (m, w)" by (rule wmessage_new_total)
  have "s = \<lparr>ws_env = p, ws_mem = m, ws_msgs = [w]\<rparr>"
    using assms(1) h mw by (simp add: pbc_wmessage_new_def assms(2))
  with new_message_ok [OF mw] have s: "writes s 0 t []" "ws_env s = p" by (simp_all add: writes_def)
  have "those (map (call_fields (ws_env s) t) cs) = Some fss" "length [] + length (wmsg (concat fss)) + 20 \<le> 2 ^ 30"
    using assms(3,4) s(2) by simp_all
  from run_calls_write [OF s(1) this] obtain s' where s': "run_calls s 0 cs = Some (s', replicate (length cs) 0)"
    "writes s' 0 t (wmsg (concat fss))" by auto
  with buffer_of_plain show ?thesis by blast
qed

subsection \<open>Properties\<close>

text \<open>
  C11: a new message on which any sequence of scalar fields is set, by key, yields a buffer that the
  reader splits into exactly the fields written, in the order of the calls: every call succeeds,
  optional fields at their default are left out, and reading and closing leaks nothing.\<close>

theorem written_message_opens:
  assumes "pbc_wmessage_new p name g = Some (Some s)" and "pbcP_get_message p name = Some (Some t)"
    and "those (map (call_fields p t) cs) = Some fss" and "concat fss \<noteq> []"
    and "length (wmsg (concat fss)) + 20 \<le> 2 ^ 30"
  shows "\<exists>s' bytes ctx g'. run_calls s 0 cs = Some (s', replicate (length cs) 0)
    \<and> pbc_wmessage_buffer s' 0 = Some (s', map Some bytes)
    \<and> pbcC_open junk (Some (bytes @ rest)) (int (length bytes)) g2 = Some (int (length (concat fss)), ctx, g')
    \<and> ctx_atoms ctx = watoms 0 (concat fss) \<and> pbcC_close ctx g' = g2"
proof -
  obtain s' where s': "run_calls s 0 cs = Some (s', replicate (length cs) 0)" "pbc_wmessage_buffer s' 0 = Some (s', map Some (wmsg (concat fss)))"
    using written_bytes [OF assms(1-3,5)] by blast
  have "length (wmsg (concat fss)) < 2 ^ 31" using assms(5) by simp
  from open_fields [OF calls_fields_valid [OF assms(3)] assms(4) this] s'
  show ?thesis by blast
qed

definition person_env :: "stringpool pbc_env option" where
  "person_env = do {
     (m, p) \<leftarrow> pbc_new_tables no_mem;
     (m, p, queue) \<leftarrow> push_fields p (cstr ''Person'') person_fields pbcA_open m;
     (m, p, i) \<leftarrow> pbcP_init_message p (cstr ''Person'') m;
     Some p }"

definition person_calls :: "wcall list" where
  "person_calls = [SetString (cstr ''name'') [74, 111, 0] (- 1), SetInteger (cstr ''id'') 0 0, SetInteger (cstr ''id'') 300 0]"

lemma written_message_opens_witness:
  "case person_env of None \<Rightarrow> False
   | Some p \<Rightarrow> (case pbc_wmessage_new p (cstr ''Person'') 7 of None \<Rightarrow> False | Some None \<Rightarrow> False
     | Some (Some s) \<Rightarrow> \<exists>s' bytes ctx g'. run_calls s 0 person_calls = Some (s', replicate (length person_calls) 0)
      \<and> pbc_wmessage_buffer s' 0 = Some (s', map Some bytes)
      \<and> pbcC_open [] (Some (bytes @ [1])) (int (length bytes)) 2 = Some (int (length (concat [[WLend 1 [74, 111, 0]], [], [WVarint 2 300]])), ctx, g')
      \<and> ctx_atoms ctx = watoms 0 (concat [[WLend 1 [74, 111, 0]], [], [WVarint 2 300]]) \<and> pbcC_close ctx g' = 2)"
proof -
  have "case person_env of None \<Rightarrow> False
   | Some p \<Rightarrow> pbcP_get_message p (cstr ''Person'') = Some (Some 0) \<and> pbc_wmessage_new p (cstr ''Person'') 7 \<notin> {None, Some None}
      \<and> those (map (call_fields p 0) person_calls) = Some [[WLend 1 [74, 111, 0]], [], [WVarint 2 300]]"
    by code_simp
  then obtain p s where p: "person_env = Some p" "pbcP_get_message p (cstr ''Person'') = Some (Some 0)"
    "pbc_wmessage_new p (cstr ''Person'') 7 = Some (Some s)"
    "those (map (call_fields p 0) person_calls) = Some [[WLend 1 [74, 111, 0]], [], [WVarint 2 300]]"
    by (auto split: option.splits)
  have l: "length (wmsg (concat [[WLend 1 [74, 111, 0]], [], [WVarint 2 300]])) = 8"
    by (simp add: wmsg_def wenc_def encode_leb leb.simps)
  show ?thesis unfolding p option.case
    by (rule written_message_opens [OF p(3,2,4)]) (simp_all only: l, simp_all)
qed

text \<open>
  The packed values of a field are written as the length of their encodings and the
  encodings, whatever the length guessed beforehand: the bytes before stay, nothing is left
  uninitialised, and no error is set.\<close>

theorem packed_varints_written:
  assumes "wm_ok w" and "arr_inv (pk_data p)" and "enc_varint (pk_ptype p) = Some enc"
    and "those (map enc (arr_list (pk_data p))) = Some bss"
    and "wm_ptr w + 2 * length (arr_list (pk_data p)) + length (concat bss) + 60 \<le> 2 ^ 30"
  shows "\<exists>m' w'. pack_packed_varint p (m, w) = Some (m', w', False)
    \<and> wm_out w' = wm_out w @ map Some (pbcV_encode32 (of_nat (length (concat bss))) @ concat bss)"
proof -
  have "length (concat bss) < 2 ^ 32" using assms(5) by simp
  then have "unat (of_nat (length (concat bss)) :: u32) = length (concat bss)" unfolding unat_of_nat_u32 by simp
  then have "pbcV_encode32 (of_nat (length (concat bss))) = leb (length (concat bss))" unfolding encode32_leb by simp
  then show ?thesis using pack_varint_ok [OF assms, of m] by auto
qed

definition packed_of :: "int \<Rightarrow> pbc_var list \<Rightarrow> packed" where
  "packed_of ptype vs = \<lparr>pk_id = 4, pk_ptype = ptype,
     pk_data = (case push_all pbcA_push pbcA_open_heap vs no_mem of Some (m, a) \<Rightarrow> a | None \<Rightarrow> pbcA_open_heap)\<rparr>"

lemma packed_of_ok:
  assumes "length vs \<le> Suc PUSH_MAX"
  shows "arr_inv (pk_data (packed_of t vs))" and "arr_list (pk_data (packed_of t vs)) = vs" and "pk_ptype (packed_of t vs) = t"
  using va.push_all_ok [of pbcA_open_heap vs no_mem] assms by (auto simp: packed_of_def open_inv)

lemma packed_varints_written_witness:
  "case wmessage_new None no_mem of None \<Rightarrow> False | Some (m, w) \<Rightarrow>
   \<exists>m' w'. pack_packed_varint (packed_of PTYPE_INT32 [VInt 1 0, VInt 300 0, VInt (- 1) 0]) (m, w) = Some (m', w', False)
    \<and> wm_out w' = wm_out w @ map Some (pbcV_encode32 (of_nat (length (concat [[1], [172, 2], [255, 255, 255, 255, 15 :: byte]])))
         @ concat [[1], [172, 2], [255, 255, 255, 255, 15]])"
proof -
  obtain m w where w: "wmessage_new None no_mem = Some (m, w)" by (rule wmessage_new_total)
  have ptr: "wm_ptr w = 0" using length_wm_out [of w] new_message_ok [OF w] by simp
  have ok: "wm_ok w" using new_message_ok [OF w] by simp
  let ?vs = "[VInt 1 0, VInt 300 0, VInt (- 1) 0]"
  have len: "length ?vs \<le> Suc PUSH_MAX" by (simp add: PUSH_MAX_def)
  note p = packed_of_ok [OF len, of PTYPE_INT32]
  have e: "enc_varint (pk_ptype (packed_of PTYPE_INT32 ?vs)) = Some (\<lambda>v. map_option pbcV_encode32 (var_low v))"
    by (simp add: p enc_varint_def)
  have b: "those (map (\<lambda>v. map_option pbcV_encode32 (var_low v)) (arr_list (pk_data (packed_of PTYPE_INT32 ?vs))))
      = Some [[1], [172, 2], [255, 255, 255, 255, 15]]" unfolding p by code_simp
  show ?thesis unfolding w prod.case option.case
    by (rule packed_varints_written [OF ok p(1) e b]) (simp add: p ptr)
qed

text \<open>
  \<open>_pack_packed_32\<close> places its four-byte items eight bytes apart and accounts for four: of two
  packed values in a new message the second is lost and four bytes of the payload are never
  written, and nine to thirteen values are written past the end of the buffer.\<close>

theorem packed_fixed32_misplaced:
  assumes "wmessage_new ty m0 = Some (m, w)"
    and "pk_ptype p = PTYPE_FIXED32" and "arr_inv (pk_data p)" and "arr_list (pk_data p) = [VInt x 0, VInt y 0]"
    and "pk_ptype q = PTYPE_FIXED32" and "arr_inv (pk_data q)" and "arr_list (pk_data q) = map (\<lambda>v. VInt v 0) vs"
    and "9 \<le> length vs" and "length vs \<le> 13"
  shows "(\<exists>w'. pack_packed_32 p (m, w) = Some (m, w') \<and> wm_out w' = map Some (8 # int32_encode x) @ replicate 4 None)
    \<and> pack_packed_32 q (m, w) = None"
proof
  have w: "wm_buffer w = replicate 64 None" "wm_ptr w = 0"
    using assms(1) by (auto simp: wmessage_new_def WMESSAGE_SIZE_def)
  have n: "pbc_array_size (pk_data p) = 2" "pbc_array_size (pk_data q) = length vs"
    using va.size_of [OF assms(3)] va.size_of [OF assms(6)] assms(4,7) by simp_all
  have e: "expand_message w (10 + int (k * 4)) m = Some (m, w)" if "k \<le> 13" for k
    using that by (simp add: expand_message_def w)
  have k: "pbcV_encode32 (of_nat (k * 4)) = [of_nat (k * 4)]" if "k \<le> 13" for k
    using that by (subst encode32_leb, unfold unat_of_nat_u32) (simp add: leb.simps)
  let ?X = "map Some (int32_encode x)" and ?Y = "map Some (int32_encode y)"
  have w1: "wput w [8] = Some (w\<lparr>wm_buffer := Some 8 # replicate 63 None, wm_ptr := 1\<rparr>)"
    by (simp add: wput_def wcopy_def blit_def w)
  have r63: "replicate 63 None = replicate 4 None @ replicate 4 None @ replicate 4 None @ (replicate 51 None :: byte option list)"
    by (simp add: replicate_add [symmetric])
  have b1: "blit ((Some 8 # replicate 4 None) @ r) 1 ?X = Some ((Some 8 # ?X) @ r)" for r
    by (simp add: blit_def int32_encode_def)
  have b2: "blit ((Some 8 # ?X @ replicate 4 None) @ replicate 4 None @ r) 9 ?Y = Some ((Some 8 # ?X @ replicate 4 None) @ ?Y @ r)" for r
    by (simp add: blit_def int32_encode_def)
  have items: "write_items (Some 8 # replicate 63 None) 1 [int32_encode x, int32_encode y]
      = Some (Some 8 # ?X @ replicate 4 None @ ?Y @ replicate 51 None)"
    unfolding r63 using b1 [of "replicate 4 None @ replicate 4 None @ replicate 51 None"] b2 [of "replicate 51 None"] by simp
  have "length (int32_encode x) = 4" by (simp add: int32_encode_def)
  then show "\<exists>w'. pack_packed_32 p (m, w) = Some (m, w') \<and> wm_out w' = map Some (8 # int32_encode x) @ replicate 4 None"
    using e [of 2] k [of 2] values_of_list [OF assms(3)] assms(2,4) items
    by (simp add: pack_packed_32_def pack_fixed_def n INT_MAX_def enc_fixed32_def w1 var_low_def wm_out_def
        del: write_items.simps)
  show "pack_packed_32 q (m, w) = None"
  proof (rule ccontr)
    assume "pack_packed_32 q (m, w) \<noteq> None"
    moreover have "those (map (enc_fixed32 PTYPE_FIXED32) (map (\<lambda>v. VInt v 0) vs)) = Some (map int32_encode vs)" for vs
      by (induction vs) (simp_all add: enc_fixed32_def var_low_def)
    moreover obtain w1 where w1: "wput w [of_nat (length vs * 4)] = Some w1" "wm_ptr w1 = 1" "length (wm_buffer w1) = 64"
      by (simp add: wput_def wcopy_def blit_def w)
    ultimately obtain buffer' where wi: "write_items (wm_buffer w1) 1 (map int32_encode vs) = Some buffer'"
      using e [of "length vs"] k [of "length vs"] values_of_list [OF assms(6)] assms(5,7,9)
      by (auto simp: pack_packed_32_def pack_fixed_def n INT_MAX_def w1 ub_simps)
    have "vs \<noteq> []" using assms(8) by auto
    then have "1 + 8 * (length (map int32_encode vs) - 1) + 4 \<le> length (wm_buffer w1)"
      by (intro write_items_inside [OF wi]) (simp_all add: list_all_iff int32_encode_def)
    then show False using assms(8) w1(3) by simp
  qed
qed


lemma packed_fixed32_misplaced_witness:
  "case wmessage_new None no_mem of None \<Rightarrow> False | Some (m, w) \<Rightarrow>
     (\<exists>w'. pack_packed_32 (packed_of PTYPE_FIXED32 [VInt 5 0, VInt 6 0]) (m, w) = Some (m, w')
        \<and> wm_out w' = map Some (8 # int32_encode 5) @ replicate 4 None)
     \<and> pack_packed_32 (packed_of PTYPE_FIXED32 (map (\<lambda>v. VInt v 0) [1, 2, 3, 4, 5, 6, 7, 8, 9])) (m, w) = None"
proof -
  obtain m w where w: "wmessage_new None no_mem = Some (m, w)" by (rule wmessage_new_total)
  have "length [VInt 5 0, VInt 6 0] \<le> Suc PUSH_MAX" by (simp add: PUSH_MAX_def)
  note p = packed_of_ok [OF this, of PTYPE_FIXED32]
  have "length (map (\<lambda>v. VInt v 0) [1, 2, 3, 4, 5, 6, 7, 8, 9]) \<le> Suc PUSH_MAX" by (simp add: PUSH_MAX_def)
  note q = packed_of_ok [OF this, of PTYPE_FIXED32]
  show ?thesis unfolding w prod.case option.case
    by (rule packed_fixed32_misplaced [OF w p(3,1,2) q(3,1,2)]) simp_all
qed

end
