(* ===== verification/Decode.thy ===== *)
theory Decode
  imports Proto FloatBits
begin

section \<open>Decoding with a callback (pbc/src/decode.c)\<close>

text \<open>
  \<open>pbc_decode\<close> walks over the atoms of a message and calls the client once for every value. The
  client's function is the parameter \<open>pd\<close>, which updates the state \<open>'u\<close> behind \<open>ud\<close>; it gets all
  arguments of the call in one record. A slice value is the offset of its pointer from the start
  of the message, and a length. A failing \<open>assert\<close> is \<open>None\<close>. \<open>memory\<close> is what lies behind a
  pointer, of which only the first \<open>size\<close> bytes belong to the message.
\<close>

datatype pbc_value = ValInt u32 u32 | ValReal u64 | ValSlice int int | ValEnum int "cstring option"

record decoded =
  ev_type :: int
  ev_tname :: cstring
  ev_value :: pbc_value
  ev_id :: int
  ev_key :: "cstring option"

definition TYPENAME :: "cstring list" where
  "TYPENAME = map cstr [''invalid'', ''integer'', ''real'', ''boolean'', ''enum'', ''string'', ''message'', ''fixed64'',
     ''fixed32'', ''bytes'', ''int64'', ''uint'']"

definition int_value :: "longlong \<Rightarrow> pbc_value" where
  "int_value v = ValInt (ll_low v) (ll_hi v)"

subsection \<open>Loops over packed values\<close>

text \<open>
  The loops that \<open>call_array\<close> shares with \<open>_pbcP_unpack_packed\<close> in pattern.c: over the offsets of
  values of a fixed width, and over varints. \<open>step\<close> is the loop body once the number is read. A
  varint loop gives the number of values or -1; although short remainders are copied to \<open>temp\<close>, the
  number is decoded from the buffer. Each round consumes a byte or more, so that the size is
  enough fuel.
\<close>

fun fixed_each :: "nat \<Rightarrow> (nat \<Rightarrow> 'v option) \<Rightarrow> ('v \<Rightarrow> 's \<Rightarrow> 's option) \<Rightarrow> nat \<Rightarrow> nat \<Rightarrow> 's \<Rightarrow> 's option" where
  "fixed_each width read step 0 off s = Some s"
| "fixed_each width read step (Suc n) off s = do {
     v \<leftarrow> read off;
     s \<leftarrow> step v s;
     fixed_each width read step n (off + width) s }"

definition fixed_array :: "int \<Rightarrow> (nat \<Rightarrow> 'v option) \<Rightarrow> ('v \<Rightarrow> 's \<Rightarrow> 's option) \<Rightarrow> int \<Rightarrow> 's \<Rightarrow> ('s \<times> int) option" where
  "fixed_array width read step sz s =
     (if sz mod width \<noteq> 0 then Some (s, - 1)
      else do { s \<leftarrow> fixed_each (nat width) read step (nat sz div nat width) 0 s; Some (s, c_div sz width) })"

fun varint_each :: "nat \<Rightarrow> (longlong \<Rightarrow> 's \<Rightarrow> 's option) \<Rightarrow> byte list \<Rightarrow> int \<Rightarrow> int \<Rightarrow> 's \<Rightarrow> ('s \<times> int) option" where
  "varint_each fuel step buffer sz n s =
     (if sz \<le> 0 then Some (s, n)
      else case fuel of 0 \<Rightarrow> None
      | Suc fuel \<Rightarrow>
          if sz < 10 \<and> nat sz > length buffer then None
          else do {
            (len, v) \<leftarrow> pbcV_decode buffer;
            if sz < 10 \<and> int len > sz then Some (s, - 1)
            else do {
              s \<leftarrow> step v s;
              varint_each fuel step (drop len buffer) (sz - int len) (n + 1) s } })"

declare varint_each.simps [simp del]

definition varint_array :: "(longlong \<Rightarrow> 's \<Rightarrow> 's option) \<Rightarrow> byte list \<Rightarrow> int \<Rightarrow> 's \<Rightarrow> ('s \<times> int) option" where
  "varint_array step buffer sz s = varint_each (nat sz) step buffer sz 0 s"

definition le64 :: "byte list \<Rightarrow> nat \<Rightarrow> longlong option" where
  "le64 buffer i = do { lo \<leftarrow> le32 buffer i; h \<leftarrow> le32 buffer (i + 4); Some \<lparr>ll_low = lo, ll_hi = h\<rparr> }"

subsection \<open>Calls of the client\<close>

text \<open>The difference of two \<open>int\<close>s; an overflow is undefined.\<close>

definition slice_len :: "atom \<Rightarrow> int option" where
  "slice_len a =
     (let d = a_end a - a_start a in if - (2 ^ 31) \<le> d \<and> d < 2 ^ 31 then Some d else None)"

definition call_unknown :: "(decoded \<Rightarrow> 'u \<Rightarrow> 'u) \<Rightarrow> int \<Rightarrow> atom \<Rightarrow> 'u \<Rightarrow> ('u \<times> int) option" where
  "call_unknown pd fid a u =
     (let wt = wire_id a AND 7;
          call = (\<lambda>type v. do {
            tn \<leftarrow> rd TYPENAME (nat type);
            Some (pd \<lparr>ev_type = type, ev_tname = tn, ev_value = v, ev_id = fid, ev_key = None\<rparr> u, 0) })
      in if wt = WT_VARINT then call PBC_INT (ValInt (a_low a) (a_hi a))
         else if wt = WT_BIT64 then call PBC_FIXED64 (ValInt (a_low a) (a_hi a))
         else if wt = WT_LEND then do { n \<leftarrow> slice_len a; call PBC_BYTES (ValSlice (a_start a) n) }
         else if wt = WT_BIT32 then call PBC_FIXED32 (ValInt (a_low a) 0)
         else Some (u, 1))"

text \<open>The type and its name that a call gets for a field.\<close>

definition type_and_name :: "'pool pbc_env \<Rightarrow> pbc_field \<Rightarrow> (int \<times> cstring) option" where
  "type_and_name p f = do {
     (type, tn) \<leftarrow> pbcP_type True p (Some f);
     if type = 0 then None
     else case tn of Some tn \<Rightarrow> Some (type, tn)
     | None \<Rightarrow> map_option (Pair type) (rd TYPENAME (nat (type AND NOT PBC_REPEATED))) }"

definition field_decoded :: "'pool pbc_env \<Rightarrow> pbc_field \<Rightarrow> pbc_value \<Rightarrow> decoded option" where
  "field_decoded p f v = do {
     (type, tn) \<leftarrow> type_and_name p f;
     Some \<lparr>ev_type = type, ev_tname = tn, ev_value = v, ev_id = pf_id f, ev_key = Some (pf_name f)\<rparr> }"

definition enum_value :: "'pool pbc_env \<Rightarrow> pbc_field \<Rightarrow> u32 \<Rightarrow> pbc_value option" where
  "enum_value p f lo =
     (case pf_tname f of
        TEnum (Some i) \<Rightarrow> do {
          e \<leftarrow> rd (st_enums p) i;
          nm \<leftarrow> pbcM_ip_query (Some (pe_id e)) (sint lo);
          Some (ValEnum (sint lo) nm) }
      | _ \<Rightarrow> None)"

definition call_type :: "(decoded \<Rightarrow> 'u \<Rightarrow> 'u) \<Rightarrow> 'pool pbc_env \<Rightarrow> pbc_field \<Rightarrow> atom \<Rightarrow> 'u \<Rightarrow> ('u \<times> int) option" where
  "call_type pd p f a u = do {
     tn \<leftarrow> type_and_name p f;
     let t = pf_type f;
     let pass = (\<lambda>v. map_option (\<lambda>e. (pd e u, 0)) (field_decoded p f v));
     if t = PTYPE_DOUBLE then pass (ValReal (read_double a))
     else if t = PTYPE_FLOAT then pass (ValReal (f2d (read_float a)))
     else if t = PTYPE_ENUM then do { v \<leftarrow> enum_value p f (a_low a); pass v }
     else if t \<in> {PTYPE_INT64, PTYPE_UINT64, PTYPE_FIXED64, PTYPE_SFIXED64} then pass (ValInt (a_low a) (a_hi a))
     else if t \<in> {PTYPE_INT32, PTYPE_UINT32, PTYPE_BOOL, PTYPE_FIXED32, PTYPE_SFIXED32} then pass (ValInt (a_low a) 0)
     else if t = PTYPE_SINT32 then pass (int_value (pbcV_dezigzag32 \<lparr>ll_low = a_low a, ll_hi = a_hi a\<rparr>))
     else if t = PTYPE_SINT64 then pass (int_value (pbcV_dezigzag64 \<lparr>ll_low = a_low a, ll_hi = a_hi a\<rparr>))
     else if t \<in> {PTYPE_STRING, PTYPE_BYTES, PTYPE_MESSAGE} then
       (if wire_id a AND 7 \<noteq> WT_LEND then Some (u, - 1)
        else do { n \<leftarrow> slice_len a; pass (ValSlice (a_start a) n) })
     else None }"

definition call_array :: "(decoded \<Rightarrow> 'u \<Rightarrow> 'u) \<Rightarrow> 'pool pbc_env \<Rightarrow> pbc_field \<Rightarrow> byte list \<Rightarrow> int \<Rightarrow> 'u \<Rightarrow> ('u \<times> int) option" where
  "call_array pd p f buffer sz u = do {
     tn \<leftarrow> type_and_name p f;
     let t = pf_type f;
     let pass = (\<lambda>v u. map_option (\<lambda>e. pd e u) (field_decoded p f v));
     if t = PTYPE_DOUBLE then fixed_array 8 (le64 buffer) (\<lambda>v. pass (ValReal (u64_of_ll (ll_low v) (ll_hi v)))) sz u
     else if t = PTYPE_FLOAT then fixed_array 4 (le32 buffer) (\<lambda>v. pass (ValReal (f2d v))) sz u
     else if t \<in> {PTYPE_FIXED32, PTYPE_SFIXED32} then fixed_array 4 (le32 buffer) (\<lambda>v. pass (ValInt v 0)) sz u
     else if t \<in> {PTYPE_FIXED64, PTYPE_SFIXED64} then fixed_array 8 (le64 buffer) (\<lambda>v. pass (int_value v)) sz u
     else if t \<in> {PTYPE_INT64, PTYPE_UINT64, PTYPE_INT32, PTYPE_UINT32, PTYPE_BOOL} then
       varint_array (\<lambda>v. pass (int_value v)) buffer sz u
     else if t = PTYPE_ENUM then
       varint_array (\<lambda>v u. do { x \<leftarrow> enum_value p f (ll_low v); pass x u }) buffer sz u
     else if t = PTYPE_SINT32 then varint_array (\<lambda>v. pass (int_value (pbcV_dezigzag32 v))) buffer sz u
     else if t = PTYPE_SINT64 then varint_array (\<lambda>v. pass (int_value (pbcV_dezigzag64 v))) buffer sz u
     else Some (u, - 1) }"

subsection \<open>The atoms of a message\<close>

text \<open>\<open>wire_id\<close> is a signed \<open>int\<close> and \<open>>> 3\<close> keeps its sign.\<close>

definition atom_id :: "atom \<Rightarrow> int" where
  "atom_id a = sint (wire_id a) div 8"

text \<open>A pointer into the message; one that leaves the memory behind it has no defined contents.\<close>

definition at_offset :: "byte list \<Rightarrow> int \<Rightarrow> byte list option" where
  "at_offset memory i = (if 0 \<le> i \<and> i \<le> int (length memory) then Some (drop (nat i) memory) else None)"

definition decode_atom :: "(decoded \<Rightarrow> 'u \<Rightarrow> 'u) \<Rightarrow> 'pool pbc_env \<Rightarrow> pbc_message \<Rightarrow> byte list \<Rightarrow> atom \<Rightarrow> 'u \<Rightarrow> ('u \<times> bool) option" where
  "decode_atom pd p msg memory a u = do {
     r \<leftarrow> pbcM_ip_query (pm_id msg) (atom_id a);
     case r of
       None \<Rightarrow> do { (u, err) \<leftarrow> call_unknown pd (atom_id a) a u; Some (u, err = 0) }
     | Some fi \<Rightarrow> do {
         f \<leftarrow> rd (st_fields p) fi;
         if pf_label f = LABEL_PACKED then do {
           buffer \<leftarrow> at_offset memory (a_start a);
           n \<leftarrow> slice_len a;
           (u, n) \<leftarrow> call_array pd p f buffer n u;
           Some (u, \<not> n < 0) }
         else do { (u, err) \<leftarrow> call_type pd p f a u; Some (u, err = 0) } } }"

text \<open>The index of the atom that failed, if one did.\<close>

fun decode_atoms :: "(decoded \<Rightarrow> 'u \<Rightarrow> 'u) \<Rightarrow> 'pool pbc_env \<Rightarrow> pbc_message \<Rightarrow> byte list \<Rightarrow> atom list \<Rightarrow> nat \<Rightarrow> 'u
    \<Rightarrow> ('u \<times> nat option) option" where
  "decode_atoms pd p msg memory [] i u = Some (u, None)"
| "decode_atoms pd p msg memory (a # as) i u = do {
     (u, ok) \<leftarrow> decode_atom pd p msg memory a u;
     if ok then decode_atoms pd p msg memory as (i + 1) u else Some (u, Some i) }"

definition pbc_decode :: "(decoded \<Rightarrow> 'u \<Rightarrow> 'u) \<Rightarrow> byte list \<Rightarrow> 'pool pbc_env \<Rightarrow> cstring \<Rightarrow> byte list option \<Rightarrow> int \<Rightarrow> 'u \<Rightarrow> int
    \<Rightarrow> ('pool pbc_env \<times> 'u \<times> int \<times> int) option" where
  "pbc_decode pd junk p type_name buffer sz u g = do {
     r \<leftarrow> pbcP_get_message p type_name;
     case r of None \<Rightarrow> Some (p\<lparr>env_lasterror := ''Proto not found''\<rparr>, u, - 1, g)
     | Some t \<Rightarrow>
         if sz = 0 then Some (p, u, 0, g)
         else do {
           msg \<leftarrow> rd (st_messages p) t;
           (count, ctx, g) \<leftarrow> pbcC_open junk buffer sz g;
           if count \<le> 0 then Some (p\<lparr>env_lasterror := ''decode context error''\<rparr>, u, count - 1, pbcC_close ctx g)
           else do {
             memory \<leftarrow> buffer;
             number \<leftarrow> ctx_number ctx;
             (u, failed) \<leftarrow> decode_atoms pd p msg memory (ctx_atoms ctx) 0 u;
             Some (p, u, case failed of None \<Rightarrow> number | Some i \<Rightarrow> - int i - 1, pbcC_close ctx g) } } }"

subsection \<open>Numbers in atoms\<close>

lemma ll_of_parts [simp]: "ll_of (u64_of_ll lo h) = \<lparr>ll_low = lo, ll_hi = h\<rparr>"
proof -
  have "(ucast (u64_of_ll lo h) :: u32) = lo"
    by (rule bit_word_eqI) (auto simp: u64_of_ll_def bit_simps)
  moreover have "(ucast (drop_bit 32 (u64_of_ll lo h)) :: u32) = h"
    by (rule bit_word_eqI) (auto simp: u64_of_ll_def bit_simps dest: bit_imp_le_length)
  ultimately show ?thesis by (simp add: ll_of_def)
qed

lemma ll_of_ucast [simp]: "ll_of (ucast (x :: u32)) = \<lparr>ll_low = x, ll_hi = 0\<rparr>"
proof -
  have "(ucast (ucast x :: u64) :: u32) = x" by (rule bit_word_eqI) (auto simp: bit_simps)
  moreover have "(ucast (drop_bit 32 (ucast x :: u64)) :: u32) = 0"
    by (rule bit_word_eqI) (auto simp: bit_simps dest: bit_imp_le_length)
  ultimately show ?thesis by (simp add: ll_of_def)
qed

lemma sint_of_nat: "n < 2 ^ 31 \<Longrightarrow> sint (of_nat n :: u32) = int n"
  using sint_small [of "int n"] by simp

lemma sint_of_nat_neg:
  assumes "2 ^ 31 \<le> n" and "n < 2 ^ 32"
  shows "sint (of_nat n :: u32) = int n - 2 ^ 32"
proof -
  have "sint (of_nat n :: u32) = to_int32 (int n)" by (simp add: to_int32_def)
  also have "\<dots> = to_int32 (int n - 2 ^ 32)" by (rule to_int32_wrap [symmetric])
  also have "\<dots> = int n - 2 ^ 32"
    unfolding to_int32_def signed_of_int using assms by (simp add: signed_take_bit_int_eq_self)
  finally show ?thesis .
qed

fun wnum :: "wfield \<Rightarrow> nat" where
  "wnum (WVarint n v) = n"
| "wnum (WBit64 n lo h) = n"
| "wnum (WLend n bs) = n"
| "wnum (WBit32 n v) = n"

lemma wtag_wnum: "wtag fl div 8 = wnum fl"
  by (cases fl) simp_all

lemma wire_id_watom: "wire_id (watom start fl) = of_nat (wtag fl)"
  by (simp add: watom_def Let_def split: wfield.split)

lemma wnum_less: "wnum fl < k \<Longrightarrow> wtag fl < 8 * k"
  by (cases fl) simp_all

lemma atom_id_watom:
  assumes "wnum fl < 2 ^ 28"
  shows "atom_id (watom start fl) = int (wnum fl)"
proof -
  have "wtag fl < 2 ^ 31" using wnum_less [OF assms] by simp
  then have "atom_id (watom start fl) = int (wtag fl div 8)" by (simp add: atom_id_def wire_id_watom sint_of_nat zdiv_int)
  then show ?thesis by (simp only: wtag_wnum)
qed

lemma wire_type_watom:
  assumes "wvalid fl"
  shows "wire_id (watom start fl) AND 7 = of_nat (wtag fl mod 8)"
  unfolding wire_id_watom by (rule tag_type) (use assms in \<open>simp add: wvalid_def\<close>)

text \<open>Where the payload of a field that starts at \<open>start\<close> lies.\<close>

definition payload_at :: "nat \<Rightarrow> nat \<Rightarrow> byte list \<Rightarrow> nat" where
  "payload_at start n bs = start + length (leb (8 * n + 2)) + length (leb (length bs))"

lemma slice_watom:
  assumes "payload_at start n bs + length bs < 2 ^ 31"
  shows "a_start (watom start (WLend n bs)) = int (payload_at start n bs)"
    and "slice_len (watom start (WLend n bs)) = Some (int (length bs))"
proof -
  have "sint (of_nat (payload_at start n bs) :: u32) = int (payload_at start n bs)"
    "sint (of_nat (payload_at start n bs + length bs) :: u32) = int (payload_at start n bs + length bs)"
    by (rule sint_of_nat; use assms in simp)+
  then show s: "a_start (watom start (WLend n bs)) = int (payload_at start n bs)"
    and "slice_len (watom start (WLend n bs)) = Some (int (length bs))"
    using assms by (simp_all add: watom_def payload_at_def a_start_def a_end_def slice_len_def Let_def)
qed

subsection \<open>The calls for a list of atoms\<close>

lemma decode_atoms_ok:
  assumes "length evs = length as"
    and "\<And>i u. i < length as \<Longrightarrow> decode_atom pd p msg memory (as ! i) u = Some (pd (evs ! i) u, True)"
  shows "decode_atoms pd p msg memory as k u = Some (fold pd evs u, None)"
  using assms
proof (induction as arbitrary: evs k u)
  case (Cons a as)
  obtain e es where evs: "evs = e # es" using Cons.prems(1) by (cases evs) auto
  have "decode_atom pd p msg memory a u = Some (pd e u, True)" using Cons.prems(2) [of 0] evs by simp
  moreover have "decode_atoms pd p msg memory as (k + 1) (pd e u) = Some (fold pd es (pd e u), None)"
  proof (rule Cons.IH)
    show "length es = length as" using Cons.prems(1) evs by simp
    show "decode_atom pd p msg memory (as ! i) u = Some (pd (es ! i) u, True)" if "i < length as" for i u
      using Cons.prems(2) [of "Suc i"] that evs by simp
  qed
  ultimately show ?case by (simp add: evs)
qed simp

end
