(* ===== verification/Written.thy ===== *)
theory Written
  imports WPacked Decode
begin

section \<open>What is written is what the callback gets\<close>

text \<open>
  The composition of the writer (wmessage.c), the reader (context.c) and \<open>pbc_decode\<close> (decode.c):
  the calls with which a message was filled come back as the calls of the client's function.
\<close>

fun call_key :: "wcall \<Rightarrow> cstring" where
  "call_key (SetInteger key lo h) = key"
| "call_key (SetReal key v) = key"
| "call_key (SetString key v len) = key"

text \<open>
  The value the client sees for a setter on field \<open>f\<close>; a string is the slice of the message that
  holds its bytes. Of a \<open>sint32\<close> only the low half is the number that was set.
\<close>

fun value_seen :: "'pool pbc_env \<Rightarrow> byte list \<Rightarrow> pbc_field \<Rightarrow> wcall \<Rightarrow> pbc_value \<Rightarrow> bool" where
  "value_seen p bytes f (SetInteger key lo h) v =
     (let t = pf_type f
      in if t \<in> {PTYPE_INT64, PTYPE_UINT64, PTYPE_FIXED64, PTYPE_SFIXED64, PTYPE_SINT64} then v = ValInt lo h
         else if t = PTYPE_ENUM then enum_value p f lo = Some v
         else if t = PTYPE_SINT32 then (case v of ValInt l _ \<Rightarrow> l = lo | _ \<Rightarrow> False)
         else v = ValInt lo 0)"
| "value_seen p bytes f (SetReal key d) v = (v = ValReal (if pf_type f = PTYPE_FLOAT then f2d (d2f d) else d))"
| "value_seen p bytes f (SetString key s len) v =
     (case (v, string_len s len) of
        (ValSlice i n, Some (l, _)) \<Rightarrow> 0 \<le> i \<and> n = int l \<and> take l (drop (nat i) bytes) = take l s
      | _ \<Rightarrow> False)"

definition call_seen :: "'pool pbc_env \<Rightarrow> nat \<Rightarrow> byte list \<Rightarrow> wcall \<Rightarrow> decoded \<Rightarrow> bool" where
  "call_seen p t bytes c e =
     (case message_field p t (call_key c) of None \<Rightarrow> False
      | Some f \<Rightarrow> ev_key e = Some (pf_name f) \<and> ev_id e = pf_id f
          \<and> type_and_name p f = Some (ev_type e, ev_tname e) \<and> value_seen p bytes f c (ev_value e))"

text \<open>The key and the number lead to the same field, whose type has a name.\<close>

definition decodable :: "'pool pbc_env \<Rightarrow> nat \<Rightarrow> wcall \<Rightarrow> bool" where
  "decodable p t c =
     (case (rd (st_messages p) t, message_field p t (call_key c)) of
        (Some msg, Some f) \<Rightarrow>
          pf_id f < 2 ^ 28
          \<and> pbcM_ip_query (pm_id msg) (pf_id f) = pbcM_sp_query (Some (pm_name msg)) (call_key c)
          \<and> type_and_name p f \<noteq> None
          \<and> (case c of SetInteger key lo h \<Rightarrow> pf_type f \<noteq> PTYPE_ENUM \<or> enum_value p f lo \<noteq> None | _ \<Rightarrow> True)
      | _ \<Rightarrow> False)"

definition seen_event :: "int \<times> cstring \<Rightarrow> pbc_field \<Rightarrow> pbc_value \<Rightarrow> decoded" where
  "seen_event ty f v = \<lparr>ev_type = fst ty, ev_tname = snd ty, ev_value = v, ev_id = pf_id f, ev_key = Some (pf_name f)\<rparr>"

lemma field_decoded_seen: "type_and_name p f = Some ty \<Longrightarrow> field_decoded p f v = Some (seen_event ty f v)"
  by (cases ty) (simp add: field_decoded_def seen_event_def)

lemma wfield_of_integer_num: "wfield_of_integer f lo h = Some fl \<Longrightarrow> wnum fl = nat (pf_id f)"
  by (auto simp: wfield_of_integer_def Let_def split: if_splits)

lemma longlong_collapse: "\<lparr>ll_low = ll_low x, ll_hi = ll_hi x\<rparr> = x"
  by simp

lemma call_type_integer:
  assumes fl: "wfield_of_integer f lo h = Some fl" and ty: "type_and_name p f = Some ty"
    and en: "pf_type f \<noteq> PTYPE_ENUM \<or> enum_value p f lo \<noteq> None"
  shows "\<exists>v. (\<forall>bytes. value_seen p bytes f (SetInteger key lo h) v)
    \<and> (\<forall>u. call_type pd p f (watom start fl) u = Some (pd (seen_event ty f v) u, 0))"
proof -
  note defs = wfield_of_integer_def call_type_def Let_def watom_def field_decoded_seen [OF ty] ty int_value_def
  consider "pf_type f \<in> {PTYPE_INT64, PTYPE_UINT64, PTYPE_FIXED64, PTYPE_SFIXED64}"
    | "pf_type f \<in> {PTYPE_INT32, PTYPE_UINT32, PTYPE_BOOL, PTYPE_FIXED32, PTYPE_SFIXED32}"
    | "pf_type f = PTYPE_ENUM" | "pf_type f = PTYPE_SINT32" | "pf_type f = PTYPE_SINT64"
    using fl by (auto simp: wfield_of_integer_def Let_def split: if_splits)
  then show ?thesis
  proof cases
    case 1
    then show ?thesis using fl by (intro exI [of _ "ValInt lo h"]) (auto simp: defs)
  next
    case 2
    then show ?thesis using fl by (intro exI [of _ "ValInt lo 0"]) (auto simp: defs)
  next
    case 3
    with en obtain v where "enum_value p f lo = Some v" by auto
    then show ?thesis using fl 3 by (intro exI [of _ v]) (auto simp: defs)
  next
    case 4
    define z where "z = push_bit 1 lo XOR signed_drop_bit 31 lo"
    have "fl = WVarint (nat (pf_id f)) (ucast z)" using fl 4 by (simp add: wfield_of_integer_def z_def)
    moreover have "pbcV_dezigzag32 \<lparr>ll_low = z, ll_hi = 0\<rparr> = \<lparr>ll_low = lo, ll_hi = (if bit lo 30 \<noteq> bit lo 31 then - 1 else 0)\<rparr>"
      unfolding z_def by (rule dezz32)
    ultimately show ?thesis using 4
      by (intro exI [of _ "ValInt lo (if bit lo 30 \<noteq> bit lo 31 then - 1 else 0)"]) (simp add: defs)
  next
    case 5
    define z where "z = push_bit 1 (u64_of_ll lo h) XOR signed_drop_bit 63 (u64_of_ll lo h)"
    have "fl = WVarint (nat (pf_id f)) z" using fl 5 by (simp add: wfield_of_integer_def Let_def z_def)
    moreover have "pbcV_dezigzag64 \<lparr>ll_low = ll_low (ll_of z), ll_hi = ll_hi (ll_of z)\<rparr> = \<lparr>ll_low = lo, ll_hi = h\<rparr>"
      unfolding longlong_collapse z_def dezz64 ll_of_parts ..
    ultimately show ?thesis using 5 by (intro exI [of _ "ValInt lo h"]) (simp add: defs)
  qed
qed


lemma call_type_real:
  assumes ty: "type_and_name p f = Some ty"
  shows "pf_type f = PTYPE_FLOAT \<Longrightarrow> call_type pd p f (watom start (WBit32 n (d2f d))) u = Some (pd (seen_event ty f (ValReal (f2d (d2f d)))) u, 0)"
    and "pf_type f = PTYPE_DOUBLE \<Longrightarrow> call_type pd p f (watom start (WBit64 n (ucast d) (ucast (drop_bit 32 d)))) u = Some (pd (seen_event ty f (ValReal d)) u, 0)"
proof -
  show "pf_type f = PTYPE_FLOAT \<Longrightarrow> call_type pd p f (watom start (WBit32 n (d2f d))) u = Some (pd (seen_event ty f (ValReal (f2d (d2f d)))) u, 0)"
    by (simp add: call_type_def watom_def read_float_def field_decoded_seen [OF ty] ty)
  have "u64_of_ll (ucast d) (ucast (drop_bit 32 d)) = d" using u64_of_ll_of [of d] by (simp add: ll_of_def)
  then show "pf_type f = PTYPE_DOUBLE \<Longrightarrow> call_type pd p f (watom start (WBit64 n (ucast d) (ucast (drop_bit 32 d)))) u = Some (pd (seen_event ty f (ValReal d)) u, 0)"
    by (simp add: call_type_def watom_def read_double_def u64_of_ll_def field_decoded_seen [OF ty] ty)
qed

lemma wire_type_lend: "wvalid (WLend n bs) \<Longrightarrow> wire_id (watom start (WLend n bs)) AND 7 = WT_LEND"
proof -
  have "Suc (Suc (8 * n)) mod 8 = 2" by presburger
  moreover assume "wvalid (WLend n bs)"
  then have "wire_id (watom start (WLend n bs)) AND 7 = of_nat (Suc (Suc (8 * n)) mod 8)" by (simp add: wire_type_watom)
  ultimately show ?thesis by simp
qed

lemma call_type_slice:
  assumes ty: "type_and_name p f = Some ty" and "pf_type f \<in> {PTYPE_STRING, PTYPE_BYTES, PTYPE_MESSAGE}"
    and "wvalid (WLend n bs)" and "payload_at start n bs + length bs < 2 ^ 31"
  shows "call_type pd p f (watom start (WLend n bs)) u
    = Some (pd (seen_event ty f (ValSlice (int (payload_at start n bs)) (int (length bs)))) u, 0)"
  using assms(2) slice_watom [OF assms(4)] wire_type_lend [OF assms(3)]
  by (auto simp: call_type_def field_decoded_seen [OF ty] ty)

lemma payload_in: "drop (payload_at (length pre) n bs) (pre @ wenc (WLend n bs) @ post) = bs @ post"
  by (simp add: payload_at_def wenc_def)

text \<open>One call and the field it wrote at the end of \<open>pre\<close>.\<close>

lemma call_decoded:
  assumes cf: "call_fields p t c = Some [fl]" and dec: "decodable p t c" and msg: "rd (st_messages p) t = Some msg"
    and pos: "length pre + length (wenc fl) < 2 ^ 31"
  shows "\<exists>e. (\<forall>u memory. decode_atom pd p msg memory (watom (length pre) fl) u = Some (pd e u, True))
    \<and> (\<forall>post. call_seen p t (pre @ wenc fl @ post) c e)"
proof -
  obtain f where f: "message_field p t (call_key c) = Some f" "pf_id f < 2 ^ 28"
    "pbcM_ip_query (pm_id msg) (pf_id f) = pbcM_sp_query (Some (pm_name msg)) (call_key c)"
    using dec msg by (auto simp: decodable_def split: option.splits)
  obtain ty where ty: "type_and_name p f = Some ty"
    using dec msg f(1) by (auto simp: decodable_def split: option.splits)
  obtain fi where fi: "pbcM_ip_query (pm_id msg) (pf_id f) = Some (Some fi)" "rd (st_fields p) fi = Some f"
    "good_id f" "pf_label f \<noteq> LABEL_PACKED"
    using f(1,3) msg by (auto simp: message_field_def ub_simps split: if_splits)
  have atom: "decode_atom pd p msg memory (watom (length pre) fl) u = Some (pd e u, True)"
    if "wnum fl = nat (pf_id f)" "call_type pd p f (watom (length pre) fl) u = Some (pd e u, 0)" for memory u e
  proof -
    have "atom_id (watom (length pre) fl) = pf_id f"
      using atom_id_watom [of fl] that(1) f(2) fi(3) by (simp add: good_id_def)
    then show ?thesis using that(2) fi by (simp add: decode_atom_def)
  qed
  have seen: "call_seen p t bytes c (seen_event ty f v)" if "value_seen p bytes f c v" for bytes v
    using that f(1) ty by (simp add: call_seen_def seen_event_def)
  show ?thesis
  proof (cases c)
    case (SetInteger key lo h)
    have w: "wfield_of_integer f lo h = Some fl"
      using cf f(1) by (auto simp: SetInteger unless_def ub_simps split: if_splits)
    have en: "pf_type f \<noteq> PTYPE_ENUM \<or> enum_value p f lo \<noteq> None"
      using dec msg f(1) by (auto simp: decodable_def SetInteger)
    from call_type_integer [OF w ty en, where pd = pd] obtain v where "\<And>bytes. value_seen p bytes f c v"
      "\<And>u. call_type pd p f (watom (length pre) fl) u = Some (pd (seen_event ty f v) u, 0)" unfolding SetInteger by blast
    with atom [OF wfield_of_integer_num [OF w]] seen show ?thesis by blast
  next
    case (SetReal key d)
    consider "pf_type f = PTYPE_FLOAT" "fl = WBit32 (nat (pf_id f)) (d2f d)"
      | "pf_type f = PTYPE_DOUBLE" "fl = WBit64 (nat (pf_id f)) (ucast d) (ucast (drop_bit 32 d))"
      using cf f(1) by (auto simp: SetReal unless_def ub_simps split: if_splits)
    then show ?thesis
    proof cases
      case 1
      have "value_seen p bytes f c (ValReal (f2d (d2f d)))" for bytes by (simp add: SetReal 1)
      moreover have "call_type pd p f (watom (length pre) fl) u = Some (pd (seen_event ty f (ValReal (f2d (d2f d)))) u, 0)" for u
        unfolding 1(2) by (rule call_type_real(1) [OF ty 1(1)])
      moreover have "wnum fl = nat (pf_id f)" by (simp add: 1)
      ultimately show ?thesis using atom seen by blast
    next
      case 2
      have "value_seen p bytes f c (ValReal d)" for bytes by (simp add: SetReal 2)
      moreover have "call_type pd p f (watom (length pre) fl) u = Some (pd (seen_event ty f (ValReal d)) u, 0)" for u
        unfolding 2(2) by (rule call_type_real(2) [OF ty 2(1)])
      moreover have "wnum fl = nat (pf_id f)" by (simp add: 2)
      ultimately show ?thesis using atom seen by blast
    qed
  next
    case (SetString key s len)
    obtain l b where l: "string_len s len = Some (l, b)" "l \<le> length s" "pf_type f \<in> {PTYPE_STRING, PTYPE_BYTES}"
      and fl: "fl = WLend (nat (pf_id f)) (take l s)"
      using cf f(1) by (auto simp: SetString unless_def ub_simps split: if_splits)
    let ?n = "nat (pf_id f)" and ?bs = "take l s"
    let ?v = "ValSlice (int (payload_at (length pre) ?n ?bs)) (int (length ?bs))"
    have pl: "payload_at (length pre) ?n ?bs + length ?bs < 2 ^ 31" using pos by (simp add: payload_at_def fl wenc_def)
    have "wvalid (WLend ?n ?bs)" using call_fields_valid [OF cf] fl by simp
    moreover have "pf_type f \<in> {PTYPE_STRING, PTYPE_BYTES, PTYPE_MESSAGE}" using l(3) by auto
    ultimately have "call_type pd p f (watom (length pre) fl) u = Some (pd (seen_event ty f ?v) u, 0)" for u
      unfolding fl by (intro call_type_slice [OF ty _ _ pl])
    moreover have "value_seen p (pre @ wenc fl @ post) f c ?v" for post
    proof -
      have "take l (drop (payload_at (length pre) ?n ?bs) (pre @ wenc fl @ post)) = take l s"
        unfolding fl payload_in using l(2) by simp
      then show ?thesis using l by (simp add: SetString del: drop_append)
    qed
    moreover have "wnum fl = nat (pf_id f)" by (simp add: fl)
    ultimately show ?thesis using atom seen by blast
  qed
qed


lemma call_fields_single:
  assumes "call_fields p t c = Some fs"
  shows "fs = [] \<or> (\<exists>fl. fs = [fl])"
  using assms by (cases c) (auto simp: ub_simps unless_def split: if_splits)

lemma calls_decoded:
  assumes "those (map (call_fields p t) cs) = Some fss" and "list_all (decodable p t) cs" and "rd (st_messages p) t = Some msg"
    and "length pre + length (wmsg (concat fss)) < 2 ^ 31"
  shows "\<exists>evs. length evs = length (concat fss)
    \<and> (\<forall>i < length (concat fss). \<forall>u memory. decode_atom pd p msg memory (watoms (length pre) (concat fss) ! i) u = Some (pd (evs ! i) u, True))
    \<and> (\<forall>post. list_all2 (call_seen p t (pre @ wmsg (concat fss) @ post)) (filter (\<lambda>c. call_fields p t c \<noteq> Some []) cs) evs)"
  using assms
proof (induction cs arbitrary: fss pre)
  case (Cons c cs)
  obtain fs fss' where fs: "call_fields p t c = Some fs" "those (map (call_fields p t) cs) = Some fss'" "fss = fs # fss'"
    using Cons.prems(1) by (auto split: option.splits)
  have dec: "list_all (decodable p t) cs" "decodable p t c" using Cons.prems(2) by simp_all
  show ?case
  proof (cases "fs = []")
    case True
    have "length pre + length (wmsg (concat fss')) < 2 ^ 31" using Cons.prems(4) fs(3) True by simp
    from Cons.IH [OF fs(2) dec(1) Cons.prems(3) this] show ?thesis using fs True by simp
  next
    case False
    then obtain fl where fl: "fs = [fl]" using call_fields_single [OF fs(1)] by blast
    have cf: "call_fields p t c = Some [fl]" using fs(1) fl by simp
    have w: "wmsg (concat fss) = wenc fl @ wmsg (concat fss')" by (simp add: fs(3) fl wmsg_def)
    have "length pre + length (wenc fl) < 2 ^ 31" using Cons.prems(4) w by simp
    from call_decoded [OF cf dec(2) Cons.prems(3) this, where pd = pd] obtain e where
      e: "\<forall>u memory. decode_atom pd p msg memory (watom (length pre) fl) u = Some (pd e u, True)"
        "\<forall>post. call_seen p t (pre @ wenc fl @ post) c e" by blast
    have "length (pre @ wenc fl) + length (wmsg (concat fss')) < 2 ^ 31" using Cons.prems(4) w by simp
    from Cons.IH [OF fs(2) dec(1) Cons.prems(3) this] obtain es where es: "length es = length (concat fss')"
      "\<forall>i < length (concat fss'). \<forall>u memory. decode_atom pd p msg memory (watoms (length (pre @ wenc fl)) (concat fss') ! i) u = Some (pd (es ! i) u, True)"
      "\<forall>post. list_all2 (call_seen p t ((pre @ wenc fl) @ wmsg (concat fss') @ post)) (filter (\<lambda>c. call_fields p t c \<noteq> Some []) cs) es"
      by blast
    have "\<forall>u memory. decode_atom pd p msg memory (watoms (length pre) (concat fss) ! i) u = Some (pd ((e # es) ! i) u, True)"
      if "i < length (concat fss)" for i
    proof (cases i)
      case 0
      then show ?thesis using e(1) by (simp add: fs(3) fl)
    next
      case (Suc j)
      then have "j < length (concat fss')" using that by (simp add: fs(3) fl)
      with es(2) show ?thesis by (simp add: fs(3) fl Suc)
    qed
    moreover have "list_all2 (call_seen p t (pre @ wmsg (concat fss) @ post)) (filter (\<lambda>c. call_fields p t c \<noteq> Some []) (c # cs)) (e # es)" for post
      using e(2) es(3) cf by (simp add: w)
    moreover have "length (e # es) = length (concat fss)" using es(1) by (simp add: fs(3) fl)
    ultimately show ?thesis by (intro exI [of _ "e # es"]) simp
  qed
qed simp

subsection \<open>Properties\<close>

text \<open>
  C3: the setters with which a message is filled come back, in order, as the calls of the decoder's
  client: key, number, type and value of each field are those that were set, strings as slices of
  the message with the same bytes, floats rounded to single precision once; setters of an
  optional field to its default give no call. Nothing is leaked.\<close>

theorem decode_written:
  assumes "pbc_wmessage_new p name g = Some (Some s)" and "pbcP_get_message p name = Some (Some t)"
    and "those (map (call_fields p t) cs) = Some fss" and "concat fss \<noteq> []"
    and "length (wmsg (concat fss)) + 20 \<le> 2 ^ 30" and "list_all (decodable p t) cs"
  shows "\<exists>s' bytes evs. run_calls s 0 cs = Some (s', replicate (length cs) 0)
    \<and> pbc_wmessage_buffer s' 0 = Some (s', map Some bytes)
    \<and> pbc_decode pd junk p name (Some (bytes @ rest)) (int (length bytes)) u g2 = Some (p, fold pd evs u, int (length evs), g2)
    \<and> list_all2 (call_seen p t bytes) (filter (\<lambda>c. call_fields p t c \<noteq> Some []) cs) evs"
proof -
  let ?fs = "concat fss" and ?bytes = "wmsg (concat fss)"
  obtain s' where s': "run_calls s 0 cs = Some (s', replicate (length cs) 0)" "pbc_wmessage_buffer s' 0 = Some (s', map Some ?bytes)"
    using written_bytes [OF assms(1-3,5)] by blast
  have len: "length ?bytes < 2 ^ 31" using assms(5) by simp
  from open_fields [OF calls_fields_valid [OF assms(3)] assms(4) len, of junk rest g2] obtain ctx g' where
    o: "pbcC_open junk (Some (?bytes @ rest)) (int (length ?bytes)) g2 = Some (int (length ?fs), ctx, g')"
    "ctx_atoms ctx = watoms 0 ?fs" "ctx_number ctx = Some (int (length ?fs))" "pbcC_close ctx g' = g2" by blast
  obtain c cs' where "cs = c # cs'" using assms(3,4) by (cases cs) auto
  then obtain msg where msg: "rd (st_messages p) t = Some msg"
    using assms(6) by (auto simp: decodable_def split: option.splits)
  have "length [] + length ?bytes < 2 ^ 31" using len by simp
  from calls_decoded [OF assms(3,6) msg this, where pd = pd] obtain evs where evs: "length evs = length ?fs"
    "\<forall>i < length ?fs. \<forall>u memory. decode_atom pd p msg memory (watoms 0 ?fs ! i) u = Some (pd (evs ! i) u, True)"
    "\<forall>post. list_all2 (call_seen p t (?bytes @ post)) (filter (\<lambda>c. call_fields p t c \<noteq> Some []) cs) evs" by auto
  have d: "decode_atoms pd p msg (?bytes @ rest) (watoms 0 ?fs) 0 u = Some (fold pd evs u, None)"
    by (rule decode_atoms_ok) (use evs in auto)
  have "?bytes \<noteq> []" "0 < int (length ?fs)" using o(1) assms(4) by (auto simp: pbcC_open_def)
  then have "pbc_decode pd junk p name (Some (?bytes @ rest)) (int (length ?bytes)) u g2 = Some (p, fold pd evs u, int (length evs), g2)"
    using o d evs(1) by (simp add: pbc_decode_def assms(2) msg)
  moreover have "list_all2 (call_seen p t ?bytes) (filter (\<lambda>c. call_fields p t c \<noteq> Some []) cs) evs"
    using evs(3) [rule_format, of "[]"] by simp
  ultimately show ?thesis using s' by blast
qed


lemma person_written:
  obtains p s msg where "person_env = Some p" and "pbcP_get_message p (cstr ''Person'') = Some (Some 0)"
    and "pbc_wmessage_new p (cstr ''Person'') 7 = Some (Some s)"
    and "those (map (call_fields p 0) person_calls) = Some [[WLend 1 [74, 111, 0]], [], [WVarint 2 300]]"
    and "list_all (decodable p 0) person_calls"
    and "rd (st_messages p) 0 = Some msg" and "pbcM_ip_query (pm_id msg) 900 = Some (Some 2)" and "pbcM_ip_query (pm_id msg) (- 5) = Some None"
    and "rd (st_fields p) 2 = Some (person_fields ! 2)"
proof -
  define fss where "fss = [[WLend 1 [74, 111, 0]], [], [WVarint 2 300]]"
  have "case person_env of None \<Rightarrow> False
   | Some p \<Rightarrow> pbcP_get_message p (cstr ''Person'') = Some (Some 0) \<and> pbc_wmessage_new p (cstr ''Person'') 7 \<notin> {None, Some None}
      \<and> those (map (call_fields p 0) person_calls) = Some fss
      \<and> list_all (decodable p 0) person_calls \<and> rd (st_fields p) 2 = Some (person_fields ! 2)
      \<and> (case rd (st_messages p) 0 of None \<Rightarrow> False
         | Some msg \<Rightarrow> pbcM_ip_query (pm_id msg) 900 = Some (Some 2) \<and> pbcM_ip_query (pm_id msg) (- 5) = Some None)"
    unfolding fss_def by code_simp
  then show thesis by (auto split: option.splits intro: that [folded fss_def])
qed

lemma decode_written_witness:
  "case person_env of None \<Rightarrow> False
   | Some p \<Rightarrow> (case pbc_wmessage_new p (cstr ''Person'') 7 of None \<Rightarrow> False | Some None \<Rightarrow> False
     | Some (Some s) \<Rightarrow> \<exists>s' bytes evs. run_calls s 0 person_calls = Some (s', replicate (length person_calls) 0)
      \<and> pbc_wmessage_buffer s' 0 = Some (s', map Some bytes)
      \<and> pbc_decode (\<lambda>e u. u @ [e]) [] p (cstr ''Person'') (Some (bytes @ [9])) (int (length bytes)) [] 2
        = Some (p, fold (\<lambda>e u. u @ [e]) evs [], int (length evs), 2)
      \<and> list_all2 (call_seen p 0 bytes) (filter (\<lambda>c. call_fields p 0 c \<noteq> Some []) person_calls) evs)"
proof -
  obtain p s msg where p: "person_env = Some p" "pbcP_get_message p (cstr ''Person'') = Some (Some 0)"
    "pbc_wmessage_new p (cstr ''Person'') 7 = Some (Some s)"
    "those (map (call_fields p 0) person_calls) = Some [[WLend 1 [74, 111, 0]], [], [WVarint 2 300]]"
    "list_all (decodable p 0) person_calls" by (rule person_written)
  have l: "length (wmsg (concat [[WLend 1 [74, 111, 0]], [], [WVarint 2 300]])) = 8"
    by (simp add: wmsg_def wenc_def encode_leb leb.simps)
  show ?thesis unfolding p(1,3) option.case
    by (rule decode_written [OF p(3,2,4) _ _ p(5)]) (simp_all only: l, simp_all)
qed

text \<open>A message of one field.\<close>

lemma decode_single:
  assumes "pbcP_get_message p name = Some (Some t)" and "rd (st_messages p) t = Some msg"
    and "wvalid fl" and "length (wenc fl) < 2 ^ 31"
  shows "pbc_decode pd junk p name (Some (wenc fl @ rest)) (int (length (wenc fl))) u g
    = (case decode_atom pd p msg (wenc fl @ rest) (watom 0 fl) u of None \<Rightarrow> None
       | Some (u, ok) \<Rightarrow> Some (p, u, if ok then 1 else - 1, g))"
proof -
  have "\<forall>f \<in> set [fl]. wvalid f" "length (wmsg [fl]) < 2 ^ 31" using assms(3,4) by (simp_all add: wmsg_def)
  from open_fields [OF this(1) _ this(2), of junk rest g] obtain ctx g' where
    o: "pbcC_open junk (Some (wenc fl @ rest)) (int (length (wenc fl))) g = Some (1, ctx, g')"
    "ctx_atoms ctx = [watom 0 fl]" "ctx_number ctx = Some 1" "pbcC_close ctx g' = g" by (auto simp: wmsg_def)
  have "wenc fl \<noteq> []" using o(1) by (auto simp: pbcC_open_def)
  with o show ?thesis by (simp add: pbc_decode_def assms(1,2) split: option.split)
qed

text \<open>
  A packed field is taken as a slice without a look at its wire type: when a message holds a
  varint under the number of a packed field, the number itself becomes the offset from which the
  values are read, and unless it happens to lie in memory, decoding leaves the buffer.\<close>

theorem decode_packed_wiretype:
  assumes "pbcP_get_message p name = Some (Some t)" and "rd (st_messages p) t = Some msg"
    and "pbcM_ip_query (pm_id msg) (int n) = Some (Some fi)" and "rd (st_fields p) fi = Some f" and "pf_label f = LABEL_PACKED"
    and "n < 2 ^ 28" and "sint lo < 0 \<or> int (length (wenc (WVarint n (u64_of_ll lo h)) @ rest)) < sint lo"
  shows "pbc_decode pd junk p name (Some (wenc (WVarint n (u64_of_ll lo h)) @ rest)) (int (length (wenc (WVarint n (u64_of_ll lo h))))) u g = None"
proof -
  let ?fl = "WVarint n (u64_of_ll lo h)"
  have v: "wvalid ?fl" using assms(6) by (simp add: wvalid_def)
  have "length (leb (8 * n)) \<le> 5" by (rule length_leb_32) (use assms(6) in simp)
  then have l: "length (wenc ?fl) < 2 ^ 31" using length_encode [of "u64_of_ll lo h"] by (simp add: wenc_def)
  have "atom_id (watom 0 ?fl) = int n" using atom_id_watom [of ?fl 0] assms(6) by simp
  moreover have "a_start (watom 0 ?fl) = sint lo" by (simp add: watom_def a_start_def)
  moreover have "at_offset (wenc ?fl @ rest) (sint lo) = None" using assms(7) by (auto simp: at_offset_def)
  ultimately have "decode_atom pd p msg (wenc ?fl @ rest) (watom 0 ?fl) u = None"
    using assms(3-5) by (simp add: decode_atom_def)
  then show ?thesis by (simp add: decode_single [OF assms(1,2) v l])
qed

lemma decode_packed_wiretype_witness:
  "case person_env of None \<Rightarrow> False
   | Some p \<Rightarrow> pbc_decode (\<lambda>e u. u @ [e]) [] p (cstr ''Person'') (Some (wenc (WVarint 900 (u64_of_ll 0x7fffffff 0)) @ [0, 0]))
       (int (length (wenc (WVarint 900 (u64_of_ll 0x7fffffff 0))))) [] 0 = None"
proof -
  obtain p s msg where p: "person_env = Some p" "pbcP_get_message p (cstr ''Person'') = Some (Some 0)" "rd (st_messages p) 0 = Some msg"
    "pbcM_ip_query (pm_id msg) 900 = Some (Some 2)" "rd (st_fields p) 2 = Some (person_fields ! 2)" by (rule person_written)
  have q: "pbcM_ip_query (pm_id msg) (int 900) = Some (Some 2)" using p(4) by simp
  have l: "pf_label (person_fields ! 2) = LABEL_PACKED" by code_simp
  have "length (wenc (WVarint 900 (u64_of_ll 0x7fffffff 0)) @ [0, 0]) < 100" by code_simp
  moreover have "sint (0x7fffffff :: u32) = 0x7fffffff" by code_simp
  ultimately have "int (length (wenc (WVarint 900 (u64_of_ll 0x7fffffff 0)) @ [0, 0])) < sint (0x7fffffff :: u32)" by simp
  then show ?thesis unfolding p(1) option.case
    by (intro decode_packed_wiretype [OF p(2,3) q p(5) l]) simp_all
qed

text \<open>
  The tag of a field is read into a signed \<open>int\<close> and shifted with its sign: a field number from
  \<open>2^28\<close> to \<open>2^29 - 1\<close>, which the format allows, comes out negative, so the field is passed on as
  an unknown one with the number less \<open>2^29\<close>, whatever is registered under it.\<close>

theorem decode_large_number:
  assumes "pbcP_get_message p name = Some (Some t)" and "rd (st_messages p) t = Some msg"
    and "2 ^ 28 \<le> n" and "n < 2 ^ 29" and "pbcM_ip_query (pm_id msg) (int n - 2 ^ 29) = Some None"
  shows "pbc_decode pd junk p name (Some (wenc (WVarint n (u64_of_ll lo h)) @ rest)) (int (length (wenc (WVarint n (u64_of_ll lo h))))) u g
    = Some (p, pd \<lparr>ev_type = PBC_INT, ev_tname = cstr ''integer'', ev_value = ValInt lo h, ev_id = int n - 2 ^ 29, ev_key = None\<rparr> u, 1, g)"
proof -
  let ?fl = "WVarint n (u64_of_ll lo h)"
  have v: "wvalid ?fl" using assms(4) by (simp add: wvalid_def)
  have "length (leb (8 * n)) \<le> 5" by (rule length_leb_32) (use assms(4) in simp)
  then have l: "length (wenc ?fl) < 2 ^ 31" using length_encode [of "u64_of_ll lo h"] by (simp add: wenc_def)
  have "sint (of_nat (8 * n) :: u32) = int (8 * n) - 2 ^ 32" by (rule sint_of_nat_neg) (use assms(3,4) in simp_all)
  then have id: "atom_id (watom 0 ?fl) = int n - 2 ^ 29" unfolding atom_id_def wire_id_watom by simp
  have "wire_id (watom 0 ?fl) AND 7 = WT_VARINT" unfolding wire_type_watom [OF v] by simp
  moreover have "a_low (watom 0 ?fl) = lo" "a_hi (watom 0 ?fl) = h" by (simp_all add: watom_def)
  ultimately have "decode_atom pd p msg (wenc ?fl @ rest) (watom 0 ?fl) u
      = Some (pd \<lparr>ev_type = PBC_INT, ev_tname = cstr ''integer'', ev_value = ValInt lo h, ev_id = int n - 2 ^ 29, ev_key = None\<rparr> u, True)"
    unfolding decode_atom_def id assms(5) by (simp add: call_unknown_def Let_def TYPENAME_def)
  then show ?thesis by (simp add: decode_single [OF assms(1,2) v l])
qed

lemma decode_large_number_witness:
  "case person_env of None \<Rightarrow> False
   | Some p \<Rightarrow> pbc_decode (\<lambda>e u. u @ [e]) [] p (cstr ''Person'') (Some (wenc (WVarint 536870907 (u64_of_ll 7 0)) @ []))
       (int (length (wenc (WVarint 536870907 (u64_of_ll 7 0))))) [] 0
     = Some (p, [] @ [\<lparr>ev_type = PBC_INT, ev_tname = cstr ''integer'', ev_value = ValInt 7 0, ev_id = int 536870907 - 2 ^ 29, ev_key = None\<rparr>], 1, 0)"
proof -
  obtain p s msg where p: "person_env = Some p" "pbcP_get_message p (cstr ''Person'') = Some (Some 0)" "rd (st_messages p) 0 = Some msg"
    "pbcM_ip_query (pm_id msg) (- 5) = Some None" by (rule person_written)
  have q: "pbcM_ip_query (pm_id msg) (int 536870907 - 2 ^ 29) = Some None" using p(4) by simp
  show ?thesis unfolding p(1) option.case by (rule decode_large_number [OF p(2,3) _ _ q]) simp_all
qed

end
