(* ===== verification/Unpack.thy ===== *)
theory Unpack
  imports Decode
begin

section \<open>Unpacking a packed field into an array (pbc/src/pattern.c)\<close>

text \<open>
  \<open>_pbcP_unpack_packed\<close> pushes the values of a packed field on an array; pattern.c and rmessage.c
  use it. The cells of the array may be more than \<open>union _pbc_var\<close>s, which \<open>cell\<close> makes them. The
  result is the number of values, or -1 for a size that does not fit or an unknown type; the values
  pushed before an error stay in the array.
\<close>

definition pbcP_unpack_packed :: "(pbc_var \<Rightarrow> 'c) \<Rightarrow> byte list \<Rightarrow> int \<Rightarrow> int \<Rightarrow> mem \<times> 'c vararray
    \<Rightarrow> ((mem \<times> 'c vararray) \<times> int) option" where
  "pbcP_unpack_packed cell buffer sz ptype s =
     (let push = (\<lambda>v s. pbcA_push (snd s) (cell v) (fst s));
          var = (\<lambda>v. VInt (ll_low v) (ll_hi v))
      in if ptype = PTYPE_DOUBLE then fixed_array 8 (le64 buffer) (\<lambda>v. push (VReal (u64_of_ll (ll_low v) (ll_hi v)))) sz s
         else if ptype = PTYPE_FLOAT then fixed_array 4 (le32 buffer) (\<lambda>v. push (VReal (f2d v))) sz s
         else if ptype \<in> {PTYPE_FIXED32, PTYPE_SFIXED32} then fixed_array 4 (le32 buffer) (\<lambda>v. push (VInt v 0)) sz s
         else if ptype \<in> {PTYPE_FIXED64, PTYPE_SFIXED64} then fixed_array 8 (le64 buffer) (\<lambda>v. push (var v)) sz s
         else if ptype \<in> {PTYPE_INT64, PTYPE_UINT64, PTYPE_INT32, PTYPE_UINT32, PTYPE_ENUM, PTYPE_BOOL} then
           varint_array (\<lambda>v. push (var v)) buffer sz s
         else if ptype = PTYPE_SINT32 then varint_array (\<lambda>v. push (var (pbcV_dezigzag32 v))) buffer sz s
         else if ptype = PTYPE_SINT64 then varint_array (\<lambda>v. push (var (pbcV_dezigzag64 v))) buffer sz s
         else Some (s, - 1))"

end
