(* ===== verification/Rmessage.thy ===== *)
theory Rmessage
  imports Unpack
begin

section \<open>Reading messages (pbc/src/rmessage.c)\<close>

text \<open>
  A \<open>pbc_rmessage\<close> maps the names of the fields that were received to their values. The values are
  blocks of the message's heap, to which the map points, and they are changed in place while a
  message is read: they are in a store, \<open>rs_values\<close>, and a pointer is a number there. A message
  that is a value of its own is its descriptor and its map; in an array it takes a cell, as the
  two pointers of \<open>union _pbc_var\<close>. A NULL descriptor is what a failed read leaves. \<open>SIZE_VAR\<close>,
  \<open>SIZE_ARRAY\<close> and \<open>SIZE_MESSAGE\<close> are 24, 72 and 32 bytes.
\<close>

record rmsg =
  rm_msg :: "nat option"
  rm_index :: "nat map_sp option"

datatype cell = CVar pbc_var | CMsg rmsg

datatype rvar = RVar pbc_var | RArray "cell vararray" | RMessage rmsg

record rvalue =
  rv_type :: nat
  rv_v :: rvar

record 'pool rstate =
  rs_env :: "'pool pbc_env"
  rs_mem :: mem
  rs_values :: "rvalue list"

definition SIZE_VAR :: int where "SIZE_VAR = 24"
definition SIZE_ARRAY :: int where "SIZE_ARRAY = 72"
definition SIZE_MESSAGE :: int where "SIZE_MESSAGE = 32"

definition rs_error :: "string \<Rightarrow> 'pool rstate \<Rightarrow> 'pool rstate" where
  "rs_error msg s = s\<lparr>rs_env := (rs_env s)\<lparr>env_lasterror := msg\<rparr>\<rparr>"

text \<open>\<open>_pbcH_alloc\<close> of a value with its contents; the result is the pointer.\<close>

definition new_value :: "int \<Rightarrow> nat \<Rightarrow> rvar \<Rightarrow> 'pool rstate \<Rightarrow> ('pool rstate \<times> nat) option" where
  "new_value sz fi v s = do {
     m \<leftarrow> HMALLOC True sz (rs_mem s);
     Some (s\<lparr>rs_mem := m, rs_values := rs_values s @ [\<lparr>rv_type = fi, rv_v = v\<rparr>]\<rparr>, length (rs_values s)) }"

subsection \<open>Single values\<close>

text \<open>
  The bytes of a payload; a copy of a negative length is undefined. A string that ends in a NUL
  stays where it is, any other one is copied to the heap with a NUL behind it.
\<close>

definition heap_string :: "byte list \<Rightarrow> int \<Rightarrow> byte list option" where
  "heap_string temp len = (if 0 \<le> len \<and> nat len \<le> length temp then Some (take (nat len) temp @ [0]) else None)"

definition ends_in_nul :: "byte list \<Rightarrow> int \<Rightarrow> bool option" where
  "ends_in_nul temp len = (if len > 0 then map_option (\<lambda>b. b = 0) (rd temp (nat len - 1)) else Some False)"

text \<open>The size of the block and the string.\<close>

definition read_string :: "atom \<Rightarrow> byte list \<Rightarrow> (int \<times> pbc_var) option" where
  "read_string a memory = do {
     temp \<leftarrow> at_offset memory (a_start a);
     len \<leftarrow> slice_len a;
     nul \<leftarrow> ends_in_nul temp len;
     if nul then Some (SIZE_VAR, VStr (Some temp) len)
     else do { str \<leftarrow> heap_string temp len; Some (SIZE_VAR + len + 1, VStr (Some str) len) } }"

definition read_string_var :: "mem \<Rightarrow> atom \<Rightarrow> byte list \<Rightarrow> (mem \<times> pbc_var) option" where
  "read_string_var m a memory = do {
     temp \<leftarrow> at_offset memory (a_start a);
     len \<leftarrow> slice_len a;
     if len = 0 then Some (m, VStr (Some [0]) 0)
     else if len < 0 then None
     else do {
       b \<leftarrow> rd temp (nat (len - 1));
       if b = 0 then Some (m, VStr (Some temp) len)
       else do { str \<leftarrow> heap_string temp len; m \<leftarrow> HMALLOC True (len + 1) m; Some (m, VStr (Some str) (- len)) } } }"

definition read_bytes :: "atom \<Rightarrow> byte list \<Rightarrow> pbc_var option" where
  "read_bytes a memory = do {
     temp \<leftarrow> at_offset memory (a_start a);
     len \<leftarrow> slice_len a;
     Some (VStr (Some temp) len) }"

definition enum_var :: "'pool pbc_env \<Rightarrow> pbc_field \<Rightarrow> u32 \<Rightarrow> pbc_var option" where
  "enum_var p f lo = do {
     v \<leftarrow> enum_value p f lo;
     case v of ValEnum i nm \<Rightarrow> Some (VEnum i nm) | _ \<Rightarrow> None }"

definition ll_var :: "longlong \<Rightarrow> pbc_var" where
  "ll_var v = VInt (ll_low v) (ll_hi v)"

text \<open>
  The types whose value is in the atom itself; the inner \<open>None\<close> for the others. Both functions
  that read values have these cases.
\<close>

definition atom_var :: "'pool pbc_env \<Rightarrow> pbc_field \<Rightarrow> atom \<Rightarrow> pbc_var option option" where
  "atom_var p f a =
     (let t = pf_type f
      in if t = PTYPE_DOUBLE then Some (Some (VReal (read_double a)))
         else if t = PTYPE_FLOAT then Some (Some (VReal (f2d (read_float a))))
         else if t = PTYPE_ENUM then map_option Some (enum_var p f (a_low a))
         else if t \<in> {PTYPE_INT64, PTYPE_UINT64, PTYPE_INT32, PTYPE_UINT32, PTYPE_FIXED32, PTYPE_FIXED64, PTYPE_SFIXED32,
                      PTYPE_SFIXED64, PTYPE_BOOL} then Some (Some (VInt (a_low a) (a_hi a)))
         else if t = PTYPE_SINT32 then Some (Some (ll_var (pbcV_dezigzag32 \<lparr>ll_low = a_low a, ll_hi = a_hi a\<rparr>)))
         else if t = PTYPE_SINT64 then Some (Some (ll_var (pbcV_dezigzag64 \<lparr>ll_low = a_low a, ll_hi = a_hi a\<rparr>)))
         else Some None)"

text \<open>
  \<open>sub\<close> is \<open>_pbc_rmessage_new\<close> with the descriptor, the buffer and the size. The result of
  \<open>read_value\<close> is the pointer, which may be NULL.
\<close>

type_synonym 'pool reader = "nat option \<Rightarrow> byte list option \<Rightarrow> int \<Rightarrow> 'pool rstate \<Rightarrow> ('pool rstate \<times> rmsg) option"

definition is_lend :: "atom \<Rightarrow> bool" where
  "is_lend a \<longleftrightarrow> wire_id a AND 7 = WT_LEND"

definition sub_message :: "'pool reader \<Rightarrow> pbc_field \<Rightarrow> atom \<Rightarrow> byte list \<Rightarrow> 'pool rstate \<Rightarrow> ('pool rstate \<times> rmsg) option" where
  "sub_message sub f a memory s = do {
     t \<leftarrow> (case pf_tname f of TMsg t \<Rightarrow> Some t | _ \<Rightarrow> None);
     buffer \<leftarrow> at_offset memory (a_start a);
     len \<leftarrow> slice_len a;
     sub t (Some buffer) len s }"

definition read_value :: "'pool reader \<Rightarrow> nat \<Rightarrow> pbc_field \<Rightarrow> atom \<Rightarrow> byte list \<Rightarrow> 'pool rstate \<Rightarrow> ('pool rstate \<times> nat option) option" where
  "read_value sub fi f a memory s = do {
     v \<leftarrow> atom_var (rs_env s) f a;
     case v of
       Some v \<Rightarrow> do { (s, i) \<leftarrow> new_value SIZE_VAR fi (RVar v) s; Some (s, Some i) }
     | None \<Rightarrow>
         if pf_type f \<notin> {PTYPE_STRING, PTYPE_BYTES, PTYPE_MESSAGE} \<or> \<not> is_lend a then Some (s, None)
         else if pf_type f = PTYPE_STRING then do {
           (sz, v) \<leftarrow> read_string a memory;
           (s, i) \<leftarrow> new_value sz fi (RVar v) s;
           Some (s, Some i) }
         else if pf_type f = PTYPE_BYTES then do {
           v \<leftarrow> read_bytes a memory;
           (s, i) \<leftarrow> new_value SIZE_VAR fi (RVar v) s;
           Some (s, Some i) }
         else do {
           (s, i) \<leftarrow> new_value SIZE_MESSAGE fi (RMessage \<lparr>rm_msg = None, rm_index = None\<rparr>) s;
           (s, m) \<leftarrow> sub_message sub f a memory s;
           Some (s\<lparr>rs_values := (rs_values s)[i := \<lparr>rv_type = fi, rv_v = RMessage m\<rparr>]\<rparr>, Some i) } }"

subsection \<open>Values of repeated fields\<close>

definition array_at :: "'pool rstate \<Rightarrow> nat \<Rightarrow> cell vararray option" where
  "array_at s i = do { v \<leftarrow> rd (rs_values s) i; case rv_v v of RArray a \<Rightarrow> Some a | _ \<Rightarrow> None }"

definition set_array :: "nat \<Rightarrow> mem \<Rightarrow> cell vararray \<Rightarrow> 'pool rstate \<Rightarrow> 'pool rstate" where
  "set_array i m a s = s\<lparr>rs_mem := m, rs_values := (rs_values s)[i := (rs_values s ! i)\<lparr>rv_v := RArray a\<rparr>]\<rparr>"

definition push_cell :: "nat \<Rightarrow> cell \<Rightarrow> 'pool rstate \<Rightarrow> 'pool rstate option" where
  "push_cell i c s = do {
     a \<leftarrow> array_at s i;
     (m, a) \<leftarrow> pbcA_push a c (rs_mem s);
     Some (set_array i m a s) }"

definition push_value_array :: "'pool reader \<Rightarrow> nat \<Rightarrow> pbc_field \<Rightarrow> atom \<Rightarrow> byte list \<Rightarrow> 'pool rstate \<Rightarrow> 'pool rstate option" where
  "push_value_array sub i f a memory s = do {
     v \<leftarrow> atom_var (rs_env s) f a;
     case v of
       Some v \<Rightarrow> push_cell i (CVar v) s
     | None \<Rightarrow>
         if pf_type f \<notin> {PTYPE_STRING, PTYPE_BYTES, PTYPE_MESSAGE} \<or> \<not> is_lend a then Some s
         else if pf_type f = PTYPE_STRING then do {
           (m, v) \<leftarrow> read_string_var (rs_mem s) a memory;
           push_cell i (CVar v) (s\<lparr>rs_mem := m\<rparr>) }
         else if pf_type f = PTYPE_BYTES then do {
           v \<leftarrow> read_bytes a memory;
           push_cell i (CVar v) s }
         else do {
           (s, m) \<leftarrow> sub_message sub f a memory s;
           if rm_msg m = None then Some s else push_cell i (CMsg m) s } }"

text \<open>What is stored through the address that \<open>_pbcA_index_p\<close> returns.\<close>

definition cell_store :: "cell vararray \<Rightarrow> nat \<Rightarrow> cell \<Rightarrow> cell vararray" where
  "cell_store a k c =
     (case arr_a a of
        Inner \<Rightarrow> a\<lparr>arr_inner := (arr_inner a)[k := Some c]\<rparr>
      | Outer cs \<Rightarrow> a\<lparr>arr_a := Outer (cs[k := Some c])\<rparr>
      | Null \<Rightarrow> a)"

text \<open>The loop that gives enum values their names runs over the first \<open>n\<close> cells of the array.\<close>

fun name_enums :: "'pool pbc_env \<Rightarrow> pbc_field \<Rightarrow> nat \<Rightarrow> nat \<Rightarrow> cell vararray \<Rightarrow> cell vararray option" where
  "name_enums p f 0 k a = Some a"
| "name_enums p f (Suc n) k a = do {
     c \<leftarrow> pbcA_index a (int k);
     v \<leftarrow> (case c of CVar v \<Rightarrow> Some v | CMsg _ \<Rightarrow> None);
     lo \<leftarrow> var_low v;
     v \<leftarrow> enum_var p f lo;
     name_enums p f n (k + 1) (cell_store a k (CVar v)) }"

definition push_value_packed :: "nat \<Rightarrow> pbc_field \<Rightarrow> atom \<Rightarrow> byte list \<Rightarrow> 'pool rstate \<Rightarrow> 'pool rstate option" where
  "push_value_packed i f a memory s = do {
     buffer \<leftarrow> at_offset memory (a_start a);
     len \<leftarrow> slice_len a;
     arr \<leftarrow> array_at s i;
     ((m, arr), n) \<leftarrow> pbcP_unpack_packed CVar buffer len (pf_type f) (rs_mem s, arr);
     if n \<le> 0 then Some (rs_error ''Unpack packed field error'' (set_array i m arr s))
     else if pf_type f = PTYPE_ENUM then do {
       arr \<leftarrow> name_enums (rs_env s) f (nat n) 0 arr;
       Some (set_array i m arr s) }
     else Some (set_array i m arr s) }"

subsection \<open>A message\<close>

text \<open>
  One atom of a message: the entry of the map for a repeated field is made when it is missing, and
  it is set to NULL when the array is still empty afterwards.
\<close>

definition repeated_value :: "'pool reader \<Rightarrow> nat \<Rightarrow> pbc_field \<Rightarrow> atom \<Rightarrow> byte list \<Rightarrow> nat map_sp \<Rightarrow> 'pool rstate
    \<Rightarrow> ('pool rstate \<times> nat map_sp) option" where
  "repeated_value sub fi f a memory mp s = do {
     (m, mp, vv) \<leftarrow> pbcM_sp_query_insert mp (pf_name f) (rs_mem s);
     let s = s\<lparr>rs_mem := m\<rparr>;
     (s, mp, v) \<leftarrow>
       (case spp (sp_slot mp ! vv) of
          None \<Rightarrow> do { (s, v) \<leftarrow> new_value SIZE_ARRAY fi (RArray pbcA_open_heap) s; Some (s, sp_store mp vv (Some v), v) }
        | Some v \<Rightarrow> Some (s, mp, v));
     s \<leftarrow> (if pf_label f = LABEL_PACKED then push_value_packed v f a memory s else push_value_array sub v f a memory s);
     arr \<leftarrow> array_at s v;
     if pbc_array_size arr = 0 then
       Some (rs_error (if pf_label f = LABEL_PACKED then ''rmessage decode packed data error''
                       else ''rmessage decode repeated data error'') s, sp_store mp vv None)
     else Some (s, mp) }"

definition single_value :: "'pool reader \<Rightarrow> nat \<Rightarrow> pbc_field \<Rightarrow> atom \<Rightarrow> byte list \<Rightarrow> nat map_sp \<Rightarrow> 'pool rstate
    \<Rightarrow> ('pool rstate \<times> nat map_sp) option" where
  "single_value sub fi f a memory mp s = do {
     (s, v) \<leftarrow> read_value sub fi f a memory s;
     if v = None then Some (rs_error ''rmessage decode data error'' s, mp)
     else do {
       (m, mp) \<leftarrow> pbcM_sp_insert mp (pf_name f) v (rs_mem s);
       Some (s\<lparr>rs_mem := m\<rparr>, mp) } }"

definition read_atom :: "'pool reader \<Rightarrow> pbc_message \<Rightarrow> byte list \<Rightarrow> atom \<Rightarrow> nat map_sp \<Rightarrow> 'pool rstate
    \<Rightarrow> ('pool rstate \<times> nat map_sp) option" where
  "read_atom sub msg memory a mp s = do {
     r \<leftarrow> pbcM_ip_query (pm_id msg) (atom_id a);
     case r of None \<Rightarrow> Some (s, mp)
     | Some fi \<Rightarrow> do {
         f \<leftarrow> rd (st_fields (rs_env s)) fi;
         if pf_label f = LABEL_REPEATED \<or> pf_label f = LABEL_PACKED then repeated_value sub fi f a memory mp s
         else single_value sub fi f a memory mp s } }"

fun read_atoms :: "'pool reader \<Rightarrow> pbc_message \<Rightarrow> byte list \<Rightarrow> atom list \<Rightarrow> nat map_sp \<Rightarrow> 'pool rstate
    \<Rightarrow> ('pool rstate \<times> nat map_sp) option" where
  "read_atoms sub msg memory [] mp s = Some (s, mp)"
| "read_atoms sub msg memory (a # as) mp s = do {
     (s, mp) \<leftarrow> read_atom sub msg memory a mp s;
     read_atoms sub msg memory as mp s }"

text \<open>
  \<open>_pbc_rmessage_new\<close>; a sub-message is shorter than the message it is in, so the size is enough
  fuel for the depth. When \<open>_pbcC_open\<close> fails, the context is not closed.
\<close>

definition rs_g :: "int \<Rightarrow> 'pool rstate \<Rightarrow> 'pool rstate" where
  "rs_g g s = s\<lparr>rs_mem := (rs_mem s)\<lparr>mem_g := g\<rparr>\<rparr>"

fun rmessage_new :: "nat \<Rightarrow> byte list \<Rightarrow> 'pool reader" where
  "rmessage_new 0 junk type buffer sz s = None"
| "rmessage_new (Suc fuel) junk type buffer sz s =
     (if sz = 0 then do {
        (m, mp) \<leftarrow> pbcM_sp_new 0 True (rs_mem s);
        Some (s\<lparr>rs_mem := m\<rparr>, \<lparr>rm_msg = type, rm_index = Some mp\<rparr>) }
      else do {
        (count, ctx, g) \<leftarrow> pbcC_open junk buffer sz (mem_g (rs_mem s));
        let s = rs_g g s;
        t \<leftarrow> type;
        if count \<le> 0 then Some (rs_error ''rmessage decode context error'' s, \<lparr>rm_msg = None, rm_index = None\<rparr>)
        else do {
          (m, mp) \<leftarrow> pbcM_sp_new count True (rs_mem s);
          msg \<leftarrow> rd (st_messages (rs_env s)) t;
          memory \<leftarrow> buffer;
          (s, mp) \<leftarrow> read_atoms (rmessage_new fuel junk) msg memory (ctx_atoms ctx) mp (s\<lparr>rs_mem := m\<rparr>);
          Some (rs_g (pbcC_close ctx (mem_g (rs_mem s))) s, \<lparr>rm_msg = type, rm_index = Some mp\<rparr>) } })"

text \<open>
  The message, or \<open>None\<close> for NULL, and the state behind it; without a heap only the environment and
  the counter are left of that.
\<close>

definition pbc_rmessage_new :: "byte list \<Rightarrow> 'pool pbc_env \<Rightarrow> cstring \<Rightarrow> byte list option \<Rightarrow> int \<Rightarrow> int
    \<Rightarrow> ('pool pbc_env \<times> int \<times> ('pool rstate \<times> rmsg) option) option" where
  "pbc_rmessage_new junk env type_name buffer sz g = do {
     r \<leftarrow> pbcP_get_message env type_name;
     if r = None then Some (env\<lparr>env_lasterror := ''Proto not found''\<rparr>, g, None)
     else do {
       (g, h) \<leftarrow> pbcH_new sz g;
       (s, temp) \<leftarrow> rmessage_new (nat sz + 1) junk r buffer sz \<lparr>rs_env = env, rs_mem = \<lparr>mem_g = g, mem_heap = h\<rparr>, rs_values = []\<rparr>;
       if rm_msg temp = None then Some (rs_env s, pbcH_delete (mem_heap (rs_mem s)) (mem_g (rs_mem s)), None)
       else do {
         m \<leftarrow> HMALLOC True 24 (rs_mem s);
         let s = s\<lparr>rs_mem := m\<rparr>;
         Some (rs_env s, mem_g (rs_mem s), Some (s, temp)) } } }"

definition pbc_rmessage_delete :: "('pool rstate \<times> rmsg) option \<Rightarrow> int \<Rightarrow> int" where
  "pbc_rmessage_delete m g = (case m of None \<Rightarrow> g | Some (s, _) \<Rightarrow> pbcH_delete (mem_heap (rs_mem s)) g)"

subsection \<open>Access\<close>

text \<open>
  The functions for the client look up the value of a key, \<open>None\<close> for NULL, and take the value from it, at
  an index where the field is repeated.
\<close>

definition rvalue_of :: "'pool rstate \<Rightarrow> rmsg \<Rightarrow> cstring \<Rightarrow> rvalue option option" where
  "rvalue_of s m key = do {
     r \<leftarrow> pbcM_sp_query (rm_index m) key;
     case r of None \<Rightarrow> Some None | Some i \<Rightarrow> map_option Some (rd (rs_values s) i) }"

definition field_of :: "'pool rstate \<Rightarrow> rvalue \<Rightarrow> pbc_field option" where
  "field_of s v = rd (st_fields (rs_env s)) (rv_type v)"

definition is_array :: "pbc_field \<Rightarrow> bool" where
  "is_array f \<longleftrightarrow> pf_label f = LABEL_REPEATED \<or> pf_label f = LABEL_PACKED"

definition cell_var :: "cell \<Rightarrow> pbc_var option" where
  "cell_var c = (case c of CVar v \<Rightarrow> Some v | CMsg _ \<Rightarrow> None)"

definition var_at :: "pbc_field \<Rightarrow> rvalue \<Rightarrow> int \<Rightarrow> pbc_var option" where
  "var_at f v index =
     (case rv_v v of
        RArray a \<Rightarrow> if is_array f then Option.bind (pbcA_index a index) cell_var else None
      | RVar x \<Rightarrow> if is_array f then None else Some x
      | RMessage m \<Rightarrow> None)"

text \<open>The type and the union that a key stands for, from the message or by default.\<close>

definition type_and_var :: "'pool rstate \<Rightarrow> rmsg \<Rightarrow> cstring \<Rightarrow> int \<Rightarrow> (int \<times> pbc_var) option" where
  "type_and_var s m key index = do {
     r \<leftarrow> rvalue_of s m key;
     case r of
       None \<Rightarrow> do { t \<leftarrow> rm_msg m; pbcP_message_default (rs_env s) t key }
     | Some v \<Rightarrow> do { f \<leftarrow> field_of s v; x \<leftarrow> var_at f v index; Some (pf_type f, x) } }"

text \<open>\<open>want\<close> is whether the size is asked for; a string is the memory from its pointer on.\<close>

definition pbc_rmessage_string :: "bool \<Rightarrow> 'pool rstate \<Rightarrow> rmsg \<Rightarrow> cstring \<Rightarrow> int \<Rightarrow> (byte list option \<times> int option) option" where
  "pbc_rmessage_string want s m key index = do {
     (type, var) \<leftarrow> type_and_var s m key index;
     if type = PTYPE_ENUM then do {
       nm \<leftarrow> var_enum_name var;
       case nm of
         None \<Rightarrow> if want then None else Some (None, None)
       | Some nm \<Rightarrow> Some (Some (nm @ [0]), if want then Some (int (length nm)) else None) }
     else do {
       (str, len) \<leftarrow> var_str var;
       Some (str, if want then Some (if len < 0 then - len else len) else None) } }"

definition pbc_rmessage_integer :: "'pool rstate \<Rightarrow> rmsg \<Rightarrow> cstring \<Rightarrow> int \<Rightarrow> (u32 \<times> u32) option" where
  "pbc_rmessage_integer s m key index = do {
     (type, var) \<leftarrow> type_and_var s m key index;
     if type = PTYPE_ENUM then do { i \<leftarrow> var_enum_id var; Some (of_int i, 0) }
     else do { lo \<leftarrow> var_low var; h \<leftarrow> var_hi var; Some (lo, h) } }"

definition pbc_rmessage_real :: "'pool rstate \<Rightarrow> rmsg \<Rightarrow> cstring \<Rightarrow> int \<Rightarrow> u64 option" where
  "pbc_rmessage_real s m key index = do {
     (type, var) \<leftarrow> type_and_var s m key index;
     var_real var }"

text \<open>
  A sub-message that is missing is the default message of its type, made on the first use and
  without a map.\<close>

definition default_message :: "nat \<Rightarrow> 'pool rstate \<Rightarrow> ('pool rstate \<times> rmsg) option" where
  "default_message t s = do {
     msg \<leftarrow> rd (st_messages (rs_env s)) t;
     Some (if pm_def msg then s
           else s\<lparr>rs_mem := g_update pbcM_malloc (rs_mem s),
                  rs_env := (rs_env s)\<lparr>st_messages := (st_messages (rs_env s))[t := msg\<lparr>pm_def := True\<rparr>]\<rparr>\<rparr>,
           \<lparr>rm_msg = Some t, rm_index = None\<rparr>) }"

definition pbc_rmessage_message :: "'pool rstate \<Rightarrow> rmsg \<Rightarrow> cstring \<Rightarrow> int \<Rightarrow> ('pool rstate \<times> rmsg option) option" where
  "pbc_rmessage_message s rm key index = do {
     r \<leftarrow> rvalue_of s rm key;
     case r of
       None \<Rightarrow> do {
         t \<leftarrow> rm_msg rm;
         msg \<leftarrow> rd (st_messages (rs_env s)) t;
         r \<leftarrow> pbcM_sp_query (Some (pm_name msg)) key;
         case r of None \<Rightarrow> Some (rs_error ''Invalid key for sub-message'' s, None)
         | Some fi \<Rightarrow> do {
             f \<leftarrow> rd (st_fields (rs_env s)) fi;
             t \<leftarrow> (case pf_tname f of TMsg (Some t) \<Rightarrow> Some t | _ \<Rightarrow> None);
             (s, m) \<leftarrow> default_message t s;
             Some (s, Some m) } }
     | Some v \<Rightarrow> do {
         f \<leftarrow> field_of s v;
         if pf_label f = LABEL_REPEATED then
           (case rv_v v of
              RArray a \<Rightarrow> do {
                c \<leftarrow> pbcA_index a (pbcA_index_p a index);
                case c of CMsg m \<Rightarrow> Some (s, Some m) | CVar _ \<Rightarrow> None }
            | _ \<Rightarrow> None)
         else (case rv_v v of RMessage m \<Rightarrow> Some (s, Some m) | _ \<Rightarrow> None) } }"

definition pbc_rmessage_size :: "'pool rstate \<Rightarrow> rmsg \<Rightarrow> cstring \<Rightarrow> nat option" where
  "pbc_rmessage_size s m key = do {
     r \<leftarrow> rvalue_of s m key;
     case r of None \<Rightarrow> Some 0
     | Some v \<Rightarrow> do {
         f \<leftarrow> field_of s v;
         if is_array f then (case rv_v v of RArray a \<Rightarrow> Some (pbc_array_size a) | _ \<Rightarrow> None) else Some 1 } }"

text \<open>The type of the next value and its key, which is NULL at the end.\<close>

definition pbc_rmessage_next :: "'pool rstate \<Rightarrow> rmsg \<Rightarrow> cstring option \<Rightarrow> (int \<times> cstring option) option" where
  "pbc_rmessage_next s m key = do {
     (v, key) \<leftarrow> pbcM_sp_next (rm_index m) key;
     if key = None then Some (0, None)
     else do {
       i \<leftarrow> v;
       v \<leftarrow> rd (rs_values s) i;
       f \<leftarrow> field_of s v;
       (type, _) \<leftarrow> pbcP_type False (rs_env s) (Some f);
       Some (type, key) } }"

end
