(* ===== verification/ReadBack.thy ===== *)
theory ReadBack
  imports Written Rmessage
begin

section \<open>What is written is what a message reader returns\<close>

text \<open>
  The composition of wmessage.c, context.c and rmessage.c for messages whose fields are single
  values: every key gives back what it was set to.
\<close>

subsection \<open>One value\<close>

text \<open>The union that a value read back is, and what the client gets through the access functions.\<close>

fun var_back :: "pbc_field \<Rightarrow> wcall \<Rightarrow> pbc_var \<Rightarrow> bool" where
  "var_back f (SetInteger key lo h) v =
     (let t = pf_type f
      in if t \<in> {PTYPE_INT64, PTYPE_UINT64, PTYPE_INT32, PTYPE_FIXED64, PTYPE_SFIXED64, PTYPE_SINT64} then v = VInt lo h
         else if t = PTYPE_ENUM then var_enum_id v = Some (sint lo)
         else if t = PTYPE_SINT32 then (case v of VInt l _ \<Rightarrow> l = lo | _ \<Rightarrow> False)
         else v = VInt lo 0)"
| "var_back f (SetReal key d) v = (v = VReal (if pf_type f = PTYPE_FLOAT then f2d (d2f d) else d))"
| "var_back f (SetString key s len) v =
     (case (v, string_len s len) of
        (VStr (Some mem) n, Some (l, _)) \<Rightarrow> n = int l \<and> take l mem = take l s \<and> (pf_type f = PTYPE_STRING \<longrightarrow> 0 \<in> set (take (l + 1) mem))
      | _ \<Rightarrow> False)"

definition single_label :: "pbc_field \<Rightarrow> bool" where
  "single_label f \<longleftrightarrow> pf_label f \<noteq> LABEL_REPEATED \<and> pf_label f \<noteq> LABEL_PACKED"

fun read_back :: "'pool rstate \<Rightarrow> rmsg \<Rightarrow> pbc_field \<Rightarrow> wcall \<Rightarrow> bool" where
  "read_back s m f (SetInteger key lo h) =
     (let t = pf_type f; r = pbc_rmessage_integer s m key 0
      in if t \<in> {PTYPE_INT64, PTYPE_UINT64, PTYPE_INT32, PTYPE_FIXED64, PTYPE_SFIXED64, PTYPE_SINT64} then r = Some (lo, h)
         else if t = PTYPE_SINT32 then map_option fst r = Some lo
         else r = Some (lo, 0))"
| "read_back s m f (SetReal key d) =
     (pbc_rmessage_real s m key 0 = Some (if pf_type f = PTYPE_FLOAT then f2d (d2f d) else d))"
| "read_back s m f (SetString key str len) =
     (case (pbc_rmessage_string True s m key 0, string_len str len) of
        (Some (Some mem, Some n), Some (l, _)) \<Rightarrow> n = int l \<and> take l mem = take l str
          \<and> (pf_type f = PTYPE_STRING \<longrightarrow> 0 \<in> set (take (l + 1) mem))
      | _ \<Rightarrow> False)"

lemma atom_var_integer:
  assumes fl: "wfield_of_integer f lo h = Some fl" and en: "pf_type f \<noteq> PTYPE_ENUM \<or> enum_value p f lo \<noteq> None"
  shows "\<exists>v. atom_var p f (watom start fl) = Some (Some v) \<and> var_back f (SetInteger key lo h) v"
proof -
  note defs = wfield_of_integer_def atom_var_def Let_def watom_def ll_var_def
  consider "pf_type f \<in> {PTYPE_INT64, PTYPE_UINT64, PTYPE_INT32, PTYPE_FIXED64, PTYPE_SFIXED64}"
    | "pf_type f \<in> {PTYPE_UINT32, PTYPE_BOOL, PTYPE_FIXED32, PTYPE_SFIXED32}"
    | "pf_type f = PTYPE_ENUM" | "pf_type f = PTYPE_SINT32" | "pf_type f = PTYPE_SINT64"
    using fl by (auto simp: wfield_of_integer_def Let_def split: if_splits)
  then show ?thesis
  proof cases
    case 1
    then show ?thesis using fl by (intro exI [of _ "VInt lo h"]) (auto simp: defs)
  next
    case 2
    then show ?thesis using fl by (intro exI [of _ "VInt lo 0"]) (auto simp: defs)
  next
    case 3
    with en obtain nm where "enum_value p f lo = Some (ValEnum (sint lo) nm)"
      by (auto simp: enum_value_def ub_simps split: type_ref.splits option.splits)
    then show ?thesis using fl 3 by (intro exI [of _ "VEnum (sint lo) nm"]) (auto simp: defs enum_var_def var_enum_id_def)
  next
    case 4
    define z where "z = push_bit 1 lo XOR signed_drop_bit 31 lo"
    have "fl = WVarint (nat (pf_id f)) (ucast z)" using fl 4 by (simp add: wfield_of_integer_def z_def)
    moreover have "pbcV_dezigzag32 \<lparr>ll_low = z, ll_hi = 0\<rparr> = \<lparr>ll_low = lo, ll_hi = (if bit lo 30 \<noteq> bit lo 31 then - 1 else 0)\<rparr>"
      unfolding z_def by (rule dezz32)
    ultimately show ?thesis using 4
      by (intro exI [of _ "VInt lo (if bit lo 30 \<noteq> bit lo 31 then - 1 else 0)"]) (simp add: defs)
  next
    case 5
    define z where "z = push_bit 1 (u64_of_ll lo h) XOR signed_drop_bit 63 (u64_of_ll lo h)"
    have "fl = WVarint (nat (pf_id f)) z" using fl 5 by (simp add: wfield_of_integer_def Let_def z_def)
    moreover have "pbcV_dezigzag64 \<lparr>ll_low = ll_low (ll_of z), ll_hi = ll_hi (ll_of z)\<rparr> = \<lparr>ll_low = lo, ll_hi = h\<rparr>"
      unfolding longlong_collapse z_def dezz64 ll_of_parts ..
    ultimately show ?thesis using 5 by (intro exI [of _ "VInt lo h"]) (simp add: defs)
  qed
qed

text \<open>Reading a slice of a message gives its bytes, and a NUL behind the bytes of a string.\<close>

lemma at_payload:
  assumes "payload_at (length pre) n bs + length bs < 2 ^ 31"
  shows "at_offset (pre @ wenc (WLend n bs) @ post) (a_start (watom (length pre) (WLend n bs))) = Some (bs @ post)"
    and "slice_len (watom (length pre) (WLend n bs)) = Some (int (length bs))"
proof -
  have "payload_at (length pre) n bs \<le> length (pre @ wenc (WLend n bs) @ post)" by (simp add: payload_at_def wenc_def)
  then show "at_offset (pre @ wenc (WLend n bs) @ post) (a_start (watom (length pre) (WLend n bs))) = Some (bs @ post)"
    unfolding slice_watom [OF assms] at_offset_def by (simp only: payload_in nat_int of_nat_le_iff of_nat_0_le_iff if_True simp_thms)
  show "slice_len (watom (length pre) (WLend n bs)) = Some (int (length bs))" by (rule slice_watom(2) [OF assms])
qed

lemma read_string_ok:
  assumes "payload_at (length pre) n bs + length bs < 2 ^ 31"
  obtains sz mem where "read_string (watom (length pre) (WLend n bs)) (pre @ wenc (WLend n bs) @ post) = Some (sz, VStr (Some mem) (int (length bs)))"
    and "take (length bs) mem = bs" and "0 \<in> set (take (length bs + 1) mem)" and "0 \<le> sz" and "sz \<le> int (length bs) + 25"
proof (cases "ends_in_nul (bs @ post) (int (length bs)) = Some True")
  case True
  then have "bs \<noteq> []" "last bs = 0"
    by (auto simp: ends_in_nul_def ub_simps nth_append last_conv_nth split: if_splits)
  then have "0 \<in> set bs" by (metis last_in_set)
  then have "0 \<in> set (take (length bs + 1) (bs @ post))" by simp
  then show thesis using True
    by (intro that [of SIZE_VAR "bs @ post"]) (simp_all add: read_string_def at_payload [OF assms] SIZE_VAR_def)
next
  case False
  have "ends_in_nul (bs @ post) (int (length bs)) \<noteq> None"
    by (cases bs rule: rev_cases) (simp_all add: ends_in_nul_def rd_def nth_append)
  with False have "ends_in_nul (bs @ post) (int (length bs)) = Some False" by auto
  then show thesis
    by (intro that [of "SIZE_VAR + int (length bs) + 1" "bs @ [0]"]) (simp_all add: read_string_def at_payload [OF assms] heap_string_def SIZE_VAR_def)
qed

text \<open>A call whose field is a single value under its key and its number.\<close>

definition readable :: "'pool pbc_env \<Rightarrow> nat \<Rightarrow> wcall \<Rightarrow> bool" where
  "readable p t c \<longleftrightarrow> decodable p t c
     \<and> (case message_field p t (call_key c) of None \<Rightarrow> False | Some f \<Rightarrow> single_label f \<and> pf_name f = call_key c)"

lemma read_value_written:
  assumes cf: "call_fields p t c = Some [fl]" and dec: "decodable p t c" and f: "message_field p t (call_key c) = Some f"
    and env: "rs_env s = p" and pos: "length pre + length (wenc fl) \<le> 2 ^ 30"
  shows "\<exists>s' v. read_value sub fi f (watom (length pre) fl) (pre @ wenc fl @ post) s = Some (s', Some (length (rs_values s)))
    \<and> rs_env s' = p \<and> rs_values s' = rs_values s @ [\<lparr>rv_type = fi, rv_v = RVar v\<rparr>] \<and> var_back f c v"
proof (cases c)
  case (SetInteger key lo h)
  have w: "wfield_of_integer f lo h = Some fl" using cf f by (auto simp: SetInteger unless_def ub_simps split: if_splits)
  have "pf_type f \<noteq> PTYPE_ENUM \<or> enum_value p f lo \<noteq> None" using dec f by (auto simp: decodable_def SetInteger split: option.splits)
  from atom_var_integer [OF w this, of "length pre" key] obtain v where
    "atom_var p f (watom (length pre) fl) = Some (Some v)" "var_back f c v" unfolding SetInteger by blast
  then show ?thesis using env by (simp add: SIZE_VAR_def read_value_def new_value_def)
next
  case (SetReal key d)
  consider "pf_type f = PTYPE_FLOAT" "fl = WBit32 (nat (pf_id f)) (d2f d)"
    | "pf_type f = PTYPE_DOUBLE" "fl = WBit64 (nat (pf_id f)) (ucast d) (ucast (drop_bit 32 d))"
    using cf f by (auto simp: SetReal unless_def ub_simps split: if_splits)
  then show ?thesis
  proof cases
    case 1
    then show ?thesis using env by (simp add: SIZE_VAR_def read_value_def new_value_def atom_var_def watom_def read_float_def SetReal)
  next
    case 2
    have "u64_of_ll (ucast d) (ucast (drop_bit 32 d)) = d" using u64_of_ll_of [of d] by (simp add: ll_of_def)
    then show ?thesis using env 2
      by (simp add: SIZE_VAR_def read_value_def new_value_def atom_var_def watom_def read_double_def u64_of_ll_def SetReal)
  qed
next
  case (SetString key str len)
  obtain l b where l: "string_len str len = Some (l, b)" "l \<le> length str" "pf_type f \<in> {PTYPE_STRING, PTYPE_BYTES}"
    and fl: "fl = WLend (nat (pf_id f)) (take l str)"
    using cf f by (auto simp: SetString unless_def ub_simps split: if_splits)
  let ?n = "nat (pf_id f)" and ?bs = "take l str"
  have pl: "payload_at (length pre) ?n ?bs + length ?bs \<le> 2 ^ 30" using pos by (simp add: payload_at_def fl wenc_def)
  then have pl: "payload_at (length pre) ?n ?bs + length ?bs < 2 ^ 31" and lim: "length ?bs \<le> 2 ^ 30" by simp_all
  have "wvalid (WLend ?n ?bs)" using call_fields_valid [OF cf] fl by simp
  then have lend: "is_lend (watom (length pre) fl)" using wire_type_lend fl by (simp add: is_lend_def)
  have none: "atom_var p f (watom (length pre) fl) = Some None" using l(3) by (auto simp: atom_var_def)
  have lb: "length ?bs = l" using l(2) by simp
  consider "pf_type f = PTYPE_STRING" | "pf_type f = PTYPE_BYTES" using l(3) by auto
  then show ?thesis
  proof cases
    case 1
    obtain sz mem where r: "read_string (watom (length pre) fl) (pre @ wenc fl @ post) = Some (sz, VStr (Some mem) (int l))"
      "take l mem = ?bs" "0 \<in> set (take (l + 1) mem)" "0 \<le> sz" "sz \<le> 2147483644"
      unfolding fl by (rule read_string_ok [OF pl, of post]) (use lim in \<open>simp only: lb\<close>, simp)
    then have "var_back f c (VStr (Some mem) (int l))" using l by (simp add: SetString)
    then show ?thesis using env none lend r(1,4,5) 1 by (simp add: SIZE_VAR_def read_value_def new_value_def)
  next
    case 2
    have "read_bytes (watom (length pre) fl) (pre @ wenc fl @ post) = Some (VStr (Some (?bs @ post)) (int l))"
      unfolding fl read_bytes_def at_payload [OF pl] lb by simp
    moreover have "var_back f c (VStr (Some (?bs @ post)) (int l))" using l 2 by (simp add: SetString)
    ultimately show ?thesis using env none lend 2 by (simp add: SIZE_VAR_def read_value_def new_value_def)
  qed
qed

subsection \<open>All values\<close>

text \<open>The map leads to a value of the field that holds what the call set.\<close>

definition holds_call :: "'pool pbc_env \<Rightarrow> nat \<Rightarrow> 'pool rstate \<Rightarrow> nat map_sp \<Rightarrow> wcall \<Rightarrow> bool" where
  "holds_call p t s mp c \<longleftrightarrow>
     (\<exists>f fi i v. message_field p t (call_key c) = Some f \<and> rd (st_fields p) fi = Some f \<and> single_label f
        \<and> sp_abs mp (call_key c) = Some (Some i) \<and> rd (rs_values s) i = Some \<lparr>rv_type = fi, rv_v = RVar v\<rparr> \<and> var_back f c v)"

text \<open>The keys of the calls that write a field.\<close>

definition written_keys :: "'pool pbc_env \<Rightarrow> nat \<Rightarrow> wcall list \<Rightarrow> cstring set" where
  "written_keys p t cs = call_key ` {c \<in> set cs. call_fields p t c \<noteq> Some []}"

lemma written_keys_simps [simp]:
  "written_keys p t [] = {}"
  "written_keys p t (c # cs) = (if call_fields p t c = Some [] then written_keys p t cs else insert (call_key c) (written_keys p t cs))"
  by (auto simp: written_keys_def)

text \<open>Entries and values stay when more are read.\<close>

definition extends :: "'pool rstate \<Rightarrow> nat map_sp \<Rightarrow> 'pool rstate \<Rightarrow> nat map_sp \<Rightarrow> bool" where
  "extends s mp s' mp' \<longleftrightarrow> (\<exists>vs. rs_values s' = rs_values s @ vs) \<and> sp_abs mp \<subseteq>\<^sub>m sp_abs mp'"

lemma extends_holds: "extends s mp s' mp' \<Longrightarrow> holds_call p t s mp c \<Longrightarrow> holds_call p t s' mp' c"
  unfolding holds_call_def extends_def by (fastforce simp: rd_def nth_append map_le_def dom_def split: if_splits)

lemma extends_trans: "extends s mp s1 mp1 \<Longrightarrow> extends s1 mp1 s2 mp2 \<Longrightarrow> extends s mp s2 mp2"
  unfolding extends_def by (auto intro: map_le_trans)

lemma read_atom_written:
  assumes cf: "call_fields p t c = Some [fl]" and rdb: "readable p t c" and msg: "rd (st_messages p) t = Some msg"
    and env: "rs_env s = p" and pos: "length pre + length (wenc fl) \<le> 2 ^ 30"
    and mp: "sp_inv mp" "sp_abs mp (call_key c) = None" "sp_size mp \<le> SP_LIMIT"
  shows "\<exists>s' mp'. read_atom sub msg (pre @ wenc fl @ post) (watom (length pre) fl) mp s = Some (s', mp') \<and> rs_env s' = p
    \<and> sp_inv mp' \<and> sp_size mp' = sp_size mp + 1 \<and> dom (sp_abs mp') = insert (call_key c) (dom (sp_abs mp))
    \<and> extends s mp s' mp' \<and> holds_call p t s' mp' c"
proof -
  have dec: "decodable p t c" using rdb by (simp add: readable_def)
  obtain f where f: "message_field p t (call_key c) = Some f" "single_label f" "pf_name f = call_key c" "pf_id f < 2 ^ 28"
    "pbcM_ip_query (pm_id msg) (pf_id f) = pbcM_sp_query (Some (pm_name msg)) (call_key c)"
    using rdb msg by (auto simp: readable_def decodable_def split: option.splits)
  obtain fi where fi: "pbcM_ip_query (pm_id msg) (pf_id f) = Some (Some fi)" "rd (st_fields p) fi = Some f" "good_id f"
    using f(1,5) msg by (auto simp: message_field_def ub_simps split: if_splits)
  have num: "wnum fl = nat (pf_id f)" using f(1) cf
    by (cases c) (auto simp: unless_def ub_simps wfield_of_integer_num split: if_splits)
  have id: "atom_id (watom (length pre) fl) = pf_id f"
    using atom_id_watom [of fl] num f(4) fi(3) by (simp add: good_id_def)
  obtain s1 v where v: "read_value sub fi f (watom (length pre) fl) (pre @ wenc fl @ post) s = Some (s1, Some (length (rs_values s)))"
    "rs_env s1 = p" "rs_values s1 = rs_values s @ [\<lparr>rv_type = fi, rv_v = RVar v\<rparr>]" "var_back f c v"
    using read_value_written [OF cf dec f(1) env pos, of sub fi post] by blast
  obtain m' mp' where ins: "pbcM_sp_insert mp (pf_name f) (Some (length (rs_values s))) (rs_mem s1) = Some (m', mp')" "sp_inv mp'"
    "sp_abs mp' = (sp_abs mp)(call_key c \<mapsto> Some (length (rs_values s)))" "sp_size mp' = sp_size mp + 1"
    using sp.ins [OF mp, of "Some (length (rs_values s))" "rs_mem s1"] f(3) by auto
  let ?s = "s1\<lparr>rs_mem := m'\<rparr>"
  have "read_atom sub msg (pre @ wenc fl @ post) (watom (length pre) fl) mp s = Some (?s, mp')"
    using id fi env f(2) v(1) ins(1) by (auto simp: read_atom_def single_value_def single_label_def)
  moreover have "extends s mp ?s mp'" using v(3) ins(3) mp(2) by (auto simp: extends_def map_le_def)
  moreover have "holds_call p t ?s mp' c"
    unfolding holds_call_def using f(1,2) fi(2) ins(3) v(3,4)
    by (intro exI [of _ f] exI [of _ fi] exI [of _ "length (rs_values s)"] exI [of _ v]) (simp add: rd_def nth_append)
  ultimately show ?thesis using ins v(2) by auto
qed

lemma read_atoms_written:
  assumes "those (map (call_fields p t) cs) = Some fss" and "list_all (readable p t) cs" and "rd (st_messages p) t = Some msg"
    and "rs_env s = p" and "length pre + length (wmsg (concat fss)) \<le> 2 ^ 30" and "sp_inv mp"
    and "sp_size mp + length (concat fss) \<le> SP_LIMIT" and "distinct (map call_key cs)"
    and "set (map call_key cs) \<inter> dom (sp_abs mp) = {}"
  shows "\<exists>s' mp'. read_atoms sub msg (pre @ wmsg (concat fss) @ post) (watoms (length pre) (concat fss)) mp s = Some (s', mp')
    \<and> rs_env s' = p \<and> sp_inv mp' \<and> extends s mp s' mp' \<and> dom (sp_abs mp') = dom (sp_abs mp) \<union> written_keys p t cs
    \<and> (\<forall>c \<in> set cs. call_fields p t c \<noteq> Some [] \<longrightarrow> holds_call p t s' mp' c)"
  using assms
proof (induction cs arbitrary: fss pre s mp)
  case Nil
  then show ?case by (auto simp: extends_def)
next
  case (Cons c cs)
  obtain fs fss' where fs: "call_fields p t c = Some fs" "those (map (call_fields p t) cs) = Some fss'" "fss = fs # fss'"
    using Cons.prems(1) by (auto split: option.splits)
  have rdb: "list_all (readable p t) cs" "readable p t c" using Cons.prems(2) by simp_all
  have dist: "distinct (map call_key cs)" "call_key c \<notin> set (map call_key cs)" using Cons.prems(8) by simp_all
  show ?case
  proof (cases "fs = []")
    case True
    have "length pre + length (wmsg (concat fss')) \<le> 2 ^ 30" "sp_size mp + length (concat fss') \<le> SP_LIMIT"
      "set (map call_key cs) \<inter> dom (sp_abs mp) = {}" using Cons.prems(5,7,9) fs(3) True by auto
    from Cons.IH [OF fs(2) rdb(1) Cons.prems(3,4) this(1) Cons.prems(6) this(2) dist(1) this(3)] show ?thesis
      using fs True by auto
  next
    case False
    then obtain fl where fl: "fs = [fl]" using call_fields_single [OF fs(1)] by blast
    have cf: "call_fields p t c = Some [fl]" using fs(1) fl by simp
    have w: "wmsg (concat fss) = wenc fl @ wmsg (concat fss')" by (simp add: fs(3) fl wmsg_def)
    have "length pre + length (wenc fl) \<le> 2 ^ 30" "sp_abs mp (call_key c) = None" "sp_size mp \<le> SP_LIMIT"
      using Cons.prems(5,7,9) w by auto
    from read_atom_written [OF cf rdb(2) Cons.prems(3,4) this(1) Cons.prems(6) this(2,3), of sub "wmsg (concat fss') @ post"]
    obtain s1 mp1 where a: "read_atom sub msg (pre @ wenc fl @ wmsg (concat fss') @ post) (watom (length pre) fl) mp s = Some (s1, mp1)"
      "rs_env s1 = p" "sp_inv mp1" "sp_size mp1 = sp_size mp + 1" "dom (sp_abs mp1) = insert (call_key c) (dom (sp_abs mp))"
      "extends s mp s1 mp1" "holds_call p t s1 mp1 c" by blast
    have "length (pre @ wenc fl) + length (wmsg (concat fss')) \<le> 2 ^ 30" "sp_size mp1 + length (concat fss') \<le> SP_LIMIT"
      "set (map call_key cs) \<inter> dom (sp_abs mp1) = {}" using Cons.prems(5,7,9) w a(4,5) dist(2) by (auto simp: fs(3) fl)
    from Cons.IH [OF fs(2) rdb(1) Cons.prems(3) a(2) this(1) a(3) this(2) dist(1) this(3)] obtain s2 mp2 where
      b: "read_atoms sub msg ((pre @ wenc fl) @ wmsg (concat fss') @ post) (watoms (length (pre @ wenc fl)) (concat fss')) mp1 s1 = Some (s2, mp2)"
      "rs_env s2 = p" "sp_inv mp2" "extends s1 mp1 s2 mp2" "dom (sp_abs mp2) = dom (sp_abs mp1) \<union> written_keys p t cs"
      "\<forall>c \<in> set cs. call_fields p t c \<noteq> Some [] \<longrightarrow> holds_call p t s2 mp2 c" by blast
    have "read_atoms sub msg (pre @ wmsg (concat fss) @ post) (watoms (length pre) (concat fss)) mp s = Some (s2, mp2)"
      using a(1) b(1) by (simp add: w) (simp add: fs(3) fl)
    moreover have "holds_call p t s2 mp2 c" by (rule extends_holds [OF b(4) a(7)])
    moreover have "extends s mp s2 mp2" by (rule extends_trans [OF a(6) b(4)])
    moreover have "dom (sp_abs mp2) = dom (sp_abs mp) \<union> written_keys p t (c # cs)" using b(5) a(5) cf by simp
    ultimately show ?thesis using b by auto
  qed
qed

text \<open>The access functions return what the map leads to.\<close>

lemma holds_read_back:
  assumes "holds_call p t s mp c" and "rs_env s = p" and "sp_inv mp" and "rm_index m = Some mp" and "call_fields p t c = Some [fl]"
  shows "\<exists>f. message_field p t (call_key c) = Some f \<and> read_back s m f c"
proof -
  obtain f fi i v where h: "message_field p t (call_key c) = Some f" "rd (st_fields p) fi = Some f" "single_label f"
    "sp_abs mp (call_key c) = Some (Some i)" "rd (rs_values s) i = Some \<lparr>rv_type = fi, rv_v = RVar v\<rparr>" "var_back f c v"
    using assms(1) by (auto simp: holds_call_def)
  have "pbcM_sp_query (Some mp) (call_key c) = Some (Some i)" using sp.query [OF assms(3)] h(4) by simp
  then have tv: "type_and_var s m (call_key c) 0 = Some (pf_type f, v)"
    using h assms(2,4) by (simp add: type_and_var_def rvalue_of_def field_of_def var_at_def is_array_def single_label_def)
  have "read_back s m f c"
  proof (cases c)
    case (SetInteger key lo h')
    have "of_int (sint lo) = lo" by simp
    then show ?thesis using tv h(6)
      by (auto simp: SetInteger pbc_rmessage_integer_def Let_def var_low_def var_hi_def split: if_splits pbc_var.splits)
  next
    case (SetReal key d)
    then show ?thesis using tv h(6) by (simp add: pbc_rmessage_real_def var_real_def)
  next
    case (SetString key str len)
    have "pf_type f \<noteq> PTYPE_ENUM" using assms(5) h(1) by (auto simp: SetString unless_def ub_simps split: if_splits)
    then show ?thesis using tv h(6)
      by (auto simp: SetString pbc_rmessage_string_def var_str_def split: pbc_var.splits option.splits)
  qed
  with h(1) show ?thesis by blast
qed

text \<open>
  What the access functions return for a call that wrote nothing, because it set the default: the
  integer itself, a double that compares equal, a string that \<open>strcmp\<close> or \<open>strncmp\<close> finds
  equal. Bytes are taken as the default when they are empty.\<close>

fun default_back :: "'pool rstate \<Rightarrow> rmsg \<Rightarrow> pbc_field \<Rightarrow> wcall \<Rightarrow> bool" where
  "default_back s m f (SetInteger key lo h) =
     (pbc_rmessage_integer s m key 0 = Some (lo, if pf_type f = PTYPE_ENUM then 0 else h))"
| "default_back s m f (SetReal key d) =
     (case pbc_rmessage_real s m key 0 of None \<Rightarrow> False | Some d' \<Rightarrow> dbl_eq d d')"
| "default_back s m f (SetString key str len) =
     (case string_len str len of None \<Rightarrow> False
      | Some (l, _) \<Rightarrow>
          if pf_type f = PTYPE_BYTES then
            l = 0 \<and> pbc_rmessage_string True s m key 0 = map_option (\<lambda>(b, n). (b, Some \<bar>n\<bar>)) (var_str (pf_default f))
          else (case pbc_rmessage_string True s m key 0 of
              Some (Some mem, Some n) \<Rightarrow>
                if pf_type f = PTYPE_ENUM then strncmp_eq l str mem = Some True \<and> rd mem l = Some 0
                else n = int l \<and> strcmp_eq str mem = Some True
            | _ \<Rightarrow> False))"

lemma message_field_default:
  assumes "message_field p t key = Some f"
  shows "pbcP_message_default p t key = Some (pf_type f, pf_default f)"
  using assms by (auto simp: message_field_def pbcP_message_default_def ub_simps split: if_splits)

lemma absent_default:
  assumes "message_field p t key = Some f" and "rs_env s = p" and "sp_inv mp" and "rm_index m = Some mp" and "rm_msg m = Some t"
    and "sp_abs mp key = None" and "calc_hash key \<noteq> 0"
  shows "type_and_var s m key 0 = Some (pf_type f, pf_default f)"
proof -
  have "pbcM_sp_query (Some mp) key = Some None" using sp.query [OF assms(3), of key] assms(6,7) by simp
  then show ?thesis using assms message_field_default [OF assms(1)] by (simp add: type_and_var_def rvalue_of_def)
qed

lemma absent_default_back:
  assumes cf: "call_fields p t c = Some []" and f: "message_field p t (call_key c) = Some f"
    and tv: "type_and_var s m (call_key c) 0 = Some (pf_type f, pf_default f)"
  shows "default_back s m f c"
proof (cases c)
  case (SetInteger key lo h)
  have "integer_is_default f lo h = Some True"
    using cf f by (auto simp: SetInteger unless_def ub_simps split: if_splits)
  with tv show ?thesis
    by (auto simp: SetInteger integer_is_default_def pbc_rmessage_integer_def ub_simps split: if_splits)
next
  case (SetReal key d)
  have "map_option (dbl_eq d) (var_real (pf_default f)) = Some True"
    using cf f by (auto simp: SetReal unless_def ub_simps split: if_splits)
  with tv show ?thesis by (auto simp: SetReal pbc_rmessage_real_def)
next
  case (SetString key str len)
  obtain l b where l: "string_len str len = Some (l, b)" and d: "string_is_default f str l = Some True"
    using cf f by (auto simp: SetString unless_def ub_simps split: if_splits)
  from d consider (enum) nm where "pf_type f = PTYPE_ENUM" "var_enum_name (pf_default f) = Some (Some nm)"
      "strncmp_eq l str (nm @ [0]) = Some True" "rd (nm @ [0]) l = Some 0"
    | (string) mem where "pf_type f = PTYPE_STRING" "var_str (pf_default f) = Some (Some mem, int l)" "strcmp_eq str mem = Some True"
    | (bytes) "pf_type f = PTYPE_BYTES" "l = 0"
    by (auto simp: string_is_default_def ub_simps split: if_splits)
  then show ?thesis
  proof cases
    case enum
    with tv l show ?thesis by (simp add: SetString pbc_rmessage_string_def)
  next
    case string
    with tv l show ?thesis by (simp add: SetString pbc_rmessage_string_def)
  next
    case bytes
    with tv l show ?thesis by (cases "var_str (pf_default f)") (auto simp: SetString pbc_rmessage_string_def)
  qed
qed

lemma heap_new_total: "sz \<le> 2 ^ 30 \<Longrightarrow> \<exists>g' h. pbcH_new sz g = Some (g', h)"
  using grow_cap_total [of sz 1024] by (auto simp: pbcH_new_def Let_def)

lemma calls_fields_length: "those (map (call_fields p t) cs) = Some fss \<Longrightarrow> length (concat fss) \<le> length cs"
proof (induction cs arbitrary: fss)
  case (Cons c cs)
  obtain fs fss' where "call_fields p t c = Some fs" "those (map (call_fields p t) cs) = Some fss'" "fss = fs # fss'"
    using Cons.prems by (auto split: option.splits)
  with Cons.IH [of fss'] call_fields_single [of p t c fs] show ?case by auto
qed simp

lemma calls_fields_each: "those (map (call_fields p t) cs) = Some fss \<Longrightarrow> c \<in> set cs \<Longrightarrow> \<exists>fs. call_fields p t c = Some fs"
  by (induction cs arbitrary: fss) (auto split: option.splits)

text \<open>Reading the fields of a sequence of calls.\<close>

lemma new_written:
  assumes name: "pbcP_get_message p name = Some (Some t)"
    and fss: "those (map (call_fields p t) cs) = Some fss" and len: "length (wmsg (concat fss)) \<le> 2 ^ 30"
    and rdb: "list_all (readable p t) cs" and dist: "distinct (map call_key cs)" and n: "length cs \<le> 2 ^ 20"
  obtains g' rs mp where "pbc_rmessage_new junk p name (Some (wmsg (concat fss) @ rest)) (int (length (wmsg (concat fss)))) g2
      = Some (p, g', Some (rs, \<lparr>rm_msg = Some t, rm_index = Some mp\<rparr>))"
    and "rs_env rs = p" and "sp_inv mp" and "dom (sp_abs mp) = written_keys p t cs"
    and "\<forall>c \<in> set cs. call_fields p t c \<noteq> Some [] \<longrightarrow> holds_call p t rs mp c"
proof -
  let ?fs = "concat fss" and ?bytes = "wmsg (concat fss)"
  let ?sub = "rmessage_new (nat (int (length ?bytes))) junk"
  note result = that
  obtain g1 h where h: "pbcH_new (int (length ?bytes)) g2 = Some (g1, h)"
    using heap_new_total [of "int (length ?bytes)" g2] len by auto
  have "length ?fs \<le> 2 ^ 20" by (rule order_trans [OF calls_fields_length [OF fss] n])
  then have n20: "int (length ?fs) \<le> 2 ^ 20" by simp
  have fin: thesis
    if r: "rmessage_new (nat (int (length ?bytes)) + 1) junk (Some t) (Some (?bytes @ rest)) (int (length ?bytes))
        \<lparr>rs_env = p, rs_mem = \<lparr>mem_g = g1, mem_heap = h\<rparr>, rs_values = []\<rparr> = Some (rs, \<lparr>rm_msg = Some t, rm_index = Some mp\<rparr>)"
      "rs_env rs = p" "sp_inv mp" "dom (sp_abs mp) = written_keys p t cs"
      "\<forall>c \<in> set cs. call_fields p t c \<noteq> Some [] \<longrightarrow> holds_call p t rs mp c" for rs mp
  proof (rule result)
    let ?rs = "rs\<lparr>rs_mem := hmalloc True 24 (rs_mem rs)\<rparr>"
    show "pbc_rmessage_new junk p name (Some (?bytes @ rest)) (int (length ?bytes)) g2
        = Some (p, mem_g (rs_mem ?rs), Some (?rs, \<lparr>rm_msg = Some t, rm_index = Some mp\<rparr>))"
      using r(1,2) by (simp add: pbc_rmessage_new_def name h Let_def)
    show "\<forall>c \<in> set cs. call_fields p t c \<noteq> Some [] \<longrightarrow> holds_call p t ?rs mp c" using r(5) by (simp add: holds_call_def)
  qed (use r(2-4) in simp_all)
  show thesis
  proof (cases "?fs = []")
    case True
    obtain m1 and mp :: "nat map_sp" where mp: "pbcM_sp_new 0 True \<lparr>mem_g = g1, mem_heap = h\<rparr> = Some (m1, mp)"
      "sp_inv mp" "sp_abs mp = Map.empty" by (rule new_ok [of 0]) simp_all
    have "call_fields p t c = Some []" if "c \<in> set cs" for c
      using True fss that by (induction cs arbitrary: fss) (auto split: option.splits)
    then have "written_keys p t cs = {}" "\<forall>c \<in> set cs. call_fields p t c \<noteq> Some [] \<longrightarrow> holds_call p t x mp c" for x
      by (auto simp: written_keys_def)
    moreover have b: "?bytes = []" unfolding True by (simp add: wmsg_def)
    ultimately show thesis using mp
      by (intro fin [of "\<lparr>rs_env = p, rs_mem = m1, rs_values = []\<rparr>" mp]) (simp_all add: b)
  next
    case False
    then obtain c cs' where "cs = c # cs'" using fss by (cases cs) auto
    with rdb obtain msg where msg: "rd (st_messages p) t = Some msg"
      by (auto simp: readable_def decodable_def split: option.splits)
    have len': "length ?bytes < 2 ^ 31" using len by simp
    from open_fields [OF calls_fields_valid [OF fss] False len', of junk rest g1] obtain ctx g' where
      o: "pbcC_open junk (Some (?bytes @ rest)) (int (length ?bytes)) g1 = Some (int (length ?fs), ctx, g')"
      "ctx_atoms ctx = watoms 0 ?fs" by blast
    obtain m1 and mp :: "nat map_sp" where mp: "pbcM_sp_new (int (length ?fs)) True \<lparr>mem_g = g', mem_heap = h\<rparr> = Some (m1, mp)"
      "sp_inv mp" "sp_abs mp = Map.empty" "sp_size mp = 0" by (rule new_ok [OF n20])
    let ?s1 = "\<lparr>rs_env = p, rs_mem = m1, rs_values = []\<rparr>"
    have a: "rs_env ?s1 = p" "length [] + length ?bytes \<le> 2 ^ 30" "sp_size mp + length ?fs \<le> SP_LIMIT"
      "set (map call_key cs) \<inter> dom (sp_abs mp) = {}"
      using len mp(3,4) calls_fields_length [OF fss] n by (simp_all add: SP_LIMIT_def)
    obtain rs mp' where r: "read_atoms ?sub msg ([] @ ?bytes @ rest) (watoms (length ([] :: byte list)) ?fs) mp ?s1 = Some (rs, mp')"
      "rs_env rs = p" "sp_inv mp'" "dom (sp_abs mp') = written_keys p t cs"
      "\<forall>c \<in> set cs. call_fields p t c \<noteq> Some [] \<longrightarrow> holds_call p t rs mp' c"
      using read_atoms_written [OF fss rdb msg a(1,2) mp(2) a(3) dist a(4), of ?sub rest] mp(3) by auto
    let ?rs = "rs_g (pbcC_close ctx (mem_g (rs_mem rs))) rs"
    have "?bytes \<noteq> []" using o(1) False by (auto simp: pbcC_open_def)
    then show thesis using o mp(1) msg r False
      by (intro fin [of ?rs mp']) (simp_all add: rs_g_def Let_def holds_call_def)
  qed
qed

subsection \<open>A name twice in a map of two slots\<close>

lemma sp_new_2: "pbcM_sp_new 2 h m = Some (hmalloc h 64 (hmalloc h 32 m), \<lparr>sp_heap = h, sp_size = 0, sp_slot = [free_slot, free_slot]\<rparr>)"
  by (simp add: pbcM_sp_new_def grow_cap.simps block_ok_def INT_MAX_def numeral_2_eq_2)

lemma two_slots:
  fixes a b :: "'v" and hp :: bool and key :: cstring
  assumes h: "calc_hash key AND 1 = 0" "calc_hash key \<noteq> 0"
  defines "mp0 \<equiv> \<lparr>sp_heap = hp, sp_size = 0, sp_slot = [free_slot, free_slot]\<rparr>"
    and "mp1 \<equiv> \<lparr>sp_heap = hp, sp_size = 1, sp_slot = [free_slot\<lparr>spk := Some key, spp := Some a, sph := calc_hash key\<rparr>, free_slot]\<rparr>"
    and "mp2 \<equiv> \<lparr>sp_heap = hp, sp_size = 2, sp_slot = [free_slot\<lparr>spk := Some key, spp := Some a, sph := calc_hash key, spn := 2\<rparr>,
      free_slot\<lparr>spk := Some key, spp := Some b, sph := calc_hash key\<rparr>]\<rparr>"
  shows "pbcM_sp_insert mp0 key (Some a) m = Some (m, mp1)"
    and "pbcM_sp_insert mp1 key (Some b) m = Some (m, mp2)"
    and "pbcM_sp_query (Some mp2) key = Some (Some a)"
    and "pbcM_sp_next (Some mp2) None = Some (Some a, Some key)"
    and "pbcM_sp_next (Some mp2) (Some key) = Some (Some b, Some key)"
proof -
  have i: "sp_index mp (calc_hash key) = 0" if "length (sp_slot mp) = 2" for mp :: "'a map_sp"
    using h that by (simp add: sp_index_def sp_cap_def)
  show "pbcM_sp_insert mp0 key (Some a) m = Some (m, mp1)"
    using i [of mp0] by (simp add: pbcM_sp_insert_def numeral_2_eq_2 sp_cap_def mp0_def mp1_def sp_place_def Let_def free_slot_def)
  show "pbcM_sp_insert mp1 key (Some b) m = Some (m, mp2)"
    using i [of mp1] by (simp add: pbcM_sp_insert_def numeral_2_eq_2 sp_cap_def mp2_def mp1_def sp_place_def Let_def free_slot_def link_in_def)
  show "pbcM_sp_query (Some mp2) key = Some (Some a)"
    using i [of mp2] by (simp add: pbcM_sp_query_def numeral_2_eq_2 sp_cap_def mp2_def sp_search_def sp_match_def free_slot_def)
  show "pbcM_sp_next (Some mp2) None = Some (Some a, Some key)"
    by (simp add: pbcM_sp_next_def find_first_def find_from.simps sp_cap_def mp2_def)
  show "pbcM_sp_next (Some mp2) (Some key) = Some (Some b, Some key)"
    using i [of mp2] by (simp add: pbcM_sp_next_def find_next_def find_from.simps sp_cap_def numeral_2_eq_2 sp_cap_def mp2_def sp_search_def sp_match_def free_slot_def)
qed
subsection \<open>Messages whose end is broken\<close>

lemma open_loop_prefix:
  assumes "\<forall>f \<in> set fs. wvalid f" and "start + length (wmsg fs) + length tail < 2 ^ 31" and "n = length (wmsg fs) + length tail"
  shows "open_loop (length fs + k) junk (wmsg fs @ tail @ rest) (int n) (int start) atoms
    = open_loop k junk (tail @ rest) (int (length tail)) (int (start + length (wmsg fs))) (atoms @ watoms start fs)"
  using assms
proof (induction fs arbitrary: start atoms n)
  case (Cons f fs)
  have m: "wmsg (f # fs) = wenc f @ wmsg fs" by (simp add: wmsg_def)
  have pos: "0 < length (wenc f)" by (rule wenc_ne)
  have w: "wiretype_decode junk (wenc f @ wmsg fs @ tail @ rest) (int n) (int start) = Some (Some (length (wenc f), watom start f))"
    by (rule wiretype_decode_ok) (use Cons.prems m in auto)
  define n' where "n' = length (wmsg fs) + length tail"
  have n: "n = length (wenc f) + n'" using Cons.prems(3) m by (simp add: n'_def)
  have i1: "to_int32 (int n - int (length (wenc f))) = int n'" using Cons.prems(2) m n by (subst to_int32_id) (simp_all add: n'_def)
  have i2: "to_int32 (int start + int (length (wenc f))) = int (start + length (wenc f))"
    using Cons.prems(2) m by (subst to_int32_id) simp_all
  have IH: "open_loop (length fs + k) junk (wmsg fs @ tail @ rest) (int n') (int (start + length (wenc f))) (atoms @ [watom start f])
    = open_loop k junk (tail @ rest) (int (length tail)) (int (start + length (wenc f) + length (wmsg fs)))
        ((atoms @ [watom start f]) @ watoms (start + length (wenc f)) fs)"
    by (rule Cons.IH [OF _ _ n'_def]) (use Cons.prems m in auto)
  have "0 < n" using pos unfolding n by (rule trans_less_add1)
  then have "int n \<noteq> 0" "\<not> int n < 0" by auto
  then show ?case using w i1 i2 IH by (simp add: m add.assoc)
qed (simp add: wmsg_def)

lemma open_broken:
  assumes "\<forall>f \<in> set fs. wvalid f" and "length (wmsg fs) + 1 < 2 ^ 31"
  shows "\<exists>ctx. pbcC_open junk (Some (wmsg fs @ 7 # rest)) (int (length (wmsg fs) + 1)) g
      = Some (- int (length fs), ctx, if INNER_ATOM \<le> length fs then g + 1 else g)
    \<and> pbcC_close ctx (if INNER_ATOM \<le> length fs then g + 1 else g) = g"
proof -
  have "length fs \<le> length (wmsg fs)" for fs
  proof (induction fs)
    case (Cons f fs)
    have "length (wmsg (f # fs)) = length (wenc f) + length (wmsg fs)" by (simp add: wmsg_def)
    with Cons wenc_ne [of f] show ?case unfolding list.size by linarith
  qed simp
  then obtain k where k: "length (wmsg fs @ 7 # rest) + 2 = length fs + Suc k"
    by (metis add_Suc_right le_add1 le_iff_add length_append order_trans add_2_eq_Suc')
  have "pbcV_decode (7 # xs) = Some (1, \<lparr>ll_low = 7, ll_hi = 0\<rparr>)" for xs
    by (simp add: pbcV_decode_def)
  then have bad: "wiretype_decode junk (7 # rest) 1 i = Some None" for i
    by (simp add: wiretype_decode_def decode_at_def fill_temp_def)
  have "open_loop (length fs + Suc k) junk (wmsg fs @ [7] @ rest) (int (length (wmsg fs) + 1)) (int 0) []
      = open_loop (Suc k) junk ([7] @ rest) (int (length [7 :: byte])) (int (0 + length (wmsg fs))) ([] @ watoms 0 fs)"
    by (rule open_loop_prefix) (use assms in simp_all)
  then have "open_loop (length (wmsg fs @ 7 # rest) + 2) junk (wmsg fs @ 7 # rest) (int (length (wmsg fs) + 1)) 0 [] = Some (False, watoms 0 fs)"
    unfolding k using bad by simp
  then show ?thesis
    by (auto simp: pbcC_open_def Let_def outer_needed_def pbcM_malloc_def pbcC_close_def pbcM_free_def)
qed

subsection \<open>Properties\<close>

text \<open>
  C4: a message whose fields are single values, each set at most once, is read back as it was
  written: the access functions return for every key the integer, double or string it was set to,
  strings with a NUL behind them, floats rounded to single precision once. A key that was set to its
  default, which writes nothing, gives that default, equal to what was set as the code compares it,
  and a key that was not set gives its default. A key without an entry must not have the hash 0.\<close>

theorem read_written:
  assumes "pbc_wmessage_new p name g = Some (Some s)" and "pbcP_get_message p name = Some (Some t)"
    and "those (map (call_fields p t) cs) = Some fss"
    and "length (wmsg (concat fss)) + 20 \<le> 2 ^ 30" and "list_all (readable p t) cs" and "distinct (map call_key cs)"
    and "length cs \<le> 2 ^ 20" and "\<forall>c \<in> set cs. call_fields p t c = Some [] \<longrightarrow> calc_hash (call_key c) \<noteq> 0"
  shows "\<exists>s' bytes g' rs m. run_calls s 0 cs = Some (s', replicate (length cs) 0)
    \<and> pbc_wmessage_buffer s' 0 = Some (s', map Some bytes)
    \<and> pbc_rmessage_new junk p name (Some (bytes @ rest)) (int (length bytes)) g2 = Some (p, g', Some (rs, m))
    \<and> list_all (\<lambda>c. case message_field p t (call_key c) of None \<Rightarrow> False
        | Some f \<Rightarrow> if call_fields p t c = Some [] then default_back rs m f c else read_back rs m f c) cs
    \<and> (\<forall>key f. message_field p t key = Some f \<and> key \<notin> set (map call_key cs) \<and> calc_hash key \<noteq> 0
        \<longrightarrow> type_and_var rs m key 0 = Some (pf_type f, pf_default f))"
proof -
  obtain s' where s': "run_calls s 0 cs = Some (s', replicate (length cs) 0)"
    "pbc_wmessage_buffer s' 0 = Some (s', map Some (wmsg (concat fss)))"
    using written_bytes [OF assms(1-4)] by blast
  have len: "length (wmsg (concat fss)) \<le> 2 ^ 30" using assms(4) by simp
  obtain g' rs mp where r: "pbc_rmessage_new junk p name (Some (wmsg (concat fss) @ rest)) (int (length (wmsg (concat fss)))) g2
      = Some (p, g', Some (rs, \<lparr>rm_msg = Some t, rm_index = Some mp\<rparr>))"
    "rs_env rs = p" "sp_inv mp" "dom (sp_abs mp) = written_keys p t cs"
    "\<forall>c \<in> set cs. call_fields p t c \<noteq> Some [] \<longrightarrow> holds_call p t rs mp c"
    by (rule new_written [OF assms(2,3) len assms(5-7)])
  let ?m = "\<lparr>rm_msg = Some t, rm_index = Some mp\<rparr>"
  have none: "type_and_var rs ?m key 0 = Some (pf_type f, pf_default f)"
    if "message_field p t key = Some f" "key \<notin> written_keys p t cs" "calc_hash key \<noteq> 0" for key f
    using that r(4) by (intro absent_default [OF that(1) r(2,3)]) auto
  have all: "case message_field p t (call_key c) of None \<Rightarrow> False
      | Some f \<Rightarrow> if call_fields p t c = Some [] then default_back rs ?m f c else read_back rs ?m f c" if c: "c \<in> set cs" for c
  proof (cases "call_fields p t c = Some []")
    case True
    then have "call_key c \<notin> written_keys p t cs" using assms(6) c by (auto simp: written_keys_def distinct_map dest: inj_onD)
    moreover obtain f where "message_field p t (call_key c) = Some f" using True by (cases c) (auto simp: ub_simps)
    ultimately have f: "message_field p t (call_key c) = Some f" "type_and_var rs ?m (call_key c) 0 = Some (pf_type f, pf_default f)"
      using none [of "call_key c" f] assms(8) c True by simp_all
    from absent_default_back [OF True f] f(1) True show ?thesis by simp
  next
    case False
    obtain fs where "call_fields p t c = Some fs" using calls_fields_each [OF assms(3) c] by blast
    with False call_fields_single [of p t c fs] obtain fl where fl: "call_fields p t c = Some [fl]" by auto
    from r(5) c False have "holds_call p t rs mp c" by blast
    from holds_read_back [OF this r(2,3) _ fl, of ?m] False show ?thesis by auto
  qed
  have "list_all (\<lambda>c. case message_field p t (call_key c) of None \<Rightarrow> False
      | Some f \<Rightarrow> if call_fields p t c = Some [] then default_back rs ?m f c else read_back rs ?m f c) cs"
    unfolding list_all_iff using all by blast
  moreover have "\<forall>key f. message_field p t key = Some f \<and> key \<notin> set (map call_key cs) \<and> calc_hash key \<noteq> 0
      \<longrightarrow> type_and_var rs ?m key 0 = Some (pf_type f, pf_default f)"
    using none by (auto simp: written_keys_def)
  ultimately show ?thesis using s' r(1) by blast
qed


definition person_sets :: "wcall list" where
  "person_sets = [SetString (cstr ''name'') [74, 111, 0] (- 1), SetInteger (cstr ''id'') 0 0]"

lemma read_written_witness:
  "case person_env of None \<Rightarrow> False
   | Some p \<Rightarrow> (case pbc_wmessage_new p (cstr ''Person'') 7 of None \<Rightarrow> False | Some None \<Rightarrow> False
     | Some (Some s) \<Rightarrow> call_fields p 0 (SetInteger (cstr ''id'') 0 0) = Some []
      \<and> (\<exists>s' bytes g' rs m. run_calls s 0 person_sets = Some (s', replicate (length person_sets) 0)
      \<and> pbc_wmessage_buffer s' 0 = Some (s', map Some bytes)
      \<and> pbc_rmessage_new [] p (cstr ''Person'') (Some (bytes @ [9])) (int (length bytes)) 2 = Some (p, g', Some (rs, m))
      \<and> list_all (\<lambda>c. case message_field p 0 (call_key c) of None \<Rightarrow> False
          | Some f \<Rightarrow> if call_fields p 0 c = Some [] then default_back rs m f c else read_back rs m f c) person_sets
      \<and> (\<forall>key f. message_field p 0 key = Some f \<and> key \<notin> set (map call_key person_sets) \<and> calc_hash key \<noteq> 0
        \<longrightarrow> type_and_var rs m key 0 = Some (pf_type f, pf_default f))))"
proof -
  define fss where "fss = [[WLend 1 [74, 111, 0]], []]"
  have "case person_env of None \<Rightarrow> False
   | Some p \<Rightarrow> pbcP_get_message p (cstr ''Person'') = Some (Some 0) \<and> pbc_wmessage_new p (cstr ''Person'') 7 \<notin> {None, Some None}
      \<and> those (map (call_fields p 0) person_sets) = Some fss \<and> list_all (readable p 0) person_sets"
    unfolding fss_def by code_simp
  then obtain p s where p: "person_env = Some p" "pbcP_get_message p (cstr ''Person'') = Some (Some 0)"
    "pbc_wmessage_new p (cstr ''Person'') 7 = Some (Some s)" "those (map (call_fields p 0) person_sets) = Some fss"
    "list_all (readable p 0) person_sets" by (auto split: option.splits)
  have "calc_hash (cstr ''email'') \<noteq> 0" "calc_hash (cstr ''name'') \<noteq> 0" "calc_hash (cstr ''id'') \<noteq> 0" by code_simp+
  then have h: "\<forall>c \<in> set person_sets. call_fields p 0 c = Some [] \<longrightarrow> calc_hash (call_key c) \<noteq> 0" by (simp add: person_sets_def)
  have l: "length (wmsg (concat fss)) = 5" by (simp add: fss_def wmsg_def wenc_def encode_leb leb.simps)
  have c: "distinct (map call_key person_sets)" "length person_sets \<le> 2 ^ 20"
    by (simp_all add: person_sets_def cstr_def)
  have e: "call_fields p 0 (SetInteger (cstr ''id'') 0 0) = Some []"
    using p(4) by (simp add: person_sets_def fss_def split: option.splits)
  show ?thesis unfolding p(1,3) option.case
    by (rule conjI [OF e read_written [OF p(3,2,4) _ p(5) c h]]) (simp only: l, simp)
qed

text \<open>
  \<open>pbc_rmessage_new\<close> does not close the context of a message that is broken behind its
  nineteenth field: it returns NULL and one block stays allocated, while \<open>pbc_decode\<close> frees it.\<close>

theorem rmessage_new_leaks:
  assumes "pbcP_get_message p name = Some (Some t)" and "rd (st_messages p) t = Some msg"
    and "\<forall>f \<in> set fs. wvalid f" and "INNER_ATOM \<le> length fs" and "length (wmsg fs) < 2 ^ 30"
  shows "pbc_rmessage_new junk p name (Some (wmsg fs @ 7 # rest)) (int (length (wmsg fs) + 1)) g
      = Some (p\<lparr>env_lasterror := ''rmessage decode context error''\<rparr>, g + 1, None)
    \<and> pbc_decode pd junk p name (Some (wmsg fs @ 7 # rest)) (int (length (wmsg fs) + 1)) u g
      = Some (p\<lparr>env_lasterror := ''decode context error''\<rparr>, u, - int (length fs) - 1, g)"
proof -
  define sz where "sz = int (length (wmsg fs) + 1)"
  have sz: "sz \<le> 2 ^ 30" "sz \<noteq> 0" "length (wmsg fs) + 1 < 2 ^ 31" using assms(5) by (simp_all add: sz_def)
  obtain g1 h where h: "pbcH_new sz g = Some (g1, h)" using heap_new_total [OF sz(1)] by blast
  obtain ctx where o: "pbcC_open junk (Some (wmsg fs @ 7 # rest)) sz g1 = Some (- int (length fs), ctx, g1 + 1)"
    using open_broken [OF assms(3) sz(3), of junk rest g1, folded sz_def] assms(4) by auto
  have "rmessage_new (Suc (nat sz)) junk (Some t) (Some (wmsg fs @ 7 # rest)) sz
      \<lparr>rs_env = p, rs_mem = \<lparr>mem_g = g1, mem_heap = h\<rparr>, rs_values = []\<rparr>
      = Some (rs_error ''rmessage decode context error'' \<lparr>rs_env = p, rs_mem = \<lparr>mem_g = g1 + 1, mem_heap = h\<rparr>, rs_values = []\<rparr>,
              \<lparr>rm_msg = None, rm_index = None\<rparr>)"
    unfolding rmessage_new.simps using o sz(2) by (simp add: rs_g_def Let_def)
  moreover have "pbcH_delete h (g1 + 1) = g + 1"
    using h by (auto simp: pbcH_delete_def pbcM_free_def free_pages_count pbcH_new_def ub_simps Let_def pbcM_malloc_def)
  ultimately have "pbc_rmessage_new junk p name (Some (wmsg fs @ 7 # rest)) sz g
      = Some (p\<lparr>env_lasterror := ''rmessage decode context error''\<rparr>, g + 1, None)"
    by (simp add: pbc_rmessage_new_def assms(1) h rs_error_def del: rmessage_new.simps)
  moreover obtain ctx' where "pbcC_open junk (Some (wmsg fs @ 7 # rest)) sz g = Some (- int (length fs), ctx', g + 1)"
    "pbcC_close ctx' (g + 1) = g"
    using open_broken [OF assms(3) sz(3), of junk rest g, folded sz_def] assms(4) by auto
  then have "pbc_decode pd junk p name (Some (wmsg fs @ 7 # rest)) sz u g
      = Some (p\<lparr>env_lasterror := ''decode context error''\<rparr>, u, - int (length fs) - 1, g)"
    using sz(2) by (simp add: pbc_decode_def assms(1,2))
  ultimately show ?thesis unfolding sz_def ..
qed

lemma rmessage_new_leaks_witness:
  "case person_env of None \<Rightarrow> False
   | Some p \<Rightarrow> pbc_rmessage_new [] p (cstr ''Person'') (Some (wmsg (replicate 19 (WBit32 8 1)) @ 7 # []))
        (int (length (wmsg (replicate 19 (WBit32 8 1))) + 1)) 0
      = Some (p\<lparr>env_lasterror := ''rmessage decode context error''\<rparr>, 0 + 1, None)
    \<and> pbc_decode (\<lambda>e u. u @ [e]) [] p (cstr ''Person'') (Some (wmsg (replicate 19 (WBit32 8 1)) @ 7 # []))
        (int (length (wmsg (replicate 19 (WBit32 8 1))) + 1)) [] 0
      = Some (p\<lparr>env_lasterror := ''decode context error''\<rparr>, [], - int (length (replicate 19 (WBit32 8 1))) - 1, 0)"
proof -
  obtain p s msg where p: "person_env = Some p" "pbcP_get_message p (cstr ''Person'') = Some (Some 0)" "rd (st_messages p) 0 = Some msg"
    by (rule person_written)
  have "\<forall>f \<in> set (replicate 19 (WBit32 8 1)). wvalid f" "INNER_ATOM \<le> length (replicate 19 (WBit32 8 1))"
    "length (wmsg (replicate 19 (WBit32 8 1))) < 2 ^ 30"
    by (simp_all add: wvalid_def INNER_ATOM_def PBC_CONTEXT_CAP_def wmsg_def length_concat map_replicate sum_list_replicate wenc_def leb.simps)
  from rmessage_new_leaks [OF p(2,3) this] show ?thesis unfolding p(1) option.case .
qed


text \<open>
  A field that is not repeated but occurs twice is entered twice into the map, although the
  format asks for its last value: reading it gives the first one, and when the hash of its name is
  even, a client's loop over \<open>pbc_rmessage_next\<close> never ends, since the key after the field's name is
  the name again.\<close>

theorem rmessage_next_cycles:
  assumes "pbcP_get_message p name = Some (Some t)" and "rd (st_messages p) t = Some msg"
    and "pbcM_ip_query (pm_id msg) (int n) = Some (Some fi)" and "rd (st_fields p) fi = Some f" and "n < 2 ^ 28"
    and "single_label f" and "pf_type f = PTYPE_INT32"
    and "calc_hash (pf_name f) AND 1 = 0" and "calc_hash (pf_name f) \<noteq> 0"
  shows "\<exists>g' rs m. pbc_rmessage_new junk p name (Some (wmsg [WVarint n v, WVarint n w] @ rest)) (int (length (wmsg [WVarint n v, WVarint n w]))) g
      = Some (p, g', Some (rs, m))
    \<and> pbc_rmessage_next rs m None = Some (PBC_INT, Some (pf_name f))
    \<and> pbc_rmessage_next rs m (Some (pf_name f)) = Some (PBC_INT, Some (pf_name f))
    \<and> pbc_rmessage_integer rs m (pf_name f) 0 = Some (ll_low (ll_of v), ll_hi (ll_of v))"
proof -
  let ?fs = "[WVarint n v, WVarint n w]"
  define sz where "sz = int (length (wmsg ?fs))"
  have v: "\<forall>fl \<in> set ?fs. wvalid fl" using assms(5) by (simp add: wvalid_def)
  have "length (leb (8 * n)) \<le> 5" by (rule length_leb_32) (use assms(5) in simp)
  then have l: "length (wmsg ?fs) \<le> 40"
    using length_encode [of v] length_encode [of w] by (simp add: wmsg_def wenc_def)
  then have l': "length (wmsg ?fs) < 2 ^ 31" "sz \<le> 2 ^ 30" by (simp_all add: sz_def)
  obtain g1 h where h: "pbcH_new sz g = Some (g1, h)" using heap_new_total [OF l'(2)] by blast
  from open_fields [OF v _ l'(1), of junk rest g1] obtain ctx g2 where
    o: "pbcC_open junk (Some (wmsg ?fs @ rest)) sz g1 = Some (2, ctx, g2)" "ctx_atoms ctx = watoms 0 ?fs" by (auto simp: sz_def)
  have ne: "sz \<noteq> 0" using o(1) by (auto simp: pbcC_open_def)
  define a1 a2 where "a1 = watom 0 (WVarint n v)" and "a2 = watom (length (wenc (WVarint n v))) (WVarint n w)"
  have atoms: "ctx_atoms ctx = [a1, a2]" using o(2) by (simp add: a1_def a2_def)
  have id: "atom_id a1 = int n" "atom_id a2 = int n"
    using atom_id_watom [of "WVarint n v"] atom_id_watom [of "WVarint n w"] assms(5) by (simp_all add: a1_def a2_def)
  have var: "atom_var p f a1 = Some (Some (VInt (ll_low (ll_of v)) (ll_hi (ll_of v))))"
    "atom_var p f a2 = Some (Some (VInt (ll_low (ll_of w)) (ll_hi (ll_of w))))"
    using assms(7) by (simp_all add: atom_var_def a1_def a2_def watom_def)
  have read: "read_atom sub msg memory a mp s = (case pbcM_sp_insert mp (pf_name f) (Some (length (rs_values s))) (hmalloc True SIZE_VAR (rs_mem s)) of None \<Rightarrow> None
      | Some (m, mp) \<Rightarrow> Some (\<lparr>rs_env = p, rs_mem = m, rs_values = rs_values s @ [\<lparr>rv_type = fi, rv_v = RVar x\<rparr>]\<rparr>, mp))"
    if "atom_id a = int n" "atom_var p f a = Some (Some x)" "rs_env s = p" for sub memory a mp s x
    using that assms(3,4,6) by (cases s) (auto simp: SIZE_VAR_def read_atom_def single_value_def single_label_def read_value_def new_value_def split: option.split)
  define mp2 where "mp2 = \<lparr>sp_heap = True, sp_size = 2,
    sp_slot = [free_slot\<lparr>spk := Some (pf_name f), spp := Some 0, sph := calc_hash (pf_name f), spn := 2\<rparr>,
      free_slot\<lparr>spk := Some (pf_name f), spp := Some (1 :: nat), sph := calc_hash (pf_name f)\<rparr>]\<rparr>"
  note two = two_slots(1) [OF assms(8,9), where a = "0 :: nat" and hp = True]
    two_slots(2-5) [OF assms(8,9), where a = 0 and b = "1 :: nat" and hp = True, folded mp2_def]
  let ?vs = "[\<lparr>rv_type = fi, rv_v = RVar (VInt (ll_low (ll_of v)) (ll_hi (ll_of v)))\<rparr>,
    \<lparr>rv_type = fi, rv_v = RVar (VInt (ll_low (ll_of w)) (ll_hi (ll_of w)))\<rparr>]"
  have "\<exists>m. read_atoms sub msg memory [a1, a2] \<lparr>sp_heap = True, sp_size = 0, sp_slot = [free_slot, free_slot]\<rparr>
      \<lparr>rs_env = p, rs_mem = m0, rs_values = []\<rparr> = Some (\<lparr>rs_env = p, rs_mem = m, rs_values = ?vs\<rparr>, mp2)" for sub memory m0
    by (simp add: read [OF id(1) var(1)] read [OF id(2) var(2)] two(1,2) [unfolded One_nat_def])
  then obtain m where r: "read_atoms (rmessage_new (nat sz) junk) msg (wmsg ?fs @ rest) [a1, a2]
      \<lparr>sp_heap = True, sp_size = 0, sp_slot = [free_slot, free_slot]\<rparr>
      \<lparr>rs_env = p, rs_mem = hmalloc True 64 (hmalloc True 32 \<lparr>mem_g = g2, mem_heap = h\<rparr>), rs_values = []\<rparr>
      = Some (\<lparr>rs_env = p, rs_mem = m, rs_values = ?vs\<rparr>, mp2)" by blast
  let ?rs = "\<lparr>rs_env = p, rs_mem = hmalloc True 24 (m\<lparr>mem_g := pbcC_close ctx (mem_g m)\<rparr>), rs_values = ?vs\<rparr>"
  let ?m = "\<lparr>rm_msg = Some t, rm_index = Some mp2\<rparr>"
  have "rmessage_new (nat sz + 1) junk (Some t) (Some (wmsg ?fs @ rest)) sz
      \<lparr>rs_env = p, rs_mem = \<lparr>mem_g = g1, mem_heap = h\<rparr>, rs_values = []\<rparr>
      = Some (\<lparr>rs_env = p, rs_mem = m\<lparr>mem_g := pbcC_close ctx (mem_g m)\<rparr>, rs_values = ?vs\<rparr>, ?m)"
    using o(1) ne assms(2) r by (simp add: rs_g_def sp_new_2 atoms Let_def del: read_atoms.simps)
  then have "pbc_rmessage_new junk p name (Some (wmsg ?fs @ rest)) sz g = Some (p, mem_g (rs_mem ?rs), Some (?rs, ?m))"
    by (simp add: pbc_rmessage_new_def assms(1) h Let_def del: rmessage_new.simps)
  moreover have "pbcP_type False p (Some f) = Some (PBC_INT, None)"
    using assms(6,7) by (simp add: pbcP_type_def single_label_def)
  then have "pbc_rmessage_next ?rs ?m None = Some (PBC_INT, Some (pf_name f))"
    "pbc_rmessage_next ?rs ?m (Some (pf_name f)) = Some (PBC_INT, Some (pf_name f))"
    by (simp_all add: pbc_rmessage_next_def two(4,5) field_of_def assms(4))
  moreover have "pbc_rmessage_integer ?rs ?m (pf_name f) 0 = Some (ll_low (ll_of v), ll_hi (ll_of v))"
    using assms(6,7) by (simp add: pbc_rmessage_integer_def type_and_var_def rvalue_of_def two(3) field_of_def assms(4)
      var_at_def is_array_def single_label_def var_low_def var_hi_def)
  ultimately show ?thesis unfolding sz_def by blast
qed


lemma rmessage_next_cycles_witness:
  "case person_env of None \<Rightarrow> False
   | Some p \<Rightarrow> \<exists>g' rs m. pbc_rmessage_new [] p (cstr ''Person'') (Some (wmsg [WVarint 2 5, WVarint 2 6] @ []))
        (int (length (wmsg [WVarint 2 5, WVarint 2 6]))) 0 = Some (p, g', Some (rs, m))
    \<and> pbc_rmessage_next rs m None = Some (PBC_INT, Some (pf_name (person_fields ! 1)))
    \<and> pbc_rmessage_next rs m (Some (pf_name (person_fields ! 1))) = Some (PBC_INT, Some (pf_name (person_fields ! 1)))
    \<and> pbc_rmessage_integer rs m (pf_name (person_fields ! 1)) 0 = Some (ll_low (ll_of 5), ll_hi (ll_of 5))"
proof -
  have "case person_env of None \<Rightarrow> False
   | Some p \<Rightarrow> pbcP_get_message p (cstr ''Person'') = Some (Some 0) \<and> rd (st_fields p) 1 = Some (person_fields ! 1)
      \<and> (case rd (st_messages p) 0 of None \<Rightarrow> False | Some msg \<Rightarrow> pbcM_ip_query (pm_id msg) (int 2) = Some (Some 1))"
    by code_simp
  then obtain p msg where p: "person_env = Some p" "pbcP_get_message p (cstr ''Person'') = Some (Some 0)" "rd (st_messages p) 0 = Some msg"
    "pbcM_ip_query (pm_id msg) (int 2) = Some (Some 1)" "rd (st_fields p) 1 = Some (person_fields ! 1)" by (auto split: option.splits)
  have f: "single_label (person_fields ! 1)" "pf_type (person_fields ! 1) = PTYPE_INT32"
    "calc_hash (pf_name (person_fields ! 1)) AND 1 = 0" "calc_hash (pf_name (person_fields ! 1)) \<noteq> 0"
    unfolding single_label_def by code_simp+
  show ?thesis unfolding p(1) option.case by (rule rmessage_next_cycles [OF p(2-5) _ f]) simp
qed

end
