(* ===== verification/LogCore.thy ===== *)
theory LogCore
  imports Prelude
begin

section \<open>The logger (lua-log.c)\<close>

text \<open>
  Lua threads append lines to a buffer under a mutex; a full buffer is moved to a list, and a
  worker thread takes the list and the current buffer every few seconds, or when it is signalled,
  and writes them to a file. The structure \<open>inst\<close> is a record with the same fields; buffers are
  linked by pointers, which are numbers into a heap \<open>lg_heap\<close> of \<open>calloc\<close>ed blocks, of which the
  bytes used are kept. The file system and the clock are the parameter \<open>os\<close> of the operations
  that use them; what was written is kept in \<open>lg_out\<close>, newest last, the files that are open in
  \<open>lg_open\<close>, all that were opened, and so created, in \<open>lg_files\<close>, newest first. A failed \<open>assert\<close> and an access to no block are \<open>None\<close>; \<open>exit(EXIT_FAILURE)\<close> is the
  value \<open>Exit\<close>.
\<close>

definition LOG_MAX :: nat where "LOG_MAX = 4 * 1024"
definition LOG_BUFFER_SIZE :: nat where "LOG_BUFFER_SIZE = 4 * 1024 * 1024"
definition ONE_MB :: int where "ONE_MB = 1024 * 1024"
definition DEFAULT_ROLL_SIZE :: int where "DEFAULT_ROLL_SIZE = 1024 * ONE_MB"
definition DEFAULT_INTERVAL :: int where "DEFAULT_INTERVAL = 5"

datatype log_level = DEBUG | INFO | WARNING | ERROR | FATAL

record buffer =
  bf_next :: "nat option"
  bf_data :: "byte list"

datatype handle = Null | Std | File cstring

record logger =
  lg_handle :: handle
  lg_loglevel :: int
  lg_rollsize :: int
  lg_basename :: "byte list"
  lg_dirname :: "byte list"
  lg_written :: nat
  lg_roll_mday :: int
  lg_interval :: int
  lg_roll_index :: int
  lg_print :: bool
  lg_curr :: nat
  lg_next :: "nat option"
  lg_head :: "nat option"
  lg_tail :: "nat option"
  lg_size :: int
  lg_running :: bool
  lg_heap :: "nat \<Rightarrow> buffer option"
  lg_fresh :: nat
  lg_open :: "cstring list"
  lg_files :: "cstring list"
  lg_out :: "(handle \<times> byte list) list"

text \<open>
  \<open>os_dir\<close>: the directory exists, was missing and its creation succeeds or fails, or cannot be
  opened; \<open>os_fopen\<close>: which paths can be opened; \<open>os_time\<close> and \<open>os_stamp\<close>: the time in the formats of
  the file names and of the line about dropped logs.\<close>

datatype dir_status = DirExists | DirMissing bool | DirError

record os =
  os_dir :: dir_status
  os_fopen :: "cstring \<Rightarrow> bool"
  os_mday :: int
  os_time :: cstring
  os_stamp :: cstring

datatype 'a outcome = Return 'a | Exit

text \<open>A value of type \<open>lua_Integer\<close> or a product stored in an \<open>int\<close>.\<close>

definition as_int :: "int \<Rightarrow> int" where
  "as_int n = sint (of_int n :: u32)"

subsection \<open>Blocks\<close>

definition zero_buffer :: buffer where
  "zero_buffer = \<lparr>bf_next = None, bf_data = []\<rparr>"

definition calloc_buffer :: "logger \<Rightarrow> logger \<times> nat" where
  "calloc_buffer lg = (lg\<lparr>lg_heap := (lg_heap lg)(lg_fresh lg \<mapsto> zero_buffer), lg_fresh := lg_fresh lg + 1\<rparr>, lg_fresh lg)"

definition set_buffer :: "nat \<Rightarrow> buffer \<Rightarrow> logger \<Rightarrow> logger" where
  "set_buffer a b lg = lg\<lparr>lg_heap := (lg_heap lg)(a \<mapsto> b)\<rparr>"

definition free_buffer :: "nat \<Rightarrow> logger \<Rightarrow> logger" where
  "free_buffer a lg = lg\<lparr>lg_heap := (lg_heap lg)(a := None)\<rparr>"

subsection \<open>File names and rolling\<close>

text \<open>\<open>snprintf\<close> into 128 bytes keeps 127.\<close>

definition get_log_filename :: "os \<Rightarrow> cstring \<Rightarrow> logger \<Rightarrow> logger \<times> cstring" where
  "get_log_filename os base lg =
     (lg\<lparr>lg_roll_index := lg_roll_index lg + 1\<rparr>,
      take 127 (base @ os_time os @ cstr ''-'' @ decimal_int (lg_roll_index lg) @ cstr ''.log''))"

definition fclose_file :: "handle \<Rightarrow> logger \<Rightarrow> logger" where
  "fclose_file h lg = (case h of File path \<Rightarrow> lg\<lparr>lg_open := remove1 path (lg_open lg)\<rparr> | _ \<Rightarrow> lg)"

text \<open>\<open>rollsize\<close> is an \<open>int\<close> and is compared as a \<open>size_t\<close>.\<close>

definition as_size :: "int \<Rightarrow> nat" where
  "as_size n = unat (of_int n :: u64)"

text \<open>The loop of \<open>rollfile\<close>, which does not return when it closes every file that it opens.\<close>

partial_function (option) roll_loop :: "os \<Rightarrow> logger \<Rightarrow> logger option" where
  "roll_loop os lg = do {
     dir \<leftarrow> c_string (lg_dirname lg);
     base \<leftarrow> c_string (lg_basename lg);
     let (lg, name) = get_log_filename os base lg;
     let path = take 127 (dir @ cstr ''/'' @ name);
     if \<not> os_fopen os path then Some (lg\<lparr>lg_handle := Std\<rparr>)
     else do {
       let lg = lg\<lparr>lg_handle := File path, lg_open := path # lg_open lg, lg_files := path # lg_files lg\<rparr>;
       if lg_written lg \<ge> as_size (lg_rollsize lg) then roll_loop os ((fclose_file (File path) lg)\<lparr>lg_written := 0\<rparr>)
       else Some (lg\<lparr>lg_roll_mday := os_mday os\<rparr>) } }"

definition rollfile :: "os \<Rightarrow> logger \<Rightarrow> logger outcome option" where
  "rollfile os lg =
     (if lg_handle lg = Std then Some (Return lg)
      else do {
        let lg = (if lg_handle lg \<noteq> Null \<and> lg_written lg > 0 then fclose_file (lg_handle lg) lg else lg);
        if os_dir os = DirError \<or> os_dir os = DirMissing False then Some Exit
        else map_option Return (roll_loop os lg) })"

subsection \<open>Appending\<close>

definition append_bytes :: "byte list \<Rightarrow> logger \<Rightarrow> logger option" where
  "append_bytes logline lg = do {
     b \<leftarrow> lg_heap lg (lg_curr lg);
     if length (bf_data b) + length logline > LOG_BUFFER_SIZE then None
     else Some (set_buffer (lg_curr lg) (b\<lparr>bf_data := bf_data b @ logline\<rparr>) lg) }"

text \<open>The current buffer goes to the end of the list.\<close>

definition queue_curr :: "logger \<Rightarrow> logger option" where
  "queue_curr lg = do {
     lg \<leftarrow> (case lg_head lg of
        None \<Rightarrow> if lg_tail lg \<noteq> None then None else Some (lg\<lparr>lg_head := Some (lg_curr lg), lg_tail := Some (lg_curr lg)\<rparr>)
      | Some _ \<Rightarrow> do {
          tl \<leftarrow> lg_tail lg;
          b \<leftarrow> lg_heap lg tl;
          Some ((set_buffer tl (b\<lparr>bf_next := Some (lg_curr lg)\<rparr>) lg)\<lparr>lg_tail := Some (lg_curr lg)\<rparr>) });
     let lg = lg\<lparr>lg_size := lg_size lg + 1\<rparr>;
     tl \<leftarrow> lg_tail lg;
     b \<leftarrow> lg_heap lg tl;
     if bf_next b \<noteq> None then None else Some lg }"

text \<open>The spare buffer or a new one becomes the current buffer, linked behind the old one.\<close>

definition next_curr :: "logger \<Rightarrow> logger option" where
  "next_curr lg = do {
     let (lg, n) = (case lg_next lg of Some n \<Rightarrow> (lg\<lparr>lg_next := None\<rparr>, n) | None \<Rightarrow> calloc_buffer lg);
     b \<leftarrow> lg_heap lg (lg_curr lg);
     Some ((set_buffer (lg_curr lg) (b\<lparr>bf_next := Some n\<rparr>) lg)\<lparr>lg_curr := n\<rparr>) }"

definition append :: "byte list \<Rightarrow> logger \<Rightarrow> logger option" where
  "append logline lg = do {
     b \<leftarrow> lg_heap lg (lg_curr lg);
     if length (bf_data b) + length logline < LOG_BUFFER_SIZE then append_bytes logline lg
     else do {
       lg \<leftarrow> queue_curr lg;
       lg \<leftarrow> next_curr lg;
       append_bytes logline lg } }"

subsection \<open>The worker thread\<close>

text \<open>
  The local variables of \<open>worker_func\<close> and the point it has reached: before it starts, at the head
  of the loop, in front of the critical section, in \<open>pthread_cond_timedwait\<close>, behind the critical
  section, in front of the loop that writes, at the end.
\<close>

datatype worker_pc = WStart | WTop | WLock | WWait | WUnlocked | WWrite | WDone

record worker =
  wk_pc :: worker_pc
  wk_new1 :: "nat option"
  wk_new2 :: "nat option"
  wk_head :: "nat option"
  wk_tail :: "nat option"
  wk_size :: int

definition worker_init :: worker where
  "worker_init = \<lparr>wk_pc = WStart, wk_new1 = None, wk_new2 = None, wk_head = None, wk_tail = None, wk_size = 0\<rparr>"

definition worker_start :: "os \<Rightarrow> worker \<Rightarrow> logger \<Rightarrow> (logger \<times> worker) outcome option" where
  "worker_start os wk lg = do {
     r \<leftarrow> rollfile os lg;
     case r of Exit \<Rightarrow> Some Exit
     | Return lg \<Rightarrow>
         (let (lg, b1) = calloc_buffer lg; (lg, b2) = calloc_buffer lg
          in Some (Return (lg, wk\<lparr>wk_pc := WTop, wk_new1 := Some b1, wk_new2 := Some b2, wk_head := None, wk_tail := None, wk_size := 0\<rparr>))) }"

definition assert_empty :: "nat option \<Rightarrow> logger \<Rightarrow> unit option" where
  "assert_empty p lg = do { a \<leftarrow> p; b \<leftarrow> lg_heap lg a; if bf_data b = [] then Some () else None }"

text \<open>The critical section, once the wait is over: all buffers are taken and a spare one is left.\<close>

definition worker_swap :: "os \<Rightarrow> worker \<Rightarrow> logger \<Rightarrow> (logger \<times> worker) outcome option" where
  "worker_swap os wk lg = do {
     r \<leftarrow> (if lg_roll_mday lg \<noteq> os_mday os then rollfile os lg else Some (Return lg));
     case r of Exit \<Rightarrow> Some Exit
     | Return lg \<Rightarrow> do {
         let lg = (if lg_head lg = None then lg\<lparr>lg_head := Some (lg_curr lg), lg_tail := Some (lg_curr lg)\<rparr>
                   else lg\<lparr>lg_tail := Some (lg_curr lg)\<rparr>);
         let lg = lg\<lparr>lg_size := lg_size lg + 1\<rparr>;
         b1 \<leftarrow> wk_new1 wk;
         let lg = lg\<lparr>lg_curr := b1\<rparr>;
         let wk = wk\<lparr>wk_new1 := None, wk_head := lg_head lg, wk_tail := lg_tail lg, wk_size := lg_size lg\<rparr>;
         let lg = lg\<lparr>lg_head := None, lg_tail := None, lg_size := 0\<rparr>;
         let (lg, wk) = (if lg_next lg = None then (lg\<lparr>lg_next := wk_new2 wk\<rparr>, wk\<lparr>wk_new2 := None\<rparr>) else (lg, wk));
         Some (Return (lg, wk\<lparr>wk_pc := WUnlocked\<rparr>)) } }"

text \<open>The head of the loop, and the entry of the critical section with or without a wait.\<close>

definition worker_top :: "worker \<Rightarrow> logger \<Rightarrow> (logger \<times> worker) option" where
  "worker_top wk lg =
     (if \<not> lg_running lg then Some (lg, wk\<lparr>wk_pc := WDone\<rparr>)
      else if wk_head wk \<noteq> None then None
      else do {
        assert_empty (wk_new1 wk) lg;
        assert_empty (wk_new2 wk) lg;
        Some (lg, wk\<lparr>wk_pc := WLock\<rparr>) })"

definition worker_lock :: "os \<Rightarrow> worker \<Rightarrow> logger \<Rightarrow> (logger \<times> worker) outcome option" where
  "worker_lock os wk lg =
     (if lg_head lg = None then Some (Return (lg, wk\<lparr>wk_pc := WWait\<rparr>)) else worker_swap os wk lg)"

text \<open>A loop over a list of blocks, which ends because every block leads to another one or to NULL;
  the fuel is the number of blocks.\<close>

fun free_list :: "nat \<Rightarrow> nat option \<Rightarrow> logger \<Rightarrow> logger option" where
  "free_list k None lg = Some lg"
| "free_list 0 (Some a) lg = None"
| "free_list (Suc k) (Some a) lg = do { b \<leftarrow> lg_heap lg a; free_list k (bf_next b) (free_buffer a lg) }"

text \<open>More than 25 buffers: all but the first two are dropped, with a line that says so.\<close>

definition drop_message :: "cstring \<Rightarrow> int \<Rightarrow> byte list" where
  "drop_message time n =
     take 255 (cstr ''Dropped log messages at '' @ time @ cstr '', '' @ decimal_int n @ cstr '' larger buffers'' @ [10])"

definition worker_drop :: "os \<Rightarrow> worker \<Rightarrow> logger \<Rightarrow> (logger \<times> worker) option" where
  "worker_drop os wk lg =
     (if wk_size wk \<le> 0 then None
      else if wk_size wk > 25 then do {
        lg \<leftarrow> append (drop_message (os_stamp os) (wk_size wk - 2)) lg;
        hd \<leftarrow> wk_head wk;
        b \<leftarrow> lg_heap lg hd;
        new_tail \<leftarrow> bf_next b;
        b \<leftarrow> lg_heap lg new_tail;
        lg \<leftarrow> free_list (lg_fresh lg) (bf_next b) lg;
        b \<leftarrow> lg_heap lg new_tail;
        Some (set_buffer new_tail (b\<lparr>bf_next := None\<rparr>) lg,
              wk\<lparr>wk_tail := Some new_tail, wk_size := 2, wk_pc := WWrite\<rparr>) }
      else Some (lg, wk\<lparr>wk_pc := WWrite\<rparr>))"

fun write_list :: "nat \<Rightarrow> nat option \<Rightarrow> logger \<Rightarrow> logger option" where
  "write_list k None lg = Some lg"
| "write_list 0 (Some a) lg = None"
| "write_list (Suc k) (Some a) lg = do {
     b \<leftarrow> lg_heap lg a;
     write_list k (bf_next b)
       (if lg_handle lg = Null then lg
        else lg\<lparr>lg_out := lg_out lg @ [(lg_handle lg, bf_data b)], lg_written := lg_written lg + length (bf_data b)\<rparr>) }"

text \<open>A block from the head of the list, cleared, where there is none.\<close>

definition recycle :: "nat option \<Rightarrow> worker \<Rightarrow> logger \<Rightarrow> (nat option \<times> worker \<times> logger) option" where
  "recycle new wk lg =
     (if new \<noteq> None then Some (new, wk, lg)
      else if wk_size wk \<le> 0 then None
      else do {
        a \<leftarrow> wk_head wk;
        b \<leftarrow> lg_heap lg a;
        Some (Some a, wk\<lparr>wk_head := bf_next b, wk_size := wk_size wk - 1\<rparr>, set_buffer a zero_buffer lg) })"

definition worker_write :: "os \<Rightarrow> worker \<Rightarrow> logger \<Rightarrow> (logger \<times> worker) outcome option" where
  "worker_write os wk lg = do {
     lg \<leftarrow> write_list (lg_fresh lg) (wk_head wk) lg;
     r \<leftarrow> (if lg_written lg > as_size (lg_rollsize lg) then rollfile os lg else Some (Return lg));
     case r of Exit \<Rightarrow> Some Exit
     | Return lg \<Rightarrow> do {
         (b1, wk, lg) \<leftarrow> recycle (wk_new1 wk) wk lg;
         (b2, wk, lg) \<leftarrow> recycle (wk_new2 wk) wk lg;
         lg \<leftarrow> free_list (lg_fresh lg) (wk_head wk) lg;
         Some (Return (lg, wk\<lparr>wk_new1 := b1, wk_new2 := b2, wk_head := None, wk_tail := None, wk_size := 0, wk_pc := WTop\<rparr>)) } }"

subsection \<open>The functions for Lua\<close>

fun log_level_num :: "log_level \<Rightarrow> int" where
  "log_level_num DEBUG = 0" | "log_level_num INFO = 1" | "log_level_num WARNING = 2" | "log_level_num ERROR = 3" | "log_level_num FATAL = 4"

fun log_level_str :: "log_level \<Rightarrow> cstring" where
  "log_level_str DEBUG = cstr ''[DEBUG]''" | "log_level_str INFO = cstr ''[INFO]''" | "log_level_str WARNING = cstr ''[WARNING]''"
| "log_level_str ERROR = cstr ''[ERROR]''" | "log_level_str FATAL = cstr ''[FATAL]''"

text \<open>The line for a message, which is cut at \<open>LOG_MAX - 1\<close> bytes; \<open>time\<close> is date, time and milliseconds.\<close>

definition log_line :: "cstring \<Rightarrow> log_level \<Rightarrow> cstring \<Rightarrow> byte list" where
  "log_line time level log =
     take (LOG_MAX - 1) (cstr ''['' @ time @ cstr ''] '' @ log_level_str level @ cstr '' '' @ log @ [10])"

definition append_log :: "cstring \<Rightarrow> cstring \<Rightarrow> log_level \<Rightarrow> logger \<Rightarrow> logger option" where
  "append_log time log level lg = do {
     let msg = log_line time level log;
     lg \<leftarrow> append msg lg;
     Some (if lg_print lg then lg\<lparr>lg_out := lg_out lg @ [(Std, msg)]\<rparr> else lg) }"

text \<open>
  \<open>ldebug\<close> to \<open>lerror\<close> and the first part of \<open>lfatal\<close>; the Lua string has any bytes, and \<open>%s\<close> stops at
  the first NUL. Only \<open>lfatal\<close> does not look at the level.\<close>

definition llog :: "cstring \<Rightarrow> byte list option \<Rightarrow> log_level \<Rightarrow> logger \<Rightarrow> logger option" where
  "llog time data level lg =
     (if level \<noteq> FATAL \<and> lg_loglevel lg > log_level_num level then Some lg
      else case data of None \<Rightarrow> Some lg
      | Some data \<Rightarrow>
          if length data \<ge> LOG_MAX then Some lg
          else append_log time (takeWhile (\<lambda>c. c \<noteq> 0) data) level lg)"

text \<open>\<open>strncpy\<close> into an array of 64 bytes: no NUL is left when the string has 64 or more.\<close>

definition strncpy64 :: "cstring \<Rightarrow> byte list" where
  "strncpy64 s = take 64 (s @ replicate 64 0)"

definition linit :: "int \<Rightarrow> int \<Rightarrow> int \<Rightarrow> bool \<Rightarrow> cstring option \<Rightarrow> cstring option \<Rightarrow> logger" where
  "linit loglevel rollsize interval print dirname basename =
     (let r = as_int rollsize; i = as_int interval
      in \<lparr>lg_handle = Null, lg_loglevel = as_int loglevel,
          lg_rollsize = (if r > 0 then as_int (r * ONE_MB) else DEFAULT_ROLL_SIZE),
          lg_basename = strncpy64 (case basename of None \<Rightarrow> cstr ''default'' | Some s \<Rightarrow> s),
          lg_dirname = strncpy64 (case dirname of None \<Rightarrow> cstr ''.'' | Some s \<Rightarrow> s),
          lg_written = 0, lg_roll_mday = 0, lg_interval = (if i > 0 then i else DEFAULT_INTERVAL), lg_roll_index = 0,
          lg_print = print, lg_curr = 0, lg_next = Some 1, lg_head = None, lg_tail = None, lg_size = 0, lg_running = True,
          lg_heap = [0 \<mapsto> zero_buffer, 1 \<mapsto> zero_buffer], lg_fresh = 2, lg_open = [], lg_files = [], lg_out = []\<rparr>)"

text \<open>\<open>log_exit\<close> stops the worker, waits for its end and closes the file.\<close>

definition log_stop :: "logger \<Rightarrow> logger" where
  "log_stop lg = lg\<lparr>lg_running := False\<rparr>"

definition log_close :: "logger \<Rightarrow> logger" where
  "log_close lg = (if lg_handle lg \<noteq> Null then fclose_file (lg_handle lg) lg else lg)"

subsection \<open>The threads together\<close>

text \<open>
  The steps of the program: an append, under the mutex, by some Lua thread; the steps of the
  worker; the two halves of \<open>log_exit\<close>. The end of a wait by a signal, by the time or spuriously is
  one step. Between the critical section and the head of the loop the worker touches only blocks
  that nobody else can reach, and the file; only the line about dropped logs is appended under
  the mutex. \<open>LExited\<close> is the process after \<open>exit\<close>, \<open>LClosed\<close> the logger after \<open>log_exit\<close>.
\<close>

definition worker_step :: "os \<Rightarrow> worker \<Rightarrow> logger \<Rightarrow> (logger \<times> worker) outcome option" where
  "worker_step os wk lg =
     (case wk_pc wk of
        WStart \<Rightarrow> worker_start os wk lg
      | WTop \<Rightarrow> map_option Return (worker_top wk lg)
      | WLock \<Rightarrow> worker_lock os wk lg
      | WWait \<Rightarrow> worker_swap os wk lg
      | WUnlocked \<Rightarrow> map_option Return (worker_drop os wk lg)
      | WWrite \<Rightarrow> worker_write os wk lg
      | WDone \<Rightarrow> None)"

datatype lstate = LRun logger worker | LExited | LClosed logger

datatype llabel = Log "byte list" | Work os | Stop | Join

definition after_work :: "(logger \<times> worker) outcome \<Rightarrow> lstate" where
  "after_work r = (case r of Exit \<Rightarrow> LExited | Return (lg, wk) \<Rightarrow> LRun lg wk)"

inductive lstep :: "lstate \<Rightarrow> llabel \<Rightarrow> lstate \<Rightarrow> bool" where
  Append: "length line < LOG_MAX \<Longrightarrow> append line lg = Some lg' \<Longrightarrow> lstep (LRun lg wk) (Log line) (LRun lg' wk)"
| Work: "worker_step os wk lg = Some r \<Longrightarrow> lstep (LRun lg wk) (Work os) (after_work r)"
| Stop: "lg_running lg \<Longrightarrow> lstep (LRun lg wk) Stop (LRun (log_stop lg) wk)"
| Join: "\<not> lg_running lg \<Longrightarrow> wk_pc wk = WDone \<Longrightarrow> lstep (LRun lg wk) Join (LClosed (log_close lg))"

inductive_cases lstep_runE: "lstep (LRun lg wk) l s'"
inductive_simps lstep_exited: "lstep LExited l s'"
inductive_simps lstep_closed: "lstep (LClosed lg) l s'"
inductive_simps lstep_log: "lstep (LRun lg wk) (Log line) s'"
inductive_simps lstep_work: "lstep (LRun lg wk) (Work os) s'"
inductive_simps lstep_stop: "lstep (LRun lg wk) Stop s'"
inductive_simps lstep_join: "lstep (LRun lg wk) Join s'"

inductive lrun :: "lstate \<Rightarrow> llabel list \<Rightarrow> lstate \<Rightarrow> bool" where
  Nil: "lrun s [] s"
| Snoc: "lrun s ls s' \<Longrightarrow> lstep s' l s'' \<Longrightarrow> lrun s (ls @ [l]) s''"

end
