(* ===== verification/LogInv.thy ===== *)
theory LogInv
  imports LogCore
begin

section \<open>The logger: what every reachable state satisfies\<close>

text \<open>
  The blocks of the logger form disjoint lists: the buffers that wait for the worker, followed by
  the current one; those the worker has taken; and the spare ones. No assertion of the code fails,
  no block is lost, and the bytes written and the bytes that wait are together the bytes logged.
\<close>

subsection \<open>Lists of blocks\<close>

type_synonym heap_map = "nat \<Rightarrow> buffer option"

text \<open>The blocks \<open>xs\<close> are linked, and the last one leads to \<open>p\<close>.\<close>

fun linked_to :: "heap_map \<Rightarrow> nat list \<Rightarrow> nat option \<Rightarrow> bool" where
  "linked_to h [] p = True"
| "linked_to h [a] p = (\<exists>d. h a = Some \<lparr>bf_next = p, bf_data = d\<rparr>)"
| "linked_to h (a # b # xs) p = ((\<exists>d. h a = Some \<lparr>bf_next = Some b, bf_data = d\<rparr>) \<and> linked_to h (b # xs) p)"

definition data_of :: "heap_map \<Rightarrow> nat \<Rightarrow> byte list" where
  "data_of h a = (case h a of None \<Rightarrow> [] | Some b \<Rightarrow> bf_data b)"

definition datas :: "heap_map \<Rightarrow> nat list \<Rightarrow> byte list" where
  "datas h xs = concat (map (data_of h) xs)"

lemma linked_Cons: "linked_to h (a # xs) p \<longleftrightarrow>
    h a = Some \<lparr>bf_next = (case xs of [] \<Rightarrow> p | b # _ \<Rightarrow> Some b), bf_data = data_of h a\<rparr> \<and> linked_to h xs p"
  by (cases xs) (auto simp: data_of_def)

lemma linked_append: "linked_to h (xs @ ys) p \<longleftrightarrow> linked_to h xs (case ys of [] \<Rightarrow> p | b # _ \<Rightarrow> Some b) \<and> linked_to h ys p"
proof (induction xs)
  case (Cons a xs)
  then show ?case by (cases xs) (auto simp: linked_Cons split: list.split)
qed simp

lemma linked_alloc: "linked_to h xs p \<Longrightarrow> a \<in> set xs \<Longrightarrow> h a \<noteq> None"
  by (induction xs) (auto simp: linked_Cons)

lemma linked_frame: "(\<And>a. a \<in> set xs \<Longrightarrow> h' a = h a) \<Longrightarrow> linked_to h' xs p = linked_to h xs p"
  by (induction xs) (auto simp: linked_Cons data_of_def)

lemma data_frame: "h' a = h a \<Longrightarrow> data_of h' a = data_of h a"
  by (simp add: data_of_def)

lemma datas_frame: "(\<And>a. a \<in> set xs \<Longrightarrow> h' a = h a) \<Longrightarrow> datas h' xs = datas h xs"
  by (induction xs) (auto simp: datas_def data_of_def)

lemma datas_simps [simp]: "datas h [] = []" "datas h (a # xs) = data_of h a @ datas h xs" "datas h (xs @ ys) = datas h xs @ datas h ys"
  by (simp_all add: datas_def)

definition first_of :: "nat list \<Rightarrow> nat option" where
  "first_of xs = (case xs of [] \<Rightarrow> None | a # _ \<Rightarrow> Some a)"

definition last_of :: "nat list \<Rightarrow> nat option" where
  "last_of xs = (if xs = [] then None else Some (last xs))"

lemma free_list_ok:
  assumes "linked_to (lg_heap lg) xs None" and "distinct xs" and "length xs \<le> k"
  shows "free_list k (first_of xs) lg = Some (lg\<lparr>lg_heap := \<lambda>a. if a \<in> set xs then None else lg_heap lg a\<rparr>)"
  using assms
proof (induction xs arbitrary: lg k)
  case (Cons a xs)
  obtain j where j: "k = Suc j" using Cons.prems(3) by (cases k) auto
  have h: "lg_heap lg a = Some \<lparr>bf_next = first_of xs, bf_data = data_of (lg_heap lg) a\<rparr>" "linked_to (lg_heap lg) xs None"
    using Cons.prems(1) by (simp_all add: linked_Cons first_of_def)
  have "linked_to (lg_heap (free_buffer a lg)) xs None"
    using h(2) Cons.prems(2) by (subst linked_frame [where h = "lg_heap lg"]) (auto simp: free_buffer_def)
  from Cons.IH [OF this, of j] Cons.prems(2,3) j h(1)
  show ?case by (simp add: first_of_def [of "a # xs"]) (auto simp: free_buffer_def intro!: arg_cong [where f = "\<lambda>h. lg\<lparr>lg_heap := h\<rparr>"])
qed (simp add: first_of_def)

definition put_out :: "byte list list \<Rightarrow> logger \<Rightarrow> logger" where
  "put_out bss lg =
     (if lg_handle lg = Null then lg
      else lg\<lparr>lg_out := lg_out lg @ map (Pair (lg_handle lg)) bss, lg_written := lg_written lg + length (concat bss)\<rparr>)"

lemma write_list_ok:
  assumes "linked_to (lg_heap lg) xs None" and "length xs \<le> k"
  shows "write_list k (first_of xs) lg = Some (put_out (map (data_of (lg_heap lg)) xs) lg)"
  using assms
proof (induction xs arbitrary: lg k)
  case Nil
  then show ?case by (simp add: first_of_def put_out_def)
next
  case (Cons a xs)
  obtain j where j: "k = Suc j" using Cons.prems(2) by (cases k) auto
  have h: "lg_heap lg a = Some \<lparr>bf_next = first_of xs, bf_data = data_of (lg_heap lg) a\<rparr>" "linked_to (lg_heap lg) xs None"
    using Cons.prems(1) by (simp_all add: linked_Cons first_of_def)
  let ?lg = "put_out [data_of (lg_heap lg) a] lg"
  have heap: "lg_heap ?lg = lg_heap lg" by (simp add: put_out_def)
  have "write_list j (first_of xs) ?lg = Some (put_out (map (data_of (lg_heap lg)) xs) ?lg)"
    using Cons.IH [of ?lg j] h(2) Cons.prems(2) j heap by simp
  moreover have "put_out (map (data_of (lg_heap lg)) xs) ?lg = put_out (map (data_of (lg_heap lg)) (a # xs)) lg"
    by (simp add: put_out_def)
  moreover have "write_list (Suc j) (Some a) lg = write_list j (first_of xs) ?lg" using h(1) by (simp add: put_out_def)
  ultimately show ?case using j by (simp add: first_of_def [of "a # xs"])
qed

subsection \<open>The invariant\<close>

definition opt_list :: "nat option \<Rightarrow> nat list" where
  "opt_list p = (case p of None \<Rightarrow> [] | Some a \<Rightarrow> [a])"

lemma opt_list_simps [simp]: "opt_list None = []" "opt_list (Some a) = [a]"
  by (simp_all add: opt_list_def)

text \<open>
  The blocks \<open>L\<close> wait, full but for less than a line, in front of the current one; there is a spare
  block unless some wait.\<close>

definition shared :: "logger \<Rightarrow> nat list \<Rightarrow> bool" where
  "shared lg L \<longleftrightarrow>
     linked_to (lg_heap lg) (L @ [lg_curr lg]) None \<and> lg_head lg = first_of L \<and> lg_tail lg = last_of L \<and> lg_size lg = int (length L)
     \<and> (\<forall>a \<in> set L. LOG_BUFFER_SIZE \<le> length (data_of (lg_heap lg) a) + LOG_MAX)
     \<and> length (data_of (lg_heap lg) (lg_curr lg)) < LOG_BUFFER_SIZE
     \<and> (lg_next lg = None \<longrightarrow> L \<noteq> [])"

text \<open>The blocks \<open>T\<close> are the worker's, and so are its two spare blocks.\<close>

definition taken :: "logger \<Rightarrow> worker \<Rightarrow> nat list \<Rightarrow> bool" where
  "taken lg wk T \<longleftrightarrow>
     (case wk_pc wk of
        WStart \<Rightarrow> T = [] \<and> wk_head wk = None \<and> wk_new1 wk = None \<and> wk_new2 wk = None
      | WUnlocked \<Rightarrow> T \<noteq> [] \<and> wk_new1 wk = None \<and> (wk_new2 wk = None \<longrightarrow> 2 \<le> length T)
      | WWrite \<Rightarrow> T \<noteq> [] \<and> wk_new1 wk = None \<and> (wk_new2 wk = None \<longrightarrow> 2 \<le> length T)
      | _ \<Rightarrow> T = [] \<and> wk_head wk = None \<and> wk_new1 wk \<noteq> None \<and> wk_new2 wk \<noteq> None)
     \<and> linked_to (lg_heap lg) T None \<and> wk_head wk = first_of T \<and> (T \<noteq> [] \<longrightarrow> wk_size wk = int (length T))
     \<and> (T \<noteq> [] \<longrightarrow> (\<forall>a \<in> set (butlast T). LOG_BUFFER_SIZE \<le> length (data_of (lg_heap lg) a) + LOG_MAX))"

definition spares :: "logger \<Rightarrow> worker \<Rightarrow> nat list" where
  "spares lg wk = opt_list (lg_next lg) @ opt_list (wk_new1 wk) @ opt_list (wk_new2 wk)"

definition separate :: "logger \<Rightarrow> worker \<Rightarrow> nat list \<Rightarrow> nat list \<Rightarrow> bool" where
  "separate lg wk L T \<longleftrightarrow>
     distinct (L @ lg_curr lg # T @ spares lg wk) \<and> (\<forall>a \<in> set (L @ lg_curr lg # T @ spares lg wk). a < lg_fresh lg)
     \<and> (\<forall>a \<in> set (spares lg wk). lg_heap lg a = Some zero_buffer)"

definition log_inv :: "logger \<Rightarrow> worker \<Rightarrow> nat list \<Rightarrow> nat list \<Rightarrow> bool" where
  "log_inv lg wk L T \<longleftrightarrow> shared lg L \<and> taken lg wk T \<and> separate lg wk L T"

text \<open>What appending leaves alone.\<close>

definition log_rest where
  "log_rest lg = (lg_handle lg, lg_rollsize lg, lg_basename lg, lg_dirname lg, lg_written lg, lg_roll_mday lg, lg_roll_index lg,
     lg_running lg, lg_open lg, lg_out lg)"

subsection \<open>Appending\<close>

lemma heap_curr: "shared lg L \<Longrightarrow> lg_heap lg (lg_curr lg) = Some \<lparr>bf_next = None, bf_data = data_of (lg_heap lg) (lg_curr lg)\<rparr>"
  by (simp add: shared_def linked_append linked_Cons)

lemma append_room:
  assumes inv: "log_inv lg wk L T" and len: "length (data_of (lg_heap lg) (lg_curr lg)) + length line < LOG_BUFFER_SIZE"
  shows "\<exists>lg'. append line lg = Some lg' \<and> log_inv lg' wk L T \<and> lg_curr lg' = lg_curr lg
    \<and> datas (lg_heap lg') (L @ [lg_curr lg]) = datas (lg_heap lg) (L @ [lg_curr lg]) @ line
    \<and> (\<forall>a \<in> set T. lg_heap lg' a = lg_heap lg a) \<and> log_rest lg' = log_rest lg"
proof -
  let ?c = "lg_curr lg" and ?d = "data_of (lg_heap lg) (lg_curr lg)"
  have sh: "shared lg L" and tk: "taken lg wk T" and sep: "separate lg wk L T" using inv by (simp_all add: log_inv_def)
  define lg' where "lg' = set_buffer ?c \<lparr>bf_next = None, bf_data = ?d @ line\<rparr> lg"
  have a: "append line lg = Some lg'" using heap_curr [OF sh] len by (simp add: append_def append_bytes_def lg'_def)
  have ne: "?c \<notin> set L" "?c \<notin> set T" "?c \<notin> set (spares lg wk)" using sep by (auto simp: separate_def)
  have other: "x \<noteq> ?c \<Longrightarrow> lg_heap lg' x = lg_heap lg x" for x by (simp add: set_buffer_def lg'_def)
  have hc: "lg_heap lg' ?c = Some \<lparr>bf_next = None, bf_data = ?d @ line\<rparr>" by (simp add: set_buffer_def lg'_def)
  have fields: "lg_curr lg' = ?c" "lg_head lg' = lg_head lg" "lg_tail lg' = lg_tail lg" "lg_size lg' = lg_size lg"
    "lg_next lg' = lg_next lg" "lg_fresh lg' = lg_fresh lg" "log_rest lg' = log_rest lg"
    by (simp_all add: lg'_def set_buffer_def log_rest_def)
  have frame: "linked_to (lg_heap lg') xs p = linked_to (lg_heap lg) xs p" "datas (lg_heap lg') xs = datas (lg_heap lg) xs"
    "\<forall>x \<in> set xs. data_of (lg_heap lg') x = data_of (lg_heap lg) x" if "?c \<notin> set xs" for xs p
  proof -
    have o: "lg_heap lg' x = lg_heap lg x" if "x \<in> set xs" for x using other \<open>?c \<notin> set xs\<close> that by metis
    show "linked_to (lg_heap lg') xs p = linked_to (lg_heap lg) xs p" by (rule linked_frame) (rule o)
    show "datas (lg_heap lg') xs = datas (lg_heap lg) xs" by (rule datas_frame) (rule o)
    show "\<forall>x \<in> set xs. data_of (lg_heap lg') x = data_of (lg_heap lg) x" using o by (simp add: data_of_def)
  qed
  have dc: "data_of (lg_heap lg') ?c = ?d @ line" by (simp add: data_of_def hc)
  have S: "shared lg' L" unfolding shared_def fields
    using sh frame [OF ne(1)] len dc hc by (simp add: shared_def linked_append linked_Cons)
  have "\<forall>x \<in> set (butlast T). data_of (lg_heap lg') x = data_of (lg_heap lg) x"
    using frame(3) [OF ne(2)] in_set_butlastD by metis
  then have K: "taken lg' wk T" using tk frame(1) [OF ne(2)] by (simp add: taken_def)
  have "spares lg' wk = spares lg wk" by (simp add: spares_def fields)
  moreover have "\<forall>a \<in> set (spares lg wk). lg_heap lg' a = Some zero_buffer"
    using sep ne(3) other unfolding separate_def by metis
  ultimately have "separate lg' wk L T" using sep unfolding separate_def fields by simp
  then have "log_inv lg' wk L T" using S K by (simp add: log_inv_def)
  moreover have "datas (lg_heap lg') (L @ [?c]) = datas (lg_heap lg) (L @ [?c]) @ line" using frame [OF ne(1)] dc by simp
  moreover have "\<forall>a \<in> set T. lg_heap lg' a = lg_heap lg a" using ne(2) other by metis
  moreover note fields(1,7)
  ultimately show ?thesis using a by blast
qed


lemma queue_curr_ok:
  assumes "shared lg L"
  shows "queue_curr lg = Some (lg\<lparr>lg_head := first_of (L @ [lg_curr lg]), lg_tail := Some (lg_curr lg), lg_size := lg_size lg + 1\<rparr>)"
proof (cases L rule: rev_cases)
  case Nil
  then show ?thesis using assms heap_curr [OF assms] by (simp add: queue_curr_def shared_def first_of_def last_of_def)
next
  case (snoc L' t)
  let ?b = "\<lparr>bf_next = Some (lg_curr lg), bf_data = data_of (lg_heap lg) t\<rparr>"
  have h: "lg_heap lg t = Some ?b" using assms snoc by (simp add: shared_def linked_append linked_Cons)
  then have "set_buffer t ?b lg = lg" by (simp add: set_buffer_def fun_upd_idem)
  moreover obtain a where "lg_head lg = Some a" "first_of (L @ [lg_curr lg]) = Some a"
    using assms snoc by (cases L') (simp_all add: shared_def first_of_def)
  moreover have "lg_tail lg = Some t" using assms snoc by (simp add: shared_def last_of_def)
  ultimately show ?thesis using h heap_curr [OF assms] by (simp add: queue_curr_def)
qed

text \<open>Buffers change over: \<open>n\<close> is the spare block or a new one.\<close>

lemma append_full:
  assumes inv: "log_inv lg wk L T" and len: "\<not> length (data_of (lg_heap lg) (lg_curr lg)) + length line < LOG_BUFFER_SIZE"
    and line: "length line < LOG_MAX"
  shows "\<exists>lg'. append line lg = Some lg' \<and> log_inv lg' wk (L @ [lg_curr lg]) T
    \<and> datas (lg_heap lg') (L @ [lg_curr lg, lg_curr lg']) = datas (lg_heap lg) (L @ [lg_curr lg]) @ line
    \<and> (\<forall>a \<in> set T. lg_heap lg' a = lg_heap lg a) \<and> log_rest lg' = log_rest lg"
proof -
  let ?c = "lg_curr lg" and ?d = "data_of (lg_heap lg) (lg_curr lg)"
  have sh: "shared lg L" and tk: "taken lg wk T" and sep: "separate lg wk L T" using inv by (simp_all add: log_inv_def)
  define n where "n = (case lg_next lg of Some n \<Rightarrow> n | None \<Rightarrow> lg_fresh lg)"
  define fr where "fr = (case lg_next lg of Some n \<Rightarrow> lg_fresh lg | None \<Rightarrow> lg_fresh lg + 1)"
  define h' where "h' = (lg_heap lg)(?c \<mapsto> \<lparr>bf_next = Some n, bf_data = ?d\<rparr>, n \<mapsto> \<lparr>bf_next = None, bf_data = line\<rparr>)"
  define lg' where "lg' = lg\<lparr>lg_head := first_of (L @ [?c]), lg_tail := Some ?c, lg_size := lg_size lg + 1,
    lg_next := None, lg_heap := h', lg_curr := n, lg_fresh := fr\<rparr>"
  let ?S = "spares lg wk"
  have nS: "n \<notin> set L" "n \<noteq> ?c" "n \<notin> set T" "n \<notin> set (opt_list (wk_new1 wk) @ opt_list (wk_new2 wk))"
    using sep by (auto simp: separate_def spares_def n_def split: option.splits)
  have nz: "lg_next lg = Some n \<Longrightarrow> lg_heap lg n = Some zero_buffer" using sep by (auto simp: separate_def spares_def)
  have ne: "?c \<notin> set L" "?c \<notin> set T" "?c \<notin> set ?S" using sep by (auto simp: separate_def)
  have short: "length line \<le> LOG_BUFFER_SIZE" using line by (simp add: LOG_MAX_def LOG_BUFFER_SIZE_def)
  have a: "append line lg = Some lg'"
  proof (cases "lg_next lg")
    case None
    then have "n = lg_fresh lg" "fr = lg_fresh lg + 1" by (simp_all add: n_def fr_def)
    then show ?thesis using queue_curr_ok [OF sh] heap_curr [OF sh] len None nS(2) short
      by (simp add: append_def next_curr_def calloc_buffer_def append_bytes_def set_buffer_def zero_buffer_def lg'_def h'_def fun_upd_twist)
  next
    case (Some m)
    then have "m = n" "fr = lg_fresh lg" by (simp_all add: n_def fr_def)
    then show ?thesis using queue_curr_ok [OF sh] heap_curr [OF sh] len Some nS(2) nz short
      by (simp add: append_def next_curr_def append_bytes_def set_buffer_def zero_buffer_def lg'_def h'_def)
  qed
  have other: "x \<noteq> ?c \<Longrightarrow> x \<noteq> n \<Longrightarrow> h' x = lg_heap lg x" for x by (simp add: h'_def)
  have hc: "h' ?c = Some \<lparr>bf_next = Some n, bf_data = ?d\<rparr>" "h' n = Some \<lparr>bf_next = None, bf_data = line\<rparr>" using nS(2) by (simp_all add: h'_def)
  have frame: "linked_to h' xs p = linked_to (lg_heap lg) xs p" "datas h' xs = datas (lg_heap lg) xs"
    "\<forall>x \<in> set xs. data_of h' x = data_of (lg_heap lg) x" if "?c \<notin> set xs" "n \<notin> set xs" for xs p
  proof -
    have o: "h' x = lg_heap lg x" if "x \<in> set xs" for x using other \<open>?c \<notin> set xs\<close> \<open>n \<notin> set xs\<close> that by metis
    show "linked_to h' xs p = linked_to (lg_heap lg) xs p" by (rule linked_frame) (rule o)
    show "datas h' xs = datas (lg_heap lg) xs" by (rule datas_frame) (rule o)
    show "\<forall>x \<in> set xs. data_of h' x = data_of (lg_heap lg) x" using o by (simp add: data_of_def)
  qed
  have dc: "data_of h' ?c = ?d" "data_of h' n = line" by (simp_all add: data_of_def hc)
  have fields: "lg_curr lg' = n" "lg_heap lg' = h'" "lg_next lg' = None" "lg_fresh lg' = fr" by (simp_all add: lg'_def)
  have "shared lg' (L @ [?c])" unfolding shared_def fields
    using sh frame [OF ne(1) nS(1)] len dc hc line
    by (simp add: shared_def linked_append linked_Cons lg'_def last_of_def LOG_MAX_def LOG_BUFFER_SIZE_def)
  moreover have "\<forall>x \<in> set (butlast T). data_of h' x = data_of (lg_heap lg) x"
    using frame(3) [OF ne(2) nS(3)] in_set_butlastD by metis
  then have "taken lg' wk T" using tk frame(1) [OF ne(2) nS(3)] by (simp add: taken_def fields)
  moreover have "separate lg' wk (L @ [?c]) T"
  proof -
    have sp: "spares lg' wk = opt_list (wk_new1 wk) @ opt_list (wk_new2 wk)" by (simp add: spares_def fields)
    have sub: "set (spares lg' wk) \<subseteq> set ?S" unfolding sp by (auto simp: spares_def)
    have fr: "lg_fresh lg \<le> fr" "n < fr" using sep by (auto simp: fr_def n_def separate_def spares_def split: option.splits)
    have "\<forall>a \<in> set (spares lg' wk). h' a = Some zero_buffer"
      using sep other sub ne(3) nS(4) unfolding separate_def sp by (metis subsetD)
    moreover have "distinct ((L @ [?c]) @ n # T @ spares lg' wk)"
      using sep nS unfolding separate_def sp by (auto simp: spares_def)
    moreover have "a < fr" if "a \<in> set (L @ lg_curr lg # T @ ?S)" for a
      using sep that fr(1) less_le_trans unfolding separate_def by blast
    then have "\<forall>a \<in> set ((L @ [?c]) @ n # T @ spares lg' wk). a < fr" using fr(2) sub by auto
    ultimately show ?thesis by (simp add: separate_def fields)
  qed
  moreover have "datas h' (L @ [?c, n]) = datas (lg_heap lg) (L @ [?c]) @ line" using frame [OF ne(1) nS(1)] dc by simp
  moreover have "\<forall>a \<in> set T. h' a = lg_heap lg a" using ne(2) nS(3) other by metis
  moreover have "log_rest lg' = log_rest lg" by (simp add: log_rest_def lg'_def)
  ultimately show ?thesis using a unfolding log_inv_def by (metis fields(1,2))
qed

lemma append_ok:
  assumes "log_inv lg wk L T" and "length line < LOG_MAX"
  shows "\<exists>lg' L'. append line lg = Some lg' \<and> log_inv lg' wk L' T
    \<and> datas (lg_heap lg') (L' @ [lg_curr lg']) = datas (lg_heap lg) (L @ [lg_curr lg]) @ line
    \<and> (\<forall>a \<in> set T. lg_heap lg' a = lg_heap lg a) \<and> log_rest lg' = log_rest lg"
proof (cases "length (data_of (lg_heap lg) (lg_curr lg)) + length line < LOG_BUFFER_SIZE")
  case True
  then show ?thesis using append_room [OF assms(1)] by metis
next
  case False
  from append_full [OF assms(1) False assms(2)] show ?thesis by (metis append.assoc append_Cons append_Nil)
qed

subsection \<open>Rolling the file\<close>

text \<open>The two names end and the size is not the one that makes every file too long.\<close>

definition log_cfg :: "logger \<Rightarrow> bool" where
  "log_cfg lg \<longleftrightarrow> c_string (lg_dirname lg) \<noteq> None \<and> c_string (lg_basename lg) \<noteq> None \<and> 0 < as_size (lg_rollsize lg)"

text \<open>What rolling leaves alone.\<close>

definition log_core where
  "log_core lg = (lg_heap lg, lg_fresh lg, lg_curr lg, lg_next lg, lg_head lg, lg_tail lg, lg_size lg, lg_running lg,
     lg_rollsize lg, lg_basename lg, lg_dirname lg, lg_out lg)"

lemma roll_loop_ok:
  assumes "log_cfg lg"
  shows "\<exists>lg'. roll_loop os lg = Some lg' \<and> log_core lg' = log_core lg \<and> lg_handle lg' \<noteq> Null"
proof -
  obtain d b where c: "c_string (lg_dirname lg) = Some d" "c_string (lg_basename lg) = Some b" and pos: "0 < as_size (lg_rollsize lg)"
    using assms by (auto simp: log_cfg_def)
  have short: "\<exists>lg'. roll_loop os lg1 = Some lg' \<and> log_core lg' = log_core lg1 \<and> lg_handle lg' \<noteq> Null"
    if "lg_written lg1 < as_size (lg_rollsize lg1)" "c_string (lg_dirname lg1) = Some d" "c_string (lg_basename lg1) = Some b" for lg1
    using that by (subst roll_loop.simps) (simp add: get_log_filename_def Let_def log_core_def del: take_append)
  show ?thesis
  proof (cases "lg_written lg < as_size (lg_rollsize lg)")
    case True
    with short c show ?thesis by blast
  next
    case False
    let ?path = "take 127 (d @ cstr ''/'' @ snd (get_log_filename os b lg))"
    show ?thesis
    proof (cases "os_fopen os ?path")
      case True
      let ?lg = "(fclose_file (File ?path) (fst (get_log_filename os b lg)\<lparr>lg_handle := File ?path, lg_open := ?path # lg_open lg, lg_files := ?path # lg_files lg\<rparr>))\<lparr>lg_written := 0\<rparr>"
      have "roll_loop os lg = roll_loop os ?lg" using c False True
        by (subst roll_loop.simps) (simp add: get_log_filename_def Let_def del: take_append)
      moreover have "log_core ?lg = log_core lg" by (simp add: get_log_filename_def fclose_file_def log_core_def del: take_append)
      ultimately show ?thesis using short [of ?lg] c pos by (simp add: log_core_def)
    next
      case False
      then show ?thesis using c by (subst roll_loop.simps) (simp add: get_log_filename_def Let_def log_core_def del: take_append)
    qed
  qed
qed

definition dir_ok :: "os \<Rightarrow> bool" where
  "dir_ok os \<longleftrightarrow> os_dir os = DirExists \<or> os_dir os = DirMissing True"

lemma rollfile_ok:
  assumes "log_cfg lg"
  shows "\<not> dir_ok os \<and> rollfile os lg = Some Exit
    \<or> (\<exists>lg'. rollfile os lg = Some (Return lg') \<and> log_core lg' = log_core lg \<and> lg_handle lg' \<noteq> Null)"
proof (cases "lg_handle lg = Std")
  case True
  then show ?thesis by (simp add: rollfile_def)
next
  case False
  let ?lg = "if lg_handle lg \<noteq> Null \<and> lg_written lg > 0 then fclose_file (lg_handle lg) lg else lg"
  have core: "log_core ?lg = log_core lg" by (simp add: log_core_def fclose_file_def split: handle.split)
  then have "log_cfg ?lg" using assms by (simp add: log_cfg_def log_core_def)
  from roll_loop_ok [OF this, of os] obtain lg' where
    r: "roll_loop os ?lg = Some lg'" "log_core lg' = log_core lg" "lg_handle lg' \<noteq> Null" using core by auto
  show ?thesis
  proof (cases "os_dir os = DirError \<or> os_dir os = DirMissing False")
    case True
    then show ?thesis using False by (auto simp: rollfile_def dir_ok_def Let_def)
  next
    case ok: False
    have "rollfile os lg = Some (Return lg')" using False ok r(1) unfolding rollfile_def Let_def by simp
    then show ?thesis using r by blast
  qed
qed

lemma log_inv_core: "log_core lg' = log_core lg \<Longrightarrow> log_inv lg' wk L T = log_inv lg wk L T"
  by (simp add: log_core_def log_inv_def shared_def taken_def separate_def spares_def)

end
