(* ===== verification/LogSteps.thy ===== *)
theory LogSteps
  imports LogInv
begin

section \<open>The logger: the steps of the worker\<close>

text \<open>
  Every step of the worker keeps the invariant, and nothing is lost or changes its place between
  the buffers and the file, unless more than 25 buffers have been taken at once.
\<close>

definition file_bytes :: "logger \<Rightarrow> byte list" where
  "file_bytes lg = concat (map snd (lg_out lg))"

definition content :: "logger \<Rightarrow> nat list \<Rightarrow> nat list \<Rightarrow> byte list" where
  "content lg L T = file_bytes lg @ datas (lg_heap lg) T @ datas (lg_heap lg) (L @ [lg_curr lg])"

definition log_ok :: "logger \<Rightarrow> worker \<Rightarrow> nat list \<Rightarrow> nat list \<Rightarrow> bool" where
  "log_ok lg wk L T \<longleftrightarrow> log_inv lg wk L T \<and> log_cfg lg \<and> (wk_pc wk \<noteq> WStart \<longrightarrow> lg_handle lg \<noteq> Null)"

text \<open>What a step of the worker does to the whole.\<close>

definition moves :: "logger \<Rightarrow> nat list \<Rightarrow> nat list \<Rightarrow> logger \<Rightarrow> worker \<Rightarrow> nat list \<Rightarrow> nat list \<Rightarrow> bool" where
  "moves lg L T lg' wk' L' T' \<longleftrightarrow>
     log_ok lg' wk' L' T' \<and> lg_running lg' = lg_running lg \<and> (\<exists>bs. file_bytes lg' = file_bytes lg @ bs) \<and> (length T \<le> 25 \<longrightarrow> content lg' L' T' = content lg L T)"

lemma file_core: "log_core lg' = log_core lg \<Longrightarrow> file_bytes lg' = file_bytes lg"
  by (simp add: log_core_def file_bytes_def)

lemma content_core: "log_core lg' = log_core lg \<Longrightarrow> content lg' L T = content lg L T"
  by (simp add: log_core_def content_def file_bytes_def)

lemma log_cfg_core: "log_core lg' = log_core lg \<Longrightarrow> log_cfg lg' = log_cfg lg"
  by (simp add: log_core_def log_cfg_def)

lemma spare_zero:
  assumes "log_inv lg wk L T" and "a \<in> set (spares lg wk)"
  shows "lg_heap lg a = Some zero_buffer" "a \<noteq> lg_curr lg" "a \<notin> set L" "a \<notin> set T" "a < lg_fresh lg"
  using assms by (auto simp: log_inv_def separate_def)

subsection \<open>Before the critical section\<close>

lemma pc_moves:
  assumes "log_ok lg wk L T" and "wk_pc wk = WTop \<or> wk_pc wk = WLock" and "pc \<in> {WLock, WWait, WDone}"
  shows "moves lg L T lg (wk\<lparr>wk_pc := pc\<rparr>) L T"
proof -
  have "taken lg (wk\<lparr>wk_pc := pc\<rparr>) T" using assms by (auto simp: log_ok_def log_inv_def taken_def)
  moreover have "separate lg (wk\<lparr>wk_pc := pc\<rparr>) L T"
    using assms(1) by (simp add: log_ok_def log_inv_def separate_def spares_def)
  ultimately show ?thesis using assms by (auto simp: moves_def log_ok_def log_inv_def)
qed

lemma worker_top_ok:
  assumes "log_ok lg wk L T" and "wk_pc wk = WTop"
  shows "worker_top wk lg = Some (lg, wk\<lparr>wk_pc := if lg_running lg then WLock else WDone\<rparr>)"
proof -
  have inv: "log_inv lg wk L T" using assms(1) by (simp add: log_ok_def)
  then obtain a b where ab: "wk_new1 wk = Some a" "wk_new2 wk = Some b" "wk_head wk = None"
    using assms(2) by (auto simp: log_inv_def taken_def)
  then have "lg_heap lg a = Some zero_buffer" "lg_heap lg b = Some zero_buffer"
    using spare_zero(1) [OF inv] by (simp_all add: spares_def)
  then show ?thesis using ab by (simp add: worker_top_def assert_empty_def zero_buffer_def)
qed

lemma start_blocks:
  assumes inv: "log_inv lg wk L T" and pc: "wk_pc wk = WStart"
    and lg': "lg' = lg\<lparr>lg_heap := (lg_heap lg)(lg_fresh lg \<mapsto> zero_buffer, Suc (lg_fresh lg) \<mapsto> zero_buffer), lg_fresh := Suc (Suc (lg_fresh lg))\<rparr>"
    and wk': "wk' = wk\<lparr>wk_pc := WTop, wk_new1 := Some (lg_fresh lg), wk_new2 := Some (Suc (lg_fresh lg)), wk_head := None, wk_tail := None, wk_size := 0\<rparr>"
  shows "log_inv lg' wk' L T" "content lg' L T = content lg L T"
proof -
  let ?f = "lg_fresh lg"
  have sep: "separate lg wk L T" and sh: "shared lg L" and tk: "taken lg wk T" using inv by (simp_all add: log_inv_def)
  have T: "T = []" using tk pc by (simp add: taken_def)
  have lt: "\<forall>a \<in> set (L @ [lg_curr lg]). a < ?f" "\<forall>a \<in> set (opt_list (lg_next lg)). a < ?f" using sep by (auto simp: separate_def spares_def)
  have o: "lg_heap lg' a = lg_heap lg a" if "a < ?f" for a using that by (simp add: lg')
  have fr: "linked_to (lg_heap lg') (L @ [lg_curr lg]) p = linked_to (lg_heap lg) (L @ [lg_curr lg]) p" for p
    by (rule linked_frame) (use o lt in blast)
  have dfr: "\<forall>a \<in> set (L @ [lg_curr lg]). data_of (lg_heap lg') a = data_of (lg_heap lg) a" using o lt by (simp add: data_of_def)
  have ds: "datas (lg_heap lg') (L @ [lg_curr lg]) = datas (lg_heap lg) (L @ [lg_curr lg])"
    by (rule datas_frame) (use o lt in blast)
  have fields: "lg_curr lg' = lg_curr lg" "lg_next lg' = lg_next lg" "lg_head lg' = lg_head lg" "lg_tail lg' = lg_tail lg"
    "lg_size lg' = lg_size lg" "lg_fresh lg' = Suc (Suc ?f)" "lg_out lg' = lg_out lg" by (simp_all add: lg')
  have "shared lg' L" using sh dfr by (simp add: shared_def fields fr)
  moreover have "taken lg' wk' T" using T by (simp add: taken_def wk' first_of_def)
  moreover have "separate lg' wk' L T"
  proof -
    have s: "spares lg wk = opt_list (lg_next lg)" using tk pc by (simp add: spares_def taken_def)
    have s': "spares lg' wk' = opt_list (lg_next lg) @ [?f, Suc ?f]" by (simp add: spares_def fields wk')
    have "\<forall>a \<in> set (spares lg' wk'). lg_heap lg' a = Some zero_buffer" using sep s' s by (auto simp: separate_def lg')
    moreover have "?f \<notin> set L" "Suc ?f \<notin> set L" "?f \<noteq> lg_curr lg" "Suc ?f \<noteq> lg_curr lg"
      "?f \<notin> set (opt_list (lg_next lg))" "Suc ?f \<notin> set (opt_list (lg_next lg))" using lt by auto
    moreover have "\<forall>a \<in> set (L @ lg_curr lg # T @ opt_list (lg_next lg)). a < Suc (Suc ?f)"
      using sep unfolding separate_def s by (metis less_SucI)
    ultimately show ?thesis using sep T unfolding separate_def s s' fields by auto
  qed
  ultimately show "log_inv lg' wk' L T" by (simp add: log_inv_def)
  show "content lg' L T = content lg L T" unfolding content_def file_bytes_def fields ds by (simp add: T)
qed

lemma worker_start_ok:
  assumes ok: "log_ok lg wk L T" and pc: "wk_pc wk = WStart"
  shows "\<not> dir_ok os \<and> worker_start os wk lg = Some Exit
    \<or> (\<exists>lg' wk'. worker_start os wk lg = Some (Return (lg', wk')) \<and> wk_pc wk' = WTop \<and> moves lg L T lg' wk' L T)"
proof -
  have inv: "log_inv lg wk L T" and cfg: "log_cfg lg" using ok by (simp_all add: log_ok_def)
  from rollfile_ok [OF cfg, of os] show ?thesis
  proof
    assume "\<not> dir_ok os \<and> rollfile os lg = Some Exit"
    then show ?thesis by (simp add: worker_start_def)
  next
    assume "\<exists>lg'. rollfile os lg = Some (Return lg') \<and> log_core lg' = log_core lg \<and> lg_handle lg' \<noteq> Null"
    then obtain l where l: "rollfile os lg = Some (Return l)" "log_core l = log_core lg" "lg_handle l \<noteq> Null" by blast
    define lg' where "lg' = l\<lparr>lg_heap := (lg_heap l)(lg_fresh l \<mapsto> zero_buffer, Suc (lg_fresh l) \<mapsto> zero_buffer), lg_fresh := Suc (Suc (lg_fresh l))\<rparr>"
    define wk' where "wk' = wk\<lparr>wk_pc := WTop, wk_new1 := Some (lg_fresh l), wk_new2 := Some (Suc (lg_fresh l)), wk_head := None, wk_tail := None, wk_size := 0\<rparr>"
    have i: "log_inv lg' wk' L T" "content lg' L T = content lg L T"
      using start_blocks [OF _ pc lg'_def wk'_def] inv log_inv_core [OF l(2)] content_core [OF l(2)] by simp_all
    have "worker_start os wk lg = Some (Return (lg', wk'))"
      by (simp add: worker_start_def l(1) calloc_buffer_def lg'_def wk'_def)
    moreover have "log_cfg lg'" "lg_handle lg' \<noteq> Null" "lg_running lg' = lg_running lg" "file_bytes lg' = file_bytes lg"
      using log_cfg_core [OF l(2)] cfg l(2,3) by (simp_all add: lg'_def log_cfg_def log_core_def file_bytes_def)
    ultimately show ?thesis using i by (simp add: moves_def log_ok_def wk'_def)
  qed
qed

subsection \<open>The critical section\<close>

lemma swap_lists:
  assumes inv: "log_inv lg wk L T" and pc: "wk_pc wk = WLock \<or> wk_pc wk = WWait" and b1: "wk_new1 wk = Some b1"
    and lg': "lg' = lg\<lparr>lg_curr := b1, lg_next := (case lg_next lg of None \<Rightarrow> wk_new2 wk | n \<Rightarrow> n), lg_head := None, lg_tail := None, lg_size := 0\<rparr>"
    and wk': "wk' = wk\<lparr>wk_pc := WUnlocked, wk_new1 := None, wk_new2 := (case lg_next lg of None \<Rightarrow> None | _ \<Rightarrow> wk_new2 wk),
       wk_head := first_of (L @ [lg_curr lg]), wk_tail := Some (lg_curr lg), wk_size := int (length L + 1)\<rparr>"
  shows "log_inv lg' wk' [] (L @ [lg_curr lg])" "content lg' [] (L @ [lg_curr lg]) = content lg L T"
proof -
  have sep: "separate lg wk L T" and sh: "shared lg L" and tk: "taken lg wk T" using inv by (simp_all add: log_inv_def)
  have T: "T = []" using tk pc by (auto simp: taken_def)
  obtain b2 where b2: "wk_new2 wk = Some b2" using tk pc by (auto simp: taken_def)
  have fields: "lg_curr lg' = b1" "lg_heap lg' = lg_heap lg" "lg_head lg' = None" "lg_tail lg' = None"
    "lg_size lg' = 0" "lg_fresh lg' = lg_fresh lg" "lg_out lg' = lg_out lg" by (simp_all add: lg')
  have z: "lg_heap lg b1 = Some zero_buffer" using spare_zero(1) [OF inv] b1 by (simp add: spares_def)
  have "lg_next lg' \<noteq> None" using b2 by (simp add: lg' split: option.splits)
  then have "shared lg' []" using z by (simp add: shared_def fields zero_buffer_def data_of_def first_of_def last_of_def LOG_BUFFER_SIZE_def)
  moreover have "taken lg' wk' (L @ [lg_curr lg])"
    using sh by (auto simp: taken_def fields wk' shared_def b2 butlast_append split: option.splits) (cases L; simp)
  moreover have "separate lg' wk' [] (L @ [lg_curr lg])"
  proof -
    have "set (b1 # spares lg' wk') = set (spares lg wk)" "distinct (spares lg wk) \<Longrightarrow> distinct (b1 # spares lg' wk')"
      by (auto simp: spares_def lg' wk' b1 b2 split: option.splits)
    then show ?thesis using sep unfolding separate_def fields T by auto
  qed
  ultimately show "log_inv lg' wk' [] (L @ [lg_curr lg])" by (simp add: log_inv_def)
  show "content lg' [] (L @ [lg_curr lg]) = content lg L T" using z
    unfolding content_def file_bytes_def fields by (simp add: T data_of_def zero_buffer_def)
qed

lemma worker_swap_ok:
  assumes ok: "log_ok lg wk L T" and pc: "wk_pc wk = WLock \<or> wk_pc wk = WWait"
  shows "\<not> dir_ok os \<and> worker_swap os wk lg = Some Exit
    \<or> (\<exists>lg' wk'. worker_swap os wk lg = Some (Return (lg', wk')) \<and> wk_pc wk' = WUnlocked
        \<and> moves lg L T lg' wk' [] (L @ [lg_curr lg]) \<and> data_of (lg_heap lg') (lg_curr lg') = [])"
proof -
  have inv: "log_inv lg wk L T" and cfg: "log_cfg lg" using ok by (simp_all add: log_ok_def)
  have h: "lg_handle lg \<noteq> Null" using ok pc by (auto simp: log_ok_def)
  let ?roll = "if lg_roll_mday lg \<noteq> os_mday os then rollfile os lg else Some (Return lg)"
  have "\<not> dir_ok os \<and> ?roll = Some Exit
     \<or> (\<exists>l. ?roll = Some (Return l) \<and> log_core l = log_core lg \<and> lg_handle l \<noteq> Null)"
    using rollfile_ok [OF cfg, of os] h by auto
  then show ?thesis
  proof
    assume "\<not> dir_ok os \<and> ?roll = Some Exit"
    then show ?thesis by (simp add: worker_swap_def)
  next
    assume "\<exists>l. ?roll = Some (Return l) \<and> log_core l = log_core lg \<and> lg_handle l \<noteq> Null"
    then obtain l where l: "?roll = Some (Return l)" "log_core l = log_core lg" "lg_handle l \<noteq> Null" by blast
    have inv': "log_inv l wk L T" using inv log_inv_core [OF l(2)] by simp
    then obtain b1 where b1: "wk_new1 wk = Some b1" using pc by (auto simp: log_inv_def taken_def)
    define lg' where "lg' = l\<lparr>lg_curr := b1, lg_next := (case lg_next l of None \<Rightarrow> wk_new2 wk | n \<Rightarrow> n), lg_head := None, lg_tail := None, lg_size := 0\<rparr>"
    define wk' where "wk' = wk\<lparr>wk_pc := WUnlocked, wk_new1 := None, wk_new2 := (case lg_next l of None \<Rightarrow> None | _ \<Rightarrow> wk_new2 wk),
       wk_head := first_of (L @ [lg_curr l]), wk_tail := Some (lg_curr l), wk_size := int (length L + 1)\<rparr>"
    have c: "lg_curr l = lg_curr lg" using l(2) by (simp add: log_core_def)
    have "lg_head l = first_of L" "lg_size l = int (length L)" using inv' by (simp_all add: log_inv_def shared_def)
    then have "worker_swap os wk lg = Some (Return (lg', wk'))"
      unfolding worker_swap_def l(1) by (cases L; cases "lg_next l") (simp_all add: b1 lg'_def wk'_def first_of_def)
    moreover have "log_cfg lg'" "lg_handle lg' \<noteq> Null" "lg_running lg' = lg_running lg" "file_bytes lg' = file_bytes lg"
      using log_cfg_core [OF l(2)] cfg l(2,3) by (simp_all add: lg'_def log_cfg_def log_core_def file_bytes_def)
    moreover have "data_of (lg_heap lg') (lg_curr lg') = []"
      using spare_zero(1) [OF inv', of b1] b1 by (simp add: lg'_def spares_def data_of_def zero_buffer_def)
    moreover note swap_lists [OF inv' pc b1 lg'_def wk'_def]
    ultimately show ?thesis by (simp add: moves_def log_ok_def c content_core [OF l(2)] wk'_def [symmetric]) (simp add: wk'_def)
  qed
qed

subsection \<open>Behind the critical section\<close>

lemma distinct_below: "distinct xs \<Longrightarrow> (\<And>a. a \<in> set xs \<Longrightarrow> a < n) \<Longrightarrow> length xs \<le> n"
  using card_mono [of "{..<n}" "set xs"] by (auto simp: distinct_card)

lemma taken_length: "log_inv lg wk L T \<Longrightarrow> length T \<le> lg_fresh lg"
  by (rule distinct_below) (auto simp: log_inv_def separate_def)

text \<open>Blocks that nobody else can reach change.\<close>

lemma shared_heap:
  assumes "shared lg L" and "\<And>a. a \<in> set (L @ [lg_curr lg]) \<Longrightarrow> h a = lg_heap lg a"
  shows "shared (lg\<lparr>lg_heap := h\<rparr>) L" "datas h (L @ [lg_curr lg]) = datas (lg_heap lg) (L @ [lg_curr lg])"
proof -
  have "linked_to h (L @ [lg_curr lg]) None = linked_to (lg_heap lg) (L @ [lg_curr lg]) None" by (rule linked_frame) (rule assms(2))
  moreover have "data_of h a = data_of (lg_heap lg) a" if "a \<in> set (L @ [lg_curr lg])" for a
    using assms(2) [OF that] by (simp add: data_of_def)
  ultimately show "shared (lg\<lparr>lg_heap := h\<rparr>) L" using assms(1) unfolding shared_def by simp
  show "datas h (L @ [lg_curr lg]) = datas (lg_heap lg) (L @ [lg_curr lg])" by (rule datas_frame) (rule assms(2))
qed

lemma drop_blocks:
  assumes inv: "log_inv lg wk L (a # b # F)" and pc: "wk_pc wk = WUnlocked"
    and h: "h = (\<lambda>x. if x \<in> set F then None else lg_heap lg x)(b \<mapsto> \<lparr>bf_next = None, bf_data = data_of (lg_heap lg) b\<rparr>)"
  shows "log_inv (lg\<lparr>lg_heap := h\<rparr>) (wk\<lparr>wk_tail := Some b, wk_size := 2, wk_pc := WWrite\<rparr>) L [a, b]"
    (is "log_inv ?lg ?wk _ _")
proof -
  have sep: "separate lg wk L (a # b # F)" and sh: "shared lg L" and tk: "taken lg wk (a # b # F)" using inv by (simp_all add: log_inv_def)
  have S: "spares ?lg ?wk = spares lg wk" by (simp add: spares_def)
  have o: "h x = lg_heap lg x" if "x \<notin> set (b # F)" for x using that by (simp add: h)
  have out: "\<forall>x \<in> set (L @ [lg_curr lg] @ spares lg wk). x \<notin> set (b # F)" using sep by (auto simp: separate_def)
  have "shared ?lg L" by (rule shared_heap(1) [OF sh]) (use o out in auto)
  moreover have "a \<notin> set (b # F)" "b \<notin> set F" using sep by (auto simp: separate_def)
  then have "taken ?lg ?wk [a, b]" using tk pc by (auto simp: taken_def h first_of_def linked_Cons data_of_def)
  moreover have "\<forall>x \<in> set (spares lg wk). h x = Some zero_buffer" using sep o out unfolding separate_def by auto
  then have "separate ?lg ?wk L [a, b]" using sep unfolding separate_def S by auto
  ultimately show ?thesis by (simp add: log_inv_def)
qed

lemma worker_drop_few:
  assumes ok: "log_ok lg wk L T" and pc: "wk_pc wk = WUnlocked" and few: "length T \<le> 25"
  shows "worker_drop os wk lg = Some (lg, wk\<lparr>wk_pc := WWrite\<rparr>)" "moves lg L T lg (wk\<lparr>wk_pc := WWrite\<rparr>) L T"
proof -
  have "T \<noteq> []" "wk_size wk = int (length T)" using ok pc by (auto simp: log_ok_def log_inv_def taken_def)
  then show "worker_drop os wk lg = Some (lg, wk\<lparr>wk_pc := WWrite\<rparr>)" using few by (cases T) (simp_all add: worker_drop_def)
  have "taken lg (wk\<lparr>wk_pc := WWrite\<rparr>) T" using ok pc by (simp add: log_ok_def log_inv_def taken_def)
  moreover have "separate lg (wk\<lparr>wk_pc := WWrite\<rparr>) L T" using ok by (simp add: log_ok_def log_inv_def separate_def spares_def)
  ultimately show "moves lg L T lg (wk\<lparr>wk_pc := WWrite\<rparr>) L T" using ok pc by (simp add: moves_def log_ok_def log_inv_def)
qed

lemma worker_drop_many:
  assumes ok: "log_ok lg wk L T" and pc: "wk_pc wk = WUnlocked" and many: "25 < length T"
  shows "\<exists>lg' wk' L' T'. worker_drop os wk lg = Some (lg', wk') \<and> wk_pc wk' = WWrite \<and> moves lg L T lg' wk' L' T'
    \<and> file_bytes lg' = file_bytes lg \<and> datas (lg_heap lg') T' = datas (lg_heap lg) (take 2 T)
    \<and> datas (lg_heap lg') (L' @ [lg_curr lg'])
        = datas (lg_heap lg) (L @ [lg_curr lg]) @ drop_message (os_stamp os) (int (length T) - 2)"
proof -
  have inv: "log_inv lg wk L T" using ok by (simp add: log_ok_def)
  obtain a b F where T: "T = a # b # F" using many by (cases T; cases "tl T") auto
  have ne: "T \<noteq> []" using T by simp
  have size: "wk_size wk = int (length T)" "wk_head wk = Some a" using inv T by (auto simp: log_inv_def taken_def first_of_def)
  let ?msg = "drop_message (os_stamp os) (wk_size wk - 2)"
  have "length ?msg < LOG_MAX" by (simp add: drop_message_def LOG_MAX_def)
  from append_ok [OF inv this] obtain l L' where l: "append ?msg lg = Some l" "log_inv l wk L' T" "log_rest l = log_rest lg"
    and app: "datas (lg_heap l) (L' @ [lg_curr l]) = datas (lg_heap lg) (L @ [lg_curr lg]) @ ?msg"
    and same: "\<forall>a \<in> set T. lg_heap l a = lg_heap lg a" by blast
  let ?h = "\<lambda>x. if x \<in> set F then None else lg_heap l x"
  define lg' where "lg' = l\<lparr>lg_heap := ?h(b \<mapsto> \<lparr>bf_next = None, bf_data = data_of (lg_heap l) b\<rparr>)\<rparr>"
  define wk' where "wk' = wk\<lparr>wk_tail := Some b, wk_size := 2, wk_pc := WWrite\<rparr>"
  have link: "linked_to (lg_heap l) (a # b # F) None" using l(2) T by (simp add: log_inv_def taken_def)
  then have ab: "lg_heap l a = Some \<lparr>bf_next = Some b, bf_data = data_of (lg_heap l) a\<rparr>"
    "lg_heap l b = Some \<lparr>bf_next = first_of F, bf_data = data_of (lg_heap l) b\<rparr>" "linked_to (lg_heap l) F None"
    by (simp_all add: linked_Cons first_of_def)
  have d: "distinct F" "b \<notin> set F" using l(2) T by (auto simp: log_inv_def separate_def)
  have "length F \<le> lg_fresh l" using taken_length [OF l(2)] T by simp
  then have "free_list (lg_fresh l) (first_of F) l = Some (l\<lparr>lg_heap := ?h\<rparr>)" by (rule free_list_ok [OF ab(3) d(1)])
  then have w: "worker_drop os wk lg = Some (lg', wk')" "wk_pc wk' = WWrite"
    using many ne size l(1) ab d(2) by (simp_all add: worker_drop_def lg'_def wk'_def set_buffer_def)
  have "log_inv lg' wk' L' [a, b]" unfolding lg'_def wk'_def by (rule drop_blocks [OF l(2) [unfolded T] pc refl])
  moreover have f: "log_cfg lg'" "lg_handle lg' \<noteq> Null" "lg_running lg' = lg_running lg" "file_bytes lg' = file_bytes lg"
    using l(3) ok pc by (auto simp: lg'_def log_cfg_def log_rest_def log_ok_def file_bytes_def)
  moreover note w(2)
  ultimately have m: "moves lg L T lg' wk' L' [a, b]" using many unfolding moves_def log_ok_def by simp
  have "lg_curr lg' = lg_curr l" by (simp add: lg'_def)
  moreover have out: "\<forall>x \<in> set (L' @ [lg_curr l]). x \<notin> set (b # F)" "a \<notin> set (b # F)"
    using l(2) T by (auto simp: log_inv_def separate_def)
  have "datas (lg_heap lg') (L' @ [lg_curr l]) = datas (lg_heap l) (L' @ [lg_curr l])"
    by (rule datas_frame) (use out(1) in \<open>auto simp: lg'_def\<close>)
  moreover have "datas (lg_heap lg') [a, b] = datas (lg_heap lg) (take 2 T)"
    using out(2) d(2) same by (simp add: T lg'_def data_of_def)
  moreover note w(1) w(2) f app size(1)
  ultimately show ?thesis using m by (intro exI [of _ lg'] exI [of _ wk'] exI [of _ L'] exI [of _ "[a, b]"]) simp
qed

subsection \<open>Writing\<close>

lemma recycle_none:
  assumes "linked_to (lg_heap lg) (a # F) None" and "wk_head wk = Some a" and "0 < wk_size wk"
  shows "recycle None wk lg = Some (Some a, wk\<lparr>wk_head := first_of F, wk_size := wk_size wk - 1\<rparr>, set_buffer a zero_buffer lg)"
  using assms by (simp add: recycle_def linked_Cons first_of_def)

lemma recycle_keeps: "recycle new wk lg = Some (n, wk', lg') \<Longrightarrow> wk' = wk\<lparr>wk_head := wk_head wk', wk_size := wk_size wk'\<rparr>"
  by (auto simp: recycle_def bind_eq_Some_conv split: if_splits)

lemma recycle_some: "recycle (Some a) wk lg = Some (Some a, wk, lg)"
  by (simp add: recycle_def)

lemma free_rest:
  assumes "linked_to (lg_heap lg) F None" and "distinct F" and "length F \<le> lg_fresh lg" and "\<forall>a \<in> set F. h a = lg_heap lg a"
  shows "free_list (lg_fresh lg) (first_of F) (lg\<lparr>lg_heap := h\<rparr>) = Some (lg\<lparr>lg_heap := \<lambda>x. if x \<in> set F then None else h x\<rparr>)"
proof -
  have "linked_to h F None" using assms(1,4) linked_frame [of F h "lg_heap lg"] by simp
  then show ?thesis using free_list_ok [of "lg\<lparr>lg_heap := h\<rparr>" F "lg_fresh lg"] assms(2,3) by (simp cong: if_cong)
qed

lemma recycle_blocks:
  assumes inv: "log_inv lg wk L T" and pc: "wk_pc wk = WWrite"
  shows "\<exists>lg' b1 b2. (do { (n1, wk, lg) \<leftarrow> recycle (wk_new1 wk) wk lg; (n2, wk, lg) \<leftarrow> recycle (wk_new2 wk) wk lg;
        lg \<leftarrow> free_list (lg_fresh lg) (wk_head wk) lg;
        Some (lg, n1, n2) }) = Some (lg', Some b1, Some b2)
     \<and> (\<exists>h. lg' = lg\<lparr>lg_heap := h\<rparr> \<and> (\<forall>x. x \<notin> set T \<longrightarrow> h x = lg_heap lg x) \<and> h b1 = Some zero_buffer \<and> h b2 = Some zero_buffer)
     \<and> b1 \<in> set T \<and> b1 \<noteq> b2 \<and> (case wk_new2 wk of Some m \<Rightarrow> b2 = m | None \<Rightarrow> b2 \<in> set T)"
proof -
  have link: "linked_to (lg_heap lg) T None" and d: "distinct T" and hd: "wk_head wk = first_of T" and n1: "wk_new1 wk = None"
    and size: "T \<noteq> []" "wk_size wk = int (length T)" and two: "wk_new2 wk = None \<Longrightarrow> 2 \<le> length T"
    using inv pc by (auto simp: log_inv_def taken_def separate_def)
  obtain a F where T: "T = a # F" using size(1) by (cases T) auto
  have len: "length F \<le> lg_fresh lg" using taken_length [OF inv] T by simp
  have 1: "recycle (wk_new1 wk) wk lg
      = Some (Some a, wk\<lparr>wk_head := first_of F, wk_size := wk_size wk - 1\<rparr>, lg\<lparr>lg_heap := (lg_heap lg)(a \<mapsto> zero_buffer)\<rparr>)"
    using recycle_none [of lg a F wk] link hd size(2) n1 by (simp add: T first_of_def [of "a # F"] set_buffer_def)
  show ?thesis
  proof (cases "wk_new2 wk")
    case (Some m)
    have m: "m \<notin> set T" "lg_heap lg m = Some zero_buffer" using spare_zero [OF inv, of m] Some by (simp_all add: spares_def)
    have "free_list (lg_fresh lg) (first_of F) (lg\<lparr>lg_heap := (lg_heap lg)(a \<mapsto> zero_buffer)\<rparr>)
        = Some (lg\<lparr>lg_heap := \<lambda>x. if x \<in> set F then None else ((lg_heap lg)(a \<mapsto> zero_buffer)) x\<rparr>)"
      using free_rest [of lg F "(lg_heap lg)(a \<mapsto> zero_buffer)"] link d len by (simp add: T linked_Cons)
    then show ?thesis using d m unfolding 1 by (intro exI [of _ a] exI [of _ m] exI) (auto simp: Some recycle_some T)
  next
    case None
    obtain b G where F: "F = b # G" using two None T by (cases F) auto
    let ?lg = "lg\<lparr>lg_heap := (lg_heap lg)(a \<mapsto> zero_buffer)\<rparr>" and ?wk = "wk\<lparr>wk_head := first_of F, wk_size := wk_size wk - 1\<rparr>"
    let ?h = "(lg_heap lg)(a \<mapsto> zero_buffer, b \<mapsto> zero_buffer)"
    have "linked_to (lg_heap ?lg) (b # G) None"
      using link d by (subst linked_frame [where h = "lg_heap lg"]) (auto simp: T F linked_Cons)
    then have 2: "recycle (wk_new2 ?wk) ?wk ?lg
        = Some (Some b, ?wk\<lparr>wk_head := first_of G, wk_size := wk_size ?wk - 1\<rparr>, lg\<lparr>lg_heap := ?h\<rparr>)"
      using recycle_none [of ?lg b G ?wk] size(2) None by (simp add: T F first_of_def [of "b # G"] set_buffer_def)
    have "free_list (lg_fresh lg) (first_of G) (lg\<lparr>lg_heap := ?h\<rparr>)
        = Some (lg\<lparr>lg_heap := \<lambda>x. if x \<in> set G then None else ?h x\<rparr>)"
      by (rule free_rest) (use link d len in \<open>auto simp: T F linked_Cons\<close>)
    then show ?thesis using d 2 unfolding 1 by (intro exI [of _ a] exI [of _ b] exI) (auto simp: None T F)
  qed
qed

lemma recycled_inv:
  assumes inv: "log_inv lg wk L T" and pc: "wk_pc wk = WWrite"
    and h: "\<forall>x. x \<notin> set T \<longrightarrow> h x = lg_heap lg x" "h b1 = Some zero_buffer" "h b2 = Some zero_buffer"
    and b: "b1 \<in> set T" "b1 \<noteq> b2" "case wk_new2 wk of Some m \<Rightarrow> b2 = m | None \<Rightarrow> b2 \<in> set T"
    and wk': "wk' = wk\<lparr>wk_new1 := Some b1, wk_new2 := Some b2, wk_head := None, wk_tail := None, wk_size := 0, wk_pc := WTop\<rparr>"
  shows "log_inv (lg\<lparr>lg_heap := h\<rparr>) wk' L []" "datas h (L @ [lg_curr lg]) = datas (lg_heap lg) (L @ [lg_curr lg])"
proof -
  let ?lg = "lg\<lparr>lg_heap := h\<rparr>"
  have sep: "separate lg wk L T" and sh: "shared lg L" and n1: "wk_new1 wk = None"
    using inv pc by (auto simp: log_inv_def taken_def)
  have out: "x \<notin> set T" if "x \<in> set (L @ [lg_curr lg])" for x using sep that by (auto simp: separate_def)
  note sh' = shared_heap [OF sh, of h]
  have "taken ?lg wk' []" by (simp add: taken_def wk' first_of_def)
  moreover have s: "spares ?lg wk' = opt_list (lg_next lg) @ [b1, b2]" "spares lg wk = opt_list (lg_next lg) @ opt_list (wk_new2 wk)"
    using n1 by (simp_all add: spares_def wk')
  have "separate ?lg wk' L []"
  proof -
    have b2: "b2 \<in> set T \<or> b2 \<in> set (opt_list (wk_new2 wk))" using b(3) by (auto split: option.splits)
    have n: "x \<notin> set T" "lg_heap lg x = Some zero_buffer" if "x \<in> set (opt_list (lg_next lg))" for x
      using sep that unfolding separate_def s by auto
    then have z: "\<forall>x \<in> set (spares ?lg wk'). h x = Some zero_buffer" using h unfolding s by auto
    have "b2 \<notin> set L \<and> b2 \<noteq> lg_curr lg \<and> b2 \<notin> set (opt_list (lg_next lg)) \<and> b2 < lg_fresh lg"
      using b2 sep unfolding separate_def s by auto
    then show ?thesis using sep b(1,2) z unfolding separate_def s by auto
  qed
  ultimately show "log_inv ?lg wk' L []" using sh'(1) h(1) out by (simp add: log_inv_def)
  show "datas h (L @ [lg_curr lg]) = datas (lg_heap lg) (L @ [lg_curr lg])" by (rule sh'(2)) (use h(1) out in blast)
qed

lemma log_inv_put_out: "log_inv (put_out bss lg) wk L T = log_inv lg wk L T" "log_cfg (put_out bss lg) = log_cfg lg"
  by (simp_all add: put_out_def log_inv_def shared_def taken_def separate_def spares_def log_cfg_def)

lemma worker_write_ok:
  assumes ok: "log_ok lg wk L T" and pc: "wk_pc wk = WWrite"
  shows "\<not> dir_ok os \<and> worker_write os wk lg = Some Exit
    \<or> (\<exists>lg' wk'. worker_write os wk lg = Some (Return (lg', wk')) \<and> wk_pc wk' = WTop \<and> moves lg L T lg' wk' L []
         \<and> datas (lg_heap lg') (L @ [lg_curr lg']) = datas (lg_heap lg) (L @ [lg_curr lg]) \<and> file_bytes lg' = file_bytes lg @ datas (lg_heap lg) T)"
proof -
  have inv: "log_inv lg wk L T" and cfg: "log_cfg lg" and hn: "lg_handle lg \<noteq> Null" using ok pc by (simp_all add: log_ok_def)
  define o1 where "o1 = put_out (map (data_of (lg_heap lg)) T) lg"
  have w: "write_list (lg_fresh lg) (wk_head wk) lg = Some o1" unfolding o1_def
    using write_list_ok [of lg T "lg_fresh lg"] inv taken_length [OF inv] by (simp add: log_inv_def taken_def)
  have out: "file_bytes o1 = file_bytes lg @ datas (lg_heap lg) T" "lg_handle o1 \<noteq> Null" "lg_running o1 = lg_running lg"
      "lg_heap o1 = lg_heap lg" "lg_curr o1 = lg_curr lg"
    using hn by (simp_all add: o1_def put_out_def file_bytes_def datas_def comp_def)
  let ?roll = "if lg_written o1 > as_size (lg_rollsize o1) then rollfile os o1 else Some (Return o1)"
  have "log_cfg o1" using cfg by (simp add: o1_def log_inv_put_out)
  from rollfile_ok [OF this, of os] out(2)
  have "\<not> dir_ok os \<and> ?roll = Some Exit
     \<or> (\<exists>l. ?roll = Some (Return l) \<and> log_core l = log_core o1 \<and> lg_handle l \<noteq> Null)" by auto
  then show ?thesis
  proof
    assume "\<not> dir_ok os \<and> ?roll = Some Exit"
    then show ?thesis by (simp add: worker_write_def w)
  next
    assume "\<exists>l. ?roll = Some (Return l) \<and> log_core l = log_core o1 \<and> lg_handle l \<noteq> Null"
    then obtain l where l: "?roll = Some (Return l)" "log_core l = log_core o1" "lg_handle l \<noteq> Null" by blast
    have inv': "log_inv l wk L T" using inv log_inv_core [OF l(2)] by (simp add: o1_def log_inv_put_out)
    from recycle_blocks [OF inv' pc] obtain lg' b1 b2 h where r:
      "do { (n1, wk, lg) \<leftarrow> recycle (wk_new1 wk) wk l; (n2, wk, lg) \<leftarrow> recycle (wk_new2 wk) wk lg;
          lg \<leftarrow> free_list (lg_fresh lg) (wk_head wk) lg; Some (lg, n1, n2) } = Some (lg', Some b1, Some b2)"
      and h: "lg' = l\<lparr>lg_heap := h\<rparr>" "\<forall>x. x \<notin> set T \<longrightarrow> h x = lg_heap l x" "h b1 = Some zero_buffer" "h b2 = Some zero_buffer"
      and b: "b1 \<in> set T" "b1 \<noteq> b2" "case wk_new2 wk of Some m \<Rightarrow> b2 = m | None \<Rightarrow> b2 \<in> set T" by blast
    define wk' where "wk' = wk\<lparr>wk_new1 := Some b1, wk_new2 := Some b2, wk_head := None, wk_tail := None, wk_size := 0, wk_pc := WTop\<rparr>"
    note i = recycled_inv [OF inv' pc h(2,3,4) b wk'_def]
    from r obtain wkA lA wkB lB where rs: "recycle (wk_new1 wk) wk l = Some (Some b1, wkA, lA)"
        "recycle (wk_new2 wkA) wkA lA = Some (Some b2, wkB, lB)" "free_list (lg_fresh lB) (wk_head wkB) lB = Some lg'"
      by (auto simp: bind_eq_Some_conv recycle_keeps)
    have "wk\<lparr>wk_head := None, wk_size := 0, wk_new1 := None, wk_new2 := None, wk_tail := None, wk_pc := WTop\<rparr>
        = wkB\<lparr>wk_head := None, wk_size := 0, wk_new1 := None, wk_new2 := None, wk_tail := None, wk_pc := WTop\<rparr>"
      using recycle_keeps [OF rs(1)] recycle_keeps [OF rs(2)] by simp
    then have "wkB\<lparr>wk_new1 := Some b1, wk_new2 := Some b2, wk_head := None, wk_tail := None, wk_size := 0, wk_pc := WTop\<rparr> = wk'"
      by (simp add: wk'_def)
    then have "worker_write os wk lg = Some (Return (lg', wk'))"
      unfolding worker_write_def w using rs by (simp add: l(1))
    moreover have c: "lg_heap l = lg_heap lg" "lg_curr l = lg_curr lg" "file_bytes l = file_bytes o1" "lg_running l = lg_running lg"
      using l(2) out by (simp_all add: log_core_def file_bytes_def)
    have "log_cfg lg'" "lg_handle lg' \<noteq> Null" "lg_running lg' = lg_running lg" "lg_curr lg' = lg_curr lg" "file_bytes lg' = file_bytes o1"
      using log_cfg_core [OF l(2)] \<open>log_cfg o1\<close> l(3) c by (simp_all add: h(1) log_cfg_def file_bytes_def)
    moreover have "content lg' L [] = content lg L T"
      using i(2) c out by (simp add: content_def h(1) file_bytes_def)
    moreover have "datas (lg_heap lg') (L @ [lg_curr lg']) = datas (lg_heap lg) (L @ [lg_curr lg])"
      using i(2) c by (simp add: h(1))
    ultimately show ?thesis using i(1) out(1) by (simp add: moves_def log_ok_def h(1) wk'_def)
  qed
qed

end
