(* ===== verification/Logger.thy ===== *)
theory Logger
  imports LogSteps
begin

section \<open>The logger: what it promises\<close>

text \<open>
  The bytes that have been logged are at every time those in the file, followed by those that the
  worker has taken and those that wait, in the order of the calls. No assertion fails, and the
  worker alone writes everything that waits. What is left when \<open>log_exit\<close> is called is not written.
\<close>

subsection \<open>What waits\<close>

text \<open>The data of the blocks from \<open>p\<close> on; the fuel is the number of blocks.\<close>

fun chain_bytes :: "nat \<Rightarrow> heap_map \<Rightarrow> nat option \<Rightarrow> byte list" where
  "chain_bytes (Suc k) h (Some a) = (case h a of None \<Rightarrow> [] | Some b \<Rightarrow> bf_data b @ chain_bytes k h (bf_next b))"
| "chain_bytes _ h _ = []"

definition taken_bytes :: "logger \<Rightarrow> worker \<Rightarrow> byte list" where
  "taken_bytes lg wk = chain_bytes (lg_fresh lg) (lg_heap lg) (wk_head wk)"

definition waiting_bytes :: "logger \<Rightarrow> byte list" where
  "waiting_bytes lg = chain_bytes (lg_fresh lg) (lg_heap lg) (case lg_head lg of None \<Rightarrow> Some (lg_curr lg) | p \<Rightarrow> p)"

definition logged :: "llabel list \<Rightarrow> byte list" where
  "logged ls = concat (map (\<lambda>l. case l of Log line \<Rightarrow> line | _ \<Rightarrow> []) ls)"

lemma logged_simps [simp]: "logged [] = []" "logged (ls @ ls') = logged ls @ logged ls'" "logged [Log line] = line"
  "logged [Work os] = []" "logged [Stop] = []" "logged [Join] = []"
  by (simp_all add: logged_def)

lemma chain_linked: "linked_to h xs None \<Longrightarrow> length xs \<le> k \<Longrightarrow> chain_bytes k h (first_of xs) = datas h xs"
proof (induction xs arbitrary: k)
  case (Cons a xs)
  obtain j where "k = Suc j" using Cons.prems(2) by (cases k) auto
  moreover have "h a = Some \<lparr>bf_next = first_of xs, bf_data = data_of h a\<rparr>" "linked_to h xs None"
    using Cons.prems(1) by (simp_all add: linked_Cons first_of_def)
  ultimately show ?case using Cons by (simp add: first_of_def [of "a # xs"])
qed (cases k; simp add: first_of_def)

lemma content_chain:
  assumes "log_inv lg wk L T"
  shows "content lg L T = file_bytes lg @ taken_bytes lg wk @ waiting_bytes lg"
proof -
  have "taken_bytes lg wk = datas (lg_heap lg) T" unfolding taken_bytes_def
    using assms chain_linked [of "lg_heap lg" T] taken_length [OF assms] by (simp add: log_inv_def taken_def)
  moreover have "length (L @ [lg_curr lg]) \<le> lg_fresh lg"
    by (rule distinct_below) (use assms in \<open>auto simp: log_inv_def separate_def\<close>)
  then have "waiting_bytes lg = datas (lg_heap lg) (L @ [lg_curr lg])" unfolding waiting_bytes_def
    using assms chain_linked [of "lg_heap lg" "L @ [lg_curr lg]" "lg_fresh lg"]
    by (cases L) (simp_all add: log_inv_def shared_def first_of_def)
  ultimately show ?thesis by (simp add: content_def)
qed

subsection \<open>Reachable states\<close>

text \<open>The fewest bytes that fill more than 25 buffers.\<close>

definition drop_bytes :: nat where
  "drop_bytes = 25 * (LOG_BUFFER_SIZE - LOG_MAX)"

lemma full_bytes:
  "(\<And>a. a \<in> set xs \<Longrightarrow> LOG_BUFFER_SIZE \<le> length (data_of h a) + LOG_MAX) \<Longrightarrow> length xs * (LOG_BUFFER_SIZE - LOG_MAX) \<le> length (datas h xs)"
proof (induction xs)
  case (Cons a xs)
  have "LOG_BUFFER_SIZE \<le> length (data_of h a) + LOG_MAX" by (rule Cons.prems) simp
  moreover have "length xs * (LOG_BUFFER_SIZE - LOG_MAX) \<le> length (datas h xs)" using Cons by simp
  ultimately show ?case by simp
qed simp

definition pending :: "logger \<Rightarrow> nat list \<Rightarrow> nat list \<Rightarrow> byte list" where
  "pending lg L T = datas (lg_heap lg) T @ datas (lg_heap lg) (L @ [lg_curr lg])"

lemma content_pending: "content lg L T = file_bytes lg @ pending lg L T"
  by (simp add: content_def pending_def)

lemma pending_less:
  assumes "moves lg L T lg' wk' L' T'" and "content lg' L' T' = content lg L T" and "length (pending lg L T) < n"
  shows "length (pending lg' L' T') < n"
proof -
  obtain bs where "file_bytes lg' = file_bytes lg @ bs" using assms(1) by (auto simp: moves_def)
  then have "pending lg L T = bs @ pending lg' L' T'" using assms(2) by (simp add: content_pending)
  then show ?thesis using assms(3) by simp
qed

lemma few_taken:
  assumes "log_inv lg wk L T" and "length (pending lg L T) < drop_bytes"
  shows "length T \<le> 25"
proof (cases T rule: rev_cases)
  case (snoc T' t)
  have "length T' * (LOG_BUFFER_SIZE - LOG_MAX) \<le> length (datas (lg_heap lg) T')"
    by (rule full_bytes) (use assms(1) snoc in \<open>simp add: log_inv_def taken_def\<close>)
  also have "\<dots> < 25 * (LOG_BUFFER_SIZE - LOG_MAX)" using assms(2) snoc by (simp add: pending_def drop_bytes_def)
  finally have "length T' < 25" by (simp add: LOG_BUFFER_SIZE_def LOG_MAX_def)
  then show ?thesis using snoc by simp
qed simp

lemma worker_step_ok:
  assumes ok: "log_ok lg wk L T" and pc: "wk_pc wk \<noteq> WDone"
  shows "\<not> dir_ok os \<and> worker_step os wk lg = Some Exit
    \<or> (\<exists>lg' wk' L' T'. worker_step os wk lg = Some (Return (lg', wk')) \<and> moves lg L T lg' wk' L' T')"
proof -
  let ?goal = "\<lambda>r. \<not> dir_ok os \<and> r = Some Exit \<or> (\<exists>lg' wk' L' T'. r = Some (Return (lg', wk')) \<and> moves lg L T lg' wk' L' T')"
  have move: "?goal (Some (Return (lg', wk')))" if "moves lg L T lg' wk' L' T'" for lg' wk' L' T' using that by blast
  consider "wk_pc wk = WStart" | "wk_pc wk = WTop" | "wk_pc wk = WLock" | "wk_pc wk = WWait" | "wk_pc wk = WUnlocked" | "wk_pc wk = WWrite"
    using pc by (cases "wk_pc wk") auto
  then show ?thesis
  proof cases
    case 1
    then have "worker_step os wk lg = worker_start os wk lg" by (simp add: worker_step_def)
    with worker_start_ok [OF ok 1, of os] show ?thesis by metis
  next
    case 2
    then have "worker_step os wk lg = map_option Return (worker_top wk lg)" by (simp add: worker_step_def)
    with worker_top_ok [OF ok 2] have "worker_step os wk lg = Some (Return (lg, wk\<lparr>wk_pc := if lg_running lg then WLock else WDone\<rparr>))" by simp
    moreover have "moves lg L T lg (wk\<lparr>wk_pc := if lg_running lg then WLock else WDone\<rparr>) L T" by (rule pc_moves [OF ok]) (auto simp: 2)
    ultimately show ?thesis using move by metis
  next
    case 3
    then have step: "worker_step os wk lg = (if lg_head lg = None then Some (Return (lg, wk\<lparr>wk_pc := WWait\<rparr>)) else worker_swap os wk lg)"
      by (simp add: worker_step_def worker_lock_def)
    have "moves lg L T lg (wk\<lparr>wk_pc := WWait\<rparr>) L T" by (rule pc_moves [OF ok]) (auto simp: 3)
    with worker_swap_ok [OF ok, of os] 3 show ?thesis unfolding step by (metis (full_types))
  next
    case 4
    then have "worker_step os wk lg = worker_swap os wk lg" by (simp add: worker_step_def)
    with worker_swap_ok [OF ok, of os] 4 show ?thesis by metis
  next
    case 5
    then have "worker_step os wk lg = map_option Return (worker_drop os wk lg)" by (simp add: worker_step_def)
    with worker_drop_few(1) [OF ok 5, of os] worker_drop_few(2) [OF ok 5] worker_drop_many [OF ok 5, of os] show ?thesis
      by (metis not_less option.simps(9))
  next
    case 6
    then have "worker_step os wk lg = worker_write os wk lg" by (simp add: worker_step_def)
    with worker_write_ok [OF ok 6, of os] show ?thesis by metis
  qed
qed

lemma log_ok_append:
  assumes "log_ok lg wk L T" and "length line < LOG_MAX"
  shows "\<exists>lg' L'. append line lg = Some lg' \<and> log_ok lg' wk L' T \<and> content lg' L' T = content lg L T @ line \<and> lg_running lg' = lg_running lg"
proof -
  from assms(1) have "log_inv lg wk L T" by (simp add: log_ok_def)
  from append_ok [OF this assms(2)] obtain lg' L' where l: "append line lg = Some lg'" "log_inv lg' wk L' T"
    "datas (lg_heap lg') (L' @ [lg_curr lg']) = datas (lg_heap lg) (L @ [lg_curr lg]) @ line"
    "\<forall>a \<in> set T. lg_heap lg' a = lg_heap lg a" "log_rest lg' = log_rest lg" by blast
  have "datas (lg_heap lg') T = datas (lg_heap lg) T" by (rule datas_frame) (use l(4) in blast)
  then have "content lg' L' T = content lg L T @ line" using l(3,5) by (simp add: content_def file_bytes_def log_rest_def)
  moreover have "log_ok lg' wk L' T" using assms(1) l(2,5) by (simp add: log_ok_def log_cfg_def log_rest_def)
  moreover have "lg_running lg' = lg_running lg" using l(5) by (simp add: log_rest_def)
  ultimately show ?thesis using l(1) by blast
qed

text \<open>The arguments of \<open>linit\<close> leave names that end and a positive size.\<close>

definition good_init :: "int \<Rightarrow> cstring option \<Rightarrow> cstring option \<Rightarrow> bool" where
  "good_init rollsize dirname basename \<longleftrightarrow> - (2 ^ 31) \<le> rollsize \<and> rollsize < 2048
     \<and> (case dirname of None \<Rightarrow> True | Some s \<Rightarrow> length s < 64) \<and> (case basename of None \<Rightarrow> True | Some s \<Rightarrow> length s < 64)"

lemma c_strlen_some: "0 \<in> set v \<Longrightarrow> c_strlen v \<noteq> None"
  by (induction v) auto

lemma c_string_strncpy64: "length s < 64 \<Longrightarrow> \<exists>t. c_string (strncpy64 s) = Some t"
  using c_strlen_some [of "strncpy64 s"] by (auto simp: c_string_def strncpy64_def)

lemma as_int_id: "- (2 ^ 31) \<le> n \<Longrightarrow> n < 2 ^ 31 \<Longrightarrow> as_int n = n"
  by (simp add: as_int_def sint_sbintrunc' signed_take_bit_int_eq_self)

lemma as_size_pos: "0 < n \<Longrightarrow> n < 2 ^ 31 \<Longrightarrow> 0 < as_size n"
  by (simp add: as_size_def unsigned_of_int take_bit_int_eq_self)

lemma linit_ok:
  assumes "good_init rollsize dirname basename"
  shows "log_ok (linit level rollsize interval print dirname basename) worker_init [] []"
    "content (linit level rollsize interval print dirname basename) [] [] = []"
proof -
  let ?lg = "linit level rollsize interval print dirname basename"
  have "log_inv ?lg worker_init [] []"
    by (simp add: log_inv_def shared_def taken_def separate_def spares_def linit_def Let_def worker_init_def zero_buffer_def
        data_of_def first_of_def last_of_def LOG_BUFFER_SIZE_def)
  moreover have "0 < as_size (lg_rollsize ?lg)"
    using assms by (auto simp: good_init_def linit_def Let_def as_int_id DEFAULT_ROLL_SIZE_def ONE_MB_def intro!: as_size_pos)
  moreover have "c_string (lg_dirname ?lg) \<noteq> None" "c_string (lg_basename ?lg) \<noteq> None"
    using assms by (auto simp: linit_def Let_def good_init_def cstr_def intro!: c_string_strncpy64 split: option.splits)
  ultimately show "log_ok ?lg worker_init [] []" by (simp add: log_ok_def log_cfg_def worker_init_def)
  show "content ?lg [] [] = []" by (simp add: content_def file_bytes_def linit_def Let_def data_of_def zero_buffer_def)
qed

lemma log_ok_stop:
  assumes "log_ok lg wk L T"
  shows "log_ok (log_stop lg) wk L T" "content (log_stop lg) L T = content lg L T"
  using assms by (simp_all add: log_ok_def log_stop_def log_inv_def shared_def taken_def separate_def spares_def log_cfg_def
      content_def file_bytes_def)

text \<open>The worker is at its end only when it has been told to stop.\<close>

lemma worker_runs:
  assumes "log_ok lg wk L T" and "worker_step os wk lg = Some (Return (lg', wk'))" and "wk_pc wk' = WDone" and "lg_running lg'"
  shows "False"
proof -
  have pc: "wk_pc wk \<noteq> WDone" using assms(2) by (auto simp: worker_step_def)
  have "lg_running lg" using worker_step_ok [OF assms(1) pc, of os] assms(2,4) by (auto simp: moves_def)
  consider "wk_pc wk = WTop" | "wk_pc wk \<noteq> WTop" by blast
  then show False
  proof cases
    case 1
    then show False using worker_top_ok [OF assms(1) 1] assms(2,3) \<open>lg_running lg\<close> by (auto simp: worker_step_def)
  next
    case 2
    show False
    proof (cases "wk_pc wk")
      case WStart
      with worker_start_ok [OF assms(1) WStart, of os] assms(2,3) show False by (auto simp: worker_step_def)
    next
      case WLock
      with worker_swap_ok [OF assms(1), of os] assms(2,3) show False
        by (auto simp: worker_step_def worker_lock_def split: if_splits)
    next
      case WWait
      with worker_swap_ok [OF assms(1), of os] assms(2,3) show False by (auto simp: worker_step_def)
    next
      case WUnlocked
      show False
      proof (cases "length T \<le> 25")
        case True
        with worker_drop_few(1) [OF assms(1) WUnlocked, of os] WUnlocked assms(2,3) show False by (auto simp: worker_step_def)
      next
        case False
        with worker_drop_many [OF assms(1) WUnlocked, of os] WUnlocked assms(2,3) show False by (auto simp: worker_step_def)
      qed
    next
      case WWrite
      with worker_write_ok [OF assms(1) WWrite, of os] assms(2,3) show False by (auto simp: worker_step_def)
    qed (use 2 pc in auto)
  qed
qed

definition reach_inv :: "byte list \<Rightarrow> lstate \<Rightarrow> bool" where
  "reach_inv bs s \<longleftrightarrow> (case s of
     LRun lg wk \<Rightarrow> (\<exists>L T. log_ok lg wk L T \<and> (length bs < drop_bytes \<longrightarrow> content lg L T = bs)) \<and> (lg_running lg \<longrightarrow> wk_pc wk \<noteq> WDone)
   | _ \<Rightarrow> True)"

lemma lstep_inv:
  assumes "lstep s l s'" and "reach_inv bs s"
  shows "reach_inv (bs @ logged [l]) s'"
  using assms(1)
proof cases
  case (Append line lg lg' wk)
  obtain L T where ok: "log_ok lg wk L T" and c: "length bs < drop_bytes \<longrightarrow> content lg L T = bs" and pc: "lg_running lg \<longrightarrow> wk_pc wk \<noteq> WDone"
    using assms(2) Append(1) by (auto simp: reach_inv_def)
  from log_ok_append [OF ok Append(4)] Append(5) c pc show ?thesis by (fastforce simp: Append reach_inv_def)
next
  case (Work os wk lg r)
  obtain L T where ok: "log_ok lg wk L T" and c: "length bs < drop_bytes \<longrightarrow> content lg L T = bs"
    using assms(2) Work(1) by (auto simp: reach_inv_def)
  have pc: "wk_pc wk \<noteq> WDone" using Work(4) by (auto simp: worker_step_def)
  show ?thesis
  proof (cases r)
    case Exit
    then show ?thesis by (simp add: Work reach_inv_def after_work_def)
  next
    case (Return x)
    obtain lg' wk' where x: "x = (lg', wk')" by (cases x)
    from worker_step_ok [OF ok pc, of os] Work(4) obtain L' T' where m: "moves lg L T lg' wk' L' T'" by (auto simp: Return x)
    have "length bs < drop_bytes \<longrightarrow> content lg' L' T' = bs" using m c few_taken [of lg wk L T] ok by (fastforce simp: moves_def log_ok_def content_pending)
    moreover have "lg_running lg' \<longrightarrow> wk_pc wk' \<noteq> WDone" using worker_runs [OF ok, of os lg' wk'] Work(4) Return x by auto
    ultimately show ?thesis using m by (auto simp: Work Return x reach_inv_def after_work_def moves_def)
  qed
next
  case (Stop lg wk)
  with assms(2) log_ok_stop show ?thesis by (fastforce simp: reach_inv_def log_stop_def)
qed (simp add: reach_inv_def)

lemma lrun_inv: "lrun s ls s' \<Longrightarrow> reach_inv bs s \<Longrightarrow> reach_inv (bs @ logged ls) s'"
proof (induction arbitrary: bs rule: lrun.induct)
  case (Snoc s ls s' l s'')
  then show ?case using lstep_inv [OF Snoc.hyps(2) Snoc.IH [OF Snoc.prems]] by simp
qed simp

abbreviation log_init :: "int \<Rightarrow> int \<Rightarrow> int \<Rightarrow> bool \<Rightarrow> cstring option \<Rightarrow> cstring option \<Rightarrow> lstate" where
  "log_init level rollsize interval print dirname basename \<equiv> LRun (linit level rollsize interval print dirname basename) worker_init"

lemma reachable:
  assumes "good_init rollsize dirname basename" and "lrun (log_init level rollsize interval print dirname basename) ls s"
  shows "reach_inv (logged ls) s"
proof -
  have "reach_inv [] (log_init level rollsize interval print dirname basename)"
    using linit_ok [OF assms(1), of level interval print] unfolding reach_inv_def by (auto simp: worker_init_def)
  from lrun_inv [OF assms(2) this] show ?thesis by simp
qed

subsection \<open>Runs\<close>

definition good_label :: "llabel \<Rightarrow> bool" where
  "good_label l \<longleftrightarrow> (case l of Log line \<Rightarrow> length line < LOG_MAX | Work os \<Rightarrow> dir_ok os | _ \<Rightarrow> False)"

lemma good_step:
  assumes "reach_inv bs (LRun lg wk)" and "lg_running lg" and "good_label l"
  shows "\<exists>lg' wk'. lstep (LRun lg wk) l (LRun lg' wk') \<and> lg_running lg'"
proof -
  obtain L T where ok: "log_ok lg wk L T" and pc: "wk_pc wk \<noteq> WDone" using assms(1,2) by (auto simp: reach_inv_def)
  show ?thesis
  proof (cases l)
    case (Log line)
    with assms(3) log_ok_append [OF ok, of line] assms(2) show ?thesis by (auto simp: good_label_def lstep_log)
  next
    case (Work os)
    with assms(3) worker_step_ok [OF ok pc, of os] assms(2) obtain lg' wk' L' T' where
      "worker_step os wk lg = Some (Return (lg', wk'))" "moves lg L T lg' wk' L' T'" by (auto simp: good_label_def)
    then show ?thesis using Work assms(2) by (fastforce simp: lstep_work after_work_def moves_def)
  qed (use assms(3) in \<open>simp_all add: good_label_def\<close>)
qed

lemma good_run:
  assumes "reach_inv bs (LRun lg wk)" and "lg_running lg" and "\<forall>l \<in> set ls. good_label l"
  shows "\<exists>lg' wk'. lrun (LRun lg wk) ls (LRun lg' wk') \<and> lg_running lg' \<and> reach_inv (bs @ logged ls) (LRun lg' wk')"
  using assms(3)
proof (induction ls rule: rev_induct)
  case Nil
  then show ?case using assms(1,2) lrun.Nil by fastforce
next
  case (snoc l ls)
  then obtain lg1 wk1 where r: "lrun (LRun lg wk) ls (LRun lg1 wk1)" "lg_running lg1" "reach_inv (bs @ logged ls) (LRun lg1 wk1)" by auto
  from good_step [OF r(3,2), of l] snoc.prems obtain lg' wk' where s: "lstep (LRun lg1 wk1) l (LRun lg' wk')" "lg_running lg'" by auto
  show ?case using lrun.Snoc [OF r(1) s(1)] lstep_inv [OF s(1) r(3)] s(2) by fastforce
qed

lemma init_run:
  assumes "good_init rollsize dirname basename" and "\<forall>l \<in> set ls. good_label l"
  shows "\<exists>lg wk. lrun (log_init level rollsize interval print dirname basename) ls (LRun lg wk) \<and> lg_running lg"
proof -
  let ?lg = "linit level rollsize interval print dirname basename"
  have "reach_inv [] (LRun ?lg worker_init)" by (rule reachable [where ls = "[]", simplified, OF assms(1) lrun.Nil])
  moreover have "lg_running ?lg" by (simp add: linit_def Let_def)
  ultimately show ?thesis using good_run [of "[]" ?lg worker_init ls] assms(2) by blast
qed

lemma lrun_append: "lrun s' ls' s'' \<Longrightarrow> lrun s ls s' \<Longrightarrow> lrun s (ls @ ls') s''"
proof (induction rule: lrun.induct)
  case (Snoc s1 ls1 s2 l s3)
  then show ?case using lrun.Snoc [of s "ls @ ls1" s2 l s3] by simp
qed simp

lemma lrun_work: "worker_step os wk lg = Some (Return (lg', wk')) \<Longrightarrow> lrun (LRun lg' wk') ls s \<Longrightarrow> lrun (LRun lg wk) (Work os # ls) s"
  using lrun_append [of "LRun lg' wk'" ls s "LRun lg wk" "[Work os]"] lrun.Snoc [OF lrun.Nil lstep.Work [of os wk lg]]
  by (simp add: after_work_def)

text \<open>A system without trouble, for the examples.\<close>

definition calm :: os where
  "calm = \<lparr>os_dir = DirExists, os_fopen = \<lambda>_. True, os_mday = 1, os_time = cstr ''.20190101000000'', os_stamp = cstr ''20190101-000000''\<rparr>"

lemma good_calm: "good_label (Work calm)" "dir_ok calm"
  by (simp_all add: good_label_def dir_ok_def calm_def)

text \<open>
  C1: While fewer bytes than 25 full buffers have been logged, the bytes in the file followed by those in the
  buffers are the bytes logged, whatever the threads have done in which order.\<close>

lemma log_in_order:
  assumes "good_init rollsize dirname basename"
    and "lrun (log_init level rollsize interval print dirname basename) ls (LRun lg wk)"
    and "length (logged ls) < drop_bytes"
  shows "file_bytes lg @ taken_bytes lg wk @ waiting_bytes lg = logged ls"
  using reachable [OF assms(1,2)] assms(3) content_chain by (auto simp: reach_inv_def log_ok_def)

lemma log_in_order_witness:
  "\<exists>lg wk. lrun (log_init 0 0 0 False None None) [Log (cstr ''a''), Work calm, Log (cstr ''b'')] (LRun lg wk)
     \<and> file_bytes lg @ taken_bytes lg wk @ waiting_bytes lg = cstr ''ab''"
proof -
  let ?ls = "[Log (cstr ''a''), Work calm, Log (cstr ''b'')]"
  have g: "good_init 0 None None" by (simp add: good_init_def)
  obtain lg wk where r: "lrun (log_init 0 0 0 False None None) ?ls (LRun lg wk)"
    using init_run [OF g, of ?ls 0 0 False] by (auto simp: good_calm good_label_def LOG_MAX_def cstr_def)
  have "logged ?ls = cstr ''ab''" by (simp add: logged_def cstr_def)
  moreover have "length (cstr ''ab'') < drop_bytes" by (simp add: cstr_def drop_bytes_def LOG_BUFFER_SIZE_def LOG_MAX_def)
  ultimately show ?thesis using log_in_order [OF g r] r by auto
qed

text \<open>
  The specification: a queue of bytes between the threads that log and the file. A step of the
  worker moves some of its bytes, possibly none, from the front of the queue to the file; or, when
  at least 25 full buffers are in the queue, it keeps two of them, throws \<open>n\<close> buffers behind
  them away, all but the last of them full, and a line that says so goes to the end.\<close>

inductive fifo_step :: "byte list \<times> byte list \<Rightarrow> llabel \<Rightarrow> byte list \<times> byte list \<Rightarrow> bool" where
  Enqueue: "fifo_step (w, p) (Log line) (w, p @ line)"
| Flush: "fifo_step (w, x @ p) (Work os) (w @ x, p)"
| Drop: "24 \<le> n \<Longrightarrow> 2 * (LOG_BUFFER_SIZE - LOG_MAX) \<le> length x \<Longrightarrow> (n - 1) * (LOG_BUFFER_SIZE - LOG_MAX) \<le> length d
     \<Longrightarrow> fifo_step (w, x @ d @ p) (Work os) (w, x @ p @ drop_message (os_stamp os) (int n))"
| Idle: "fifo_step s Stop s"

definition log_abs :: "logger \<Rightarrow> worker \<Rightarrow> byte list \<times> byte list" where
  "log_abs lg wk = (file_bytes lg, taken_bytes lg wk @ waiting_bytes lg)"

lemma log_abs_pending: "log_ok lg wk L T \<Longrightarrow> log_abs lg wk = (file_bytes lg, pending lg L T)"
  using content_chain [of lg wk L T] by (simp add: log_ok_def log_abs_def content_pending)

lemma worker_keeps:
  assumes ok: "log_ok lg wk L T" and step: "worker_step os wk lg = Some (Return (lg', wk'))"
    and keep: "wk_pc wk = WUnlocked \<longrightarrow> length T \<le> 25"
  shows "\<exists>L' T'. moves lg L T lg' wk' L' T' \<and> content lg' L' T' = content lg L T"
proof (cases "wk_pc wk = WWrite")
  case True
  from worker_write_ok [OF ok True, of os] step True have
    m: "moves lg L T lg' wk' L []" "datas (lg_heap lg') (L @ [lg_curr lg']) = datas (lg_heap lg) (L @ [lg_curr lg])"
      "file_bytes lg' = file_bytes lg @ datas (lg_heap lg) T" by (auto simp: worker_step_def)
  then show ?thesis by (intro exI [of _ L] exI [of _ "[]"]) (simp add: content_def)
next
  case False
  have pc: "wk_pc wk \<noteq> WDone" using step by (auto simp: worker_step_def)
  have "length T \<le> 25" using ok keep False pc by (cases "wk_pc wk") (simp_all add: log_ok_def log_inv_def taken_def)
  with worker_step_ok [OF ok pc, of os] step show ?thesis by (fastforce simp: moves_def)
qed

lemma worker_drops:
  assumes ok: "log_ok lg wk L T" and pc: "wk_pc wk = WUnlocked" and many: "25 < length T"
    and step: "worker_step os wk lg = Some (Return (lg', wk'))"
  shows "fifo_step (log_abs lg wk) (Work os) (log_abs lg' wk')"
proof -
  let ?full = "LOG_BUFFER_SIZE - LOG_MAX"
  from worker_drop_many [OF ok pc many, of os] step pc obtain L' T' where m: "moves lg L T lg' wk' L' T'" "file_bytes lg' = file_bytes lg"
      "datas (lg_heap lg') T' = datas (lg_heap lg) (take 2 T)"
      "datas (lg_heap lg') (L' @ [lg_curr lg']) = datas (lg_heap lg) (L @ [lg_curr lg]) @ drop_message (os_stamp os) (int (length T) - 2)"
    by (auto simp: worker_step_def)
  obtain a b F t where T: "T = a # b # F @ [t]" using many
    by (cases T; cases "tl T"; cases "tl (tl T)" rule: rev_cases) auto
  have big: "LOG_BUFFER_SIZE \<le> length (data_of (lg_heap lg) x) + LOG_MAX" if "x \<in> set (a # b # F)" for x
    using ok that by (auto simp: T log_ok_def log_inv_def taken_def butlast_append)
  have "length [a, b] * ?full \<le> length (datas (lg_heap lg) [a, b])" by (rule full_bytes) (use big in auto)
  moreover have "length F * ?full \<le> length (datas (lg_heap lg) F)" by (rule full_bytes) (use big in auto)
  ultimately have "fifo_step (file_bytes lg, datas (lg_heap lg) [a, b] @ datas (lg_heap lg) (F @ [t]) @ datas (lg_heap lg) (L @ [lg_curr lg])) (Work os)
      (file_bytes lg, datas (lg_heap lg) [a, b] @ datas (lg_heap lg) (L @ [lg_curr lg]) @ drop_message (os_stamp os) (int (length (F @ [t]))))"
    using many by (intro fifo_step.Drop) (simp_all add: T datas_def)
  moreover have "log_ok lg' wk' L' T'" using m(1) by (simp add: moves_def)
  ultimately show ?thesis using log_abs_pending [OF ok] log_abs_pending [of lg' wk' L' T'] m(2-)
    by (simp add: pending_def T datas_def)
qed

text \<open>
  C6: Every step of the logger that does not end it is a step of a queue of bytes, from every reachable state: a line
  goes to the end of the queue, and the worker moves bytes from its front to the file, or, when more than 25 buffers
  were taken at once, drops all but the first two of them and adds a line about it to the end.\<close>

lemma log_refines_fifo:
  assumes "good_init rollsize dirname basename"
    and "lrun (log_init level rollsize interval print dirname basename) ls (LRun lg wk)"
    and "lstep (LRun lg wk) l (LRun lg' wk')"
  shows "fifo_step (log_abs lg wk) l (log_abs lg' wk')"
proof -
  obtain L T where ok: "log_ok lg wk L T" using reachable [OF assms(1,2)] by (auto simp: reach_inv_def)
  show ?thesis using assms(3)
  proof cases
    case (Append line)
    from log_ok_append [OF ok Append(3)] Append(4) obtain L' where
      m: "log_ok lg' wk L' T" "content lg' L' T = content lg L T @ line" by auto
    have f: "file_bytes lg' = file_bytes lg"
      using append_ok [of lg wk L T line] ok Append(3,4) by (auto simp: log_ok_def file_bytes_def log_rest_def)
    then show ?thesis using m(2) log_abs_pending [OF ok] log_abs_pending [OF m(1)] Append(1,2)
      by (simp add: content_pending fifo_step.Enqueue)
  next
    case (Work os r)
    then have step: "worker_step os wk lg = Some (Return (lg', wk'))" by (auto simp: after_work_def split: outcome.splits prod.splits)
    show ?thesis
    proof (cases "wk_pc wk = WUnlocked \<and> 25 < length T")
      case True
      then show ?thesis using worker_drops [OF ok _ _ step] Work(1) by simp
    next
      case False
      with worker_keeps [OF ok step] obtain L' T' where m: "moves lg L T lg' wk' L' T'" "content lg' L' T' = content lg L T" by auto
      then obtain x where x: "file_bytes lg' = file_bytes lg @ x" by (auto simp: moves_def)
      then have p: "pending lg L T = x @ pending lg' L' T'" using m(2) by (simp add: content_pending)
      have "log_ok lg' wk' L' T'" using m(1) by (simp add: moves_def)
      from log_abs_pending [OF ok] log_abs_pending [OF this] show ?thesis by (simp add: p x Work(1) fifo_step.Flush)
    qed
  next
    case Stop
    then have "log_abs lg' wk' = log_abs lg wk"
      by (simp add: log_abs_def log_stop_def file_bytes_def taken_bytes_def waiting_bytes_def cong: option.case_cong)
    then show ?thesis using Stop by (simp add: fifo_step.Idle)
  qed
qed

lemma log_refines_fifo_witness:
  "\<exists>lg wk. lstep (log_init 0 0 0 False None None) (Log (cstr ''b'')) (LRun lg wk) \<and> fifo_step ([], []) (Log (cstr ''b'')) (log_abs lg wk)"
proof -
  let ?lg = "linit 0 0 0 False None None" and ?l = "Log (cstr ''b'')"
  have g: "good_init 0 None None" by (simp add: good_init_def)
  have nil: "lrun (LRun ?lg worker_init) [] (LRun ?lg worker_init)" by (rule lrun.Nil)
  have "reach_inv [] (LRun ?lg worker_init)" "lg_running ?lg" "good_label ?l"
    using reachable [OF g nil] by (simp_all add: linit_def Let_def good_label_def cstr_def LOG_MAX_def)
  from good_step [OF this] obtain lg wk where s: "lstep (LRun ?lg worker_init) ?l (LRun lg wk)" by blast
  have "log_abs ?lg worker_init = ([], [])"
    using linit_ok [OF g, of 0 0 False] content_chain [of ?lg worker_init "[]" "[]"] by (simp add: log_abs_def log_ok_def)
  then show ?thesis using log_refines_fifo [OF g nil s] s by auto
qed

text \<open>
  C13: In no reachable state does an assertion fail, or a thread use a pointer to no block: every line can be
  appended, and the worker can go on until its end.\<close>

lemma log_never_stuck:
  assumes "good_init rollsize dirname basename"
    and "lrun (log_init level rollsize interval print dirname basename) ls (LRun lg wk)"
  shows "(length line < LOG_MAX \<longrightarrow> append line lg \<noteq> None) \<and> (wk_pc wk \<noteq> WDone \<longrightarrow> worker_step os wk lg \<noteq> None)"
proof -
  obtain L T where ok: "log_ok lg wk L T" using reachable [OF assms] by (auto simp: reach_inv_def)
  then show ?thesis using log_ok_append [OF ok] worker_step_ok [OF ok, of os] by fastforce
qed

lemma log_never_stuck_witness:
  "\<exists>lg wk. lrun (log_init 0 0 0 False None None) [Work calm, Log (cstr ''a''), Work calm] (LRun lg wk) \<and> append (cstr ''b'') lg \<noteq> None"
proof -
  have g: "good_init 0 None None" by (simp add: good_init_def)
  obtain lg wk where r: "lrun (log_init 0 0 0 False None None) [Work calm, Log (cstr ''a''), Work calm] (LRun lg wk)"
    using init_run [OF g, of "[Work calm, Log (cstr ''a''), Work calm]" 0 0 False] by (auto simp: good_calm good_label_def LOG_MAX_def cstr_def)
  have "length (cstr ''b'') < LOG_MAX" by (simp add: cstr_def LOG_MAX_def)
  with log_never_stuck [OF g r, of "cstr ''b''" calm] r show ?thesis by blast
qed

text \<open>The worker alone.\<close>

definition drains :: "os \<Rightarrow> nat \<Rightarrow> logger \<Rightarrow> worker \<Rightarrow> byte list \<Rightarrow> bool" where
  "drains os n lg wk bs \<longleftrightarrow> (\<exists>k \<le> n. \<exists>lg' wk'. lrun (LRun lg wk) (replicate k (Work os)) (LRun lg' wk') \<and> file_bytes lg' = bs)"

lemma drains_step: "worker_step os wk lg = Some (Return (lg', wk')) \<Longrightarrow> drains os n lg' wk' bs \<Longrightarrow> drains os (Suc n) lg wk bs"
  unfolding drains_def by (metis Suc_le_mono lrun_work replicate_Suc)

lemma drain_write:
  assumes "log_ok lg wk [] T" and "wk_pc wk = WWrite" and "dir_ok os" and "data_of (lg_heap lg) (lg_curr lg) = []"
  shows "drains os 1 lg wk (content lg [] T)"
proof -
  from worker_write_ok [OF assms(1,2), of os] assms(3) obtain lg' wk' where
    w: "worker_write os wk lg = Some (Return (lg', wk'))" "file_bytes lg' = file_bytes lg @ datas (lg_heap lg) T" by auto
  then have "worker_step os wk lg = Some (Return (lg', wk'))" using assms(2) by (simp add: worker_step_def)
  moreover have "file_bytes lg' = content lg [] T" using w(2) assms(4) by (simp add: content_def)
  then have "drains os 0 lg' wk' (content lg [] T)" unfolding drains_def using lrun.Nil by fastforce
  ultimately show ?thesis using drains_step by fastforce
qed

lemma drain_swap:
  assumes "log_ok lg wk L T" and "worker_step os wk lg = worker_swap os wk lg" and "wk_pc wk = WLock \<or> wk_pc wk = WWait"
    and "dir_ok os" and "length (pending lg L T) < drop_bytes" and "length T \<le> 25"
  shows "drains os 3 lg wk (content lg L T)"
proof -
  let ?T = "L @ [lg_curr lg]"
  from worker_swap_ok [OF assms(1,3), of os] assms(4) obtain lg1 wk1 where s:
    "worker_swap os wk lg = Some (Return (lg1, wk1))" "wk_pc wk1 = WUnlocked" "moves lg L T lg1 wk1 [] ?T" "data_of (lg_heap lg1) (lg_curr lg1) = []" by auto
  have ok: "log_ok lg1 wk1 [] ?T" and c: "content lg1 [] ?T = content lg L T" using s(3) assms(6) by (auto simp: moves_def)
  have few: "length ?T \<le> 25" using few_taken [of lg1 wk1 "[]" ?T] pending_less [OF s(3) c assms(5)] ok by (simp add: log_ok_def)
  note d = worker_drop_few(1) [OF ok s(2) few, of os] worker_drop_few(2) [OF ok s(2) few]
  have "drains os 1 lg1 (wk1\<lparr>wk_pc := WWrite\<rparr>) (content lg1 [] ?T)"
    by (rule drain_write) (use d(2) assms(4) s(4) in \<open>simp_all add: moves_def\<close>)
  moreover have "worker_step os wk1 lg1 = Some (Return (lg1, wk1\<lparr>wk_pc := WWrite\<rparr>))" using d(1) s(2) by (simp add: worker_step_def)
  ultimately have "drains os 2 lg1 wk1 (content lg L T)" using drains_step c by (metis Suc_1)
  then show ?thesis using drains_step [of os wk lg lg1 wk1 2] s(1) assms(2) by (simp add: eval_nat_numeral)
qed

lemma drains_mono: "drains os n lg wk bs \<Longrightarrow> n \<le> m \<Longrightarrow> drains os m lg wk bs"
  unfolding drains_def using le_trans [of _ n m] by blast

lemma drain_lock:
  assumes "log_ok lg wk L T" and "wk_pc wk = WLock" and "dir_ok os" and "length (pending lg L T) < drop_bytes"
  shows "drains os 4 lg wk (content lg L T)"
proof -
  have few: "length T \<le> 25" using few_taken [of lg wk L T] assms(1,4) by (simp add: log_ok_def)
  show ?thesis
  proof (cases "lg_head lg = None")
    case True
    have "log_ok lg (wk\<lparr>wk_pc := WWait\<rparr>) L T" using pc_moves [OF assms(1), of WWait] assms(2) by (simp add: moves_def)
    then have "drains os 3 lg (wk\<lparr>wk_pc := WWait\<rparr>) (content lg L T)"
      by (rule drain_swap) (use assms few in \<open>simp_all add: worker_step_def\<close>)
    then show ?thesis using drains_step [of os wk lg lg "wk\<lparr>wk_pc := WWait\<rparr>" 3] True assms(2)
      by (simp add: worker_step_def worker_lock_def eval_nat_numeral)
  next
    case False
    have "drains os 3 lg wk (content lg L T)"
      by (rule drain_swap [OF assms(1)]) (use assms False few in \<open>auto simp: worker_step_def worker_lock_def\<close>)
    then show ?thesis by (rule drains_mono) simp
  qed
qed

lemma drain_top:
  assumes "log_ok lg wk L T" and "wk_pc wk = WTop" and "lg_running lg" and "dir_ok os" and "length (pending lg L T) < drop_bytes"
  shows "drains os 5 lg wk (content lg L T)"
proof -
  have "log_ok lg (wk\<lparr>wk_pc := WLock\<rparr>) L T" using pc_moves [OF assms(1), of WLock] assms(2) by (simp add: moves_def)
  then have "drains os 4 lg (wk\<lparr>wk_pc := WLock\<rparr>) (content lg L T)" by (rule drain_lock) (use assms in simp_all)
  then show ?thesis using drains_step [of os wk lg lg "wk\<lparr>wk_pc := WLock\<rparr>" 4] worker_top_ok [OF assms(1,2)] assms(2,3)
    by (simp add: worker_step_def eval_nat_numeral)
qed

text \<open>A step that leads to the head of the loop, or to a state from which the rest is known.\<close>

lemma drain_to_top:
  assumes "worker_step os wk lg = Some (Return (lg', wk'))" and "moves lg L T lg' wk' L' T'" and "wk_pc wk' = WTop"
    and "log_ok lg wk L T" and "lg_running lg" and "dir_ok os" and "length (pending lg L T) < drop_bytes"
  shows "drains os 6 lg wk (content lg L T)"
proof -
  have "length T \<le> 25" using few_taken [of lg wk L T] assms(4,7) by (simp add: log_ok_def)
  then have m: "log_ok lg' wk' L' T'" "lg_running lg'" "content lg' L' T' = content lg L T" using assms(2,5) by (auto simp: moves_def)
  then have "drains os 5 lg' wk' (content lg L T)" using drain_top [OF m(1) assms(3) m(2) assms(6)] pending_less [OF assms(2) m(3) assms(7)] m(3) by simp
  then show ?thesis using drains_step [OF assms(1), of 5] by (simp add: eval_nat_numeral)
qed

lemma drain_any:
  assumes ok: "log_ok lg wk L T" and pc: "wk_pc wk \<noteq> WDone" and "lg_running lg" and "dir_ok os" and "length (pending lg L T) < drop_bytes"
  shows "drains os 7 lg wk (content lg L T)"
proof -
  have few: "length T \<le> 25" using few_taken [of lg wk L T] assms(1,5) by (simp add: log_ok_def)
  consider "wk_pc wk = WStart" | "wk_pc wk = WTop" | "wk_pc wk = WLock" | "wk_pc wk = WWait" | "wk_pc wk = WUnlocked" | "wk_pc wk = WWrite"
    using pc by (cases "wk_pc wk") auto
  then show ?thesis
  proof cases
    case 1
    from worker_start_ok [OF ok 1, of os] assms(4) obtain lg' wk' where
      "worker_start os wk lg = Some (Return (lg', wk'))" "wk_pc wk' = WTop" "moves lg L T lg' wk' L T" by auto
    then have "drains os 6 lg wk (content lg L T)" using drain_to_top [of os wk lg lg' wk' L T L T] assms 1 by (simp add: worker_step_def)
    then show ?thesis by (rule drains_mono) simp
  next
    case 2
    from drain_top [OF ok 2 assms(3,4,5)] show ?thesis by (rule drains_mono) simp
  next
    case 3
    from drain_lock [OF ok 3 assms(4,5)] show ?thesis by (rule drains_mono) simp
  next
    case 4
    have "drains os 3 lg wk (content lg L T)" by (rule drain_swap [OF ok]) (use assms 4 few in \<open>simp_all add: worker_step_def\<close>)
    then show ?thesis by (rule drains_mono) simp
  next
    case 5
    note d = worker_drop_few(1) [OF ok 5 few, of os] worker_drop_few(2) [OF ok 5 few]
    let ?wk = "wk\<lparr>wk_pc := WWrite\<rparr>"
    from worker_write_ok [of lg ?wk L T os] d(2) assms(4) obtain lg' wk' where
      "worker_write os ?wk lg = Some (Return (lg', wk'))" "wk_pc wk' = WTop" "moves lg L T lg' wk' L []" by (auto simp: moves_def)
    then have "drains os 6 lg ?wk (content lg L T)"
      using drain_to_top [of os ?wk lg lg' wk' L T L "[]"] d(2) assms by (simp add: worker_step_def moves_def)
    then show ?thesis using drains_step [of os wk lg lg ?wk 6] d(1) 5 by (simp add: worker_step_def eval_nat_numeral)
  next
    case 6
    from worker_write_ok [OF ok 6, of os] assms(4) obtain lg' wk' where
      "worker_write os wk lg = Some (Return (lg', wk'))" "wk_pc wk' = WTop" "moves lg L T lg' wk' L []" by auto
    then have "drains os 6 lg wk (content lg L T)" using drain_to_top [of os wk lg lg' wk' L T L "[]"] assms 6 by (simp add: worker_step_def)
    then show ?thesis by (rule drains_mono) simp
  qed
qed

text \<open>
  C20: From every reachable state of a logger that has not been told to stop, in which fewer bytes wait than fill 25
  buffers, at most seven steps of the worker bring everything that waits to the file, if the directory of the files
  is there or can be made.\<close>

lemma log_drains:
  assumes "good_init rollsize dirname basename"
    and "lrun (log_init level rollsize interval print dirname basename) ls (LRun lg wk)"
    and "lg_running lg" and "dir_ok os" and "length (taken_bytes lg wk @ waiting_bytes lg) < drop_bytes"
  shows "\<exists>k \<le> 7. \<exists>lg' wk'. lrun (LRun lg wk) (replicate k (Work os)) (LRun lg' wk')
    \<and> file_bytes lg' = file_bytes lg @ taken_bytes lg wk @ waiting_bytes lg"
proof -
  obtain L T where ok: "log_ok lg wk L T" and pc: "wk_pc wk \<noteq> WDone"
    using reachable [OF assms(1,2)] assms(3) by (auto simp: reach_inv_def)
  have c: "content lg L T = file_bytes lg @ taken_bytes lg wk @ waiting_bytes lg"
    using content_chain ok by (simp add: log_ok_def)
  then have "length (pending lg L T) < drop_bytes" using assms(5) by (simp add: content_pending)
  from drain_any [OF ok pc assms(3,4) this] show ?thesis by (simp add: drains_def c)
qed

lemma log_drains_witness:
  "\<exists>lg wk k lg' wk'. lrun (log_init 0 0 0 False None None) [Work calm, Log (cstr ''a'')] (LRun lg wk) \<and> k \<le> 7
     \<and> lrun (LRun lg wk) (replicate k (Work calm)) (LRun lg' wk') \<and> file_bytes lg' = cstr ''a''"
proof -
  let ?ls = "[Work calm, Log (cstr ''a'')]"
  have g: "good_init 0 None None" by (simp add: good_init_def)
  obtain lg wk where r: "lrun (log_init 0 0 0 False None None) ?ls (LRun lg wk)" "lg_running lg"
    using init_run [OF g, of ?ls 0 0 False] by (auto simp: good_calm good_label_def LOG_MAX_def cstr_def)
  have "logged ?ls = cstr ''a''" by (simp add: logged_def cstr_def)
  moreover have small: "length (cstr ''a'') < drop_bytes" by (simp add: cstr_def drop_bytes_def LOG_BUFFER_SIZE_def LOG_MAX_def)
  ultimately have all: "file_bytes lg @ taken_bytes lg wk @ waiting_bytes lg = cstr ''a''"
    using reachable [OF g r(1)] content_chain by (fastforce simp: reach_inv_def log_ok_def)
  then have "length (taken_bytes lg wk @ waiting_bytes lg) < drop_bytes"
    using small by (metis length_append le_add2 le_less_trans)
  from log_drains [OF g r good_calm(2) this] all r(1) show ?thesis by metis
qed

text \<open>
  When \<open>log_exit\<close> is called while the worker is at the head of its loop, the logger is closed without writing
  what waits in the buffers.\<close>

lemma log_exit_loses:
  assumes "good_init rollsize dirname basename"
    and "lrun (log_init level rollsize interval print dirname basename) ls (LRun lg wk)"
    and "lg_running lg" and "wk_pc wk = WTop"
  shows "\<exists>lg'. lrun (LRun lg wk) [Stop, Work os, Join] (LClosed lg') \<and> lg_out lg' = lg_out lg"
proof -
  obtain L T where ok: "log_ok lg wk L T" using reachable [OF assms(1,2)] by (auto simp: reach_inv_def)
  let ?lg = "log_stop lg" and ?wk = "wk\<lparr>wk_pc := WDone\<rparr>"
  have "worker_step os wk ?lg = Some (Return (?lg, ?wk))"
    using worker_top_ok [OF log_ok_stop(1) [OF ok] assms(4)] assms(4) by (simp add: worker_step_def log_stop_def)
  moreover have "lrun (LRun ?lg ?wk) [Join] (LClosed (log_close ?lg))"
    using lrun.Snoc [OF lrun.Nil lstep.Join [of ?lg ?wk]] by (simp add: log_stop_def)
  ultimately have "lrun (LRun ?lg wk) [Work os, Join] (LClosed (log_close ?lg))" by (rule lrun_work)
  moreover have "lrun (LRun lg wk) [Stop] (LRun ?lg wk)" using lrun.Snoc [OF lrun.Nil lstep.Stop [OF assms(3), of wk]] by simp
  ultimately have "lrun (LRun lg wk) [Stop, Work os, Join] (LClosed (log_close ?lg))" using lrun_append by fastforce
  moreover have "lg_out (log_close ?lg) = lg_out lg" by (simp add: log_close_def log_stop_def fclose_file_def split: handle.split)
  ultimately show ?thesis by blast
qed

lemma log_exit_loses_witness:
  "\<exists>lg wk lg'. lrun (log_init 0 0 0 False None None) [Work calm, Log (cstr ''a'')] (LRun lg wk)
     \<and> lrun (LRun lg wk) [Stop, Work calm, Join] (LClosed lg') \<and> lg_out lg' = []"
proof -
  let ?lg = "linit 0 0 0 False None None"
  have g: "good_init 0 None None" by (simp add: good_init_def)
  have ok: "log_ok ?lg worker_init [] []" and pc: "wk_pc worker_init = WStart" using linit_ok [OF g] by (simp_all add: worker_init_def)
  from worker_start_ok [OF ok pc, of calm] good_calm obtain lg1 wk1 where
    w: "worker_start calm worker_init ?lg = Some (Return (lg1, wk1))" "wk_pc wk1 = WTop" "moves ?lg [] [] lg1 wk1 [] []" by auto
  have ok1: "log_ok lg1 wk1 [] []" and run: "lg_running lg1" using w(3) by (simp_all add: moves_def linit_def Let_def)
  have out: "lg_out lg1 = []"
  proof -
    from rollfile_ok [of ?lg calm] ok good_calm obtain l where "rollfile calm ?lg = Some (Return l)" "log_core l = log_core ?lg" by (auto simp: log_ok_def)
    then have "lg_out lg1 = lg_out ?lg" using w(1) by (auto simp: worker_start_def calloc_buffer_def log_core_def Let_def)
    then show ?thesis by (simp add: linit_def Let_def)
  qed
  have "length (cstr ''a'') < LOG_MAX" by (simp add: cstr_def LOG_MAX_def)
  with append_ok [of lg1 wk1 "[]" "[]"] ok1 obtain lg2 where a: "append (cstr ''a'') lg1 = Some lg2" "log_rest lg2 = log_rest lg1"
    by (fastforce simp: log_ok_def)
  have "lstep (LRun ?lg worker_init) (Work calm) (LRun lg1 wk1)" using w(1) pc by (simp add: lstep_work worker_step_def after_work_def)
  moreover have "lstep (LRun lg1 wk1) (Log (cstr ''a'')) (LRun lg2 wk1)" using a(1) by (simp add: lstep_log cstr_def LOG_MAX_def)
  ultimately have r: "lrun (LRun ?lg worker_init) [Work calm, Log (cstr ''a'')] (LRun lg2 wk1)"
    using lrun.Snoc [OF lrun.Snoc [OF lrun.Nil]] by fastforce
  from log_exit_loses [OF g r, of calm] w(2) run a(2) out r show ?thesis by (auto simp: log_rest_def)
qed

subsection \<open>Rolling\<close>

definition log_path :: "os \<Rightarrow> cstring \<Rightarrow> cstring \<Rightarrow> int \<Rightarrow> cstring" where
  "log_path os dir base i =
     take 127 (dir @ cstr ''/'' @ take 127 (base @ os_time os @ cstr ''-'' @ decimal_int i @ cstr ''.log''))"

lemma roll_loop_step:
  assumes "c_string (lg_dirname lg) = Some dir" and "c_string (lg_basename lg) = Some base" and "\<forall>path. os_fopen os path"
  shows "roll_loop os lg =
    (let path = log_path os dir base (lg_roll_index lg);
         lg = lg\<lparr>lg_roll_index := lg_roll_index lg + 1, lg_handle := File path, lg_open := path # lg_open lg, lg_files := path # lg_files lg\<rparr>
     in if lg_written lg \<ge> as_size (lg_rollsize lg) then roll_loop os (lg\<lparr>lg_open := tl (lg_open lg), lg_written := 0\<rparr>)
        else Some (lg\<lparr>lg_roll_mday := os_mday os\<rparr>))"
  by (subst roll_loop.simps) (simp add: assms get_log_filename_def log_path_def fclose_file_def Let_def del: take_append)

text \<open>
  C19: A roll opens one file, or two when the size has been reached, of which the first stays empty; the old file is
  closed only when something has been written to it, and the count of bytes goes on when a new day has come.\<close>

lemma rollfile_result:
  assumes "lg_handle lg = File p" and "c_string (lg_dirname lg) = Some dir" and "c_string (lg_basename lg) = Some base"
    and "0 < as_size (lg_rollsize lg)" and "dir_ok os" and "\<forall>path. os_fopen os path"
  shows "rollfile os lg = Some (Return
    (let full = as_size (lg_rollsize lg) \<le> lg_written lg;
         path = log_path os dir base (lg_roll_index lg);
         i = (if full then lg_roll_index lg + 1 else lg_roll_index lg);
         path' = log_path os dir base i
     in lg\<lparr>lg_handle := File path', lg_written := if full then 0 else lg_written lg, lg_roll_mday := os_mday os, lg_roll_index := i + 1,
           lg_open := path' # (if 0 < lg_written lg then remove1 p (lg_open lg) else lg_open lg),
           lg_files := (if full then [path', path] else [path]) @ lg_files lg\<rparr>))"
proof -
  let ?lg = "if lg_handle lg \<noteq> Null \<and> lg_written lg > 0 then fclose_file (lg_handle lg) lg else lg"
  have f: "?lg = lg\<lparr>lg_open := if 0 < lg_written lg then remove1 p (lg_open lg) else lg_open lg\<rparr>"
    using assms(1) by (simp add: fclose_file_def)
  have "rollfile os lg = map_option Return (roll_loop os ?lg)"
    using assms(1,5) by (auto simp: rollfile_def dir_ok_def Let_def)
  also have "\<dots> = Some (Return
    (let full = as_size (lg_rollsize lg) \<le> lg_written lg;
         path = log_path os dir base (lg_roll_index lg);
         i = (if full then lg_roll_index lg + 1 else lg_roll_index lg);
         path' = log_path os dir base i
     in lg\<lparr>lg_handle := File path', lg_written := if full then 0 else lg_written lg, lg_roll_mday := os_mday os, lg_roll_index := i + 1,
           lg_open := path' # (if 0 < lg_written lg then remove1 p (lg_open lg) else lg_open lg),
           lg_files := (if full then [path', path] else [path]) @ lg_files lg\<rparr>))"
    unfolding f using assms(2,3,4,6) by (simp add: roll_loop_step [OF _ _ assms(6)] Let_def)
  finally show ?thesis .
qed

lemma rollfile_result_witness:
  "\<exists>lg. lg_open lg = [cstr ''b'', cstr ''a''] \<and> lg_written lg = 0 \<and> lg_handle lg = File (cstr ''a'')
     \<and> map_option (\<lambda>r. case r of Exit \<Rightarrow> 0 | Return lg \<Rightarrow> length (lg_open lg)) (rollfile calm lg) = Some 3"
proof -
  let ?lg = "(linit 0 0 0 False None None)\<lparr>lg_handle := File (cstr ''a''), lg_open := [cstr ''b'', cstr ''a'']\<rparr>"
  have g: "good_init 0 None None" by (simp add: good_init_def)
  from linit_ok(1) [OF g, of 0 0 False] obtain d b where
    c: "c_string (lg_dirname ?lg) = Some d" "c_string (lg_basename ?lg) = Some b" "0 < as_size (lg_rollsize ?lg)"
    by (auto simp: log_ok_def log_cfg_def)
  have h: "lg_handle ?lg = File (cstr ''a'')" by simp
  have z: "lg_written ?lg = 0" by (simp add: linit_def Let_def)
  have all: "\<forall>path. os_fopen calm path" by (simp add: calm_def)
  have "map_option (\<lambda>r. case r of Exit \<Rightarrow> 0 | Return lg \<Rightarrow> length (lg_open lg)) (rollfile calm ?lg) = Some 3"
    unfolding rollfile_result [OF h c good_calm(2) all] using c(3) z by (simp add: Let_def)
  moreover have "lg_open ?lg = [cstr ''b'', cstr ''a'']" by simp
  ultimately show ?thesis using h z by blast
qed

text \<open>With a size of zero the loop never ends.\<close>

lemma roll_loop_zero:
  assumes "roll_loop os lg = Some lg'" and "\<forall>path. os_fopen os path" and "as_size (lg_rollsize lg) = 0"
  shows "False"
proof -
  let ?P = "\<lambda>os lg (lg' :: logger). (\<forall>path. os_fopen os path) \<longrightarrow> as_size (lg_rollsize lg) = 0 \<longrightarrow> False"
  have "?P os lg lg'"
  proof (rule roll_loop.raw_induct [of ?P, OF _ assms(1)])
    fix roll os lg lg'
    assume IH: "\<And>os lg lg'. roll os lg = Some lg' \<Longrightarrow> ?P os lg lg'"
      and step: "do {
          dir \<leftarrow> c_string (lg_dirname lg);
          base \<leftarrow> c_string (lg_basename lg);
          let (lg, name) = get_log_filename os base lg;
          let path = take 127 (dir @ cstr ''/'' @ name);
          if \<not> os_fopen os path then Some (lg\<lparr>lg_handle := Std\<rparr>)
          else do {
            let lg = lg\<lparr>lg_handle := File path, lg_open := path # lg_open lg, lg_files := path # lg_files lg\<rparr>;
            if lg_written lg \<ge> as_size (lg_rollsize lg) then roll os ((fclose_file (File path) lg)\<lparr>lg_written := 0\<rparr>)
            else Some (lg\<lparr>lg_roll_mday := os_mday os\<rparr>) } } = Some lg'"
    show "?P os lg lg'"
    proof (intro impI)
      assume all: "\<forall>path. os_fopen os path" and z: "as_size (lg_rollsize lg) = 0"
      from step all z obtain lg1 where "roll os lg1 = Some lg'" "as_size (lg_rollsize lg1) = 0"
        by (auto simp: bind_eq_Some_conv get_log_filename_def fclose_file_def Let_def [abs_def] simp del: take_append)
      with IH all show False by blast
    qed
  qed
  then show False using assms(2,3) by blast
qed

text \<open>
  A size of a multiple of 4096 MB is zero as an \<open>int\<close>, and the worker never comes to the head of its loop.\<close>

lemma rollsize_overflow:
  assumes "4096 dvd rollsize" and "0 < rollsize" and "rollsize < 2 ^ 31" and "dir_ok os" and "\<forall>path. os_fopen os path"
  shows "worker_step os worker_init (linit level rollsize interval print dirname basename) = None"
proof -
  let ?lg = "linit level rollsize interval print dirname basename"
  obtain k where k: "rollsize = 4096 * k" using assms(1) by (auto simp: dvd_def)
  have "as_int (rollsize * ONE_MB) = 0"
  proof -
    have "(of_int (rollsize * ONE_MB) :: u32) = of_int (2 ^ 32) * of_int k" by (simp add: k ONE_MB_def)
    also have "(of_int (2 ^ 32) :: u32) = 0" by simp
    finally show ?thesis by (simp add: as_int_def)
  qed
  then have "lg_rollsize ?lg = 0" using assms(2,3) by (simp add: linit_def Let_def as_int_id)
  then have z: "as_size (lg_rollsize ?lg) = 0" by (simp add: as_size_def)
  have "lg_handle ?lg = Null" by (simp add: linit_def Let_def)
  then have "rollfile os ?lg = map_option Return (roll_loop os ?lg)" using assms(4) by (auto simp: rollfile_def dir_ok_def Let_def)
  moreover have "roll_loop os ?lg = None" using roll_loop_zero [of os ?lg] z assms(5) by (cases "roll_loop os ?lg") auto
  ultimately show ?thesis by (simp add: worker_step_def worker_init_def worker_start_def)
qed

lemma rollsize_overflow_witness: "worker_step calm worker_init (linit 0 4096 0 False None None) = None"
  by (rule rollsize_overflow) (simp_all add: good_calm, simp add: calm_def)

end
