(* ===== verification/LuaValue.thy ===== *)
theory LuaValue
  imports Ieee
begin

section \<open>Lua values\<close>

text \<open>
  The values that the JSON library takes from Lua and gives to it. A number is given by the 64 bits of the \<open>double\<close>
  that \<open>lua_tonumber\<close> returns. A table is the list of its entries in the order in which \<open>lua_next\<close> visits
  them. \<open>LLight\<close> is a light userdata, the NULL pointer or another one; the values of the remaining types are
  \<open>LOther\<close> with the name of the type.
\<close>

datatype lua = LNil | LBool bool | LNum u64 | LStr "byte list" | LTable "(lua \<times> lua) list" | LLight bool | LOther cstring

fun lua_typename :: "lua \<Rightarrow> cstring" where
  "lua_typename LNil = cstr ''nil''"
| "lua_typename (LBool b) = cstr ''boolean''"
| "lua_typename (LNum x) = cstr ''number''"
| "lua_typename (LStr s) = cstr ''string''"
| "lua_typename (LTable t) = cstr ''table''"
| "lua_typename (LLight b) = cstr ''userdata''"
| "lua_typename (LOther t) = t"

subsection \<open>Numbers\<close>

definition dbl_exponent :: "u64 \<Rightarrow> nat" where "dbl_exponent x = unat x div 2 ^ 52 mod 2 ^ 11"
definition dbl_fraction :: "u64 \<Rightarrow> nat" where "dbl_fraction x = unat x mod 2 ^ 52"
definition dbl_sign :: "u64 \<Rightarrow> bool" where "dbl_sign x \<longleftrightarrow> 2 ^ 63 \<le> unat x"

definition dbl_isnan :: "u64 \<Rightarrow> bool" where "dbl_isnan x \<longleftrightarrow> dbl_exponent x = 2047 \<and> dbl_fraction x \<noteq> 0"
definition dbl_isinf :: "u64 \<Rightarrow> bool" where "dbl_isinf x \<longleftrightarrow> dbl_exponent x = 2047 \<and> dbl_fraction x = 0"

text \<open>
  The number when it is an integer of at least one. Infinity is one too, for \<open>floor\<close> and the comparison; it comes out as
  2^1024.\<close>

definition dbl_pos_int :: "u64 \<Rightarrow> nat option" where
  "dbl_pos_int x =
     (let e = dbl_exponent x; s = 2 ^ 52 + dbl_fraction x
      in if dbl_sign x \<or> dbl_isnan x \<or> e < 1023 then None
         else if 1075 \<le> e then Some (s * 2 ^ (e - 1075))
         else if s mod 2 ^ (1075 - e) = 0 then Some (s div 2 ^ (1075 - e)) else None)"

text \<open>The \<open>double\<close> of a positive integer below 2^53.\<close>

definition dbl_of_nat :: "nat \<Rightarrow> u64" where
  "dbl_of_nat n = (let k = nbits n - 1 in of_nat ((1023 + k) * 2 ^ 52 + (n * 2 ^ (52 - k) - 2 ^ 52)))"

lemma dbl_of_nat_fields:
  assumes "0 < n" and "n < 2 ^ 53"
  shows "dbl_exponent (dbl_of_nat n) = 1023 + (nbits n - 1)" "dbl_fraction (dbl_of_nat n) = n * 2 ^ (52 - (nbits n - 1)) - 2 ^ 52"
    "\<not> dbl_sign (dbl_of_nat n)" "nbits n - 1 \<le> 52" "2 ^ 52 \<le> n * 2 ^ (52 - (nbits n - 1))"
proof -
  define k where "k = nbits n - 1"
  have nb: "0 < nbits n" using assms(1) by (simp add: nbits.simps [of n])
  then have n: "nbits n = Suc k" by (simp add: k_def)
  have k52: "k \<le> 52" using nbits_le [OF assms(2)] n by simp
  have lo: "2 ^ k \<le> n" using nbits_lower [OF assms(1)] n by simp
  have hi: "n < 2 ^ Suc k" using nbits_upper [of n] n by simp
  define f where "f = n * 2 ^ (52 - k) - 2 ^ 52"
  have p: "(2::nat) ^ k * 2 ^ (52 - k) = 2 ^ 52" using k52 by (simp flip: power_add)
  have l: "2 ^ 52 \<le> n * 2 ^ (52 - k)" using mult_le_mono1 [OF lo, of "2 ^ (52 - k)"] p by simp
  have "n * 2 ^ (52 - k) < 2 ^ Suc k * 2 ^ (52 - k)" using hi by simp
  also have "\<dots> = 2 * 2 ^ 52" using p by (simp only: power_Suc mult.assoc)
  finally have f: "f < 2 ^ 52" unfolding f_def by linarith
  have e: "1023 + k < 2 ^ 11" using k52 by simp
  have "(1023 + k) * 2 ^ 52 + f < 2 ^ 63" using k52 f by simp
  then have u: "unat (dbl_of_nat n) = (1023 + k) * 2 ^ 52 + f"
    unfolding dbl_of_nat_def Let_def k_def [symmetric] f_def [symmetric] by (subst unsigned_of_nat, subst take_bit_nat_eq_self) auto
  show "nbits n - 1 \<le> 52" "2 ^ 52 \<le> n * 2 ^ (52 - (nbits n - 1))" using k52 l by (simp_all add: k_def)
  have "((1023 + k) * 2 ^ 52 + f) div 2 ^ 52 = 1023 + k" using f by (simp add: div_mult_self3)
  then show "dbl_exponent (dbl_of_nat n) = 1023 + (nbits n - 1)" using e unfolding dbl_exponent_def u k_def [symmetric] by simp
  have "((1023 + k) * 2 ^ 52 + f) mod 2 ^ 52 = f" using f by (simp only: mod_mult_self3 mod_less)
  then show "dbl_fraction (dbl_of_nat n) = n * 2 ^ (52 - (nbits n - 1)) - 2 ^ 52"
    unfolding dbl_fraction_def u k_def [symmetric] f_def [symmetric] .
  show "\<not> dbl_sign (dbl_of_nat n)" unfolding dbl_sign_def u using \<open>(1023 + k) * 2 ^ 52 + f < 2 ^ 63\<close> by simp
qed

lemma dbl_pos_int_of_nat:
  assumes "0 < n" and "n < 2 ^ 53"
  shows "dbl_pos_int (dbl_of_nat n) = Some n"
proof -
  define k where "k = nbits n - 1"
  note f = dbl_of_nat_fields [OF assms, folded k_def]
  have s: "2 ^ 52 + dbl_fraction (dbl_of_nat n) = n * 2 ^ (52 - k)" using f(2,5) by simp
  have e: "dbl_exponent (dbl_of_nat n) = 1023 + k" "1075 - (1023 + k) = 52 - k" using f(1) by simp_all
  have "\<not> dbl_isnan (dbl_of_nat n)" using e f(4) by (simp add: dbl_isnan_def)
  moreover have "1023 + k = 1075" if "\<not> 1023 + k < 1075" using that f(4) by simp
  ultimately show ?thesis using f(3) unfolding dbl_pos_int_def Let_def s e by auto
qed

lemma dbl_of_nat_0: "0 < n \<Longrightarrow> n < 2 ^ 53 \<Longrightarrow> dbl_of_nat n \<noteq> 0"
  using dbl_of_nat_fields(1) [of n] by (auto simp: dbl_exponent_def)

end
