(* ===== verification/Strbuf.thy ===== *)
theory Strbuf
  imports Prelude
begin

section \<open>String buffers (lua-cjson/strbuf.c, strbuf.h)\<close>

text \<open>
  A buffer of bytes that grows when something is appended. The block behind \<open>buf\<close> is a list of its
  bytes, \<open>None\<close> for a byte that has not been written; \<open>NULL\<close> is \<open>None\<close>. The fields of type \<open>int\<close> are
  integers, and an operation that leaves the range of \<open>int\<close> is undefined. The statistics for
  debugging are left out.

  The libraries for JSON end a call by \<open>luaL_error\<close>, with the buffer as it is then, or the process by
  \<open>exit\<close>; undefined behaviour and not returning are the third way not to return a value.
\<close>

subsection \<open>Results\<close>

record strbuf =
  sb_buf :: "byte option list option"
  sb_size :: int
  sb_length :: int
  sb_increment :: int
  sb_dynamic :: bool
  sb_reallocs :: int

datatype failure = Undef | Died | Lua_error "byte list" strbuf

type_synonym 'a cres = "failure + 'a"

definition cbind :: "'a cres \<Rightarrow> ('a \<Rightarrow> 'b cres) \<Rightarrow> 'b cres" where
  "cbind m f = (case m of Inl e \<Rightarrow> Inl e | Inr x \<Rightarrow> f x)"

lemma cbind_simps [simp]: "cbind (Inl e) f = Inl e" "cbind (Inr x) f = f x"
  by (simp_all add: cbind_def)

lemma cbind_cong [fundef_cong]: "m = m' \<Longrightarrow> (\<And>x. m' = Inr x \<Longrightarrow> f x = g x) \<Longrightarrow> cbind m f = cbind m' g"
  by (cases m') auto

definition INT_MAX :: int where "INT_MAX = 2 ^ 31 - 1"

text \<open>The value of an expression of type \<open>int\<close>, and the conversion of a \<open>size_t\<close> to \<open>int\<close>.\<close>

definition int_value :: "int \<Rightarrow> int cres" where
  "int_value n = (if - (2 ^ 31) \<le> n \<and> n \<le> INT_MAX then Inr n else Inl Undef)"

definition size_as_int :: "nat \<Rightarrow> int" where
  "size_as_int n = sint (of_nat n :: u32)"

lemma int_value_ok: "0 \<le> n \<Longrightarrow> n < 2 ^ 31 \<Longrightarrow> int_value n = Inr n"
  by (simp add: int_value_def INT_MAX_def)

lemma size_as_int_ok: "n < 2 ^ 31 \<Longrightarrow> size_as_int n = int n"
  by (simp add: size_as_int_def signed_of_nat signed_take_bit_int_eq_self)

subsection \<open>Definitions\<close>

definition STRBUF_DEFAULT_SIZE :: int where "STRBUF_DEFAULT_SIZE = 1023"
definition STRBUF_DEFAULT_INCREMENT :: int where "STRBUF_DEFAULT_INCREMENT = - 2"

text \<open>Bytes written from index \<open>i\<close> on.\<close>

definition put_bytes :: "int \<Rightarrow> byte list \<Rightarrow> strbuf \<Rightarrow> strbuf cres" where
  "put_bytes i bs s = (case sb_buf s of None \<Rightarrow> Inl Undef
     | Some m \<Rightarrow>
         if 0 \<le> i \<and> nat i + length bs \<le> length m
         then Inr (s\<lparr>sb_buf := Some (take (nat i) m @ map Some bs @ drop (nat i + length bs) m)\<rparr>)
         else Inl Undef)"

definition strbuf_ensure_null :: "strbuf \<Rightarrow> strbuf cres" where
  "strbuf_ensure_null s = put_bytes (sb_length s) [0] s"

definition strbuf_init :: "int \<Rightarrow> strbuf cres" where
  "strbuf_init len =
     cbind (if len \<le> 0 then Inr STRBUF_DEFAULT_SIZE else int_value (len + 1)) (\<lambda>size.
     strbuf_ensure_null \<lparr>sb_buf = Some (replicate (nat size) None), sb_size = size, sb_length = 0,
       sb_increment = STRBUF_DEFAULT_INCREMENT, sb_dynamic = False, sb_reallocs = 0\<rparr>)"

definition strbuf_new :: "int \<Rightarrow> strbuf cres" where
  "strbuf_new len = cbind (strbuf_init len) (\<lambda>s. Inr (s\<lparr>sb_dynamic := True\<rparr>))"

definition strbuf_set_increment :: "int \<Rightarrow> strbuf \<Rightarrow> strbuf cres" where
  "strbuf_set_increment increment s = (if increment = 0 \<or> increment = - 1 then Inl Died else Inr (s\<lparr>sb_increment := increment\<rparr>))"

text \<open>The structure itself, when \<open>strbuf_new\<close> has made it, is freed too and used no more.\<close>

definition strbuf_free :: "strbuf \<Rightarrow> strbuf" where
  "strbuf_free s = s\<lparr>sb_buf := None\<rparr>"

text \<open>The string is the block given away, with its length and a NUL behind it.\<close>

definition strbuf_free_to_string :: "strbuf \<Rightarrow> (byte option list option \<times> int) cres" where
  "strbuf_free_to_string s = cbind (strbuf_ensure_null s) (\<lambda>s. Inr (sb_buf s, sb_length s))"

text \<open>The loop ends, or leaves the range of \<open>int\<close>, unless it multiplies zero.\<close>

function grow_size :: "int \<Rightarrow> int \<Rightarrow> int \<Rightarrow> int cres" where
  "grow_size increment reqsize newsize =
     (if newsize \<ge> reqsize then Inr newsize
      else if newsize \<le> 0 \<or> increment > - 2 then Inl Undef
      else if newsize * (- increment) > INT_MAX then Inl Undef
      else grow_size increment reqsize (newsize * (- increment)))"
  by pat_completeness auto
termination
proof (relation "measure (\<lambda>(i, r, n). nat (r - n))", goal_cases)
  case (2 increment reqsize newsize)
  then have "newsize * 2 \<le> newsize * (- increment)" by (intro mult_left_mono) auto
  with 2 show ?case by auto
qed simp

declare grow_size.simps [simp del]

text \<open>C divides towards zero; the sizes are not negative.\<close>

definition calculate_new_size :: "strbuf \<Rightarrow> int \<Rightarrow> int cres" where
  "calculate_new_size s len =
     (if len \<le> 0 then Inl Died
      else cbind (int_value (len + 1)) (\<lambda>reqsize.
        if sb_size s > reqsize then Inr reqsize
        else if sb_increment s < 0 then grow_size (sb_increment s) reqsize (sb_size s)
        else cbind (int_value (sb_size s + sb_increment s - 1)) (\<lambda>n.
             if sb_increment s = 0 then Inl Undef else int_value (n div sb_increment s * sb_increment s))))"

text \<open>\<open>realloc\<close> keeps the bytes that fit.\<close>

definition strbuf_resize :: "int \<Rightarrow> strbuf \<Rightarrow> strbuf cres" where
  "strbuf_resize len s =
     cbind (calculate_new_size s len) (\<lambda>newsize.
     case sb_buf s of None \<Rightarrow> Inr (s\<lparr>sb_size := newsize, sb_buf := Some (replicate (nat newsize) None), sb_reallocs := sb_reallocs s + 1\<rparr>)
     | Some m \<Rightarrow>
         Inr (s\<lparr>sb_size := newsize, sb_buf := Some (take (nat newsize) (m @ replicate (nat newsize - length m) None)),
                sb_reallocs := sb_reallocs s + 1\<rparr>))"

definition strbuf_reset :: "strbuf \<Rightarrow> strbuf" where
  "strbuf_reset s = s\<lparr>sb_length := 0\<rparr>"

definition strbuf_empty_length :: "strbuf \<Rightarrow> int" where
  "strbuf_empty_length s = sb_size s - sb_length s - 1"

definition strbuf_ensure_empty_length :: "int \<Rightarrow> strbuf \<Rightarrow> strbuf cres" where
  "strbuf_ensure_empty_length len s =
     (if len > strbuf_empty_length s then cbind (int_value (sb_length s + len)) (\<lambda>n. strbuf_resize n s) else Inr s)"

definition strbuf_extend_length :: "int \<Rightarrow> strbuf \<Rightarrow> strbuf cres" where
  "strbuf_extend_length len s = cbind (int_value (sb_length s + len)) (\<lambda>n. Inr (s\<lparr>sb_length := n\<rparr>))"

definition strbuf_append_mem_unsafe :: "byte list \<Rightarrow> strbuf \<Rightarrow> strbuf cres" where
  "strbuf_append_mem_unsafe c s = cbind (put_bytes (sb_length s) c s) (strbuf_extend_length (int (length c)))"

definition strbuf_append_char_unsafe :: "byte \<Rightarrow> strbuf \<Rightarrow> strbuf cres" where
  "strbuf_append_char_unsafe c s = cbind (put_bytes (sb_length s) [c] s) (strbuf_extend_length 1)"

definition strbuf_append_char :: "byte \<Rightarrow> strbuf \<Rightarrow> strbuf cres" where
  "strbuf_append_char c s = cbind (strbuf_ensure_empty_length 1 s) (strbuf_append_char_unsafe c)"

definition strbuf_append_mem :: "byte list \<Rightarrow> strbuf \<Rightarrow> strbuf cres" where
  "strbuf_append_mem c s = cbind (strbuf_ensure_empty_length (int (length c)) s) (strbuf_append_mem_unsafe c)"

text \<open>The loop over a C string, with \<open>space\<close> bytes known to be free.\<close>

fun append_string_loop :: "cstring \<Rightarrow> int \<Rightarrow> strbuf \<Rightarrow> strbuf cres" where
  "append_string_loop [] space s = Inr s"
| "append_string_loop (c # str) space s =
     cbind (if space < 1 then cbind (int_value (sb_length s + 1)) (\<lambda>n. cbind (strbuf_resize n s) (\<lambda>s. Inr (s, strbuf_empty_length s)))
            else Inr (s, space)) (\<lambda>(s, space).
     cbind (strbuf_append_char_unsafe c s) (append_string_loop str (space - 1)))"

definition strbuf_append_string :: "cstring \<Rightarrow> strbuf \<Rightarrow> strbuf cres" where
  "strbuf_append_string str s = append_string_loop str (strbuf_empty_length s) s"

text \<open>
  \<open>out\<close> is the text that \<open>vsnprintf\<close> makes of the format and the arguments: it writes what fits into
  \<open>len\<close> bytes with the NUL, and returns the length of the whole text.\<close>

definition vsnprintf :: "int \<Rightarrow> cstring \<Rightarrow> strbuf \<Rightarrow> strbuf cres" where
  "vsnprintf len out s = (if len \<le> 0 then Inr s else put_bytes (sb_length s) (take (nat len - 1) out @ [0]) s)"

definition strbuf_append_fmt :: "int \<Rightarrow> cstring \<Rightarrow> strbuf \<Rightarrow> strbuf cres" where
  "strbuf_append_fmt len out s =
     cbind (strbuf_ensure_empty_length len s) (\<lambda>s.
     cbind (vsnprintf len out s) (strbuf_extend_length (size_as_int (length out))))"

definition strbuf_append_fmt_retry :: "cstring \<Rightarrow> strbuf \<Rightarrow> strbuf cres" where
  "strbuf_append_fmt_retry out s =
     (let n = size_as_int (length out) in
      cbind (vsnprintf (strbuf_empty_length s + 1) out s) (\<lambda>s.
      cbind (if n \<le> strbuf_empty_length s then Inr s
             else cbind (int_value (sb_length s + n)) (\<lambda>len.
                  cbind (strbuf_resize len s) (\<lambda>s.
                  cbind (vsnprintf (strbuf_empty_length s + 1) out s) (\<lambda>s.
                  if n \<le> strbuf_empty_length s then Inr s else Inl Died))))
      (strbuf_extend_length n)))"

text \<open>The string, which C reads from \<open>buf\<close> for \<open>length\<close> bytes.\<close>

definition strbuf_string :: "strbuf \<Rightarrow> byte list cres" where
  "strbuf_string s = (case sb_buf s of None \<Rightarrow> Inl Undef
     | Some m \<Rightarrow>
         if 0 \<le> sb_length s \<and> nat (sb_length s) \<le> length m \<and> (\<forall>b \<in> set (take (nat (sb_length s)) m). b \<noteq> None)
         then Inr (map the (take (nat (sb_length s)) m)) else Inl Undef)"

subsection \<open>The invariant\<close>

text \<open>The bytes \<open>bs\<close> are in a block that has room for a NUL behind them, and grows by doubling.\<close>

definition sb_holds :: "strbuf \<Rightarrow> byte list \<Rightarrow> bool" where
  "sb_holds s bs \<longleftrightarrow> (\<exists>rest. sb_buf s = Some (map Some bs @ rest) \<and> rest \<noteq> [] \<and> sb_size s = int (length bs + length rest))
     \<and> sb_length s = int (length bs) \<and> sb_increment s = - 2 \<and> sb_size s < 2 ^ 31"

lemma sb_string: "sb_holds s bs \<Longrightarrow> strbuf_string s = Inr bs"
  by (auto simp: sb_holds_def strbuf_string_def comp_def)

lemma put_end:
  assumes "sb_holds s bs" and "int (length bs + length cs) < sb_size s"
  shows "\<exists>s'. put_bytes (sb_length s) cs s = Inr s' \<and> sb_length s' = sb_length s \<and> sb_size s' = sb_size s
    \<and> sb_increment s' = - 2 \<and> sb_dynamic s' = sb_dynamic s \<and> (\<exists>rest. sb_buf s' = Some (map Some (bs @ cs) @ rest) \<and> rest \<noteq> [] \<and> sb_size s = int (length bs + length cs + length rest))"
proof -
  obtain rest where r: "sb_buf s = Some (map Some bs @ rest)" "sb_size s = int (length bs + length rest)" "sb_length s = int (length bs)"
    "sb_increment s = - 2" using assms(1) by (auto simp: sb_holds_def)
  then have "length cs < length rest" using assms(2) by simp
  then show ?thesis using r by (auto simp: put_bytes_def intro!: exI [of _ "drop (length cs) rest"])
qed

lemma append_mem_unsafe_ok:
  assumes "sb_holds s bs" and "int (length bs + length cs) < sb_size s"
  shows "\<exists>s'. strbuf_append_mem_unsafe cs s = Inr s' \<and> sb_holds s' (bs @ cs) \<and> sb_size s' = sb_size s \<and> sb_dynamic s' = sb_dynamic s"
proof -
  from put_end [OF assms] obtain s1 rest where s1: "put_bytes (sb_length s) cs s = Inr s1" "sb_length s1 = sb_length s" "sb_size s1 = sb_size s"
    "sb_increment s1 = - 2" "sb_dynamic s1 = sb_dynamic s" "sb_buf s1 = Some (map Some (bs @ cs) @ rest)" "rest \<noteq> []"
    "sb_size s = int (length bs + length cs + length rest)" by blast
  have l: "sb_length s = int (length bs)" "sb_size s < 2 ^ 31" using assms(1) by (simp_all add: sb_holds_def)
  then have "int_value (sb_length s1 + int (length cs)) = Inr (int (length (bs @ cs)))"
    using s1(2,8) by (subst int_value_ok) auto
  then have "strbuf_append_mem_unsafe cs s = Inr (s1\<lparr>sb_length := int (length (bs @ cs))\<rparr>)"
    by (simp add: strbuf_append_mem_unsafe_def s1(1) strbuf_extend_length_def)
  moreover have "sb_holds (s1\<lparr>sb_length := int (length (bs @ cs))\<rparr>) (bs @ cs)"
    using s1 l by (auto simp: sb_holds_def)
  ultimately show ?thesis using s1(3,5) by auto
qed

lemma ensure_null_ok:
  assumes "sb_holds s bs"
  shows "\<exists>s'. strbuf_ensure_null s = Inr s' \<and> sb_holds s' bs \<and> sb_size s' = sb_size s \<and> sb_dynamic s' = sb_dynamic s"
proof -
  obtain c rest where r: "sb_buf s = Some (map Some bs @ c # rest)" "sb_size s = int (length bs + length (c # rest))" "sb_length s = int (length bs)"
    "sb_increment s = - 2" "sb_size s < 2 ^ 31" using assms by (auto simp: sb_holds_def neq_Nil_conv)
  then have "strbuf_ensure_null s = Inr (s\<lparr>sb_buf := Some (map Some bs @ Some 0 # rest)\<rparr>)"
    by (simp add: strbuf_ensure_null_def put_bytes_def)
  then show ?thesis using r by (auto simp: sb_holds_def)
qed

lemma append_char_unsafe: "strbuf_append_char_unsafe c s = strbuf_append_mem_unsafe [c] s"
  by (simp add: strbuf_append_char_unsafe_def strbuf_append_mem_unsafe_def)

subsection \<open>Growing\<close>

lemma grow_size_ok: "0 < n \<Longrightarrow> r \<le> 2 ^ 30 \<Longrightarrow> n < 2 ^ 31 \<Longrightarrow> \<exists>m. grow_size (- 2) r n = Inr m \<and> r \<le> m \<and> n \<le> m \<and> m < 2 ^ 31"
proof (induction "- 2 :: int" r n rule: grow_size.induct)
  case (1 r n)
  show ?case
  proof (cases "r \<le> n")
    case True
    then show ?thesis using 1 by (subst grow_size.simps) simp
  next
    case False
    then have "\<exists>m. grow_size (- 2) r (n * 2) = Inr m \<and> r \<le> m \<and> n * 2 \<le> m \<and> m < 2 ^ 31"
      using 1 by (simp add: INT_MAX_def)
    then show ?thesis using False "1.prems" by (subst grow_size.simps) (auto simp: INT_MAX_def)
  qed
qed

text \<open>What making room leaves alone.\<close>

lemma ensure_ok:
  assumes "sb_holds s bs" and "0 \<le> n" and "int (length bs) + n < 2 ^ 30"
  shows "\<exists>s'. strbuf_ensure_empty_length n s = Inr s' \<and> sb_holds s' bs \<and> int (length bs) + n < sb_size s'
    \<and> sb_size s \<le> sb_size s' \<and> sb_dynamic s' = sb_dynamic s"
proof (cases "n \<le> strbuf_empty_length s")
  case True
  then show ?thesis using assms(1) by (auto simp: strbuf_ensure_empty_length_def strbuf_empty_length_def sb_holds_def)
next
  case False
  obtain rest where r: "sb_buf s = Some (map Some bs @ rest)" "rest \<noteq> []" "sb_size s = int (length bs + length rest)" "sb_length s = int (length bs)"
    "sb_increment s = - 2" "sb_size s < 2 ^ 31" using assms(1) by (auto simp: sb_holds_def)
  let ?len = "int (length bs) + n"
  have pos: "0 < n" "sb_size s \<le> ?len" "0 < sb_size s" 
    using False r by (auto simp: strbuf_empty_length_def neq_Nil_conv)
  from grow_size_ok [of "sb_size s" "?len + 1"] pos assms(3) r(6) obtain m where
    m: "grow_size (- 2) (?len + 1) (sb_size s) = Inr m" "?len + 1 \<le> m" "sb_size s \<le> m" "m < 2 ^ 31" by auto
  have "calculate_new_size s ?len = Inr m"
    using pos m(1) r(5) assms(3) by (simp add: calculate_new_size_def int_value_ok)
  then have "strbuf_ensure_empty_length n s
      = Inr (s\<lparr>sb_size := m, sb_buf := Some (map Some bs @ rest @ replicate (nat m - (length bs + length rest)) None), sb_reallocs := sb_reallocs s + 1\<rparr>)"
    using False r m(3) pos assms(3) by (simp add: strbuf_ensure_empty_length_def strbuf_resize_def int_value_ok)
  then show ?thesis using r m by (auto simp: sb_holds_def)
qed

lemma append_mem_ok:
  assumes "sb_holds s bs" and "length bs + length cs < 2 ^ 30"
  shows "\<exists>s'. strbuf_append_mem cs s = Inr s' \<and> sb_holds s' (bs @ cs) \<and> sb_size s \<le> sb_size s' \<and> sb_dynamic s' = sb_dynamic s"
proof -
  from ensure_ok [OF assms(1), of "int (length cs)"] assms(2) obtain s1 where
    s1: "strbuf_ensure_empty_length (int (length cs)) s = Inr s1" "sb_holds s1 bs" "int (length bs) + int (length cs) < sb_size s1"
      "sb_size s \<le> sb_size s1" "sb_dynamic s1 = sb_dynamic s" by auto
  from append_mem_unsafe_ok [OF s1(2), of cs] s1 show ?thesis by (auto simp: strbuf_append_mem_def)
qed

lemma append_char: "strbuf_append_char c s = strbuf_append_mem [c] s"
  by (simp add: strbuf_append_char_def strbuf_append_mem_def append_char_unsafe [abs_def] cong: cbind_cong)

lemma append_string_loop_ok:
  assumes "sb_holds s bs" and "length bs + length cs < 2 ^ 30" and "space = strbuf_empty_length s"
  shows "\<exists>s'. append_string_loop cs space s = Inr s' \<and> sb_holds s' (bs @ cs) \<and> sb_size s \<le> sb_size s' \<and> sb_dynamic s' = sb_dynamic s"
  using assms
proof (induction cs arbitrary: s bs space)
  case (Cons c cs)
  from ensure_ok [OF Cons.prems(1), of 1] Cons.prems(2) obtain s1 where
    s1: "strbuf_ensure_empty_length 1 s = Inr s1" "sb_holds s1 bs" "int (length bs) + 1 < sb_size s1"
      "sb_size s \<le> sb_size s1" "sb_dynamic s1 = sb_dynamic s" by auto
  from append_mem_unsafe_ok [OF s1(2), of "[c]"] s1(3) obtain s2 where
    s2: "strbuf_append_char_unsafe c s1 = Inr s2" "sb_holds s2 (bs @ [c])" "sb_size s2 = sb_size s1" "sb_dynamic s2 = sb_dynamic s1"
    by (auto simp: append_char_unsafe)
  have sp: "strbuf_empty_length s1 - 1 = strbuf_empty_length s2" using s1(2) s2(2,3) by (simp add: strbuf_empty_length_def sb_holds_def)
  have "append_string_loop (c # cs) space s = cbind (strbuf_append_char_unsafe c s1) (append_string_loop cs (strbuf_empty_length s1 - 1))"
    using s1(1) Cons.prems(3) by (auto simp: strbuf_ensure_empty_length_def cbind_def split: if_splits sum.splits)
  also have "\<dots> = append_string_loop cs (strbuf_empty_length s2) s2" by (simp add: s2(1) sp)
  finally show ?case using Cons.IH [OF s2(2) _ refl] Cons.prems(2) s1 s2 by fastforce
qed auto

lemma strbuf_init_ok:
  assumes "len < 2 ^ 30"
  shows "\<exists>s. strbuf_init len = Inr s \<and> sb_holds s [] \<and> len < sb_size s \<and> \<not> sb_dynamic s"
proof -
  have "cbind (if len \<le> 0 then Inr STRBUF_DEFAULT_SIZE else int_value (len + 1)) f = f (if len \<le> 0 then STRBUF_DEFAULT_SIZE else len + 1)"
    for f :: "int \<Rightarrow> strbuf cres" using assms by (simp add: int_value_ok)
  then show ?thesis using assms
    by (auto simp: strbuf_init_def strbuf_ensure_null_def put_bytes_def sb_holds_def STRBUF_DEFAULT_SIZE_def STRBUF_DEFAULT_INCREMENT_def)
qed

subsection \<open>Buffers that can be used again\<close>

text \<open>Whatever they hold, after a reset they are empty and have room.\<close>

definition sb_usable :: "strbuf \<Rightarrow> bool" where
  "sb_usable s \<longleftrightarrow> (\<exists>m. sb_buf s = Some m \<and> m \<noteq> [] \<and> sb_size s = int (length m)) \<and> sb_increment s = - 2 \<and> sb_size s < 2 ^ 31"

lemma usable_reset: "sb_usable s \<longleftrightarrow> sb_holds (strbuf_reset s) []"
  by (auto simp: sb_usable_def sb_holds_def strbuf_reset_def)

lemma holds_usable: "sb_holds s bs \<Longrightarrow> sb_usable s"
  by (auto simp: sb_usable_def sb_holds_def)

lemma put_usable: "sb_usable s \<Longrightarrow> put_bytes i bs s = Inr s' \<Longrightarrow> sb_usable s' \<and> sb_size s' = sb_size s \<and> sb_length s' = sb_length s"
  by (auto simp: sb_usable_def put_bytes_def split: if_splits)

lemma extend_usable: "sb_usable s \<Longrightarrow> strbuf_extend_length n s = Inr s' \<Longrightarrow> sb_usable s' \<and> sb_size s' = sb_size s \<and> sb_length s' = sb_length s + n"
  by (auto simp: sb_usable_def strbuf_extend_length_def int_value_def split: if_splits)

lemma append_mem_unsafe_usable:
  assumes "sb_usable s" and "strbuf_append_mem_unsafe cs s = Inr s'"
  shows "sb_usable s' \<and> strbuf_empty_length s' = strbuf_empty_length s - int (length cs)"
proof -
  obtain s1 where "put_bytes (sb_length s) cs s = Inr s1" "strbuf_extend_length (int (length cs)) s1 = Inr s'"
    using assms(2) by (cases "put_bytes (sb_length s) cs s") (simp_all add: strbuf_append_mem_unsafe_def)
  then show ?thesis using put_usable [OF assms(1)] extend_usable by (fastforce simp: strbuf_empty_length_def)
qed

lemma grow_size_range: "grow_size increment r n = Inr m \<Longrightarrow> n < 2 ^ 31 \<Longrightarrow> r \<le> m \<and> m < 2 ^ 31"
proof (induction increment r n rule: grow_size.induct)
  case (1 increment r n)
  show ?case
  proof (cases "r \<le> n")
    case True
    then show ?thesis using "1.prems" by (subst (asm) grow_size.simps) simp
  next
    case False
    then have "\<not> (n \<le> 0 \<or> increment > - 2)" "\<not> n * (- increment) > INT_MAX" "grow_size increment r (n * (- increment)) = Inr m"
      using "1.prems"(1) by (subst (asm) grow_size.simps, simp split: if_splits)+
    then show ?thesis using "1.IH" [OF False] by (simp add: INT_MAX_def)
  qed
qed

lemma grow_size_lives: "grow_size increment r n \<noteq> Inl Died" "grow_size increment r n \<noteq> Inl (Lua_error msg b)"
proof (induction increment r n rule: grow_size.induct)
  case (1 increment r n)
  { case 1 then show ?case using "1.IH" by (subst grow_size.simps) (simp del: mult_minus_right) }
  { case 2 then show ?case using "1.IH" by (subst grow_size.simps) (simp del: mult_minus_right) }
qed

text \<open>A value with a property, or undefined behaviour: no exit and no error of Lua.\<close>

definition either :: "('a \<Rightarrow> bool) \<Rightarrow> 'a cres \<Rightarrow> bool" where
  "either P r \<longleftrightarrow> (case r of Inr x \<Rightarrow> P x | Inl e \<Rightarrow> e = Undef)"

lemma either_simps [simp]: "either P (Inr x) = P x" "either P (Inl e) \<longleftrightarrow> e = Undef"
  by (simp_all add: either_def)

lemma either_bind: "either P r \<Longrightarrow> (\<And>x. P x \<Longrightarrow> either Q (f x)) \<Longrightarrow> either Q (cbind r f)"
  by (cases r) simp_all

lemma either_int: "either (\<lambda>x. x = n) (int_value n)"
  by (simp add: int_value_def)

lemma new_size_range:
  assumes "sb_increment s = - 2" and "sb_size s < 2 ^ 31" and "0 < len"
  shows "either (\<lambda>m. 0 < m \<and> m < 2 ^ 31) (calculate_new_size s len)"
proof (cases "grow_size (- 2) (len + 1) (sb_size s)")
  case (Inl e)
  then have "e = Undef" using grow_size_lives by (cases e) auto
  then show ?thesis using Inl assms by (auto simp: calculate_new_size_def int_value_def INT_MAX_def)
next
  case (Inr m)
  then show ?thesis using grow_size_range [OF Inr] assms by (auto simp: calculate_new_size_def int_value_def INT_MAX_def)
qed

lemma resize_usable:
  assumes "sb_usable s" and "0 < len"
  shows "either (\<lambda>s'. sb_usable s' \<and> sb_length s' = sb_length s) (strbuf_resize len s)"
  unfolding strbuf_resize_def
proof (rule either_bind, rule new_size_range, goal_cases)
  case (4 n)
  obtain m where m: "sb_buf s = Some m" "sb_increment s = - 2" using assms(1) by (auto simp: sb_usable_def)
  have "length (take (nat n) (m @ replicate (nat n - length m) None)) = nat n" by simp
  moreover have "take (nat n) (m @ replicate (nat n - length m) None) \<noteq> []" using 4 by (auto simp flip: length_greater_0_conv)
  ultimately show ?case using 4 m by (simp add: sb_usable_def)
qed (use assms in \<open>auto simp: sb_usable_def\<close>)

lemma ensure_usable:
  assumes "sb_usable s"
  shows "either (\<lambda>s'. sb_usable s' \<and> sb_length s' = sb_length s) (strbuf_ensure_empty_length len s)"
proof (cases "len > strbuf_empty_length s")
  case True
  have "0 < sb_size s" using assms by (auto simp: sb_usable_def)
  then have pos: "0 < sb_length s + len" using True by (simp add: strbuf_empty_length_def)
  have "either (\<lambda>s'. sb_usable s' \<and> sb_length s' = sb_length s) (cbind (int_value (sb_length s + len)) (\<lambda>n. strbuf_resize n s))"
    by (rule either_bind [OF either_int]) (use resize_usable [OF assms] pos in simp)
  then show ?thesis using True by (simp add: strbuf_ensure_empty_length_def)
qed (use assms in \<open>simp add: strbuf_ensure_empty_length_def\<close>)

lemma put_either: "sb_usable s \<Longrightarrow> either sb_usable (put_bytes i bs s)"
  by (auto simp: sb_usable_def put_bytes_def)

lemma extend_either: "sb_usable s \<Longrightarrow> either sb_usable (strbuf_extend_length n s)"
  unfolding strbuf_extend_length_def by (rule either_bind [OF either_int]) (simp add: sb_usable_def)

lemma append_mem_unsafe_either:
  assumes "sb_usable s"
  shows "either (\<lambda>s'. sb_usable s' \<and> strbuf_empty_length s' = strbuf_empty_length s - int (length cs)) (strbuf_append_mem_unsafe cs s)"
proof (cases "strbuf_append_mem_unsafe cs s")
  case (Inl e)
  have "either sb_usable (strbuf_append_mem_unsafe cs s)"
    unfolding strbuf_append_mem_unsafe_def by (rule either_bind [OF put_either [OF assms]]) (rule extend_either)
  then show ?thesis using Inl by simp
next
  case (Inr s')
  then show ?thesis using append_mem_unsafe_usable [OF assms Inr] by simp
qed

lemma append_mem_either: "sb_usable s \<Longrightarrow> either sb_usable (strbuf_append_mem cs s)"
  unfolding strbuf_append_mem_def
proof (rule either_bind [OF ensure_usable], assumption, goal_cases)
  case (1 x)
  then show ?case using append_mem_unsafe_either [of x cs] by (cases "strbuf_append_mem_unsafe cs x") auto
qed

lemma append_string_loop_either:
  "sb_usable s \<Longrightarrow> space = strbuf_empty_length s \<Longrightarrow> either sb_usable (append_string_loop cs space s)"
proof (induction cs arbitrary: space s)
  case (Cons c cs)
  have len: "0 < sb_size s" using Cons.prems(1) by (auto simp: sb_usable_def)
  show ?case unfolding append_string_loop.simps
  proof (rule either_bind [where P = "\<lambda>(s', space'). sb_usable s' \<and> space' = strbuf_empty_length s'"], goal_cases)
    case 1
    have "either (\<lambda>(s', space'). sb_usable s' \<and> space' = strbuf_empty_length s')
      (cbind (int_value (sb_length s + 1)) (\<lambda>n. cbind (strbuf_resize n s) (\<lambda>s. Inr (s, strbuf_empty_length s))))" if "space < 1"
    proof (rule either_bind [OF either_int], rule either_bind, rule resize_usable [OF Cons.prems(1)], goal_cases)
      case (1 x)
      then show ?case using that Cons.prems(2) len by (simp add: strbuf_empty_length_def)
    qed simp
    then show ?case using Cons.prems by simp
  next
    case (2 p)
    then obtain s' where s': "p = (s', strbuf_empty_length s')" "sb_usable s'" by (cases p) auto
    show ?case unfolding s'(1) prod.case append_char_unsafe
    proof (rule either_bind [OF append_mem_unsafe_either [OF s'(2)]], goal_cases)
      case (1 x)
      then show ?case using Cons.IH [of x "strbuf_empty_length s' - 1"] by simp
    qed
  qed
qed simp

subsection \<open>A sequence of appends\<close>

text \<open>The contract of a sink for bytes, and what follows for a sequence of pieces.\<close>

fun put_all :: "('p \<Rightarrow> 's \<Rightarrow> 's cres) \<Rightarrow> 'p list \<Rightarrow> 's \<Rightarrow> 's cres" where
  "put_all put [] s = Inr s"
| "put_all put (p # ps) s = cbind (put p s) (put_all put ps)"

locale sink =
  fixes holds :: "'s \<Rightarrow> byte list \<Rightarrow> bool" and put :: "'p \<Rightarrow> 's \<Rightarrow> 's cres" and bytes :: "'p \<Rightarrow> byte list"
    and contents :: "'s \<Rightarrow> byte list cres" and limit :: nat
  assumes put_ok: "holds s bs \<Longrightarrow> length bs + length (bytes p) < limit \<Longrightarrow> \<exists>s'. put p s = Inr s' \<and> holds s' (bs @ bytes p)"
    and contents_ok: "holds s bs \<Longrightarrow> contents s = Inr bs"
begin

lemma put_pieces_ok:
  "holds s bs \<Longrightarrow> length bs + length (concat (map bytes ps)) < limit
    \<Longrightarrow> \<exists>s'. put_all put ps s = Inr s' \<and> holds s' (bs @ concat (map bytes ps))"
proof (induction ps arbitrary: s bs)
  case (Cons p ps)
  then obtain s1 where s1: "put p s = Inr s1" "holds s1 (bs @ bytes p)" using put_ok [of s bs p] by auto
  then show ?case using Cons.IH [of s1 "bs @ bytes p"] Cons.prems(2) by auto
qed auto

lemma put_all_contents:
  "holds s bs \<Longrightarrow> length bs + length (concat (map bytes ps)) < limit \<Longrightarrow> cbind (put_all put ps s) contents = Inr (bs @ concat (map bytes ps))"
  using put_pieces_ok [of s bs ps] contents_ok by force

end

text \<open>A piece of memory, a character, a C string, or formatted text.\<close>

datatype piece = Mem "byte list" | Chr byte | Str cstring | Fmt cstring

fun piece_bytes :: "piece \<Rightarrow> byte list" where
  "piece_bytes (Mem c) = c"
| "piece_bytes (Chr c) = [c]"
| "piece_bytes (Str str) = str"
| "piece_bytes (Fmt out) = out"

fun put_piece :: "piece \<Rightarrow> strbuf \<Rightarrow> strbuf cres" where
  "put_piece (Mem c) s = strbuf_append_mem c s"
| "put_piece (Chr c) s = strbuf_append_char c s"
| "put_piece (Str str) s = strbuf_append_string str s"
| "put_piece (Fmt out) s = strbuf_append_fmt_retry out s"

text \<open>What \<open>vsnprintf\<close> leaves behind the bytes that the buffer holds.\<close>

lemma vsnprintf_ok:
  assumes "sb_holds s bs"
  shows "\<exists>s'. vsnprintf (strbuf_empty_length s + 1) out s = Inr s' \<and> sb_holds s' bs \<and> sb_size s' = sb_size s
    \<and> (int (length bs + length out) < sb_size s
      \<longrightarrow> sb_holds (s'\<lparr>sb_length := int (length bs + length out)\<rparr>) (bs @ out))"
proof -
  obtain rest where r: "sb_buf s = Some (map Some bs @ rest)" "rest \<noteq> []" "sb_size s = int (length bs + length rest)" "sb_length s = int (length bs)"
    "sb_increment s = - 2" "sb_size s < 2 ^ 31" using assms by (auto simp: sb_holds_def)
  let ?t = "take (length rest - 1) out @ [0]"
  have e: "strbuf_empty_length s + 1 = int (length rest)" using r(3,4) by (simp add: strbuf_empty_length_def)
  have t: "length ?t \<le> length rest" using r(2) by (cases rest) auto
  let ?s = "s\<lparr>sb_buf := Some (map Some bs @ map Some ?t @ drop (length ?t) rest)\<rparr>"
  have "vsnprintf (strbuf_empty_length s + 1) out s = Inr ?s"
    using r t by (simp add: vsnprintf_def e put_bytes_def nat_diff_distrib)
  moreover have "sb_holds ?s bs" using r t by (auto simp: sb_holds_def)
  moreover have "sb_holds (?s\<lparr>sb_length := int (length bs + length out)\<rparr>) (bs @ out)" if "int (length bs + length out) < sb_size s"
    using r that by (auto simp: sb_holds_def intro!: exI [of _ "Some 0 # drop (Suc (length out)) rest"])
  ultimately show ?thesis by auto
qed

lemma append_fmt_retry_ok:
  assumes "sb_holds s bs" and "length bs + length out < 2 ^ 30"
  shows "\<exists>s'. strbuf_append_fmt_retry out s = Inr s' \<and> sb_holds s' (bs @ out)"
proof -
  let ?n = "int (length out)"
  have n: "size_as_int (length out) = ?n" using assms(2) by (simp add: size_as_int_ok)
  obtain s1 where s1: "vsnprintf (strbuf_empty_length s + 1) out s = Inr s1" "sb_holds s1 bs" "sb_size s1 = sb_size s"
    "int (length bs + length out) < sb_size s \<longrightarrow> sb_holds (s1\<lparr>sb_length := int (length bs + length out)\<rparr>) (bs @ out)"
    using vsnprintf_ok [OF assms(1)] by blast
  have len: "sb_length s' = int (length bs)" if "sb_holds s' bs" for s' using that by (simp add: sb_holds_def)
  have ext: "strbuf_extend_length ?n s' = Inr (s'\<lparr>sb_length := int (length bs + length out)\<rparr>)" if "sb_holds s' bs" for s'
    using len [OF that] assms(2) by (simp add: strbuf_extend_length_def int_value_ok)
  show ?thesis
  proof (cases "?n \<le> strbuf_empty_length s1")
    case True
    then have "int (length bs + length out) < sb_size s" using len [OF s1(2)] s1(3) by (simp add: strbuf_empty_length_def)
    then show ?thesis using s1 ext [OF s1(2)] True by (simp add: strbuf_append_fmt_retry_def n)
  next
    case False
    from ensure_ok [OF s1(2), of ?n] assms(2) obtain s2 where
      s2: "strbuf_ensure_empty_length ?n s1 = Inr s2" "sb_holds s2 bs" "int (length bs) + ?n < sb_size s2" by auto
    obtain s3 where s3: "vsnprintf (strbuf_empty_length s2 + 1) out s2 = Inr s3" "sb_holds s3 bs" "sb_size s3 = sb_size s2"
      "sb_holds (s3\<lparr>sb_length := int (length bs + length out)\<rparr>) (bs @ out)"
      using vsnprintf_ok [OF s2(2), of out] s2(3) by auto
    have "?n \<le> strbuf_empty_length s3" using s2(3) s3(3) len [OF s3(2)] by (simp add: strbuf_empty_length_def)
    moreover have "cbind (int_value (sb_length s1 + ?n)) (\<lambda>len. strbuf_resize len s1) = Inr s2"
      using s2(1) False by (simp add: strbuf_ensure_empty_length_def)
    then have "int_value (sb_length s1 + ?n) = Inr (sb_length s1 + ?n)" "strbuf_resize (sb_length s1 + ?n) s1 = Inr s2"
      using len [OF s1(2)] assms(2) by (simp_all add: int_value_ok)
    ultimately show ?thesis using s1(1) s3 ext [OF s3(2)] False by (simp add: strbuf_append_fmt_retry_def n)
  qed
qed

interpretation sb: sink sb_holds put_piece piece_bytes strbuf_string "2 ^ 30"
proof unfold_locales
  fix s bs p assume "sb_holds s bs" "length bs + length (piece_bytes p) < 2 ^ 30"
  then show "\<exists>s'. put_piece p s = Inr s' \<and> sb_holds s' (bs @ piece_bytes p)"
  proof (cases p)
    case (Mem c)
    then show ?thesis using append_mem_ok [of s bs c] \<open>sb_holds s bs\<close> \<open>length bs + _ < _\<close> by auto
  next
    case (Chr c)
    then show ?thesis using append_mem_ok [of s bs "[c]"] \<open>sb_holds s bs\<close> \<open>length bs + _ < _\<close> by (auto simp: append_char)
  next
    case (Str str)
    then show ?thesis using append_string_loop_ok [of s bs str, OF _ _ refl] \<open>sb_holds s bs\<close> \<open>length bs + _ < _\<close>
      by (auto simp: strbuf_append_string_def)
  next
    case (Fmt out)
    then show ?thesis using append_fmt_retry_ok [of s bs out] \<open>sb_holds s bs\<close> \<open>length bs + _ < _\<close> by simp
  qed
qed (rule sb_string)

text \<open>
  C39: Whatever sequence of pieces of memory, characters, C strings and formatted texts is appended, the buffer holds them one behind
  the other, however often it has to grow, while the whole stays below 2^30 bytes.\<close>

lemma strbuf_appends:
  assumes "sb_holds s bs" and "length bs + length (concat (map piece_bytes ps)) < 2 ^ 30"
  shows "cbind (put_all put_piece ps s) strbuf_string = Inr (bs @ concat (map piece_bytes ps))"
  by (rule sb.put_all_contents [OF assms])

lemma strbuf_appends_witness:
  "cbind (cbind (strbuf_init 2) (put_all put_piece [Mem [0, 1], Chr 7, Str (cstr ''grow''), Fmt (cstr ''%'')])) strbuf_string
    = Inr [0, 1, 7, 103, 114, 111, 119, 37]"
proof -
  obtain s where s: "strbuf_init 2 = Inr s" "sb_holds s []" using strbuf_init_ok [of 2] by auto
  show ?thesis using strbuf_appends [OF s(2), of "[Mem [0, 1], Chr 7, Str (cstr ''grow''), Fmt (cstr ''%'')]"] s(1) by (simp add: cstr_def)
qed

text \<open>
  With a positive increment the block does not grow to the size asked for: when its size is a multiple of the
  increment it does not grow at all, and bytes are written behind it.\<close>

lemma strbuf_linear_overrun:
  assumes "sb_buf s = Some m" and "sb_size s = int (length m)" and "0 \<le> sb_length s" and "sb_size s < sb_length s + int (length cs)"
    and "0 < sb_increment s" and "sb_increment s dvd sb_size s" and "sb_size s + sb_increment s < 2 ^ 31"
    and "sb_length s + int (length cs) < 2 ^ 31 - 1"
  shows "strbuf_append_mem cs s = Inl Undef"
proof -
  let ?len = "sb_length s + int (length cs)" and ?k = "sb_increment s"
  obtain q where q: "sb_size s = ?k * q" using assms(6) by (auto simp: dvd_def)
  have "(sb_size s + ?k - 1) div ?k = q"
  proof -
    have "(sb_size s + ?k - 1) div ?k = ((?k - 1) + q * ?k) div ?k" by (simp add: q algebra_simps)
    also have "\<dots> = q" using assms(5) by (subst div_mult_self1) auto
    finally show ?thesis .
  qed
  then have "calculate_new_size s ?len = Inr (sb_size s)"
    using assms(2-8) q by (simp add: calculate_new_size_def int_value_ok mult.commute)
  then have "strbuf_ensure_empty_length (int (length cs)) s = Inr (s\<lparr>sb_size := sb_size s, sb_buf := Some m, sb_reallocs := sb_reallocs s + 1\<rparr>)"
    using assms(1-4,8) by (simp add: strbuf_ensure_empty_length_def strbuf_empty_length_def strbuf_resize_def int_value_ok)
  moreover have "\<not> nat (sb_length s) + length cs \<le> length m" using assms(2-4) by linarith
  ultimately show ?thesis using assms(1,3) by (simp add: strbuf_append_mem_def strbuf_append_mem_unsafe_def put_bytes_def)
qed

lemma strbuf_linear_overrun_witness:
  "cbind (strbuf_init 7) (\<lambda>s. cbind (strbuf_set_increment 4 s) (strbuf_append_mem (cstr ''nine bytes''))) = Inl Undef"
proof -
  define s where "s = \<lparr>sb_buf = Some (Some 0 # replicate 7 None), sb_size = 8, sb_length = 0, sb_increment = 4, sb_dynamic = False, sb_reallocs = 0\<rparr>"
  have "cbind (strbuf_init 7) (strbuf_set_increment 4) = Inr s"
    by (simp add: strbuf_init_def int_value_def INT_MAX_def strbuf_ensure_null_def put_bytes_def strbuf_set_increment_def s_def eval_nat_numeral)
  moreover have "strbuf_append_mem (cstr ''nine bytes'') s = Inl Undef"
    by (rule strbuf_linear_overrun [where m = "Some 0 # replicate 7 None"]) (simp_all add: s_def cstr_def)
  moreover have "cbind (strbuf_init 7) (\<lambda>s. cbind (strbuf_set_increment 4 s) (strbuf_append_mem (cstr ''nine bytes'')))
      = cbind (cbind (strbuf_init 7) (strbuf_set_increment 4)) (strbuf_append_mem (cstr ''nine bytes''))"
    by (simp add: cbind_def split: sum.split)
  ultimately show ?thesis by simp
qed

end
