(* ===== verification/Fpconv.thy ===== *)
theory Fpconv
  imports Prelude
begin

section \<open>Numbers as text (lua-cjson/fpconv.c)\<close>

text \<open>
  \<open>snprintf\<close> and \<open>strtod\<close> use the decimal point of the locale, JSON the dot. The two functions of the C
  library are the parameter \<open>libc\<close>: the text that \<open>snprintf\<close> makes of a format and a \<open>double\<close>, and
  what \<open>strtod\<close> reads from a C string, with the number of characters taken. A \<open>double\<close> is given by
  its 64 bits. The static variable \<open>locale_decimal_point\<close> is an argument.
\<close>

record libc =
  lc_snprintf :: "cstring \<Rightarrow> u64 \<Rightarrow> cstring"
  lc_strtod :: "cstring \<Rightarrow> u64 \<times> nat"

definition FPCONV_G_FMT_BUFSIZE :: nat where "FPCONV_G_FMT_BUFSIZE = 32"

definition dot :: byte where "dot = 46"

text \<open>The first bytes of a buffer of \<open>n\<close> bytes after \<open>snprintf\<close>; \<open>0.5\<close> has the bits \<open>0x3fe\<dots>\<close>.\<close>

definition printed :: "nat \<Rightarrow> cstring \<Rightarrow> byte list" where
  "printed n t = take (n - 1) t @ [0]"

text \<open>\<open>abort\<close> and a read of what was not written are \<open>None\<close>.\<close>

definition fpconv_update_locale :: "libc \<Rightarrow> byte option" where
  "fpconv_update_locale lc = do {
     let buf = printed 8 (lc_snprintf lc (cstr ''%g'') 0x3fe0000000000000);
     b0 \<leftarrow> rd buf 0;
     if b0 \<noteq> 48 then None else do {
     b2 \<leftarrow> rd buf 2;
     if b2 \<noteq> 53 then None else do {
     b3 \<leftarrow> rd buf 3;
     if b3 \<noteq> 0 then None else rd buf 1 } } }"

definition valid_number_character :: "byte \<Rightarrow> bool" where
  "valid_number_character ch \<longleftrightarrow>
     48 \<le> ch \<and> ch \<le> 57 \<or> ch = 45 \<or> ch = 43 \<or> ch = 46 \<or> (97 \<le> ch OR 0x20 \<and> ch OR 0x20 \<le> 121)"

text \<open>The number of valid characters that memory starts with; a read behind its end is undefined.\<close>

fun strtod_buffer_size :: "byte list \<Rightarrow> nat option" where
  "strtod_buffer_size [] = None"
| "strtod_buffer_size (c # s) = (if valid_number_character c then map_option Suc (strtod_buffer_size s) else Some 0)"

text \<open>\<open>strchr\<close> finds the first dot.\<close>

fun replace_first :: "byte \<Rightarrow> byte \<Rightarrow> byte list \<Rightarrow> byte list" where
  "replace_first a b [] = []"
| "replace_first a b (c # s) = (if c = a then b # s else c # replace_first a b s)"

text \<open>\<open>nptr\<close> is the memory from the pointer on; the result has the distance of \<open>endptr\<close>.\<close>

definition fpconv_strtod :: "libc \<Rightarrow> byte \<Rightarrow> byte list \<Rightarrow> (u64 \<times> nat) option" where
  "fpconv_strtod lc point nptr =
     (if point = dot then map_option (lc_strtod lc) (c_string nptr)
      else do {
        buflen \<leftarrow> strtod_buffer_size nptr;
        if buflen = 0 then Some (0, 0)
        else Some (lc_strtod lc (replace_first dot point (take buflen nptr))) })"

text \<open>The assertion on the precision is checked; without it the format would be another one.\<close>

definition set_number_format :: "int \<Rightarrow> cstring option" where
  "set_number_format precision =
     (if 1 \<le> precision \<and> precision \<le> 14
      then (let d1 = precision div 10; d2 = precision mod 10
            in Some (cstr ''%.'' @ (if d1 \<noteq> 0 then [of_int (48 + d1)] else []) @ [of_int (48 + d2)] @ cstr ''g''))
      else None)"

text \<open>What is written to \<open>str\<close>, the NUL included, and the length returned.\<close>

definition fpconv_g_fmt :: "libc \<Rightarrow> byte \<Rightarrow> u64 \<Rightarrow> int \<Rightarrow> (byte list \<times> nat) option" where
  "fpconv_g_fmt lc point num precision = do {
     fmt \<leftarrow> set_number_format precision;
     let t = lc_snprintf lc fmt num;
     if point = dot then Some (printed FPCONV_G_FMT_BUFSIZE t, length t)
     else do {
       buf \<leftarrow> c_string (printed FPCONV_G_FMT_BUFSIZE t);
       Some (map (\<lambda>b. if b = point then dot else b) buf @ [0], length t) } }"

definition fpconv_init :: "libc \<Rightarrow> byte option" where
  "fpconv_init lc = fpconv_update_locale lc"

subsection \<open>Properties\<close>

lemma not_valid_0: "\<not> valid_number_character 0" "valid_number_character dot"
  by (simp_all add: valid_number_character_def dot_def)

lemma strtod_buffer_size_append:
  "(\<forall>c \<in> set t. valid_number_character c) \<Longrightarrow> \<not> valid_number_character c \<Longrightarrow> strtod_buffer_size (t @ c # r) = Some (length t)"
  by (induction t) auto

text \<open>A text of the library is a number with at most one decimal point, of at most 31 characters.\<close>

definition number_text :: "byte \<Rightarrow> cstring \<Rightarrow> bool" where
  "number_text point t \<longleftrightarrow> t \<noteq> [] \<and> length t < FPCONV_G_FMT_BUFSIZE \<and> length (filter (\<lambda>c. c = point) t) \<le> 1
     \<and> (\<forall>c \<in> set t. valid_number_character c \<or> c = point) \<and> (point \<noteq> dot \<longrightarrow> dot \<notin> set t) \<and> point \<noteq> 0"

definition dotted :: "byte \<Rightarrow> cstring \<Rightarrow> cstring" where
  "dotted point t = map (\<lambda>c. if c = point then dot else c) t"

lemma number_text_nul: "number_text point t \<Longrightarrow> 0 \<notin> set t"
  using not_valid_0 by (auto simp: number_text_def)

lemma replace_none: "point \<notin> set t \<Longrightarrow> dot \<notin> set t \<Longrightarrow> replace_first dot point (dotted point t) = t"
  by (induction t) (auto simp: dotted_def)

lemma dotted_none: "point \<notin> set t \<Longrightarrow> dotted point t = t"
  by (induction t) (auto simp: dotted_def)

lemma replace_dotted: "length (filter (\<lambda>c. c = point) t) \<le> 1 \<Longrightarrow> dot \<notin> set t \<Longrightarrow> replace_first dot point (dotted point t) = t"
proof (induction t)
  case (Cons c t)
  show ?case
  proof (cases "c = point")
    case True
    then have "filter (\<lambda>c. c = point) t = []" using Cons.prems(1) by simp
    then have "point \<notin> set t" by (auto simp: filter_empty_conv)
    then have "map (\<lambda>c. if c = point then dot else c) t = t" using dotted_none by (simp add: dotted_def)
    then show ?thesis using True by (simp add: dotted_def)
  next
    case False
    then show ?thesis using Cons by (auto simp: dotted_def)
  qed
qed (simp add: dotted_def)

lemma g_fmt_text:
  assumes "set_number_format p = Some fmt" and "number_text point (lc_snprintf lc fmt x)"
  shows "fpconv_g_fmt lc point x p = Some (dotted point (lc_snprintf lc fmt x) @ [0], length (lc_snprintf lc fmt x))"
proof -
  let ?t = "lc_snprintf lc fmt x"
  have len: "length ?t \<le> 31" "0 \<notin> set ?t" using assms(2) number_text_nul by (auto simp: number_text_def FPCONV_G_FMT_BUFSIZE_def)
  have "dotted dot ?t = ?t" by (simp add: dotted_def)
  then show ?thesis using len assms(1) c_string_append [of ?t "[]"]
    by (auto simp: fpconv_g_fmt_def printed_def FPCONV_G_FMT_BUFSIZE_def dotted_def Let_def)
qed

text \<open>
  \<open>strtod\<close> reads the text of \<open>x\<close> back when it ends there or goes on with a character that cannot belong to a
  number in the locale, so not with its decimal point: a comma behind \<open>1\<close> may be read as the point of \<open>1,5\<close>.\<close>

definition reads_back :: "libc \<Rightarrow> byte \<Rightarrow> cstring \<Rightarrow> u64 \<Rightarrow> bool" where
  "reads_back lc point t x \<longleftrightarrow>
     (\<forall>r. (case r of [] \<Rightarrow> True | c # _ \<Rightarrow> \<not> valid_number_character c \<and> c \<noteq> point) \<longrightarrow> 0 \<notin> set r \<longrightarrow> lc_strtod lc (t @ r) = (x, length t))"

lemma strtod_text:
  assumes "number_text point t" and "reads_back lc point t x" and "\<not> valid_number_character c" and "0 \<notin> set r" and "c \<noteq> 0 \<or> r = []"
  shows "fpconv_strtod lc point (dotted point t @ (if c = 0 then [] else c # r) @ 0 # rest) = Some (x, length t)"
proof (cases "point = dot")
  case True
  then have "dotted point t = t" by (simp add: dotted_def)
  moreover have "c_string (t @ (if c = 0 then [] else c # r) @ 0 # rest) = Some (t @ (if c = 0 then [] else c # r))"
    using c_string_append [of "t @ (if c = 0 then [] else c # r)" rest] number_text_nul [OF assms(1)] assms(4,5) by auto
  moreover have "c \<noteq> dot" using assms(3) not_valid_0(2) by auto
  then have "lc_strtod lc (t @ (if c = 0 then [] else c # r)) = (x, length t)"
    using assms(2) [unfolded reads_back_def, rule_format, of "if c = 0 then [] else c # r"] assms(3,4) True by simp
  ultimately show ?thesis using True by (simp add: fpconv_strtod_def)
next
  case False
  have "\<forall>c \<in> set (dotted point t). valid_number_character c"
    using assms(1) not_valid_0(2) by (auto simp: dotted_def number_text_def)
  then have "strtod_buffer_size (dotted point t @ (if c = 0 then [] else c # r) @ 0 # rest) = Some (length (dotted point t))"
    using strtod_buffer_size_append [of "dotted point t"] assms(3) not_valid_0(1) by auto
  moreover have "t \<noteq> []" using assms(1) by (simp add: number_text_def)
  moreover have "replace_first dot point (dotted point t) = t" using assms(1) False replace_dotted by (simp add: number_text_def)
  moreover have "lc_strtod lc t = (x, length t)" using assms(2) by (auto simp: reads_back_def dest: spec [of _ "[]"])
  ultimately show ?thesis using False by (simp add: fpconv_strtod_def dotted_def)
qed

text \<open>
  C40: In every locale a number is written with a dot, and what is written is read back as the number, up to the character behind it,
  when that cannot belong to a number of JSON. This is so although \<open>strtod\<close> itself would read on where that character is the decimal
  point of the locale, as the comma behind the first number of an array is in a locale with a decimal comma. Of the C library it is
  assumed that \<open>strtod\<close> reads the text that \<open>snprintf\<close> made back, at its end or before a character that cannot belong to a number in the
  locale; that fails for the NaNs and where the precision is too small for the number.\<close>

lemma fpconv_roundtrip:
  assumes "set_number_format p = Some fmt" and "number_text point (lc_snprintf lc fmt x)" and "reads_back lc point (lc_snprintf lc fmt x) x"
    and "\<not> valid_number_character c" and "c \<noteq> 0" and "0 \<notin> set r"
  shows "\<exists>out n. fpconv_g_fmt lc point x p = Some (out @ [0], n) \<and> (point \<noteq> dot \<longrightarrow> point \<notin> set out)
    \<and> fpconv_strtod lc point (out @ c # r @ 0 # rest) = Some (x, n) \<and> length out = n"
proof -
  let ?t = "lc_snprintf lc fmt x"
  have "fpconv_strtod lc point (dotted point ?t @ (if c = 0 then [] else c # r) @ 0 # rest) = Some (x, length ?t)"
    by (rule strtod_text [OF assms(2,3,4,6)]) (simp add: assms(5))
  moreover have "point \<noteq> dot \<longrightarrow> point \<notin> set (dotted point ?t)" by (auto simp: dotted_def)
  ultimately show ?thesis using g_fmt_text [OF assms(1,2)] assms(5)
    by (intro exI [of _ "dotted point ?t"] exI [of _ "length ?t"]) (simp add: dotted_def)
qed

text \<open>A library with a decimal comma, which knows two numbers and one more when it reads.\<close>

definition comma_libc :: libc where
  "comma_libc = \<lparr>lc_snprintf = \<lambda>fmt x. if x = 0x3fe0000000000000 then cstr ''0,5'' else cstr ''1'',
     lc_strtod = \<lambda>s. if take 3 s = cstr ''0,5'' then (0x3fe0000000000000, 3)
       else if take 3 s = cstr ''1,5'' then (0x3ff8000000000000, 3) else (0x3ff0000000000000, 1)\<rparr>"

text \<open>The first number of \<open>[1,5]\<close> is read as 1, though \<open>strtod\<close> reads one and a half there.\<close>

lemma fpconv_roundtrip_witness:
  "fpconv_init comma_libc = Some 44 \<and> lc_strtod comma_libc (cstr ''1,5]'') = (0x3ff8000000000000, 3)
   \<and> (\<exists>out n. fpconv_g_fmt comma_libc 44 0x3ff0000000000000 14 = Some (out @ [0], n) \<and> 44 \<notin> set out
    \<and> fpconv_strtod comma_libc 44 (out @ 44 # cstr ''5]'' @ [0]) = Some (0x3ff0000000000000, n))"
proof -
  have f: "set_number_format 14 = Some (cstr ''%.14g'')" by (simp add: set_number_format_def cstr_def)
  have t: "lc_snprintf comma_libc (cstr ''%.14g'') 0x3ff0000000000000 = cstr ''1''" by (simp add: comma_libc_def)
  have "number_text 44 (cstr ''1'')" by (simp add: number_text_def cstr_def FPCONV_G_FMT_BUFSIZE_def valid_number_character_def dot_def)
  moreover have "reads_back comma_libc 44 (cstr ''1'') 0x3ff0000000000000"
    by (auto simp: reads_back_def comma_libc_def cstr_def split: list.splits)
  moreover have "\<not> valid_number_character 44" by (simp add: valid_number_character_def)
  moreover have "fpconv_init comma_libc = Some 44"
    by (simp add: fpconv_init_def fpconv_update_locale_def printed_def comma_libc_def cstr_def)
  moreover have "0 \<notin> set (cstr ''5]'')" by (simp add: cstr_def)
  moreover have "lc_strtod comma_libc (cstr ''1,5]'') = (0x3ff8000000000000, 3)" by (simp add: comma_libc_def cstr_def)
  ultimately show ?thesis using fpconv_roundtrip [OF f, of 44 comma_libc "0x3ff0000000000000" 44 "cstr ''5]''" "[]"]
    by (auto simp: t dot_def)
qed

end
