(* ===== verification/JsonEncode.thy ===== *)
theory JsonEncode
  imports LuaValue Strbuf Fpconv
begin

section \<open>JSON: configuration and encoder (lua-cjson/lua_cjson.c)\<close>

text \<open>
  The first half of the file: the configuration that the functions share, its setters, and the encoder. The C
  library for numbers and the decimal point of the locale are the arguments \<open>lc\<close> and \<open>point\<close>. \<open>lua_checkstack\<close>
  does not fail.
\<close>

subsection \<open>Configuration\<close>

record json_config =
  cf_buf :: strbuf
  cf_sparse_convert :: int
  cf_sparse_ratio :: int
  cf_sparse_safe :: int
  cf_encode_max_depth :: int
  cf_encode_invalid :: int
  cf_precision :: int
  cf_keep_buffer :: int
  cf_empty_as_object :: int
  cf_decode_invalid :: int
  cf_decode_max_depth :: int

definition DEFAULT_SPARSE_CONVERT :: int where "DEFAULT_SPARSE_CONVERT = 0"
definition DEFAULT_SPARSE_RATIO :: int where "DEFAULT_SPARSE_RATIO = 2"
definition DEFAULT_SPARSE_SAFE :: int where "DEFAULT_SPARSE_SAFE = 10"
definition DEFAULT_ENCODE_MAX_DEPTH :: int where "DEFAULT_ENCODE_MAX_DEPTH = 1000"
definition DEFAULT_DECODE_MAX_DEPTH :: int where "DEFAULT_DECODE_MAX_DEPTH = 1000"
definition DEFAULT_ENCODE_INVALID_NUMBERS :: int where "DEFAULT_ENCODE_INVALID_NUMBERS = 0"
definition DEFAULT_DECODE_INVALID_NUMBERS :: int where "DEFAULT_DECODE_INVALID_NUMBERS = 1"
definition DEFAULT_ENCODE_KEEP_BUFFER :: int where "DEFAULT_ENCODE_KEEP_BUFFER = 1"
definition DEFAULT_ENCODE_NUMBER_PRECISION :: int where "DEFAULT_ENCODE_NUMBER_PRECISION = 14"
definition DEFAULT_ENCODE_EMPTY_TABLE_AS_OBJECT :: int where "DEFAULT_ENCODE_EMPTY_TABLE_AS_OBJECT = 1"

definition json_create_config :: "json_config cres" where
  "json_create_config = cbind (strbuf_init 0) (\<lambda>buf. Inr
     \<lparr>cf_buf = buf, cf_sparse_convert = DEFAULT_SPARSE_CONVERT, cf_sparse_ratio = DEFAULT_SPARSE_RATIO,
      cf_sparse_safe = DEFAULT_SPARSE_SAFE, cf_encode_max_depth = DEFAULT_ENCODE_MAX_DEPTH,
      cf_encode_invalid = DEFAULT_ENCODE_INVALID_NUMBERS, cf_precision = DEFAULT_ENCODE_NUMBER_PRECISION,
      cf_keep_buffer = DEFAULT_ENCODE_KEEP_BUFFER, cf_empty_as_object = DEFAULT_ENCODE_EMPTY_TABLE_AS_OBJECT,
      cf_decode_invalid = DEFAULT_DECODE_INVALID_NUMBERS, cf_decode_max_depth = DEFAULT_DECODE_MAX_DEPTH\<rparr>)"

definition json_destroy_config :: "json_config \<Rightarrow> json_config" where
  "json_destroy_config cfg = cfg\<lparr>cf_buf := strbuf_free (cf_buf cfg)\<rparr>"

text \<open>
  An argument of a setter as the checks of Lua see it: nil or missing; a value that \<open>luaL_checkinteger\<close> takes, given by
  the integer it is taken for (an integer, a float without a fraction, a string that converts to one); a boolean; any
  other string; anything else. An error is the message, and leaves the setting as it was.
\<close>

datatype cfg_arg = ANil | AInt int | ABool bool | AStr cstring | AOther

definition arg_as_int :: "int \<Rightarrow> int" where
  "arg_as_int n = sint (of_int n :: u32)"

definition json_integer_option :: "cfg_arg \<Rightarrow> int \<Rightarrow> int \<Rightarrow> int \<Rightarrow> cstring + int" where
  "json_integer_option arg setting lo hi =
     (case arg of ANil \<Rightarrow> Inr setting
      | AInt n \<Rightarrow> (let v = arg_as_int n in if lo \<le> v \<and> v \<le> hi then Inr v else Inl (cstr ''expected integer in a range''))
      | _ \<Rightarrow> Inl (cstr ''number expected''))"

text \<open>\<open>luaL_checkoption\<close>: the index of the string in the options.\<close>

fun option_index :: "cstring \<Rightarrow> cstring list \<Rightarrow> nat option" where
  "option_index s [] = None"
| "option_index s (x # xs) = (if s = x then Some 0 else map_option Suc (option_index s xs))"

definition bool_options :: "cstring list" where "bool_options = [cstr ''off'', cstr ''on'']"

definition json_enum_option :: "cfg_arg \<Rightarrow> int \<Rightarrow> cstring list option \<Rightarrow> int \<Rightarrow> cstring + int" where
  "json_enum_option arg setting options bool_true =
     (let (options, bool_true) = (case options of None \<Rightarrow> (bool_options, 1) | Some os \<Rightarrow> (os, bool_true))
      in case arg of ANil \<Rightarrow> Inr setting
         | ABool b \<Rightarrow> if bool_true \<noteq> 0 then Inr ((if b then 1 else 0) * bool_true) else Inl (cstr ''string expected'')
         | AStr s \<Rightarrow> (case option_index s options of Some i \<Rightarrow> Inr (int i) | None \<Rightarrow> Inl (cstr ''invalid option''))
         | _ \<Rightarrow> Inl (cstr ''string expected''))"

text \<open>A setter leaves the message and the configuration, in which settings before the wrong argument are changed.\<close>

definition json_set :: "cstring + int \<Rightarrow> (int \<Rightarrow> json_config) \<Rightarrow> json_config \<Rightarrow> cstring option \<times> json_config" where
  "json_set r upd cfg = (case r of Inl e \<Rightarrow> (Some e, cfg) | Inr v \<Rightarrow> (None, upd v))"

definition json_cfg_encode_sparse_array :: "cfg_arg \<Rightarrow> cfg_arg \<Rightarrow> cfg_arg \<Rightarrow> json_config \<Rightarrow> cstring option \<times> json_config" where
  "json_cfg_encode_sparse_array a b c cfg =
     (case json_set (json_enum_option a (cf_sparse_convert cfg) None 1) (\<lambda>v. cfg\<lparr>cf_sparse_convert := v\<rparr>) cfg of
        (Some e, cfg) \<Rightarrow> (Some e, cfg)
      | (None, cfg) \<Rightarrow>
          (case json_set (json_integer_option b (cf_sparse_ratio cfg) 0 INT_MAX) (\<lambda>v. cfg\<lparr>cf_sparse_ratio := v\<rparr>) cfg of
             (Some e, cfg) \<Rightarrow> (Some e, cfg)
           | (None, cfg) \<Rightarrow> json_set (json_integer_option c (cf_sparse_safe cfg) 0 INT_MAX) (\<lambda>v. cfg\<lparr>cf_sparse_safe := v\<rparr>) cfg))"

definition json_cfg_encode_max_depth :: "cfg_arg \<Rightarrow> json_config \<Rightarrow> cstring option \<times> json_config" where
  "json_cfg_encode_max_depth a cfg =
     json_set (json_integer_option a (cf_encode_max_depth cfg) 1 INT_MAX) (\<lambda>v. cfg\<lparr>cf_encode_max_depth := v\<rparr>) cfg"

definition json_cfg_decode_max_depth :: "cfg_arg \<Rightarrow> json_config \<Rightarrow> cstring option \<times> json_config" where
  "json_cfg_decode_max_depth a cfg =
     json_set (json_integer_option a (cf_decode_max_depth cfg) 1 INT_MAX) (\<lambda>v. cfg\<lparr>cf_decode_max_depth := v\<rparr>) cfg"

definition json_cfg_encode_number_precision :: "cfg_arg \<Rightarrow> json_config \<Rightarrow> cstring option \<times> json_config" where
  "json_cfg_encode_number_precision a cfg =
     json_set (json_integer_option a (cf_precision cfg) 1 14) (\<lambda>v. cfg\<lparr>cf_precision := v\<rparr>) cfg"

definition json_cfg_encode_empty_table_as_object :: "cfg_arg \<Rightarrow> json_config \<Rightarrow> cstring option \<times> json_config" where
  "json_cfg_encode_empty_table_as_object a cfg =
     json_set (json_enum_option a (cf_empty_as_object cfg) None 1) (\<lambda>v. cfg\<lparr>cf_empty_as_object := v\<rparr>) cfg"

text \<open>The buffer is made or freed when the setting changes.\<close>

definition json_cfg_encode_keep_buffer :: "cfg_arg \<Rightarrow> json_config \<Rightarrow> (cstring option \<times> json_config) cres" where
  "json_cfg_encode_keep_buffer a cfg =
     (case json_enum_option a (cf_keep_buffer cfg) None 1 of Inl e \<Rightarrow> Inr (Some e, cfg)
      | Inr v \<Rightarrow>
          (let old = cf_keep_buffer cfg; cfg = cfg\<lparr>cf_keep_buffer := v\<rparr>
           in if old = v then Inr (None, cfg)
              else if v \<noteq> 0 then cbind (strbuf_init 0) (\<lambda>buf. Inr (None, cfg\<lparr>cf_buf := buf\<rparr>))
              else Inr (None, cfg\<lparr>cf_buf := strbuf_free (cf_buf cfg)\<rparr>)))"

definition json_cfg_encode_invalid_numbers :: "cfg_arg \<Rightarrow> json_config \<Rightarrow> cstring option \<times> json_config" where
  "json_cfg_encode_invalid_numbers a cfg =
     json_set (json_enum_option a (cf_encode_invalid cfg) (Some [cstr ''off'', cstr ''on'', cstr ''null'']) 1)
       (\<lambda>v. cfg\<lparr>cf_encode_invalid := v\<rparr>) cfg"

definition json_cfg_decode_invalid_numbers :: "cfg_arg \<Rightarrow> json_config \<Rightarrow> cstring option \<times> json_config" where
  "json_cfg_decode_invalid_numbers a cfg =
     json_set (json_enum_option a (cf_decode_invalid cfg) None 1) (\<lambda>v. cfg\<lparr>cf_decode_invalid := v\<rparr>) cfg"

subsection \<open>Strings\<close>

definition hex_digit :: "nat \<Rightarrow> byte" where
  "hex_digit n = (if n < 10 then of_nat (48 + n) else of_nat (87 + n))"

text \<open>The table \<open>char2escape\<close>.\<close>

definition char2escape :: "byte \<Rightarrow> cstring option" where
  "char2escape c =
     (if c = 8 then Some (cstr [CHR 0x5C, CHR ''b''])
      else if c = 9 then Some (cstr [CHR 0x5C, CHR ''t''])
      else if c = 10 then Some (cstr [CHR 0x5C, CHR ''n''])
      else if c = 12 then Some (cstr [CHR 0x5C, CHR ''f''])
      else if c = 13 then Some (cstr [CHR 0x5C, CHR ''r''])
      else if c < 32 \<or> c = 127
      then Some (cstr [CHR 0x5C, CHR ''u'', CHR ''0'', CHR ''0''] @ [hex_digit (unat c div 16), hex_digit (unat c mod 16)])
      else if c = 34 \<or> c = 47 \<or> c = 92 then Some [92, c]
      else None)"

definition json_encode_exception :: "json_config \<Rightarrow> strbuf \<Rightarrow> lua \<Rightarrow> string \<Rightarrow> failure" where
  "json_encode_exception cfg json v reason =
     Lua_error (cstr ''Cannot serialise '' @ lua_typename v @ cstr '': '' @ cstr reason)
       (if cf_keep_buffer cfg = 0 then strbuf_free json else json)"

fun append_escaped :: "byte list \<Rightarrow> strbuf \<Rightarrow> strbuf cres" where
  "append_escaped [] json = Inr json"
| "append_escaped (c # str) json =
     cbind (case char2escape c of Some escstr \<Rightarrow> strbuf_append_string escstr json | None \<Rightarrow> strbuf_append_char_unsafe c json)
       (append_escaped str)"

definition json_append_string :: "byte list \<Rightarrow> strbuf \<Rightarrow> strbuf cres" where
  "json_append_string str json =
     cbind (strbuf_ensure_empty_length (size_as_int (length str * 6 + 2)) json) (\<lambda>json.
     cbind (strbuf_append_char_unsafe 34 json) (\<lambda>json.
     cbind (append_escaped str json) (strbuf_append_char_unsafe 34)))"

subsection \<open>Numbers\<close>

text \<open>\<open>fpconv_g_fmt\<close> writes behind the string; the room is for 32 bytes.\<close>

definition json_append_number :: "libc \<Rightarrow> byte \<Rightarrow> json_config \<Rightarrow> u64 \<Rightarrow> strbuf \<Rightarrow> strbuf cres" where
  "json_append_number lc point cfg num json =
     (if cf_encode_invalid cfg = 0 \<and> (dbl_isinf num \<or> dbl_isnan num)
      then Inl (json_encode_exception cfg json (LNum num) ''must not be NaN or Inf'')
      else if cf_encode_invalid cfg = 1 \<and> dbl_isnan num then strbuf_append_mem (cstr ''nan'') json
      else if cf_encode_invalid cfg \<noteq> 0 \<and> cf_encode_invalid cfg \<noteq> 1 \<and> (dbl_isinf num \<or> dbl_isnan num)
      then strbuf_append_mem (cstr ''null'') json
      else cbind (strbuf_ensure_empty_length (int FPCONV_G_FMT_BUFSIZE) json) (\<lambda>json.
        case fpconv_g_fmt lc point num (cf_precision cfg) of None \<Rightarrow> Inl Undef
        | Some (out, len) \<Rightarrow> cbind (put_bytes (sb_length json) out json) (strbuf_extend_length (size_as_int len))))"

subsection \<open>Tables\<close>

text \<open>The loop of \<open>lua_array_length\<close>: the largest index and the number of entries, unless a key is no index.\<close>

fun scan_keys :: "(lua \<times> lua) list \<Rightarrow> int \<Rightarrow> int \<Rightarrow> (int \<times> int) option cres" where
  "scan_keys [] mx items = Inr (Some (mx, items))"
| "scan_keys ((key, v) # t) mx items =
     (case key of
        LNum k \<Rightarrow>
          (case dbl_pos_int k of
             Some n \<Rightarrow>
               cbind (if int n > mx then int_value (int n) else Inr mx) (\<lambda>mx.
               cbind (int_value (items + 1)) (scan_keys t mx))
           | None \<Rightarrow> Inr None)
      | _ \<Rightarrow> Inr None)"

definition lua_array_length :: "json_config \<Rightarrow> (lua \<times> lua) list \<Rightarrow> strbuf \<Rightarrow> int cres" where
  "lua_array_length cfg t json =
     cbind (scan_keys t 0 0) (\<lambda>r.
     case r of None \<Rightarrow> Inr (- 1)
     | Some (mx, items) \<Rightarrow>
         cbind (if cf_sparse_ratio cfg > 0 then int_value (items * cf_sparse_ratio cfg) else Inr 0) (\<lambda>limit.
         if cf_sparse_ratio cfg > 0 \<and> mx > limit \<and> mx > cf_sparse_safe cfg
         then (if cf_sparse_convert cfg = 0 then Inl (json_encode_exception cfg json (LTable t) ''excessively sparse array'') else Inr (- 1))
         else Inr mx))"

definition json_check_encode_depth :: "json_config \<Rightarrow> int \<Rightarrow> strbuf \<Rightarrow> unit cres" where
  "json_check_encode_depth cfg current_depth json =
     (if current_depth \<le> cf_encode_max_depth cfg then Inr ()
      else Inl (Lua_error (cstr ''Cannot serialise, excessive nesting'') (if cf_keep_buffer cfg = 0 then strbuf_free json else json)))"

text \<open>\<open>lua_rawgeti\<close>, for the indices from 1 to \<open>n\<close>.\<close>

definition lua_rawgeti :: "(lua \<times> lua) list \<Rightarrow> nat \<Rightarrow> lua" where
  "lua_rawgeti t i =
     (case List.find (\<lambda>(key, v). case key of LNum k \<Rightarrow> dbl_pos_int k = Some i | _ \<Rightarrow> False) t of Some (key, v) \<Rightarrow> v | None \<Rightarrow> LNil)"

definition array_items :: "(lua \<times> lua) list \<Rightarrow> int \<Rightarrow> lua list" where
  "array_items t n = map (lua_rawgeti t) [1..<Suc (nat n)]"

text \<open>The loops of \<open>json_append_array\<close> and \<open>json_append_object\<close>; \<open>f\<close> is \<open>json_append_data\<close>.\<close>

fun array_loop :: "(lua \<Rightarrow> strbuf \<Rightarrow> strbuf cres) \<Rightarrow> bool \<Rightarrow> lua list \<Rightarrow> strbuf \<Rightarrow> strbuf cres" where
  "array_loop f comma [] json = Inr json"
| "array_loop f comma (v # vs) json =
     cbind (if comma then strbuf_append_char 44 json else Inr json) (\<lambda>json.
     cbind (f v json) (array_loop f True vs))"

fun object_loop :: "libc \<Rightarrow> byte \<Rightarrow> json_config \<Rightarrow> (lua \<Rightarrow> strbuf \<Rightarrow> strbuf cres) \<Rightarrow> bool \<Rightarrow> (lua \<times> lua) list \<Rightarrow> strbuf \<Rightarrow> strbuf cres" where
  "object_loop lc point cfg f comma [] json = Inr json"
| "object_loop lc point cfg f comma ((key, v) # t) json =
     cbind (if comma then strbuf_append_char 44 json else Inr json) (\<lambda>json.
     cbind (case key of
              LNum k \<Rightarrow> cbind (strbuf_append_char 34 json) (\<lambda>json.
                cbind (json_append_number lc point cfg k json) (strbuf_append_mem [34, 58]))
            | LStr s \<Rightarrow> cbind (json_append_string s json) (strbuf_append_char 58)
            | _ \<Rightarrow> Inl (json_encode_exception cfg json key ''table key must be a number or string'')) (\<lambda>json.
     cbind (f v json) (object_loop lc point cfg f True t)))"

lemma array_loop_cong [fundef_cong]:
  "vs = vs' \<Longrightarrow> (\<And>v json. v \<in> set vs' \<Longrightarrow> f v json = g v json) \<Longrightarrow> array_loop f comma vs json = array_loop g comma vs' json"
proof (induction vs' arbitrary: vs comma json)
  case (Cons v vs')
  have "f v json = g v json" for json by (rule Cons.prems(2)) simp
  moreover have "array_loop f True vs' json = array_loop g True vs' json" for json
    by (rule Cons.IH [OF refl]) (simp add: Cons.prems(2))
  then have "array_loop f True vs' = array_loop g True vs'" by (rule ext)
  ultimately show ?case using Cons.prems(1) by simp
qed simp

lemma object_loop_cong [fundef_cong]:
  "t = t' \<Longrightarrow> (\<And>key v json. (key, v) \<in> set t' \<Longrightarrow> f v json = g v json)
    \<Longrightarrow> object_loop lc point cfg f comma t json = object_loop lc point cfg g comma t' json"
proof (induction t' arbitrary: t comma json)
  case (Cons e t')
  obtain key v where e: "e = (key, v)" by (cases e)
  have "f v json = g v json" for json by (rule Cons.prems(2) [of key]) (simp add: e)
  moreover have "object_loop lc point cfg f True t' json = object_loop lc point cfg g True t' json" for json
    by (rule Cons.IH [OF refl]) (use Cons.prems(2) in auto)
  then have "object_loop lc point cfg f True t' = object_loop lc point cfg g True t'" by (rule ext)
  ultimately show ?case using Cons.prems(1) by (simp add: e)
qed simp

lemma table_value_size: "(key, v) \<in> set t \<Longrightarrow> size v < size (LTable t)"
proof (induction t)
  case (Cons e t)
  then show ?case by (cases "e = (key, v)") auto
qed simp

lemma lua_rawgeti_size: "size (lua_rawgeti t i) < size (LTable t)"
proof (cases "List.find (\<lambda>(key, v). case key of LNum k \<Rightarrow> dbl_pos_int k = Some i | _ \<Rightarrow> False) t")
  case None
  then show ?thesis by (simp add: lua_rawgeti_def)
next
  case (Some e)
  then have "e \<in> set t" by (metis find_Some_iff nth_mem)
  then show ?thesis using Some table_value_size [of "fst e" "snd e" t] by (simp add: lua_rawgeti_def case_prod_unfold)
qed

function json_append_data :: "libc \<Rightarrow> byte \<Rightarrow> json_config \<Rightarrow> int \<Rightarrow> lua \<Rightarrow> strbuf \<Rightarrow> strbuf cres" where
  "json_append_data lc point cfg current_depth (LStr s) json = json_append_string s json"
| "json_append_data lc point cfg current_depth (LNum x) json = json_append_number lc point cfg x json"
| "json_append_data lc point cfg current_depth (LBool b) json = strbuf_append_mem (if b then cstr ''true'' else cstr ''false'') json"
| "json_append_data lc point cfg current_depth (LTable t) json =
     (let current_depth = current_depth + 1 in
      cbind (json_check_encode_depth cfg current_depth json) (\<lambda>_.
      cbind (lua_array_length cfg t json) (\<lambda>len.
      if len > 0 \<or> len = 0 \<and> cf_empty_as_object cfg = 0
      then cbind (strbuf_append_char 91 json) (\<lambda>json.
           cbind (array_loop (json_append_data lc point cfg current_depth) False (array_items t len) json) (strbuf_append_char 93))
      else cbind (strbuf_append_char 123 json) (\<lambda>json.
           cbind (object_loop lc point cfg (json_append_data lc point cfg current_depth) False t json) (strbuf_append_char 125)))))"
| "json_append_data lc point cfg current_depth LNil json = strbuf_append_mem (cstr ''null'') json"
| "json_append_data lc point cfg current_depth (LLight null) json =
     (if null then strbuf_append_mem (cstr ''null'') json else Inl (json_encode_exception cfg json (LLight null) ''type not supported''))"
| "json_append_data lc point cfg current_depth (LOther t) json = Inl (json_encode_exception cfg json (LOther t) ''type not supported'')"
  by pat_completeness auto
termination
  by (relation "measure (\<lambda>(lc, point, cfg, d, v, json). size v)")
    (auto simp: array_items_def less_Suc_eq_le intro: table_value_size lua_rawgeti_size [simplified, unfolded less_Suc_eq_le] dest: table_value_size)

text \<open>The arguments of the call; the result comes with the configuration as it is left.\<close>

definition json_encode :: "libc \<Rightarrow> byte \<Rightarrow> json_config \<Rightarrow> lua list \<Rightarrow> json_config \<times> byte list cres" where
  "json_encode lc point cfg args =
     (let keep = cf_keep_buffer cfg \<noteq> 0 in
      case args of [v] \<Rightarrow>
        (case if keep then Inr (strbuf_reset (cf_buf cfg)) else strbuf_init 0 of Inl e \<Rightarrow> (cfg, Inl e)
         | Inr buf \<Rightarrow>
             (case json_append_data lc point cfg 0 v buf of
                Inl (Lua_error msg json) \<Rightarrow> (if keep then cfg\<lparr>cf_buf := json\<rparr> else cfg, Inl (Lua_error msg json))
              | Inl e \<Rightarrow> (cfg, Inl e)
              | Inr json \<Rightarrow> (if keep then cfg\<lparr>cf_buf := json\<rparr> else cfg, strbuf_string json)))
      | _ \<Rightarrow> (cfg, Inl (Lua_error (cstr ''expected 1 argument'') (cf_buf cfg))))"

end
