(* ===== verification/JsonDecode.thy ===== *)
theory JsonDecode
  imports JsonEncode
begin

section \<open>JSON: decoder (lua-cjson/lua_cjson.c)\<close>

text \<open>
  The second half of the file: the tokens and the parser. The data is the Lua string with the NUL behind it, and
  a read behind that NUL is undefined. An error is thrown with the temporary buffer as it is left.
\<close>

datatype token_type = T_OBJ_BEGIN | T_OBJ_END | T_ARR_BEGIN | T_ARR_END | T_STRING | T_NUMBER | T_BOOLEAN | T_NULL | T_COLON
  | T_COMMA | T_END | T_WHITESPACE | T_ERROR | T_UNKNOWN

fun json_token_type_name :: "token_type \<Rightarrow> cstring" where
  "json_token_type_name T_OBJ_BEGIN = cstr ''T_OBJ_BEGIN''"
| "json_token_type_name T_OBJ_END = cstr ''T_OBJ_END''"
| "json_token_type_name T_ARR_BEGIN = cstr ''T_ARR_BEGIN''"
| "json_token_type_name T_ARR_END = cstr ''T_ARR_END''"
| "json_token_type_name T_STRING = cstr ''T_STRING''"
| "json_token_type_name T_NUMBER = cstr ''T_NUMBER''"
| "json_token_type_name T_BOOLEAN = cstr ''T_BOOLEAN''"
| "json_token_type_name T_NULL = cstr ''T_NULL''"
| "json_token_type_name T_COLON = cstr ''T_COLON''"
| "json_token_type_name T_COMMA = cstr ''T_COMMA''"
| "json_token_type_name T_END = cstr ''T_END''"
| "json_token_type_name T_WHITESPACE = cstr ''T_WHITESPACE''"
| "json_token_type_name T_ERROR = cstr ''T_ERROR''"
| "json_token_type_name T_UNKNOWN = cstr ''T_UNKNOWN''"

text \<open>The tables that \<open>json_create_config\<close> fills.\<close>

definition ch2token :: "byte \<Rightarrow> token_type" where
  "ch2token c =
     (if c = 123 then T_OBJ_BEGIN else if c = 125 then T_OBJ_END else if c = 91 then T_ARR_BEGIN else if c = 93 then T_ARR_END
      else if c = 44 then T_COMMA else if c = 58 then T_COLON else if c = 0 then T_END
      else if c \<in> {32, 9, 10, 13} then T_WHITESPACE
      else if c \<in> {102, 105, 73, 110, 78, 116, 34, 43, 45} \<or> 48 \<le> c \<and> c \<le> 57 then T_UNKNOWN
      else T_ERROR)"

definition escape2char :: "byte \<Rightarrow> byte" where
  "escape2char c =
     (if c = 34 \<or> c = 92 \<or> c = 47 \<or> c = 117 then c
      else if c = 98 then 8 else if c = 116 then 9 else if c = 110 then 10 else if c = 102 then 12 else if c = 114 then 13
      else 0)"

record json_parse =
  js_data :: "byte list"
  js_ptr :: nat
  js_tmp :: strbuf
  js_depth :: int

text \<open>The union of the token, of which only the member set last is used.\<close>

datatype token_value = VNone | VString "byte list" | VNumber u64 | VBoolean bool | VError cstring

record json_token =
  tk_type :: token_type
  tk_index :: nat
  tk_value :: token_value

text \<open>The members; the one that does not go with the type is never read.\<close>

definition token_string :: "json_token \<Rightarrow> byte list" where
  "token_string token = (case tk_value token of VString s \<Rightarrow> s | VError e \<Rightarrow> e | _ \<Rightarrow> [])"

definition token_number :: "json_token \<Rightarrow> u64" where
  "token_number token = (case tk_value token of VNumber x \<Rightarrow> x | _ \<Rightarrow> 0)"

definition token_boolean :: "json_token \<Rightarrow> bool" where
  "token_boolean token = (case tk_value token of VBoolean b \<Rightarrow> b | _ \<Rightarrow> False)"

definition ch_at :: "json_parse \<Rightarrow> nat \<Rightarrow> byte cres" where
  "ch_at json i = (case rd (js_data json) (js_ptr json + i) of None \<Rightarrow> Inl Undef | Some c \<Rightarrow> Inr c)"

definition advance :: "nat \<Rightarrow> json_parse \<Rightarrow> json_parse" where
  "advance n json = json\<lparr>js_ptr := js_ptr json + n\<rparr>"

subsection \<open>Escapes\<close>

definition hexdigit2int :: "byte \<Rightarrow> int" where
  "hexdigit2int hex =
     (if 48 \<le> hex \<and> hex \<le> 57 then uint hex - 48
      else let hex = hex OR 0x20 in if 97 \<le> hex \<and> hex \<le> 102 then 10 + uint hex - 97 else - 1)"

text \<open>Nothing is read behind a character that is no digit.\<close>

definition decode_hex4 :: "json_parse \<Rightarrow> nat \<Rightarrow> int cres" where
  "decode_hex4 json i =
     cbind (ch_at json i) (\<lambda>c0. if hexdigit2int c0 < 0 then Inr (- 1) else
     cbind (ch_at json (i + 1)) (\<lambda>c1. if hexdigit2int c1 < 0 then Inr (- 1) else
     cbind (ch_at json (i + 2)) (\<lambda>c2. if hexdigit2int c2 < 0 then Inr (- 1) else
     cbind (ch_at json (i + 3)) (\<lambda>c3. if hexdigit2int c3 < 0 then Inr (- 1) else
     Inr (push_bit 12 (hexdigit2int c0) + push_bit 8 (hexdigit2int c1) + push_bit 4 (hexdigit2int c2) + hexdigit2int c3)))))"

text \<open>The empty list stands for the length zero.\<close>

definition codepoint_to_utf8 :: "int \<Rightarrow> byte list" where
  "codepoint_to_utf8 codepoint =
     (if codepoint \<le> 0x7F then [of_int codepoint]
      else if codepoint \<le> 0x7FF then [of_int (drop_bit 6 codepoint OR 0xC0), of_int (codepoint AND 0x3F OR 0x80)]
      else if codepoint \<le> 0xFFFF
      then [of_int (drop_bit 12 codepoint OR 0xE0), of_int (drop_bit 6 codepoint AND 0x3F OR 0x80), of_int (codepoint AND 0x3F OR 0x80)]
      else if codepoint \<le> 0x1FFFFF
      then [of_int (drop_bit 18 codepoint OR 0xF0), of_int (drop_bit 12 codepoint AND 0x3F OR 0x80),
            of_int (drop_bit 6 codepoint AND 0x3F OR 0x80), of_int (codepoint AND 0x3F OR 0x80)]
      else [])"

text \<open>The code point of an escape, with the length of the escape, or none.\<close>

definition unicode_escape :: "json_parse \<Rightarrow> (int \<times> nat) option cres" where
  "unicode_escape json =
     cbind (decode_hex4 json 2) (\<lambda>codepoint.
     if codepoint < 0 then Inr None
     else if codepoint AND 0xF800 = 0xD800
     then if codepoint AND 0x400 \<noteq> 0 then Inr None
       else cbind (ch_at json 6) (\<lambda>c. if c \<noteq> 92 then Inr None
       else cbind (ch_at json 7) (\<lambda>c. if c \<noteq> 117 then Inr None
       else cbind (decode_hex4 json 8) (\<lambda>surrogate_low.
            if surrogate_low < 0 then Inr None
            else if surrogate_low AND 0xFC00 \<noteq> 0xDC00 then Inr None
            else Inr (Some ((push_bit 10 (codepoint AND 0x3FF) OR (surrogate_low AND 0x3FF)) + 0x10000, 12)))))
     else Inr (Some (codepoint, 6)))"

definition json_append_unicode_escape :: "json_parse \<Rightarrow> json_parse option cres" where
  "json_append_unicode_escape json =
     cbind (unicode_escape json) (\<lambda>r. case r of None \<Rightarrow> Inr None
     | Some (codepoint, escape_len) \<Rightarrow>
         (let utf8 = codepoint_to_utf8 codepoint in
          if utf8 = [] then Inr None
          else cbind (strbuf_append_mem_unsafe utf8 (js_tmp json)) (\<lambda>tmp. Inr (Some (advance escape_len (json\<lparr>js_tmp := tmp\<rparr>))))))"

subsection \<open>Tokens\<close>

definition json_set_token_error :: "json_parse \<Rightarrow> string \<Rightarrow> json_parse \<times> json_token" where
  "json_set_token_error json errtype = (json, \<lparr>tk_type = T_ERROR, tk_index = js_ptr json, tk_value = VError (cstr errtype)\<rparr>)"

text \<open>The loop over the characters of a string; the fuel is the length of the data.\<close>

fun string_loop :: "nat \<Rightarrow> json_parse \<Rightarrow> (json_parse \<times> cstring option) cres" where
  "string_loop 0 json = Inl Undef"
| "string_loop (Suc k) json =
     cbind (ch_at json 0) (\<lambda>ch.
     if ch = 34 then Inr (json, None)
     else if ch = 0 then Inr (json, Some (cstr ''unexpected end of string''))
     else if ch = 92
     then cbind (ch_at json 1) (\<lambda>ch.
          let ch = escape2char ch in
          if ch = 117
          then cbind (json_append_unicode_escape json) (\<lambda>r. case r of
                 Some json \<Rightarrow> string_loop k json
               | None \<Rightarrow> Inr (json, Some (cstr ''invalid unicode escape code'')))
          else if ch = 0 then Inr (json, Some (cstr ''invalid escape code''))
          else cbind (strbuf_append_char_unsafe ch (js_tmp json)) (\<lambda>tmp. string_loop k (advance 2 (json\<lparr>js_tmp := tmp\<rparr>))))
     else cbind (strbuf_append_char_unsafe ch (js_tmp json)) (\<lambda>tmp. string_loop k (advance 1 (json\<lparr>js_tmp := tmp\<rparr>))))"

text \<open>The index of the token has been set before.\<close>

definition json_next_string_token :: "json_parse \<Rightarrow> nat \<Rightarrow> (json_parse \<times> json_token) cres" where
  "json_next_string_token json index =
     cbind (ch_at json 0) (\<lambda>c. if c \<noteq> 34 then Inl Undef else
     (let json = advance 1 json; json = json\<lparr>js_tmp := strbuf_reset (js_tmp json)\<rparr> in
      cbind (string_loop (length (js_data json)) json) (\<lambda>(json, err). case err of
        Some e \<Rightarrow> Inr (json, \<lparr>tk_type = T_ERROR, tk_index = js_ptr json, tk_value = VError e\<rparr>)
      | None \<Rightarrow>
          (let json = advance 1 json in
           cbind (strbuf_ensure_null (js_tmp json)) (\<lambda>tmp.
           cbind (strbuf_string tmp) (\<lambda>s.
           Inr (json\<lparr>js_tmp := tmp\<rparr>, \<lparr>tk_type = T_STRING, tk_index = index, tk_value = VString s\<rparr>)))))))"

text \<open>\<open>strncmp\<close> and \<open>strncasecmp\<close> with the length of the second string, which end at the first difference.\<close>

definition to_lower :: "byte \<Rightarrow> byte" where
  "to_lower c = (if 65 \<le> c \<and> c \<le> 90 then c + 32 else c)"

fun same_prefix :: "(byte \<Rightarrow> byte) \<Rightarrow> byte list \<Rightarrow> cstring \<Rightarrow> bool cres" where
  "same_prefix f mem [] = Inr True"
| "same_prefix f [] (c # s) = Inl Undef"
| "same_prefix f (m # mem) (c # s) = (if f m = c then same_prefix f mem s else Inr False)"

definition text_at :: "json_parse \<Rightarrow> nat \<Rightarrow> byte list" where
  "text_at json i = drop (js_ptr json + i) (js_data json)"

text \<open>\<open>char\<close> is signed: a byte from 128 on is below '9'.\<close>

definition json_is_invalid_number :: "json_parse \<Rightarrow> bool cres" where
  "json_is_invalid_number json =
     cbind (ch_at json 0) (\<lambda>c.
     if c = 43 then Inr True
     else (let i = (if c = 45 then 1 else 0) in
       cbind (ch_at json i) (\<lambda>p.
       if p = 48 then cbind (ch_at json (i + 1)) (\<lambda>ch2. Inr (ch2 OR 0x20 = 120 \<or> 48 \<le> ch2 \<and> ch2 \<le> 57))
       else if p \<le> 57 \<or> 128 \<le> p then Inr False
       else cbind (same_prefix to_lower (text_at json i) (cstr ''inf'')) (\<lambda>b.
            if b then Inr True else same_prefix to_lower (text_at json i) (cstr ''nan'')))))"

definition json_next_number_token :: "libc \<Rightarrow> byte \<Rightarrow> json_parse \<Rightarrow> nat \<Rightarrow> (json_parse \<times> json_token) cres" where
  "json_next_number_token lc point json index =
     (case fpconv_strtod lc point (text_at json 0) of None \<Rightarrow> Inl Undef
      | Some (x, n) \<Rightarrow>
          if n = 0 then Inr (json_set_token_error json ''invalid number'')
          else Inr (advance n json, \<lparr>tk_type = T_NUMBER, tk_index = index, tk_value = VNumber x\<rparr>))"

text \<open>The number of blanks, up to the first other character.\<close>

fun white_space :: "byte list \<Rightarrow> nat cres" where
  "white_space [] = Inl Undef"
| "white_space (c # mem) = (if ch2token c = T_WHITESPACE then cbind (white_space mem) (\<lambda>n. Inr (Suc n)) else Inr 0)"

text \<open>The tokens that begin with a character of type \<open>T_UNKNOWN\<close>.\<close>

definition unknown_token :: "libc \<Rightarrow> byte \<Rightarrow> json_config \<Rightarrow> json_parse \<Rightarrow> byte \<Rightarrow> (json_parse \<times> json_token) cres" where
  "unknown_token lc point cfg json ch =
     (let index = js_ptr json in
      if ch = 34 then json_next_string_token json index
      else if ch = 45 \<or> 48 \<le> ch \<and> ch \<le> 57
      then cbind (if cf_decode_invalid cfg = 0 then json_is_invalid_number json else Inr False) (\<lambda>bad.
           if bad then Inr (json_set_token_error json ''invalid number'') else json_next_number_token lc point json index)
      else cbind (same_prefix (\<lambda>c. c) (text_at json 0) (cstr ''true'')) (\<lambda>b.
        if b then Inr (advance 4 json, \<lparr>tk_type = T_BOOLEAN, tk_index = index, tk_value = VBoolean True\<rparr>)
      else cbind (same_prefix (\<lambda>c. c) (text_at json 0) (cstr ''false'')) (\<lambda>b.
        if b then Inr (advance 5 json, \<lparr>tk_type = T_BOOLEAN, tk_index = index, tk_value = VBoolean False\<rparr>)
      else cbind (same_prefix (\<lambda>c. c) (text_at json 0) (cstr ''null'')) (\<lambda>b.
        if b then Inr (advance 4 json, \<lparr>tk_type = T_NULL, tk_index = index, tk_value = VNone\<rparr>)
      else cbind (if cf_decode_invalid cfg \<noteq> 0 then json_is_invalid_number json else Inr False) (\<lambda>bad.
        if bad then json_next_number_token lc point json index
        else Inr (json_set_token_error json ''invalid token''))))))"

definition json_next_token :: "libc \<Rightarrow> byte \<Rightarrow> json_config \<Rightarrow> json_parse \<Rightarrow> (json_parse \<times> json_token) cres" where
  "json_next_token lc point cfg json =
     cbind (white_space (text_at json 0)) (\<lambda>n.
     let json = advance n json in
     cbind (ch_at json 0) (\<lambda>ch.
     let type = ch2token ch in
     if type = T_ERROR then Inr (json_set_token_error json ''invalid token'')
     else if type = T_END then Inr (json, \<lparr>tk_type = T_END, tk_index = js_ptr json, tk_value = VNone\<rparr>)
     else if type \<noteq> T_UNKNOWN then Inr (advance 1 json, \<lparr>tk_type = type, tk_index = js_ptr json, tk_value = VNone\<rparr>)
     else unknown_token lc point cfg json ch))"

subsection \<open>Parser\<close>

definition json_throw_parse_error :: "json_parse \<Rightarrow> string \<Rightarrow> json_token \<Rightarrow> failure" where
  "json_throw_parse_error json exp token =
     Lua_error (cstr ''Expected '' @ cstr exp @ cstr '' but found ''
         @ (if tk_type token = T_ERROR then token_string token else json_token_type_name (tk_type token))
         @ cstr '' at character '' @ decimal (tk_index token + 1))
       (strbuf_free (js_tmp json))"

definition json_decode_ascend :: "json_parse \<Rightarrow> json_parse" where
  "json_decode_ascend json = json\<lparr>js_depth := js_depth json - 1\<rparr>"

definition json_decode_descend :: "json_config \<Rightarrow> json_parse \<Rightarrow> json_parse cres" where
  "json_decode_descend cfg json =
     (let json = json\<lparr>js_depth := js_depth json + 1\<rparr> in
      if js_depth json \<le> cf_decode_max_depth cfg then Inr json
      else Inl (Lua_error (cstr ''Found too many nested data structures ('' @ decimal_int (js_depth json) @ cstr '') at character ''
          @ decimal (js_ptr json)) (strbuf_free (js_tmp json))))"

text \<open>\<open>lua_rawset\<close>: the value of a key, which comes last when it is new.\<close>

fun lua_rawset :: "(lua \<times> lua) list \<Rightarrow> lua \<Rightarrow> lua \<Rightarrow> (lua \<times> lua) list" where
  "lua_rawset [] key v = [(key, v)]"
| "lua_rawset ((k, w) # t) key v = (if k = key then (k, v) # t else (k, w) # lua_rawset t key v)"

text \<open>
  The loops of \<open>json_parse_object_context\<close> and \<open>json_parse_array_context\<close>, with the table that they fill; \<open>process\<close> is
  \<open>json_process_value\<close>. Every turn takes a character at least, so the length of the data is fuel enough.\<close>

fun object_members :: "nat \<Rightarrow> (json_parse \<Rightarrow> json_token \<Rightarrow> (json_parse \<times> lua) cres) \<Rightarrow> libc \<Rightarrow> byte \<Rightarrow> json_config
    \<Rightarrow> json_parse \<Rightarrow> json_token \<Rightarrow> (lua \<times> lua) list \<Rightarrow> (json_parse \<times> lua) cres" where
  "object_members 0 process lc point cfg json token t = Inl Undef"
| "object_members (Suc k) process lc point cfg json token t =
     (if tk_type token \<noteq> T_STRING then Inl (json_throw_parse_error json ''object key string'' token)
      else
        let key = LStr (token_string token) in
        cbind (json_next_token lc point cfg json) (\<lambda>(json, token).
        if tk_type token \<noteq> T_COLON then Inl (json_throw_parse_error json ''colon'' token)
        else cbind (json_next_token lc point cfg json) (\<lambda>(json, token).
        cbind (process json token) (\<lambda>(json, v).
        let t = lua_rawset t key v in
        cbind (json_next_token lc point cfg json) (\<lambda>(json, token).
        if tk_type token = T_OBJ_END then Inr (json_decode_ascend json, LTable t)
        else if tk_type token \<noteq> T_COMMA then Inl (json_throw_parse_error json ''comma or object end'' token)
        else cbind (json_next_token lc point cfg json) (\<lambda>(json, token). object_members k process lc point cfg json token t))))))"

fun array_elements :: "nat \<Rightarrow> (json_parse \<Rightarrow> json_token \<Rightarrow> (json_parse \<times> lua) cres) \<Rightarrow> libc \<Rightarrow> byte \<Rightarrow> json_config
    \<Rightarrow> json_parse \<Rightarrow> json_token \<Rightarrow> nat \<Rightarrow> (lua \<times> lua) list \<Rightarrow> (json_parse \<times> lua) cres" where
  "array_elements 0 process lc point cfg json token i t = Inl Undef"
| "array_elements (Suc k) process lc point cfg json token i t =
     cbind (process json token) (\<lambda>(json, v).
     let t = lua_rawset t (LNum (dbl_of_nat i)) v in
     cbind (json_next_token lc point cfg json) (\<lambda>(json, token).
     if tk_type token = T_ARR_END then Inr (json_decode_ascend json, LTable t)
     else if tk_type token \<noteq> T_COMMA then Inl (json_throw_parse_error json ''comma or array end'' token)
     else cbind (json_next_token lc point cfg json) (\<lambda>(json, token). array_elements k process lc point cfg json token (i + 1) t)))"

definition json_parse_object_context :: "(json_parse \<Rightarrow> json_token \<Rightarrow> (json_parse \<times> lua) cres) \<Rightarrow> libc \<Rightarrow> byte \<Rightarrow> json_config
    \<Rightarrow> json_parse \<Rightarrow> (json_parse \<times> lua) cres" where
  "json_parse_object_context process lc point cfg json =
     cbind (json_decode_descend cfg json) (\<lambda>json.
     cbind (json_next_token lc point cfg json) (\<lambda>(json, token).
     if tk_type token = T_OBJ_END then Inr (json_decode_ascend json, LTable [])
     else object_members (length (js_data json)) process lc point cfg json token []))"

definition json_parse_array_context :: "(json_parse \<Rightarrow> json_token \<Rightarrow> (json_parse \<times> lua) cres) \<Rightarrow> libc \<Rightarrow> byte \<Rightarrow> json_config
    \<Rightarrow> json_parse \<Rightarrow> (json_parse \<times> lua) cres" where
  "json_parse_array_context process lc point cfg json =
     cbind (json_decode_descend cfg json) (\<lambda>json.
     cbind (json_next_token lc point cfg json) (\<lambda>(json, token).
     if tk_type token = T_ARR_END then Inr (json_decode_ascend json, LTable [])
     else array_elements (length (js_data json)) process lc point cfg json token 1 []))"

text \<open>Every level of nesting takes a character too.\<close>

fun json_process_value :: "nat \<Rightarrow> libc \<Rightarrow> byte \<Rightarrow> json_config \<Rightarrow> json_parse \<Rightarrow> json_token \<Rightarrow> (json_parse \<times> lua) cres" where
  "json_process_value 0 lc point cfg json token = Inl Undef"
| "json_process_value (Suc k) lc point cfg json token =
     (if tk_type token = T_STRING then Inr (json, LStr (token_string token))
      else if tk_type token = T_NUMBER then Inr (json, LNum (token_number token))
      else if tk_type token = T_BOOLEAN then Inr (json, LBool (token_boolean token))
      else if tk_type token = T_OBJ_BEGIN then json_parse_object_context (json_process_value k lc point cfg) lc point cfg json
      else if tk_type token = T_ARR_BEGIN then json_parse_array_context (json_process_value k lc point cfg) lc point cfg json
      else if tk_type token = T_NULL then Inr (json, LLight True)
      else Inl (json_throw_parse_error json ''value'' token))"

text \<open>
  The arguments of the call. An error before the buffer is made comes with the buffer of the configuration. The text of
  a number, into which \<open>luaL_checklstring\<close> turns an argument that is one, is passed as the string it is turned into.\<close>

definition json_decode :: "libc \<Rightarrow> byte \<Rightarrow> json_config \<Rightarrow> lua list \<Rightarrow> lua cres" where
  "json_decode lc point cfg args =
     (case args of [LStr s] \<Rightarrow>
        if length s \<ge> 2 \<and> (s ! 0 = 0 \<or> s ! 1 = 0)
        then Inl (Lua_error (cstr ''JSON parser does not support UTF-16 or UTF-32'') (cf_buf cfg))
        else
          cbind (strbuf_new (size_as_int (length s))) (\<lambda>tmp.
          let json = \<lparr>js_data = s @ [0], js_ptr = 0, js_tmp = tmp, js_depth = 0\<rparr> in
          cbind (json_next_token lc point cfg json) (\<lambda>(json, token).
          cbind (json_process_value (length s + 2) lc point cfg json token) (\<lambda>(json, v).
          cbind (json_next_token lc point cfg json) (\<lambda>(json, token).
          if tk_type token \<noteq> T_END then Inl (json_throw_parse_error json ''the end'' token) else Inr v))))
      | [_] \<Rightarrow> Inl (Lua_error (cstr ''string expected'') (cf_buf cfg))
      | _ \<Rightarrow> Inl (Lua_error (cstr ''expected 1 argument'') (cf_buf cfg)))"

text \<open>
  The functions \<open>encode\<close> and \<open>decode\<close> of the module \<open>cjson.safe\<close>: \<open>lua_pcall\<close> turns an error of \<open>f\<close> into its message,
  which comes behind a nil. There is memory enough.\<close>

definition json_protect_conversion :: "json_config \<Rightarrow> (lua list \<Rightarrow> lua cres) \<Rightarrow> lua list \<Rightarrow> lua list cres" where
  "json_protect_conversion cfg f args =
     (if length args \<noteq> 1 then Inl (Lua_error (cstr ''expected 1 argument'') (cf_buf cfg))
      else case f args of Inr v \<Rightarrow> Inr [v]
        | Inl (Lua_error msg sb) \<Rightarrow> Inr [LNil, LStr msg]
        | Inl e \<Rightarrow> Inl e)"

end
