(* ===== verification/JsonSafe.thy ===== *)
theory JsonSafe
  imports JsonDecode
begin

section \<open>JSON: the decoder on any input\<close>

text \<open>
  Whatever bytes the decoder is given, it reads nothing behind the NUL that ends them, writes nothing behind its
  temporary buffer, which is as long as the data, and returns a value or throws an error, after it has freed
  the buffer.
\<close>

definition json_ok :: "byte list \<Rightarrow> json_parse \<Rightarrow> bool" where
  "json_ok cs json \<longleftrightarrow> js_data json = cs @ [0] \<and> js_ptr json \<le> length cs
     \<and> (\<exists>bs. sb_holds (js_tmp json) bs) \<and> int (length cs) < sb_size (js_tmp json)"

text \<open>The library reads no more characters than there are.\<close>

definition strtod_ok :: "libc \<Rightarrow> bool" where
  "strtod_ok lc \<longleftrightarrow> (\<forall>s. snd (lc_strtod lc s) \<le> length s)"

subsection \<open>Reading\<close>

lemma ch_ok:
  assumes "json_ok cs json" and "js_ptr json + i \<le> length cs"
  obtains c where "ch_at json i = Inr c" "c \<noteq> 0 \<Longrightarrow> js_ptr json + i < length cs"
proof
  let ?c = "(cs @ [0]) ! (js_ptr json + i)"
  show "ch_at json i = Inr ?c" using assms by (simp add: ch_at_def json_ok_def rd_def)
  show "?c \<noteq> 0 \<Longrightarrow> js_ptr json + i < length cs" using assms(2) by (cases "js_ptr json + i = length cs") auto
qed

lemma hexdigit2int_bounds: "hexdigit2int c \<le> 15" "0 \<le> hexdigit2int c \<Longrightarrow> c \<noteq> 0"
proof -
  have "uint c \<le> 57" if "c \<le> 57" using that by (simp add: word_le_def)
  moreover have "uint (c OR 0x20) \<le> 102" if "c OR 0x20 \<le> 102" using that by (simp add: word_le_def)
  ultimately show "hexdigit2int c \<le> 15" unfolding hexdigit2int_def Let_def by (auto split: if_splits)
  show "0 \<le> hexdigit2int c \<Longrightarrow> c \<noteq> 0" by (auto simp: hexdigit2int_def)
qed

lemma hex4_bounds:
  assumes "0 \<le> d0" "d0 \<le> 15" "0 \<le> d1" "d1 \<le> 15" "0 \<le> d2" "d2 \<le> 15" "0 \<le> d3" "d3 \<le> 15"
  shows "push_bit 12 d0 + push_bit 8 d1 + push_bit 4 d2 + d3 \<in> {0..0xFFFF :: int}"
  using assms by (simp add: push_bit_eq_mult)

lemma decode_hex4_ok:
  assumes "json_ok cs json" and "js_ptr json + i \<le> length cs"
  shows "\<exists>n. decode_hex4 json i = Inr n \<and> n \<le> 0xFFFF \<and> (0 \<le> n \<longrightarrow> js_ptr json + i + 4 \<le> length cs)"
proof -
  obtain c0 where c0: "ch_at json i = Inr c0" "c0 \<noteq> 0 \<Longrightarrow> js_ptr json + i < length cs" by (rule ch_ok [OF assms]) blast
  show ?thesis
  proof (cases "0 \<le> hexdigit2int c0")
    case 0: True
    then have "js_ptr json + (i + 1) \<le> length cs" using c0(2) hexdigit2int_bounds(2) by fastforce
    then obtain c1 where c1: "ch_at json (i + 1) = Inr c1" "c1 \<noteq> 0 \<Longrightarrow> js_ptr json + (i + 1) < length cs" by (rule ch_ok [OF assms(1)]) blast
    show ?thesis
    proof (cases "0 \<le> hexdigit2int c1")
      case 1: True
      then have "js_ptr json + (i + 2) \<le> length cs" using c1(2) hexdigit2int_bounds(2) by fastforce
      then obtain c2 where c2: "ch_at json (i + 2) = Inr c2" "c2 \<noteq> 0 \<Longrightarrow> js_ptr json + (i + 2) < length cs" by (rule ch_ok [OF assms(1)]) blast
      show ?thesis
      proof (cases "0 \<le> hexdigit2int c2")
        case 2: True
        then have "js_ptr json + (i + 3) \<le> length cs" using c2(2) hexdigit2int_bounds(2) by fastforce
        then obtain c3 where c3: "ch_at json (i + 3) = Inr c3" "c3 \<noteq> 0 \<Longrightarrow> js_ptr json + (i + 3) < length cs" by (rule ch_ok [OF assms(1)]) blast
        have "0 \<le> hexdigit2int c3 \<longrightarrow> js_ptr json + i + 4 \<le> length cs" using c3(2) hexdigit2int_bounds(2) by fastforce
        then show ?thesis using 0 1 2 c0(1) c1(1) c2(1) c3(1)
          hex4_bounds [of "hexdigit2int c0" "hexdigit2int c1" "hexdigit2int c2" "hexdigit2int c3"] hexdigit2int_bounds(1)
          by (auto simp: decode_hex4_def not_le)
      qed (use 0 1 c0(1) c1(1) c2(1) in \<open>simp add: decode_hex4_def\<close>)
    qed (use 0 c0(1) c1(1) in \<open>simp add: decode_hex4_def\<close>)
  qed (use c0(1) in \<open>simp add: decode_hex4_def\<close>)
qed

lemma unicode_escape_ok:
  assumes "json_ok cs json" and "js_ptr json + 2 \<le> length cs"
  shows "\<exists>r. unicode_escape json = Inr r \<and> (\<forall>cp n. r = Some (cp, n) \<longrightarrow> 6 \<le> n \<and> js_ptr json + n \<le> length cs)"
proof -
  from decode_hex4_ok [OF assms] obtain cp where cp: "decode_hex4 json 2 = Inr cp" "0 \<le> cp \<longrightarrow> js_ptr json + 6 \<le> length cs" by auto
  show ?thesis
  proof (cases "0 \<le> cp \<and> cp AND 0xF800 = 0xD800 \<and> cp AND 0x400 = 0")
    case False
    then show ?thesis using cp by (auto simp: unicode_escape_def)
  next
    case True
    then have "js_ptr json + 6 \<le> length cs" using cp(2) by simp
    then obtain c6 where c6: "ch_at json 6 = Inr c6" "c6 \<noteq> 0 \<Longrightarrow> js_ptr json + 6 < length cs" by (rule ch_ok [OF assms(1)]) blast
    show ?thesis
    proof (cases "c6 = 92")
      case 6: True
      then have "js_ptr json + 7 \<le> length cs" using c6(2) by simp
      then obtain c7 where c7: "ch_at json 7 = Inr c7" "c7 \<noteq> 0 \<Longrightarrow> js_ptr json + 7 < length cs" by (rule ch_ok [OF assms(1)]) blast
      show ?thesis
      proof (cases "c7 = 117")
        case 7: True
        then have "js_ptr json + 8 \<le> length cs" using c7(2) by simp
        from decode_hex4_ok [OF assms(1) this] obtain lo where
          "decode_hex4 json 8 = Inr lo" "0 \<le> lo \<longrightarrow> js_ptr json + 12 \<le> length cs" by auto
        then show ?thesis using True 6 7 cp(1) c6(1) c7(1) by (auto simp: unicode_escape_def not_le)
      qed (use True 6 cp(1) c6(1) c7(1) in \<open>simp add: unicode_escape_def not_le\<close>)
    qed (use True cp(1) c6(1) in \<open>simp add: unicode_escape_def not_le\<close>)
  qed
qed

lemma utf8_length: "length (codepoint_to_utf8 cp) \<le> 4"
  by (simp add: codepoint_to_utf8_def)

subsection \<open>Strings\<close>

text \<open>The bytes decoded are fewer than the characters passed.\<close>

definition string_ok :: "byte list \<Rightarrow> json_parse \<Rightarrow> bool" where
  "string_ok cs json \<longleftrightarrow> json_ok cs json \<and> (\<exists>bs. sb_holds (js_tmp json) bs \<and> length bs < js_ptr json)"

lemma string_put:
  assumes "string_ok cs json" and "js_ptr json + n \<le> length cs" and "length us \<le> n"
  shows "\<exists>tmp. strbuf_append_mem_unsafe us (js_tmp json) = Inr tmp \<and> string_ok cs (advance n (json\<lparr>js_tmp := tmp\<rparr>))"
proof -
  obtain bs where bs: "sb_holds (js_tmp json) bs" "length bs < js_ptr json" and ok: "json_ok cs json"
    using assms(1) by (auto simp: string_ok_def)
  then have "int (length bs + length us) < sb_size (js_tmp json)" using assms(2,3) by (auto simp: json_ok_def)
  from append_mem_unsafe_ok [OF bs(1) this] show ?thesis using bs ok assms(2,3)
    by (fastforce simp: string_ok_def json_ok_def advance_def)
qed

lemma string_loop_ok:
  assumes "string_ok cs json" and "length cs < k + js_ptr json"
  shows "\<exists>json' err. string_loop k json = Inr (json', err) \<and> json_ok cs json' \<and> js_ptr json \<le> js_ptr json'
    \<and> js_depth json' = js_depth json \<and> (err = None \<longrightarrow> js_ptr json' < length cs)"
  using assms
proof (induction k arbitrary: json)
  case 0
  then show ?case by (simp add: string_ok_def json_ok_def)
next
  case (Suc k)
  have ok: "json_ok cs json" using Suc.prems(1) by (simp add: string_ok_def)
  then have "js_ptr json + 0 \<le> length cs" by (simp add: json_ok_def)
  then obtain ch where ch: "ch_at json 0 = Inr ch" "ch \<noteq> 0 \<Longrightarrow> js_ptr json + 0 < length cs" by (rule ch_ok [OF ok]) blast
  have step: "\<exists>json' err. string_loop k (advance n (json\<lparr>js_tmp := tmp\<rparr>)) = Inr (json', err) \<and> json_ok cs json' \<and> js_ptr json \<le> js_ptr json'
      \<and> js_depth json' = js_depth json \<and> (err = None \<longrightarrow> js_ptr json' < length cs)"
    if "string_ok cs (advance n (json\<lparr>js_tmp := tmp\<rparr>))" "0 < n" for n tmp
    using Suc.IH [OF that(1)] Suc.prems(2) that(2) by (fastforce simp: advance_def)
  consider "ch = 34 \<or> ch = 0" | "ch = 92" | "ch \<noteq> 34" "ch \<noteq> 0" "ch \<noteq> 92" by blast
  then show ?case
  proof cases
    case 1
    then show ?thesis using ch ok by auto
  next
    case 2
    then have "js_ptr json + 1 \<le> length cs" using ch(2) by simp
    then obtain c1 where c1: "ch_at json 1 = Inr c1" "c1 \<noteq> 0 \<Longrightarrow> js_ptr json + 1 < length cs" by (rule ch_ok [OF ok]) blast
    let ?e = "escape2char c1"
    have nz: "?e \<noteq> 0 \<Longrightarrow> js_ptr json + 2 \<le> length cs" using c1(2) by (cases "c1 = 0") (auto simp: escape2char_def)
    consider "?e = 0" | "?e = 117" | "?e \<noteq> 0" "?e \<noteq> 117" by blast
    then show ?thesis
    proof cases
      case 1
      then show ?thesis using 2 ch(1) c1(1) ok by simp
    next
      case e: 2
      then have "js_ptr json + 2 \<le> length cs" using nz by simp
      from unicode_escape_ok [OF ok this] obtain r where
        r: "unicode_escape json = Inr r" "\<And>cp n. r = Some (cp, n) \<Longrightarrow> 6 \<le> n \<and> js_ptr json + n \<le> length cs" by blast
      show ?thesis
      proof (cases "\<exists>cp n. r = Some (cp, n) \<and> codepoint_to_utf8 cp \<noteq> []")
        case True
        then obtain cp n where cp: "r = Some (cp, n)" "codepoint_to_utf8 cp \<noteq> []" by blast
        from string_put [OF Suc.prems(1), of n "codepoint_to_utf8 cp"] r(2) [OF cp(1)] utf8_length [of cp] obtain tmp where
          "strbuf_append_mem_unsafe (codepoint_to_utf8 cp) (js_tmp json) = Inr tmp" "string_ok cs (advance n (json\<lparr>js_tmp := tmp\<rparr>))" by auto
        then show ?thesis using step [of n tmp] r(2) [OF cp(1)] 2 e ch(1) c1(1) r(1) cp by (simp add: json_append_unicode_escape_def)
      next
        case False
        then have "json_append_unicode_escape json = Inr None" by (cases r) (auto simp: json_append_unicode_escape_def r(1))
        then show ?thesis using 2 e ch(1) c1(1) ok by simp
      qed
    next
      case e: 3
      from string_put [OF Suc.prems(1), of 2 "[?e]"] nz e(1) obtain tmp where
        "strbuf_append_mem_unsafe [?e] (js_tmp json) = Inr tmp" "string_ok cs (advance 2 (json\<lparr>js_tmp := tmp\<rparr>))" by auto
      then show ?thesis using step [of 2 tmp] 2 e ch(1) c1(1) by (simp add: append_char_unsafe)
    qed
  next
    case 3
    from string_put [OF Suc.prems(1), of 1 "[ch]"] ch(2) 3 obtain tmp where
      "strbuf_append_mem_unsafe [ch] (js_tmp json) = Inr tmp" "string_ok cs (advance 1 (json\<lparr>js_tmp := tmp\<rparr>))" by auto
    then show ?thesis using step [of 1 tmp] 3 ch(1) by (simp add: append_char_unsafe)
  qed
qed

subsection \<open>Tokens\<close>

lemma same_prefix_ok:
  assumes "f 0 \<notin> set s"
  shows "\<exists>b. same_prefix f (xs @ [0]) s = Inr b \<and> (b \<longrightarrow> length s \<le> length xs)"
  using assms
proof (induction xs arbitrary: s)
  case Nil
  then show ?case by (cases s) auto
next
  case (Cons x xs)
  then show ?case by (cases s) auto
qed

lemma white_space_ok: "\<exists>n. white_space (xs @ [0]) = Inr n \<and> n \<le> length xs"
  by (induction xs) (auto simp: ch2token_def)

lemma strtod_buffer_size_ok: "\<exists>n. strtod_buffer_size (xs @ [0]) = Some n \<and> n \<le> length xs"
  by (induction xs) (auto simp: not_valid_0)

lemma c_strlen_ok: "\<exists>n. c_strlen (xs @ [0]) = Some n \<and> n \<le> length xs"
  by (induction xs) auto

lemma fpconv_strtod_ok:
  assumes "strtod_ok lc"
  shows "\<exists>x n. fpconv_strtod lc point (xs @ [0]) = Some (x, n) \<and> n \<le> length xs"
proof (cases "point = dot")
  case True
  from c_strlen_ok [of xs] obtain m where m: "c_strlen (xs @ [0]) = Some m" "m \<le> length xs" by blast
  obtain x n where x: "lc_strtod lc (take m (xs @ [0])) = (x, n)" by (cases "lc_strtod lc (take m (xs @ [0]))")
  have "snd (lc_strtod lc (take m (xs @ [0]))) \<le> length (take m (xs @ [0]))" using assms unfolding strtod_ok_def by blast
  then show ?thesis using True m x by (simp add: fpconv_strtod_def c_string_def)
next
  case False
  have len: "length (replace_first a b ys) = length ys" for a b ys by (induction ys) auto
  from strtod_buffer_size_ok [of xs] obtain m where m: "strtod_buffer_size (xs @ [0]) = Some m" "m \<le> length xs" by blast
  let ?b = "replace_first dot point (take m (xs @ [0]))"
  obtain x n where x: "lc_strtod lc ?b = (x, n)" by (cases "lc_strtod lc ?b")
  have "snd (lc_strtod lc ?b) \<le> length ?b" using assms by (simp add: strtod_ok_def)
  then show ?thesis using False m x len by (simp add: fpconv_strtod_def)
qed

lemma text_at_ok: "json_ok cs json \<Longrightarrow> js_ptr json + i \<le> length cs \<Longrightarrow> text_at json i = drop (js_ptr json + i) cs @ [0]"
  by (simp add: text_at_def json_ok_def)

lemma is_invalid_number_ok:
  assumes "json_ok cs json" and "ch_at json 0 = Inr c" and "c \<noteq> 0"
  shows "\<exists>b. json_is_invalid_number json = Inr b"
proof -
  have p: "js_ptr json + 0 < length cs" using ch_ok [OF assms(1), of 0] assms by (auto simp: json_ok_def)
  define i :: nat where "i = (if c = 45 then 1 else 0)"
  have le: "js_ptr json + i \<le> length cs" using p by (simp add: i_def)
  then obtain d where d: "ch_at json i = Inr d" "d \<noteq> 0 \<Longrightarrow> js_ptr json + i < length cs" by (rule ch_ok [OF assms(1)]) blast
  have pre: "\<exists>b. same_prefix to_lower (text_at json i) s = Inr b" if "to_lower 0 \<notin> set s" for s
    using same_prefix_ok [of to_lower s "drop (js_ptr json + i) cs"] that text_at_ok [OF assms(1) le] by auto
  obtain b1 b2 where b: "same_prefix to_lower (text_at json i) (cstr ''inf'') = Inr b1" "same_prefix to_lower (text_at json i) (cstr ''nan'') = Inr b2"
    using pre [of "cstr ''inf''"] pre [of "cstr ''nan''"] by (auto simp: cstr_def to_lower_def)
  obtain e where e: "d = 48 \<Longrightarrow> ch_at json (i + 1) = Inr e"
  proof (cases "d = 48")
    case True
    then have "js_ptr json + (i + 1) \<le> length cs" using d(2) by simp
    then show ?thesis using ch_ok [OF assms(1)] that by metis
  qed (use that in blast)
  show ?thesis
  proof (cases "json_is_invalid_number json")
    case (Inl err)
    then show ?thesis using assms(2) d(1) b e
      by (auto simp: json_is_invalid_number_def Let_def simp flip: i_def split: if_splits)
  qed simp
qed

text \<open>A token, at the same place or behind it, and behind it unless it is an error or the end.\<close>

definition stuck :: "json_token \<Rightarrow> bool" where
  "stuck token \<longleftrightarrow> tk_type token = T_ERROR \<or> tk_type token = T_END"

definition token_ok :: "byte list \<Rightarrow> json_parse \<Rightarrow> (json_parse \<times> json_token) cres \<Rightarrow> bool" where
  "token_ok cs json r \<longleftrightarrow> (\<exists>json' token. r = Inr (json', token) \<and> json_ok cs json' \<and> js_ptr json \<le> js_ptr json'
     \<and> (\<not> stuck token \<longrightarrow> js_ptr json < js_ptr json') \<and> js_depth json' = js_depth json)"

lemma token_okI:
  "r = Inr (json', token) \<Longrightarrow> json_ok cs json' \<Longrightarrow> js_ptr json \<le> js_ptr json' \<Longrightarrow> (\<not> stuck token \<Longrightarrow> js_ptr json < js_ptr json')
    \<Longrightarrow> js_depth json' = js_depth json \<Longrightarrow> token_ok cs json r"
  by (auto simp: token_ok_def)

lemma token_error: "json_ok cs json \<Longrightarrow> token_ok cs json (Inr (json_set_token_error json e))"
  by (rule token_okI [of _ json]) (auto simp: json_set_token_error_def stuck_def)

lemma token_advance:
  assumes "json_ok cs json" and "0 < n" and "js_ptr json + n \<le> length cs"
  shows "token_ok cs json (Inr (advance n json, token))"
  by (rule token_okI [of _ "advance n json" token]) (use assms in \<open>auto simp: advance_def json_ok_def\<close>)

lemma string_token_ok:
  assumes "json_ok cs json" and "ch_at json 0 = Inr 34"
  shows "token_ok cs json (json_next_string_token json index)"
proof -
  have p: "js_ptr json < length cs" using ch_ok [OF assms(1), of 0] assms by (auto simp: json_ok_def)
  let ?json = "(advance 1 json)\<lparr>js_tmp := strbuf_reset (js_tmp json)\<rparr>"
  obtain bs where bs: "sb_holds (js_tmp json) bs" using assms(1) by (auto simp: json_ok_def)
  have "sb_holds (strbuf_reset (js_tmp json)) []" using bs by (auto simp: sb_holds_def strbuf_reset_def)
  then have "string_ok cs ?json" using assms(1) p by (auto simp: string_ok_def json_ok_def advance_def strbuf_reset_def)
  moreover have "length cs < length (js_data json) + js_ptr ?json" using assms(1) by (simp add: json_ok_def)
  ultimately obtain json' err where l: "string_loop (length (js_data json)) ?json = Inr (json', err)" "json_ok cs json'"
    "js_ptr ?json \<le> js_ptr json'" "js_depth json' = js_depth ?json" "err = None \<longrightarrow> js_ptr json' < length cs"
    using string_loop_ok by blast
  have ptr: "js_ptr json < js_ptr json'" "js_depth json' = js_depth json" using l(3,4) by (simp_all add: advance_def)
  have start: "json_next_string_token json index = (case err of
        Some e \<Rightarrow> Inr (json', \<lparr>tk_type = T_ERROR, tk_index = js_ptr json', tk_value = VError e\<rparr>)
      | None \<Rightarrow> cbind (strbuf_ensure_null (js_tmp json')) (\<lambda>tmp. cbind (strbuf_string tmp) (\<lambda>s.
          Inr ((advance 1 json')\<lparr>js_tmp := tmp\<rparr>, \<lparr>tk_type = T_STRING, tk_index = index, tk_value = VString s\<rparr>))))"
    using l(1) assms(2) by (simp add: json_next_string_token_def advance_def Let_def split: option.split)
  show ?thesis
  proof (cases err)
    case (Some e)
    then show ?thesis using start l(2) ptr by (intro token_okI [of _ json']) auto
  next
    case None
    obtain bs' where b: "sb_holds (js_tmp json') bs'" using l(2) by (auto simp: json_ok_def)
    have "int (length bs' + length [0 :: byte]) \<le> sb_size (js_tmp json')" using b by (auto simp: sb_holds_def neq_Nil_conv)
    then obtain tmp where tmp: "strbuf_ensure_null (js_tmp json') = Inr tmp" "sb_holds tmp bs'" "sb_size tmp = sb_size (js_tmp json')"
      using ensure_null_ok [OF b] by blast
    show ?thesis
      by (rule token_okI [of _ "(advance 1 json')\<lparr>js_tmp := tmp\<rparr>"]) (use start None tmp sb_string [OF tmp(2)] l(2,5) ptr in \<open>auto simp: json_ok_def advance_def\<close>)
  qed
qed

lemma number_token_ok:
  assumes "json_ok cs json" and "strtod_ok lc"
  shows "token_ok cs json (json_next_number_token lc point json index)"
proof -
  have p: "js_ptr json + 0 \<le> length cs" using assms(1) by (simp add: json_ok_def)
  from fpconv_strtod_ok [OF assms(2), of point "drop (js_ptr json + 0) cs"] obtain x n where
    x: "fpconv_strtod lc point (text_at json 0) = Some (x, n)" "n \<le> length cs - js_ptr json"
    using text_at_ok [OF assms(1) p] by auto
  show ?thesis
  proof (cases "n = 0")
    case True
    then show ?thesis using x token_error [OF assms(1)] by (simp add: json_next_number_token_def)
  next
    case False
    then show ?thesis using x token_advance [OF assms(1), of n] p by (simp add: json_next_number_token_def)
  qed
qed

lemma unknown_token_ok:
  assumes "json_ok cs json" and "strtod_ok lc" and "ch_at json 0 = Inr ch" and "ch \<noteq> 0"
  shows "token_ok cs json (unknown_token lc point cfg json ch)"
proof -
  have p: "js_ptr json + 0 \<le> length cs" using assms(1) by (simp add: json_ok_def)
  have pre: "\<exists>b. same_prefix (\<lambda>c. c) (text_at json 0) s = Inr b \<and> (b \<longrightarrow> js_ptr json + length s \<le> length cs)" if "0 \<notin> set s" for s
    using same_prefix_ok [of "\<lambda>c. c" s "drop (js_ptr json + 0) cs"] that text_at_ok [OF assms(1) p] p by auto
  obtain b1 b2 b3 where b: "same_prefix (\<lambda>c. c) (text_at json 0) (cstr ''true'') = Inr b1" "b1 \<Longrightarrow> js_ptr json + 4 \<le> length cs"
      "same_prefix (\<lambda>c. c) (text_at json 0) (cstr ''false'') = Inr b2" "b2 \<Longrightarrow> js_ptr json + 5 \<le> length cs"
      "same_prefix (\<lambda>c. c) (text_at json 0) (cstr ''null'') = Inr b3" "b3 \<Longrightarrow> js_ptr json + 4 \<le> length cs"
    using pre [of "cstr ''true''"] pre [of "cstr ''false''"] pre [of "cstr ''null''"] by (auto simp: cstr_def)
  obtain bad where bad: "json_is_invalid_number json = Inr bad" using is_invalid_number_ok [OF assms(1,3,4)] by blast
  note num = number_token_ok [OF assms(1,2), of point "js_ptr json"] and err = token_error [OF assms(1)]
  show ?thesis
  proof (cases "ch = 34")
    case True
    then show ?thesis using string_token_ok [OF assms(1)] assms(3) by (simp add: unknown_token_def)
  next
    case False
    then show ?thesis using num err token_advance [OF assms(1)] b bad
      by (cases "cf_decode_invalid cfg = 0"; cases bad; cases b1; cases b2; cases b3)
        (auto simp: unknown_token_def Let_def)
  qed
qed

lemma next_token_ok:
  assumes "json_ok cs json" and "strtod_ok lc"
  shows "token_ok cs json (json_next_token lc point cfg json)"
proof -
  have p: "js_ptr json + 0 \<le> length cs" using assms(1) by (simp add: json_ok_def)
  obtain n where n: "white_space (text_at json 0) = Inr n" "js_ptr json + n \<le> length cs"
    using white_space_ok [of "drop (js_ptr json + 0) cs"] text_at_ok [OF assms(1) p] p by auto
  let ?json = "advance n json"
  have ok: "json_ok cs ?json" using assms(1) n(2) by (simp add: json_ok_def advance_def)
  then have "js_ptr ?json + 0 \<le> length cs" by (simp add: json_ok_def)
  then obtain ch where ch: "ch_at ?json 0 = Inr ch" "ch \<noteq> 0 \<Longrightarrow> js_ptr ?json + 0 < length cs" by (rule ch_ok [OF ok]) blast
  have mono: "token_ok cs json r" if "token_ok cs ?json r" for r using that by (fastforce simp: token_ok_def advance_def)
  have nz: "ch2token ch \<noteq> T_END \<Longrightarrow> ch \<noteq> 0" by (auto simp: ch2token_def)
  show ?thesis
  proof (cases "ch2token ch = T_UNKNOWN")
    case True
    then have "token_ok cs ?json (unknown_token lc point cfg ?json ch)" using unknown_token_ok [OF ok assms(2) ch(1)] nz by simp
    then show ?thesis using mono n(1) ch(1) True by (simp add: json_next_token_def)
  next
    case False
    have "token_ok cs ?json (Inr (?json, \<lparr>tk_type = T_END, tk_index = i, tk_value = VNone\<rparr>))" for i
      by (rule token_okI [of _ ?json]) (use ok in \<open>auto simp: stuck_def\<close>)
    then show ?thesis using mono n(1) ch False nz token_error [OF ok] token_advance [OF ok, of 1]
      by (auto simp: json_next_token_def Let_def)
  qed
qed

subsection \<open>Values\<close>

text \<open>A value, with the place not before the one given, or an error and the buffer freed.\<close>

definition value_ok :: "byte list \<Rightarrow> json_parse \<Rightarrow> (json_parse \<times> lua) cres \<Rightarrow> bool" where
  "value_ok cs json r \<longleftrightarrow> (\<exists>json' v. r = Inr (json', v) \<and> json_ok cs json' \<and> js_ptr json \<le> js_ptr json')
     \<or> (\<exists>msg sb. r = Inl (Lua_error msg sb) \<and> sb_buf sb = None)"

lemma value_error: "value_ok cs json (Inl (json_throw_parse_error json' e token))"
  by (simp add: value_ok_def json_throw_parse_error_def strbuf_free_def)

lemma value_mono: "value_ok cs json' r \<Longrightarrow> js_ptr json \<le> js_ptr json' \<Longrightarrow> value_ok cs json r"
  by (fastforce simp: value_ok_def)

lemma value_token:
  assumes "json_ok cs json" and "strtod_ok lc"
    and "\<And>json' token. json_ok cs json' \<Longrightarrow> js_ptr json \<le> js_ptr json' \<Longrightarrow> (\<not> stuck token \<Longrightarrow> js_ptr json < js_ptr json')
      \<Longrightarrow> value_ok cs json (f (json', token))"
  shows "value_ok cs json (cbind (json_next_token lc point cfg json) f)"
proof -
  obtain json' token where t: "json_next_token lc point cfg json = Inr (json', token)" "json_ok cs json'" "js_ptr json \<le> js_ptr json'"
    "\<not> stuck token \<Longrightarrow> js_ptr json < js_ptr json'" using next_token_ok [OF assms(1,2), of point cfg] by (auto simp: token_ok_def)
  show ?thesis using assms(3) [OF t(2,3,4)] t(1) by simp
qed

lemma value_value:
  assumes "value_ok cs json r"
    and "\<And>json' v. json_ok cs json' \<Longrightarrow> js_ptr json \<le> js_ptr json' \<Longrightarrow> value_ok cs json' (f (json', v))"
  shows "value_ok cs json (cbind r f)"
  using assms(1) unfolding value_ok_def [of cs json r]
proof (elim disjE exE conjE)
  fix json' v assume "r = Inr (json', v)" "json_ok cs json'" "js_ptr json \<le> js_ptr json'"
  then show ?thesis using value_mono [OF assms(2)] by simp
next
  fix msg sb assume "r = Inl (Lua_error msg sb)" "sb_buf sb = None"
  then show ?thesis by (simp add: value_ok_def)
qed

lemma value_ascend: "json_ok cs json' \<Longrightarrow> js_ptr json \<le> js_ptr json' \<Longrightarrow> value_ok cs json (Inr (json_decode_ascend json', v))"
  by (simp add: value_ok_def json_ok_def json_decode_ascend_def)

text \<open>What the loops need of the function for values.\<close>

definition process_ok :: "byte list \<Rightarrow> nat \<Rightarrow> (json_parse \<Rightarrow> json_token \<Rightarrow> (json_parse \<times> lua) cres) \<Rightarrow> bool" where
  "process_ok cs p process \<longleftrightarrow>
     (\<forall>json token. json_ok cs json \<longrightarrow> p < js_ptr json \<or> stuck token \<longrightarrow> value_ok cs json (process json token))"

lemma array_elements_ok:
  assumes "process_ok cs p process" and "strtod_ok lc" and "json_ok cs json" and "length cs < k + js_ptr json"
    and "p \<le> js_ptr json" and "\<not> stuck token \<Longrightarrow> p < js_ptr json"
  shows "value_ok cs json (array_elements k process lc point cfg json token i t)"
  using assms(3-)
proof (induction k arbitrary: json token i t)
  case 0
  then show ?case by (simp add: json_ok_def)
next
  case (Suc k)
  have v: "value_ok cs json (process json token)" using assms(1) Suc.prems by (auto simp: process_ok_def)
  have step: "value_ok cs j1 (cbind (json_next_token lc point cfg j1) (\<lambda>(json, token).
      if tk_type token = T_ARR_END then Inr (json_decode_ascend json, LTable t')
      else if tk_type token \<noteq> T_COMMA then Inl (json_throw_parse_error json ''comma or array end'' token)
      else cbind (json_next_token lc point cfg json) (\<lambda>(json, token). array_elements k process lc point cfg json token (i + 1) t')))"
    if j1: "json_ok cs j1" "js_ptr json \<le> js_ptr j1" for j1 t'
  proof (rule value_token [OF j1(1) assms(2)], goal_cases)
    case (1 j2 tok)
    show ?case
    proof (cases "tk_type tok = T_COMMA")
      case True
      then have "js_ptr j1 < js_ptr j2" using 1(3) by (simp add: stuck_def)
      then have "value_ok cs j2 (cbind (json_next_token lc point cfg j2) (\<lambda>(json, token). array_elements k process lc point cfg json token (i + 1) t'))"
        using Suc.prems j1(2) by (intro value_token [OF 1(1) assms(2)], unfold prod.case, intro value_mono [OF Suc.IH]) auto
      then show ?thesis using value_mono True 1(2) by auto
    next
      case False
      then show ?thesis using 1 value_ascend value_error by auto
    qed
  qed
  show ?case unfolding array_elements.simps Let_def
    by (rule value_value [OF v]) (use step in simp)
qed

lemma object_members_ok:
  assumes "process_ok cs p process" and "strtod_ok lc" and "json_ok cs json" and "length cs < k + js_ptr json"
    and "p \<le> js_ptr json" and "\<not> stuck token \<Longrightarrow> p < js_ptr json"
  shows "value_ok cs json (object_members k process lc point cfg json token t)"
  using assms(3-)
proof (induction k arbitrary: json token t)
  case 0
  then show ?case by (simp add: json_ok_def)
next
  case (Suc k)
  show ?case
  proof (cases "tk_type token = T_STRING")
    case False
    then show ?thesis using value_error by simp
  next
    case True
    have p: "p < js_ptr json" using True Suc.prems(4) by (simp add: stuck_def)
    have step: "value_ok cs j1 (cbind (json_next_token lc point cfg j1) (\<lambda>(json, token).
        if tk_type token = T_OBJ_END then Inr (json_decode_ascend json, LTable t')
        else if tk_type token \<noteq> T_COMMA then Inl (json_throw_parse_error json ''comma or object end'' token)
        else cbind (json_next_token lc point cfg json) (\<lambda>(json, token). object_members k process lc point cfg json token t')))"
      if j1: "json_ok cs j1" "js_ptr json \<le> js_ptr j1" for j1 t'
    proof (rule value_token [OF j1(1) assms(2)], goal_cases)
      case (1 j2 tok)
      show ?case
      proof (cases "tk_type tok = T_COMMA")
        case True
        then have "js_ptr j1 < js_ptr j2" using 1(3) by (simp add: stuck_def)
        then have "value_ok cs j2 (cbind (json_next_token lc point cfg j2) (\<lambda>(json, token). object_members k process lc point cfg json token t'))"
          using Suc.prems p j1(2) by (intro value_token [OF 1(1) assms(2)], unfold prod.case, intro value_mono [OF Suc.IH]) auto
        then show ?thesis using value_mono True 1(2) by auto
      next
        case False
        then show ?thesis using 1 value_ascend value_error by auto
      qed
    qed
    have pair: "value_ok cs j1 (cbind (json_next_token lc point cfg j1) (\<lambda>(json, token). cbind (process json token) (\<lambda>(json, v).
        let t = lua_rawset t key v in cbind (json_next_token lc point cfg json) (\<lambda>(json, token).
        if tk_type token = T_OBJ_END then Inr (json_decode_ascend json, LTable t)
        else if tk_type token \<noteq> T_COMMA then Inl (json_throw_parse_error json ''comma or object end'' token)
        else cbind (json_next_token lc point cfg json) (\<lambda>(json, token). object_members k process lc point cfg json token t)))))"
      if j1: "json_ok cs j1" "js_ptr json \<le> js_ptr j1" for j1 key
    proof (rule value_token [OF j1(1) assms(2)], goal_cases)
      case (1 j2 tok)
      have "value_ok cs j2 (process j2 tok)" using assms(1) 1(1,2) j1(2) p by (auto simp: process_ok_def)
      then have "value_ok cs j2 (cbind (process j2 tok) (\<lambda>(json, v).
        let t = lua_rawset t key v in cbind (json_next_token lc point cfg json) (\<lambda>(json, token).
        if tk_type token = T_OBJ_END then Inr (json_decode_ascend json, LTable t)
        else if tk_type token \<noteq> T_COMMA then Inl (json_throw_parse_error json ''comma or object end'' token)
        else cbind (json_next_token lc point cfg json) (\<lambda>(json, token). object_members k process lc point cfg json token t))))"
        by (rule value_value) (use step 1(2) j1(2) in \<open>auto simp: Let_def\<close>)
      then show ?case using value_mono 1(2) by auto
    qed
    show ?thesis
      unfolding object_members.simps Let_def if_not_P [OF iffD2 [OF not_not True]]
    proof (rule value_token [OF Suc.prems(1) assms(2)], unfold prod.case, goal_cases)
      case (1 j1 tok)
      then show ?case using value_mono [OF pair [OF 1(1,2)] 1(2)] value_error by (cases "tk_type tok = T_COLON") (simp_all add: Let_def)
    qed
  qed
qed

lemma descend_ok:
  "json_ok cs json \<Longrightarrow> (\<And>json'. json_ok cs json' \<Longrightarrow> js_ptr json' = js_ptr json \<Longrightarrow> value_ok cs json' (f json'))
    \<Longrightarrow> value_ok cs json (cbind (json_decode_descend cfg json) f)"
  by (fastforce simp: json_decode_descend_def Let_def json_ok_def value_ok_def strbuf_free_def)

lemma process_value_ok:
  assumes "strtod_ok lc" and "json_ok cs json" and "length cs + 2 \<le> k + js_ptr json \<or> stuck token \<and> 0 < k"
  shows "value_ok cs json (json_process_value k lc point cfg json token)"
  using assms(2,3)
proof (induction k arbitrary: json token)
  case 0
  then show ?case by (simp add: json_ok_def)
next
  case (Suc k)
  show ?case
  proof (cases "tk_type token = T_OBJ_BEGIN \<or> tk_type token = T_ARR_BEGIN")
    case True
    then have k: "length cs + 1 \<le> k + js_ptr json" "0 < k" using Suc.prems by (auto simp: stuck_def json_ok_def)
    have process: "process_ok cs (js_ptr json) (json_process_value k lc point cfg)"
      using Suc.IH k by (auto simp: process_ok_def)
    have obj: "value_ok cs json (json_parse_object_context (json_process_value k lc point cfg) lc point cfg json)"
      unfolding json_parse_object_context_def
    proof (rule descend_ok [OF Suc.prems(1)], rule value_token [OF _ assms(1)], assumption, unfold prod.case, goal_cases)
      case (1 j1 j2 tok)
      have "value_ok cs j2 (object_members (length (js_data j2)) (json_process_value k lc point cfg) lc point cfg j2 tok [])"
        by (rule object_members_ok [OF process assms(1) 1(3)]) (use 1 in \<open>auto simp: json_ok_def\<close>)
      then show ?case using 1 value_ascend [OF 1(3)] value_mono by (cases "tk_type tok = T_OBJ_END"; cases "tk_type tok = T_ARR_END") auto
    qed
    have arr: "value_ok cs json (json_parse_array_context (json_process_value k lc point cfg) lc point cfg json)"
      unfolding json_parse_array_context_def
    proof (rule descend_ok [OF Suc.prems(1)], rule value_token [OF _ assms(1)], assumption, unfold prod.case, goal_cases)
      case (1 j1 j2 tok)
      have "value_ok cs j2 (array_elements (length (js_data j2)) (json_process_value k lc point cfg) lc point cfg j2 tok 1 [])"
        by (rule array_elements_ok [OF process assms(1) 1(3)]) (use 1 in \<open>auto simp: json_ok_def\<close>)
      then show ?case using 1 value_ascend [OF 1(3)] value_mono by (cases "tk_type tok = T_OBJ_END"; cases "tk_type tok = T_ARR_END") auto
    qed
    show ?thesis using True obj arr by auto
  next
    case False
    have "value_ok cs json (Inr (json, v))" for v using Suc.prems(1) by (simp add: value_ok_def)
    then show ?thesis using False value_error by simp
  qed
qed

lemma decode_ok:
  assumes "strtod_ok lc" and "length s < 2 ^ 30"
  shows "case json_decode lc point cfg [LStr s] of Inr v \<Rightarrow> True
    | Inl (Lua_error msg sb) \<Rightarrow> sb_buf sb = None \<or> sb = cf_buf cfg | Inl _ \<Rightarrow> False"
proof (cases "length s \<ge> 2 \<and> (s ! 0 = 0 \<or> s ! 1 = 0)")
  case True
  then show ?thesis by (simp add: json_decode_def)
next
  case False
  obtain tmp where tmp: "strbuf_new (size_as_int (length s)) = Inr tmp" "sb_holds tmp []" "int (length s) < sb_size tmp"
    using strbuf_init_ok [of "int (length s)"] assms(2) by (auto simp: strbuf_new_def size_as_int_ok sb_holds_def)
  let ?json = "\<lparr>js_data = s @ [0], js_ptr = 0, js_tmp = tmp, js_depth = 0\<rparr>"
  have ok: "json_ok s ?json" using tmp by (auto simp: json_ok_def)
  from next_token_ok [OF ok assms(1), of point cfg] obtain j1 tok1 where
    1: "json_next_token lc point cfg ?json = Inr (j1, tok1)" "json_ok s j1" by (auto simp: token_ok_def)
  have guard: "(length s \<ge> 2 \<and> (s ! 0 = 0 \<or> s ! 1 = 0)) = False" using False by blast
  have start: "json_decode lc point cfg [LStr s] = cbind (json_process_value (length s + 2) lc point cfg j1 tok1) (\<lambda>(json, v).
      cbind (json_next_token lc point cfg json) (\<lambda>(json, token).
      if tk_type token \<noteq> T_END then Inl (json_throw_parse_error json ''the end'' token) else Inr v))"
    by (simp only: json_decode_def list.case lua.case guard if_False tmp(1) cbind_simps Let_def 1(1) prod.case)
  have "value_ok s j1 (json_process_value (length s + 2) lc point cfg j1 tok1)" by (rule process_value_ok [OF assms(1) 1(2)]) simp
  then consider (val) j2 v where "json_process_value (length s + 2) lc point cfg j1 tok1 = Inr (j2, v)" "json_ok s j2"
    | (err) msg sb where "json_process_value (length s + 2) lc point cfg j1 tok1 = Inl (Lua_error msg sb)" "sb_buf sb = None"
    by (auto simp: value_ok_def)
  then show ?thesis
  proof cases
    case val
    from next_token_ok [OF val(2) assms(1), of point cfg] obtain j3 tok3 where "json_next_token lc point cfg j2 = Inr (j3, tok3)"
      by (auto simp: token_ok_def)
    then show ?thesis using start val(1) by (simp add: json_throw_parse_error_def strbuf_free_def)
  qed (simp add: start)
qed

text \<open>
  C7: Whatever bytes \<open>cjson.decode\<close> is given, it reads nothing behind them and writes nothing behind its buffer, always ends,
  and returns a value or throws an error after freeing the buffer; \<open>decode\<close> of \<open>cjson.safe\<close> always returns.\<close>

lemma json_decode_safe:
  assumes "strtod_ok lc" and "length s < 2 ^ 30"
  shows "(case json_decode lc point cfg [LStr s] of Inr v \<Rightarrow> True
      | Inl (Lua_error msg sb) \<Rightarrow> sb_buf sb = None \<or> sb = cf_buf cfg | Inl _ \<Rightarrow> False)
    \<and> (\<exists>vs. json_protect_conversion cfg (json_decode lc point cfg) [LStr s] = Inr vs)"
  using decode_ok [OF assms, where point = point and cfg = cfg]
  by (cases "json_decode lc point cfg [LStr s]") (auto simp: json_protect_conversion_def split: failure.splits)

text \<open>A library that reads no number.\<close>

lemma json_decode_safe_witness:
  "\<forall>cfg. \<exists>vs. json_protect_conversion cfg (json_decode \<lparr>lc_snprintf = \<lambda>fmt x. [], lc_strtod = \<lambda>s. (0, 0)\<rparr> dot cfg) [LStr (cstr ''[1'')] = Inr vs"
proof
  fix cfg
  show "\<exists>vs. json_protect_conversion cfg (json_decode \<lparr>lc_snprintf = \<lambda>fmt x. [], lc_strtod = \<lambda>s. (0, 0)\<rparr> dot cfg) [LStr (cstr ''[1'')] = Inr vs"
    using json_decode_safe [of "\<lparr>lc_snprintf = \<lambda>fmt x. [], lc_strtod = \<lambda>s. (0, 0)\<rparr>" "cstr ''[1''", where point = dot and cfg = cfg]
    by (simp add: strtod_ok_def cstr_def)
qed

end
