(* ===== verification/JsonText.thy ===== *)
theory JsonText
  imports JsonEncode
begin

section \<open>JSON: the text of a document\<close>

text \<open>
  The reference for the encoder and the decoder: a document, its text, and the Lua value that stands for it. The
  encoder appends the text of the document to the buffer.
\<close>

datatype json = JNull | JBool bool | JNum u64 | JStr "byte list" | JArr "json list" | JObj "(byte list \<times> json) list"

definition esc :: "byte \<Rightarrow> byte list" where
  "esc c = (case char2escape c of None \<Rightarrow> [c] | Some e \<Rightarrow> e)"

definition string_text :: "byte list \<Rightarrow> byte list" where
  "string_text s = [34] @ concat (map esc s) @ [34]"

text \<open>Pieces with commas between them.\<close>

fun commas :: "byte list list \<Rightarrow> byte list" where
  "commas [] = []"
| "commas [x] = x"
| "commas (x # xs) = x @ [44] @ commas xs"

fun text_of :: "(u64 \<Rightarrow> byte list) \<Rightarrow> json \<Rightarrow> byte list" where
  "text_of num JNull = cstr ''null''"
| "text_of num (JBool b) = (if b then cstr ''true'' else cstr ''false'')"
| "text_of num (JNum x) = num x"
| "text_of num (JStr s) = string_text s"
| "text_of num (JArr xs) = [91] @ commas (map (text_of num) xs) @ [93]"
| "text_of num (JObj kvs) = [123] @ commas (map (\<lambda>(k, v). string_text k @ [58] @ text_of num v) kvs) @ [125]"

fun lua_of :: "json \<Rightarrow> lua" where
  "lua_of JNull = LLight True"
| "lua_of (JBool b) = LBool b"
| "lua_of (JNum x) = LNum x"
| "lua_of (JStr s) = LStr s"
| "lua_of (JArr xs) = LTable (zip (map (\<lambda>i. LNum (dbl_of_nat i)) [1..<Suc (length xs)]) (map lua_of xs))"
| "lua_of (JObj kvs) = LTable (map (\<lambda>(k, v). (LStr k, lua_of v)) kvs)"

fun json_depth :: "json \<Rightarrow> nat" where
  "json_depth (JArr xs) = Suc (fold max (map json_depth xs) 0)"
| "json_depth (JObj kvs) = Suc (fold max (map (\<lambda>(k, v). json_depth v) kvs) 0)"
| "json_depth _ = 0"

text \<open>An empty array is an empty table, which is written as an object; the keys of an object are different.\<close>

fun json_proper :: "(u64 \<Rightarrow> bool) \<Rightarrow> json \<Rightarrow> bool" where
  "json_proper num (JNum x) = num x"
| "json_proper num (JArr xs) = (xs \<noteq> [] \<and> (\<forall>x \<in> set xs. json_proper num x))"
| "json_proper num (JObj kvs) = (distinct (map fst kvs) \<and> (\<forall>(k, v) \<in> set kvs. json_proper num v))"
| "json_proper num _ = True"

text \<open>The room that the encoder asks for at most.\<close>

fun json_room :: "json \<Rightarrow> nat" where
  "json_room JNull = 4"
| "json_room (JBool b) = 5"
| "json_room (JNum x) = 32"
| "json_room (JStr s) = 6 * length s + 2"
| "json_room (JArr xs) = sum_list (map json_room xs) + length xs + 2"
| "json_room (JObj kvs) = sum_list (map (\<lambda>(k, v). 6 * length k + 3 + json_room v) kvs) + length kvs + 2"

subsection \<open>Strings\<close>

lemma esc_length: "length (esc c) \<le> 6" "0 < length (esc c)"
  by (auto simp: esc_def char2escape_def cstr_def)

lemma string_text_length: "length (string_text s) \<le> 6 * length s + 2"
proof -
  have "length (concat (map esc s)) \<le> 6 * length s" using esc_length(1) by (induction s) (auto simp: add_mono)
  then show ?thesis by (simp add: string_text_def)
qed

lemma append_escaped_ok:
  assumes "sb_holds json bs" and "int (length bs + 6 * length s) < sb_size json" and "length bs + 6 * length s < 2 ^ 30"
  shows "\<exists>json'. append_escaped s json = Inr json' \<and> sb_holds json' (bs @ concat (map esc s))
    \<and> sb_size json \<le> sb_size json' \<and> sb_dynamic json' = sb_dynamic json"
  using assms
proof (induction s arbitrary: json bs)
  case (Cons c s)
  have "\<exists>json'. (case char2escape c of Some escstr \<Rightarrow> strbuf_append_string escstr json | None \<Rightarrow> strbuf_append_char_unsafe c json) = Inr json'
      \<and> sb_holds json' (bs @ esc c) \<and> sb_size json \<le> sb_size json' \<and> sb_dynamic json' = sb_dynamic json"
  proof (cases "char2escape c")
    case None
    with append_mem_unsafe_ok [OF Cons.prems(1), of "[c]"] Cons.prems(2) show ?thesis
      by (auto simp: append_char_unsafe esc_def)
  next
    case (Some e)
    then have "length e \<le> 6" using esc_length(1) [of c] by (simp add: esc_def)
    with append_string_loop_ok [OF Cons.prems(1) _ refl, of e] Cons.prems(3) Some show ?thesis
      by (auto simp: strbuf_append_string_def esc_def)
  qed
  then obtain j1 where j1: "(case char2escape c of Some escstr \<Rightarrow> strbuf_append_string escstr json | None \<Rightarrow> strbuf_append_char_unsafe c json) = Inr j1"
    "sb_holds j1 (bs @ esc c)" "sb_size json \<le> sb_size j1" "sb_dynamic j1 = sb_dynamic json" by blast
  have "int (length (bs @ esc c) + 6 * length s) < sb_size j1" "length (bs @ esc c) + 6 * length s < 2 ^ 30"
    using Cons.prems(2,3) esc_length(1) [of c] j1(3) by simp_all
  from Cons.IH [OF j1(2) this] obtain j2 where
    "append_escaped s j1 = Inr j2" "sb_holds j2 ((bs @ esc c) @ concat (map esc s))" "sb_size j1 \<le> sb_size j2" "sb_dynamic j2 = sb_dynamic j1" by blast
  then show ?case using j1 by (simp add: j1(1))
qed auto

text \<open>The buffer after an operation, which comes with an appended text.\<close>

definition appends :: "strbuf \<Rightarrow> strbuf cres \<Rightarrow> byte list \<Rightarrow> bool" where
  "appends json r bs \<longleftrightarrow> (\<exists>json'. r = Inr json' \<and> sb_holds json' bs \<and> sb_dynamic json' = sb_dynamic json)"

lemma appendsI: "r = Inr json' \<Longrightarrow> sb_holds json' bs \<Longrightarrow> sb_dynamic json' = sb_dynamic json \<Longrightarrow> appends json r bs"
  by (auto simp: appends_def)

lemma appends_bind:
  assumes "appends json r bs" and "\<And>json'. sb_holds json' bs \<Longrightarrow> appends json' (f json') bs'"
  shows "appends json (cbind r f) bs'"
  using assms by (fastforce simp: appends_def)

lemma appends_mem: "sb_holds json bs \<Longrightarrow> length bs + length cs < 2 ^ 30 \<Longrightarrow> appends json (strbuf_append_mem cs json) (bs @ cs)"
  using append_mem_ok [of json bs cs] by (auto simp: appends_def)

lemma appends_char: "sb_holds json bs \<Longrightarrow> length bs + 1 < 2 ^ 30 \<Longrightarrow> appends json (strbuf_append_char c json) (bs @ [c])"
  using appends_mem [of json bs "[c]"] by (simp add: append_char)

lemma appends_string:
  assumes "sb_holds json bs" and "length bs + 6 * length s + 2 < 2 ^ 30"
  shows "appends json (json_append_string s json) (bs @ string_text s)"
proof -
  have "size_as_int (length s * 6 + 2) = int (6 * length s + 2)" using assms(2) by (subst size_as_int_ok) auto
  with ensure_ok [OF assms(1), of "int (6 * length s + 2)"] assms(2) obtain j0 where
    j0: "strbuf_ensure_empty_length (size_as_int (length s * 6 + 2)) json = Inr j0" "sb_holds j0 bs"
      "int (length bs) + int (6 * length s + 2) < sb_size j0" "sb_dynamic j0 = sb_dynamic json" by auto
  from append_mem_unsafe_ok [OF j0(2), of "[34]"] j0(3) obtain j1 where
    j1: "strbuf_append_char_unsafe 34 j0 = Inr j1" "sb_holds j1 (bs @ [34])" "sb_size j1 = sb_size j0" "sb_dynamic j1 = sb_dynamic j0"
    by (auto simp: append_char_unsafe)
  from append_escaped_ok [OF j1(2), of s] j0(3) j1(3) assms(2) obtain j2 where
    j2: "append_escaped s j1 = Inr j2" "sb_holds j2 ((bs @ [34]) @ concat (map esc s))" "sb_size j1 \<le> sb_size j2" "sb_dynamic j2 = sb_dynamic j1" by auto
  have "length (concat (map esc s)) \<le> 6 * length s" using esc_length(1) by (induction s) (auto simp: add_mono)
  then have "int (length ((bs @ [34]) @ concat (map esc s)) + length [34 :: byte]) < sb_size j2" using j0(3) j1(3) j2(3) by simp
  from append_mem_unsafe_ok [OF j2(2) this] obtain j3 where
    "strbuf_append_char_unsafe 34 j2 = Inr j3" "sb_holds j3 (((bs @ [34]) @ concat (map esc s)) @ [34])" "sb_dynamic j3 = sb_dynamic j2"
    by (auto simp: append_char_unsafe)
  then show ?thesis using j0 j1 j2 by (intro appendsI [of _ j3]) (simp_all add: json_append_string_def string_text_def)
qed

subsection \<open>Numbers\<close>

definition num_text :: "libc \<Rightarrow> byte \<Rightarrow> json_config \<Rightarrow> u64 \<Rightarrow> byte list" where
  "num_text lc point cfg x = (case set_number_format (cf_precision cfg) of None \<Rightarrow> [] | Some fmt \<Rightarrow> dotted point (lc_snprintf lc fmt x))"

text \<open>The library prints \<open>x\<close> as a number; it is neither infinite nor no number.\<close>

definition prints :: "libc \<Rightarrow> byte \<Rightarrow> json_config \<Rightarrow> u64 \<Rightarrow> bool" where
  "prints lc point cfg x \<longleftrightarrow> \<not> dbl_isinf x \<and> \<not> dbl_isnan x
     \<and> (case set_number_format (cf_precision cfg) of None \<Rightarrow> False | Some fmt \<Rightarrow> number_text point (lc_snprintf lc fmt x))"

lemma num_text_length: "prints lc point cfg x \<Longrightarrow> length (num_text lc point cfg x) < 32"
  by (auto simp: prints_def num_text_def number_text_def dotted_def FPCONV_G_FMT_BUFSIZE_def split: option.splits)

lemma appends_number:
  assumes "sb_holds json bs" and "length bs + 32 < 2 ^ 30" and "prints lc point cfg x"
  shows "appends json (json_append_number lc point cfg x json) (bs @ num_text lc point cfg x)"
proof -
  obtain fmt where fmt: "set_number_format (cf_precision cfg) = Some fmt" and t: "number_text point (lc_snprintf lc fmt x)"
    and fin: "\<not> dbl_isinf x" "\<not> dbl_isnan x" using assms(3) by (auto simp: prints_def split: option.splits)
  let ?t = "num_text lc point cfg x"
  have g: "fpconv_g_fmt lc point x (cf_precision cfg) = Some (?t @ [0], length ?t)"
    using g_fmt_text [OF fmt t] by (simp add: num_text_def fmt dotted_def)
  have len: "length ?t < 32" by (rule num_text_length [OF assms(3)])
  from ensure_ok [OF assms(1), of 32] assms(2) obtain j0 where
    j0: "strbuf_ensure_empty_length 32 json = Inr j0" "sb_holds j0 bs" "int (length bs) + 32 < sb_size j0" "sb_dynamic j0 = sb_dynamic json" by auto
  from put_end [OF j0(2), of "?t @ [0]"] j0(3) len obtain j1 rest where
    j1: "put_bytes (sb_length j0) (?t @ [0]) j0 = Inr j1" "sb_length j1 = sb_length j0" "sb_size j1 = sb_size j0" "sb_increment j1 = - 2"
      "sb_dynamic j1 = sb_dynamic j0" "sb_buf j1 = Some (map Some (bs @ ?t @ [0]) @ rest)" "sb_size j0 = int (length bs + length (?t @ [0]) + length rest)" by auto
  have l: "sb_length j0 = int (length bs)" "sb_size j0 < 2 ^ 31" using j0(2) by (simp_all add: sb_holds_def)
  have "int_value (sb_length j1 + int (length ?t)) = Inr (int (length (bs @ ?t)))" using j1(2) l(1) assms(2) len by (subst int_value_ok) auto
  moreover have "size_as_int (length ?t) = int (length ?t)" using len by (subst size_as_int_ok) auto
  ultimately have "json_append_number lc point cfg x json = Inr (j1\<lparr>sb_length := int (length (bs @ ?t))\<rparr>)"
    using fin j0(1) g j1(1) by (simp add: json_append_number_def FPCONV_G_FMT_BUFSIZE_def strbuf_extend_length_def)
  moreover have "sb_holds (j1\<lparr>sb_length := int (length (bs @ ?t))\<rparr>) (bs @ ?t)"
    using j1 l by (auto simp: sb_holds_def intro!: exI [of _ "Some 0 # rest"])
  ultimately show ?thesis using j0(4) j1(5) unfolding appends_def by simp
qed

subsection \<open>Tables\<close>

definition array_entries :: "nat \<Rightarrow> lua list \<Rightarrow> (lua \<times> lua) list" where
  "array_entries m vs = zip (map (\<lambda>i. LNum (dbl_of_nat i)) [Suc m..<Suc (m + length vs)]) vs"

lemma array_entries_simps [simp]: "array_entries m [] = []"
  "array_entries m (v # vs) = (LNum (dbl_of_nat (Suc m)), v) # array_entries (Suc m) vs"
  using upt_conv_Cons [of "Suc m" "Suc (m + length (v # vs))"] by (simp_all add: array_entries_def del: upt_Suc)

lemma lua_of_array: "lua_of (JArr xs) = LTable (array_entries 0 (map lua_of xs))"
  by (simp add: array_entries_def del: upt_Suc)

lemma scan_array: "m + length vs < 2 ^ 31
    \<Longrightarrow> scan_keys (array_entries m vs) (int m) (int m) = Inr (Some (int (m + length vs), int (m + length vs)))"
proof (induction vs arbitrary: m)
  case (Cons v vs)
  have "dbl_pos_int (dbl_of_nat (Suc m)) = Some (Suc m)" by (rule dbl_pos_int_of_nat) (use Cons.prems in simp_all)
  moreover have "int_value (int (Suc m)) = Inr (int (Suc m))" using Cons.prems by (intro int_value_ok) simp_all
  ultimately show ?case using Cons.IH [of "Suc m"] Cons.prems by (simp add: add.commute)
qed simp

lemma find_array: "m < i \<Longrightarrow> i \<le> m + length vs \<Longrightarrow> m + length vs < 2 ^ 53
    \<Longrightarrow> List.find (\<lambda>(key, v). case key of LNum k \<Rightarrow> dbl_pos_int k = Some i | _ \<Rightarrow> False) (array_entries m vs)
      = Some (LNum (dbl_of_nat i), vs ! (i - Suc m))"
proof (induction vs arbitrary: m)
  case (Cons v vs)
  have "dbl_pos_int (dbl_of_nat (Suc m)) = Some (Suc m)" by (rule dbl_pos_int_of_nat) (use Cons.prems in simp_all)
  moreover have "i - Suc m = Suc (i - Suc (Suc m))" if "i \<noteq> Suc m" using that Cons.prems(1) by arith
  ultimately show ?case using Cons.IH [of "Suc m"] Cons.prems by (auto simp: eq_commute [of "Suc m" i])
qed simp

lemma array_items_array:
  assumes "length vs < 2 ^ 31"
  shows "array_items (array_entries 0 vs) (int (length vs)) = vs"
proof (rule nth_equalityI)
  show "length (array_items (array_entries 0 vs) (int (length vs))) = length vs" by (simp add: array_items_def del: upt_Suc)
  fix i assume "i < length (array_items (array_entries 0 vs) (int (length vs)))"
  then have i: "i < length vs" by (simp add: array_items_def del: upt_Suc)
  then have "lua_rawgeti (array_entries 0 vs) (Suc i) = vs ! i"
    using find_array [of 0 "Suc i" vs] assms by (simp add: lua_rawgeti_def)
  moreover have "[1..<Suc (length vs)] ! i = Suc i" using i by (subst nth_upt) auto
  ultimately show "array_items (array_entries 0 vs) (int (length vs)) ! i = vs ! i"
    using i by (simp add: array_items_def del: upt_Suc)
qed

text \<open>The settings under which arrays of any length are written.\<close>

definition plain_cfg :: "json_config \<Rightarrow> bool" where
  "plain_cfg cfg \<longleftrightarrow> 0 \<le> cf_sparse_ratio cfg \<and> cf_sparse_ratio cfg \<le> 2 \<and> cf_empty_as_object cfg \<noteq> 0"

lemma array_length_array:
  assumes "plain_cfg cfg" and "length vs < 2 ^ 30"
  shows "lua_array_length cfg (array_entries 0 vs) json = Inr (int (length vs))"
proof -
  have scan: "scan_keys (array_entries 0 vs) 0 0 = Inr (Some (int (length vs), int (length vs)))"
    using scan_array [of 0 vs] assms(2) by simp
  show ?thesis
  proof (cases "0 < cf_sparse_ratio cfg")
    case True
    then consider "cf_sparse_ratio cfg = 1" | "cf_sparse_ratio cfg = 2" using assms(1) unfolding plain_cfg_def by linarith
    then show ?thesis using assms(2) by cases (simp_all add: lua_array_length_def scan int_value_ok)
  next
    case False
    then show ?thesis by (simp add: lua_array_length_def scan)
  qed
qed

lemma array_length_object:
  assumes "plain_cfg cfg"
  shows "lua_array_length cfg (map (\<lambda>(k, v). (LStr k, f v)) kvs) json = Inr (if kvs = [] then 0 else - 1)"
proof (cases kvs)
  case Nil
  then show ?thesis by (simp add: lua_array_length_def int_value_ok)
next
  case (Cons e kvs')
  then show ?thesis by (cases e) (simp add: lua_array_length_def)
qed

text \<open>A comma, if need be, and the pieces with commas.\<close>

definition more_commas :: "bool \<Rightarrow> byte list list \<Rightarrow> byte list" where
  "more_commas comma xs = (if comma \<and> xs \<noteq> [] then [44] else []) @ commas xs"

lemma more_commas_Cons: "more_commas comma (x # xs) = (if comma then [44] else []) @ x @ more_commas True xs"
  by (cases xs) (simp_all add: more_commas_def)

lemma appends_comma:
  "sb_holds json bs \<Longrightarrow> length bs + 1 < 2 ^ 30
    \<Longrightarrow> appends json (if comma then strbuf_append_char 44 json else Inr json) (bs @ (if comma then [44] else []))"
  using appends_char [of json bs 44] by (auto intro: appendsI)

lemma array_loop_appends:
  assumes "\<And>x json bs. x \<in> set xs \<Longrightarrow> sb_holds json bs \<Longrightarrow> length bs + json_room x < 2 ^ 30
      \<Longrightarrow> appends json (f (lua_of x) json) (bs @ text x)"
    and "\<And>x. x \<in> set xs \<Longrightarrow> length (text x) \<le> json_room x"
    and "sb_holds json bs" and "length bs + sum_list (map json_room xs) + length xs < 2 ^ 30"
  shows "appends json (array_loop f comma (map lua_of xs) json) (bs @ more_commas comma (map text xs))"
  using assms
proof (induction xs arbitrary: json bs comma)
  case Nil
  then show ?case by (auto simp: more_commas_def intro: appendsI)
next
  case (Cons x xs)
  define c where "c = (if comma then [44 :: byte] else [])"
  have len: "length c \<le> 1" "length (text x) \<le> json_room x" using Cons.prems(2) by (auto simp: c_def)
  have "appends json (array_loop f comma (map lua_of (x # xs)) json) (((bs @ c) @ text x) @ more_commas True (map text xs))"
    unfolding list.map array_loop.simps
  proof (rule appends_bind, rule appends_comma [OF Cons.prems(3), of comma, folded c_def], goal_cases)
    case 1
    then show ?case using Cons.prems(4) by simp
  next
    case (2 j1)
    show ?case
    proof (rule appends_bind, rule Cons.prems(1) [OF _ 2], goal_cases)
      case 2
      then show ?case using Cons.prems(4) len(1) by simp
    next
      case (3 j2)
      have "length ((bs @ c) @ text x) + sum_list (map json_room xs) + length xs < 2 ^ 30" using Cons.prems(4) len by simp
      then show ?case using Cons.IH [OF _ _ 3] Cons.prems(1,2) by auto
    qed simp
  qed
  then show ?case by (simp add: more_commas_Cons c_def)
qed

lemma object_loop_appends:
  assumes "\<And>k v json bs. (k, v) \<in> set kvs \<Longrightarrow> sb_holds json bs \<Longrightarrow> length bs + json_room v < 2 ^ 30
      \<Longrightarrow> appends json (f (lua_of v) json) (bs @ text v)"
    and "\<And>k v. (k, v) \<in> set kvs \<Longrightarrow> length (text v) \<le> json_room v"
    and "sb_holds json bs" and "length bs + sum_list (map (\<lambda>(k, v). 6 * length k + 3 + json_room v) kvs) + length kvs < 2 ^ 30"
  shows "appends json (object_loop lc point cfg f comma (map (\<lambda>(k, v). (LStr k, lua_of v)) kvs) json)
    (bs @ more_commas comma (map (\<lambda>(k, v). string_text k @ [58] @ text v) kvs))"
  using assms
proof (induction kvs arbitrary: json bs comma)
  case Nil
  then show ?case by (auto simp: more_commas_def intro: appendsI)
next
  case (Cons e kvs)
  obtain k v where e: "e = (k, v)" by (cases e)
  define c where "c = (if comma then [44 :: byte] else [])"
  have len: "length c \<le> 1" "length (text v) \<le> json_room v" "length (string_text k) \<le> 6 * length k + 2"
    using Cons.prems(2) string_text_length by (auto simp: c_def e)
  note room = Cons.prems(4) [unfolded e, simplified]
  have p1: "appends json' (f (lua_of v') json') (bs' @ text v')"
    if "(k', v') \<in> set kvs" "sb_holds json' bs'" "length bs' + json_room v' < 2 ^ 30" for k' v' json' bs'
    by (rule Cons.prems(1) [of k']) (use that in simp_all)
  have p2: "length (text v') \<le> json_room v'" if "(k', v') \<in> set kvs" for k' v' by (rule Cons.prems(2) [of k']) (use that in simp)
  have "appends json (object_loop lc point cfg f comma (map (\<lambda>(k, v). (LStr k, lua_of v)) (e # kvs)) json)
      (((bs @ c) @ string_text k @ [58]) @ text v @ more_commas True (map (\<lambda>(k, v). string_text k @ [58] @ text v) kvs))"
    unfolding list.map e prod.case object_loop.simps lua.case
  proof (rule appends_bind, rule appends_comma [OF Cons.prems(3), of comma, folded c_def], goal_cases)
    case 1
    then show ?case using room by simp
  next
    case (2 j1)
    show ?case
    proof (rule appends_bind [where bs = "(bs @ c) @ string_text k @ [58]"], rule appends_bind, rule appends_string [OF 2], goal_cases)
      case 1
      then show ?case using room len by simp
    next
      case (2 j2)
      then show ?case using appends_char [OF 2, of 58] room len by simp
    next
      case (3 j3)
      show ?case
      proof (rule appends_bind, rule Cons.prems(1) [OF _ 3, of k], goal_cases)
        case 2
        then show ?case using room len by simp
      next
        case (3 j4)
        have "length (((bs @ c) @ string_text k @ [58]) @ text v) + sum_list (map (\<lambda>(k, v). 6 * length k + 3 + json_room v) kvs)
            + length kvs < 2 ^ 30" using room len by simp
        then have "appends j4 (object_loop lc point cfg f True (map (\<lambda>(k, v). (LStr k, lua_of v)) kvs) j4)
            ((((bs @ c) @ string_text k @ [58]) @ text v) @ more_commas True (map (\<lambda>(k, v). string_text k @ [58] @ text v) kvs))"
          by (intro Cons.IH 3 p1 p2)
        then show ?case by simp
      qed (simp add: e)
    qed
  qed
  then show ?case by (simp add: more_commas_Cons c_def e)
qed

subsection \<open>Documents\<close>

lemma commas_length: "length (commas xs) \<le> sum_list (map length xs) + length xs"
  by (induction xs rule: commas.induct) auto

lemma text_of_length:
  assumes "\<And>x. num_ok x \<Longrightarrow> length (num x) \<le> 32" and "json_proper num_ok j"
  shows "length (text_of num j) \<le> json_room j"
  using assms(2)
proof (induction j)
  case (JArr xs)
  have "sum_list (map (\<lambda>x. length (text_of num x)) xs) \<le> sum_list (map json_room xs)"
    by (rule sum_list_mono) (use JArr in auto)
  then show ?case using commas_length [of "map (text_of num) xs"] by (simp add: comp_def)
next
  case (JObj kvs)
  have "length (string_text k) + length (text_of num v) \<le> 6 * length k + 2 + json_room v" if "(k, v) \<in> set kvs" for k v
    using JObj that string_text_length [of k] by (force intro: add_mono)
  then have "sum_list (map (\<lambda>(k, v). length (string_text k) + length (text_of num v)) kvs) \<le> sum_list (map (\<lambda>(k, v). 6 * length k + 2 + json_room v) kvs)"
    by (intro sum_list_mono) auto
  then have "sum_list (map (\<lambda>(k, v). Suc (length (string_text k) + length (text_of num v))) kvs) \<le> sum_list (map (\<lambda>(k, v). 6 * length k + 3 + json_room v) kvs)"
    by (intro sum_list_mono) (use \<open>\<And>v k. (k, v) \<in> set kvs \<Longrightarrow> _\<close> in fastforce)
  then show ?case using commas_length [of "map (\<lambda>(k, v). string_text k @ [58] @ text_of num v) kvs"]
    by (simp add: comp_def case_prod_unfold)
qed (use string_text_length assms(1) in \<open>auto simp: cstr_def\<close>)

lemma fold_max_ge: "a \<le> fold max ns a" for a :: nat
  by (induction ns arbitrary: a) (auto, meson max.cobounded2 order_trans)

lemma fold_max: "n \<in> set ns \<Longrightarrow> n \<le> fold max ns a" for n :: nat
proof (induction ns arbitrary: a)
  case (Cons x ns)
  then show ?case using fold_max_ge [of "max x a" ns] by auto
qed simp

lemma depth_items:
  "x \<in> set xs \<Longrightarrow> json_depth x < json_depth (JArr xs)"
  "(k, v) \<in> set kvs \<Longrightarrow> json_depth v < json_depth (JObj kvs)"
  using fold_max [of "json_depth x" "map json_depth xs" 0] fold_max [of "json_depth v" "map (\<lambda>(k, v). json_depth v) kvs" 0]
  by (force simp: less_Suc_eq_le)+

lemma data_text:
  assumes "plain_cfg cfg" and "sb_holds json bs" and "length bs + json_room j < 2 ^ 30" and "json_proper (prints lc point cfg) j"
    and "d + int (json_depth j) \<le> cf_encode_max_depth cfg"
  shows "appends json (json_append_data lc point cfg d (lua_of j) json) (bs @ text_of (num_text lc point cfg) j)"
  using assms(2-)
proof (induction j arbitrary: json bs d)
  case JNull
  then show ?case using appends_mem [of json bs "cstr ''null''"] by (simp add: cstr_def)
next
  case (JBool b)
  then show ?case using appends_mem [of json bs "if b then cstr ''true'' else cstr ''false''"] by (simp add: cstr_def)
next
  case (JNum x)
  then show ?case using appends_number by simp
next
  case (JStr s)
  then show ?case using appends_string by simp
next
  case (JArr xs)
  let ?num = "num_text lc point cfg" and ?vs = "map lua_of xs"
  have d: "d + 1 \<le> cf_encode_max_depth cfg" using JArr.prems(4) by simp
  have n: "length ?vs < 2 ^ 30" "xs \<noteq> []" using JArr.prems(2,3) by auto
  have len: "lua_array_length cfg (array_entries 0 ?vs) json = Inr (int (length ?vs))" by (rule array_length_array [OF assms(1) n(1)])
  have items: "array_items (array_entries 0 ?vs) (int (length ?vs)) = ?vs" by (rule array_items_array) (use n in simp)
  have "json_append_data lc point cfg d (lua_of (JArr xs)) json = cbind (strbuf_append_char 91 json) (\<lambda>json.
      cbind (array_loop (json_append_data lc point cfg (d + 1)) False ?vs json) (strbuf_append_char 93))"
    (is "_ = ?enc")
    using d n(2) items unfolding lua_of_array json_append_data.simps Let_def json_check_encode_depth_def len by simp
  moreover have "appends json ?enc (((bs @ [91]) @ more_commas False (map (text_of ?num) xs)) @ [93])"
  proof (rule appends_bind, rule appends_char [OF JArr.prems(1)], goal_cases)
    case 1
    then show ?case using JArr.prems(2) by simp
  next
    case (2 j1)
    have l: "length (text_of ?num x) \<le> json_room x" if "x \<in> set xs" for x
      by (rule text_of_length [where num_ok = "prints lc point cfg"]) (use that JArr.prems(3) num_text_length in \<open>auto intro: less_imp_le\<close>)
    show ?case
    proof (rule appends_bind [where bs = "(bs @ [91]) @ more_commas False (map (text_of ?num) xs)"], rule array_loop_appends [OF _ _ 2], goal_cases)
      case (1 x json' bs')
      then show ?case using JArr.IH [of x json' bs' "d + 1"] JArr.prems(3,4) depth_items(1) [of x xs] by auto
    next
      case (2 x)
      then show ?case by (rule l)
    next
      case 3
      then show ?case using JArr.prems(2) by simp
    next
      case (4 j2)
      have "sum_list (map length (map (text_of ?num) xs)) \<le> sum_list (map json_room xs)" unfolding map_map comp_def by (rule sum_list_mono) (rule l)
      then show ?case using appends_char [OF 4, of 93] JArr.prems(2) commas_length [of "map (text_of ?num) xs"] by (simp add: more_commas_def)
    qed
  qed
  ultimately show ?case by (simp add: more_commas_def)
next
  case (JObj kvs)
  let ?num = "num_text lc point cfg" and ?t = "map (\<lambda>(k, v). (LStr k, lua_of v)) kvs"
  let ?texts = "map (\<lambda>(k, v). string_text k @ [58] @ text_of ?num v) kvs"
  have d: "d + 1 \<le> cf_encode_max_depth cfg" using JObj.prems(4) by simp
  have "json_append_data lc point cfg d (lua_of (JObj kvs)) json = cbind (strbuf_append_char 123 json) (\<lambda>json.
      cbind (object_loop lc point cfg (json_append_data lc point cfg (d + 1)) False ?t json) (strbuf_append_char 125))"
    (is "_ = ?enc")
    using d assms(1) array_length_object [OF assms(1), of lua_of kvs] by (simp add: json_check_encode_depth_def plain_cfg_def)
  moreover have "appends json ?enc (((bs @ [123]) @ more_commas False ?texts) @ [125])"
  proof (rule appends_bind, rule appends_char [OF JObj.prems(1)], goal_cases)
    case 1
    then show ?case using JObj.prems(2) by simp
  next
    case (2 j1)
    have l: "length (text_of ?num v) \<le> json_room v" if "(k, v) \<in> set kvs" for k v
      by (rule text_of_length [where num_ok = "prints lc point cfg"]) (use that JObj.prems(3) num_text_length in \<open>auto intro: less_imp_le\<close>)
    show ?case
    proof (rule appends_bind [where bs = "(bs @ [123]) @ more_commas False ?texts"], rule object_loop_appends [OF _ _ 2], goal_cases)
      case (1 k v json' bs')
      then show ?case using JObj.IH [of "(k, v)" v json' bs' "d + 1"] JObj.prems(3,4) depth_items(2) [of k v kvs] by auto
    next
      case (2 k v)
      then show ?case by (rule l)
    next
      case 3
      then show ?case using JObj.prems(2) by simp
    next
      case (4 j2)
      have kv: "length (string_text k) + length (text_of ?num v) \<le> 6 * length k + 2 + json_room v" if "(k, v) \<in> set kvs" for k v
        using l [OF that] string_text_length [of k] by simp
      have "sum_list (map length ?texts) \<le> sum_list (map (\<lambda>(k, v). 6 * length k + 3 + json_room v) kvs)"
        unfolding map_map comp_def by (rule sum_list_mono) (use kv in fastforce)
      then show ?case using appends_char [OF 4, of 125] JObj.prems(2) commas_length [of ?texts] by (simp add: more_commas_def)
    qed
  qed
  ultimately show ?case by (simp add: more_commas_def)
qed

end
