(* ===== verification/JsonRead.thy ===== *)
theory JsonRead
  imports JsonSafe JsonText
begin

section \<open>JSON: what the encoder writes is read back\<close>

text \<open>
  The decoder on the text of a document. The parser stands before the characters \<open>xs\<close>; each lemma says with what
  it passes a piece of text.
\<close>

definition before :: "byte list \<Rightarrow> json_parse \<Rightarrow> byte list \<Rightarrow> bool" where
  "before cs json xs \<longleftrightarrow> json_ok cs json \<and> drop (js_ptr json) cs = xs"

lemma before_length: "before cs json xs \<Longrightarrow> js_ptr json + length xs = length cs"
  by (auto simp: before_def json_ok_def)

lemma before_ch:
  assumes "before cs json xs" and "i \<le> length xs"
  shows "ch_at json i = Inr ((xs @ [0]) ! i)"
proof -
  have l: "js_ptr json + length xs = length cs" by (rule before_length [OF assms(1)])
  have x: "xs = drop (js_ptr json) cs" and d: "js_data json = cs @ [0]" using assms(1) by (auto simp: before_def json_ok_def)
  have "(cs @ [0]) ! (js_ptr json + i) = (xs @ [0]) ! i" using l assms(2) by (simp add: x nth_append)
  then show ?thesis using l assms(2) by (simp add: ch_at_def d rd_def)
qed

lemma before_text: "before cs json xs \<Longrightarrow> text_at json 0 = xs @ [0]"
  by (auto simp: before_def text_at_def json_ok_def)

lemma before_advance: "before cs json (xs @ ys) \<Longrightarrow> before cs (advance (length xs) json) ys"
proof -
  assume a: "before cs json (xs @ ys)"
  have "drop (js_ptr json + length xs) cs = drop (length xs) (drop (js_ptr json) cs)" by (simp add: add.commute)
  moreover have "drop (js_ptr json) cs = xs @ ys" using a by (simp add: before_def)
  ultimately have "drop (js_ptr json + length xs) cs = ys" by simp
  then show ?thesis using a before_length [OF a] by (simp add: before_def json_ok_def advance_def)
qed

lemma before_tmp: "before cs json xs \<Longrightarrow> sb_holds tmp bs \<Longrightarrow> sb_size tmp = sb_size (js_tmp json) \<Longrightarrow> before cs (json\<lparr>js_tmp := tmp\<rparr>) xs"
  by (auto simp: before_def json_ok_def)

subsection \<open>Strings\<close>

text \<open>A piece that stands for \<open>us\<close> is passed, and \<open>us\<close> is put into the buffer.\<close>

lemma string_turn:
  assumes "before cs json (xs @ ys)" and "sb_holds (js_tmp json) bs" and "length bs < js_ptr json" and "length us \<le> length xs"
  shows "\<exists>tmp. strbuf_append_mem_unsafe us (js_tmp json) = Inr tmp \<and> sb_holds tmp (bs @ us)
    \<and> before cs (advance (length xs) (json\<lparr>js_tmp := tmp\<rparr>)) ys"
proof -
  have "int (length bs + length us) < sb_size (js_tmp json)"
    using assms before_length [OF assms(1)] by (auto simp: before_def json_ok_def)
  from append_mem_unsafe_ok [OF assms(2) this] obtain tmp where
    t: "strbuf_append_mem_unsafe us (js_tmp json) = Inr tmp" "sb_holds tmp (bs @ us)" "sb_size tmp = sb_size (js_tmp json)" by blast
  then show ?thesis using before_advance [OF before_tmp [OF assms(1) t(2,3)]] by auto
qed

lemma hex_digit_value: "n < 16 \<Longrightarrow> hexdigit2int (hex_digit n) = int n"
proof -
  have "list_all (\<lambda>n. hexdigit2int (hex_digit n) = int n) [0..<16]"
    by (simp add: upt_rec hexdigit2int_def hex_digit_def)
  then show "n < 16 \<Longrightarrow> ?thesis" by (simp add: list_all_iff)
qed

text \<open>The three ways in which a character is written.\<close>

lemma esc_cases:
  obtains "esc c = [c]" "c \<noteq> 34" "c \<noteq> 0" "c \<noteq> 92"
    | e where "esc c = [92, e]" "escape2char e = c" "c \<noteq> 117" "c \<noteq> 0"
    | "esc c = [92, 117, 48, 48, hex_digit (unat c div 16), hex_digit (unat c mod 16)]" "unat c < 128"
proof -
  have u: "unat c < 128" if "c < 32 \<or> c = 127" using that by (auto simp: word_less_nat_alt)
  consider "c \<in> {8, 9, 10, 12, 13}" | "c \<notin> {8, 9, 10, 12, 13}" "c < 32 \<or> c = 127" | "c \<in> {34, 47, 92}"
    | "\<not> (c < 32 \<or> c = 127)" "c \<notin> {34, 47, 92}" by blast
  then show ?thesis
  proof cases
    case 1
    then show ?thesis using that(2) by (auto simp: esc_def char2escape_def cstr_def escape2char_def)
  next
    case 2
    then show ?thesis using that(3) u by (auto simp: esc_def char2escape_def cstr_def)
  next
    case 3
    then show ?thesis using that(2) [of c] by (auto simp: esc_def char2escape_def escape2char_def)
  next
    case 4
    then have "c \<noteq> 0" "c \<notin> {8, 9, 10, 12, 13}" by auto
    then show ?thesis using 4 that(1) by (auto simp: esc_def char2escape_def)
  qed
qed

lemma esc_nul: "0 \<notin> set (esc c)"
proof (cases rule: esc_cases [of c])
  case (2 e)
  then show ?thesis by (auto simp: escape2char_def)
next
  case 3
  have "hex_digit n \<noteq> 0" if "n < 16" for n using hex_digit_value [OF that] hexdigit2int_bounds(2) [of "hex_digit n"] by auto
  then have "hex_digit (unat c div 16) \<noteq> 0" "hex_digit (unat c mod 16) \<noteq> 0" using 3(2) by auto
  then show ?thesis using 3(1) by auto
qed auto

lemma string_text_nul: "0 \<notin> set (string_text s)"
  using esc_nul by (auto simp: string_text_def)

lemma small_escape:
  assumes "before cs json (92 # 117 # 48 # 48 # hex_digit (n div 16) # hex_digit (n mod 16) # ys)" and "n < 128"
  shows "unicode_escape json = Inr (Some (int n, 6))"
proof -
  have h: "hexdigit2int (hex_digit (n div 16)) = int n div 16" "hexdigit2int (hex_digit (n mod 16)) = int n mod 16"
    using assms(2) by (simp_all add: hex_digit_value zdiv_int zmod_int)
  have c: "ch_at json 2 = Inr 48" "ch_at json 3 = Inr 48" "ch_at json 4 = Inr (hex_digit (n div 16))" "ch_at json 5 = Inr (hex_digit (n mod 16))"
    using before_ch [OF assms(1)] by simp_all
  have "hexdigit2int 48 = 0" by (simp add: hexdigit2int_def)
  moreover have "\<not> int n div 16 < 0" "\<not> int n mod 16 < 0" by simp_all
  ultimately have "decode_hex4 json 2 = Inr (push_bit 12 0 + push_bit 8 0 + push_bit 4 (int n div 16) + int n mod 16)"
    using c by (simp add: decode_hex4_def h)
  also have "\<dots> = Inr (int n)" by (simp add: push_bit_eq_mult)
  finally have "decode_hex4 json 2 = Inr (int n)" .
  moreover have "int n AND 0xF800 \<noteq> 0xD800" using AND_upper1 [of "int n" "0xF800"] assms(2) by linarith
  ultimately show ?thesis by (simp add: unicode_escape_def)
qed

lemma string_loop_text:
  assumes "before cs json (concat (map esc s) @ 34 # ys)" and "sb_holds (js_tmp json) bs" and "length bs < js_ptr json"
    and "length (concat (map esc s)) < k"
  shows "\<exists>json'. string_loop k json = Inr (json', None) \<and> before cs json' (34 # ys) \<and> sb_holds (js_tmp json') (bs @ s)
    \<and> js_depth json' = js_depth json"
  using assms
proof (induction s arbitrary: json bs k)
  case Nil
  then show ?case using before_ch [OF Nil.prems(1), of 0] by (cases k) auto
next
  case (Cons c s)
  obtain k' where k: "k = Suc k'" using Cons.prems(4) by (cases k) auto
  have pos: "Suc (length bs) < js_ptr json + n" if "0 < n" for n using that Cons.prems(3) by linarith
  define zs where "zs = concat (map esc s) @ 34 # ys"
  have b: "before cs json (esc c @ zs)" using Cons.prems(1) by (simp add: zs_def)
  have "\<exists>tmp. strbuf_append_mem_unsafe [c] (js_tmp json) = Inr tmp \<and> sb_holds tmp (bs @ [c])
      \<and> before cs (advance (length (esc c)) (json\<lparr>js_tmp := tmp\<rparr>)) zs"
    by (rule string_turn [OF b Cons.prems(2,3)]) (use esc_length(2) [of c] in \<open>simp add: Suc_le_eq\<close>)
  then obtain tmp where tmp: "strbuf_append_mem_unsafe [c] (js_tmp json) = Inr tmp" "sb_holds tmp (bs @ [c])"
    "before cs (advance (length (esc c)) (json\<lparr>js_tmp := tmp\<rparr>)) zs" by blast
  let ?json = "advance (length (esc c)) (json\<lparr>js_tmp := tmp\<rparr>)"
  have "string_loop k json = string_loop k' ?json"
  proof (cases rule: esc_cases [of c])
    case 1
    then show ?thesis using before_ch [OF b, of 0] tmp(1) by (simp add: k append_char_unsafe)
  next
    case (2 e)
    then have "ch_at json 0 = Inr 92" "ch_at json 1 = Inr e" using before_ch [OF b, of 0] before_ch [OF b, of 1] by simp_all
    moreover have "length (esc c) = 2" using 2(1) by simp
    ultimately show ?thesis using 2(2-) tmp(1) by (simp add: k append_char_unsafe)
  next
    case 3
    have "int (unat c) \<le> 0x7F" using 3(2) by linarith
    then have "codepoint_to_utf8 (int (unat c)) = [c]" unfolding codepoint_to_utf8_def by (simp only: if_True) simp
    moreover have len: "length (esc c) = 6" using 3(1) by simp
    moreover have "unicode_escape json = Inr (Some (int (unat c), 6))" using small_escape [of cs json "unat c" zs] b 3 by simp
    ultimately have "json_append_unicode_escape json = Inr (Some ?json)" using tmp(1) len by (simp add: json_append_unicode_escape_def)
    then show ?thesis using before_ch [OF b, of 0] before_ch [OF b, of 1] 3(1) by (simp add: k escape2char_def)
  qed
  moreover have "length (bs @ [c]) < js_ptr ?json" using pos [OF esc_length(2) [of c]] by (simp add: advance_def)
  moreover have "length (concat (map esc s)) < k'" 
    using Cons.prems(4) esc_length(2) [of c] unfolding k list.map concat.simps length_append by linarith
  ultimately show ?case using Cons.IH [of ?json "bs @ [c]" k'] tmp(2,3) by (simp add: zs_def advance_def)
qed

subsection \<open>Tokens\<close>

text \<open>A token, with the parser before \<open>ys\<close> afterwards.\<close>

definition passes :: "byte list \<Rightarrow> json_parse \<Rightarrow> (json_parse \<times> json_token) cres \<Rightarrow> (json_token \<Rightarrow> bool) \<Rightarrow> byte list \<Rightarrow> bool" where
  "passes cs json r P ys \<longleftrightarrow> (\<exists>json' token. r = Inr (json', token) \<and> P token \<and> before cs json' ys \<and> js_depth json' = js_depth json)"

lemma passesI: "r = Inr (json', token) \<Longrightarrow> P token \<Longrightarrow> before cs json' ys \<Longrightarrow> js_depth json' = js_depth json \<Longrightarrow> passes cs json r P ys"
  by (auto simp: passes_def)

lemma string_token_text:
  assumes "before cs json (string_text s @ ys)"
  shows "passes cs json (json_next_string_token json index) (\<lambda>t. tk_type t = T_STRING \<and> token_string t = s) ys"
proof -
  let ?json = "(advance 1 json)\<lparr>js_tmp := strbuf_reset (js_tmp json)\<rparr>" and ?zs = "concat (map esc s) @ 34 # ys"
  have b: "before cs json ([34] @ ?zs)" using assms by (simp add: string_text_def)
  obtain bs where bs: "sb_holds (js_tmp json) bs" using assms by (auto simp: before_def json_ok_def)
  then have tmp: "sb_holds (strbuf_reset (js_tmp json)) []" "sb_size (strbuf_reset (js_tmp json)) = sb_size (js_tmp json)"
    by (auto simp: sb_holds_def strbuf_reset_def)
  have "before cs (advance 1 json) ?zs" using before_advance [OF b] by simp
  then have b1: "before cs ?json ?zs" using before_tmp [OF _ tmp(1)] tmp(2) by (simp add: advance_def)
  have k: "length (concat (map esc s)) < length (js_data json)" using before_length [OF b] assms by (auto simp: before_def json_ok_def)
  have "sb_holds (js_tmp ?json) []" "length ([] :: byte list) < js_ptr ?json" using tmp(1) by (simp_all add: advance_def)
  from string_loop_text [OF b1 this k] obtain j2 where
    j2: "string_loop (length (js_data json)) ?json = Inr (j2, None)" "before cs j2 (34 # ys)" "sb_holds (js_tmp j2) s" "js_depth j2 = js_depth ?json" by auto
  from ensure_null_ok [OF j2(3)] obtain t3 where
    t3: "strbuf_ensure_null (js_tmp j2) = Inr t3" "sb_holds t3 s" "sb_size t3 = sb_size (js_tmp j2)" by blast
  have "before cs (advance 1 j2) ys" using before_advance [of cs j2 "[34]" ys] j2(2) by simp
  then have "before cs ((advance 1 j2)\<lparr>js_tmp := t3\<rparr>) ys" using before_tmp [OF _ t3(2)] t3(3) by (simp add: advance_def)
  moreover have "ch_at json 0 = Inr 34" using before_ch [OF b, of 0] by simp
  then have "json_next_string_token json index
      = Inr ((advance 1 j2)\<lparr>js_tmp := t3\<rparr>, \<lparr>tk_type = T_STRING, tk_index = index, tk_value = VString s\<rparr>)"
    using j2(1) t3(1) sb_string [OF t3(2)] by (simp add: json_next_string_token_def advance_def Let_def)
  ultimately show ?thesis using j2(4) by (simp add: passes_def token_string_def advance_def)
qed

lemma string_passes:
  assumes "before cs json (string_text s @ ys)"
  shows "passes cs json (json_next_token lc point cfg json) (\<lambda>t. tk_type t = T_STRING \<and> token_string t = s) ys"
proof -
  have "text_at json 0 = 34 # (concat (map esc s) @ [34] @ ys) @ [0]" using before_text [OF assms] by (simp add: string_text_def)
  moreover have "ch_at json 0 = Inr 34" using before_ch [OF assms, of 0] by (simp add: string_text_def)
  ultimately have "json_next_token lc point cfg json = json_next_string_token json (js_ptr json)"
    by (simp add: json_next_token_def ch2token_def advance_def unknown_token_def)
  then show ?thesis using string_token_text [OF assms] by simp
qed

text \<open>The tokens of one character.\<close>

lemma char_passes:
  assumes "before cs json (c # ys)" and "ch2token c \<notin> {T_ERROR, T_END, T_UNKNOWN, T_WHITESPACE}"
  shows "passes cs json (json_next_token lc point cfg json) (\<lambda>t. tk_type t = ch2token c) ys"
proof (rule passesI)
  have "text_at json 0 = c # ys @ [0]" "ch_at json 0 = Inr c" using before_text [OF assms(1)] before_ch [OF assms(1), of 0] by simp_all
  then show "json_next_token lc point cfg json = Inr (advance 1 json, \<lparr>tk_type = ch2token c, tk_index = js_ptr json, tk_value = VNone\<rparr>)"
    using assms(2) by (simp add: json_next_token_def advance_def)
  show "before cs (advance 1 json) ys" using before_advance [of cs json "[c]" ys] assms(1) by simp
qed (simp_all add: advance_def)

lemma end_passes:
  assumes "before cs json ys" and "ys = [] \<or> hd ys = 0"
  shows "passes cs json (json_next_token lc point cfg json) (\<lambda>t. tk_type t = T_END) ys"
proof (rule passesI)
  have "\<exists>zs. text_at json 0 = 0 # zs" "ch_at json 0 = Inr 0"
    using before_text [OF assms(1)] before_ch [OF assms(1), of 0] assms(2) by (cases ys; simp)+
  then show "json_next_token lc point cfg json = Inr (json, \<lparr>tk_type = T_END, tk_index = js_ptr json, tk_value = VNone\<rparr>)"
    by (auto simp: json_next_token_def advance_def ch2token_def)
qed (use assms in simp_all)

text \<open>The three words.\<close>

lemma same_prefix_append: "same_prefix (\<lambda>c. c) (s @ ys) s = Inr True"
  by (induction s) auto

lemma word_passes:
  assumes "before cs json (w @ ys)" and "(w, type, v) \<in> {(cstr ''true'', T_BOOLEAN, VBoolean True), (cstr ''false'', T_BOOLEAN, VBoolean False), (cstr ''null'', T_NULL, VNone)}"
  shows "passes cs json (json_next_token lc point cfg json) (\<lambda>t. tk_type t = type \<and> tk_value t = v) ys"
proof (rule passesI)
  have t: "text_at json 0 = (w @ ys) @ [0]" and c: "ch_at json 0 = Inr (hd w)"
    using before_text [OF assms(1)] before_ch [OF assms(1), of 0] assms(2) by (auto simp: cstr_def)
  show "json_next_token lc point cfg json = Inr (advance (length w) json, \<lparr>tk_type = type, tk_index = js_ptr json, tk_value = v\<rparr>)"
    using assms(2) t c by (auto simp: json_next_token_def advance_def ch2token_def unknown_token_def cstr_def)
  show "before cs (advance (length w) json) ys" by (rule before_advance [OF assms(1)])
qed (simp_all add: advance_def)

subsection \<open>Numbers\<close>

definition digit :: "byte \<Rightarrow> bool" where
  "digit c \<longleftrightarrow> 48 \<le> c \<and> c \<le> 57"

text \<open>A number of JSON begins with a digit, behind a minus or not, and a zero is not followed by a digit or an x.\<close>

definition plain_number :: "byte list \<Rightarrow> bool" where
  "plain_number t \<longleftrightarrow>
     (let u = (if take 1 t = [45] then tl t else t)
      in u \<noteq> [] \<and> digit (hd u) \<and> (hd u = 48 \<longrightarrow> tl u = [] \<or> \<not> digit (hd (tl u)) \<and> hd (tl u) OR 0x20 \<noteq> 120))"

text \<open>What follows is the end of the text or of a member.\<close>

definition follows :: "byte list \<Rightarrow> bool" where
  "follows ys \<longleftrightarrow> ys = [] \<or> hd ys \<in> {44, 93, 125, 0}"

definition readable :: "libc \<Rightarrow> byte \<Rightarrow> json_config \<Rightarrow> u64 \<Rightarrow> bool" where
  "readable lc point cfg x \<longleftrightarrow> prints lc point cfg x \<and> plain_number (num_text lc point cfg x)
     \<and> (case set_number_format (cf_precision cfg) of None \<Rightarrow> False | Some fmt \<Rightarrow> reads_back lc point (lc_snprintf lc fmt x) x)"

lemma plain_numberE:
  assumes "plain_number t"
  obtains m d w where "t = m @ d # w" "m = [] \<or> m = [45]" "digit d" "d = 48 \<Longrightarrow> w = [] \<or> \<not> digit (hd w) \<and> hd w OR 0x20 \<noteq> 120"
proof (cases "take 1 t = [45]")
  case True
  then obtain u where u: "t = 45 # u" by (cases t) auto
  then show ?thesis using assms that [of "[45]" "hd u" "tl u"] by (auto simp: plain_number_def)
next
  case False
  then have "t \<noteq> []" using assms by (auto simp: plain_number_def)
  then show ?thesis using assms that [of "[]" "hd t" "tl t"] False by (auto simp: plain_number_def)
qed

lemma valid_plain:
  assumes "before cs json (t @ ys)" and "plain_number t" and "follows ys"
  shows "json_is_invalid_number json = Inr False"
proof -
  obtain m d w where t: "t = m @ d # w" and m: "m = [] \<or> m = [45]" and d: "digit d"
    and w: "d = 48 \<Longrightarrow> w = [] \<or> \<not> digit (hd w) \<and> hd w OR 0x20 \<noteq> 120" by (rule plain_numberE [OF assms(2)]) blast
  have c0: "ch_at json (length m) = Inr d" using before_ch [OF assms(1), of "length m"] by (simp add: t nth_append)
  define e where "e = (w @ ys @ [0]) ! 0"
  have c1: "ch_at json (length m + 1) = Inr e" using before_ch [OF assms(1), of "length m + 1"] by (simp add: t nth_append e_def)
  have e: "\<not> digit e \<and> e OR 0x20 \<noteq> 120" if "d = 48"
    using w [OF that] assms(3) by (cases w; cases ys) (auto simp: e_def follows_def digit_def)
  have d': "d \<noteq> 43" "d \<noteq> 45" "d \<le> 57" using d by (auto simp: digit_def)
  from m show ?thesis
  proof
    assume "m = []"
    then show ?thesis using c0 c1 d' e by (auto simp: json_is_invalid_number_def digit_def)
  next
    assume m': "m = [45]"
    then have "ch_at json 0 = Inr 45" using before_ch [OF assms(1), of 0] by (simp add: t)
    then show ?thesis using m' c0 c1 d' e by (auto simp: json_is_invalid_number_def digit_def)
  qed
qed

lemma number_passes:
  assumes "before cs json (num_text lc point cfg x @ ys)" and "readable lc point cfg x" and "follows ys"
  shows "passes cs json (json_next_token lc point cfg json) (\<lambda>t. tk_type t = T_NUMBER \<and> token_number t = x) ys"
proof -
  obtain fmt where fmt: "set_number_format (cf_precision cfg) = Some fmt" and t: "number_text point (lc_snprintf lc fmt x)"
    and r: "reads_back lc point (lc_snprintf lc fmt x) x" and plain: "plain_number (num_text lc point cfg x)"
    using assms(2) by (auto simp: readable_def prints_def split: option.splits)
  let ?t = "num_text lc point cfg x"
  have nt: "?t = dotted point (lc_snprintf lc fmt x)" by (simp add: num_text_def fmt)
  obtain m d w where m: "?t = m @ d # w" "m = [] \<or> m = [45]" "digit d" by (rule plain_numberE [OF plain]) blast
  have n: "0 < length ?t" using m(1) by simp
  have c0: "ch_at json 0 = Inr (hd ?t)" using before_ch [OF assms(1), of 0] m(1,2) by auto
  have c: "hd ?t = 45 \<or> digit (hd ?t)" "hd ?t \<noteq> 34" using m by (auto simp: digit_def)
  then have ty: "ch2token (hd ?t) = T_UNKNOWN" by (auto simp: ch2token_def digit_def)
  have tx: "text_at json 0 = ?t @ ys @ [0]" using before_text [OF assms(1)] by simp
  moreover have "?t @ ys @ [0] = hd ?t # tl ?t @ ys @ [0]" using n by (simp flip: append_Cons)
  ultimately have ws: "white_space (text_at json 0) = Inr 0" using ty by (simp add: white_space.simps(2))
  obtain zs rest where zs: "ys @ [0] = zs @ 0 # rest" "0 \<notin> set zs" using split_list_first [of 0 "ys @ [0]"] by auto
  have "fpconv_strtod lc point (?t @ ys @ [0]) = Some (x, length (lc_snprintf lc fmt x))"
  proof (cases zs)
    case Nil
    then show ?thesis using strtod_text [OF t r not_valid_0(1), of "[]" rest] zs(1) by (simp add: nt)
  next
    case (Cons y zs')
    then have "hd ys = y" "ys \<noteq> []" using zs by (cases ys; simp)+
    then have "\<not> valid_number_character y" "0 \<notin> set zs'" "y \<noteq> 0"
      using assms(3) zs(2) Cons by (auto simp: follows_def valid_number_character_def)
    then show ?thesis using strtod_text [OF t r, of y zs' rest] zs(1) Cons by (simp add: nt)
  qed
  then have num: "json_next_number_token lc point json index = Inr (advance (length ?t) json, \<lparr>tk_type = T_NUMBER, tk_index = index, tk_value = VNumber x\<rparr>)" for index
    using n tx by (simp add: json_next_number_token_def nt dotted_def)
  have "json_next_token lc point cfg json = json_next_number_token lc point json (js_ptr json)"
    using ws c0 ty c valid_plain [OF assms(1) plain assms(3)]
    by (auto simp: json_next_token_def unknown_token_def advance_def digit_def)
  then show ?thesis using num before_advance [OF assms(1)] by (auto simp: passes_def token_number_def advance_def)
qed

subsection \<open>Tables\<close>

lemma dbl_of_nat_inj: "0 < m \<Longrightarrow> m < n \<Longrightarrow> n < 2 ^ 53 \<Longrightarrow> dbl_of_nat m \<noteq> dbl_of_nat n"
  using dbl_pos_int_of_nat [of m] dbl_pos_int_of_nat [of n] by auto

lemma rawset_array: "m + Suc (length vs) < 2 ^ 53
    \<Longrightarrow> lua_rawset (array_entries m vs) (LNum (dbl_of_nat (Suc (m + length vs)))) v = array_entries m (vs @ [v])"
proof (induction vs arbitrary: m)
  case (Cons w vs)
  then show ?case using dbl_of_nat_inj [of "Suc m" "Suc (m + length (w # vs))"] Cons.IH [of "Suc m"] by simp
qed simp

lemma rawset_object: "key \<notin> fst ` set t \<Longrightarrow> lua_rawset t key v = t @ [(key, v)]"
  by (induction t key v rule: lua_rawset.induct) auto

text \<open>A value, with the parser before \<open>ys\<close> afterwards.\<close>

definition delivers :: "byte list \<Rightarrow> int \<Rightarrow> (json_parse \<times> lua) cres \<Rightarrow> lua \<Rightarrow> byte list \<Rightarrow> bool" where
  "delivers cs d r v ys \<longleftrightarrow> (\<exists>json. r = Inr (json, v) \<and> before cs json ys \<and> js_depth json = d)"

lemma delivers_token:
  assumes "passes cs json r P ys"
    and "\<And>json' token. P token \<Longrightarrow> before cs json' ys \<Longrightarrow> js_depth json' = js_depth json \<Longrightarrow> delivers cs d (f (json', token)) v zs"
  shows "delivers cs d (cbind r f) v zs"
  using assms by (fastforce simp: passes_def)

lemma delivers_value:
  assumes "delivers cs d r v ys" and "\<And>json. before cs json ys \<Longrightarrow> js_depth json = d \<Longrightarrow> delivers cs d' (f (json, v)) w zs"
  shows "delivers cs d' (cbind r f) w zs"
  using assms by (fastforce simp: delivers_def)

lemma delivers_ascend: "before cs json ys \<Longrightarrow> js_depth json = d + 1 \<Longrightarrow> delivers cs d (Inr (json_decode_ascend json, v)) v ys"
  by (simp add: delivers_def json_decode_ascend_def before_def json_ok_def)

lemma cbind_assoc: "cbind (cbind m f) g = cbind m (\<lambda>x. cbind (f x) g)"
  by (cases m) simp_all

text \<open>What the loops need of the function for values, at the depth \<open>d\<close>.\<close>

definition reads :: "(json_parse \<Rightarrow> (json_parse \<times> json_token) cres) \<Rightarrow> (json_parse \<Rightarrow> json_token \<Rightarrow> (json_parse \<times> lua) cres) \<Rightarrow> byte list \<Rightarrow> int
    \<Rightarrow> byte list \<Rightarrow> lua \<Rightarrow> bool" where
  "reads token_of process cs d xs v \<longleftrightarrow>
     (\<forall>json ys. before cs json (xs @ ys) \<longrightarrow> follows ys \<longrightarrow> js_depth json = d
       \<longrightarrow> delivers cs d (cbind (token_of json) (\<lambda>(json, token). process json token)) v ys)"

lemma readsD: "reads token_of process cs d xs v \<Longrightarrow> before cs json (xs @ ys) \<Longrightarrow> follows ys \<Longrightarrow> js_depth json = d
    \<Longrightarrow> delivers cs d (cbind (token_of json) (\<lambda>(json, token). process json token)) v ys"
  by (simp add: reads_def)

lemma array_elements_text:
  assumes "\<And>x. x \<in> set xs \<Longrightarrow> reads (json_next_token lc point cfg) process cs (d + 1) (text x) (lua_of x)"
    and "before cs json (commas (map text xs) @ 93 # ys)" and "js_depth json = d + 1" and "xs \<noteq> []"
    and "length xs \<le> k" and "length vs + length xs < 2 ^ 53"
  shows "delivers cs d (cbind (json_next_token lc point cfg json) (\<lambda>(json, token).
      array_elements k process lc point cfg json token (Suc (length vs)) (array_entries 0 vs))) (LTable (array_entries 0 (vs @ map lua_of xs))) ys"
  using assms
proof (induction xs arbitrary: json k vs)
  case (Cons x xs)
  obtain k' where k: "k = Suc k'" using Cons.prems(5) by (cases k) auto
  define zs where "zs = (if xs = [] then 93 # ys else 44 # commas (map text xs) @ 93 # ys)"
  have b: "before cs json (text x @ zs)" using Cons.prems(2) by (cases xs) (simp_all add: zs_def)
  have f: "follows zs" by (simp add: follows_def zs_def)
  have set: "lua_rawset (array_entries 0 vs) (LNum (dbl_of_nat (Suc (length vs)))) v = array_entries 0 (vs @ [v])" for v
    using rawset_array [of 0 vs v] Cons.prems(6) by simp
  have one: "delivers cs (d + 1) (cbind (json_next_token lc point cfg json) (\<lambda>(json, token). process json token)) (lua_of x) zs"
    using Cons.prems(1) [of x] readsD [OF _ b f Cons.prems(3)] by simp
  have "delivers cs d (cbind (cbind (json_next_token lc point cfg json) (\<lambda>(json, token). process json token)) (\<lambda>(json, v).
     let t = lua_rawset (array_entries 0 vs) (LNum (dbl_of_nat (Suc (length vs)))) v in
     cbind (json_next_token lc point cfg json) (\<lambda>(json, token).
     if tk_type token = T_ARR_END then Inr (json_decode_ascend json, LTable t)
     else if tk_type token \<noteq> T_COMMA then Inl (json_throw_parse_error json ''comma or array end'' token)
     else cbind (json_next_token lc point cfg json) (\<lambda>(json, token). array_elements k' process lc point cfg json token (Suc (length vs) + 1) t))))
     (LTable (array_entries 0 (vs @ map lua_of (x # xs)))) ys"
  proof (rule delivers_value [OF one], unfold prod.case Let_def set, goal_cases)
    case (1 j1)
    show ?case
    proof (cases "xs = []")
      case True
      then have "before cs j1 (93 # ys)" using 1(1) by (simp add: zs_def)
      then show ?thesis
        by (rule delivers_token [OF char_passes]) (use True delivers_ascend 1(2) in \<open>auto simp: ch2token_def\<close>)
    next
      case False
      then have "before cs j1 (44 # commas (map text xs) @ 93 # ys)" using 1(1) by (simp add: zs_def)
      then show ?thesis
      proof (rule delivers_token [OF char_passes], goal_cases)
        case (2 j2 token)
        then have "delivers cs d (cbind (json_next_token lc point cfg j2) (\<lambda>(json, token).
          array_elements k' process lc point cfg json token (Suc (length (vs @ [lua_of x]))) (array_entries 0 (vs @ [lua_of x]))))
          (LTable (array_entries 0 ((vs @ [lua_of x]) @ map lua_of xs))) ys"
          using 1(2) False Cons.prems by (intro Cons.IH) (auto simp: k)
        then show ?case using 2 by (simp add: ch2token_def)
      qed (simp add: ch2token_def)
    qed
  qed
  then show ?case by (simp add: k cbind_assoc case_prod_unfold)
qed simp

lemma object_members_text:
  assumes "\<And>key x. (key, x) \<in> set kvs \<Longrightarrow> reads (json_next_token lc point cfg) process cs (d + 1) (text x) (lua_of x)"
    and "before cs json (commas (map (\<lambda>(key, x). string_text key @ [58] @ text x) kvs) @ 125 # ys)" and "js_depth json = d + 1"
    and "kvs \<noteq> []" and "length kvs \<le> k" and "distinct (map fst kvs)" and "\<And>key. key \<in> fst ` set kvs \<Longrightarrow> LStr key \<notin> fst ` set t"
  shows "delivers cs d (cbind (json_next_token lc point cfg json) (\<lambda>(json, token).
      object_members k process lc point cfg json token t)) (LTable (t @ map (\<lambda>(key, x). (LStr key, lua_of x)) kvs)) ys"
  using assms
proof (induction kvs arbitrary: json k t)
  case (Cons e kvs)
  obtain key x where e: "e = (key, x)" by (cases e)
  obtain k' where k: "k = Suc k'" using Cons.prems(5) by (cases k) auto
  let ?texts = "map (\<lambda>(key, x). string_text key @ [58] @ text x) kvs" and ?t = "t @ [(LStr key, lua_of x)]"
  define zs where "zs = (if kvs = [] then 125 # ys else 44 # commas ?texts @ 125 # ys)"
  have b: "before cs json (string_text key @ 58 # text x @ zs)" using Cons.prems(2) by (cases kvs) (simp_all add: e zs_def)
  have f: "follows zs" by (simp add: follows_def zs_def)
  have set: "lua_rawset t (LStr key) v = t @ [(LStr key, v)]" for v using rawset_object Cons.prems(7) by (simp add: e)
  show ?case unfolding k
  proof (rule delivers_token [OF string_passes [OF b]], goal_cases)
    case (1 j1 token)
    have "delivers cs d (cbind (json_next_token lc point cfg j1) (\<lambda>(json, token).
        if tk_type token \<noteq> T_COLON then Inl (json_throw_parse_error json ''colon'' token)
        else cbind (json_next_token lc point cfg json) (\<lambda>(json, token).
        cbind (process json token) (\<lambda>(json, v).
        let t = lua_rawset t (LStr key) v in
        cbind (json_next_token lc point cfg json) (\<lambda>(json, token).
        if tk_type token = T_OBJ_END then Inr (json_decode_ascend json, LTable t)
        else if tk_type token \<noteq> T_COMMA then Inl (json_throw_parse_error json ''comma or object end'' token)
        else cbind (json_next_token lc point cfg json) (\<lambda>(json, token). object_members k' process lc point cfg json token t))))))
        (LTable (?t @ map (\<lambda>(key, x). (LStr key, lua_of x)) kvs)) ys"
    proof (rule delivers_token [OF char_passes [OF 1(2)]], goal_cases)
      case (2 j2 token)
      then have "delivers cs (d + 1) (cbind (json_next_token lc point cfg j2) (\<lambda>(json, token). process json token)) (lua_of x) zs"
        using Cons.prems(1) [of key x] readsD [OF _ 2(2) f] 1(3) Cons.prems(3) by (simp add: e)
      then have "delivers cs d (cbind (cbind (json_next_token lc point cfg j2) (\<lambda>(json, token). process json token)) (\<lambda>(json, v).
        let t = lua_rawset t (LStr key) v in
        cbind (json_next_token lc point cfg json) (\<lambda>(json, token).
        if tk_type token = T_OBJ_END then Inr (json_decode_ascend json, LTable t)
        else if tk_type token \<noteq> T_COMMA then Inl (json_throw_parse_error json ''comma or object end'' token)
        else cbind (json_next_token lc point cfg json) (\<lambda>(json, token). object_members k' process lc point cfg json token t))))
        (LTable (?t @ map (\<lambda>(key, x). (LStr key, lua_of x)) kvs)) ys"
      proof (rule delivers_value, unfold prod.case Let_def set, goal_cases)
        case (1 j3)
        show ?case
        proof (cases "kvs = []")
          case True
          then have "before cs j3 (125 # ys)" using 1(1) by (simp add: zs_def)
          then show ?thesis
            by (rule delivers_token [OF char_passes]) (use True delivers_ascend 1(2) in \<open>auto simp: ch2token_def\<close>)
        next
          case False
          then have "before cs j3 (44 # commas ?texts @ 125 # ys)" using 1(1) by (simp add: zs_def)
          then show ?thesis
          proof (rule delivers_token [OF char_passes], goal_cases)
            case (2 j4 token)
            then have "delivers cs d (cbind (json_next_token lc point cfg j4) (\<lambda>(json, token). object_members k' process lc point cfg json token ?t))
              (LTable (?t @ map (\<lambda>(key, x). (LStr key, lua_of x)) kvs)) ys"
              using 1(2) False Cons.prems(1,3,5-7) by (intro Cons.IH) (auto simp: k e)
            then show ?case using 2 by (simp add: ch2token_def)
          qed (simp add: ch2token_def)
        qed
      qed
      then show ?case using 2(1) by (simp add: cbind_assoc case_prod_unfold ch2token_def)
    qed (simp add: ch2token_def)
    then show ?case using 1(1) by (simp add: e)
  qed
qed simp

subsection \<open>Documents\<close>

lemma num_text_nul: "readable lc point cfg x \<Longrightarrow> 0 \<notin> set (num_text lc point cfg x)"
  using number_text_nul by (fastforce simp: readable_def prints_def num_text_def dotted_def dot_def split: option.splits)

lemma commas_nul: "(\<And>x. x \<in> set xs \<Longrightarrow> 0 \<notin> set x) \<Longrightarrow> 0 \<notin> set (commas xs)"
  by (induction xs rule: commas.induct) auto

lemma text_nul: "json_proper (readable lc point cfg) j \<Longrightarrow> 0 \<notin> set (text_of (num_text lc point cfg) j)"
proof (induction j)
  case (JArr xs)
  then have "0 \<notin> set (commas (map (text_of (num_text lc point cfg)) xs))" by (intro commas_nul) auto
  then show ?case by simp
next
  case (JObj kvs)
  then have "0 \<notin> set (commas (map (\<lambda>(k, v). string_text k @ [58] @ text_of (num_text lc point cfg) v) kvs))"
    using string_text_nul by (intro commas_nul) fastforce
  then show ?case by simp
qed (use num_text_nul string_text_nul in \<open>auto simp: cstr_def\<close>)

text \<open>A value never begins with the end of an array or of an object.\<close>

lemma process_value_Inr: "json_process_value k lc point cfg json token = Inr r \<Longrightarrow> tk_type token \<notin> {T_ARR_END, T_OBJ_END}"
  by (cases k) auto

lemma array_elements_Inr:
  "array_elements k (json_process_value n lc point cfg) lc point cfg json token i t = Inr r \<Longrightarrow> tk_type token \<noteq> T_ARR_END"
  by (cases k; cases "json_process_value n lc point cfg json token") (use process_value_Inr in fastforce)+

lemma object_members_Inr:
  "object_members k process lc point cfg json token t = Inr r \<Longrightarrow> tk_type token = T_STRING"
  by (cases k) (auto split: if_splits)

lemma context_token:
  assumes "strtod_ok lc" and "before cs json xs"
    and "delivers cs d (cbind (json_next_token lc point cfg json) (\<lambda>(json, token). f json token)) v ys"
  obtains json' token r where "json_next_token lc point cfg json = Inr (json', token)" "js_data json' = cs @ [0]"
    "f json' token = Inr r" "delivers cs d (f json' token) v ys"
proof -
  obtain json' token where t: "json_next_token lc point cfg json = Inr (json', token)" "js_data json' = cs @ [0]"
    using next_token_ok [of cs json lc point cfg] assms(1,2) by (auto simp: before_def token_ok_def json_ok_def)
  then have d: "delivers cs d (f json' token) v ys" using assms(3) by simp
  then obtain r where "f json' token = Inr r" by (auto simp: delivers_def)
  then show ?thesis using that t d by blast
qed

lemma array_context_text:
  assumes "strtod_ok lc" and "before cs json' xs" and "json_decode_descend cfg json = Inr json'"
    and "delivers cs d (cbind (json_next_token lc point cfg json') (\<lambda>(json, token).
      array_elements (Suc (length cs)) (json_process_value k lc point cfg) lc point cfg json token 1 [])) v ys"
  shows "delivers cs d (json_parse_array_context (json_process_value k lc point cfg) lc point cfg json) v ys"
proof (rule context_token [OF assms(1,2,4)], goal_cases)
  case (1 j token r)
  then show ?case using array_elements_Inr [OF 1(3)] by (simp add: json_parse_array_context_def assms(3))
qed

lemma object_context_text:
  assumes "strtod_ok lc" and "before cs json' xs" and "json_decode_descend cfg json = Inr json'"
    and "delivers cs d (cbind (json_next_token lc point cfg json') (\<lambda>(json, token).
      object_members (Suc (length cs)) (json_process_value k lc point cfg) lc point cfg json token [])) v ys"
  shows "delivers cs d (json_parse_object_context (json_process_value k lc point cfg) lc point cfg json) v ys"
proof (rule context_token [OF assms(1,2,4)], goal_cases)
  case (1 j token r)
  then show ?case using object_members_Inr [OF 1(3)] by (simp add: json_parse_object_context_def assms(3))
qed

lemma commas_count: "length xs \<le> Suc (length (commas xs))"
  by (induction xs rule: commas.induct) auto

text \<open>The four cases: a value of one token, an array, an object.\<close>

lemma token_reads:
  assumes "\<And>json ys. before cs json (xs @ ys) \<Longrightarrow> follows ys \<Longrightarrow> passes cs json (token_of json) P ys"
    and "\<And>json token. P token \<Longrightarrow> process json token = Inr (json, v)"
  shows "reads token_of process cs d xs v"
  unfolding reads_def
proof (intro allI impI)
  fix json ys assume a: "before cs json (xs @ ys)" "follows ys" "js_depth json = d"
  show "delivers cs d (cbind (token_of json) (\<lambda>(json, token). process json token)) v ys"
    by (rule delivers_token [OF assms(1) [OF a(1,2)]]) (use a(3) assms(2) in \<open>simp add: delivers_def\<close>)
qed

lemma array_reads:
  assumes "strtod_ok lc" and "d + 1 \<le> cf_decode_max_depth cfg" and "length cs < 2 ^ 53" and "xs \<noteq> []"
    and "\<And>x. x \<in> set xs \<Longrightarrow> reads (json_next_token lc point cfg) (json_process_value k lc point cfg) cs (d + 1) (text x) (lua_of x)"
  shows "reads (json_next_token lc point cfg) (json_process_value (Suc k) lc point cfg) cs d ([91] @ commas (map text xs) @ [93]) (lua_of (JArr xs))"
  unfolding reads_def
proof (intro allI impI)
  fix json ys assume b: "before cs json (([91] @ commas (map text xs) @ [93]) @ ys)" and f: "follows ys" and d: "js_depth json = d"
  have "before cs json (91 # commas (map text xs) @ 93 # ys)" using b by simp
  then show "delivers cs d (cbind (json_next_token lc point cfg json) (\<lambda>(json, token). json_process_value (Suc k) lc point cfg json token)) (lua_of (JArr xs)) ys"
  proof (rule delivers_token [OF char_passes], goal_cases)
    case (2 j1 token)
    let ?j1 = "j1\<lparr>js_depth := d + 1\<rparr>"
    have b1: "before cs ?j1 (commas (map text xs) @ 93 # ys)" using 2(2) by (simp add: before_def json_ok_def)
    have n: "length xs \<le> length cs" using commas_count [of "map text xs"] before_length [OF b1] by simp
    have "delivers cs d (cbind (json_next_token lc point cfg ?j1) (\<lambda>(json, token).
        array_elements (Suc (length cs)) (json_process_value k lc point cfg) lc point cfg json token (Suc (length ([] :: lua list))) (array_entries 0 [])))
        (LTable (array_entries 0 ([] @ map lua_of xs))) ys"
      using assms(3-5) f n by (intro array_elements_text [OF _ b1]) (auto simp: follows_def)
    moreover have "json_decode_descend cfg j1 = Inr ?j1" using 2(3) d assms(2) by (simp add: json_decode_descend_def)
    ultimately have "delivers cs d (json_parse_array_context (json_process_value k lc point cfg) lc point cfg j1) (lua_of (JArr xs)) ys"
      using array_context_text [OF assms(1) b1] unfolding lua_of_array by simp
    then show ?case using 2(1) by (simp add: ch2token_def)
  qed (simp add: ch2token_def)
qed

lemma object_reads:
  assumes "strtod_ok lc" and "d + 1 \<le> cf_decode_max_depth cfg" and "distinct (map fst kvs)"
    and "\<And>key x. (key, x) \<in> set kvs \<Longrightarrow> reads (json_next_token lc point cfg) (json_process_value k lc point cfg) cs (d + 1) (text x) (lua_of x)"
  shows "reads (json_next_token lc point cfg) (json_process_value (Suc k) lc point cfg) cs d
    ([123] @ commas (map (\<lambda>(key, x). string_text key @ [58] @ text x) kvs) @ [125]) (lua_of (JObj kvs))"
  unfolding reads_def
proof (intro allI impI)
  let ?texts = "map (\<lambda>(key, x). string_text key @ [58] @ text x) kvs"
  fix json ys assume b: "before cs json (([123] @ commas ?texts @ [125]) @ ys)" and f: "follows ys" and d: "js_depth json = d"
  have "before cs json (123 # commas ?texts @ 125 # ys)" using b by simp
  then show "delivers cs d (cbind (json_next_token lc point cfg json) (\<lambda>(json, token). json_process_value (Suc k) lc point cfg json token)) (lua_of (JObj kvs)) ys"
  proof (rule delivers_token [OF char_passes], goal_cases)
    case (2 j1 token)
    let ?j1 = "j1\<lparr>js_depth := d + 1\<rparr>"
    have b1: "before cs ?j1 (commas ?texts @ 125 # ys)" using 2(2) by (simp add: before_def json_ok_def)
    have n: "length kvs \<le> length cs" using commas_count [of ?texts] before_length [OF b1] by simp
    have descend: "json_decode_descend cfg j1 = Inr ?j1" using 2(3) d assms(2) by (simp add: json_decode_descend_def)
    have "delivers cs d (json_parse_object_context (json_process_value k lc point cfg) lc point cfg j1) (lua_of (JObj kvs)) ys"
    proof (cases "kvs = []")
      case True
      then have "before cs ?j1 (125 # ys)" using b1 by simp
      then have "delivers cs d (cbind (json_next_token lc point cfg ?j1) (\<lambda>(json, token).
         if tk_type token = T_OBJ_END then Inr (json_decode_ascend json, LTable [])
         else object_members (length (js_data json)) (json_process_value k lc point cfg) lc point cfg json token [])) (LTable []) ys"
        by (rule delivers_token [OF char_passes]) (use delivers_ascend in \<open>auto simp: ch2token_def\<close>)
      then show ?thesis using True by (simp add: json_parse_object_context_def descend)
    next
      case False
      have "delivers cs d (cbind (json_next_token lc point cfg ?j1) (\<lambda>(json, token).
          object_members (Suc (length cs)) (json_process_value k lc point cfg) lc point cfg json token []))
          (LTable ([] @ map (\<lambda>(key, x). (LStr key, lua_of x)) kvs)) ys"
        using assms(3,4) f False n by (intro object_members_text [OF _ b1]) (auto simp: follows_def)
      then show ?thesis using object_context_text [OF assms(1) b1 descend] by simp
    qed
    then show ?case using 2(1) by (simp add: ch2token_def)
  qed (simp add: ch2token_def)
qed

lemma value_reads:
  assumes "strtod_ok lc" and "json_proper (readable lc point cfg) j" and "d + int (json_depth j) \<le> cf_decode_max_depth cfg" and "json_depth j < k"
    and "length cs < 2 ^ 53"
  shows "reads (json_next_token lc point cfg) (json_process_value k lc point cfg) cs d (text_of (num_text lc point cfg) j) (lua_of j)"
  using assms(2-4)
proof (induction j arbitrary: d k)
  case JNull
  then obtain k' where k: "k = Suc k'" by (cases k) auto
  show ?case unfolding text_of.simps
    by (rule token_reads [OF word_passes [where type = T_NULL and v = VNone]]) (auto simp: k)
next
  case (JBool b)
  then obtain k' where k: "k = Suc k'" by (cases k) auto
  show ?case unfolding text_of.simps
  proof (rule token_reads [where P = "\<lambda>t. tk_type t = T_BOOLEAN \<and> tk_value t = VBoolean b"], goal_cases)
    case (1 json ys)
    then show ?case using word_passes [of cs json "if b then cstr ''true'' else cstr ''false''" ys T_BOOLEAN "VBoolean b"] by (cases b) auto
  qed (simp add: k token_boolean_def)
next
  case (JNum x)
  then obtain k' where k: "k = Suc k'" by (cases k) auto
  show ?case unfolding text_of.simps by (rule token_reads [OF number_passes]) (use JNum.prems(1) in \<open>auto simp: k\<close>)
next
  case (JStr s)
  then obtain k' where k: "k = Suc k'" by (cases k) auto
  show ?case unfolding text_of.simps by (rule token_reads [OF string_passes]) (auto simp: k)
next
  case (JArr xs)
  then obtain k' where k: "k = Suc k'" by (cases k) auto
  show ?case unfolding k text_of.simps
  proof (rule array_reads [OF assms(1) _ assms(5)], goal_cases)
    case (3 x)
    then show ?case using JArr.IH [OF 3, of "d + 1" k'] JArr.prems depth_items(1) [OF 3] by (simp add: k)
  qed (use JArr.prems in auto)
next
  case (JObj kvs)
  then obtain k' where k: "k = Suc k'" by (cases k) auto
  show ?case unfolding k text_of.simps
  proof (rule object_reads [OF assms(1)], goal_cases)
    case (3 key x)
    then show ?case using JObj.IH [OF 3, of x "d + 1" k'] JObj.prems depth_items(2) [OF 3] by (auto simp: k)
  qed (use JObj.prems in auto)
qed

subsection \<open>The whole call\<close>

lemma depth_commas:
  assumes "\<And>x. x \<in> set xs \<Longrightarrow> f x \<le> length (g x)"
  shows "fold max (map f xs) a \<le> max a (length (commas (map g xs)))"
  using assms
proof (induction xs arbitrary: a rule: induct_list012)
  case (3 x y xs)
  have "fold max (map f (y # xs)) (max (f x) a) \<le> max (max (f x) a) (length (commas (map g (y # xs))))"
    by (rule "3.IH"(2)) (use 3(3) in simp)
  moreover have "f x \<le> length (g x)" by (rule 3(3)) simp
  ultimately show ?case by simp
qed auto

lemma json_depth_length: "json_depth j \<le> length (text_of num j)"
proof (induction j)
  case (JArr xs)
  then show ?case using depth_commas [of xs json_depth "text_of num" 0] by simp
next
  case (JObj kvs)
  have "json_depth (snd e) \<le> length (string_text (fst e) @ [58] @ text_of num (snd e))" if "e \<in> set kvs" for e
    using JObj [of e "snd e"] that by (cases e) simp
  then show ?case using depth_commas [of kvs "\<lambda>e. json_depth (snd e)" "\<lambda>e. string_text (fst e) @ [58] @ text_of num (snd e)" 0]
    by (simp add: case_prod_unfold)
qed auto

text \<open>What comes behind a NUL is not looked at.\<close>

lemma decode_text:
  fixes rest :: "byte list"
  assumes "strtod_ok lc" and "json_proper (readable lc point cfg) j" and "int (json_depth j) \<le> cf_decode_max_depth cfg"
    and "length (text_of (num_text lc point cfg) j @ rest) < 2 ^ 30" and "rest = [] \<or> hd rest = 0 \<and> 2 \<le> length (text_of (num_text lc point cfg) j)"
  shows "json_decode lc point cfg [LStr (text_of (num_text lc point cfg) j @ rest)] = Inr (lua_of j)"
proof -
  define t where "t = text_of (num_text lc point cfg) j"
  define s where "s = t @ rest"
  obtain tmp where tmp: "strbuf_new (size_as_int (length s)) = Inr tmp" "sb_holds tmp []" "int (length s) < sb_size tmp"
    using strbuf_init_ok [of "int (length s)"] assms(4) by (auto simp: strbuf_new_def size_as_int_ok sb_holds_def s_def t_def)
  let ?json = "\<lparr>js_data = s @ [0], js_ptr = 0, js_tmp = tmp, js_depth = 0\<rparr>"
  have b: "before s ?json (t @ rest)" using tmp by (auto simp: before_def json_ok_def s_def)
  have "reads (json_next_token lc point cfg) (json_process_value (length s + 2) lc point cfg) s 0 t (lua_of j)"
    unfolding t_def
    by (rule value_reads [OF assms(1,2)]) (use assms(3,4) json_depth_length [of j "num_text lc point cfg"] in \<open>simp_all add: s_def t_def\<close>)
  from readsD [OF this b] assms(5) obtain j1 where
    1: "cbind (json_next_token lc point cfg ?json) (\<lambda>(json, token). json_process_value (length s + 2) lc point cfg json token) = Inr (j1, lua_of j)"
      "before s j1 rest" by (auto simp: follows_def delivers_def)
  obtain j2 t2 where 2: "json_next_token lc point cfg j1 = Inr (j2, t2)" "tk_type t2 = T_END"
    using end_passes [OF 1(2), of lc point cfg] assms(5) by (auto simp: passes_def)
  have "0 \<notin> set t" unfolding t_def by (rule text_nul [OF assms(2)])
  then have "t ! i \<noteq> 0" if "i < length t" for i using that nth_mem by metis
  moreover have "rest = [] \<or> 2 \<le> length t" using assms(5) by (auto simp: t_def)
  ultimately have guard: "(length s \<ge> 2 \<and> (s ! 0 = 0 \<or> s ! 1 = 0)) = False" by (auto simp: s_def nth_append)
  have "json_decode lc point cfg [LStr s] = cbind (cbind (json_next_token lc point cfg ?json) (\<lambda>(json, token).
        json_process_value (length s + 2) lc point cfg json token)) (\<lambda>(json, v).
      cbind (json_next_token lc point cfg json) (\<lambda>(json, token).
        if tk_type token \<noteq> T_END then Inl (json_throw_parse_error json ''the end'' token) else Inr v))"
    by (simp only: json_decode_def list.case lua.case guard if_False tmp(1) cbind_simps Let_def cbind_assoc case_prod_unfold)
  then show ?thesis unfolding t_def [symmetric] s_def [symmetric] 1(1) by (simp add: 2)
qed

lemma encode_text:
  assumes "plain_cfg cfg" and "json_proper (prints lc point cfg) j" and "int (json_depth j) \<le> cf_encode_max_depth cfg"
    and "json_room j < 2 ^ 30" and "cf_keep_buffer cfg \<noteq> 0 \<Longrightarrow> sb_usable (cf_buf cfg)"
  shows "\<exists>buf. json_encode lc point cfg [lua_of j] = (cfg\<lparr>cf_buf := buf\<rparr>, Inr (text_of (num_text lc point cfg) j))
    \<and> (cf_keep_buffer cfg \<noteq> 0 \<longrightarrow> sb_usable buf)"
proof -
  obtain buf where buf: "(if cf_keep_buffer cfg \<noteq> 0 then Inr (strbuf_reset (cf_buf cfg)) else strbuf_init 0) = Inr buf" "sb_holds buf []"
    using assms(5) strbuf_init_ok [of 0] by (cases "cf_keep_buffer cfg = 0") (auto simp: usable_reset)
  obtain json where json: "json_append_data lc point cfg 0 (lua_of j) buf = Inr json" "sb_holds json (text_of (num_text lc point cfg) j)"
    using data_text [OF assms(1) buf(2) _ assms(2), of 0] assms(3,4) by (auto simp: appends_def)
  have "json_encode lc point cfg [lua_of j]
      = (if cf_keep_buffer cfg \<noteq> 0 then cfg\<lparr>cf_buf := json\<rparr> else cfg, Inr (text_of (num_text lc point cfg) j))"
    by (simp add: json_encode_def buf(1) json(1) sb_string [OF json(2)])
  then show ?thesis using holds_usable [OF json(2)] by (cases "cf_keep_buffer cfg = 0") (auto intro: exI [of _ "cf_buf cfg"])
qed

lemma json_proper_mono: "json_proper P j \<Longrightarrow> (\<And>x. P x \<Longrightarrow> Q x) \<Longrightarrow> json_proper Q j"
  by (induction j) auto

text \<open>
  C2: Encoding the value of a document gives its text, and decoding the text gives the value: strings of any bytes, numbers that the
  C library reads back as it prints them, arrays and objects nested up to the limits, with the buffer kept or not.\<close>

lemma json_roundtrip:
  assumes "plain_cfg cfg" and "cf_keep_buffer cfg \<noteq> 0 \<Longrightarrow> sb_usable (cf_buf cfg)" and "strtod_ok lc"
    and "json_proper (readable lc point cfg) j" and "json_room j < 2 ^ 30"
    and "int (json_depth j) \<le> cf_encode_max_depth cfg" and "int (json_depth j) \<le> cf_decode_max_depth cfg"
  shows "\<exists>buf s. json_encode lc point cfg [lua_of j] = (cfg\<lparr>cf_buf := buf\<rparr>, Inr s) \<and> s = text_of (num_text lc point cfg) j
    \<and> json_decode lc point cfg [LStr s] = Inr (lua_of j)"
proof -
  have prints: "json_proper (prints lc point cfg) j" by (rule json_proper_mono [OF assms(4)]) (simp add: readable_def)
  have "length (text_of (num_text lc point cfg) j) \<le> json_room j"
    by (rule text_of_length [OF _ prints]) (use num_text_length in \<open>auto intro: less_imp_le\<close>)
  then have "json_decode lc point cfg [LStr (text_of (num_text lc point cfg) j @ [])] = Inr (lua_of j)"
    using assms(5) by (intro decode_text [OF assms(3,4,7)]) auto
  then show ?thesis using encode_text [OF assms(1) prints assms(6,5,2)] by auto
qed

text \<open>
  Decoding takes a string with a NUL in it for the document before the NUL, whatever comes behind: the length of the string is
  not looked at.\<close>

lemma json_decode_nul:
  assumes "strtod_ok lc" and "json_proper (readable lc point cfg) j" and "int (json_depth j) \<le> cf_decode_max_depth cfg"
    and "2 \<le> length (text_of (num_text lc point cfg) j)" and "length (text_of (num_text lc point cfg) j) + length rest < 2 ^ 29"
  shows "json_decode lc point cfg [LStr (text_of (num_text lc point cfg) j @ 0 # rest)] = Inr (lua_of j)"
  by (rule decode_text [OF assms(1-3)]) (use assms(4,5) in simp_all)

text \<open>A library that prints and reads one number, and a document with it.\<close>

definition half_libc :: libc where
  "half_libc = \<lparr>lc_snprintf = \<lambda>fmt x. cstr ''0.5'',
     lc_strtod = \<lambda>s. if take 3 s = cstr ''0.5'' then (0x3fe0000000000000, 3) else (0, 0)\<rparr>"

definition half_doc :: json where
  "half_doc = JObj [(cstr ''a'', JArr [JNum 0x3fe0000000000000, JNull, JBool False]), ([0, 34, 200], JStr [10, 7])]"

definition default_config :: "strbuf \<Rightarrow> json_config" where
  "default_config buf = \<lparr>cf_buf = buf, cf_sparse_convert = 0, cf_sparse_ratio = 2, cf_sparse_safe = 10, cf_encode_max_depth = 1000,
     cf_encode_invalid = 0, cf_precision = 14, cf_keep_buffer = 1, cf_empty_as_object = 1, cf_decode_invalid = 1, cf_decode_max_depth = 1000\<rparr>"

lemma create_config: "\<exists>buf. json_create_config = Inr (default_config buf) \<and> sb_holds buf []"
proof -
  obtain buf where "strbuf_init 0 = Inr buf" "sb_holds buf []" using strbuf_init_ok [of 0] by auto
  then show ?thesis
    by (simp add: json_create_config_def default_config_def DEFAULT_SPARSE_CONVERT_def DEFAULT_SPARSE_RATIO_def DEFAULT_SPARSE_SAFE_def
      DEFAULT_ENCODE_MAX_DEPTH_def DEFAULT_ENCODE_INVALID_NUMBERS_def DEFAULT_ENCODE_NUMBER_PRECISION_def DEFAULT_ENCODE_KEEP_BUFFER_def
      DEFAULT_ENCODE_EMPTY_TABLE_AS_OBJECT_def DEFAULT_DECODE_INVALID_NUMBERS_def DEFAULT_DECODE_MAX_DEPTH_def)
qed

lemma half_doc_ok:
  "strtod_ok half_libc" "json_proper (readable half_libc dot (default_config buf)) half_doc" "json_depth half_doc = 2"
    "text_of (num_text half_libc dot (default_config buf)) half_doc
      = cstr ''{\"a\":[0.5,null,false],\"'' @ [92] @ cstr ''u0000'' @ [92, 34, 200] @ cstr ''\":\"'' @ [92] @ cstr ''n'' @ [92] @ cstr ''u0007\"}''"
proof -
  have p: "set_number_format 14 = Some (cstr ''%.14g'')" by (simp add: set_number_format_def cstr_def)
  have n: "num_text half_libc dot (default_config buf) x = cstr ''0.5''" for x
    by (simp add: num_text_def p default_config_def half_libc_def dotted_def cstr_def dot_def)
  show "strtod_ok half_libc"
  proof -
    have "take 3 s = cstr ''0.5'' \<Longrightarrow> 3 \<le> length s" for s :: "byte list" by (cases "3 \<le> length s") (auto simp: cstr_def)
    then show ?thesis by (simp add: strtod_ok_def half_libc_def)
  qed
  have "readable half_libc dot (default_config buf) 0x3fe0000000000000"
    unfolding readable_def prints_def n
    by (simp add: p default_config_def half_libc_def cstr_def plain_number_def digit_def reads_back_def number_text_def
      FPCONV_G_FMT_BUFSIZE_def dot_def valid_number_character_def dbl_isinf_def dbl_isnan_def dbl_exponent_def)
  then show "json_proper (readable half_libc dot (default_config buf)) half_doc" by (simp add: half_doc_def cstr_def)
  show "json_depth half_doc = 2" by (simp add: half_doc_def)
  show "text_of (num_text half_libc dot (default_config buf)) half_doc
      = cstr ''{\"a\":[0.5,null,false],\"'' @ [92] @ cstr ''u0000'' @ [92, 34, 200] @ cstr ''\":\"'' @ [92] @ cstr ''n'' @ [92] @ cstr ''u0007\"}''"
    by (simp add: half_doc_def n string_text_def esc_def char2escape_def hex_digit_def cstr_def)
qed

lemma json_roundtrip_witness:
  "\<exists>cfg cfg' s. json_create_config = Inr cfg \<and> json_encode half_libc dot cfg [lua_of half_doc] = (cfg', Inr s)
    \<and> length s = 45 \<and> json_decode half_libc dot cfg [LStr s] = Inr (lua_of half_doc)"
proof -
  obtain buf where buf: "json_create_config = Inr (default_config buf)" "sb_holds buf []" using create_config by blast
  let ?cfg = "default_config buf"
  have c: "plain_cfg ?cfg" "cf_encode_max_depth ?cfg = 1000" "cf_decode_max_depth ?cfg = 1000" "sb_usable (cf_buf ?cfg)"
    using holds_usable [OF buf(2)] by (auto simp: plain_cfg_def default_config_def)
  have "json_room half_doc < 2 ^ 30" by (simp add: half_doc_def cstr_def)
  from json_roundtrip [OF c(1) c(4) half_doc_ok(1) half_doc_ok(2) this] obtain buf' s where
    s: "json_encode half_libc dot ?cfg [lua_of half_doc] = (?cfg\<lparr>cf_buf := buf'\<rparr>, Inr s)" "s = text_of (num_text half_libc dot ?cfg) half_doc"
      "json_decode half_libc dot ?cfg [LStr s] = Inr (lua_of half_doc)" using c(2,3) half_doc_ok(3) by auto
  have "length s = 45" unfolding s(2) half_doc_ok(4) by (simp add: cstr_def)
  then show ?thesis using buf(1) s(1,3) by blast
qed

lemma json_decode_nul_witness:
  "\<exists>cfg s. json_create_config = Inr cfg \<and> json_decode half_libc dot cfg [LStr (s @ [0, 125, 125])] = Inr (lua_of half_doc)"
proof -
  obtain buf where buf: "json_create_config = Inr (default_config buf)" using create_config by blast
  have l: "length (text_of (num_text half_libc dot (default_config buf)) half_doc) = 45" unfolding half_doc_ok(4) by (simp add: cstr_def)
  have "json_decode half_libc dot (default_config buf) [LStr (text_of (num_text half_libc dot (default_config buf)) half_doc @ 0 # [125, 125])]
      = Inr (lua_of half_doc)"
    by (rule json_decode_nul [OF half_doc_ok(1,2)]) (simp_all only: half_doc_ok(3) l, simp_all add: default_config_def)
  then show ?thesis using buf by (intro exI conjI)
qed

end
