(* ===== verification/JsonConfig.thy ===== *)
theory JsonConfig
  imports JsonRead
begin

section \<open>JSON: the state that the calls share\<close>

text \<open>
  The configuration keeps a buffer from call to call. Each setter, and each call of the encoder on any value, that
  comes to an end leaves settings in their ranges, and a buffer that can be written to again exactly when it is to be kept.
\<close>

definition cfg_ok :: "json_config \<Rightarrow> bool" where
  "cfg_ok cfg \<longleftrightarrow> cf_sparse_convert cfg \<in> {0, 1} \<and> cf_sparse_ratio cfg \<in> {0..INT_MAX} \<and> cf_sparse_safe cfg \<in> {0..INT_MAX}
     \<and> cf_encode_max_depth cfg \<in> {1..INT_MAX} \<and> cf_decode_max_depth cfg \<in> {1..INT_MAX} \<and> cf_encode_invalid cfg \<in> {0, 1, 2}
     \<and> cf_decode_invalid cfg \<in> {0, 1} \<and> cf_precision cfg \<in> {1..14} \<and> cf_empty_as_object cfg \<in> {0, 1}
     \<and> cf_keep_buffer cfg \<in> {0, 1}
     \<and> (if cf_keep_buffer cfg = 0 then sb_buf (cf_buf cfg) = None else sb_usable (cf_buf cfg))"

subsection \<open>Setters\<close>

lemma integer_option_range: "json_integer_option arg setting lo hi = Inr v \<Longrightarrow> setting \<in> {lo..hi} \<Longrightarrow> v \<in> {lo..hi}"
  by (auto simp: json_integer_option_def Let_def split: cfg_arg.splits if_splits)

lemma option_index_less: "option_index s xs = Some i \<Longrightarrow> i < length xs"
  by (induction xs arbitrary: i) (auto split: if_splits)

lemma enum_option_range:
  assumes "json_enum_option arg setting (Some os) 1 = Inr v"
  shows "v = setting \<or> v \<in> {0, 1} \<or> (\<exists>i < length os. v = int i)"
proof (cases arg)
  case (ABool b)
  then show ?thesis using assms by (cases b) (simp_all add: json_enum_option_def)
next
  case (AStr s)
  then obtain i where "option_index s os = Some i" "v = int i" using assms by (auto simp: json_enum_option_def split: option.splits)
  then show ?thesis using option_index_less by blast
qed (use assms in \<open>simp_all add: json_enum_option_def\<close>)

lemma bool_option_range: "json_enum_option arg setting None 1 = Inr v \<Longrightarrow> setting \<in> {0, 1} \<Longrightarrow> v \<in> {0, 1}"
proof -
  assume a: "json_enum_option arg setting None 1 = Inr v" and s: "setting \<in> {0, 1}"
  from a have "json_enum_option arg setting (Some bool_options) 1 = Inr v" by (simp add: json_enum_option_def)
  from enum_option_range [OF this] s show ?thesis by (auto simp: bool_options_def less_Suc_eq)
qed

lemma invalid_option_range:
  "json_enum_option arg setting (Some [cstr ''off'', cstr ''on'', cstr ''null'']) 1 = Inr v \<Longrightarrow> setting \<in> {0, 1, 2} \<Longrightarrow> v \<in> {0, 1, 2}"
  using enum_option_range [of arg setting "[cstr ''off'', cstr ''on'', cstr ''null'']" v] by (auto simp: less_Suc_eq)

text \<open>The fields one by one.\<close>

lemma cfg_ok_update:
  assumes "cfg_ok cfg"
  shows "v \<in> {0, 1} \<Longrightarrow> cfg_ok (cfg\<lparr>cf_sparse_convert := v\<rparr>)" "v \<in> {0..INT_MAX} \<Longrightarrow> cfg_ok (cfg\<lparr>cf_sparse_ratio := v\<rparr>)"
    "v \<in> {0..INT_MAX} \<Longrightarrow> cfg_ok (cfg\<lparr>cf_sparse_safe := v\<rparr>)" "v \<in> {1..INT_MAX} \<Longrightarrow> cfg_ok (cfg\<lparr>cf_encode_max_depth := v\<rparr>)"
    "v \<in> {1..INT_MAX} \<Longrightarrow> cfg_ok (cfg\<lparr>cf_decode_max_depth := v\<rparr>)" "v \<in> {0, 1, 2} \<Longrightarrow> cfg_ok (cfg\<lparr>cf_encode_invalid := v\<rparr>)"
    "v \<in> {0, 1} \<Longrightarrow> cfg_ok (cfg\<lparr>cf_decode_invalid := v\<rparr>)" "v \<in> {1..14} \<Longrightarrow> cfg_ok (cfg\<lparr>cf_precision := v\<rparr>)"
    "v \<in> {0, 1} \<Longrightarrow> cfg_ok (cfg\<lparr>cf_empty_as_object := v\<rparr>)"
  using assms by (simp_all add: cfg_ok_def)

lemma cfg_ok_ranges:
  assumes "cfg_ok cfg"
  shows "cf_sparse_convert cfg \<in> {0, 1}" "cf_sparse_ratio cfg \<in> {0..INT_MAX}" "cf_sparse_safe cfg \<in> {0..INT_MAX}"
    "cf_encode_max_depth cfg \<in> {1..INT_MAX}" "cf_decode_max_depth cfg \<in> {1..INT_MAX}" "cf_encode_invalid cfg \<in> {0, 1, 2}"
    "cf_decode_invalid cfg \<in> {0, 1}" "cf_precision cfg \<in> {1..14}" "cf_empty_as_object cfg \<in> {0, 1}" "cf_keep_buffer cfg \<in> {0, 1}"
  using assms by (simp_all add: cfg_ok_def)

lemma json_set_ok: "cfg_ok cfg \<Longrightarrow> (\<And>v. r = Inr v \<Longrightarrow> cfg_ok (upd v)) \<Longrightarrow> cfg_ok (snd (json_set r upd cfg))"
  by (cases r) (simp_all add: json_set_def)

lemmas option_ranges = integer_option_range bool_option_range invalid_option_range

lemma setters_ok:
  assumes "cfg_ok cfg"
  shows "cfg_ok (snd (json_cfg_encode_max_depth a cfg))"
    "cfg_ok (snd (json_cfg_decode_max_depth a cfg))" "cfg_ok (snd (json_cfg_encode_number_precision a cfg))"
    "cfg_ok (snd (json_cfg_encode_empty_table_as_object a cfg))" "cfg_ok (snd (json_cfg_encode_invalid_numbers a cfg))"
    "cfg_ok (snd (json_cfg_decode_invalid_numbers a cfg))"
  unfolding json_cfg_encode_max_depth_def json_cfg_decode_max_depth_def json_cfg_encode_number_precision_def
    json_cfg_encode_empty_table_as_object_def json_cfg_encode_invalid_numbers_def json_cfg_decode_invalid_numbers_def
  by (rule json_set_ok [OF assms], rule cfg_ok_update [OF assms], erule option_ranges, rule cfg_ok_ranges [OF assms])+

lemma sparse_array_ok:
  assumes "cfg_ok cfg"
  shows "cfg_ok (snd (json_cfg_encode_sparse_array a b c cfg))"
proof -
  have 1: "cfg_ok (snd (json_set (json_enum_option a (cf_sparse_convert cfg) None 1) (\<lambda>v. cfg\<lparr>cf_sparse_convert := v\<rparr>) cfg))" (is "cfg_ok (snd ?r)")
    by (rule json_set_ok [OF assms], rule cfg_ok_update [OF assms], erule option_ranges, rule cfg_ok_ranges [OF assms])
  have 2: "cfg_ok (snd (json_set (json_integer_option b (cf_sparse_ratio cfg) 0 INT_MAX) (\<lambda>v. cfg\<lparr>cf_sparse_ratio := v\<rparr>) cfg))"
    if "cfg_ok cfg" for cfg
    by (rule json_set_ok [OF that], rule cfg_ok_update [OF that], erule option_ranges, rule cfg_ok_ranges [OF that])
  have 3: "cfg_ok (snd (json_set (json_integer_option c (cf_sparse_safe cfg) 0 INT_MAX) (\<lambda>v. cfg\<lparr>cf_sparse_safe := v\<rparr>) cfg))"
    if "cfg_ok cfg" for cfg
    by (rule json_set_ok [OF that], rule cfg_ok_update [OF that], erule option_ranges, rule cfg_ok_ranges [OF that])
  obtain e cfg1 where c1: "?r = (e, cfg1)" by (cases ?r)
  then have ok1: "cfg_ok cfg1" using 1 by simp
  obtain e2 cfg2 where c2: "json_set (json_integer_option b (cf_sparse_ratio cfg1) 0 INT_MAX) (\<lambda>v. cfg1\<lparr>cf_sparse_ratio := v\<rparr>) cfg1 = (e2, cfg2)"
    by (cases "json_set (json_integer_option b (cf_sparse_ratio cfg1) 0 INT_MAX) (\<lambda>v. cfg1\<lparr>cf_sparse_ratio := v\<rparr>) cfg1")
  then have ok2: "cfg_ok cfg2" using 2 [OF ok1] by simp
  show ?thesis using ok1 ok2 3 [OF ok2] by (cases e; cases e2) (simp_all add: json_cfg_encode_sparse_array_def c1 c2)
qed

lemma keep_buffer_ok:
  assumes "cfg_ok cfg"
  shows "\<exists>e cfg'. json_cfg_encode_keep_buffer a cfg = Inr (e, cfg') \<and> cfg_ok cfg'"
proof (cases "json_enum_option a (cf_keep_buffer cfg) None 1")
  case (Inl e)
  then show ?thesis using assms by (simp add: json_cfg_encode_keep_buffer_def)
next
  case (Inr v)
  then have v: "v \<in> {0, 1}" using bool_option_range assms by (auto simp: cfg_ok_def)
  obtain buf where buf: "strbuf_init 0 = Inr buf" "sb_holds buf []" using strbuf_init_ok [of 0] by auto
  show ?thesis using Inr v assms buf(1) holds_usable [OF buf(2)]
    by (auto simp: json_cfg_encode_keep_buffer_def cfg_ok_def strbuf_free_def Let_def)
qed

lemma create_ok: "\<exists>cfg. json_create_config = Inr cfg \<and> cfg_ok cfg"
proof -
  obtain buf where "json_create_config = Inr (default_config buf)" "sb_holds buf []" using create_config by blast
  then show ?thesis by (intro exI [of _ "default_config buf"]) (auto simp: cfg_ok_def default_config_def INT_MAX_def intro: holds_usable)
qed

subsection \<open>The encoder on any value\<close>

text \<open>The buffer of an error of Lua has been freed, unless it is kept.\<close>

definition fine :: "json_config \<Rightarrow> ('a \<Rightarrow> bool) \<Rightarrow> 'a cres \<Rightarrow> bool" where
  "fine cfg P r \<longleftrightarrow> (case r of Inr x \<Rightarrow> P x | Inl Undef \<Rightarrow> True | Inl Died \<Rightarrow> False
     | Inl (Lua_error msg json) \<Rightarrow> if cf_keep_buffer cfg = 0 then sb_buf json = None else sb_usable json)"

lemma fine_simps [simp]: "fine cfg P (Inr x) = P x" "fine cfg P (Inl Undef)" "\<not> fine cfg P (Inl Died)"
  "fine cfg P (Inl (Lua_error msg json)) = (if cf_keep_buffer cfg = 0 then sb_buf json = None else sb_usable json)"
  by (simp_all add: fine_def)

lemma fine_either: "either P r \<Longrightarrow> (\<And>x. P x \<Longrightarrow> Q x) \<Longrightarrow> fine cfg Q r"
  by (cases r) auto

lemma fine_bind: "fine cfg P r \<Longrightarrow> (\<And>x. P x \<Longrightarrow> fine cfg Q (f x)) \<Longrightarrow> fine cfg Q (cbind r f)"
proof (cases r)
  case (Inl e)
  then show "fine cfg P r \<Longrightarrow> ?thesis" by (cases e) auto
qed auto

lemma fine_exception: "sb_usable json \<Longrightarrow> fine cfg P (Inl (json_encode_exception cfg json v reason))"
  by (simp add: json_encode_exception_def strbuf_free_def)

lemma fine_mem: "sb_usable json \<Longrightarrow> fine cfg sb_usable (strbuf_append_mem cs json)"
  by (rule fine_either [OF append_mem_either])

lemma fine_char: "sb_usable json \<Longrightarrow> fine cfg sb_usable (strbuf_append_char c json)"
  unfolding append_char by (rule fine_mem)

lemma fine_char_unsafe: "sb_usable json \<Longrightarrow> fine cfg sb_usable (strbuf_append_char_unsafe c json)"
  unfolding append_char_unsafe by (rule fine_either [OF append_mem_unsafe_either]) auto

lemma fine_escaped: "sb_usable json \<Longrightarrow> fine cfg sb_usable (append_escaped s json)"
proof (induction s arbitrary: json)
  case (Cons c s)
  have "fine cfg sb_usable (case char2escape c of Some escstr \<Rightarrow> strbuf_append_string escstr json | None \<Rightarrow> strbuf_append_char_unsafe c json)"
    using fine_char_unsafe [OF Cons.prems] fine_either [OF append_string_loop_either [OF Cons.prems refl]]
    by (simp add: strbuf_append_string_def split: option.split)
  then show ?case using Cons.IH by (auto intro: fine_bind)
qed simp

lemma fine_string: "sb_usable json \<Longrightarrow> fine cfg sb_usable (json_append_string s json)"
  unfolding json_append_string_def
  by (rule fine_bind, rule fine_either [OF ensure_usable], assumption, erule conjunct1)
    (intro fine_bind [OF fine_char_unsafe] fine_bind [OF fine_escaped] fine_char_unsafe)

lemma fine_number: "sb_usable json \<Longrightarrow> fine cfg sb_usable (json_append_number lc point cfg x json)"
proof -
  assume u: "sb_usable json"
  have "fine cfg sb_usable (cbind (strbuf_ensure_empty_length (int FPCONV_G_FMT_BUFSIZE) json) (\<lambda>json.
      case fpconv_g_fmt lc point x (cf_precision cfg) of None \<Rightarrow> Inl Undef
      | Some (out, len) \<Rightarrow> cbind (put_bytes (sb_length json) out json) (strbuf_extend_length (size_as_int len))))"
  proof (rule fine_bind, rule fine_either [OF ensure_usable [OF u]], erule conjunct1, goal_cases)
    case (1 json)
    then show ?case
      by (auto split: option.split intro: fine_bind [OF fine_either [OF put_either]] fine_either [OF extend_either])
  qed
  then show ?thesis by (simp add: json_append_number_def fine_exception [OF u] fine_mem [OF u])
qed

lemma fine_int: "fine cfg (\<lambda>_. True) (int_value n)"
  by (simp add: int_value_def)

lemma fine_bind_int: "(\<And>x. fine cfg Q (f x)) \<Longrightarrow> fine cfg Q (cbind (int_value n) f)"
  by (rule fine_bind [OF fine_int])

lemma fine_scan: "fine cfg (\<lambda>_. True) (scan_keys t mx items)"
proof (induction t arbitrary: mx items)
  case (Cons e t)
  show ?case using Cons.IH by (cases e) (auto split: lua.split option.split intro!: fine_bind_int)
qed simp

lemma fine_length:
  assumes "sb_usable json"
  shows "fine cfg (\<lambda>_. True) (lua_array_length cfg t json)"
  unfolding lua_array_length_def
proof (rule fine_bind [OF fine_scan], goal_cases)
  case (1 r)
  show ?case using fine_exception [OF assms, of cfg "\<lambda>_. True"] by (auto split: option.split intro!: fine_bind_int)
qed

lemma fine_depth: "sb_usable json \<Longrightarrow> fine cfg (\<lambda>_. True) (json_check_encode_depth cfg d json)"
  by (simp add: json_check_encode_depth_def strbuf_free_def)

lemma fine_array_loop:
  assumes "\<And>v json. v \<in> set vs \<Longrightarrow> sb_usable json \<Longrightarrow> fine cfg sb_usable (f v json)" and "sb_usable json"
  shows "fine cfg sb_usable (array_loop f comma vs json)"
  using assms
proof (induction vs arbitrary: comma json)
  case (Cons v vs)
  have "fine cfg sb_usable (if comma then strbuf_append_char 44 json else Inr json)" using fine_char Cons.prems(2) by simp
  then show ?case unfolding array_loop.simps
    by (rule fine_bind) (rule fine_bind, rule Cons.prems(1), simp_all add: Cons.IH Cons.prems(1))
qed simp

lemma fine_object_loop:
  assumes "\<And>key v json. (key, v) \<in> set t \<Longrightarrow> sb_usable json \<Longrightarrow> fine cfg sb_usable (f v json)" and "sb_usable json"
  shows "fine cfg sb_usable (object_loop lc point cfg f comma t json)"
  using assms
proof (induction t arbitrary: comma json)
  case (Cons e t)
  obtain key v where e: "e = (key, v)" by (cases e)
  have 1: "fine cfg sb_usable (if comma then strbuf_append_char 44 json else Inr json)" using fine_char Cons.prems(2) by simp
  have 2: "fine cfg sb_usable (case key of
      LNum k \<Rightarrow> cbind (strbuf_append_char 34 json) (\<lambda>json. cbind (json_append_number lc point cfg k json) (strbuf_append_mem [34, 58]))
    | LStr s \<Rightarrow> cbind (json_append_string s json) (strbuf_append_char 58)
    | _ \<Rightarrow> Inl (json_encode_exception cfg json key ''table key must be a number or string''))" if "sb_usable json" for json
    using that fine_exception [OF that]
    by (cases key) (auto intro: fine_bind [OF fine_char] fine_bind [OF fine_number] fine_bind [OF fine_string] fine_mem fine_char)
  have 3: "fine cfg sb_usable (f v' json)" if "(key', v') \<in> set t" "sb_usable json" for key' v' json
    by (rule Cons.prems(1) [of key']) (use that in simp_all)
  have 4: "fine cfg sb_usable (object_loop lc point cfg f True t json)" if "sb_usable json" for json by (rule Cons.IH [OF 3 that])
  have 5: "fine cfg sb_usable (f v json)" if "sb_usable json" for json by (rule Cons.prems(1) [of key, OF _ that]) (simp add: e)
  show ?case unfolding e object_loop.simps
    by (rule fine_bind [OF 1], rule fine_bind [OF 2], assumption, rule fine_bind [OF 5 4])
qed simp

lemma fine_data: "sb_usable json \<Longrightarrow> fine cfg sb_usable (json_append_data lc point cfg d v json)"
proof (induction v arbitrary: d json rule: measure_induct_rule [of size])
  case (less v)
  show ?case
  proof (cases v)
    case (LTable t)
    have arr: "fine cfg sb_usable (array_loop (json_append_data lc point cfg (d + 1)) False (array_items t len) json)" if "sb_usable json" for len json
      by (rule fine_array_loop [OF less.IH that]) (use lua_rawgeti_size LTable in \<open>auto simp: array_items_def\<close>)
    have obj: "fine cfg sb_usable (object_loop lc point cfg (json_append_data lc point cfg (d + 1)) False t json)" if "sb_usable json" for json
      by (rule fine_object_loop [OF less.IH that]) (use table_value_size LTable in auto)
    show ?thesis unfolding LTable json_append_data.simps Let_def
    proof (rule fine_bind [OF fine_depth [OF less.prems]], rule fine_bind [OF fine_length [OF less.prems]], goal_cases)
      case (1 u len)
      show ?case using less.prems by (auto intro!: fine_bind [OF fine_char] fine_bind [OF arr] fine_bind [OF obj] fine_char)
    qed
  qed (use less.prems in \<open>auto intro: fine_string fine_number fine_mem fine_exception\<close>)
qed

lemma encode_ok:
  assumes "cfg_ok cfg"
  shows "case json_encode lc point cfg args of (cfg', r) \<Rightarrow> cfg_ok cfg' \<and> r \<noteq> Inl Died
    \<and> (\<forall>msg json. r = Inl (Lua_error msg json) \<and> cf_keep_buffer cfg = 0 \<longrightarrow> sb_buf json = None)"
proof -
  have keep: "cf_keep_buffer cfg \<noteq> 0 \<Longrightarrow> sb_usable (cf_buf cfg)" "cf_keep_buffer cfg = 0 \<Longrightarrow> sb_buf (cf_buf cfg) = None"
    using assms by (simp_all add: cfg_ok_def)
  obtain buf where buf: "(if cf_keep_buffer cfg \<noteq> 0 then Inr (strbuf_reset (cf_buf cfg)) else strbuf_init 0) = Inr buf" "sb_usable buf"
    using keep(1) strbuf_init_ok [of 0] holds_usable by (cases "cf_keep_buffer cfg = 0") (auto simp: usable_reset strbuf_reset_def)
  show ?thesis
  proof (cases "\<exists>v. args = [v]")
    case True
    then obtain v where v: "args = [v]" by blast
    note f = fine_data [OF buf(2), of cfg lc point 0 v]
    have upd: "cfg_ok (cfg\<lparr>cf_buf := json\<rparr>)" if "sb_usable json" "cf_keep_buffer cfg \<noteq> 0" for json
      using assms that by (simp add: cfg_ok_def)
    have died: "strbuf_string json \<noteq> Inl Died" "strbuf_string json \<noteq> Inl (Lua_error msg b)" for json msg b
      by (auto simp: strbuf_string_def split: option.splits)
    show ?thesis
    proof (cases "json_append_data lc point cfg 0 v buf")
      case (Inl err)
      then show ?thesis using f assms upd by (cases err) (auto simp: json_encode_def v buf(1) Let_def)
    next
      case (Inr json)
      then show ?thesis using f assms upd died by (auto simp: json_encode_def v buf(1) Let_def)
    qed
  next
    case False
    then show ?thesis using assms keep(2) by (auto simp: json_encode_def Let_def split: list.split)
  qed
qed

text \<open>
  C16: In every call the settings stay in their ranges and the shared buffer can be written to again exactly when it is to be kept: the
  configuration at the start is so, every setter keeps it so, and so does encoding any value, which never ends the
  process and frees the buffer of an error that is not kept.\<close>

lemma json_config_valid:
  assumes "cfg_ok cfg"
  shows "(\<exists>cfg. json_create_config = Inr cfg \<and> cfg_ok cfg)
    \<and> cfg_ok (snd (json_cfg_encode_sparse_array a b c cfg)) \<and> cfg_ok (snd (json_cfg_encode_max_depth a cfg))
    \<and> cfg_ok (snd (json_cfg_decode_max_depth a cfg)) \<and> cfg_ok (snd (json_cfg_encode_number_precision a cfg))
    \<and> cfg_ok (snd (json_cfg_encode_empty_table_as_object a cfg)) \<and> cfg_ok (snd (json_cfg_encode_invalid_numbers a cfg))
    \<and> cfg_ok (snd (json_cfg_decode_invalid_numbers a cfg))
    \<and> (\<exists>e cfg'. json_cfg_encode_keep_buffer a cfg = Inr (e, cfg') \<and> cfg_ok cfg')
    \<and> (case json_encode lc point cfg args of (cfg', r) \<Rightarrow> cfg_ok cfg' \<and> r \<noteq> Inl Died
        \<and> (\<forall>msg json. r = Inl (Lua_error msg json) \<and> cf_keep_buffer cfg = 0 \<longrightarrow> sb_buf json = None))"
  by (intro conjI create_ok setters_ok sparse_array_ok keep_buffer_ok encode_ok assms)

lemma json_config_valid_witness:
  "\<exists>cfg. json_create_config = Inr cfg \<and> cfg_ok (snd (json_cfg_encode_number_precision (AInt 3) cfg))
    \<and> cfg_ok (fst (json_encode half_libc dot cfg [LTable [(LBool True, LNil)]]))"
proof -
  obtain cfg where c: "json_create_config = Inr cfg" "cfg_ok cfg" using create_ok by blast
  note valid = json_config_valid [OF c(2), of "AInt 3" ANil ANil half_libc dot "[LTable [(LBool True, LNil)]]"]
  have "cfg_ok (snd (json_cfg_encode_number_precision (AInt 3) cfg))" using valid by (elim conjE)
  moreover have "case json_encode half_libc dot cfg [LTable [(LBool True, LNil)]] of (cfg', r) \<Rightarrow> cfg_ok cfg' \<and> r \<noteq> Inl Died
      \<and> (\<forall>msg json. r = Inl (Lua_error msg json) \<and> cf_keep_buffer cfg = 0 \<longrightarrow> sb_buf json = None)" using valid by (elim conjE)
  ultimately show ?thesis using c(1) by (auto simp: case_prod_unfold)
qed

end
