(* ===== verification/Pattern.thy ===== *)
theory Pattern
  imports Unpack
begin

section \<open>Patterns: C structs as messages (pbc/src/pattern.c, pattern.h)\<close>

text \<open>
  A pattern says which fields of a message are kept at which offsets of a C struct, and with which C type. \<open>pbc_pattern_pack\<close>
  writes a struct as a message, \<open>pbc_pattern_unpack\<close> reads a message into a struct.

  A struct is its memory, for the numbers, with the unions and slices and the arrays at their offsets; they do not overlap with
  the numbers. What was never written at an offset is \<open>None\<close>. A \<open>pbc_slice\<close> has the layout of the string in \<open>union _pbc_var\<close>, and both are
  a \<open>pbc_var\<close> here. A local variable of type \<open>pbc_var\<close> is a struct with the union at offset 0. The struct is passed with the counter
  of blocks, which the arrays need.
\<close>

abbreviation CTYPE_INT32 :: int where "CTYPE_INT32 \<equiv> 1"
abbreviation CTYPE_INT64 :: int where "CTYPE_INT64 \<equiv> 2"
abbreviation CTYPE_DOUBLE :: int where "CTYPE_DOUBLE \<equiv> 3"
abbreviation CTYPE_FLOAT :: int where "CTYPE_FLOAT \<equiv> 4"
abbreviation CTYPE_BOOL :: int where "CTYPE_BOOL \<equiv> 6"
abbreviation CTYPE_INT8 :: int where "CTYPE_INT8 \<equiv> 7"
abbreviation CTYPE_INT16 :: int where "CTYPE_INT16 \<equiv> 8"
abbreviation CTYPE_ARRAY :: int where "CTYPE_ARRAY \<equiv> 9"
abbreviation CTYPE_VAR :: int where "CTYPE_VAR \<equiv> 10"
abbreviation CTYPE_PACKED :: int where "CTYPE_PACKED \<equiv> 11"

record pattern_field =
  pt_id :: int
  pt_offset :: int
  pt_ptype :: int
  pt_ctype :: int
  pt_label :: int
  pt_defv :: pbc_var

text \<open>\<open>count\<close> is the length of the list.\<close>

type_synonym pbc_pattern = "pattern_field list"

record cstruct =
  cs_mem :: "byte list"
  cs_var :: "int \<Rightarrow> pbc_var option"
  cs_array :: "int \<Rightarrow> pbc_var vararray option"

definition local_var :: cstruct where
  "local_var = \<lparr>cs_mem = [], cs_var = (\<lambda>_. None), cs_array = (\<lambda>_. None)\<rparr>"

subsection \<open>Members of a struct\<close>

text \<open>Numbers are stored with the low byte first.\<close>

definition le_bytes :: "nat \<Rightarrow> u64 \<Rightarrow> byte list" where
  "le_bytes n w = map (\<lambda>i. ucast (drop_bit (8 * i) w)) [0..<n]"

fun le_word :: "byte list \<Rightarrow> u64" where
  "le_word [] = 0"
| "le_word (b # bs) = ucast b OR push_bit 8 (le_word bs)"

definition put_mem :: "int \<Rightarrow> byte list \<Rightarrow> cstruct \<Rightarrow> cstruct option" where
  "put_mem off bs st =
     (if 0 \<le> off \<and> nat off + length bs \<le> length (cs_mem st)
      then Some (st\<lparr>cs_mem := take (nat off) (cs_mem st) @ bs @ drop (nat off + length bs) (cs_mem st)\<rparr>) else None)"

definition get_mem :: "nat \<Rightarrow> int \<Rightarrow> cstruct \<Rightarrow> u64 option" where
  "get_mem n off st =
     (if 0 \<le> off \<and> nat off + n \<le> length (cs_mem st) then Some (le_word (take n (drop (nat off) (cs_mem st)))) else None)"

definition put_var :: "int \<Rightarrow> pbc_var \<Rightarrow> cstruct \<Rightarrow> cstruct option" where
  "put_var off v st = Some (st\<lparr>cs_var := (cs_var st)(off \<mapsto> v)\<rparr>)"

definition put_array :: "int \<Rightarrow> pbc_var vararray \<Rightarrow> cstruct \<Rightarrow> cstruct" where
  "put_array off a st = st\<lparr>cs_array := (cs_array st)(off \<mapsto> a)\<rparr>"

subsection \<open>Default values\<close>

definition set_default_v :: "int \<Rightarrow> int \<Rightarrow> pbc_var \<Rightarrow> cstruct \<Rightarrow> cstruct option" where
  "set_default_v off ctype defv st =
     (if ctype = CTYPE_INT32 then do { lo \<leftarrow> var_low defv; put_mem off (le_bytes 4 (ucast lo)) st }
      else if ctype = CTYPE_INT64 then do { lo \<leftarrow> var_low defv; h \<leftarrow> var_hi defv; put_mem off (le_bytes 8 (u64_of_ll lo h)) st }
      else if ctype = CTYPE_DOUBLE then do { d \<leftarrow> var_real defv; put_mem off (le_bytes 8 d) st }
      else if ctype = CTYPE_FLOAT then do { d \<leftarrow> var_real defv; put_mem off (le_bytes 4 (ucast (d2f d))) st }
      else if ctype = CTYPE_BOOL then do { lo \<leftarrow> var_low defv; put_mem off [if lo \<noteq> 0 then 1 else 0] st }
      else if ctype = CTYPE_INT8 then do { lo \<leftarrow> var_low defv; put_mem off (le_bytes 1 (ucast lo)) st }
      else if ctype = CTYPE_INT16 then do { lo \<leftarrow> var_low defv; put_mem off (le_bytes 2 (ucast lo)) st }
      else if ctype = CTYPE_VAR then put_var off defv st
      else Some st)"

text \<open>Behind the branch for enums the default value is written again.\<close>

definition pattern_set_default :: "pattern_field \<Rightarrow> cstruct \<Rightarrow> cstruct option" where
  "pattern_set_default f st = do {
     st \<leftarrow>
       (if pt_ctype f = CTYPE_ARRAY \<or> pt_ctype f = CTYPE_PACKED then Some (put_array (pt_offset f) pbcA_open st)
        else if pt_ptype f = PTYPE_ENUM then do {
          i \<leftarrow> var_enum_id (pt_defv f);
          set_default_v (pt_offset f) (pt_ctype f) (VInt (of_int i) 0) st }
        else Some st);
     set_default_v (pt_offset f) (pt_ctype f) (pt_defv f) st }"

fun pbc_pattern_set_default :: "pbc_pattern \<Rightarrow> cstruct \<Rightarrow> cstruct option" where
  "pbc_pattern_set_default [] st = Some st"
| "pbc_pattern_set_default (f # pat) st = do { st \<leftarrow> pattern_set_default f st; pbc_pattern_set_default pat st }"

subsection \<open>Unpacking\<close>

text \<open>The index of the field with a number.\<close>

function bsearch_from :: "pbc_pattern \<Rightarrow> int \<Rightarrow> nat \<Rightarrow> nat \<Rightarrow> nat option option" where
  "bsearch_from pat i first past =
     (if first < past then
        let middle = (first + past) div 2
        in do {
          f \<leftarrow> rd pat middle;
          if i = pt_id f then Some (Some middle)
          else if i < pt_id f then bsearch_from pat i first middle
          else bsearch_from pat i (middle + 1) past }
      else Some None)"
  by pat_completeness auto
termination by (relation "measure (\<lambda>(pat, i, first, past). past - first)") auto

declare bsearch_from.simps [simp del]

definition bsearch_pattern :: "pbc_pattern \<Rightarrow> int \<Rightarrow> nat option option" where
  "bsearch_pattern pat i = bsearch_from pat i 0 (length pat)"

text \<open>The result is 0, or -1 for a C type that cannot keep the value.\<close>

definition write_real :: "int \<Rightarrow> u64 \<Rightarrow> int \<Rightarrow> cstruct \<Rightarrow> (cstruct \<times> int) option" where
  "write_real ctype v off st =
     (let done = map_option (\<lambda>st. (st, 0))
      in if ctype = CTYPE_DOUBLE then done (put_mem off (le_bytes 8 v) st)
         else if ctype = CTYPE_FLOAT then done (put_mem off (le_bytes 4 (ucast (d2f v))) st)
         else if ctype = CTYPE_VAR then done (put_var off (VReal v) st)
         else Some (st, - 1))"

text \<open>An \<open>int16_t\<close> is written through a pointer to \<open>uint8_t\<close>.\<close>

definition write_longlong :: "int \<Rightarrow> longlong \<Rightarrow> int \<Rightarrow> cstruct \<Rightarrow> (cstruct \<times> int) option" where
  "write_longlong ctype i off st =
     (let done = map_option (\<lambda>st. (st, 0))
      in if ctype = CTYPE_INT32 then done (put_mem off (le_bytes 4 (ucast (ll_low i))) st)
         else if ctype = CTYPE_INT64 then done (put_mem off (le_bytes 8 (u64_of_ll (ll_low i) (ll_hi i))) st)
         else if ctype = CTYPE_BOOL then done (put_mem off [if ll_low i \<noteq> 0 then 1 else 0] st)
         else if ctype = CTYPE_INT8 then done (put_mem off (le_bytes 1 (ucast (ll_low i))) st)
         else if ctype = CTYPE_INT16 then done (put_mem off (le_bytes 1 (ucast (ll_low i))) st)
         else if ctype = CTYPE_VAR then done (put_var off (VInt (ll_low i) (ll_hi i)) st)
         else Some (st, - 1))"

definition atom_ll :: "atom \<Rightarrow> longlong" where
  "atom_ll a = \<lparr>ll_low = a_low a, ll_hi = a_hi a\<rparr>"

definition write_integer :: "int \<Rightarrow> atom \<Rightarrow> int \<Rightarrow> cstruct \<Rightarrow> (cstruct \<times> int) option" where
  "write_integer ctype a off st = write_longlong ctype (atom_ll a) off st"

text \<open>The \<open>switch\<close> of \<open>unpack_field\<close>, with the pointer to the payload in the message.\<close>

definition payload :: "byte list \<Rightarrow> atom \<Rightarrow> pbc_var option" where
  "payload buffer a = do { p \<leftarrow> at_offset buffer (a_start a); n \<leftarrow> slice_len a; Some (VStr (Some p) n) }"

definition unpack_value :: "int \<Rightarrow> int \<Rightarrow> byte list \<Rightarrow> atom \<Rightarrow> int \<Rightarrow> cstruct \<Rightarrow> (cstruct \<times> int) option" where
  "unpack_value ctype ptype buffer a off st =
     (if ptype = PTYPE_DOUBLE then write_real ctype (read_double a) off st
      else if ptype = PTYPE_FLOAT then write_real ctype (f2d (read_float a)) off st
      else if ptype \<in> {PTYPE_INT64, PTYPE_UINT64, PTYPE_INT32, PTYPE_UINT32, PTYPE_ENUM, PTYPE_BOOL, PTYPE_FIXED32, PTYPE_SFIXED32,
                       PTYPE_FIXED64, PTYPE_SFIXED64} then write_integer ctype a off st
      else if ptype = PTYPE_SINT32 then write_longlong ctype (pbcV_dezigzag32 (atom_ll a)) off st
      else if ptype = PTYPE_SINT64 then
        (if wire_id a AND 7 \<noteq> WT_LEND then Some (st, - 1) else write_longlong ctype (pbcV_dezigzag64 (atom_ll a)) off st)
      else if ptype \<in> {PTYPE_MESSAGE, PTYPE_STRING, PTYPE_BYTES} then
        (if wire_id a AND 7 \<noteq> WT_LEND then Some (st, - 1)
         else do { v \<leftarrow> payload buffer a; st \<leftarrow> put_var off v st; Some (st, 0) })
      else Some (st, - 1))"

definition unpack_array :: "int \<Rightarrow> byte list \<Rightarrow> atom \<Rightarrow> int \<Rightarrow> mem \<times> cstruct \<Rightarrow> ((mem \<times> cstruct) \<times> int) option" where
  "unpack_array ptype buffer a off = (\<lambda>(m, st). do {
     (var, r) \<leftarrow> unpack_value CTYPE_VAR ptype buffer a 0 local_var;
     if r \<noteq> 0 then Some ((m, st), r)
     else do {
       v \<leftarrow> cs_var var 0;
       arr \<leftarrow> cs_array st off;
       (m, arr) \<leftarrow> pbcA_push arr v m;
       Some ((m, put_array off arr st), 0) } })"

definition unpack_field :: "int \<Rightarrow> int \<Rightarrow> byte list \<Rightarrow> atom \<Rightarrow> int \<Rightarrow> mem \<times> cstruct \<Rightarrow> ((mem \<times> cstruct) \<times> int) option" where
  "unpack_field ctype ptype buffer a off = (\<lambda>(m, st).
     if ctype = CTYPE_ARRAY then unpack_array ptype buffer a off (m, st)
     else if ctype = CTYPE_PACKED then do {
       data \<leftarrow> at_offset buffer (a_start a);
       n \<leftarrow> slice_len a;
       arr \<leftarrow> cs_array st off;
       ((m, arr), r) \<leftarrow> pbcP_unpack_packed (\<lambda>v. v) data n ptype (m, arr);
       Some ((m, put_array off arr st), r) }
     else do { (st, r) \<leftarrow> unpack_value ctype ptype buffer a off st; Some ((m, st), r) })"

definition is_array_field :: "pattern_field \<Rightarrow> bool" where
  "is_array_field f \<longleftrightarrow> pt_ctype f = CTYPE_ARRAY \<or> pt_ctype f = CTYPE_PACKED"

definition close_array :: "int \<Rightarrow> mem \<times> cstruct \<Rightarrow> (mem \<times> cstruct) option" where
  "close_array off = (\<lambda>(m, st). do {
     arr \<leftarrow> cs_array st off;
     let (m, arr) = pbcA_close arr m;
     Some (m, put_array off arr st) })"

fun pbc_pattern_close_arrays :: "pbc_pattern \<Rightarrow> mem \<times> cstruct \<Rightarrow> (mem \<times> cstruct) option" where
  "pbc_pattern_close_arrays [] s = Some s"
| "pbc_pattern_close_arrays (f # pat) s = do {
     s \<leftarrow> (if is_array_field f then close_array (pt_offset f) s else Some s);
     pbc_pattern_close_arrays pat s }"

text \<open>The loop over the atoms, with the fields that were seen; the last component is the index of the atom that failed, if one did.\<close>

fun unpack_atoms :: "pbc_pattern \<Rightarrow> byte list \<Rightarrow> atom list \<Rightarrow> nat \<Rightarrow> bool list \<Rightarrow> mem \<times> cstruct
    \<Rightarrow> ((mem \<times> cstruct) \<times> bool list \<times> nat option) option" where
  "unpack_atoms pat buffer [] i seen s = Some (s, seen, None)"
| "unpack_atoms pat buffer (a # as) i seen s = do {
     r \<leftarrow> bsearch_pattern pat (atom_id a);
     case r of
       None \<Rightarrow> unpack_atoms pat buffer as (i + 1) seen s
     | Some k \<Rightarrow> do {
         f \<leftarrow> rd pat k;
         s \<leftarrow> (if \<not> seen ! k \<and> is_array_field f then (case s of (m, st) \<Rightarrow> Some (m, put_array (pt_offset f) pbcA_open st)) else Some s);
         (s, r) \<leftarrow> unpack_field (pt_ctype f) (pt_ptype f) buffer a (pt_offset f) s;
         if r < 0 then Some (s, seen[k := True], Some i)
         else unpack_atoms pat buffer as (i + 1) (seen[k := True]) s } }"

text \<open>The fields with a flag, for the loops behind.\<close>

definition marked :: "bool \<Rightarrow> pbc_pattern \<Rightarrow> bool list \<Rightarrow> pbc_pattern" where
  "marked b pat seen = map fst (filter (\<lambda>(f, x). x = b) (zip pat seen))"

definition pbc_pattern_unpack :: "byte list \<Rightarrow> pbc_pattern \<Rightarrow> byte list option \<Rightarrow> int \<Rightarrow> 'pool pbc_env \<Rightarrow> mem \<times> cstruct
    \<Rightarrow> ('pool pbc_env \<times> (mem \<times> cstruct) \<times> int) option" where
  "pbc_pattern_unpack junk pat buffer sz env = (\<lambda>(m, st).
     if sz = 0 then do { st \<leftarrow> pbc_pattern_set_default pat st; Some (env, (m, st), 0) }
     else do {
       (r, ctx, g) \<leftarrow> pbcC_open junk buffer sz (mem_g m);
       let m = m\<lparr>mem_g := g\<rparr>;
       if r \<le> 0 then
         Some (env\<lparr>env_lasterror := ''Pattern unpack open context error''\<rparr>, (g_update (pbcC_close ctx) m, st), r - 1)
       else do {
         data \<leftarrow> buffer;
         ((m, st), seen, failed) \<leftarrow> unpack_atoms pat data (ctx_atoms ctx) 0 (replicate (length pat) False) (m, st);
         case failed of
           Some i \<Rightarrow> do {
             (m, st) \<leftarrow> pbc_pattern_close_arrays (marked True pat seen) (m, st);
             Some (env\<lparr>env_lasterror := ''Pattern unpack field error''\<rparr>, (g_update (pbcC_close ctx) m, st), - int i - 1) }
         | None \<Rightarrow> do {
             let m = g_update (pbcC_close ctx) m;
             st \<leftarrow> pbc_pattern_set_default (marked False pat seen) st;
             Some (env, (m, st), 0) } } })"

subsection \<open>Packing\<close>

text \<open>
  The slice that is written to: its memory, how far its pointer is in it, and the room that is left. Writing behind the memory is
  undefined.\<close>

record out_slice =
  os_buf :: "byte list"
  os_pos :: nat
  os_len :: int

definition os_put :: "byte list \<Rightarrow> out_slice \<Rightarrow> out_slice option" where
  "os_put bs s =
     (if os_pos s + length bs \<le> length (os_buf s)
      then Some \<lparr>os_buf = take (os_pos s) (os_buf s) @ bs @ drop (os_pos s + length bs) (os_buf s), os_pos = os_pos s + length bs,
                 os_len = os_len s - int (length bs)\<rparr> else None)"

definition put_result :: "byte list \<Rightarrow> out_slice \<Rightarrow> (out_slice \<times> int) option" where
  "put_result bs s = map_option (\<lambda>s. (s, int (length bs))) (os_put bs s)"

text \<open>With less than ten bytes left the number is written to \<open>temp\<close> first.\<close>

definition put_varint :: "byte list \<Rightarrow> out_slice \<Rightarrow> (out_slice \<times> int) option" where
  "put_varint e s =
     (if os_len s < 10 then (if int (length e) > os_len s then Some (s, - 1) else put_result e s) else put_result e s)"

definition pack_wiretype :: "u32 \<Rightarrow> out_slice \<Rightarrow> (out_slice \<times> int) option" where
  "pack_wiretype wt s = put_varint (pbcV_encode32 wt) s"

definition pack_varint64 :: "u64 \<Rightarrow> out_slice \<Rightarrow> (out_slice \<times> int) option" where
  "pack_varint64 i64 s = put_varint (pbcV_encode i64) s"

definition pack_sint32 :: "u32 \<Rightarrow> out_slice \<Rightarrow> (out_slice \<times> int) option" where
  "pack_sint32 v s = put_varint (pbcV_zigzag32 v) s"

definition pack_sint64 :: "u64 \<Rightarrow> out_slice \<Rightarrow> (out_slice \<times> int) option" where
  "pack_sint64 v s = put_varint (pbcV_zigzag v) s"

definition put_fixed :: "nat \<Rightarrow> byte list \<Rightarrow> out_slice \<Rightarrow> (out_slice \<times> int) option" where
  "put_fixed n bs s = (if os_len s < int n then Some (s, - 1) else put_result bs s)"

definition fix32_encode :: "u32 \<Rightarrow> byte list" where
  "fix32_encode v = [ucast v, ucast (drop_bit 8 v), ucast (drop_bit 16 v), ucast (drop_bit 24 v)]"

definition fix64_encode :: "u32 \<Rightarrow> u32 \<Rightarrow> byte list" where
  "fix64_encode lo h = fix32_encode lo @ fix32_encode h"

text \<open>The number a member keeps; a \<open>bool\<close> is 0 or 1.\<close>

definition member_var :: "int \<Rightarrow> cstruct \<Rightarrow> int \<Rightarrow> pbc_var option" where
  "member_var ctype st off =
     (if ctype = CTYPE_VAR then cs_var st off
      else if ctype = CTYPE_INT32 then map_option (\<lambda>v. VInt (ucast v) 0) (get_mem 4 off st)
      else if ctype = CTYPE_INT64 then map_option (\<lambda>v. VInt (ucast v) (ucast (drop_bit 32 v))) (get_mem 8 off st)
      else if ctype = CTYPE_INT16 then map_option (\<lambda>v. VInt (ucast v) 0) (get_mem 2 off st)
      else if ctype = CTYPE_INT8 then map_option (\<lambda>v. VInt (ucast v) 0) (get_mem 1 off st)
      else if ctype = CTYPE_BOOL then do { v \<leftarrow> get_mem 1 off st; if v \<le> 1 then Some (VInt (ucast v) 0) else None }
      else if ctype = CTYPE_DOUBLE then map_option VReal (get_mem 8 off st)
      else if ctype = CTYPE_FLOAT then map_option (\<lambda>v. VReal (f2d (ucast v))) (get_mem 4 off st)
      else None)"

definition pack_number :: "int \<Rightarrow> int \<Rightarrow> out_slice \<Rightarrow> cstruct \<Rightarrow> int \<Rightarrow> (out_slice \<times> int) option" where
  "pack_number ptype ctype s input off = do {
     var \<leftarrow> member_var ctype input off;
     if ptype \<in> {PTYPE_FIXED64, PTYPE_SFIXED64} then do { lo \<leftarrow> var_low var; h \<leftarrow> var_hi var; put_fixed 8 (fix64_encode lo h) s }
     else if ptype = PTYPE_DOUBLE then do { d \<leftarrow> var_real var; put_fixed 8 (double_encode d) s }
     else if ptype = PTYPE_FLOAT then do { d \<leftarrow> var_real var; put_fixed 4 (float_encode (d2f d)) s }
     else if ptype \<in> {PTYPE_FIXED32, PTYPE_SFIXED32} then do { lo \<leftarrow> var_low var; put_fixed 4 (fix32_encode lo) s }
     else if ptype \<in> {PTYPE_UINT64, PTYPE_INT64, PTYPE_INT32} then do { lo \<leftarrow> var_low var; h \<leftarrow> var_hi var; pack_varint64 (u64_of_ll lo h) s }
     else if ptype \<in> {PTYPE_UINT32, PTYPE_BOOL, PTYPE_ENUM} then do { lo \<leftarrow> var_low var; pack_wiretype lo s }
     else if ptype = PTYPE_SINT32 then do { lo \<leftarrow> var_low var; pack_sint32 lo s }
     else if ptype = PTYPE_SINT64 then do { lo \<leftarrow> var_low var; h \<leftarrow> var_hi var; pack_sint64 (u64_of_ll lo h) s }
     else Some (s, - 1) }"

text \<open>
  One operation after the other: a negative result of the first is that of both, otherwise the results are added.\<close>

definition and_then :: "(out_slice \<times> int) option \<Rightarrow> (out_slice \<Rightarrow> (out_slice \<times> int) option) \<Rightarrow> (out_slice \<times> int) option" where
  "and_then r next = do {
     (s, len) \<leftarrow> r;
     if len < 0 then Some (s, len)
     else do { (s, len2) \<leftarrow> next s; Some (s, if len2 < 0 then len2 else len + len2) } }"

definition wire_tag :: "int \<Rightarrow> u32 \<Rightarrow> u32" where
  "wire_tag i wiretype = push_bit 3 (of_int i) OR wiretype"

text \<open>\<open>memcpy\<close> of a slice; a negative length is undefined, and no bytes may come from NULL.\<close>

definition pack_slice :: "byte list option \<Rightarrow> int \<Rightarrow> out_slice \<Rightarrow> (out_slice \<times> int) option" where
  "pack_slice data n s =
     (if n > os_len s then Some (s, - 1)
      else if n = 0 then Some (s, 0)
      else do {
        bs \<leftarrow> data;
        if 0 < n \<and> nat n \<le> length bs then put_result (take (nat n) bs) s else None })"

definition wiretype_of :: "int \<Rightarrow> u32" where
  "wiretype_of ptype =
     (if ptype \<in> {PTYPE_FIXED64, PTYPE_SFIXED64, PTYPE_DOUBLE} then WT_BIT64
      else if ptype \<in> {PTYPE_FIXED32, PTYPE_SFIXED32, PTYPE_FLOAT} then WT_BIT32
      else if ptype \<in> {PTYPE_STRING, PTYPE_MESSAGE, PTYPE_BYTES} then WT_LEND
      else WT_VARINT)"

definition number_types :: "int set" where
  "number_types = {PTYPE_FIXED64, PTYPE_SFIXED64, PTYPE_DOUBLE, PTYPE_FIXED32, PTYPE_SFIXED32, PTYPE_FLOAT, PTYPE_UINT64, PTYPE_INT64,
     PTYPE_INT32, PTYPE_BOOL, PTYPE_UINT32, PTYPE_ENUM, PTYPE_SINT32, PTYPE_SINT64}"

text \<open>A string with a negative length \<open>-n\<close> ends in a NUL, of which and of what follows \<open>n\<close> bytes are taken too.\<close>

definition pack_field :: "pattern_field \<Rightarrow> int \<Rightarrow> out_slice \<Rightarrow> cstruct \<Rightarrow> int \<Rightarrow> (out_slice \<times> int) option" where
  "pack_field pf ctype s input off =
     (if pt_ptype pf \<in> number_types then
        and_then (pack_wiretype (wire_tag (pt_id pf) (wiretype_of (pt_ptype pf))) s)
          (\<lambda>s. pack_number (pt_ptype pf) ctype s input off)
      else if pt_ptype pf \<in> {PTYPE_STRING, PTYPE_MESSAGE, PTYPE_BYTES} then do {
        v \<leftarrow> cs_var input off;
        (data, n) \<leftarrow> var_str v;
        n \<leftarrow> (if pt_ptype pf = PTYPE_STRING \<and> n < 0
             then do { bs \<leftarrow> data; len \<leftarrow> c_strlen bs; Some (to_int32 (int len - n)) } else Some n);
        and_then (pack_wiretype (wire_tag (pt_id pf) WT_LEND) s)
          (\<lambda>s. and_then (pack_wiretype (of_int n) s) (pack_slice data n)) }
      else Some (s, 0))"

definition element :: "pbc_var vararray \<Rightarrow> nat \<Rightarrow> cstruct option" where
  "element arr i = do { v \<leftarrow> pbcA_index arr (int i); put_var 0 v local_var }"

text \<open>The loops over the elements from \<open>i\<close> on; the second one passes over the results.\<close>

fun pack_elements :: "pattern_field \<Rightarrow> pbc_var vararray \<Rightarrow> nat \<Rightarrow> nat \<Rightarrow> out_slice \<Rightarrow> (out_slice \<times> int) option" where
  "pack_elements pf arr i 0 s = Some (s, 0)"
| "pack_elements pf arr i (Suc n) s = do {
     e \<leftarrow> element arr i;
     and_then (pack_field pf CTYPE_VAR s e 0) (pack_elements pf arr (i + 1) n) }"

definition pack_repeated :: "pattern_field \<Rightarrow> out_slice \<Rightarrow> pbc_var vararray \<Rightarrow> (out_slice \<times> int) option" where
  "pack_repeated pf s arr = pack_elements pf arr 0 (pbc_array_size arr) s"

fun pack_fixed_elements :: "int \<Rightarrow> pbc_var vararray \<Rightarrow> nat \<Rightarrow> nat \<Rightarrow> out_slice \<Rightarrow> out_slice option" where
  "pack_fixed_elements ptype arr i 0 s = Some s"
| "pack_fixed_elements ptype arr i (Suc n) s = do {
     e \<leftarrow> element arr i;
     (s, _) \<leftarrow> pack_number ptype CTYPE_VAR s e 0;
     pack_fixed_elements ptype arr (i + 1) n s }"

definition pack_packed_fixed :: "pattern_field \<Rightarrow> int \<Rightarrow> out_slice \<Rightarrow> pbc_var vararray \<Rightarrow> (out_slice \<times> int) option" where
  "pack_packed_fixed pf width s arr =
     (let n = int (pbc_array_size arr)
      in do {
        (s, len) \<leftarrow> pack_wiretype (of_int (n * width)) s;
        if len < 0 then Some (s, len)
        else if os_len s - len < n * width then Some (s, - 1)
        else do {
          s \<leftarrow> pack_fixed_elements (pt_ptype pf) arr 0 (pbc_array_size arr) s;
          Some (s, len + n * width) } })"

fun pack_varint_elements :: "int \<Rightarrow> pbc_var vararray \<Rightarrow> nat \<Rightarrow> nat \<Rightarrow> out_slice \<Rightarrow> (out_slice \<times> int) option" where
  "pack_varint_elements ptype arr i 0 s = Some (s, 0)"
| "pack_varint_elements ptype arr i (Suc n) s = do {
     e \<leftarrow> element arr i;
     (s, len) \<leftarrow> pack_number ptype CTYPE_VAR s e 0;
     if len < 0 then Some (s, - 1)
     else do { (s, rest) \<leftarrow> pack_varint_elements ptype arr (i + 1) n s; Some (s, if rest < 0 then - 1 else len + rest) } }"

text \<open>
  The length in front is not known before the numbers are written: room is left for the number of elements, and the payload is moved
  when its length takes more bytes. The copy \<open>t\<close> of the slice writes to the same memory.\<close>

definition pattern_pack_packed_varint :: "pattern_field \<Rightarrow> out_slice \<Rightarrow> pbc_var vararray \<Rightarrow> (out_slice \<times> int) option" where
  "pattern_pack_packed_varint pf s arr =
     (let n = pbc_array_size arr
      in do {
        (t, estimate_len) \<leftarrow> pack_wiretype (of_nat n) s;
        if estimate_len < 0 then Some (s\<lparr>os_buf := os_buf t\<rparr>, - 1)
        else do {
          (t, packed_len) \<leftarrow> pack_varint_elements (pt_ptype pf) arr 0 n t;
          if packed_len < 0 then Some (s\<lparr>os_buf := os_buf t\<rparr>, - 1)
          else if packed_len = int n then Some (t, packed_len + estimate_len)
          else do {
            let header = pbcV_encode32 (of_int packed_len);
            let header_len = int (length header);
            let first = os_pos s;
            if header_len = estimate_len then do {
              h \<leftarrow> os_put header (s\<lparr>os_buf := os_buf t\<rparr>);
              Some (t\<lparr>os_buf := os_buf h\<rparr>, packed_len + estimate_len) }
            else if header_len + packed_len > os_len s then Some (s\<lparr>os_buf := os_buf t\<rparr>, - 1)
            else do {
              let moved = take (nat packed_len) (drop (first + nat estimate_len) (os_buf t));
              s \<leftarrow> os_put (header @ moved) (s\<lparr>os_buf := os_buf t\<rparr>);
              Some (s, packed_len + header_len) } } } })"

definition pattern_pack_packed :: "pattern_field \<Rightarrow> out_slice \<Rightarrow> pbc_var vararray \<Rightarrow> (out_slice \<times> int) option" where
  "pattern_pack_packed pf s arr =
     (if pbc_array_size arr = 0 then Some (s, 0)
      else and_then (pack_wiretype (wire_tag (pt_id pf) WT_LEND) s) (\<lambda>s'.
        if pt_ptype pf \<in> {PTYPE_FIXED64, PTYPE_SFIXED64, PTYPE_DOUBLE} then pack_packed_fixed pf 8 s' arr
        else if pt_ptype pf \<in> {PTYPE_FIXED32, PTYPE_SFIXED32, PTYPE_FLOAT} then pack_packed_fixed pf 4 s' arr
        else if pt_ptype pf \<in> number_types then pattern_pack_packed_varint pf s' arr
        else Some (s', int (os_pos s') - int (os_pos s))))"

text \<open>Whether a member has the default value; \<open>memcmp\<close> and \<open>strcmp\<close> need the memory of both.\<close>

definition same_bytes :: "byte list option \<Rightarrow> byte list option \<Rightarrow> nat \<Rightarrow> bool option" where
  "same_bytes p q n = do {
     p \<leftarrow> p; q \<leftarrow> q;
     if n \<le> length p \<and> n \<le> length q then Some (take n p = take n q) else None }"

definition same_string :: "byte list option \<Rightarrow> byte list option \<Rightarrow> bool option" where
  "same_string p q = do { p \<leftarrow> p; q \<leftarrow> q; s \<leftarrow> c_string p; t \<leftarrow> c_string q; Some (s = t) }"

definition flt_eq :: "u32 \<Rightarrow> u32 \<Rightarrow> bool" where
  "flt_eq a b \<longleftrightarrow> dbl_eq (f2d a) (f2d b)"

definition is_default :: "pattern_field \<Rightarrow> cstruct \<Rightarrow> int \<Rightarrow> bool option" where
  "is_default pf st off =
     (let c = pt_ctype pf; defv = pt_defv pf
      in if c = CTYPE_INT64 then do { lo \<leftarrow> var_low defv; h \<leftarrow> var_hi defv; v \<leftarrow> get_mem 8 off st; Some (u64_of_ll lo h = v) }
         else if c = CTYPE_DOUBLE then do { d \<leftarrow> var_real defv; v \<leftarrow> get_mem 8 off st; Some (dbl_eq d v) }
         else if c = CTYPE_FLOAT then do { d \<leftarrow> var_real defv; v \<leftarrow> get_mem 4 off st; Some (flt_eq (d2f d) (ucast v)) }
         else if c = CTYPE_INT32 then do { lo \<leftarrow> var_low defv; v \<leftarrow> get_mem 4 off st; Some (ucast lo = v) }
         else if c = CTYPE_INT16 then do { lo \<leftarrow> var_low defv; v \<leftarrow> get_mem 2 off st; Some (take_bit 16 (ucast lo) = v) }
         else if c = CTYPE_INT8 then do { lo \<leftarrow> var_low defv; v \<leftarrow> get_mem 1 off st; Some (take_bit 8 (ucast lo) = v) }
         else if c = CTYPE_BOOL then do {
           lo \<leftarrow> var_low defv;
           v \<leftarrow> get_mem 1 off st;
           if v \<le> 1 then Some (v = (if lo \<noteq> 0 then 1 else 0)) else None }
         else if pt_ptype pf = PTYPE_STRING then do {
           v \<leftarrow> cs_var st off;
           (data, len) \<leftarrow> var_str v;
           (str, n) \<leftarrow> var_str defv;
           if data = None then do { str \<leftarrow> str; b \<leftarrow> rd str 0; Some (b = 0) }
           else if len \<le> 0 then same_string str data
           else if len = n then same_bytes str data (nat len)
           else Some False }
         else if pt_ptype pf = PTYPE_BYTES then do {
           v \<leftarrow> cs_var st off;
           (data, len) \<leftarrow> var_str v;
           Some (data = None) }
         else Some False)"

definition pack_member :: "pattern_field \<Rightarrow> cstruct \<Rightarrow> out_slice \<Rightarrow> (out_slice \<times> int) option" where
  "pack_member pf input s =
     (let off = pt_offset pf
      in if pt_label pf = LABEL_OPTIONAL then do {
           d \<leftarrow> is_default pf input off;
           if d then Some (s, 0) else pack_field pf (pt_ctype pf) s input off }
         else if pt_label pf = LABEL_REQUIRED then pack_field pf (pt_ctype pf) s input off
         else if pt_label pf = LABEL_REPEATED then do { arr \<leftarrow> cs_array input off; pack_repeated pf s arr }
         else if pt_label pf = LABEL_PACKED then do { arr \<leftarrow> cs_array input off; pattern_pack_packed pf s arr }
         else Some (s, 0))"

fun pack_members :: "pbc_pattern \<Rightarrow> cstruct \<Rightarrow> out_slice \<Rightarrow> (out_slice \<times> int) option" where
  "pack_members [] input s = Some (s, 0)"
| "pack_members (pf # pat) input s = do {
     (s, len) \<leftarrow> pack_member pf input s;
     if len < 0 then Some (s, len) else pack_members pat input s }"

text \<open>The memory, the length of the slice and the result: the bytes that were not used, or a negative number.\<close>

definition pbc_pattern_pack :: "pbc_pattern \<Rightarrow> cstruct \<Rightarrow> byte list \<Rightarrow> int \<Rightarrow> (byte list \<times> int \<times> int) option" where
  "pbc_pattern_pack pat input buf len = do {
     (s, r) \<leftarrow> pack_members pat input \<lparr>os_buf = buf, os_pos = 0, os_len = len\<rparr>;
     if r < 0 then Some (os_buf s, len, r) else Some (os_buf s, int (os_pos s), len - int (os_pos s)) }"

subsection \<open>Making a pattern\<close>

text \<open>A character of a string, NUL at its end.\<close>

definition char_at :: "cstring \<Rightarrow> nat \<Rightarrow> byte option" where
  "char_at s i = rd (s @ [0]) i"

definition ctype_of :: "cstring \<Rightarrow> int option" where
  "ctype_of s = do {
     c0 \<leftarrow> char_at s 0;
     if c0 \<noteq> 37 then Some (- 1)
     else do {
       c \<leftarrow> char_at s 1;
       Some (if c = 102 then CTYPE_FLOAT else if c = 70 then CTYPE_DOUBLE else if c = 100 then CTYPE_INT32
             else if c = 68 then CTYPE_INT64 else if c = 98 then CTYPE_BOOL else if c = 104 then CTYPE_INT16
             else if c = 99 then CTYPE_INT8 else if c = 115 then CTYPE_VAR else if c = 97 then CTYPE_ARRAY else - 1) } }"

definition ctype_size :: "cstring \<Rightarrow> int option" where
  "ctype_size s = do {
     c \<leftarrow> char_at s 1;
     Some (if c = 102 then 4 else if c = 70 then 8 else if c = 100 then 4 else if c = 68 then 8 else if c = 98 then 1
           else if c = 104 then 2 else if c = 99 then 1 else if c = 115 then 16 else if c = 97 then 64 else 0) }"

definition is_blank :: "byte \<Rightarrow> bool" where
  "is_blank c \<longleftrightarrow> c = 32 \<or> c = 9 \<or> c = 10 \<or> c = 13"

text \<open>The word that is copied, and the rest.\<close>

definition copy_string :: "cstring \<Rightarrow> cstring \<times> cstring" where
  "copy_string format =
     (let format = dropWhile is_blank format
      in (takeWhile (\<lambda>c. \<not> is_blank c) format, dropWhile (\<lambda>c. \<not> is_blank c) format))"

lemma copy_string_shorter:
  "length (snd (copy_string format)) \<le> length format"
  "format \<noteq> [] \<Longrightarrow> length (snd (copy_string format)) < length format"
proof -
  show *: "length (snd (copy_string format)) \<le> length format"
    using length_dropWhile_le [of is_blank format] length_dropWhile_le [of "\<lambda>c. \<not> is_blank c" "dropWhile is_blank format"]
    by (simp add: copy_string_def Let_def)
  assume "format \<noteq> []"
  show "length (snd (copy_string format)) < length format"
  proof (cases format)
    case (Cons c cs)
    then show ?thesis
      using length_dropWhile_le [of is_blank cs] length_dropWhile_le [of "\<lambda>c. \<not> is_blank c" "dropWhile is_blank cs"]
        length_dropWhile_le [of "\<lambda>c. \<not> is_blank c" cs]
      by (simp add: copy_string_def Let_def)
  qed (use \<open>format \<noteq> []\<close> in simp)
qed

text \<open>The number of fields and the words that are in \<open>temp\<close>.\<close>

function scan_pattern :: "cstring \<Rightarrow> nat \<Rightarrow> cstring list \<Rightarrow> nat \<times> cstring list" where
  "scan_pattern format n ws =
     (let (w1, format1) = copy_string format; (w2, format2) = copy_string format1
      in if format1 = [] then (0, ws @ [w1])
         else if format2 = [] then (n + 1, ws @ [w1, w2])
         else scan_pattern format2 (n + 1) (ws @ [w1, w2]))"
  by pat_completeness auto

termination
proof (relation "measure (\<lambda>(format, n, ws). length format)")
  fix format w1 format1 w2 format2 :: cstring and n :: nat and ws x y
  assume 1: "x = copy_string format" "(w1, format1) = x" and 2: "y = copy_string format1" "(w2, format2) = y"
    and 3: "format1 \<noteq> []" "format2 \<noteq> []"
  have "length format1 \<le> length format" using 1 copy_string_shorter(1) [of format] by (metis snd_conv)
  moreover have "length format2 < length format1" using 2 3 copy_string_shorter(2) [of format1] by (metis snd_conv)
  ultimately show "((format2, n + 1, ws @ [w1, w2]), format, n, ws) \<in> measure (\<lambda>(format, n, ws). length format)" by simp
qed simp

declare scan_pattern.simps [simp del]

definition check_ctype :: "pbc_field \<Rightarrow> pattern_field \<Rightarrow> bool" where
  "check_ctype field f =
     (let c = pt_ctype f; t = pf_type field
      in if pf_label field = LABEL_REPEATED then c \<noteq> CTYPE_ARRAY
         else if pf_label field = LABEL_PACKED then c \<noteq> CTYPE_PACKED
         else if t \<in> {PTYPE_STRING, PTYPE_MESSAGE, PTYPE_BYTES} then c \<noteq> CTYPE_VAR
         else if t \<in> {PTYPE_FLOAT, PTYPE_DOUBLE} then \<not> (c = CTYPE_DOUBLE \<or> c = CTYPE_FLOAT)
         else if t = PTYPE_ENUM then \<not> (c = CTYPE_INT8 \<or> c = CTYPE_INT8 \<or> c = CTYPE_INT16 \<or> c = CTYPE_INT32 \<or> c = CTYPE_INT64)
         else c \<in> {CTYPE_VAR, CTYPE_ARRAY, CTYPE_PACKED, CTYPE_DOUBLE, CTYPE_FLOAT})"

definition zero_field :: pattern_field where
  "zero_field = \<lparr>pt_id = 0, pt_offset = 0, pt_ptype = 0, pt_ctype = 0, pt_label = 0, pt_defv = VNull\<rparr>"

definition pbcP_new :: "nat \<Rightarrow> mem \<Rightarrow> mem \<times> pbc_pattern" where
  "pbcP_new n m = (g_update pbcM_malloc m, replicate n zero_field)"

text \<open>
  The loop over the words, two for each field. Where \<open>pbc_pattern_new\<close> takes the offsets from its arguments, the form with \<open>@\<close>
  counts them, and the error messages differ by that character: the offsets are \<open>Listed\<close>, or \<open>Counted\<close> up to the next one. The result is
  an error message or the fields.\<close>

datatype offsets = Listed "int list" | Counted int

fun take_offset :: "offsets \<Rightarrow> (int \<times> offsets) option" where
  "take_offset (Listed []) = None"
| "take_offset (Listed (i # is)) = Some (i, Listed is)"
| "take_offset (Counted i) = Some (i, Counted i)"

fun add_size :: "offsets \<Rightarrow> cstring \<Rightarrow> offsets option" where
  "add_size (Listed is) w = Some (Listed is)"
| "add_size (Counted i) w = map_option (\<lambda>n. Counted (i + n)) (ctype_size w)"

definition pattern_error :: "offsets \<Rightarrow> string \<Rightarrow> string" where
  "pattern_error offs msg = (case offs of Listed _ \<Rightarrow> ''Pattern new '' @ msg | Counted _ \<Rightarrow> ''Pattern @new '' @ msg)"

definition new_field :: "pbc_field \<Rightarrow> int \<Rightarrow> int \<Rightarrow> pattern_field" where
  "new_field field off ctype =
     \<lparr>pt_id = pf_id field, pt_offset = off, pt_ptype = pf_type field,
      pt_ctype = (if ctype = CTYPE_ARRAY \<and> pf_label field = LABEL_PACKED then CTYPE_PACKED else ctype),
      pt_label = pf_label field, pt_defv = pf_default field\<rparr>"

fun new_fields :: "'pool pbc_env \<Rightarrow> pbc_message \<Rightarrow> nat \<Rightarrow> cstring list \<Rightarrow> offsets \<Rightarrow> (string + pbc_pattern) option" where
  "new_fields p msg 0 ws offs = Some (Inr [])"
| "new_fields p msg (Suc n) (w1 # w2 # ws) offs = do {
     r \<leftarrow> pbcM_sp_query (Some (pm_name msg)) w1;
     case r of None \<Rightarrow> Some (Inl (pattern_error offs ''query none exist field''))
     | Some fi \<Rightarrow> do {
         field \<leftarrow> rd (st_fields p) fi;
         (off, offs) \<leftarrow> take_offset offs;
         ctype \<leftarrow> ctype_of w2;
         if ctype < 0 then Some (Inl (pattern_error offs ''use an invalid ctype''))
         else do {
           let f = new_field field off ctype;
           if check_ctype field f then Some (Inl (pattern_error offs ''ctype check error''))
           else do {
             offs \<leftarrow> add_size offs w2;
             rest \<leftarrow> new_fields p msg n ws offs;
             Some (case rest of Inl e \<Rightarrow> Inl e | Inr fs \<Rightarrow> Inr (f # fs)) } } } }"
| "new_fields p msg (Suc n) ws offs = None"

text \<open>\<open>qsort\<close>, with which fields of the same number may come in any order.\<close>

definition sort_fields :: "pbc_pattern \<Rightarrow> pbc_pattern" where
  "sort_fields fs = sort_key pt_id fs"

definition finish_pattern :: "'pool pbc_env \<Rightarrow> mem \<Rightarrow> pbc_pattern \<Rightarrow> string + pbc_pattern \<Rightarrow> 'pool pbc_env \<times> mem \<times> pbc_pattern option" where
  "finish_pattern p m pat r =
     (case r of
        Inl e \<Rightarrow> (p\<lparr>env_lasterror := e\<rparr>, g_update (pbcM_free (Some pat)) m, None)
      | Inr fs \<Rightarrow> (p, m, Some (sort_fields fs)))"

definition pattern_new :: "'pool pbc_env \<Rightarrow> pbc_message \<Rightarrow> cstring \<Rightarrow> offsets \<Rightarrow> mem \<Rightarrow> ('pool pbc_env \<times> mem \<times> pbc_pattern option) option" where
  "pattern_new p msg format offs m =
     (let (n, ws) = scan_pattern format 0 [];
          (m, pat) = pbcP_new n m
      in do { r \<leftarrow> new_fields p msg n ws offs; Some (finish_pattern p m pat r) })"

definition pbc_pattern_new :: "'pool pbc_env \<Rightarrow> cstring \<Rightarrow> cstring \<Rightarrow> int list \<Rightarrow> mem \<Rightarrow> ('pool pbc_env \<times> mem \<times> pbc_pattern option) option" where
  "pbc_pattern_new p name format args m = do {
     r \<leftarrow> pbcP_get_message p name;
     case r of None \<Rightarrow> Some (p\<lparr>env_lasterror := ''Pattern new can't find proto''\<rparr>, m, None)
     | Some t \<Rightarrow> do {
         msg \<leftarrow> rd (st_messages p) t;
         c \<leftarrow> char_at format 0;
         if c = 64 then pattern_new p msg (drop 1 format) (Counted 0) m
         else pattern_new p msg format (Listed args) m } }"

definition pbc_pattern_delete :: "pbc_pattern option \<Rightarrow> mem \<Rightarrow> mem" where
  "pbc_pattern_delete pat m = g_update (pbcM_free pat) m"

end
