(* ===== verification/PatternRound.thy ===== *)
theory PatternRound
  imports Pattern Wmessage
begin

section \<open>Packing a struct and unpacking it again\<close>

text \<open>
  The theory shows that what \<open>pbc_pattern_pack\<close> writes for the numbers and strings of a struct comes back with \<open>pbc_pattern_unpack\<close>,
  values that were left out as defaults included, and what the search, the scanner of formats and the two functions do otherwise.
\<close>

subsection \<open>Numbers in memory\<close>

lemma length_le_bytes [simp]: "length (le_bytes n w) = n"
  by (simp add: le_bytes_def)

lemma le_bytes_Suc: "le_bytes (Suc n) w = ucast w # le_bytes n (drop_bit 8 w)"
  by (simp add: le_bytes_def upt_conv_Cons map_Suc_upt [symmetric] add.commute del: upt_Suc)

lemma bit_le_word: "bit (le_word bs) i \<Longrightarrow> i < 8 * length bs"
proof (induction bs arbitrary: i)
  case (Cons b bs)
  show ?case
  proof (cases "i < 8")
    case False
    then have "\<not> bit (ucast b :: u64) i" using bit_imp_le_length [of b i] by (auto simp: bit_ucast_iff)
    then have "bit (le_word bs) (i - 8)" using Cons.prems by (auto simp: bit_simps)
    then show ?thesis using Cons.IH [of "i - 8"] False by simp
  qed simp
qed simp

lemma take_le_word: "8 * length bs \<le> k \<Longrightarrow> take_bit k (le_word bs) = le_word bs"
  by (rule bit_eqI) (auto simp: bit_take_bit_iff dest: bit_le_word)

lemma le_bytes_word: "length bs \<le> 8 \<Longrightarrow> le_bytes (length bs) (le_word bs) = bs"
proof (induction bs)
  case (Cons b bs)
  have "ucast (ucast b OR push_bit 8 (le_word bs) :: u64) = b"
    by (rule bit_word_eqI) (auto simp: bit_simps)
  moreover have "drop_bit 8 (ucast b OR push_bit 8 (le_word bs) :: u64) = le_word bs"
  proof (rule bit_word_eqI)
    fix i assume "i < LENGTH(64)"
    have "\<not> bit b (i + 8)" using bit_imp_le_length [of b "i + 8"] by auto
    moreover have "bit (le_word bs) i \<Longrightarrow> i + 8 < 64" using bit_le_word [of bs i] Cons.prems by simp
    ultimately show "bit (drop_bit 8 (ucast b OR push_bit 8 (le_word bs) :: u64)) i \<longleftrightarrow> bit (le_word bs) i"
      by (auto simp: bit_simps add.commute)
  qed
  ultimately show ?case using Cons by (simp add: le_bytes_Suc)
qed (simp add: le_bytes_def)

lemma get_mem_word: "get_mem n off st = Some x \<Longrightarrow> n \<le> 8 \<Longrightarrow> le_word (le_bytes n x) = x \<and> take_bit (8 * n) x = x"
  using le_bytes_word [of "take n (drop (nat off) (cs_mem st))"] take_le_word [of "take n (drop (nat off) (cs_mem st))" "8 * n"]
  by (auto simp: get_mem_def split: if_splits)

lemma get_put_mem:
  assumes "put_mem off bs st = Some st'"
  shows "get_mem (length bs) off st' = Some (le_word bs)" and "length (cs_mem st') = length (cs_mem st)"
    and "cs_var st' = cs_var st" and "cs_array st' = cs_array st"
  using assms by (auto simp: put_mem_def get_mem_def split: if_splits)

lemma get_put_apart:
  assumes "put_mem off bs st = Some st'" and "0 \<le> off2" and "off2 + int n \<le> off \<or> off + int (length bs) \<le> off2"
  shows "get_mem n off2 st' = get_mem n off2 st"
proof -
  have off: "0 \<le> off" "nat off + length bs \<le> length (cs_mem st)"
    and st': "st' = st\<lparr>cs_mem := take (nat off) (cs_mem st) @ bs @ drop (nat off + length bs) (cs_mem st)\<rparr>"
    using assms(1) by (auto simp: put_mem_def split: if_splits)
  have "take n (drop (nat off2) (take (nat off) (cs_mem st) @ bs @ drop (nat off + length bs) (cs_mem st))) =
      take n (drop (nat off2) (cs_mem st))"
    if "nat off2 + n \<le> length (cs_mem st)"
  proof (cases "off2 + int n \<le> off")
    case True
    then have "nat off2 + n \<le> nat off" using assms(2) off(1) by linarith
    then show ?thesis using off(2) by (simp add: drop_take)
  next
    case False
    then have *: "nat off + length bs \<le> nat off2" using assms(2,3) off(1) by linarith
    then show ?thesis using off(2) by (simp add: drop_append)
  qed
  then show ?thesis using off assms(2) by (simp add: st' get_mem_def)
qed

lemma put_mem_ok: "0 \<le> off \<Longrightarrow> off + int (length bs) \<le> int (length (cs_mem st)) \<Longrightarrow> \<exists>st'. put_mem off bs st = Some st'"
  by (simp add: put_mem_def nat_le_iff)

subsection \<open>The search\<close>

text \<open>In a pattern whose numbers grow, the field with the number is found, and nothing if there is none.\<close>

lemma bsearch_from_ok:
  assumes "sorted_wrt (<) (map pt_id pat)" and "past \<le> length pat"
    and "\<And>k. k < first \<Longrightarrow> pt_id (pat ! k) < i" and "\<And>k. past \<le> k \<Longrightarrow> k < length pat \<Longrightarrow> i < pt_id (pat ! k)"
  shows "\<exists>r. bsearch_from pat i first past = Some r \<and>
    (case r of Some k \<Rightarrow> k < length pat \<and> pt_id (pat ! k) = i | None \<Rightarrow> \<forall>f \<in> set pat. pt_id f \<noteq> i)"
  using assms(2-4)
proof (induction "past - first" arbitrary: first past rule: less_induct)
  case less
  show ?case
  proof (cases "first < past")
    case True
    let ?m = "(first + past) div 2"
    have m: "first \<le> ?m" "?m < past" "?m < length pat" using True less.prems(1) by auto
    have below: "k < ?m + 1 \<Longrightarrow> pt_id (pat ! k) \<le> pt_id (pat ! ?m)" for k
      using sorted_wrt_nth_less [OF assms(1), of k ?m] m(3) by (cases "k = ?m") auto
    have above: "?m \<le> k \<Longrightarrow> k < length pat \<Longrightarrow> pt_id (pat ! ?m) \<le> pt_id (pat ! k)" for k
      using sorted_wrt_nth_less [OF assms(1), of ?m k] m(3) by (cases "k = ?m") auto
    consider "i = pt_id (pat ! ?m)" | "i < pt_id (pat ! ?m)" | "pt_id (pat ! ?m) < i" by linarith
    then show ?thesis
    proof cases
      case 1
      then show ?thesis using True m(3) by (subst bsearch_from.simps) (simp add: rd_def Let_def)
    next
      case 2
      have "\<exists>r. bsearch_from pat i first ?m = Some r \<and> (case r of Some k \<Rightarrow> k < length pat \<and> pt_id (pat ! k) = i | None \<Rightarrow> \<forall>f \<in> set pat. pt_id f \<noteq> i)"
      proof (rule less.hyps)
        show "?m - first < past - first" "?m \<le> length pat" using m by linarith+
        show "pt_id (pat ! k) < i" if "k < first" for k by (rule less.prems(2) [OF that])
        show "i < pt_id (pat ! k)" if "?m \<le> k" "k < length pat" for k using above [OF that] 2 by linarith
      qed
      then show ?thesis using True m(3) 2 by (subst bsearch_from.simps) (simp add: rd_def Let_def)
    next
      case 3
      have "\<exists>r. bsearch_from pat i (?m + 1) past = Some r \<and> (case r of Some k \<Rightarrow> k < length pat \<and> pt_id (pat ! k) = i | None \<Rightarrow> \<forall>f \<in> set pat. pt_id f \<noteq> i)"
      proof (rule less.hyps)
        show "past - (?m + 1) < past - first" using m by linarith
        show "past \<le> length pat" by (rule less.prems(1))
        show "pt_id (pat ! k) < i" if "k < ?m + 1" for k using below [OF that] 3 by linarith
        show "i < pt_id (pat ! k)" if "past \<le> k" "k < length pat" for k by (rule less.prems(3) [OF that])
      qed
      then show ?thesis using True m(3) 3 by (subst bsearch_from.simps) (simp add: rd_def Let_def)
    qed
  next
    case False
    have "pt_id (pat ! k) \<noteq> i" if "k < length pat" for k
      using less.prems(2) [of k] less.prems(3) [of k] that False by (cases "k < first") auto
    then have "\<forall>f \<in> set pat. pt_id f \<noteq> i" by (metis in_set_conv_nth)
    then show ?thesis using False by (subst bsearch_from.simps) simp
  qed
qed

lemma bsearch_hit:
  assumes "sorted_wrt (<) (map pt_id pat)" and "k < length pat"
  shows "bsearch_pattern pat (pt_id (pat ! k)) = Some (Some k)"
proof -
  obtain r where r: "bsearch_pattern pat (pt_id (pat ! k)) = Some r"
    "case r of Some j \<Rightarrow> j < length pat \<and> pt_id (pat ! j) = pt_id (pat ! k) | None \<Rightarrow> \<forall>f \<in> set pat. pt_id f \<noteq> pt_id (pat ! k)"
    using bsearch_from_ok [OF assms(1), of "length pat" 0 "pt_id (pat ! k)"] by (auto simp: bsearch_pattern_def)
  have same: "j = k" if "j < length pat" "pt_id (pat ! j) = pt_id (pat ! k)" for j
    using sorted_wrt_nth_less [OF assms(1), of j k] sorted_wrt_nth_less [OF assms(1), of k j] that assms(2)
    by (cases j k rule: linorder_cases) auto
  show ?thesis
  proof (cases r)
    case None
    then show ?thesis using r(2) assms(2) by auto
  next
    case (Some j)
    then show ?thesis using r same by simp
  qed
qed

subsection \<open>What is written\<close>

text \<open>The types of numbers, and those that take both halves of a number.\<close>

definition int_types :: "int set" where
  "int_types = {PTYPE_INT64, PTYPE_UINT64, PTYPE_INT32, PTYPE_UINT32, PTYPE_ENUM, PTYPE_BOOL, PTYPE_FIXED32, PTYPE_SFIXED32,
     PTYPE_FIXED64, PTYPE_SFIXED64, PTYPE_SINT32}"

definition wide_types :: "int set" where
  "wide_types = {PTYPE_INT64, PTYPE_UINT64, PTYPE_INT32, PTYPE_FIXED64, PTYPE_SFIXED64}"

text \<open>The field of the message for a number, or for a slice.\<close>

definition int_wfield :: "int \<Rightarrow> nat \<Rightarrow> u32 \<Rightarrow> u32 \<Rightarrow> wfield" where
  "int_wfield ptype n lo h =
     (if ptype \<in> {PTYPE_FIXED64, PTYPE_SFIXED64} then WBit64 n lo h
      else if ptype \<in> {PTYPE_FIXED32, PTYPE_SFIXED32} then WBit32 n lo
      else if ptype \<in> {PTYPE_UINT64, PTYPE_INT64, PTYPE_INT32} then WVarint n (u64_of_ll lo h)
      else if ptype = PTYPE_SINT32 then WVarint n (ucast (push_bit 1 lo XOR signed_drop_bit 31 lo))
      else WVarint n (ucast lo))"

definition real_wfield :: "int \<Rightarrow> nat \<Rightarrow> u64 \<Rightarrow> wfield" where
  "real_wfield ptype n d = (if ptype = PTYPE_DOUBLE then WBit64 n (ucast d) (ucast (drop_bit 32 d)) else WBit32 n (d2f d))"

lemma os_put_append: "os_put (xs @ ys) s = do { t \<leftarrow> os_put xs s; os_put ys t }"
  by (auto simp: os_put_def ac_simps)

lemma os_put_ok: "int (os_pos s) + os_len s \<le> int (length (os_buf s)) \<Longrightarrow> int (length bs) \<le> os_len s \<Longrightarrow> \<exists>t. os_put bs s = Some t"
  by (simp add: os_put_def)

lemma put_varint_room: "int (length e) \<le> os_len s \<Longrightarrow> put_varint e s = put_result e s"
  by (simp add: put_varint_def)

lemma os_put_room:
  "os_put bs s = Some t \<Longrightarrow> os_len t = os_len s - int (length bs) \<and> os_pos t = os_pos s + length bs \<and> length (os_buf t) = length (os_buf s)"
  by (auto simp: os_put_def split: if_splits)

text \<open>The tag and what comes behind it, where there is room for both.\<close>

lemma tag_then:
  assumes "0 \<le> i" and "i < 2 ^ 29" and "wt \<in> {WT_VARINT, WT_BIT64, WT_LEND, WT_BIT32}"
    and room: "int (os_pos s) + os_len s \<le> int (length (os_buf s))"
      "int (length (leb (8 * nat i + unat wt) @ body)) \<le> os_len s"
    and body: "\<And>t. int (length body) \<le> os_len t \<Longrightarrow> next t = put_result body t"
  shows "\<exists>t. os_put (leb (8 * nat i + unat wt) @ body) s = Some t \<and>
    and_then (pack_wiretype (wire_tag i wt) s) next = Some (t, int (length (leb (8 * nat i + unat wt) @ body)))"
proof -
  let ?tag = "leb (8 * nat i + unat wt)"
  have tag: "pbcV_encode32 (wire_tag i wt) = ?tag"
    using wtag_bytes [OF assms(1,2)] assms(3) by (auto simp: wire_tag_def wtag_of_def)
  obtain t where t: "os_put (?tag @ body) s = Some t" using os_put_ok [OF room(1), of "?tag @ body"] room(2) by auto
  then obtain u where u: "os_put ?tag s = Some u" "os_put body u = Some t" by (auto simp: os_put_append ub_simps)
  have "pack_wiretype (wire_tag i wt) s = Some (u, int (length ?tag))"
    using room(2) u(1) by (simp add: pack_wiretype_def tag put_varint_room put_result_def)
  moreover have "next u = Some (t, int (length body))"
    using body [of u] os_put_room [OF u(1)] room(2) u(2) by (simp add: put_result_def)
  ultimately show ?thesis using t by (simp add: and_then_def)
qed

lemma fix_encode: "fix32_encode lo = int32_encode lo" "fix64_encode lo h = int64_encode lo h"
  by (simp_all add: fix64_encode_def fix32_encode_def int64_encode_eq int32_encode_def byte_mask)

lemma pack_int:
  assumes "ptype \<in> int_types" and "member_var ctype st off = Some v" and "var_low v = Some lo"
    and "ptype \<in> wide_types \<Longrightarrow> var_hi v = Some h" and "int (length (wbody (int_wfield ptype n lo h))) \<le> os_len s"
  shows "pack_number ptype ctype s st off = put_result (wbody (int_wfield ptype n lo h)) s"
  using assms
  by (auto simp: pack_number_def int_types_def wide_types_def int_wfield_def put_fixed_def put_varint_room fix_encode
      pack_varint64_def pack_wiretype_def pack_sint32_def encode32_encode pbcV_zigzag32_def)

lemma pack_real:
  assumes "ptype \<in> {PTYPE_DOUBLE, PTYPE_FLOAT}" and "member_var ctype st off = Some (VReal d)"
    and "int (length (wbody (real_wfield ptype n d))) \<le> os_len s"
  shows "pack_number ptype ctype s st off = put_result (wbody (real_wfield ptype n d)) s"
  using assms by (auto simp: pack_number_def real_wfield_def put_fixed_def var_real_def double_encode_eq float_encode_eq)

subsection \<open>Members that come back\<close>

definition num_size :: "int \<Rightarrow> nat" where
  "num_size c = (if c = CTYPE_INT8 \<or> c = CTYPE_BOOL then 1 else if c = CTYPE_INT16 then 2
     else if c = CTYPE_INT32 \<or> c = CTYPE_FLOAT then 4 else 8)"

definition int_member :: "pattern_field \<Rightarrow> bool" where
  "int_member f \<longleftrightarrow> pt_ctype f \<in> {CTYPE_INT32, CTYPE_INT8, CTYPE_BOOL} \<and> pt_ptype f \<in> int_types \<or>
     pt_ctype f = CTYPE_INT64 \<and> pt_ptype f \<in> wide_types"

definition real_member :: "pattern_field \<Rightarrow> bool" where
  "real_member f \<longleftrightarrow> pt_ctype f = CTYPE_DOUBLE \<and> pt_ptype f = PTYPE_DOUBLE \<or> pt_ctype f = CTYPE_FLOAT \<and> pt_ptype f = PTYPE_FLOAT"

definition string_member :: "pattern_field \<Rightarrow> bool" where
  "string_member f \<longleftrightarrow> pt_ctype f = CTYPE_VAR \<and> pt_ptype f \<in> {PTYPE_STRING, PTYPE_BYTES}"

text \<open>
  The fields of the round trip: an \<open>int32_t\<close>, \<open>int8_t\<close> or \<open>bool\<close> of any integer type but SINT64, an \<open>int64_t\<close> of
  a type that is written with 64 bits, a \<open>double\<close> of type DOUBLE, a \<open>float\<close> of type FLOAT, and slices for strings and bytes.
  An optional one has a default of its own kind. Not among them are \<open>int16_t\<close>, of which \<open>write_longlong\<close> stores only one
  byte, SINT64, which cannot be unpacked, types that are narrower than the member, and messages.\<close>

definition int_default :: "pattern_field \<Rightarrow> bool" where
  "int_default f \<longleftrightarrow> (case pt_defv f of VInt lo h \<Rightarrow> True | VEnum i n \<Rightarrow> pt_ctype f \<noteq> CTYPE_INT64 | _ \<Rightarrow> False)"

definition string_default :: "pattern_field \<Rightarrow> bool" where
  "string_default f \<longleftrightarrow>
     (pt_ptype f = PTYPE_STRING \<longrightarrow> (case pt_defv f of VStr (Some d) k \<Rightarrow> 0 \<le> k \<and> nat k \<le> length d | _ \<Rightarrow> False))"

definition real_default :: "pattern_field \<Rightarrow> bool" where
  "real_default f \<longleftrightarrow> (case pt_defv f of VReal d \<Rightarrow> True | _ \<Rightarrow> False)"

definition round_field :: "pattern_field \<Rightarrow> bool" where
  "round_field f \<longleftrightarrow> 0 \<le> pt_id f \<and> pt_id f < 2 ^ 28 \<and>
     (pt_label f = LABEL_REQUIRED \<and> (int_member f \<or> real_member f \<or> string_member f) \<or>
      pt_label f = LABEL_OPTIONAL \<and> (int_member f \<and> int_default f \<or> real_member f \<and> real_default f \<or> string_member f \<and> string_default f))"

text \<open>The members of a struct that can be packed.\<close>

definition member_ok :: "pattern_field \<Rightarrow> cstruct \<Rightarrow> bool" where
  "member_ok f st \<longleftrightarrow>
     (if pt_ctype f = CTYPE_VAR
      then \<exists>p n. cs_var st (pt_offset f) = Some (VStr (Some p) n) \<and> 0 \<le> n \<and> nat n \<le> length p \<and> n < 2 ^ 30 \<and>
        (pt_label f = LABEL_OPTIONAL \<longrightarrow> 0 < n)
      else \<exists>x. get_mem (num_size (pt_ctype f)) (pt_offset f) st = Some x \<and> (pt_ctype f = CTYPE_BOOL \<longrightarrow> x \<le> 1) \<and>
        (pt_ctype f = CTYPE_FLOAT \<longrightarrow> \<not> flt_nan (ucast x)))"

text \<open>
  A number is the same number, a string the same bytes in other memory. An optional \<open>double\<close> or \<open>float\<close> may become its
  default when it compares equal to it: a negative zero may come back as a positive one.\<close>

definition same_number :: "pattern_field \<Rightarrow> u64 \<Rightarrow> u64 \<Rightarrow> bool" where
  "same_number f x y \<longleftrightarrow> x = y \<or> pt_label f = LABEL_OPTIONAL \<and> real_member f \<and>
     (if pt_ctype f = CTYPE_DOUBLE then dbl_eq y x else flt_eq (ucast y) (ucast x))"

definition member_same :: "pattern_field \<Rightarrow> cstruct \<Rightarrow> cstruct \<Rightarrow> bool" where
  "member_same f st st' \<longleftrightarrow>
     (if pt_ctype f = CTYPE_VAR
      then \<exists>p q n. cs_var st (pt_offset f) = Some (VStr (Some p) n) \<and> cs_var st' (pt_offset f) = Some (VStr (Some q) n) \<and>
        take (nat n) p = take (nat n) q \<and> nat n \<le> length q
      else \<exists>x y. get_mem (num_size (pt_ctype f)) (pt_offset f) st = Some x \<and> get_mem (num_size (pt_ctype f)) (pt_offset f) st' = Some y
        \<and> same_number f x y)"

definition sent :: "cstruct \<Rightarrow> pattern_field \<Rightarrow> bool" where
  "sent st f \<longleftrightarrow> pt_label f = LABEL_REQUIRED \<or> is_default f st (pt_offset f) = Some False"

definition member_wfield :: "cstruct \<Rightarrow> pattern_field \<Rightarrow> wfield" where
  "member_wfield st f =
     (let n = nat (pt_id f)
      in if string_member f then
           (case cs_var st (pt_offset f) of Some (VStr (Some p) k) \<Rightarrow> WLend n (take (nat k) p) | _ \<Rightarrow> WLend n [])
         else case member_var (pt_ctype f) st (pt_offset f) of
             Some (VReal d) \<Rightarrow> real_wfield (pt_ptype f) n d
           | Some (VInt lo h) \<Rightarrow> int_wfield (pt_ptype f) n lo h
           | _ \<Rightarrow> WLend n [])"

lemma kinds_apart:
  "int_member f \<Longrightarrow> \<not> string_member f \<and> \<not> real_member f \<and> pt_ctype f \<noteq> CTYPE_VAR \<and> pt_ptype f \<in> int_types"
  "real_member f \<Longrightarrow> \<not> string_member f \<and> \<not> int_member f \<and> pt_ctype f \<noteq> CTYPE_VAR"
  "string_member f \<Longrightarrow> pt_ctype f = CTYPE_VAR"
  by (auto simp: int_member_def real_member_def string_member_def int_types_def wide_types_def)

text \<open>The number of a member, with its parts.\<close>

lemma int_member_var:
  assumes "int_member f" and "get_mem (num_size (pt_ctype f)) (pt_offset f) st = Some x" and "pt_ctype f = CTYPE_BOOL \<longrightarrow> x \<le> 1"
  shows "\<exists>h. member_var (pt_ctype f) st (pt_offset f) = Some (VInt (ucast x) h) \<and>
    (pt_ctype f = CTYPE_INT64 \<longrightarrow> h = ucast (drop_bit 32 x)) \<and> (pt_ctype f \<noteq> CTYPE_INT64 \<longrightarrow> h = 0)"
  using assms by (auto simp: int_member_def member_var_def num_size_def)

lemma real_member_var:
  assumes "real_member f" and "get_mem (num_size (pt_ctype f)) (pt_offset f) st = Some x"
  shows "member_var (pt_ctype f) st (pt_offset f) = Some (VReal (if pt_ctype f = CTYPE_DOUBLE then x else f2d (ucast x)))"
  using assms by (auto simp: real_member_def member_var_def num_size_def)

lemma int_wfield_tag:
  "ptype \<in> int_types \<Longrightarrow> wtag (int_wfield ptype n lo h) = 8 * n + unat (wiretype_of ptype) \<and> wiretype_of ptype \<in> {WT_VARINT, WT_BIT64, WT_LEND, WT_BIT32}"
  by (auto simp: int_types_def int_wfield_def wiretype_of_def)

lemma real_wfield_tag:
  "ptype \<in> {PTYPE_DOUBLE, PTYPE_FLOAT} \<Longrightarrow> wtag (real_wfield ptype n d) = 8 * n + unat (wiretype_of ptype) \<and> wiretype_of ptype \<in> {WT_VARINT, WT_BIT64, WT_LEND, WT_BIT32}"
  by (auto simp: real_wfield_def wiretype_of_def)

lemma os_put_nil: "os_pos s \<le> length (os_buf s) \<Longrightarrow> os_put [] s = Some s"
  by (cases s) (simp add: os_put_def)

lemma pack_slice_ok:
  assumes "0 \<le> n" and "nat n \<le> length p" and "pbcV_encode32 (of_int n) = leb (nat n)"
    and "int (length (leb (nat n) @ take (nat n) p)) \<le> os_len t"
  shows "and_then (pack_wiretype (of_int n) t) (pack_slice (Some p) n) = put_result (leb (nat n) @ take (nat n) p) t"
proof (cases "os_put (leb (nat n)) t")
  case None
  then show ?thesis using assms(3,4) by (simp add: and_then_def pack_wiretype_def put_varint_room put_result_def os_put_append)
next
  case (Some u)
  have u: "os_len u = os_len t - int (length (leb (nat n)))" "os_pos u \<le> length (os_buf u)"
    using Some by (auto simp: os_put_def split: if_splits)
  have "pack_slice (Some p) n u = put_result (take (nat n) p) u"
  proof (cases "n = 0")
    case True
    then show ?thesis using u assms(4) by (simp add: pack_slice_def put_result_def os_put_nil)
  next
    case False
    then show ?thesis using u assms by (simp add: pack_slice_def)
  qed
  then show ?thesis using Some assms(3,4)
    by (cases "os_put (take (nat n) p) u")
      (simp_all add: and_then_def pack_wiretype_def put_varint_room put_result_def os_put_append)
qed

text \<open>Where there is room, the field is written as it should be.\<close>

lemma pack_field_ok:
  assumes f: "round_field f" "member_ok f st"
    and room: "int (os_pos s) + os_len s \<le> int (length (os_buf s))" "int (length (wenc (member_wfield st f))) \<le> os_len s"
  shows "\<exists>t. os_put (wenc (member_wfield st f)) s = Some t \<and>
    pack_field f (pt_ctype f) s st (pt_offset f) = Some (t, int (length (wenc (member_wfield st f))))"
proof -
  have id: "0 \<le> pt_id f" "pt_id f < 2 ^ 29" using f(1) by (simp_all add: round_field_def)
  have num: "pt_ptype f \<in> number_types" if "int_member f \<or> real_member f"
    using that by (auto simp: int_member_def real_member_def int_types_def wide_types_def number_types_def)
  consider (int) "int_member f" | (real) "real_member f" | (string) "string_member f" using f(1) by (auto simp: round_field_def)
  then show ?thesis
  proof cases
    case int
    obtain x where x: "get_mem (num_size (pt_ctype f)) (pt_offset f) st = Some x" "pt_ctype f = CTYPE_BOOL \<longrightarrow> x \<le> 1"
      using f(2) kinds_apart(1) [OF int] by (auto simp: member_ok_def)
    obtain h where v: "member_var (pt_ctype f) st (pt_offset f) = Some (VInt (ucast x) h)" using int_member_var [OF int x] by auto
    let ?w = "int_wfield (pt_ptype f) (nat (pt_id f)) (ucast x) h"
    have w: "member_wfield st f = ?w" using kinds_apart(1) [OF int] v by (simp add: member_wfield_def)
    have t: "pt_ptype f \<in> int_types" using kinds_apart(1) [OF int] by simp
    note tag = int_wfield_tag [OF t, of "nat (pt_id f)" "ucast x" h]
    show ?thesis
      using tag_then [OF id, of "wiretype_of (pt_ptype f)" s "wbody ?w" "\<lambda>s. pack_number (pt_ptype f) (pt_ctype f) s st (pt_offset f)"]
        pack_int [OF t v, of "ucast x" h "nat (pt_id f)"] tag room num int
      by (simp add: w wenc_def pack_field_def var_low_def var_hi_def)
  next
    case real
    obtain x where x: "get_mem (num_size (pt_ctype f)) (pt_offset f) st = Some x"
      using f(2) kinds_apart(2) [OF real] by (auto simp: member_ok_def)
    let ?d = "if pt_ctype f = CTYPE_DOUBLE then x else f2d (ucast x)" and ?n = "nat (pt_id f)"
    have v: "member_var (pt_ctype f) st (pt_offset f) = Some (VReal ?d)" by (rule real_member_var [OF real x])
    have w: "member_wfield st f = real_wfield (pt_ptype f) ?n ?d" using kinds_apart(2) [OF real] v by (simp add: member_wfield_def)
    have t: "pt_ptype f \<in> {PTYPE_DOUBLE, PTYPE_FLOAT}" using real by (auto simp: real_member_def)
    note tag = real_wfield_tag [OF t, of ?n ?d]
    show ?thesis
      using tag_then [OF id, of "wiretype_of (pt_ptype f)" s "wbody (real_wfield (pt_ptype f) ?n ?d)" "\<lambda>s. pack_number (pt_ptype f) (pt_ctype f) s st (pt_offset f)"]
        pack_real [OF t v, of ?n] tag room num real
      by (simp add: w wenc_def pack_field_def)
  next
    case string
    obtain p n where v: "cs_var st (pt_offset f) = Some (VStr (Some p) n)" "0 \<le> n" "nat n \<le> length p" "n < 2 ^ 30"
      using f(2) kinds_apart(3) [OF string] by (auto simp: member_ok_def)
    let ?bs = "take (nat n) p"
    have w: "member_wfield st f = WLend (nat (pt_id f)) ?bs" using string v(1) by (simp add: member_wfield_def)
    have t: "pt_ptype f \<in> {PTYPE_STRING, PTYPE_MESSAGE, PTYPE_BYTES}" "pt_ptype f \<notin> number_types"
      using string by (auto simp: string_member_def number_types_def)
    have len: "pbcV_encode32 (of_int n) = leb (length ?bs)"
    proof -
      have "(of_int n :: u32) = of_nat (nat n)" using v(2) by simp
      then have "unat (of_int n :: u32) = nat n" using v(2,4) by (simp only: unat_of_nat_u32) simp
      then show ?thesis using v(3) by (simp add: encode32_leb)
    qed
    let ?g = "\<lambda>s. and_then (pack_wiretype (of_int n) s) (pack_slice (Some p) n)"
    have nxt: "?g t = put_result (leb (length ?bs) @ ?bs) t" if "int (length (leb (length ?bs) @ ?bs)) \<le> os_len t" for t
      using pack_slice_ok [OF v(2,3), of t] len that v(3) by simp
    show ?thesis
      using tag_then [OF id, of WT_LEND s "leb (length ?bs) @ ?bs" ?g] nxt room t v
      by (simp add: w wenc_def pack_field_def var_str_def)
  qed
qed

text \<open>An optional member is compared with its default.\<close>

lemma is_default_ok:
  assumes "round_field f" and "member_ok f st" and "pt_label f = LABEL_OPTIONAL"
  shows "\<exists>d. is_default f st (pt_offset f) = Some d"
proof -
  consider (int) "int_member f" "int_default f" | (real) "real_member f" "real_default f" | (string) "string_member f" "string_default f"
    using assms(1,3) by (auto simp: round_field_def)
  then show ?thesis
  proof cases
    case real
    then show ?thesis using assms(2) kinds_apart(2) [OF real(1)]
      by (auto simp: real_member_def real_default_def member_ok_def is_default_def Let_def num_size_def var_real_def split: pbc_var.splits)
  next
    case int
    obtain x where x: "get_mem (num_size (pt_ctype f)) (pt_offset f) st = Some x" "pt_ctype f = CTYPE_BOOL \<longrightarrow> x \<le> 1"
      using assms(2) kinds_apart(1) [OF int(1)] by (auto simp: member_ok_def)
    then show ?thesis using int
      by (auto simp: int_member_def is_default_def Let_def num_size_def int_default_def var_low_def var_hi_def split: pbc_var.splits)
  next
    case string
    then show ?thesis using assms(2,3)
      by (auto simp: string_member_def member_ok_def is_default_def Let_def string_default_def var_str_def same_bytes_def
          split: pbc_var.splits option.splits)
  qed
qed

lemma pack_member_ok:
  assumes "round_field f" and "member_ok f st" and "int (os_pos s) + os_len s \<le> int (length (os_buf s))"
    and "sent st f \<Longrightarrow> int (length (wenc (member_wfield st f))) \<le> os_len s"
  shows "if sent st f then \<exists>t. os_put (wenc (member_wfield st f)) s = Some t \<and> pack_member f st s = Some (t, int (length (wenc (member_wfield st f))))
    else pack_member f st s = Some (s, 0)"
proof (cases "pt_label f = LABEL_REQUIRED")
  case True
  then show ?thesis using pack_field_ok [OF assms(1-3)] assms(4) by (simp add: sent_def pack_member_def Let_def)
next
  case False
  then have opt: "pt_label f = LABEL_OPTIONAL" using assms(1) by (auto simp: round_field_def)
  obtain d where "is_default f st (pt_offset f) = Some d" using is_default_ok [OF assms(1,2) opt] by blast
  then show ?thesis using pack_field_ok [OF assms(1-3)] assms(4) opt by (cases d) (auto simp: sent_def pack_member_def Let_def)
qed

definition struct_wfields :: "cstruct \<Rightarrow> pbc_pattern \<Rightarrow> wfield list" where
  "struct_wfields st pat = map (member_wfield st) (filter (sent st) pat)"

lemma pack_members_ok:
  assumes "\<And>f. f \<in> set pat \<Longrightarrow> round_field f \<and> member_ok f st" and "int (os_pos s) + os_len s \<le> int (length (os_buf s))"
    and "int (length (wmsg (struct_wfields st pat))) \<le> os_len s"
  shows "\<exists>t. os_put (wmsg (struct_wfields st pat)) s = Some t \<and> pack_members pat st s = Some (t, 0)"
  using assms
proof (induction pat arbitrary: s)
  case Nil
  then show ?case by (simp add: struct_wfields_def wmsg_def os_put_nil)
next
  case (Cons f pat)
  have f: "round_field f" "member_ok f st" using Cons.prems(1) by auto
  have head: "if sent st f then \<exists>t. os_put (wenc (member_wfield st f)) s = Some t \<and> pack_member f st s = Some (t, int (length (wenc (member_wfield st f))))
    else pack_member f st s = Some (s, 0)"
    by (rule pack_member_ok [OF f Cons.prems(2)]) (use Cons.prems(3) in \<open>simp add: struct_wfields_def wmsg_def\<close>)
  show ?case
  proof (cases "sent st f")
    case False
    then show ?thesis using head Cons.IH [of s] Cons.prems by (simp add: struct_wfields_def)
  next
    case True
    then obtain t where t: "os_put (wenc (member_wfield st f)) s = Some t" "pack_member f st s = Some (t, int (length (wenc (member_wfield st f))))"
      using head by auto
    have "\<exists>u. os_put (wmsg (struct_wfields st pat)) t = Some u \<and> pack_members pat st t = Some (u, 0)"
      by (rule Cons.IH) (use Cons.prems True os_put_room [OF t(1)] in \<open>simp_all add: struct_wfields_def wmsg_def\<close>)
    then show ?thesis using True t by (auto simp: struct_wfields_def wmsg_def os_put_append)
  qed
qed

subsection \<open>What is read\<close>

lemma ucast_ucast_32: "ucast (take_bit 32 (ucast (z :: u32) :: u64)) = z"
  by (rule bit_word_eqI) (auto simp: bit_simps)

text \<open>Members that share no memory, and a struct that has room for a member.\<close>

definition apart :: "pattern_field \<Rightarrow> pattern_field \<Rightarrow> bool" where
  "apart f g \<longleftrightarrow>
     (if pt_ctype f = CTYPE_VAR \<and> pt_ctype g = CTYPE_VAR then pt_offset f \<noteq> pt_offset g
      else pt_ctype f = CTYPE_VAR \<or> pt_ctype g = CTYPE_VAR \<or>
        pt_offset f + int (num_size (pt_ctype f)) \<le> pt_offset g \<or> pt_offset g + int (num_size (pt_ctype g)) \<le> pt_offset f)"

definition has_room :: "cstruct \<Rightarrow> pattern_field \<Rightarrow> bool" where
  "has_room st f \<longleftrightarrow> pt_ctype f = CTYPE_VAR \<or>
     0 \<le> pt_offset f \<and> pt_offset f + int (num_size (pt_ctype f)) \<le> int (length (cs_mem st))"

text \<open>One member is written, and what is apart from it stays.\<close>

definition writes_member :: "pattern_field \<Rightarrow> cstruct \<Rightarrow> cstruct \<Rightarrow> cstruct \<Rightarrow> bool" where
  "writes_member f st out out' \<longleftrightarrow> member_same f st out' \<and> length (cs_mem out') = length (cs_mem out) \<and>
     (\<forall>g st'. apart f g \<and> has_room out g \<and> member_same g st' out \<longrightarrow> member_same g st' out')"

lemma writes_same:
  assumes "pt_ctype f \<noteq> CTYPE_VAR" and "get_mem (num_size (pt_ctype f)) (pt_offset f) st = Some x"
    and "put_mem (pt_offset f) bs out = Some out'" and "num_size (pt_ctype f) = length bs" and "same_number f x (le_word bs)"
  shows "writes_member f st out out'"
proof -
  note l = assms(4)
  note put = get_put_mem [OF assms(3)]
  have "member_same f st out'" using assms(1,2,5) put(1) by (simp add: member_same_def l)
  moreover have "member_same g st' out'" if "apart f g" "has_room out g" "member_same g st' out" for g st'
  proof (cases "pt_ctype g = CTYPE_VAR")
    case True
    then show ?thesis using that(3) put(3) by (simp add: member_same_def)
  next
    case False
    then have "get_mem (num_size (pt_ctype g)) (pt_offset g) out' = get_mem (num_size (pt_ctype g)) (pt_offset g) out"
      using get_put_apart [OF assms(3), of "pt_offset g" "num_size (pt_ctype g)"] that(1,2) assms(1)
      by (auto simp: apart_def has_room_def l)
    then show ?thesis using that(3) False by (simp add: member_same_def)
  qed
  ultimately show ?thesis using put(2) by (simp add: writes_member_def)
qed

lemma writes_number:
  assumes "pt_ctype f \<noteq> CTYPE_VAR" and "get_mem (num_size (pt_ctype f)) (pt_offset f) st = Some x"
    and "put_mem (pt_offset f) bs out = Some out'" and "le_bytes (num_size (pt_ctype f)) x = bs"
  shows "writes_member f st out out'"
proof (rule writes_same [OF assms(1-3)])
  show "num_size (pt_ctype f) = length bs" using assms(4) by auto
  show "same_number f x (le_word bs)"
    using get_mem_word [OF assms(2)] assms(4) by (simp add: num_size_def same_number_def)
qed

lemma writes_var:
  assumes "pt_ctype f = CTYPE_VAR" and "put_var (pt_offset f) (VStr (Some q) n) out = Some out'"
    and "cs_var st (pt_offset f) = Some (VStr (Some p) n)" and "take (nat n) p = take (nat n) q" and "nat n \<le> length q"
  shows "writes_member f st out out'"
  using assms by (auto simp: writes_member_def member_same_def put_var_def apart_def get_mem_def)

lemma le_word_bytes: "n \<le> 8 \<Longrightarrow> le_word (le_bytes n w) = take_bit (8 * n) w"
proof (induction n arbitrary: w)
  case (Suc n)
  have "ucast (ucast w :: byte) OR push_bit 8 (take_bit (8 * n) (drop_bit 8 w)) = take_bit (8 * Suc n) w"
  proof (rule bit_word_eqI)
    fix i
    assume "i < LENGTH(64)"
    then show "bit (ucast (ucast w :: byte) OR push_bit 8 (take_bit (8 * n) (drop_bit 8 w))) i \<longleftrightarrow> bit (take_bit (8 * Suc n) w) i"
      by (cases "i < 8") (auto simp: bit_simps)
  qed
  then show ?case using Suc by (simp add: le_bytes_Suc)
qed (simp add: le_bytes_def)

lemma take_64: "take_bit 64 (w :: u64) = w"
  by (rule bit_word_eqI) (simp add: bit_simps)

lemma le_bytes_low: "8 * n \<le> k \<Longrightarrow> le_bytes n (take_bit k w) = le_bytes n w"
proof -
  assume "8 * n \<le> k"
  then have "ucast (drop_bit (8 * i) (take_bit k w)) = (ucast (drop_bit (8 * i) w) :: byte)" if "i < n" for i
    using that by (intro bit_word_eqI) (auto simp: bit_simps)
  then show ?thesis by (simp add: le_bytes_def)
qed

lemma le_bytes_bool: "x \<le> 1 \<Longrightarrow> le_bytes 1 x = [if (ucast x :: u32) \<noteq> 0 then 1 else 0]"
proof -
  assume "x \<le> 1"
  then have "unat x \<le> 1" by (simp add: word_le_nat_alt)
  then have "unat x = 0 \<or> unat x = 1" by linarith
  then have "x = 0 \<or> x = 1" by (simp add: word_unat_eq_iff)
  then show ?thesis by (auto simp: le_bytes_def)
qed

lemma narrow_32: "ucast (ucast x :: u32) = take_bit 32 (x :: u64)"
  by (rule bit_word_eqI) (auto simp: bit_simps)

lemma split_64: "u64_of_ll (ucast x) (ucast (drop_bit 32 x)) = x"
  using u64_of_ll_of [of x] by (simp add: ll_of_def)

lemma ll_of_join: "ll_of (u64_of_ll lo h) = \<lparr>ll_low = lo, ll_hi = h\<rparr>"
proof -
  have "ucast (u64_of_ll lo h) = lo"
    by (rule bit_word_eqI) (simp add: u64_of_ll_def bit_simps)
  moreover have "ucast (drop_bit 32 (u64_of_ll lo h)) = h"
  proof (rule bit_word_eqI)
    fix i
    assume "i < LENGTH(32)"
    then show "bit (ucast (drop_bit 32 (u64_of_ll lo h)) :: u32) i \<longleftrightarrow> bit h i"
      using bit_imp_le_length [of lo "i + 32"] by (auto simp: u64_of_ll_def bit_simps add.commute)
  qed
  ultimately show ?thesis by (simp add: ll_of_def)
qed

lemma atom_of_32: "ll_of (ucast (z :: u32)) = \<lparr>ll_low = z, ll_hi = 0\<rparr>"
  using ll_of_join [of z 0] by (simp add: u64_of_ll_def)

lemma write_int:
  assumes "c \<in> {CTYPE_INT32, CTYPE_INT8, CTYPE_BOOL, CTYPE_INT64}" and "ll_low i = ucast x"
    and "c = CTYPE_INT64 \<Longrightarrow> ll_hi i = ucast (drop_bit 32 x)" and "c = CTYPE_BOOL \<Longrightarrow> x \<le> 1"
  shows "write_longlong c i off out = map_option (\<lambda>st. (st, 0)) (put_mem off (le_bytes (num_size c) x) out)"
proof -
  consider "c = CTYPE_INT32" | "c = CTYPE_INT8" | "c = CTYPE_BOOL" | "c = CTYPE_INT64" using assms(1) by auto
  then show ?thesis
  proof cases
    case 1
    then show ?thesis by (simp add: write_longlong_def num_size_def assms(2) narrow_32 le_bytes_low)
  next
    case 2
    then show ?thesis by (simp add: write_longlong_def num_size_def assms(2) narrow_32 le_bytes_low)
  next
    case 3
    then show ?thesis using assms(4) le_bytes_bool [of x] by (simp add: write_longlong_def num_size_def assms(2))
  next
    case 4
    then show ?thesis using assms(3) by (simp add: write_longlong_def num_size_def assms(2) split_64)
  qed
qed

text \<open>The number in the atom.\<close>

lemma unpack_int:
  assumes "ptype \<in> int_types"
  shows "\<exists>i. unpack_value ctype ptype buffer (watom start (int_wfield ptype n lo h)) off out = write_longlong ctype i off out \<and>
    ll_low i = lo \<and> (ptype \<in> wide_types \<longrightarrow> ll_hi i = h)"
proof (cases "ptype = PTYPE_SINT32")
  case True
  let ?z = "push_bit 1 lo XOR signed_drop_bit 31 lo"
  have "ll_low (pbcV_dezigzag32 (atom_ll (watom start (int_wfield ptype n lo h)))) = lo"
    using True dezz32 [of lo 0] by (simp add: int_wfield_def watom_def atom_of_32 atom_ll_def)
  then show ?thesis using True by (auto simp: unpack_value_def wide_types_def)
next
  case False
  then have "unpack_value ctype ptype buffer (watom start (int_wfield ptype n lo h)) off out =
      write_longlong ctype (atom_ll (watom start (int_wfield ptype n lo h))) off out"
    using assms by (auto simp: unpack_value_def int_types_def write_integer_def)
  moreover have "ll_low (atom_ll (watom start (int_wfield ptype n lo h))) = lo"
    using False by (auto simp: int_wfield_def watom_def atom_ll_def atom_of_32 ll_of_join)
  moreover have "ptype \<in> wide_types \<Longrightarrow> ll_hi (atom_ll (watom start (int_wfield ptype n lo h))) = h"
    by (auto simp: wide_types_def int_wfield_def watom_def atom_ll_def ll_of_join)
  ultimately show ?thesis by blast
qed

text \<open>The payload in the message.\<close>

lemma payload_ok:
  assumes "data = pre @ wenc (WLend n bs) @ post" and "length data < 2 ^ 31"
  shows "\<exists>q. payload data (watom (length pre) (WLend n bs)) = Some (VStr (Some q) (int (length bs))) \<and> take (length bs) q = bs \<and> length bs \<le> length q"
proof -
  let ?p = "length pre + length (leb (8 * n + 2)) + length (leb (length bs))"
  have "?p + length bs \<le> length data" by (simp add: assms(1) wenc_def)
  then have a: "a_start (watom (length pre) (WLend n bs)) = int ?p" "a_end (watom (length pre) (WLend n bs)) = int (?p + length bs)"
    using assms(2) sint_small [of "int ?p"] sint_small [of "int (?p + length bs)"]
    by (simp_all add: a_start_def a_end_def watom_def Let_def)
  moreover have "drop ?p data = bs @ post" by (simp add: assms(1) wenc_def)
  moreover have "?p \<le> length data" "length bs < 2 ^ 31" using \<open>?p + length bs \<le> length data\<close> assms(2) by auto
  ultimately show ?thesis by (simp add: payload_def at_offset_def slice_len_def nat_add_distrib)
qed

lemma unpack_field_ok:
  assumes f: "round_field f" "member_ok f st" "has_room out f"
    and data: "data = pre @ wenc (member_wfield st f) @ post" "length data < 2 ^ 31"
  shows "\<exists>out'. unpack_field (pt_ctype f) (pt_ptype f) data (watom (length pre) (member_wfield st f)) (pt_offset f) (m, out) = Some ((m, out'), 0) \<and>
    writes_member f st out out'"
proof -
  have ctype: "unpack_field (pt_ctype f) (pt_ptype f) data a (pt_offset f) (m, out) =
      do { (st, r) \<leftarrow> unpack_value (pt_ctype f) (pt_ptype f) data a (pt_offset f) out; Some ((m, st), r) }" for a
    using f(1) by (auto simp: unpack_field_def round_field_def int_member_def real_member_def string_member_def)
  consider (int) "int_member f" | (real) "real_member f" | (string) "string_member f" using f(1) by (auto simp: round_field_def)
  then show ?thesis
  proof cases
    case int
    obtain x where x: "get_mem (num_size (pt_ctype f)) (pt_offset f) st = Some x" "pt_ctype f = CTYPE_BOOL \<longrightarrow> x \<le> 1"
      using f(2) kinds_apart(1) [OF int] by (auto simp: member_ok_def)
    obtain h where v: "member_var (pt_ctype f) st (pt_offset f) = Some (VInt (ucast x) h)" "pt_ctype f = CTYPE_INT64 \<longrightarrow> h = ucast (drop_bit 32 x)"
      using int_member_var [OF int x] by auto
    have w: "member_wfield st f = int_wfield (pt_ptype f) (nat (pt_id f)) (ucast x) h"
      using kinds_apart(1) [OF int] v(1) by (simp add: member_wfield_def)
    obtain i where i: "unpack_value (pt_ctype f) (pt_ptype f) data (watom (length pre) (member_wfield st f)) (pt_offset f) out =
        write_longlong (pt_ctype f) i (pt_offset f) out" "ll_low i = ucast x" "pt_ptype f \<in> wide_types \<longrightarrow> ll_hi i = h"
      using unpack_int [of "pt_ptype f"] kinds_apart(1) [OF int] w by metis
    obtain out' where out': "put_mem (pt_offset f) (le_bytes (num_size (pt_ctype f)) x) out = Some out'"
      using put_mem_ok [of "pt_offset f" "le_bytes (num_size (pt_ctype f)) x" out] f(3) kinds_apart(1) [OF int] by (auto simp: has_room_def)
    have "write_longlong (pt_ctype f) i (pt_offset f) out = Some (out', 0)"
      by (subst write_int [of "pt_ctype f" i x]) (use int i(2,3) v(2) x(2) out' in \<open>auto simp: int_member_def\<close>)
    then show ?thesis using ctype i(1) writes_number [OF _ x(1) out' refl] kinds_apart(1) [OF int] by auto
  next
    case real
    obtain x where x: "get_mem (num_size (pt_ctype f)) (pt_offset f) st = Some x" "pt_ctype f = CTYPE_FLOAT \<longrightarrow> \<not> flt_nan (ucast x)"
      using f(2) kinds_apart(2) [OF real] by (auto simp: member_ok_def)
    let ?d = "if pt_ctype f = CTYPE_DOUBLE then x else f2d (ucast x)"
    have w: "member_wfield st f = real_wfield (pt_ptype f) (nat (pt_id f)) ?d"
      using kinds_apart(2) [OF real] real_member_var [OF real x(1)] by (simp add: member_wfield_def)
    obtain out' where out': "put_mem (pt_offset f) (le_bytes (num_size (pt_ctype f)) x) out = Some out'"
      using put_mem_ok [of "pt_offset f" "le_bytes (num_size (pt_ctype f)) x" out] f(3) kinds_apart(2) [OF real] by (auto simp: has_room_def)
    have "unpack_value (pt_ctype f) (pt_ptype f) data (watom (length pre) (member_wfield st f)) (pt_offset f) out = Some (out', 0)"
      using real out' x(2) split_64 [of x]
      by (auto simp: w real_member_def unpack_value_def real_wfield_def watom_def read_double_def read_float_def write_real_def
          num_size_def d2f_f2d narrow_32 le_bytes_low u64_of_ll_def)
    then show ?thesis using ctype writes_number [OF _ x(1) out' refl] kinds_apart(2) [OF real] by auto
  next
    case string
    obtain p n where v: "cs_var st (pt_offset f) = Some (VStr (Some p) n)" "0 \<le> n" "nat n \<le> length p"
      using f(2) kinds_apart(3) [OF string] by (auto simp: member_ok_def)
    have w: "member_wfield st f = WLend (nat (pt_id f)) (take (nat n) p)" using string v(1) by (simp add: member_wfield_def)
    obtain q where q: "payload data (watom (length pre) (member_wfield st f)) = Some (VStr (Some q) n)"
      "take (nat n) q = take (nat n) p" "nat n \<le> length q"
      using payload_ok [of data pre "nat (pt_id f)" "take (nat n) p" post] data v(2,3) by (auto simp: w)
    obtain out' where out': "put_var (pt_offset f) (VStr (Some q) n) out = Some out'" by (simp add: put_var_def)
    have "nat (pt_id f) < 2 ^ 28" using f(1) by (simp add: round_field_def nat_less_iff)
    then have "wtag (member_wfield st f) < 2 ^ 32" by (simp add: w)
    from tag_type [OF this] have "(of_nat (wtag (member_wfield st f)) :: u32) AND 7 = of_nat (wtag (member_wfield st f) mod 8)" .
    moreover have "wire_id (watom (length pre) (member_wfield st f)) = of_nat (wtag (member_wfield st f))"
      by (simp add: w watom_def Let_def)
    moreover have "wtag (member_wfield st f) mod 8 = 2" unfolding w wtag.simps by presburger
    ultimately have "wire_id (watom (length pre) (member_wfield st f)) AND 7 = WT_LEND" by (simp del: wtag.simps)
    then have "unpack_value (pt_ctype f) (pt_ptype f) data (watom (length pre) (member_wfield st f)) (pt_offset f) out = Some (out', 0)"
      using string q(1) out' by (auto simp: string_member_def unpack_value_def)
    then show ?thesis using ctype writes_var [OF kinds_apart(3) [OF string] out' v(1)] q(2,3) by auto
  qed
qed

subsection \<open>All fields\<close>

text \<open>The fields of a pattern with growing numbers, and members that share no memory.\<close>

definition round_pattern :: "pbc_pattern \<Rightarrow> bool" where
  "round_pattern pat \<longleftrightarrow> sorted_wrt (<) (map pt_id pat) \<and> (\<forall>f \<in> set pat. round_field f) \<and>
     (\<forall>f \<in> set pat. \<forall>g \<in> set pat. f \<noteq> g \<longrightarrow> apart f g)"

lemma wnum_member: "round_field f \<Longrightarrow> member_ok f st \<Longrightarrow> wnum (member_wfield st f) = nat (pt_id f)"
  by (auto simp: member_wfield_def Let_def int_wfield_def real_wfield_def split: option.splits pbc_var.splits)

lemma round_distinct: "round_pattern pat \<Longrightarrow> distinct pat"
proof -
  assume "round_pattern pat"
  then have "distinct (map pt_id pat)" by (simp add: round_pattern_def strict_sorted_iff)
  then show ?thesis by (simp add: distinct_map)
qed

lemma seen_update:
  assumes "distinct pat" and "k < length pat"
  shows "(map P pat)[k := True] = map (\<lambda>g. P g \<or> g = pat ! k) pat"
  using assms by (intro nth_equalityI) (auto simp: nth_list_update nth_eq_iff_index_eq)

lemma round_no_array: "round_field f \<Longrightarrow> \<not> is_array_field f"
  by (auto simp: round_field_def is_array_field_def int_member_def real_member_def string_member_def)

lemma unpack_atoms_ok:
  assumes pat: "round_pattern pat" "\<And>f. f \<in> set pat \<Longrightarrow> member_ok f st"
    and fs: "set fs \<subseteq> set pat" "distinct fs"
    and data: "data = pre @ wmsg (map (member_wfield st) fs) @ post" "length data < 2 ^ 31"
    and room: "\<And>f. f \<in> set pat \<Longrightarrow> has_room out f"
  shows "\<exists>out'. unpack_atoms pat data (watoms (length pre) (map (member_wfield st) fs)) i (map P pat) (m, out) =
      Some ((m, out'), map (\<lambda>g. P g \<or> g \<in> set fs) pat, None) \<and> length (cs_mem out') = length (cs_mem out) \<and>
    (\<forall>f \<in> set fs. member_same f st out') \<and> (\<forall>g \<in> set pat. \<forall>st'. g \<notin> set fs \<and> member_same g st' out \<longrightarrow> member_same g st' out')"
  using fs data room
proof (induction fs arbitrary: pre out i P)
  case Nil
  then show ?case by simp
next
  case (Cons f fs)
  have f: "f \<in> set pat" "round_field f" "member_ok f st" "has_room out f"
    using Cons.prems(1,5) pat by (auto simp: round_pattern_def)
  obtain k where k: "k < length pat" "pat ! k = f" using f(1) by (auto simp: in_set_conv_nth)
  let ?w = "member_wfield st f"
  have d: "data = pre @ wenc ?w @ (wmsg (map (member_wfield st) fs) @ post)"
    "data = (pre @ wenc ?w) @ wmsg (map (member_wfield st) fs) @ post"
    using Cons.prems(3) by (simp_all add: wmsg_def)
  obtain out1 where out1: "unpack_field (pt_ctype f) (pt_ptype f) data (watom (length pre) ?w) (pt_offset f) (m, out) = Some ((m, out1), 0)"
    "writes_member f st out out1"
    using unpack_field_ok [OF f(2-4) d(1) Cons.prems(4)] by blast
  have "0 \<le> pt_id f" "nat (pt_id f) < 2 ^ 28" using f(2) by (simp_all add: round_field_def nat_less_iff)
  then have "atom_id (watom (length pre) ?w) = pt_id f"
    using atom_id_watom [of ?w] wnum_member [OF f(2,3)] by simp
  then have hit: "bsearch_pattern pat (atom_id (watom (length pre) ?w)) = Some (Some k)"
    using bsearch_hit [OF _ k(1)] pat(1) k(2) by (simp add: round_pattern_def)
  have room1: "has_room out1 g" if "g \<in> set pat" for g
    using Cons.prems(5) [OF that] out1(2) by (simp add: has_room_def writes_member_def)
  obtain out' where out': "unpack_atoms pat data (watoms (length (pre @ wenc ?w)) (map (member_wfield st) fs)) (i + 1)
      (map (\<lambda>g. P g \<or> g = f) pat) (m, out1) = Some ((m, out'), map (\<lambda>g. (P g \<or> g = f) \<or> g \<in> set fs) pat, None)"
    "length (cs_mem out') = length (cs_mem out1)" "\<And>g. g \<in> set fs \<Longrightarrow> member_same g st out'"
    "\<And>g st'. g \<in> set pat \<Longrightarrow> g \<notin> set fs \<Longrightarrow> member_same g st' out1 \<Longrightarrow> member_same g st' out'"
    using Cons.IH [of "pre @ wenc ?w" out1 "i + 1" "\<lambda>g. P g \<or> g = f", OF _ _ d(2) Cons.prems(4) room1] Cons.prems(1,2) by auto
  have run: "unpack_atoms pat data (watoms (length pre) (map (member_wfield st) (f # fs))) i (map P pat) (m, out) =
      Some ((m, out'), map (\<lambda>g. P g \<or> g \<in> set (f # fs)) pat, None)"
  proof -
    have upd: "(map P pat)[k := True] = map (\<lambda>g. P g \<or> g = f) pat"
      using seen_update [OF round_distinct [OF pat(1)] k(1), of P] k(2) by simp
    have "map (\<lambda>g. (P g \<or> g = f) \<or> g \<in> set fs) pat = map (\<lambda>g. P g \<or> g \<in> set (f # fs)) pat" by auto
    then show ?thesis using hit out1(1) out'(1) k round_no_array [OF f(2)] by (simp add: rd_def upd)
  qed
  have "member_same g st' out1" if "g \<in> set pat" "g \<noteq> f" "member_same g st' out" for g st'
    using out1(2) that Cons.prems(5) [OF that(1)] pat(1) f(1) by (auto simp: writes_member_def round_pattern_def)
  then have "\<forall>g \<in> set pat. \<forall>st'. g \<notin> set (f # fs) \<and> member_same g st' out \<longrightarrow> member_same g st' out'" using out'(4) by auto
  moreover have "member_same f st out'"
    using out'(4) [OF f(1)] out1(2) Cons.prems(2) by (simp add: writes_member_def)
  ultimately show ?case using run out'(2,3) out1(2) by (auto simp: writes_member_def)
qed

subsection \<open>Values that were left out\<close>

lemma put_mem_again: "put_mem off bs st = Some st' \<Longrightarrow> put_mem off bs st' = Some st'"
  by (auto simp: put_mem_def split: if_splits)

text \<open>The default of a number that was left out is the number.\<close>

lemma default_number:
  assumes "int_member f" and "int_default f" and "get_mem (num_size (pt_ctype f)) (pt_offset f) st = Some x"
    and "is_default f st (pt_offset f) = Some True" and "var_low v = var_low (pt_defv f)"
    and "pt_ctype f = CTYPE_INT64 \<Longrightarrow> v = pt_defv f"
  shows "set_default_v (pt_offset f) (pt_ctype f) v out = put_mem (pt_offset f) (le_bytes (num_size (pt_ctype f)) x) out"
proof -
  obtain lo where lo: "var_low (pt_defv f) = Some lo" using assms(2) by (auto simp: int_default_def var_low_def split: pbc_var.splits)
  consider "pt_ctype f = CTYPE_INT32" | "pt_ctype f = CTYPE_INT8" | "pt_ctype f = CTYPE_BOOL" | "pt_ctype f = CTYPE_INT64"
    using assms(1) by (auto simp: int_member_def)
  then show ?thesis
  proof cases
    case 1
    then show ?thesis using assms(3-5) lo by (simp add: is_default_def set_default_v_def num_size_def)
  next
    case 2
    then have "x = take_bit 8 (ucast lo)" using assms(3,4) lo by (simp add: is_default_def num_size_def)
    then show ?thesis using 2 assms(5) lo by (simp add: set_default_v_def num_size_def le_bytes_low)
  next
    case 3
    then have "x = (if lo \<noteq> 0 then 1 else 0)" using assms(3,4) lo by (simp add: is_default_def num_size_def split: if_splits)
    then show ?thesis using 3 assms(5) lo by (simp add: set_default_v_def num_size_def le_bytes_def)
  next
    case 4
    then have "var_hi (pt_defv f) \<noteq> None" using assms(2) by (auto simp: int_default_def var_hi_def split: pbc_var.splits)
    then obtain h where "var_hi (pt_defv f) = Some h" by auto
    then show ?thesis using 4 assms(3,4,6) lo by (simp add: is_default_def set_default_v_def num_size_def)
  qed
qed

lemma set_default_ok:
  assumes f: "round_field f" "member_ok f st" "has_room out f" and "\<not> sent st f"
  shows "\<exists>out'. pattern_set_default f out = Some out' \<and> writes_member f st out out'"
proof -
  have opt: "pt_label f = LABEL_OPTIONAL" using f(1) assms(4) by (auto simp: round_field_def sent_def)
  have d: "is_default f st (pt_offset f) = Some True"
    using is_default_ok [OF f(1,2) opt] assms(4) by (auto simp: sent_def)
  have ctype: "\<not> (pt_ctype f = CTYPE_ARRAY \<or> pt_ctype f = CTYPE_PACKED)" using round_no_array [OF f(1)] by (simp add: is_array_field_def)
  consider (int) "int_member f" "int_default f" | (real) "real_member f" "real_default f" | (string) "string_member f" "string_default f"
    using f(1) opt by (auto simp: round_field_def)
  then show ?thesis
  proof cases
    case real
    obtain x where x: "get_mem (num_size (pt_ctype f)) (pt_offset f) st = Some x"
      using f(2) kinds_apart(2) [OF real(1)] by (auto simp: member_ok_def)
    obtain d where dv: "pt_defv f = VReal d" using real(2) by (auto simp: real_default_def split: pbc_var.splits)
    define y where "y = (if pt_ctype f = CTYPE_DOUBLE then d else ucast (d2f d))"
    obtain out' where out': "put_mem (pt_offset f) (le_bytes (num_size (pt_ctype f)) y) out = Some out'"
      using put_mem_ok [of "pt_offset f" "le_bytes (num_size (pt_ctype f)) y" out] f(3) kinds_apart(2) [OF real(1)] by (auto simp: has_room_def)
    have "pattern_set_default f out = Some out'"
      using real(1) dv out' ctype by (auto simp: real_member_def pattern_set_default_def set_default_v_def var_real_def y_def num_size_def)
    moreover have "writes_member f st out out'"
    proof (rule writes_same [OF _ x out'])
      show "same_number f x (le_word (le_bytes (num_size (pt_ctype f)) y))"
        using real(1) dv d x opt
        by (auto simp: real_member_def same_number_def is_default_def Let_def var_real_def num_size_def y_def le_word_bytes ucast_ucast_32 take_64)
    qed (use kinds_apart(2) [OF real(1)] in simp_all)
    ultimately show ?thesis by blast
  next
    case int
    obtain x where x: "get_mem (num_size (pt_ctype f)) (pt_offset f) st = Some x"
      using f(2) kinds_apart(1) [OF int(1)] by (auto simp: member_ok_def)
    obtain out' where out': "put_mem (pt_offset f) (le_bytes (num_size (pt_ctype f)) x) out = Some out'"
      using put_mem_ok [of "pt_offset f" "le_bytes (num_size (pt_ctype f)) x" out] f(3) kinds_apart(1) [OF int(1)] by (auto simp: has_room_def)
    note set = default_number [OF int x d]
    have "pattern_set_default f out = Some out'"
    proof (cases "pt_ptype f = PTYPE_ENUM")
      case False
      then show ?thesis using set [OF refl refl] out' ctype by (simp add: pattern_set_default_def)
    next
      case True
      then have c: "pt_ctype f \<noteq> CTYPE_INT64" using int(1) by (auto simp: int_member_def wide_types_def)
      obtain i where i: "var_enum_id (pt_defv f) = Some i" "var_low (pt_defv f) = Some (of_int i)"
      proof (cases "pt_defv f")
        case (VInt lo h)
        then show thesis by (intro that [of "sint lo"]) (simp_all add: var_enum_id_def var_low_def)
      next
        case (VEnum i n)
        then show thesis by (intro that [of i]) (simp_all add: var_enum_id_def var_low_def)
      qed (use int(2) in \<open>simp_all add: int_default_def\<close>)
      have "set_default_v (pt_offset f) (pt_ctype f) (VInt (of_int i) 0) out = Some out'"
        using set [of "VInt (of_int i) 0" out] i(2) c out' by (simp add: var_low_def)
      then show ?thesis using set [OF refl refl, of out'] put_mem_again [OF out'] True i(1) ctype
        by (simp add: pattern_set_default_def)
    qed
    then show ?thesis using writes_number [OF _ x out' refl] kinds_apart(1) [OF int(1)] by auto
  next
    case string
    obtain p n where v: "cs_var st (pt_offset f) = Some (VStr (Some p) n)" "0 < n" "nat n \<le> length p"
      using f(2) kinds_apart(3) [OF string(1)] opt by (auto simp: member_ok_def)
    have str: "pt_ptype f = PTYPE_STRING"
      using d v(1) string(1) by (auto simp: string_member_def is_default_def Let_def var_str_def)
    then obtain q k where q: "pt_defv f = VStr (Some q) k" "0 \<le> k" "nat k \<le> length q"
      using string(2) by (auto simp: string_default_def split: pbc_var.splits option.splits)
    have same: "k = n" "take (nat n) q = take (nat n) p"
      using d v(1,2) q(1) str kinds_apart(3) [OF string(1)]
      by (auto simp: is_default_def Let_def var_str_def same_bytes_def ub_simps split: if_splits)
    obtain out' where out': "put_var (pt_offset f) (VStr (Some q) n) out = Some out'" by (simp add: put_var_def)
    then have "pattern_set_default f out = Some out'"
      using q(1) same(1) str kinds_apart(3) [OF string(1)] by (simp add: pattern_set_default_def set_default_v_def)
    then show ?thesis using writes_var [OF kinds_apart(3) [OF string(1)] out' v(1)] same q(3) by auto
  qed
qed

lemma set_defaults_ok:
  assumes pat: "round_pattern pat" "\<And>f. f \<in> set pat \<Longrightarrow> member_ok f st"
    and fs: "set fs \<subseteq> set pat" "distinct fs" "\<And>f. f \<in> set fs \<Longrightarrow> \<not> sent st f" and room: "\<And>f. f \<in> set pat \<Longrightarrow> has_room out f"
  shows "\<exists>out'. pbc_pattern_set_default fs out = Some out' \<and> (\<forall>f \<in> set fs. member_same f st out') \<and>
    (\<forall>g \<in> set pat. \<forall>st'. g \<notin> set fs \<and> member_same g st' out \<longrightarrow> member_same g st' out')"
  using fs room
proof (induction fs arbitrary: out)
  case Nil
  then show ?case by simp
next
  case (Cons f fs)
  have f: "f \<in> set pat" "round_field f" "member_ok f st" "has_room out f" "\<not> sent st f"
    using Cons.prems pat by (auto simp: round_pattern_def)
  obtain out1 where out1: "pattern_set_default f out = Some out1" "writes_member f st out out1"
    using set_default_ok [OF f(2-5)] by blast
  have room1: "has_room out1 g" if "g \<in> set pat" for g
    using Cons.prems(4) [OF that] out1(2) by (simp add: has_room_def writes_member_def)
  obtain out' where out': "pbc_pattern_set_default fs out1 = Some out'" "\<And>g. g \<in> set fs \<Longrightarrow> member_same g st out'"
    "\<And>g st'. g \<in> set pat \<Longrightarrow> g \<notin> set fs \<Longrightarrow> member_same g st' out1 \<Longrightarrow> member_same g st' out'"
    using Cons.IH [OF _ _ _ room1] Cons.prems(1-3) by auto
  have "member_same g st' out1" if "g \<in> set pat" "g \<noteq> f" "member_same g st' out" for g st'
    using out1(2) that Cons.prems(4) [OF that(1)] pat(1) f(1) by (auto simp: writes_member_def round_pattern_def)
  moreover have "member_same f st out'"
    using out'(3) [OF f(1)] out1(2) Cons.prems(2) by (simp add: writes_member_def)
  ultimately show ?case using out1(1) out' by auto
qed

lemma marked_map: "marked False pat (map P pat) = filter (\<lambda>f. \<not> P f) pat"
  by (induction pat) (simp_all add: marked_def)

lemma wmsg_ne: "fs \<noteq> [] \<Longrightarrow> wmsg fs \<noteq> []"
  using wenc_ne by (cases fs) (force simp: wmsg_def)+

text \<open>Unpacking what was written.\<close>

lemma unpack_ok:
  assumes pat: "round_pattern pat" "\<And>f. f \<in> set pat \<Longrightarrow> member_ok f st" and room: "\<And>f. f \<in> set pat \<Longrightarrow> has_room out f"
    and data: "buffer = wmsg (struct_wfields st pat) @ post" "length buffer < 2 ^ 31"
  shows "\<exists>out'. pbc_pattern_unpack junk pat (Some buffer) (int (length (wmsg (struct_wfields st pat)))) env (m, out) = Some (env, (m, out'), 0) \<and>
    (\<forall>f \<in> set pat. member_same f st out')"
proof (cases "struct_wfields st pat = []")
  case True
  then have none: "\<not> sent st f" if "f \<in> set pat" for f using that by (simp add: struct_wfields_def filter_empty_conv)
  obtain out' where "pbc_pattern_set_default pat out = Some out'" "\<forall>f \<in> set pat. member_same f st out'"
    using set_defaults_ok [where fs = pat, OF pat subset_refl round_distinct [OF pat(1)] none room] by auto
  then show ?thesis using True by (simp add: pbc_pattern_unpack_def wmsg_def)
next
  case False
  let ?fs = "filter (sent st) pat" and ?w = "member_wfield st"
  have ws: "struct_wfields st pat = map ?w ?fs" by (simp add: struct_wfields_def)
  have valid: "\<forall>w \<in> set (struct_wfields st pat). wvalid w"
  proof
    fix w assume "w \<in> set (struct_wfields st pat)"
    then obtain f where f: "f \<in> set pat" "w = ?w f" by (auto simp: ws)
    then have "round_field f" "nat (pt_id f) < 2 ^ 28" using pat(1) by (auto simp: round_pattern_def round_field_def nat_less_iff)
    then have "wnum w < 2 ^ 28" using wnum_member pat(2) f by simp
    then show "wvalid w" using wnum_less [of w "2 ^ 28"] by (simp add: wvalid_def)
  qed
  obtain ctx g' where ctx: "pbcC_open junk (Some buffer) (int (length (wmsg (struct_wfields st pat)))) (mem_g m) = Some (int (length (struct_wfields st pat)), ctx, g')"
    "ctx_atoms ctx = watoms 0 (struct_wfields st pat)" "pbcC_close ctx g' = mem_g m"
    using open_fields [OF valid False, of junk post "mem_g m"] data by auto
  have m: "g_update (pbcC_close ctx) (m\<lparr>mem_g := g'\<rparr>) = m" using ctx(3) by (simp add: g_update_def)
  let ?seen = "map (\<lambda>f. f \<in> set ?fs) pat"
  have data': "buffer = [] @ wmsg (map ?w ?fs) @ post" using data(1) by (simp add: ws)
  have fs: "set ?fs \<subseteq> set pat" "distinct ?fs" using round_distinct [OF pat(1)] by auto
  have start: "replicate (length pat) False = map (\<lambda>_. False) pat" by (simp add: map_replicate_const)
  obtain out1 where out1: "unpack_atoms pat buffer (watoms 0 (map ?w ?fs)) 0 (replicate (length pat) False) (m\<lparr>mem_g := g'\<rparr>, out) =
      Some ((m\<lparr>mem_g := g'\<rparr>, out1), ?seen, None)" "length (cs_mem out1) = length (cs_mem out)" "\<forall>f \<in> set ?fs. member_same f st out1"
    using unpack_atoms_ok [OF pat fs data' data(2) room, of 0 "\<lambda>_. False" "m\<lparr>mem_g := g'\<rparr>"]
    unfolding start list.size(3) simp_thms by blast
  have rest: "marked False pat ?seen = filter (\<lambda>f. \<not> sent st f) pat"
    unfolding marked_map by (rule filter_cong) auto
  have room1: "has_room out1 f" if "f \<in> set pat" for f
    using room [OF that] out1(2) by (simp add: has_room_def)
  have left: "set (filter (\<lambda>f. \<not> sent st f) pat) \<subseteq> set pat" "distinct (filter (\<lambda>f. \<not> sent st f) pat)"
    "\<And>f. f \<in> set (filter (\<lambda>f. \<not> sent st f) pat) \<Longrightarrow> \<not> sent st f"
    using round_distinct [OF pat(1)] by auto
  obtain out' where out': "pbc_pattern_set_default (filter (\<lambda>f. \<not> sent st f) pat) out1 = Some out'"
    "\<forall>f \<in> set (filter (\<lambda>f. \<not> sent st f) pat). member_same f st out'"
    "\<forall>g \<in> set pat. \<forall>st'. g \<notin> set (filter (\<lambda>f. \<not> sent st f) pat) \<and> member_same g st' out1 \<longrightarrow> member_same g st' out'"
    using set_defaults_ok [OF pat left room1] by blast
  have "\<forall>f \<in> set pat. member_same f st out'" using out'(2,3) out1(3) by auto
  moreover have "wmsg (struct_wfields st pat) \<noteq> []" by (rule wmsg_ne [OF False])
  moreover have "0 < length (struct_wfields st pat)" using False by simp
  ultimately show ?thesis
    using ctx(1,2) out1(1) out'(1) unfolding pbc_pattern_unpack_def by (simp add: rest [simplified] m ws)
qed

text \<open>The room that is enough.\<close>

definition member_room :: "cstruct \<Rightarrow> pattern_field \<Rightarrow> nat" where
  "member_room st f = 20 + (if pt_ctype f = CTYPE_VAR then case cs_var st (pt_offset f) of Some (VStr s n) \<Rightarrow> nat n | _ \<Rightarrow> 0 else 0)"

lemma member_length:
  assumes "round_field f" and "member_ok f st"
  shows "length (wenc (member_wfield st f)) \<le> member_room st f"
proof -
  have id: "nat (pt_id f) < 2 ^ 28" using assms(1) by (simp add: round_field_def nat_less_iff)
  have tag: "length (leb (8 * nat (pt_id f) + k)) \<le> 5" if "k < 8" for k by (rule length_leb_32) (use that id in simp)
  consider (int) "int_member f" | (real) "real_member f" | (string) "string_member f" using assms(1) by (auto simp: round_field_def)
  then show ?thesis
  proof cases
    case string
    then obtain p n where v: "cs_var st (pt_offset f) = Some (VStr (Some p) n)" "0 \<le> n" "nat n \<le> length p" "n < 2 ^ 30"
      using assms(2) kinds_apart(3) by (auto simp: member_ok_def)
    have "length (leb (nat n)) \<le> 5" by (rule length_leb_32) (use v in simp)
    then show ?thesis using string kinds_apart(3) [OF string] v tag [of 2] by (simp add: member_wfield_def member_room_def wenc_def)
  next
    case int
    obtain x where x: "get_mem (num_size (pt_ctype f)) (pt_offset f) st = Some x" "pt_ctype f = CTYPE_BOOL \<longrightarrow> x \<le> 1"
      using assms(2) kinds_apart(1) [OF int] by (auto simp: member_ok_def)
    obtain h where "member_var (pt_ctype f) st (pt_offset f) = Some (VInt (ucast x) h)" using int_member_var [OF int x] by auto
    then have w: "member_wfield st f = int_wfield (pt_ptype f) (nat (pt_id f)) (ucast x) h"
      using kinds_apart(1) [OF int] by (simp add: member_wfield_def)
    have "length (wbody (int_wfield (pt_ptype f) (nat (pt_id f)) (ucast x) h)) \<le> 10"
      using length_encode by (simp add: int_wfield_def)
    moreover have "length (leb (wtag (int_wfield (pt_ptype f) (nat (pt_id f)) (ucast x) h))) \<le> 5"
      using tag [of 0] tag [of 1] tag [of 5] by (simp add: int_wfield_def)
    ultimately show ?thesis by (simp add: w wenc_def member_room_def)
  next
    case real
    obtain x where "get_mem (num_size (pt_ctype f)) (pt_offset f) st = Some x"
      using assms(2) kinds_apart(2) [OF real] by (auto simp: member_ok_def)
    then have "member_wfield st f = real_wfield (pt_ptype f) (nat (pt_id f)) (if pt_ctype f = CTYPE_DOUBLE then x else f2d (ucast x))"
      using kinds_apart(2) [OF real] real_member_var [OF real] by (simp add: member_wfield_def)
    then show ?thesis using tag [of 1] tag [of 5] by (simp add: real_wfield_def wenc_def member_room_def)
  qed
qed

lemma struct_length:
  assumes "\<And>f. f \<in> set pat \<Longrightarrow> round_field f \<and> member_ok f st"
  shows "length (wmsg (struct_wfields st pat)) \<le> sum_list (map (member_room st) pat)"
  using assms
proof (induction pat)
  case (Cons f pat)
  then show ?case using member_length [of f st] by (fastforce simp: struct_wfields_def wmsg_def)
qed (simp add: struct_wfields_def wmsg_def)

subsection \<open>Properties\<close>

text \<open>
  C5: A struct whose members are as \<open>round_field\<close> says (32-bit, 8-bit and boolean members of every integer type but SINT64, 64-bit ones of
  a type of 64 bits, doubles, floats that are not NaN, strings and bytes; no \<open>int16_t\<close>, no SINT64) and that share no memory is packed
  into a buffer with room for it and unpacked to a struct with the same numbers and strings. Optional members that have their default
  values are left out of the message and come back from the defaults; for a floating-point number that is one that compares equal.\<close>

theorem pattern_roundtrip:
  assumes "round_pattern pat" and "\<forall>f \<in> set pat. member_ok f st \<and> has_room out f"
    and "int (sum_list (map (member_room st) pat)) \<le> len" and "len \<le> int (length buf)" and "length buf < 2 ^ 31"
  shows "\<exists>buf' n out'. pbc_pattern_pack pat st buf len = Some (buf', n, len - n) \<and> 0 \<le> n \<and> n \<le> len \<and>
    pbc_pattern_unpack junk pat (Some buf') n env (m, out) = Some (env, (m, out'), 0) \<and> (\<forall>f \<in> set pat. member_same f st out')"
proof -
  have pat: "round_field f \<and> member_ok f st" if "f \<in> set pat" for f using assms(1,2) that by (auto simp: round_pattern_def)
  let ?ws = "struct_wfields st pat"
  have len: "int (length (wmsg ?ws)) \<le> len" using struct_length [of pat st] pat assms(3) by fastforce
  obtain t where t: "os_put (wmsg ?ws) \<lparr>os_buf = buf, os_pos = 0, os_len = len\<rparr> = Some t"
    "pack_members pat st \<lparr>os_buf = buf, os_pos = 0, os_len = len\<rparr> = Some (t, 0)"
    using pack_members_ok [of pat st "\<lparr>os_buf = buf, os_pos = 0, os_len = len\<rparr>", OF pat] len assms(4) by auto
  have buf: "os_buf t = wmsg ?ws @ drop (length (wmsg ?ws)) buf" "os_pos t = length (wmsg ?ws)" "length (os_buf t) = length buf"
    using t(1) by (auto simp: os_put_def split: if_splits)
  obtain out' where "pbc_pattern_unpack junk pat (Some (os_buf t)) (int (length (wmsg ?ws))) env (m, out) = Some (env, (m, out'), 0)"
    "\<forall>f \<in> set pat. member_same f st out'"
    using unpack_ok [OF assms(1) _ _ buf(1), of out junk env m] assms(2,5) buf(3) by auto
  then show ?thesis using t(2) buf(2) len by (auto simp: pbc_pattern_pack_def)
qed

text \<open>A struct with an \<open>int32_t\<close>, a \<open>double\<close> and an optional \<open>float\<close> and slice.\<close>

definition sample_pattern :: pbc_pattern where
  "sample_pattern =
     [\<lparr>pt_id = 1, pt_offset = 0, pt_ptype = PTYPE_SINT32, pt_ctype = CTYPE_INT32, pt_label = LABEL_REQUIRED, pt_defv = VNull\<rparr>,
      \<lparr>pt_id = 2, pt_offset = 16, pt_ptype = PTYPE_STRING, pt_ctype = CTYPE_VAR, pt_label = LABEL_OPTIONAL, pt_defv = VStr (Some [0]) 0\<rparr>,
      \<lparr>pt_id = 4, pt_offset = 4, pt_ptype = PTYPE_FLOAT, pt_ctype = CTYPE_FLOAT, pt_label = LABEL_OPTIONAL, pt_defv = VReal 0\<rparr>,
      \<lparr>pt_id = 5, pt_offset = 8, pt_ptype = PTYPE_DOUBLE, pt_ctype = CTYPE_DOUBLE, pt_label = LABEL_REQUIRED, pt_defv = VNull\<rparr>]"

definition sample_struct :: cstruct where
  "sample_struct = \<lparr>cs_mem = [0xfe, 0xff, 0xff, 0xff, 0, 0, 0, 0, 1, 2, 3, 4, 5, 6, 7, 8],
     cs_var = [16 \<mapsto> VStr (Some [0x68, 0x69]) 2], cs_array = (\<lambda>_. None)\<rparr>"

definition sample_output :: cstruct where
  "sample_output = \<lparr>cs_mem = replicate 16 0, cs_var = (\<lambda>_. None), cs_array = (\<lambda>_. None)\<rparr>"

lemmas sample_defs = sample_pattern_def sample_struct_def sample_output_def

lemma pattern_roundtrip_witness:
  "\<forall>(env :: unit pbc_env) m. \<exists>buf' n out'. pbc_pattern_pack sample_pattern sample_struct (replicate 100 0) 90 = Some (buf', n, 90 - n) \<and> 0 \<le> n \<and> n \<le> 90 \<and>
    pbc_pattern_unpack [] sample_pattern (Some buf') n env (m, sample_output) = Some (env, (m, out'), 0) \<and>
    (\<forall>f \<in> set sample_pattern. member_same f sample_struct out')"
proof (intro allI)
  fix env :: "unit pbc_env" and m
  have "round_pattern sample_pattern"
    by (simp add: sample_defs round_pattern_def round_field_def int_member_def real_member_def string_member_def string_default_def
        real_default_def int_types_def apart_def num_size_def)
  moreover have "\<forall>f \<in> set sample_pattern. member_ok f sample_struct \<and> has_room sample_output f"
    by (simp add: sample_defs member_ok_def has_room_def num_size_def get_mem_def flt_nan_def)
  moreover have "int (sum_list (map (member_room sample_struct) sample_pattern)) \<le> 90"
    by (simp add: sample_defs member_room_def)
  ultimately show "\<exists>buf' n out'. pbc_pattern_pack sample_pattern sample_struct (replicate 100 0) 90 = Some (buf', n, 90 - n) \<and> 0 \<le> n \<and> n \<le> 90 \<and>
    pbc_pattern_unpack [] sample_pattern (Some buf') n env (m, sample_output) = Some (env, (m, out'), 0) \<and>
    (\<forall>f \<in> set sample_pattern. member_same f sample_struct out')"
    by (rule pattern_roundtrip) simp_all
qed

text \<open>
  C38: An \<open>sint64\<close> member that is packed cannot be unpacked: where the payload of a string is looked for, a varint is found, and the
  result is -1.\<close>

theorem pattern_sint64_refused:
  assumes "pt_ptype f = PTYPE_SINT64" and "pt_ctype f = CTYPE_INT64" and "pt_label f = LABEL_REQUIRED" and "0 \<le> pt_id f" and "pt_id f < 2 ^ 28"
    and "get_mem 8 (pt_offset f) st = Some x" and "15 \<le> len" and "len \<le> int (length buf)" and "length buf < 2 ^ 31"
  shows "\<exists>buf' n. pbc_pattern_pack [f] st buf len = Some (buf', n, len - n) \<and>
    pbc_pattern_unpack junk [f] (Some buf') n env (m, out) = Some (env\<lparr>env_lasterror := ''Pattern unpack field error''\<rparr>, (m, out), - 1)"
proof -
  let ?z = "push_bit 1 x XOR signed_drop_bit 63 x" and ?s = "\<lparr>os_buf = buf, os_pos = 0, os_len = len\<rparr>"
  let ?w = "WVarint (nat (pt_id f)) ?z"
  have id: "nat (pt_id f) < 2 ^ 28" "pt_id f < 2 ^ 29" using assms(4,5) by simp_all
  have "length (leb (8 * nat (pt_id f))) \<le> 5" by (rule length_leb_32) (use id in simp)
  then have room: "int (length (leb (8 * nat (pt_id f) + unat WT_VARINT) @ pbcV_encode ?z)) \<le> os_len ?s"
    using length_encode [of ?z] assms(7) by simp
  have body: "pack_number (pt_ptype f) (pt_ctype f) t st (pt_offset f) = put_result (pbcV_encode ?z) t"
    if "int (length (pbcV_encode ?z)) \<le> os_len t" for t
    using that assms(1,2,6)
    by (simp add: pack_number_def member_var_def var_low_def var_hi_def split_64 pack_sint64_def pbcV_zigzag_def put_varint_room)
  obtain t where t: "os_put (wenc ?w) ?s = Some t" "pack_field f (pt_ctype f) ?s st (pt_offset f) = Some (t, int (length (wenc ?w)))"
    using tag_then [OF assms(4) id(2) _ _ room, of "\<lambda>t. pack_number (pt_ptype f) (pt_ctype f) t st (pt_offset f)", OF _ _ body] assms(1,8)
    by (auto simp: wenc_def pack_field_def number_types_def wiretype_of_def)
  have buf: "os_buf t = wmsg [?w] @ drop (length (wenc ?w)) buf" "os_pos t = length (wenc ?w)" "length (os_buf t) = length buf"
    using t(1) by (auto simp: os_put_def wmsg_def split: if_splits)
  have pack: "pbc_pattern_pack [f] st buf len = Some (os_buf t, int (length (wmsg [?w])), len - int (length (wmsg [?w])))"
    using t(2) buf(2) assms(3) by (simp add: pbc_pattern_pack_def pack_member_def wmsg_def)
  have valid: "\<forall>w \<in> set [?w]. wvalid w" using id by (simp add: wvalid_def)
  obtain ctx g' where ctx: "pbcC_open junk (Some (os_buf t)) (int (length (wmsg [?w]))) (mem_g m) = Some (1, ctx, g')"
    "ctx_atoms ctx = [watom 0 ?w]" "pbcC_close ctx g' = mem_g m"
    using open_fields [OF valid _ , of junk "drop (length (wenc ?w)) buf" "mem_g m"] buf assms(9) by (auto simp: buf(1) [symmetric])
  have m: "g_update (pbcC_close ctx) (m\<lparr>mem_g := g'\<rparr>) = m" using ctx(3) by (simp add: g_update_def)
  have "atom_id (watom 0 ?w) = pt_id f" using atom_id_watom [of ?w 0] id assms(4) by simp
  then have hit: "bsearch_pattern [f] (atom_id (watom 0 ?w)) = Some (Some 0)" using bsearch_hit [of "[f]" 0] by simp
  have "wtag ?w mod 8 = 0" unfolding wtag.simps by simp
  then have "wire_id (watom 0 ?w) AND 7 = WT_VARINT"
    using tag_type [of "wtag ?w"] id by (simp add: wire_id_watom)
  then have refused: "unpack_value (pt_ctype f) (pt_ptype f) (os_buf t) (watom 0 ?w) (pt_offset f) out = Some (out, - 1)"
    using assms(1) by (simp add: unpack_value_def)
  have "\<not> is_array_field f" using assms(2) by (simp add: is_array_field_def)
  then have "pbc_pattern_unpack junk [f] (Some (os_buf t)) (int (length (wmsg [?w]))) env (m, out) =
      Some (env\<lparr>env_lasterror := ''Pattern unpack field error''\<rparr>, (m, out), - 1)"
    using ctx(1,2) hit refused m assms(2) wmsg_ne [of "[?w]"]
    by (simp add: pbc_pattern_unpack_def unpack_field_def marked_def)
  then show ?thesis using pack by blast
qed

lemma pattern_sint64_refused_witness:
  "\<forall>(env :: unit pbc_env) m. \<exists>buf' n.
    pbc_pattern_pack [\<lparr>pt_id = 1, pt_offset = 8, pt_ptype = PTYPE_SINT64, pt_ctype = CTYPE_INT64, pt_label = LABEL_REQUIRED, pt_defv = VNull\<rparr>]
      sample_struct (replicate 20 0) 20 = Some (buf', n, 20 - n) \<and>
    pbc_pattern_unpack [] [\<lparr>pt_id = 1, pt_offset = 8, pt_ptype = PTYPE_SINT64, pt_ctype = CTYPE_INT64, pt_label = LABEL_REQUIRED, pt_defv = VNull\<rparr>]
      (Some buf') n env (m, sample_output) = Some (env\<lparr>env_lasterror := ''Pattern unpack field error''\<rparr>, (m, sample_output), - 1)"
proof (intro allI)
  fix env :: "unit pbc_env" and m
  have "\<exists>x. get_mem 8 8 sample_struct = Some x" by (simp add: sample_struct_def get_mem_def)
  then obtain x where "get_mem 8 8 sample_struct = Some x" by blast
  then show "\<exists>buf' n.
    pbc_pattern_pack [\<lparr>pt_id = 1, pt_offset = 8, pt_ptype = PTYPE_SINT64, pt_ctype = CTYPE_INT64, pt_label = LABEL_REQUIRED, pt_defv = VNull\<rparr>]
      sample_struct (replicate 20 0) 20 = Some (buf', n, 20 - n) \<and>
    pbc_pattern_unpack [] [\<lparr>pt_id = 1, pt_offset = 8, pt_ptype = PTYPE_SINT64, pt_ctype = CTYPE_INT64, pt_label = LABEL_REQUIRED, pt_defv = VNull\<rparr>]
      (Some buf') n env (m, sample_output) = Some (env\<lparr>env_lasterror := ''Pattern unpack field error''\<rparr>, (m, sample_output), - 1)"
    by (intro pattern_sint64_refused [where x = x]) simp_all
qed

text \<open>Of the number for an \<open>int16_t\<close> only the low byte is stored; the high byte is what it was.\<close>

lemma pattern_int16_low_byte:
  assumes "0 \<le> off" and "nat off + 2 \<le> length (cs_mem out)"
  shows "\<exists>out'. write_longlong CTYPE_INT16 i off out = Some (out', 0) \<and>
    cs_mem out' ! nat off = ucast (ll_low i) \<and> cs_mem out' ! (nat off + 1) = cs_mem out ! (nat off + 1)"
proof -
  have "(ucast (ucast (ll_low i) :: u64) :: byte) = ucast (ll_low i)" by (rule bit_word_eqI) (auto simp: bit_simps)
  then show ?thesis using assms by (simp add: write_longlong_def put_mem_def le_bytes_def nth_append)
qed

subsection \<open>Formats\<close>

text \<open>A format is words, a key and a C type in turn, with blanks in front.\<close>

type_synonym format_field = "(cstring \<times> cstring) \<times> cstring \<times> cstring"

definition format_text :: "format_field list \<Rightarrow> cstring" where
  "format_text fs = concat (map (\<lambda>((b1, w1), b2, w2). b1 @ w1 @ b2 @ w2) fs)"

definition format_words :: "format_field list \<Rightarrow> cstring list" where
  "format_words fs = concat (map (\<lambda>((b1, w1), b2, w2). [w1, w2]) fs)"

definition blanks :: "cstring \<Rightarrow> bool" where
  "blanks b \<longleftrightarrow> b \<noteq> [] \<and> (\<forall>c \<in> set b. is_blank c)"

definition word_ok :: "cstring \<Rightarrow> bool" where
  "word_ok w \<longleftrightarrow> w \<noteq> [] \<and> (\<forall>c \<in> set w. \<not> is_blank c)"

definition format_ok :: "format_field list \<Rightarrow> bool" where
  "format_ok fs \<longleftrightarrow> (\<forall>((b1, w1), b2, w2) \<in> set fs. blanks b1 \<and> word_ok w1 \<and> blanks b2 \<and> word_ok w2)"

lemma copy_word:
  assumes "\<forall>c \<in> set b. is_blank c" and "word_ok w" and "rest = [] \<or> is_blank (hd rest)"
  shows "copy_string (b @ w @ rest) = (w, rest)"
proof -
  have "dropWhile is_blank (w @ rest) = w @ rest" using assms(2) by (cases w) (auto simp: word_ok_def)
  moreover have "takeWhile (\<lambda>c. \<not> is_blank c) (w @ rest) = w" "dropWhile (\<lambda>c. \<not> is_blank c) (w @ rest) = rest"
    using assms(2,3) by (cases rest; auto simp: word_ok_def takeWhile_append dropWhile_append)+
  ultimately show ?thesis using assms(1) by (simp add: copy_string_def Let_def dropWhile_append)
qed

lemma scan_fields:
  assumes "format_ok fs" and "\<forall>c \<in> set b1. is_blank c" and "word_ok w1" and "blanks b2" and "word_ok w2"
    and "trail = [] \<or> blanks trail"
  shows "scan_pattern (b1 @ w1 @ b2 @ w2 @ format_text fs @ trail) n ws =
    (if trail = [] then n + Suc (length fs) else 0,
     ws @ w1 # w2 # format_words fs @ (if trail = [] then [] else [[]]))"
  using assms(1-5)
proof (induction fs arbitrary: b1 w1 b2 w2 n ws)
  case Nil
  have w: "copy_string (b1 @ w1 @ b2 @ w2 @ trail) = (w1, b2 @ w2 @ trail)"
    by (rule copy_word) (use Nil.prems in \<open>auto simp: blanks_def\<close>)
  have w': "copy_string (b2 @ w2 @ trail) = (w2, trail)"
    by (rule copy_word) (use Nil.prems assms(6) in \<open>auto simp: blanks_def\<close>)
  show ?case
  proof (cases "trail = []")
    case True
    then show ?thesis using w w' Nil.prems(5) by (subst scan_pattern.simps) (simp add: format_text_def format_words_def word_ok_def)
  next
    case False
    then have "dropWhile is_blank trail = []" using assms(6) by (auto simp: blanks_def)
    then have "copy_string trail = ([], [])" by (simp add: copy_string_def Let_def del: dropWhile_eq_Nil_conv)
    moreover have "copy_string [] = ([], [])" by (simp add: copy_string_def)
    ultimately have "scan_pattern trail (n + 1) (ws @ [w1, w2]) = (0, (ws @ [w1, w2]) @ [[]])"
      by (subst scan_pattern.simps) simp
    then show ?thesis using w w' False Nil.prems(3) by (subst scan_pattern.simps) (simp add: format_text_def format_words_def blanks_def)
  qed
next
  case (Cons f fs)
  obtain c1 v1 c2 v2 where f: "f = ((c1, v1), c2, v2)" by (metis surj_pair)
  have ok: "format_ok fs" "\<forall>c \<in> set c1. is_blank c" "word_ok v1" "blanks c2" "word_ok v2" "c1 \<noteq> []"
    using Cons.prems(1) by (auto simp: f format_ok_def blanks_def)
  let ?rest = "format_text (f # fs) @ trail"
  have rest: "?rest = c1 @ v1 @ c2 @ v2 @ format_text fs @ trail" by (simp add: f format_text_def)
  have w: "copy_string (b1 @ w1 @ b2 @ w2 @ ?rest) = (w1, b2 @ w2 @ ?rest)"
    by (rule copy_word) (use Cons.prems in \<open>auto simp: blanks_def\<close>)
  have w': "copy_string (b2 @ w2 @ ?rest) = (w2, ?rest)"
    by (rule copy_word) (use Cons.prems ok in \<open>auto simp: blanks_def rest\<close>)
  have "?rest \<noteq> []" "b2 @ w2 @ ?rest \<noteq> []" using ok(6) rest by simp_all
  then have "scan_pattern (b1 @ w1 @ b2 @ w2 @ ?rest) n ws = scan_pattern ?rest (n + 1) (ws @ [w1, w2])"
    using w w' by (subst scan_pattern.simps) (simp del: append_is_Nil_conv)
  also have "\<dots> = (if trail = [] then n + 1 + Suc (length fs) else 0, (ws @ [w1, w2]) @ v1 # v2 # format_words fs @ (if trail = [] then [] else [[]]))"
    unfolding rest by (rule Cons.IH [OF ok(1-5)])
  finally show ?case by (simp add: f format_words_def)
qed

text \<open>
  A format with blanks between its words is taken apart into the words, two for each field; with a blank at its end it counts as a
  format without fields, and the pattern that is made has none.\<close>

theorem pattern_formats:
  assumes "format_ok (((b1, w1), b2, w2) # fs)" and "blanks trail" and "w1 ! 0 \<noteq> 64"
    and "pbcP_get_message p name = Some (Some t)" and "t < length (st_messages p)"
  shows "scan_pattern (w1 @ b2 @ w2 @ format_text fs) 0 [] = (Suc (length fs), w1 # w2 # format_words fs) \<and>
    pbc_pattern_new p name (w1 @ b2 @ w2 @ format_text fs @ trail) args m = Some (p, g_update pbcM_malloc m, Some [])"
proof -
  have ok: "format_ok fs" "word_ok w1" "blanks b2" "word_ok w2" using assms(1) by (auto simp: format_ok_def)
  have "scan_pattern (w1 @ b2 @ w2 @ format_text fs) 0 [] = (Suc (length fs), w1 # w2 # format_words fs)"
    using scan_fields [OF ok(1) _ ok(2-4), of "[]" "[]" 0 "[]"] by simp
  moreover have "fst (scan_pattern (w1 @ b2 @ w2 @ format_text fs @ trail) 0 []) = 0"
    using scan_fields [OF ok(1) _ ok(2-4), of "[]" trail 0 "[]"] assms(2) by (simp add: blanks_def)
  then have "pattern_new p msg (w1 @ b2 @ w2 @ format_text fs @ trail) (Listed args) m = Some (p, g_update pbcM_malloc m, Some [])" for msg
    by (cases "scan_pattern (w1 @ b2 @ w2 @ format_text fs @ trail) 0 []")
      (simp add: pattern_new_def pbcP_new_def finish_pattern_def sort_fields_def)
  moreover have "char_at (w1 @ b2 @ w2 @ format_text fs @ trail) 0 = Some (w1 ! 0)"
    using ok(2) by (cases w1) (simp_all add: char_at_def word_ok_def)
  ultimately show ?thesis using assms(3-5) by (simp add: pbc_pattern_new_def rd_def)
qed

text \<open>The format \<open>id %d name %s\<close>, followed by a space, for a message without fields in an environment with nothing else.\<close>

definition sample_env :: "unit pbc_env" where
  "sample_env = \<lparr>env_files = \<lparr>sp_heap = False, sp_size = 0, sp_slot = [free_slot]\<rparr>, env_enums = \<lparr>sp_heap = False, sp_size = 0, sp_slot = [free_slot]\<rparr>,
     env_msgs = \<lparr>sp_heap = False, sp_size = 1, sp_slot = [\<lparr>spk = Some (cstr ''m''), sph = calc_hash (cstr ''m''), spp = Some 0, spn = 0\<rparr>]\<rparr>,
     env_lasterror = [], st_fields = [], st_messages = [\<lparr>pm_key = cstr ''m'', pm_id = None,
       pm_name = \<lparr>sp_heap = False, sp_size = 0, sp_slot = [free_slot]\<rparr>, pm_def = False\<rparr>], st_enums = []\<rparr>"

lemma pattern_formats_witness:
  "\<forall>m. scan_pattern (cstr ''id'' @ cstr '' '' @ cstr ''%d'' @ format_text [((cstr '' '', cstr ''name''), cstr '' '', cstr ''%s'')]) 0 [] =
      (Suc (length [((cstr '' '', cstr ''name''), cstr '' '', cstr ''%s'')]), cstr ''id'' # cstr ''%d'' # format_words [((cstr '' '', cstr ''name''), cstr '' '', cstr ''%s'')]) \<and>
    pbc_pattern_new sample_env (cstr ''m'') (cstr ''id'' @ cstr '' '' @ cstr ''%d'' @ format_text [((cstr '' '', cstr ''name''), cstr '' '', cstr ''%s'')] @ cstr '' '') [0, 8] m =
      Some (sample_env, g_update pbcM_malloc m, Some [])"
proof
  fix m
  have words: "format_ok [((cstr '' '', cstr ''id''), cstr '' '', cstr ''%d''), ((cstr '' '', cstr ''name''), cstr '' '', cstr ''%s'')]"
    by (simp add: format_ok_def blanks_def word_ok_def is_blank_def cstr_def)
  have query: "pbcP_get_message sample_env (cstr ''m'') = Some (Some 0)"
    by (simp add: pbcP_get_message_def sample_env_def pbcM_sp_query_def sp_search_def sp_index_def sp_cap_def sp_match_def)
  show "scan_pattern (cstr ''id'' @ cstr '' '' @ cstr ''%d'' @ format_text [((cstr '' '', cstr ''name''), cstr '' '', cstr ''%s'')]) 0 [] =
      (Suc (length [((cstr '' '', cstr ''name''), cstr '' '', cstr ''%s'')]), cstr ''id'' # cstr ''%d'' # format_words [((cstr '' '', cstr ''name''), cstr '' '', cstr ''%s'')]) \<and>
    pbc_pattern_new sample_env (cstr ''m'') (cstr ''id'' @ cstr '' '' @ cstr ''%d'' @ format_text [((cstr '' '', cstr ''name''), cstr '' '', cstr ''%s'')] @ cstr '' '') [0, 8] m =
      Some (sample_env, g_update pbcM_malloc m, Some [])"
    by (rule pattern_formats [OF words _ _ query]) (simp_all add: blanks_def is_blank_def cstr_def sample_env_def)
qed

end
