(* ===== verification/Bootstrap.thy ===== *)
theory Bootstrap
  imports Pattern
begin

section \<open>The descriptors that are built in (pbc/src/bootstrap.c)\<close>

text \<open>
  A new environment knows the messages of \<open>google.protobuf.Descriptor.proto\<close>, so that it can read descriptors. They come from a message
  \<open>pbc.file\<close>, compiled into the library, which is read with two patterns made by hand: one for the file, whose members are arrays, and
  one for a field. The bytes of that message are generated (\<open>descriptor.pbc.h\<close>) and a parameter here.

  \<open>set_field_one\<close> replaces the type name of a field by its message or enum and the text of an enum's default by the value, when all types
  are known. It is also used for the descriptors registered later.

  Other parameters are bytes of the stack that were never written: \<open>junk\<close> for the atoms of a context, \<open>stack\<close> for a \<open>struct field_t\<close> (80 bytes)
  and \<open>hi\<close>, by the number of the field in the file, for the half of an integer default that \<open>set_default\<close> leaves as it was.
\<close>

subsection \<open>Resolving types and defaults of enums\<close>

text \<open>The pointer \<open>default_v->s.str\<close>; a union of zero bytes is a NULL pointer, other integers are no pointers.\<close>

definition default_text :: "pbc_var \<Rightarrow> byte list option option" where
  "default_text v =
     (case v of VNull \<Rightarrow> Some None | VStr s n \<Rightarrow> Some s
      | VInt lo h \<Rightarrow> if lo = 0 \<and> h = 0 then Some None else None | _ \<Rightarrow> None)"

definition nonempty_text :: "byte list option \<Rightarrow> bool option" where
  "nonempty_text str = (case str of None \<Rightarrow> Some False | Some s \<Rightarrow> map_option (\<lambda>c. c \<noteq> 0) (rd s 0))"

text \<open>
  The default of a field of an enum type. \<open>_pbcM_si_query\<close> returns 1 for a name that it does not find, which the test for a negative
  result misses; then the number is what the union holds there, the low half \<open>addr\<close> of the address of the text.\<close>

definition enum_default :: "int \<Rightarrow> pbc_enum \<Rightarrow> pbc_var \<Rightarrow> pbc_var option" where
  "enum_default addr e v = do {
     str \<leftarrow> default_text v;
     named \<leftarrow> nonempty_text str;
     if named then do {
       name \<leftarrow> Option.bind str c_string;
       (err, i) \<leftarrow> pbcM_si_query (pe_name e) name;
       if err < 0 then Some (pe_default e)
       else do {
         let i = (case i of Some i \<Rightarrow> i | None \<Rightarrow> addr);
         nm \<leftarrow> pbcM_ip_query (Some (pe_id e)) i;
         Some (VEnum i nm) } }
     else Some (pe_default e) }"

definition put_field :: "nat \<Rightarrow> pbc_field \<Rightarrow> 'pool pbc_env \<Rightarrow> 'pool pbc_env" where
  "put_field fi f p = p\<lparr>st_fields := (st_fields p)[fi := f]\<rparr>"

definition name_of_type :: "pbc_field \<Rightarrow> cstring option" where
  "name_of_type f = (case pf_tname f of TName n \<Rightarrow> n | _ \<Rightarrow> None)"

definition set_field_one :: "(nat \<Rightarrow> int) \<Rightarrow> 'pool pbc_env \<Rightarrow> nat \<Rightarrow> 'pool pbc_env option" where
  "set_field_one addr p fi = do {
     f \<leftarrow> rd (st_fields p) fi;
     if pf_type f = PTYPE_MESSAGE then do {
       type_name \<leftarrow> name_of_type f;
       msg \<leftarrow> pbcM_sp_query (Some (env_msgs p)) type_name;
       Some (put_field fi (f\<lparr>pf_tname := TMsg msg\<rparr>) p) }
     else if pf_type f = PTYPE_ENUM then do {
       type_name \<leftarrow> name_of_type f;
       ei \<leftarrow> pbcM_sp_query (Some (env_enums p)) type_name;
       e \<leftarrow> Option.bind ei (rd (st_enums p));
       v \<leftarrow> enum_default (addr fi) e (pf_default f);
       Some (put_field fi (f\<lparr>pf_tname := TEnum ei, pf_default := v\<rparr>) p) }
     else Some p }"

text \<open>The loop over the queue; \<open>n\<close> cells are left, from \<open>i\<close> on.\<close>

fun set_fields :: "(nat \<Rightarrow> int) \<Rightarrow> nat vararray \<Rightarrow> nat \<Rightarrow> nat \<Rightarrow> 'pool pbc_env \<Rightarrow> 'pool pbc_env option" where
  "set_fields addr queue 0 i p = Some p"
| "set_fields addr queue (Suc n) i p = do {
     fi \<leftarrow> pbcA_index queue (int i);
     p \<leftarrow> set_field_one addr p fi;
     set_fields addr queue n (i + 1) p }"

definition pbcB_register_fields :: "(nat \<Rightarrow> int) \<Rightarrow> 'pool pbc_env \<Rightarrow> nat vararray \<Rightarrow> 'pool pbc_env option" where
  "pbcB_register_fields addr p queue = set_fields addr queue (pbc_array_size queue) 0 p"

subsection \<open>The two patterns\<close>

definition set_string :: "pattern_field \<Rightarrow> pattern_field" where
  "set_string f = f\<lparr>pt_ptype := PTYPE_STRING, pt_ctype := CTYPE_VAR, pt_defv := VStr (Some [0]) 0\<rparr>"

definition set_int32 :: "pattern_field \<Rightarrow> pattern_field" where
  "set_int32 f = f\<lparr>pt_ptype := PTYPE_INT32, pt_ctype := CTYPE_INT32\<rparr>"

definition set_double :: "pattern_field \<Rightarrow> pattern_field" where
  "set_double f = f\<lparr>pt_ptype := PTYPE_DOUBLE, pt_ctype := CTYPE_DOUBLE\<rparr>"

definition set_message_array :: "pattern_field \<Rightarrow> pattern_field" where
  "set_message_array f = f\<lparr>pt_ptype := PTYPE_MESSAGE, pt_ctype := CTYPE_ARRAY\<rparr>"

definition set_string_array :: "pattern_field \<Rightarrow> pattern_field" where
  "set_string_array f = f\<lparr>pt_ptype := PTYPE_STRING, pt_ctype := CTYPE_ARRAY\<rparr>"

definition set_int32_array :: "pattern_field \<Rightarrow> pattern_field" where
  "set_int32_array f = f\<lparr>pt_ptype := PTYPE_INT32, pt_ctype := CTYPE_ARRAY\<rparr>"

definition set_pattern :: "nat \<Rightarrow> int \<Rightarrow> (pattern_field \<Rightarrow> pattern_field) \<Rightarrow> pbc_pattern \<Rightarrow> pbc_pattern" where
  "set_pattern idx off setter pat = pat[idx := setter ((pat ! idx)\<lparr>pt_id := int idx + 1, pt_offset := off\<rparr>)]"

text \<open>The offsets of the members, where pointers and doubles have 8 bytes and an array has 64.\<close>

definition set_members :: "(int \<times> (pattern_field \<Rightarrow> pattern_field)) list \<Rightarrow> pbc_pattern \<Rightarrow> pbc_pattern" where
  "set_members ms pat = foldl (\<lambda>pat (idx, off, setter). set_pattern idx off setter pat) pat (enumerate 0 ms)"

definition field_members :: "(int \<times> (pattern_field \<Rightarrow> pattern_field)) list" where
  "field_members = [(0, set_string), (16, set_int32), (20, set_int32), (24, set_int32), (32, set_string), (48, set_int32), (56, set_string), (72, set_double)]"

definition file_members :: "(int \<times> (pattern_field \<Rightarrow> pattern_field)) list" where
  "file_members = [(0, set_string), (16, set_string_array), (80, set_string_array), (144, set_int32_array), (208, set_message_array),
     (272, set_string_array), (336, set_int32_array), (400, set_string_array), (464, set_int32_array)]"

definition FIELD_T :: "mem \<Rightarrow> mem \<times> pbc_pattern" where
  "FIELD_T m = (let (m, pat) = pbcP_new 8 m in (m, set_members field_members pat))"

text \<open>The tenth field is never set.\<close>

definition FILE_T :: "mem \<Rightarrow> mem \<times> pbc_pattern" where
  "FILE_T m = (let (m, pat) = pbcP_new 10 m in (m, set_members file_members pat))"

subsection \<open>Enums of the file\<close>

text \<open>A member of \<open>struct file_t\<close> at an index, a union.\<close>

abbreviation F_DEPENDENCY :: int where "F_DEPENDENCY \<equiv> 16"
abbreviation F_MESSAGE_NAME :: int where "F_MESSAGE_NAME \<equiv> 80"
abbreviation F_MESSAGE_SIZE :: int where "F_MESSAGE_SIZE \<equiv> 144"
abbreviation F_MESSAGE_FIELD :: int where "F_MESSAGE_FIELD \<equiv> 208"
abbreviation F_ENUM_NAME :: int where "F_ENUM_NAME \<equiv> 272"
abbreviation F_ENUM_SIZE :: int where "F_ENUM_SIZE \<equiv> 336"
abbreviation F_ENUM_STRING :: int where "F_ENUM_STRING \<equiv> 400"
abbreviation F_ENUM_ID :: int where "F_ENUM_ID \<equiv> 464"

definition file_var :: "cstruct \<Rightarrow> int \<Rightarrow> int \<Rightarrow> pbc_var option" where
  "file_var file member i = do { a \<leftarrow> cs_array file member; pbcA_index a i }"

definition file_low :: "cstruct \<Rightarrow> int \<Rightarrow> int \<Rightarrow> u32 option" where
  "file_low file member i = do { v \<leftarrow> file_var file member i; var_low v }"

text \<open>The C string that a string member points to.\<close>

definition var_text :: "pbc_var \<Rightarrow> cstring option" where
  "var_text v = do { (str, n) \<leftarrow> var_str v; s \<leftarrow> str; c_string s }"

definition file_text :: "cstruct \<Rightarrow> int \<Rightarrow> int \<Rightarrow> cstring option" where
  "file_text file member i = do { v \<leftarrow> file_var file member i; var_text v }"

fun enum_table :: "cstruct \<Rightarrow> int \<Rightarrow> nat \<Rightarrow> kv_s list option" where
  "enum_table file start 0 = Some []"
| "enum_table file start (Suc sz) = do {
     i \<leftarrow> file_low file F_ENUM_ID start;
     str \<leftarrow> file_text file F_ENUM_STRING start;
     rest \<leftarrow> enum_table file (start + 1) sz;
     Some (\<lparr>kvs_id = sint i, kvs_pointer = str\<rparr> # rest) }"

definition set_enum_one :: "mem \<Rightarrow> 'pool pbc_env \<Rightarrow> cstruct \<Rightarrow> cstring \<Rightarrow> int \<Rightarrow> int \<Rightarrow> (mem \<times> 'pool pbc_env) option" where
  "set_enum_one m p file name start sz = do {
     let m = g_update pbcM_malloc m;
     table \<leftarrow> enum_table file start (nat sz);
     (m, p, _) \<leftarrow> pbcP_push_enum p name table m;
     Some (g_update (pbcM_free (Some table)) m, p) }"

text \<open>The sum with the unsigned size is stored in an \<open>int\<close>.\<close>

definition next_start :: "int \<Rightarrow> u32 \<Rightarrow> int" where
  "next_start start sz = sint (of_int start + sz)"

fun set_enums_from :: "cstruct \<Rightarrow> nat \<Rightarrow> nat \<Rightarrow> int \<Rightarrow> mem \<times> 'pool pbc_env \<Rightarrow> (mem \<times> 'pool pbc_env) option" where
  "set_enums_from file 0 i start s = Some s"
| "set_enums_from file (Suc n) i start (m, p) = do {
     name \<leftarrow> file_text file F_ENUM_NAME (int i);
     sz \<leftarrow> file_low file F_ENUM_SIZE (int i);
     s \<leftarrow> set_enum_one m p file name start (sint sz);
     set_enums_from file n (i + 1) (next_start start sz) s }"

definition set_enums :: "cstruct \<Rightarrow> mem \<times> 'pool pbc_env \<Rightarrow> (mem \<times> 'pool pbc_env) option" where
  "set_enums file s = do {
     a \<leftarrow> cs_array file F_ENUM_SIZE;
     set_enums_from file (pbc_array_size a) 0 0 s }"

subsection \<open>Messages of the file\<close>

definition int_at_member :: "int \<Rightarrow> cstruct \<Rightarrow> int option" where
  "int_at_member off st = map_option (\<lambda>w. sint (ucast w :: u32)) (get_mem 4 off st)"

definition set_default :: "u32 \<Rightarrow> int \<Rightarrow> cstruct \<Rightarrow> pbc_var option" where
  "set_default hi type input =
     (if type = PTYPE_DOUBLE \<or> type = PTYPE_FLOAT then map_option VReal (get_mem 8 72 input)
      else if type = PTYPE_STRING \<or> type = PTYPE_ENUM then cs_var input 56
      else do { i \<leftarrow> int_at_member 48 input; Some (VInt (of_int i) hi) })"

text \<open>The \<open>struct _field\<close> from a \<open>struct field_t\<close>. A type name without a NUL is as bad as NULL: what reads it is undefined.\<close>

definition field_from :: "u32 \<Rightarrow> cstruct \<Rightarrow> pbc_field option" where
  "field_from hi input = do {
     i \<leftarrow> int_at_member 16 input;
     nm \<leftarrow> Option.bind (cs_var input 0) var_text;
     type \<leftarrow> int_at_member 24 input;
     label \<leftarrow> int_at_member 20 input;
     (type_name, n) \<leftarrow> Option.bind (cs_var input 32) var_str;
     v \<leftarrow> set_default hi type input;
     Some \<lparr>pf_id = i, pf_name = nm, pf_type = type, pf_label = label, pf_default = v,
           pf_tname = TName (Option.bind type_name c_string)\<rparr> }"

type_synonym 'pool registry = "mem \<times> 'pool pbc_env \<times> nat vararray"

fun set_fields_from :: "byte list \<Rightarrow> byte list \<Rightarrow> (int \<Rightarrow> u32) \<Rightarrow> pbc_pattern \<Rightarrow> cstruct \<Rightarrow> cstring \<Rightarrow> int \<Rightarrow> nat
    \<Rightarrow> 'pool registry \<Rightarrow> 'pool registry option" where
  "set_fields_from junk stack hi pat file name start 0 s = Some s"
| "set_fields_from junk stack hi pat file name start (Suc sz) (m, p, queue) = do {
     v \<leftarrow> file_var file F_MESSAGE_FIELD start;
     (buffer, n) \<leftarrow> var_str v;
     (p, (m, field), ret) \<leftarrow> pbc_pattern_unpack junk pat buffer n p (m, local_var\<lparr>cs_mem := stack\<rparr>);
     s \<leftarrow> (if ret \<noteq> 0 then Some (m, p, queue)
           else do { f \<leftarrow> field_from (hi start) field; pbcP_push_message p name f queue m });
     set_fields_from junk stack hi pat file name (start + 1) sz s }"

definition set_msg_one :: "byte list \<Rightarrow> byte list \<Rightarrow> (int \<Rightarrow> u32) \<Rightarrow> pbc_pattern \<Rightarrow> cstruct \<Rightarrow> cstring \<Rightarrow> int \<Rightarrow> int
    \<Rightarrow> 'pool registry \<Rightarrow> 'pool registry option" where
  "set_msg_one junk stack hi pat file name start sz s = do {
     (m, p, queue) \<leftarrow> set_fields_from junk stack hi pat file name start (nat sz) s;
     (m, p, _) \<leftarrow> pbcP_init_message p name m;
     Some (m, p, queue) }"

fun set_msgs_from :: "byte list \<Rightarrow> byte list \<Rightarrow> (int \<Rightarrow> u32) \<Rightarrow> pbc_pattern \<Rightarrow> cstruct \<Rightarrow> nat \<Rightarrow> nat \<Rightarrow> int
    \<Rightarrow> 'pool registry \<Rightarrow> 'pool registry option" where
  "set_msgs_from junk stack hi pat file 0 i start s = Some s"
| "set_msgs_from junk stack hi pat file (Suc n) i start s = do {
     name \<leftarrow> file_text file F_MESSAGE_NAME (int i);
     sz \<leftarrow> file_low file F_MESSAGE_SIZE (int i);
     s \<leftarrow> set_msg_one junk stack hi pat file name start (sint sz) s;
     set_msgs_from junk stack hi pat file n (i + 1) (next_start start sz) s }"

definition set_msgs :: "byte list \<Rightarrow> byte list \<Rightarrow> (int \<Rightarrow> u32) \<Rightarrow> pbc_pattern \<Rightarrow> cstruct \<Rightarrow> 'pool registry \<Rightarrow> 'pool registry option" where
  "set_msgs junk stack hi pat file s = do {
     a \<leftarrow> cs_array file F_MESSAGE_SIZE;
     set_msgs_from junk stack hi pat file (pbc_array_size a) 0 0 s }"

subsection \<open>The file\<close>

text \<open>
  A file name that is registered without a pool, as a NULL pointer. The result is 0, or 1 when the message cannot be read.\<close>

definition register_file :: "byte list \<Rightarrow> byte list \<Rightarrow> (int \<Rightarrow> u32) \<Rightarrow> (nat \<Rightarrow> int) \<Rightarrow> pbc_pattern \<Rightarrow> pbc_pattern \<Rightarrow> cstruct
    \<Rightarrow> mem \<times> 'pool pbc_env \<Rightarrow> (mem \<times> 'pool pbc_env) option" where
  "register_file junk stack hi addr field_t file_t file = (\<lambda>(m, p). do {
     name \<leftarrow> Option.bind (cs_var file 0) var_text;
     (m, files) \<leftarrow> pbcM_sp_insert (env_files p) name None m;
     (m, p) \<leftarrow> set_enums file (m, p\<lparr>env_files := files\<rparr>);
     (m, p, queue) \<leftarrow> set_msgs junk stack hi field_t file (m, p, pbcA_open);
     p \<leftarrow> pbcB_register_fields addr p queue;
     let (m, _) = pbcA_close queue m;
     (m, _) \<leftarrow> pbc_pattern_close_arrays file_t (m, file);
     Some (m, p) })"

definition register_internal :: "byte list \<Rightarrow> byte list \<Rightarrow> (int \<Rightarrow> u32) \<Rightarrow> (nat \<Rightarrow> int) \<Rightarrow> byte list \<Rightarrow> mem \<times> 'pool pbc_env
    \<Rightarrow> ((mem \<times> 'pool pbc_env) \<times> int) option" where
  "register_internal junk stack hi addr input = (\<lambda>(m, p). do {
     let (m, field_t) = FIELD_T m;
     let (m, file_t) = FILE_T m;
     (p, (m, file), r) \<leftarrow> pbc_pattern_unpack junk file_t (Some input) (int (length input)) p (m, local_var);
     ((m, p), ret) \<leftarrow>
       (if r \<noteq> 0 then Some ((m, p), 1)
        else map_option (\<lambda>s. (s, 0)) (register_file junk stack hi addr field_t file_t file (m, p)));
     Some ((g_update (pbcM_free (Some file_t)) (g_update (pbcM_free (Some field_t)) m), p), ret) })"

definition pbcB_init :: "byte list \<Rightarrow> byte list \<Rightarrow> (int \<Rightarrow> u32) \<Rightarrow> (nat \<Rightarrow> int) \<Rightarrow> byte list \<Rightarrow> mem \<times> 'pool pbc_env
    \<Rightarrow> (mem \<times> 'pool pbc_env) option" where
  "pbcB_init junk stack hi addr descriptor s = map_option fst (register_internal junk stack hi addr descriptor s)"

text \<open>A new environment, with the messages that describe descriptors.\<close>

definition pbc_new :: "byte list \<Rightarrow> byte list \<Rightarrow> (int \<Rightarrow> u32) \<Rightarrow> (nat \<Rightarrow> int) \<Rightarrow> byte list \<Rightarrow> mem \<Rightarrow> (mem \<times> 'pool pbc_env) option" where
  "pbc_new junk stack hi addr descriptor m = do {
     s \<leftarrow> pbc_new_tables m;
     pbcB_init junk stack hi addr descriptor s }"

subsection \<open>What a field becomes\<close>

text \<open>The field \<open>f\<close> with the number \<open>fi\<close> becomes \<open>f'\<close> when all types of \<open>p\<close> are known.\<close>

definition resolved :: "(nat \<Rightarrow> int) \<Rightarrow> 'pool pbc_env \<Rightarrow> nat \<Rightarrow> pbc_field \<Rightarrow> pbc_field \<Rightarrow> bool" where
  "resolved addr p fi f f' \<longleftrightarrow>
     (if pf_type f = PTYPE_MESSAGE then
        \<exists>n t. pf_tname f = TName (Some n) \<and> pbcM_sp_query (Some (env_msgs p)) n = Some t \<and> f' = f\<lparr>pf_tname := TMsg t\<rparr>
      else if pf_type f = PTYPE_ENUM then
        \<exists>n i e v. pf_tname f = TName (Some n) \<and> pbcM_sp_query (Some (env_enums p)) n = Some (Some i) \<and> rd (st_enums p) i = Some e
          \<and> enum_default (addr fi) e (pf_default f) = Some v \<and> f' = f\<lparr>pf_tname := TEnum (Some i), pf_default := v\<rparr>
      else f' = f)"

lemma name_of_type_Some [simp]: "name_of_type f = Some n \<longleftrightarrow> pf_tname f = TName (Some n)"
  by (simp add: name_of_type_def split: type_ref.splits)

lemma put_field_simps [simp]:
  "env_msgs (put_field fi f p) = env_msgs p" "env_enums (put_field fi f p) = env_enums p" "st_enums (put_field fi f p) = st_enums p"
  "st_fields (put_field fi f p) = (st_fields p)[fi := f]" "st_messages (put_field fi f p) = st_messages p"
  by (simp_all add: put_field_def)

lemma set_field_one_iff:
  "set_field_one addr p fi = Some p' \<longleftrightarrow> fi < length (st_fields p) \<and> (\<exists>f'. resolved addr p fi (st_fields p ! fi) f' \<and> p' = put_field fi f' p)"
proof (cases "fi < length (st_fields p)")
  case True
  then have f: "rd (st_fields p) fi = Some (st_fields p ! fi)" by (simp add: rd_def)
  have same: "put_field fi (st_fields p ! fi) p = p" using True by (simp add: put_field_def)
  show ?thesis using True same
    by (auto simp: set_field_one_def f resolved_def bind_Some_iff)
qed (simp add: set_field_one_def rd_def)

lemma set_fields_resolved:
  assumes "set_fields addr queue n i p = Some p'" and "arr_inv queue" and "i + n = length (arr_list queue)" and "distinct (arr_list queue)"
  shows "p' = p\<lparr>st_fields := st_fields p'\<rparr> \<and> length (st_fields p') = length (st_fields p)
    \<and> (\<forall>fi < length (st_fields p). if fi \<in> set (drop i (arr_list queue)) then resolved addr p fi (st_fields p ! fi) (st_fields p' ! fi)
         else st_fields p' ! fi = st_fields p ! fi)"
  using assms
proof (induction n arbitrary: i p)
  case 0
  then show ?case by simp
next
  case (Suc n)
  let ?q = "arr_list queue"
  have i: "i < length ?q" using Suc.prems(3) by simp
  have "pbcA_index queue (int i) = Some (?q ! i)" using va.index [OF Suc.prems(2)] i by simp
  then obtain p1 where p1: "set_field_one addr p (?q ! i) = Some p1" "set_fields addr queue n (i + 1) p1 = Some p'"
    using Suc.prems(1) by (auto simp: bind_Some_iff)
  then obtain f' where f': "?q ! i < length (st_fields p)" "resolved addr p (?q ! i) (st_fields p ! (?q ! i)) f'" "p1 = put_field (?q ! i) f' p"
    by (auto simp: set_field_one_iff)
  have res: "resolved addr p1 fi f g \<longleftrightarrow> resolved addr p fi f g" for fi f g by (simp add: resolved_def f'(3))
  note IH = Suc.IH [OF p1(2) Suc.prems(2) _ Suc.prems(4)]
  have d: "drop i ?q = ?q ! i # drop (i + 1) ?q" using i by (simp add: Cons_nth_drop_Suc)
  have "distinct (drop i ?q)" using Suc.prems(4) by simp
  then have new: "?q ! i \<notin> set (drop (i + 1) ?q)" unfolding d by simp
  have "p' = p\<lparr>st_fields := st_fields p'\<rparr>" using IH Suc.prems(3) by (simp add: f'(3) put_field_def)
  moreover have "if fi \<in> set (drop i ?q) then resolved addr p fi (st_fields p ! fi) (st_fields p' ! fi) else st_fields p' ! fi = st_fields p ! fi"
    if "fi < length (st_fields p)" for fi
    using IH Suc.prems(3) f'(1,2) new that unfolding d res by (cases "fi = ?q ! i") (auto simp: f'(3))
  ultimately show ?case using IH Suc.prems(3) by (simp add: f'(3))
qed

lemma set_fields_total:
  assumes "arr_inv queue" and "i + n = length (arr_list queue)" and "distinct (arr_list queue)"
    and "\<forall>fi \<in> set (drop i (arr_list queue)). fi < length (st_fields p) \<and> (\<exists>f'. resolved addr p fi (st_fields p ! fi) f')"
  shows "\<exists>p'. set_fields addr queue n i p = Some p'"
  using assms
proof (induction n arbitrary: i p)
  case (Suc n)
  let ?q = "arr_list queue"
  have i: "i < length ?q" using Suc.prems(2) by simp
  have d: "drop i ?q = ?q ! i # drop (i + 1) ?q" using i by (simp add: Cons_nth_drop_Suc)
  have "distinct (drop i ?q)" using Suc.prems(3) by simp
  then have new: "?q ! i \<notin> set (drop (i + 1) ?q)" unfolding d by simp
  obtain f' where f': "?q ! i < length (st_fields p)" "resolved addr p (?q ! i) (st_fields p ! (?q ! i)) f'"
    using Suc.prems(4) unfolding d by auto
  let ?p = "put_field (?q ! i) f' p"
  have one: "set_field_one addr p (?q ! i) = Some ?p" using f' by (auto simp: set_field_one_iff)
  have "resolved addr ?p fi f g \<longleftrightarrow> resolved addr p fi f g" for fi f g by (simp add: resolved_def)
  then have "\<exists>p'. set_fields addr queue n (i + 1) ?p = Some p'"
    using Suc.prems new unfolding d by (intro Suc.IH) (auto simp: nth_list_update)
  then show ?case using one va.index [OF Suc.prems(1) i] by simp
qed simp

subsection \<open>The map of files\<close>

named_theorems files_kept \<open>operations that leave the map of files as it is\<close>

lemma push_enum_files [files_kept]: "pbcP_push_enum p name table m = Some (m', p', i) \<Longrightarrow> env_files p' = env_files p"
  by (auto simp: pbcP_push_enum_def ub_simps Let_def split: if_splits)

lemma new_message_files [files_kept]: "new_message p name m = Some (m', p', i) \<Longrightarrow> env_files p' = env_files p"
  by (auto simp: new_message_def ub_simps Let_def)

lemma push_message_files' [files_kept]: "pbcP_push_message p name f queue m = Some (m', p', queue') \<Longrightarrow> env_files p' = env_files p"
  by (auto simp: pbcP_push_message_def ub_simps Let_def split: option.split_asm if_split_asm dest!: files_kept)

lemma init_message_files' [files_kept]: "pbcP_init_message p name m = Some (m', p', i) \<Longrightarrow> env_files p' = env_files p"
  by (auto simp: pbcP_init_message_def ub_simps Let_def split: option.split_asm if_split_asm dest!: files_kept)

lemma set_fields_files: "set_fields addr queue n i p = Some p' \<Longrightarrow> env_files p' = env_files p"
proof (induction n arbitrary: i p)
  case (Suc n)
  then obtain fi p1 where "set_field_one addr p fi = Some p1" "set_fields addr queue n (i + 1) p1 = Some p'" by (auto simp: ub_simps)
  with Suc.IH show ?case by (auto simp: set_field_one_iff put_field_def)
qed simp

lemma register_fields_files [files_kept]: "pbcB_register_fields addr p queue = Some p' \<Longrightarrow> env_files p' = env_files p"
  by (simp add: pbcB_register_fields_def set_fields_files)

lemma push_fields_files: "push_fields p name fs queue m = Some (m', p', queue') \<Longrightarrow> env_files p' = env_files p"
proof (induction fs arbitrary: p queue m)
  case (Cons f fs)
  then obtain m1 p1 q1 where "pbcP_push_message p name f queue m = Some (m1, p1, q1)" "push_fields p1 name fs q1 m1 = Some (m', p', queue')"
    by (auto simp: ub_simps)
  with Cons.IH push_message_files' show ?case by metis
qed simp

lemma pattern_unpack_files [files_kept]:
  "pbc_pattern_unpack junk pat buffer sz p s = Some (p', s', r) \<Longrightarrow> env_files p' = env_files p"
  by (cases s) (auto simp: pbc_pattern_unpack_def ub_simps Let_def split: if_split_asm option.split_asm)

lemma set_enum_one_files [files_kept]: "set_enum_one m p file name start sz = Some (m', p') \<Longrightarrow> env_files p' = env_files p"
  by (auto simp: set_enum_one_def ub_simps Let_def dest!: files_kept)

lemma set_enums_files [files_kept]: "set_enums_from file n i start (m, p) = Some (m', p') \<Longrightarrow> env_files p' = env_files p"
  by (induction n arbitrary: i start m p) (auto simp: ub_simps dest!: files_kept)

lemma set_fields_from_files [files_kept]:
  "set_fields_from junk stack hi pat file name start n (m, p, queue) = Some (m', p', queue') \<Longrightarrow> env_files p' = env_files p"
proof (induction n arbitrary: start m p queue)
  case (Suc n)
  then show ?case by (force simp: ub_simps split: if_split_asm dest!: files_kept)
qed simp

lemma set_msg_one_files [files_kept]:
  "set_msg_one junk stack hi pat file name start sz (m, p, queue) = Some (m', p', queue') \<Longrightarrow> env_files p' = env_files p"
  by (auto simp: set_msg_one_def ub_simps dest!: files_kept)

lemma set_msgs_files [files_kept]:
  "set_msgs_from junk stack hi pat file n i start (m, p, queue) = Some (m', p', queue') \<Longrightarrow> env_files p' = env_files p"
  by (induction n arbitrary: i start m p queue) (auto simp: ub_simps dest!: files_kept)

text \<open>The map of files of a new environment is empty but for entries that are NULL.\<close>

lemma register_file_files:
  assumes "register_file junk stack hi addr field_t file_t file (m, p) = Some (m', p')"
    and "sp_inv (env_files p)" and "sp_abs (env_files p) = Map.empty" and "sp_size (env_files p) = 0"
  shows "sp_inv (env_files p') \<and> (\<forall>key. sp_abs (env_files p') key = None \<or> sp_abs (env_files p') key = Some None)"
proof -
  obtain name m1 files where "pbcM_sp_insert (env_files p) name None m = Some (m1, files)" "env_files p' = files"
    using assms(1) by (auto simp: register_file_def set_enums_def set_msgs_def ub_simps Let_def case_prod_beta dest!: files_kept)
  with sp.ins [OF assms(2), of name None m] assms(3,4) show ?thesis by (auto simp: SP_LIMIT_def)
qed

lemma new_files:
  assumes "pbc_new junk stack hi addr descriptor m = Some (m', p')"
  shows "sp_inv (env_files p') \<and> (\<forall>key. sp_abs (env_files p') key = None \<or> sp_abs (env_files p') key = Some None)"
proof -
  obtain m1 and p :: "'a pbc_env" where p: "pbc_new_tables m = Some (m1, p)" "pbcB_init junk stack hi addr descriptor (m1, p) = Some (m', p')"
    using assms by (auto simp: pbc_new_def bind_Some_iff)
  then have e: "sp_inv (env_files p)" "sp_abs (env_files p) = Map.empty" "sp_size (env_files p) = 0"
    by (auto simp: pbc_new_tables_def ub_simps Let_def dest!: new_tables_map)
  obtain m2 p2 m3 fl r field_t file_t where u: "pbc_pattern_unpack junk file_t (Some descriptor) (int (length descriptor)) p (m2, local_var) = Some (p2, (m3, fl), r)"
    "p' = p2 \<or> (\<exists>m4. register_file junk stack hi addr field_t file_t fl (m3, p2) = Some (m4, p'))"
    using p(2) by (auto simp: pbcB_init_def register_internal_def ub_simps Let_def split: prod.split_asm if_split_asm) blast
  have "env_files p2 = env_files p" by (rule pattern_unpack_files [OF u(1)])
  with e u(2) register_file_files show ?thesis by (metis option.distinct(1))
qed

subsection \<open>Properties\<close>

text \<open>
  C8: whatever the order of the fields and types of a file was: when all types are known, the last step succeeds, every field of a message
  or enum type then leads to the message or enum that its type name stands for, an enum's default is a value, and nothing else
  has changed.\<close>

theorem register_fields_resolve:
  assumes "arr_inv queue" and "distinct (arr_list queue)"
    and "\<forall>fi \<in> set (arr_list queue). fi < length (st_fields p) \<and> (\<exists>f'. resolved addr p fi (st_fields p ! fi) f')"
  shows "\<exists>p'. pbcB_register_fields addr p queue = Some p'
    \<and> p' = p\<lparr>st_fields := st_fields p'\<rparr> \<and> length (st_fields p') = length (st_fields p)
    \<and> (\<forall>fi < length (st_fields p). if fi \<in> set (arr_list queue) then resolved addr p fi (st_fields p ! fi) (st_fields p' ! fi)
         else st_fields p' ! fi = st_fields p ! fi)"
proof -
  let ?n = "length (arr_list queue)"
  obtain p' where "set_fields addr queue ?n 0 p = Some p'"
    using set_fields_total [of queue 0 ?n p addr] assms by auto
  with set_fields_resolved [of addr queue ?n 0 p p'] assms(1,2) show ?thesis
    by (intro exI [of _ p']) (simp add: pbcB_register_fields_def va.size_of)
qed

definition home_field :: pbc_field where
  "home_field = \<lparr>pf_id = 1, pf_name = cstr ''home'', pf_type = PTYPE_MESSAGE, pf_label = LABEL_OPTIONAL, pf_default = VInt 0 0, pf_tname = TName (Some (cstr ''Address''))\<rparr>"

text \<open>A field that was pushed before the message it refers to.\<close>

definition forward_env :: "(mem \<times> nat pbc_env \<times> nat vararray) option" where
  "forward_env = do {
     (m, p) \<leftarrow> pbc_new_tables no_mem;
     (m, p, queue) \<leftarrow> pbcP_push_message p (cstr ''Person'') home_field pbcA_open m;
     (m, p, _) \<leftarrow> new_message p (cstr ''Address'') m;
     Some (m, p, queue) }"

lemma forward_env_facts:
  "case forward_env of None \<Rightarrow> False
   | Some (m, p, queue) \<Rightarrow> arr_number queue = 1 \<and> arr_inner queue = [Some 0, None] \<and> arr_a queue = Inner \<and> st_fields p = [home_field]
       \<and> pbcM_sp_query (Some (env_msgs p)) (cstr ''Address'') = Some (Some 1)"
  by code_simp

lemma register_fields_resolve_witness:
  "case forward_env of None \<Rightarrow> False
   | Some (m, p, queue) \<Rightarrow> \<exists>p'. pbcB_register_fields (\<lambda>_. 0) p queue = Some p' \<and> st_fields p' = [home_field\<lparr>pf_tname := TMsg (Some 1)\<rparr>]"
proof -
  obtain m p queue where e: "forward_env = Some (m, p, queue)" using forward_env_facts by (auto split: option.splits)
  then have f: "arr_number queue = 1" "arr_inner queue = [Some 0, None]" "arr_a queue = Inner" "st_fields p = [home_field]"
    "pbcM_sp_query (Some (env_msgs p)) (cstr ''Address'') = Some (Some 1)" using forward_env_facts unfolding e by simp_all
  have q: "arr_inv queue" "arr_list queue = [0]" using f(1-3) by (simp_all add: arr_inv_def cells_of_def arr_list_def)
  have r: "resolved (\<lambda>_. 0) p 0 home_field f' \<longleftrightarrow> f' = home_field\<lparr>pf_tname := TMsg (Some 1)\<rparr>" for f'
    using f(5) by (simp add: resolved_def home_field_def)
  obtain p' where "pbcB_register_fields (\<lambda>_. 0) p queue = Some p'" "length (st_fields p') = 1"
    "resolved (\<lambda>_. 0) p 0 home_field (st_fields p' ! 0)"
    using register_fields_resolve [of queue p "\<lambda>_. 0"] q r f(4) by auto
  then show ?thesis unfolding e by (cases "st_fields p'") (auto simp: r)
qed

text \<open>
  C9: the text of an enum's default becomes the value of that name, and an empty text the first value. For a text that is no name
  of the enum, the test of the search misses the error: the number is half the address of the text, and the name is what the enum
  has for this number.\<close>

theorem enum_default_resolved:
  assumes "sp_inv (env_enums p)" and "sp_abs (env_enums p) name = None" and "sp_size (env_enums p) < 2 ^ 20"
    and "calc_hash name \<noteq> 0"
    and "table \<noteq> []" and "length table < 2 ^ 29" and "distinct (map kvs_pointer table)" and "distinct (map kvs_id table)"
    and "fi < length (st_fields p)" and "st_fields p ! fi = f" and "pf_type f = PTYPE_ENUM" and "pf_tname f = TName (Some name)"
    and "0 \<notin> set str" and "pf_default f = VStr (Some (str @ 0 # rest)) n"
  shows "\<exists>m' p' i. pbcP_push_enum p name table m = Some (m', p', Some i)
    \<and> set_field_one addr p' fi = Some (put_field fi (f\<lparr>pf_tname := TEnum (Some i), pf_default :=
         (if str = [] then VEnum (kvs_id (hd table)) (Some (kvs_pointer (hd table)))
          else case map_of (map (\<lambda>kv. (kvs_pointer kv, kvs_id kv)) table) str of
                 Some v \<Rightarrow> VEnum v (Some str)
               | None \<Rightarrow> VEnum (addr fi) (map_of (map (\<lambda>kv. (kvs_id kv, kvs_pointer kv)) table) (addr fi)))\<rparr>) p')"
proof -
  obtain m' e enums where *: "pbcP_push_enum p name table m = Some (m', p\<lparr>env_enums := enums, st_enums := st_enums p @ [e]\<rparr>, Some (length (st_enums p)))"
    "pbcM_sp_query (Some enums) name = Some (Some (length (st_enums p)))"
    "\<And>key. pbcM_si_query (pe_name e) key = Some (case map_of (map (\<lambda>kv. (kvs_pointer kv, kvs_id kv)) table) key of Some v \<Rightarrow> (0, Some v) | None \<Rightarrow> (1, None))"
    "\<And>i. pbcM_ip_query (Some (pe_id e)) i = Some (map_of (map (\<lambda>kv. (kvs_id kv, kvs_pointer kv)) table) i)"
    "pe_default e = VEnum (kvs_id (hd table)) (Some (kvs_pointer (hd table)))"
    by (rule push_enum_ok [OF assms(1-8), of m], rule that)
  let ?p = "p\<lparr>env_enums := enums, st_enums := st_enums p @ [e]\<rparr>"
  have s: "c_string (str @ 0 # rest) = Some str" using assms(13) by (rule c_string_append)
  have ne: "nonempty_text (Some (str @ 0 # rest)) = Some (str \<noteq> [])"
    using assms(13) by (cases str) (simp_all add: nonempty_text_def)
  have inv: "map_of (map (\<lambda>kv. (kvs_id kv, kvs_pointer kv)) table) v = Some str"
    if "map_of (map (\<lambda>kv. (kvs_pointer kv, kvs_id kv)) table) str = Some v" for v
    using map_of_SomeD [OF that] by (intro map_of_is_SomeI) (use assms(8) in \<open>auto simp: comp_def\<close>)
  have "set_field_one addr ?p fi = Some (put_field fi (f\<lparr>pf_tname := TEnum (Some (length (st_enums p))), pf_default := v\<rparr>) ?p)"
    if "enum_default (addr fi) e (pf_default f) = Some v" for v
    using assms(9-12) *(2) that by (simp add: set_field_one_def rd_def name_of_type_def)
  moreover have "enum_default (addr fi) e (pf_default f) = Some
      (if str = [] then VEnum (kvs_id (hd table)) (Some (kvs_pointer (hd table)))
       else case map_of (map (\<lambda>kv. (kvs_pointer kv, kvs_id kv)) table) str of
              Some v \<Rightarrow> VEnum v (Some str)
            | None \<Rightarrow> VEnum (addr fi) (map_of (map (\<lambda>kv. (kvs_id kv, kvs_pointer kv)) table) (addr fi)))"
    using assms(14) s ne inv *(3-5) by (simp add: enum_default_def default_text_def Let_def split: option.split)
  ultimately show ?thesis using *(1) by blast
qed

definition kind_field :: "string \<Rightarrow> pbc_field" where
  "kind_field str = \<lparr>pf_id = 2, pf_name = cstr ''type'', pf_type = PTYPE_ENUM, pf_label = LABEL_OPTIONAL,
     pf_default = VStr (Some (cstr str @ [0])) (int (length str)), pf_tname = TName (Some (cstr ''PhoneType''))\<rparr>"

lemma enum_default_resolved_witness:
  "\<forall>addr. case pbc_new_tables no_mem of None \<Rightarrow> False
   | Some (m, p) \<Rightarrow> (let p = (p :: nat pbc_env)\<lparr>st_fields := [kind_field ''HOME'', kind_field ''FAX'']\<rparr> in
       (\<exists>m' p' i. pbcP_push_enum p (cstr ''PhoneType'') phone_types m = Some (m', p', Some i)
         \<and> set_field_one addr p' 0 = Some (put_field 0 ((kind_field ''HOME'')\<lparr>pf_tname := TEnum (Some i), pf_default := VEnum 1 (Some (cstr ''HOME''))\<rparr>) p'))
       \<and> (\<exists>m' p' i. pbcP_push_enum p (cstr ''PhoneType'') phone_types m = Some (m', p', Some i)
         \<and> set_field_one addr p' 1 = Some (put_field 1 ((kind_field ''FAX'')\<lparr>pf_tname := TEnum (Some i), pf_default :=
              VEnum (addr 1) (map_of (map (\<lambda>kv. (kvs_id kv, kvs_pointer kv)) phone_types) (addr 1))\<rparr>) p')))"
proof
  fix addr :: "nat \<Rightarrow> int"
  obtain m1 and p :: "nat pbc_env" where n: "pbc_new_tables no_mem = Some (m1, p)" by (rule new_tables_exist)
  have h: "calc_hash (cstr ''PhoneType'') \<noteq> 0" by code_simp
  have p: "sp_inv (env_enums p)" "sp_abs (env_enums p) = Map.empty" "sp_size (env_enums p) = 0"
    using n by (auto simp: pbc_new_tables_def ub_simps Let_def dest!: new_tables_map)
  let ?p = "p\<lparr>st_fields := [kind_field ''HOME'', kind_field ''FAX'']\<rparr>"
  have t: "phone_types \<noteq> []" "length phone_types < 2 ^ 29" "distinct (map kvs_pointer phone_types)" "distinct (map kvs_id phone_types)"
    by (simp_all add: phone_types_def cstr_def of_char_def)
  have e: "sp_inv (env_enums ?p)" "sp_abs (env_enums ?p) (cstr ''PhoneType'') = None" "sp_size (env_enums ?p) < 2 ^ 20" by (simp_all add: p)
  note resolve = enum_default_resolved [OF e h t]
  have 0: "map_of (map (\<lambda>kv. (kvs_pointer kv, kvs_id kv)) phone_types) (cstr ''HOME'') = Some 1"
    "map_of (map (\<lambda>kv. (kvs_pointer kv, kvs_id kv)) phone_types) (cstr ''FAX'') = None"
    by (simp_all add: phone_types_def cstr_def of_char_def)
  have z: "0 \<notin> set (cstr ''HOME'')" "0 \<notin> set (cstr ''FAX'')" "cstr ''HOME'' \<noteq> []" "cstr ''FAX'' \<noteq> []"
    by (simp_all add: cstr_def of_char_def)
  show "case pbc_new_tables no_mem of None \<Rightarrow> False
   | Some (m, p) \<Rightarrow> (let p = (p :: nat pbc_env)\<lparr>st_fields := [kind_field ''HOME'', kind_field ''FAX'']\<rparr> in
       (\<exists>m' p' i. pbcP_push_enum p (cstr ''PhoneType'') phone_types m = Some (m', p', Some i)
         \<and> set_field_one addr p' 0 = Some (put_field 0 ((kind_field ''HOME'')\<lparr>pf_tname := TEnum (Some i), pf_default := VEnum 1 (Some (cstr ''HOME''))\<rparr>) p'))
       \<and> (\<exists>m' p' i. pbcP_push_enum p (cstr ''PhoneType'') phone_types m = Some (m', p', Some i)
         \<and> set_field_one addr p' 1 = Some (put_field 1 ((kind_field ''FAX'')\<lparr>pf_tname := TEnum (Some i), pf_default :=
              VEnum (addr 1) (map_of (map (\<lambda>kv. (kvs_id kv, kvs_pointer kv)) phone_types) (addr 1))\<rparr>) p')))"
    unfolding n option.case prod.case Let_def
    using resolve [of 0 "kind_field ''HOME''" "cstr ''HOME''" "[]" 4 m1 addr] resolve [of 1 "kind_field ''FAX''" "cstr ''FAX''" "[]" 3 m1 addr] 0 z
    by (simp add: kind_field_def)
qed

end
