(* ===== verification/Register.thy ===== *)
theory Register
  imports Bootstrap Rmessage
begin

section \<open>Registering descriptors (pbc/src/register.c)\<close>

text \<open>
  \<open>pbc_register\<close> reads a \<open>google.protobuf.FileDescriptorSet\<close> with the reader for messages and puts the enums, messages and fields of its files
  into the environment. Names are copied into a string pool, one for each file; the map of files has the pool of a file, which is
  its number in a list here. A file waits until all files it depends on are known.

  The environment is the one in the state of the reader, since the message that is read and the descriptors that are made share it. A
  string in a pool is the bytes that were copied. \<open>strtod\<close> of the C library is a parameter; \<open>long\<close> has 64 bits.
\<close>

record register =
  rg_s :: "nat rstate"
  rg_pool :: stringpool
  rg_queue :: "nat vararray"

abbreviation rg_env :: "register \<Rightarrow> nat pbc_env" where "rg_env r \<equiv> rs_env (rg_s r)"

definition put_env :: "mem \<Rightarrow> nat pbc_env \<Rightarrow> register \<Rightarrow> register" where
  "put_env m p r = r\<lparr>rg_s := (rg_s r)\<lparr>rs_mem := m, rs_env := p\<rparr>\<rparr>"

text \<open>A \<open>for\<close> loop with \<open>n\<close> rounds to go, the next one with \<open>i\<close>.\<close>

fun each :: "nat \<Rightarrow> nat \<Rightarrow> (nat \<Rightarrow> 's \<Rightarrow> 's option) \<Rightarrow> 's \<Rightarrow> 's option" where
  "each 0 i f s = Some s"
| "each (Suc n) i f s = do { s \<leftarrow> f i s; each n (i + 1) f s }"

subsection \<open>Members of the descriptors\<close>

text \<open>A string and its size, the low half of an integer, the number of values and a sub-message, which is not NULL where it is used.\<close>

definition get_text :: "register \<Rightarrow> rmsg \<Rightarrow> string \<Rightarrow> (byte list option \<times> int) option" where
  "get_text r v key = do {
     (str, sz) \<leftarrow> pbc_rmessage_string True (rg_s r) v (cstr key) 0;
     sz \<leftarrow> sz;
     Some (str, sz) }"

definition get_pointer :: "register \<Rightarrow> rmsg \<Rightarrow> string \<Rightarrow> byte list option option" where
  "get_pointer r v key = map_option fst (pbc_rmessage_string False (rg_s r) v (cstr key) 0)"

definition get_integer :: "register \<Rightarrow> rmsg \<Rightarrow> string \<Rightarrow> u32 option" where
  "get_integer r v key = map_option fst (pbc_rmessage_integer (rg_s r) v (cstr key) 0)"

definition get_size :: "register \<Rightarrow> rmsg \<Rightarrow> string \<Rightarrow> nat option" where
  "get_size r v key = pbc_rmessage_size (rg_s r) v (cstr key)"

definition get_message :: "register \<Rightarrow> rmsg \<Rightarrow> string \<Rightarrow> nat \<Rightarrow> (register \<times> rmsg) option" where
  "get_message r v key i = do {
     (s, sub) \<leftarrow> pbc_rmessage_message (rg_s r) v (cstr key) (int i);
     sub \<leftarrow> sub;
     Some (r\<lparr>rg_s := s\<rparr>, sub) }"

text \<open>\<open>_pbcS_build\<close>: the bytes in the pool.\<close>

definition pool_text :: "byte list option \<Rightarrow> int \<Rightarrow> register \<Rightarrow> (register \<times> byte list) option" where
  "pool_text str sz r = do {
     str \<leftarrow> str;
     (g, pool, _) \<leftarrow> pbcS_build (rg_pool r) str sz (mem_g (rs_mem (rg_s r)));
     Some (r\<lparr>rg_s := rs_g g (rg_s r), rg_pool := pool\<rparr>, take (nat (sz + 1)) str) }"

definition bytes_at :: "byte list option \<Rightarrow> int \<Rightarrow> byte list option" where
  "bytes_at str n = do { str \<leftarrow> str; if 0 \<le> n \<and> nat n \<le> length str then Some (take (nat n) str) else None }"

text \<open>A name behind a prefix, with its size.\<close>

definition concat_name :: "byte list option \<Rightarrow> int \<Rightarrow> byte list option \<Rightarrow> int \<Rightarrow> register \<Rightarrow> (register \<times> byte list \<times> int) option" where
  "concat_name prefix prefix_sz name name_sz r =
     (if prefix_sz = 0 then do { (r, t) \<leftarrow> pool_text name name_sz r; Some (r, t, name_sz) }
      else do {
        a \<leftarrow> bytes_at prefix prefix_sz;
        b \<leftarrow> bytes_at name name_sz;
        let sz = name_sz + prefix_sz + 1;
        (r, t) \<leftarrow> pool_text (Some (a @ [46] @ b @ [0])) sz r;
        Some (r, t, sz) })"

subsection \<open>Enums\<close>

definition enum_value_at :: "rmsg \<Rightarrow> nat \<Rightarrow> register \<times> kv_s list \<Rightarrow> (register \<times> kv_s list) option" where
  "enum_value_at enum_type i = (\<lambda>(r, table). do {
     (r, v) \<leftarrow> get_message r enum_type ''value'' i;
     (nm, sz) \<leftarrow> get_text r v ''name'';
     (r, t) \<leftarrow> pool_text nm sz r;
     t \<leftarrow> c_string t;
     n \<leftarrow> get_integer r v ''number'';
     Some (r, table @ [\<lparr>kvs_id = sint n, kvs_pointer = t\<rparr>]) })"

definition register_enum :: "rmsg \<Rightarrow> byte list option \<Rightarrow> int \<Rightarrow> register \<Rightarrow> register option" where
  "register_enum enum_type prefix prefix_sz r = do {
     field_count \<leftarrow> get_size r enum_type ''value'';
     let r = put_env (g_update pbcM_malloc (rs_mem (rg_s r))) (rg_env r) r;
     (r, table) \<leftarrow> each field_count 0 (enum_value_at enum_type) (r, []);
     (name, name_sz) \<leftarrow> get_text r enum_type ''name'';
     (r, temp, _) \<leftarrow> concat_name prefix prefix_sz name name_sz r;
     temp \<leftarrow> c_string temp;
     (m, p, _) \<leftarrow> pbcP_push_enum (rg_env r) temp table (rs_mem (rg_s r));
     Some (put_env (g_update (pbcM_free (Some table)) m) p r) }"

subsection \<open>Default values\<close>

text \<open>
  \<open>strtol\<close> and its relatives for base 10: the sign and the number at the start of a text, behind blanks. \<open>strtol\<close> and \<open>strtoll\<close> cut to
  the range of 64 bits; \<open>strtoul\<close> negates in that range.\<close>

definition is_space :: "byte \<Rightarrow> bool" where
  "is_space c \<longleftrightarrow> c = 32 \<or> (9 \<le> c \<and> c \<le> 13)"

definition is_digit :: "byte \<Rightarrow> bool" where
  "is_digit c \<longleftrightarrow> 48 \<le> c \<and> c \<le> 57"

definition digits_value :: "cstring \<Rightarrow> nat" where
  "digits_value ds = foldl (\<lambda>n d. 10 * n + (unat d - 48)) 0 ds"

definition signed_text :: "cstring \<Rightarrow> bool \<times> nat" where
  "signed_text s =
     (let s = dropWhile is_space s; number = (\<lambda>s. digits_value (takeWhile is_digit s))
      in case s of [] \<Rightarrow> (False, 0) | c # cs \<Rightarrow> if c = 45 then (True, number cs) else if c = 43 then (False, number cs) else (False, number s))"

definition strtoll :: "cstring \<Rightarrow> int" where
  "strtoll s = (let (neg, n) = signed_text s in if neg then max (- (2 ^ 63)) (- int n) else min (2 ^ 63 - 1) (int n))"

definition strtoul :: "cstring \<Rightarrow> u64" where
  "strtoul s = (let (neg, n) = signed_text s in if n \<ge> 2 ^ 64 then - 1 else if neg then - of_nat n else of_nat n)"

text \<open>
  The union \<open>default_v\<close> of a field of a type. The text of an enum's default is kept until the enum is known.\<close>

definition no_default :: "int \<Rightarrow> pbc_var" where
  "no_default type = (if type = PTYPE_STRING \<or> type = PTYPE_BYTES then VStr (Some [0]) 0 else VInt 0 0)"

definition default_of_text :: "(cstring \<Rightarrow> u64) \<Rightarrow> int \<Rightarrow> cstring \<Rightarrow> pbc_var" where
  "default_of_text strtod type s =
     (if type = PTYPE_DOUBLE \<or> type = PTYPE_FLOAT then VReal (strtod s)
      else if type = PTYPE_BOOL then VInt (if s = cstr ''true'' then 1 else 0) 0
      else if type \<in> {PTYPE_UINT64, PTYPE_INT64, PTYPE_SFIXED64, PTYPE_SINT64} then
        (let v = of_int (strtoll s) :: u64 in VInt (ucast v) (ucast (drop_bit 32 v)))
      else if type \<in> {PTYPE_INT32, PTYPE_FIXED32, PTYPE_SFIXED32, PTYPE_SINT32} then
        (let low = of_int (strtoll s) :: u32 in VInt low (if sint low < 0 then - 1 else 0))
      else if type = PTYPE_UINT32 then VInt (ucast (strtoul s)) 0
      else VInt 0 0)"

definition register_default :: "(cstring \<Rightarrow> u64) \<Rightarrow> int \<Rightarrow> byte list option \<Rightarrow> int \<Rightarrow> register \<Rightarrow> (register \<times> pbc_var) option" where
  "register_default strtod type str sz r =
     (if str = None \<or> sz = 0 then Some (r, no_default type)
      else if type = PTYPE_STRING then do { (r, t) \<leftarrow> pool_text str sz r; Some (r, VStr (Some t) sz) }
      else if type = PTYPE_ENUM then Some (r, VStr str sz)
      else if type = PTYPE_BYTES \<or> type = PTYPE_MESSAGE then Some (r, VStr None 0)
      else do { s \<leftarrow> Option.bind str c_string; Some (r, default_of_text strtod type s) })"

subsection \<open>Fields\<close>

text \<open>The name behind the first character.\<close>

definition skip_first :: "byte list option \<Rightarrow> cstring option" where
  "skip_first str = (case Option.bind str c_string of Some (c # n) \<Rightarrow> Some n | _ \<Rightarrow> None)"

definition field_label :: "register \<Rightarrow> rmsg \<Rightarrow> (register \<times> int) option" where
  "field_label r field = do {
     label \<leftarrow> get_integer r field ''label'';
     n \<leftarrow> get_size r field ''options'';
     (r, packed) \<leftarrow>
       (if n > 0 then do {
          (r, options) \<leftarrow> get_message r field ''options'' 0;
          packed \<leftarrow> get_integer r options ''packed'';
          Some (r, packed \<noteq> 0) }
        else Some (r, False));
     Some (r, if packed then LABEL_PACKED else sint (label - 1)) }"

definition register_field :: "(cstring \<Rightarrow> u64) \<Rightarrow> cstring \<Rightarrow> rmsg \<Rightarrow> register \<Rightarrow> (register \<times> pbc_field) option" where
  "register_field strtod name field r = do {
     i \<leftarrow> get_integer r field ''number'';
     type \<leftarrow> get_integer r field ''type'';
     (r, label) \<leftarrow> field_label r field;
     type_name \<leftarrow> get_pointer r field ''type_name'';
     (str, sz) \<leftarrow> get_text r field ''default_value'';
     (r, v) \<leftarrow> register_default strtod (sint type) str sz r;
     Some (r, \<lparr>pf_id = sint i, pf_name = name, pf_type = sint type, pf_label = label, pf_default = v, pf_tname = TName (skip_first type_name)\<rparr>) }"

definition push_message :: "cstring \<Rightarrow> pbc_field \<Rightarrow> register \<Rightarrow> register option" where
  "push_message name f r = do {
     (m, p, queue) \<leftarrow> pbcP_push_message (rg_env r) name f (rg_queue r) (rs_mem (rg_s r));
     Some ((put_env m p r)\<lparr>rg_queue := queue\<rparr>) }"

definition init_message :: "cstring \<Rightarrow> register \<Rightarrow> register option" where
  "init_message name r = do {
     (m, p, _) \<leftarrow> pbcP_init_message (rg_env r) name (rs_mem (rg_s r));
     Some (put_env m p r) }"

subsection \<open>Extensions\<close>

text \<open>
  The extended message is initialised when a field for another one follows, and behind the last field; \<open>last\<close> is the name of the
  message that was extended last, with the dot in front.\<close>

definition extension_at :: "(cstring \<Rightarrow> u64) \<Rightarrow> rmsg \<Rightarrow> byte list option \<Rightarrow> int \<Rightarrow> nat \<Rightarrow> register \<times> byte list option
    \<Rightarrow> (register \<times> byte list option) option" where
  "extension_at strtod msg prefix prefix_sz i = (\<lambda>(r, last). do {
     (r, ext) \<leftarrow> get_message r msg ''extension'' i;
     (name, sz) \<leftarrow> get_text r ext ''name'';
     (r, name, _) \<leftarrow> concat_name prefix prefix_sz name sz r;
     name \<leftarrow> c_string name;
     (r, f) \<leftarrow> register_field strtod name ext r;
     extendee \<leftarrow> get_pointer r ext ''extendee'';
     target \<leftarrow> skip_first extendee;
     r \<leftarrow> push_message target f r;
     case last of None \<Rightarrow> Some (r, extendee)
     | Some _ \<Rightarrow> do {
         previous \<leftarrow> skip_first last;
         if Option.bind extendee c_string \<noteq> Option.bind last c_string then do { r \<leftarrow> init_message previous r; Some (r, extendee) }
         else Some (r, last) } })"

definition register_extension :: "(cstring \<Rightarrow> u64) \<Rightarrow> rmsg \<Rightarrow> byte list option \<Rightarrow> int \<Rightarrow> register \<Rightarrow> register option" where
  "register_extension strtod msg prefix prefix_sz r = do {
     n \<leftarrow> get_size r msg ''extension'';
     if n = 0 then Some r
     else do {
       (r, last) \<leftarrow> each n 0 (extension_at strtod msg prefix prefix_sz) (r, None);
       target \<leftarrow> skip_first last;
       init_message target r } }"

subsection \<open>Messages\<close>

definition field_at :: "(cstring \<Rightarrow> u64) \<Rightarrow> rmsg \<Rightarrow> cstring \<Rightarrow> nat \<Rightarrow> register \<Rightarrow> register option" where
  "field_at strtod message_type target i r = do {
     (r, field) \<leftarrow> get_message r message_type ''field'' i;
     (name, sz) \<leftarrow> get_text r field ''name'';
     (r, name) \<leftarrow> pool_text name sz r;
     name \<leftarrow> c_string name;
     (r, f) \<leftarrow> register_field strtod name field r;
     push_message target f r }"

definition nested_enum_at :: "rmsg \<Rightarrow> byte list option \<Rightarrow> int \<Rightarrow> nat \<Rightarrow> register \<Rightarrow> register option" where
  "nested_enum_at msg prefix sz i r = do {
     (r, enum_type) \<leftarrow> get_message r msg ''enum_type'' i;
     register_enum enum_type prefix sz r }"

text \<open>What comes before the nested messages; the result has the prefix for them.\<close>

definition register_body :: "(cstring \<Rightarrow> u64) \<Rightarrow> rmsg \<Rightarrow> byte list option \<Rightarrow> int \<Rightarrow> register \<Rightarrow> (register \<times> byte list \<times> int) option" where
  "register_body strtod message_type prefix prefix_sz r = do {
     (name, name_sz) \<leftarrow> get_text r message_type ''name'';
     (r, temp, sz) \<leftarrow> concat_name prefix prefix_sz name name_sz r;
     target \<leftarrow> c_string temp;
     field_count \<leftarrow> get_size r message_type ''field'';
     r \<leftarrow> each field_count 0 (field_at strtod message_type target) r;
     r \<leftarrow> init_message target r;
     r \<leftarrow> register_extension strtod message_type (Some temp) sz r;
     enum_count \<leftarrow> get_size r message_type ''enum_type'';
     r \<leftarrow> each enum_count 0 (nested_enum_at message_type (Some temp) sz) r;
     Some (r, temp, sz) }"

lemma each_mono [partial_function_mono]:
  assumes "\<And>i s. mono_option (\<lambda>f. F f i s)"
  shows "mono_option (\<lambda>f. each n i (F f) s)"
proof (induction n arbitrary: i s)
  case 0
  show ?case by (simp add: option.const_mono)
next
  case (Suc n)
  show ?case unfolding each.simps by (rule bind_mono [OF assms Suc])
qed

text \<open>The recursion is as deep as the messages are nested; if it did not end, the result would be \<open>None\<close>.\<close>

partial_function (option) register_message :: "(cstring \<Rightarrow> u64) \<Rightarrow> rmsg \<Rightarrow> byte list option \<Rightarrow> int \<Rightarrow> register \<Rightarrow> register option" where
  "register_message strtod message_type prefix prefix_sz r =
     Option.bind (register_body strtod message_type prefix prefix_sz r) (\<lambda>rts.
     Option.bind (get_size (fst rts) message_type ''nested_type'') (\<lambda>n.
     each n 0 (\<lambda>i r. Option.bind (get_message r message_type ''nested_type'' i) (\<lambda>rn.
       register_message strtod (snd rn) (Some (fst (snd rts))) (snd (snd rts)) (fst rn))) (fst rts)))"

declare register_message.simps [code]

subsection \<open>Files\<close>

definition message_at :: "(cstring \<Rightarrow> u64) \<Rightarrow> rmsg \<Rightarrow> byte list option \<Rightarrow> int \<Rightarrow> nat \<Rightarrow> register \<Rightarrow> register option" where
  "message_at strtod file package sz i r = do {
     (r, message_type) \<leftarrow> get_message r file ''message_type'' i;
     register_message strtod message_type package sz r }"

text \<open>\<open>_register\<close>: the state of the reader and the pool.\<close>

definition register_types :: "(cstring \<Rightarrow> u64) \<Rightarrow> (nat \<Rightarrow> int) \<Rightarrow> rmsg \<Rightarrow> nat rstate \<Rightarrow> stringpool \<Rightarrow> (nat rstate \<times> stringpool) option" where
  "register_types strtod addr file s pool = do {
     let r = \<lparr>rg_s = s, rg_pool = pool, rg_queue = pbcA_open\<rparr>;
     (package, sz) \<leftarrow> get_text r file ''package'';
     enum_count \<leftarrow> get_size r file ''enum_type'';
     r \<leftarrow> each enum_count 0 (nested_enum_at file package sz) r;
     message_count \<leftarrow> get_size r file ''message_type'';
     r \<leftarrow> each message_count 0 (message_at strtod file package sz) r;
     r \<leftarrow> register_extension strtod file package sz r;
     p \<leftarrow> pbcB_register_fields addr (rg_env r) (rg_queue r);
     let (m, _) = pbcA_close (rg_queue r) (rs_mem (rg_s r));
     Some (rg_s (put_env m p r), rg_pool r) }"

datatype check = CHECK_FILE_OK cstring | CHECK_FILE_EXIST | CHECK_FILE_DEPENDENCY

text \<open>Whether one of the files that a file depends on is missing, from the dependency \<open>i\<close> on.\<close>

fun missing_dependency :: "nat rstate \<Rightarrow> rmsg \<Rightarrow> nat \<Rightarrow> nat \<Rightarrow> bool option" where
  "missing_dependency s file 0 i = Some False"
| "missing_dependency s file (Suc n) i = do {
     (dname, _) \<leftarrow> pbc_rmessage_string False s file (cstr ''dependency'') (int i);
     dname \<leftarrow> Option.bind dname c_string;
     q \<leftarrow> pbcM_sp_query (Some (env_files (rs_env s))) dname;
     if q = None then Some True else missing_dependency s file n (i + 1) }"

definition check_file_name :: "nat rstate \<Rightarrow> rmsg \<Rightarrow> check option" where
  "check_file_name s file = do {
     (filename, _) \<leftarrow> pbc_rmessage_string False s file (cstr ''name'') 0;
     filename \<leftarrow> Option.bind filename c_string;
     q \<leftarrow> pbcM_sp_query (Some (env_files (rs_env s))) filename;
     if q \<noteq> None then Some CHECK_FILE_EXIST
     else do {
       sz \<leftarrow> pbc_rmessage_size s file (cstr ''dependency'');
       missing \<leftarrow> missing_dependency s file sz 0;
       Some (if missing then CHECK_FILE_DEPENDENCY else CHECK_FILE_OK filename) } }"

text \<open>
  The pools of all files and the files of the set, \<open>None\<close> for one that is done. A file that is registered gets a new pool.\<close>

record register_set =
  rt_s :: "nat rstate"
  rt_pools :: "stringpool list"
  rt_files :: "rmsg option list"

text \<open>The \<open>size_t\<close> that \<open>strlen\<close> returns, passed as an \<open>int\<close>.\<close>

definition int_size :: "nat \<Rightarrow> int" where
  "int_size n = sint (of_nat n :: u32)"

definition register_new :: "(cstring \<Rightarrow> u64) \<Rightarrow> (nat \<Rightarrow> int) \<Rightarrow> cstring \<Rightarrow> rmsg \<Rightarrow> nat \<Rightarrow> register_set \<Rightarrow> register_set option" where
  "register_new strtod addr filename file i t = do {
     let s = rt_s t;
     let (g, pool) = pbcS_new (mem_g (rs_mem s));
     (g, pool, _) \<leftarrow> pbcS_build pool (filename @ [0]) (int_size (length filename)) g;
     (m, files) \<leftarrow> pbcM_sp_insert (env_files (rs_env s)) filename (Some (length (rt_pools t))) ((rs_mem s)\<lparr>mem_g := g\<rparr>);
     (s, pool) \<leftarrow> register_types strtod addr file (s\<lparr>rs_mem := m, rs_env := (rs_env s)\<lparr>env_files := files\<rparr>\<rparr>) pool;
     Some \<lparr>rt_s = s, rt_pools = rt_pools t @ [pool], rt_files = (rt_files t)[i := None]\<rparr> }"

text \<open>The file \<open>i\<close>, with the number of files that wait.\<close>

definition register_one :: "(cstring \<Rightarrow> u64) \<Rightarrow> (nat \<Rightarrow> int) \<Rightarrow> nat \<Rightarrow> register_set \<times> nat \<Rightarrow> (register_set \<times> nat) option" where
  "register_one strtod addr i = (\<lambda>(t, r). do {
     file \<leftarrow> rd (rt_files t) i;
     case file of None \<Rightarrow> Some (t, r)
     | Some file \<Rightarrow> do {
         err \<leftarrow> check_file_name (rt_s t) file;
         case err of
           CHECK_FILE_EXIST \<Rightarrow> Some (t, r)
         | CHECK_FILE_DEPENDENCY \<Rightarrow> Some (t, r + 1)
         | CHECK_FILE_OK filename \<Rightarrow> do { t \<leftarrow> register_new strtod addr filename file i t; Some (t, r) } } })"

definition register_no_dependency :: "(cstring \<Rightarrow> u64) \<Rightarrow> (nat \<Rightarrow> int) \<Rightarrow> register_set \<Rightarrow> (register_set \<times> nat) option" where
  "register_no_dependency strtod addr t = each (length (rt_files t)) 0 (register_one strtod addr) (t, 0)"

text \<open>
  The loop of \<open>pbc_register\<close>; \<open>r\<close> files waited before the round. The outer \<open>None\<close> is undefined behaviour in a round; the second result
  is whether all files are done, or \<open>None\<close> when the fuel has run out and the loop goes on. A round that registers nothing is the last
  but one, so that two more rounds than there are files are enough (\<open>register_rounds_enough\<close>).\<close>

fun register_rounds :: "nat \<Rightarrow> (cstring \<Rightarrow> u64) \<Rightarrow> (nat \<Rightarrow> int) \<Rightarrow> register_set \<Rightarrow> nat \<Rightarrow> (register_set \<times> bool option) option" where
  "register_rounds 0 strtod addr t r = Some (t, None)"
| "register_rounds (Suc fuel) strtod addr t r = do {
     (t, rr) \<leftarrow> register_no_dependency strtod addr t;
     if rr = r then Some (t\<lparr>rt_s := rs_error ''register dependency error'' (rt_s t)\<rparr>, Some False)
     else if rr > 0 then register_rounds fuel strtod addr t rr
     else Some (t, Some True) }"

text \<open>The messages of the files, up to one that cannot be opened.\<close>

fun open_files :: "nat rstate \<Rightarrow> rmsg \<Rightarrow> nat \<Rightarrow> nat \<Rightarrow> (nat rstate \<times> rmsg option list) option" where
  "open_files s message 0 i = Some (s, [])"
| "open_files s message (Suc n) i = do {
     (s, file) \<leftarrow> pbc_rmessage_message s message (cstr ''file'') (int i);
     if file = None then Some (rs_error ''register open fail'' s, [None])
     else do { (s, files) \<leftarrow> open_files s message n (i + 1); Some (s, file # files) } }"

definition register_files :: "(cstring \<Rightarrow> u64) \<Rightarrow> (nat \<Rightarrow> int) \<Rightarrow> stringpool list \<Rightarrow> nat rstate \<Rightarrow> rmsg
    \<Rightarrow> (nat rstate \<times> stringpool list \<times> bool) option" where
  "register_files strtod addr pools s message = do {
     n \<leftarrow> pbc_rmessage_size s message (cstr ''file'');
     if n = 0 then Some (rs_error ''register empty'' s, pools, False)
     else do {
       (s, files) \<leftarrow> open_files s message n 0;
       if None \<in> set files then Some (s, pools, False)
       else do {
         (t, done) \<leftarrow> register_rounds (n + 2) strtod addr \<lparr>rt_s = s, rt_pools = pools, rt_files = files\<rparr> n;
         done \<leftarrow> done;
         Some (rt_s t, rt_pools t, done) } } }"

text \<open>The environment, the pools, the counter of blocks and the result.\<close>

definition pbc_register :: "(cstring \<Rightarrow> u64) \<Rightarrow> (nat \<Rightarrow> int) \<Rightarrow> byte list \<Rightarrow> nat pbc_env \<Rightarrow> stringpool list \<Rightarrow> byte list option \<Rightarrow> int \<Rightarrow> int
    \<Rightarrow> (nat pbc_env \<times> stringpool list \<times> int \<times> int) option" where
  "pbc_register strtod addr junk p pools buffer sz g = do {
     (p, g, message) \<leftarrow> pbc_rmessage_new junk p (cstr ''google.protobuf.FileDescriptorSet'') buffer sz g;
     case message of
       None \<Rightarrow> Some (p\<lparr>env_lasterror := ''register open google.protobuf.FileDescriptorSet fail''\<rparr>, pools, g, 1)
     | Some (s, message) \<Rightarrow> do {
         (s, pools, done) \<leftarrow> register_files strtod addr pools s message;
         let g = pbc_rmessage_delete (Some (s, message)) (mem_g (rs_mem s));
         Some (rs_env s, pools, g, if done then 0 else 1) } }"

subsection \<open>The loop over the files ends\<close>

definition pending :: "register_set \<Rightarrow> nat" where
  "pending t = length (filter (\<lambda>f. f \<noteq> None) (rt_files t))"

lemma pending_le: "pending t \<le> length (rt_files t)"
  by (simp add: pending_def)

lemma filter_update_less:
  assumes "i < length xs" and "P (xs ! i)" and "\<not> P y"
  shows "length (filter P (xs[i := y])) < length (filter P xs)"
proof -
  have "filter P xs = filter P (take i xs) @ xs ! i # filter P (drop (Suc i) xs)"
    by (subst id_take_nth_drop [OF assms(1)]) (use assms(2) in simp)
  moreover have "filter P (xs[i := y]) = filter P (take i xs) @ filter P (drop (Suc i) xs)"
    using assms(1,3) by (simp add: upd_conv_take_nth_drop)
  ultimately show ?thesis by simp
qed

lemma register_new_files: "register_new strtod addr filename file i t = Some t' \<Longrightarrow> rt_files t' = (rt_files t)[i := None]"
  by (auto simp: register_new_def Let_def bind_Some_iff split: prod.splits)

lemma register_one_step:
  assumes "register_one strtod addr i (t, r) = Some (t', r')"
  shows "(pending t' < pending t \<or> t' = t) \<and> length (rt_files t') = length (rt_files t)"
proof (cases "t' = t")
  case False
  with assms obtain f err where f: "i < length (rt_files t)" "rt_files t ! i = Some f" "check_file_name (rt_s t) f = Some err"
    by (auto simp: register_one_def bind_Some_iff rd_eq_Some split: option.split_asm)
  with assms False obtain filename where "register_new strtod addr filename f i t = Some t'"
    by (cases err) (auto simp: register_one_def bind_Some_iff rd_def)
  with f show ?thesis by (auto simp: register_new_files pending_def intro!: filter_update_less)
qed simp

lemma register_each_step:
  "each n i (register_one strtod addr) (t, r) = Some (t', r') \<Longrightarrow>
     (pending t' < pending t \<or> t' = t) \<and> length (rt_files t') = length (rt_files t)"
proof (induction n arbitrary: i t r)
  case (Suc n)
  then obtain t1 r1 where 1: "register_one strtod addr i (t, r) = Some (t1, r1)"
    "each n (i + 1) (register_one strtod addr) (t1, r1) = Some (t', r')" by (auto simp: ub_simps)
  from register_one_step [OF 1(1)] Suc.IH [OF 1(2)] show ?case by auto
qed simp

lemma register_rounds_fuel:
  "pending t + 2 \<le> fuel \<Longrightarrow> register_rounds fuel strtod addr t r = register_rounds (pending t + 2) strtod addr t r"
proof (induction "pending t" arbitrary: t fuel r rule: less_induct)
  case less
  obtain k where k: "fuel = Suc k" "pending t + 1 \<le> k" using less.prems by (cases fuel) auto
  show ?case
  proof (cases "register_no_dependency strtod addr t")
    case None
    then show ?thesis by (simp add: k)
  next
    case (Some tr)
    obtain t' rr where tr: "tr = (t', rr)" by (cases tr)
    have step: "pending t' < pending t \<or> t' = t"
      using register_each_step [of _ 0 strtod addr t 0 t' rr] Some tr by (simp add: register_no_dependency_def)
    have "register_rounds k strtod addr t' rr = register_rounds (pending t + 1) strtod addr t' rr"
    proof (cases "t' = t")
      case True
      obtain j where "k = Suc j" using k(2) by (cases k) auto
      with True Some tr show ?thesis by simp
    next
      case False
      with step have "pending t' < pending t" by simp
      with less.hyps [of t' k rr] less.hyps [of t' "pending t + 1" rr] k(2) show ?thesis by simp
    qed
    with Some tr show ?thesis by (simp add: k)
  qed
qed

text \<open>The fuel never runs out: a round either shortens the list of the files that are left, or it repeats the count of those that wait.\<close>

lemma register_rounds_ends:
  assumes "pending t + 2 \<le> fuel" and "register_rounds fuel strtod addr t r = Some (t', e)"
  shows "e \<noteq> None"
  using assms
proof (induction "pending t" arbitrary: t fuel r rule: less_induct)
  case less
  obtain k where k: "fuel = Suc k" "pending t + 1 \<le> k" using less.prems by (cases fuel) auto
  obtain t1 rr where tr: "register_no_dependency strtod addr t = Some (t1, rr)"
    using less.prems(2) by (auto simp: k bind_Some_iff)
  then have step: "pending t1 < pending t \<or> t1 = t"
    using register_each_step [of _ 0 strtod addr t 0 t1 rr] by (simp add: register_no_dependency_def)
  show ?case
  proof (cases "rr = r \<or> rr = 0")
    case True
    with less.prems(2) tr show ?thesis by (auto simp: k split: if_split_asm)
  next
    case False
    with less.prems(2) tr have rounds: "register_rounds k strtod addr t1 rr = Some (t', e)" by (simp add: k)
    show ?thesis
    proof (cases "t1 = t")
      case True
      obtain j where "k = Suc j" using k(2) by (cases k) auto
      with True tr rounds show ?thesis by auto
    next
      case False
      with step have "pending t1 < pending t" by simp
      from less.hyps [OF this _ rounds] this k(2) show ?thesis by simp
    qed
  qed
qed

subsection \<open>Numbers in texts\<close>

lemma digit_char: "n < 10 \<Longrightarrow> unat (of_nat (48 + n) :: byte) = 48 + n"
  unfolding unsigned_of_nat take_bit_eq_mod by simp

lemma is_digit_char: "n < 10 \<Longrightarrow> is_digit (of_nat (48 + n))"
  unfolding is_digit_def word_le_nat_alt by (subst digit_char, assumption)+ simp

lemma decimal_digits: "\<forall>c \<in> set (decimal n). is_digit c"
proof (induction n rule: decimal.induct)
  case (1 n)
  then show ?case
    using is_digit_char [of n] is_digit_char [of "n mod 10"] by (subst decimal.simps) (simp del: of_nat_add)
qed

lemma digits_value_decimal: "digits_value (decimal n) = n"
proof (induction n rule: decimal.induct)
  case (1 n)
  then show ?case
    using digit_char [of n] digit_char [of "n mod 10"]
    by (subst decimal.simps) (simp add: digits_value_def del: of_nat_add)
qed

lemma decimal_not_Nil: "decimal n \<noteq> []"
  by (subst decimal.simps) simp

lemma digit_not_special: "is_digit c \<Longrightarrow> \<not> is_space c \<and> c \<noteq> 45 \<and> c \<noteq> 43"
  by (auto simp: is_digit_def is_space_def word_le_nat_alt)

lemma signed_text_decimal: "signed_text (decimal_int i) = (i < 0, nat \<bar>i\<bar>)"
proof -
  have t: "takeWhile is_digit (decimal n) = decimal n" for n using decimal_digits by (simp add: takeWhile_eq_all_conv)
  show ?thesis
  proof (cases "i < 0")
    case True
    have "\<not> is_space 45" by (simp add: is_space_def word_le_nat_alt)
    with True show ?thesis
      by (simp add: decimal_int_def signed_text_def Let_def cstr_def of_char_def t digits_value_decimal)
  next
    case False
    obtain c cs where c: "decimal (nat i) = c # cs" using decimal_not_Nil by (cases "decimal (nat i)") auto
    have "is_digit c" using decimal_digits [of "nat i"] c by simp
    from digit_not_special [OF this] False t [of "nat i"] digits_value_decimal [of "nat i"] show ?thesis
      by (simp add: decimal_int_def signed_text_def Let_def c)
  qed
qed

lemma decimal_int_chars: "set (decimal_int i) \<subseteq> insert 45 {c. is_digit c}"
  using decimal_digits by (auto simp: decimal_int_def cstr_def of_char_def)

lemma decimal_int_no_nul: "0 \<notin> set (decimal_int i)"
  using decimal_int_chars [of i] by (auto simp: is_digit_def word_le_nat_alt)

lemma decimal_int_not_true: "decimal_int i \<noteq> cstr ''true''"
proof
  assume "decimal_int i = cstr ''true''"
  then have "116 \<in> set (decimal_int i)" by (simp add: cstr_def of_char_def)
  with decimal_int_chars [of i] show False by (auto simp: is_digit_def word_le_nat_alt)
qed

lemma strtoll_decimal: "strtoll (decimal_int i) = max (- (2 ^ 63)) (min (2 ^ 63 - 1) i)"
  by (simp add: strtoll_def signed_text_decimal)

lemma default_64:
  assumes "type \<in> {PTYPE_INT64, PTYPE_UINT64, PTYPE_SFIXED64, PTYPE_SINT64}"
  shows "\<exists>lo h. default_of_text strtod type s = VInt lo h \<and> u64_of_ll lo h = of_int (strtoll s)"
proof -
  define v :: u64 where "v = of_int (strtoll s)"
  have "default_of_text strtod type s = VInt (ucast v) (ucast (drop_bit 32 v))"
    using assms unfolding default_of_text_def Let_def v_def by (elim insertE emptyE) simp_all
  moreover have "u64_of_ll (ucast v) (ucast (drop_bit 32 v)) = v" using u64_of_ll_of [of v] by (simp add: ll_of_def)
  ultimately show ?thesis by (simp add: v_def)
qed

lemma default_32:
  assumes "type \<in> {PTYPE_INT32, PTYPE_FIXED32, PTYPE_SFIXED32, PTYPE_SINT32}"
  shows "default_of_text strtod type s = VInt (of_int (strtoll s)) (if sint (of_int (strtoll s) :: u32) < 0 then - 1 else 0)"
  using assms unfolding default_of_text_def Let_def by (elim insertE emptyE) simp_all

lemma sint_of_int_u32: "- (2 ^ 31) \<le> i \<Longrightarrow> i < 2 ^ 31 \<Longrightarrow> sint (of_int i :: u32) = i"
  by (simp add: signed_of_int signed_take_bit_int_eq_self)

subsection \<open>The map of files is kept\<close>

lemma each_inv:
  assumes "each n i f s = Some s'" and "P s" and "\<And>i s s'. f i s = Some s' \<Longrightarrow> P s \<Longrightarrow> P s'"
  shows "P s'"
  using assms(1,2)
proof (induction n arbitrary: i s)
  case (Suc n)
  then obtain s1 where "f i s = Some s1" "each n (i + 1) f s1 = Some s'" by (auto simp: ub_simps)
  with Suc.IH assms(3) Suc.prems(2) show ?case by blast
qed simp

lemma default_message_files [files_kept]: "default_message i s = Some (s', v) \<Longrightarrow> env_files (rs_env s') = env_files (rs_env s)"
  by (auto simp: default_message_def ub_simps)

lemma rmessage_message_files [files_kept]:
  "pbc_rmessage_message s v key i = Some (s', sub) \<Longrightarrow> env_files (rs_env s') = env_files (rs_env s)"
proof -
  assume *: "pbc_rmessage_message s v key i = Some (s', sub)"
  then obtain r where r: "rvalue_of s v key = Some r" by (auto simp: pbc_rmessage_message_def bind_Some_iff)
  show ?thesis
  proof (cases r)
    case None
    with * r obtain t msg q where q: "rm_msg v = Some t" "rd (st_messages (rs_env s)) t = Some msg" "pbcM_sp_query (Some (pm_name msg)) key = Some q"
      by (auto simp: pbc_rmessage_message_def bind_Some_iff)
    show ?thesis
    proof (cases q)
      case None
      with * r \<open>r = None\<close> q show ?thesis by (auto simp: pbc_rmessage_message_def rs_error_def)
    next
      case (Some fi)
      with * r \<open>r = None\<close> q obtain t' sub' where "default_message t' s = Some (s', sub')"
        by (cases "rd (st_fields (rs_env s)) fi")
          (auto simp: pbc_rmessage_message_def bind_Some_iff split: type_ref.split_asm option.split_asm)
      then show ?thesis by (rule default_message_files)
    qed
  next
    case (Some x)
    then have x: "rvalue_of s v key = Some (Some x)" using r by simp
    have "s' = s"
    proof (cases "rv_v x")
      case (RArray a)
      with * x obtain c where "(case c of CMsg m \<Rightarrow> Some (s, Some m) | CVar _ \<Rightarrow> None) = Some (s', sub)"
        by (auto simp: pbc_rmessage_message_def bind_Some_iff split: if_split_asm)
      then show ?thesis by (cases c) auto
    qed (use * x in \<open>auto simp: pbc_rmessage_message_def bind_Some_iff split: if_split_asm\<close>)
    then show ?thesis by simp
  qed
qed

abbreviation files_of :: "register \<Rightarrow> nat map_sp" where "files_of r \<equiv> env_files (rg_env r)"

lemma put_env_simps [simp]: "rg_env (put_env m p r) = p" "rg_queue (put_env m p r) = rg_queue r" "rg_pool (put_env m p r) = rg_pool r"
  by (simp_all add: put_env_def)

lemma get_message_files [files_kept]: "get_message r v key i = Some (r', sub) \<Longrightarrow> files_of r' = files_of r"
  by (auto simp: get_message_def ub_simps dest!: files_kept)

lemma pool_text_files [files_kept]: "pool_text str sz r = Some (r', t) \<Longrightarrow> files_of r' = files_of r"
  by (auto simp: pool_text_def ub_simps rs_g_def split: if_split_asm)

lemma concat_name_files [files_kept]: "concat_name prefix prefix_sz name sz r = Some (r', t) \<Longrightarrow> files_of r' = files_of r"
  by (auto simp: concat_name_def ub_simps Let_def split: if_split_asm dest!: files_kept)

lemma enum_value_files: "enum_value_at enum_type i rt = Some rt' \<Longrightarrow> files_of (fst rt') = files_of (fst rt)"
  by (cases rt) (auto simp: enum_value_at_def ub_simps dest!: files_kept)

lemma enum_values_files [files_kept]: "each n 0 (enum_value_at enum_type) (r, []) = Some (r', table) \<Longrightarrow> files_of r' = files_of r"
  by (drule each_inv [where P = "\<lambda>rt. files_of (fst rt) = files_of r"]) (auto simp: enum_value_files)

lemma register_enum_files [files_kept]: "register_enum enum_type prefix sz r = Some r' \<Longrightarrow> files_of r' = files_of r"
  by (auto simp: register_enum_def ub_simps Let_def dest!: files_kept)

lemma register_default_files [files_kept]: "register_default strtod type str sz r = Some (r', v) \<Longrightarrow> files_of r' = files_of r"
  by (auto simp: register_default_def ub_simps split: if_split_asm dest!: files_kept)

lemma field_label_files [files_kept]: "field_label r field = Some (r', label) \<Longrightarrow> files_of r' = files_of r"
  by (auto simp: field_label_def ub_simps split: if_split_asm dest!: files_kept)

lemma register_field_files [files_kept]: "register_field strtod name field r = Some (r', f) \<Longrightarrow> files_of r' = files_of r"
  by (auto simp: register_field_def ub_simps dest!: files_kept)

lemma push_files [files_kept]: "push_message name f r = Some r' \<Longrightarrow> files_of r' = files_of r"
  by (auto simp: push_message_def ub_simps dest!: files_kept)

lemma init_files [files_kept]: "init_message name r = Some r' \<Longrightarrow> files_of r' = files_of r"
  by (auto simp: init_message_def ub_simps dest!: files_kept)

lemma extension_at_files: "extension_at strtod msg prefix sz i rl = Some rl' \<Longrightarrow> files_of (fst rl') = files_of (fst rl)"
  by (cases rl) (auto simp: extension_at_def ub_simps split: option.split_asm if_split_asm dest!: files_kept)

lemma extensions_files [files_kept]: "each n 0 (extension_at strtod msg prefix sz) (r, None) = Some (r', l) \<Longrightarrow> files_of r' = files_of r"
  by (drule each_inv [where P = "\<lambda>rl. files_of (fst rl) = files_of r"]) (auto simp: extension_at_files)

lemma register_extension_files [files_kept]: "register_extension strtod msg prefix sz r = Some r' \<Longrightarrow> files_of r' = files_of r"
  by (auto simp: register_extension_def ub_simps split: if_split_asm dest!: files_kept)

lemma field_at_files: "field_at strtod msg target i r = Some r' \<Longrightarrow> files_of r' = files_of r"
  by (auto simp: field_at_def ub_simps dest!: files_kept)

lemma nested_enum_at_files: "nested_enum_at msg prefix sz i r = Some r' \<Longrightarrow> files_of r' = files_of r"
  by (auto simp: nested_enum_at_def ub_simps dest!: files_kept)

lemma each_files:
  assumes "each n 0 f r = Some r'" and "\<And>i r r'. f i r = Some r' \<Longrightarrow> files_of r' = files_of r"
  shows "files_of r' = files_of r"
  using each_inv [where P = "\<lambda>x. files_of x = files_of r", OF assms(1)] assms(2) by auto

lemma fields_files [files_kept]: "each n 0 (field_at strtod msg target) r = Some r' \<Longrightarrow> files_of r' = files_of r"
  by (erule each_files) (rule field_at_files)

lemma nested_enums_files [files_kept]: "each n 0 (nested_enum_at msg prefix sz) r = Some r' \<Longrightarrow> files_of r' = files_of r"
  by (erule each_files) (rule nested_enum_at_files)

lemma register_body_files [files_kept]: "register_body strtod msg prefix sz r = Some (r', t) \<Longrightarrow> files_of r' = files_of r"
  by (auto simp: register_body_def ub_simps dest!: files_kept)

lemma register_message_files [files_kept]:
  assumes "register_message strtod msg prefix sz r = Some r'"
  shows "files_of r' = files_of r"
proof (rule register_message.raw_induct [where P = "\<lambda>strtod msg prefix sz r r'. files_of r' = files_of r", OF _ assms])
  fix rec strtod msg prefix sz r r'
  assume IH: "\<And>strtod msg prefix sz r r'. rec strtod msg prefix sz r = Some r' \<Longrightarrow> files_of r' = files_of r"
    and body: "Option.bind (register_body strtod msg prefix sz r) (\<lambda>rts. Option.bind (get_size (fst rts) msg ''nested_type'') (\<lambda>n.
       each n 0 (\<lambda>i r. Option.bind (get_message r msg ''nested_type'' i) (\<lambda>rn.
         rec strtod (snd rn) (Some (fst (snd rts))) (snd (snd rts)) (fst rn))) (fst rts))) = Some r'"
  then obtain rts n where "register_body strtod msg prefix sz r = Some rts"
    and n: "each n 0 (\<lambda>i r. Option.bind (get_message r msg ''nested_type'' i) (\<lambda>rn.
       rec strtod (snd rn) (Some (fst (snd rts))) (snd (snd rts)) (fst rn))) (fst rts) = Some r'"
    by (auto simp: bind_Some_iff)
  moreover have "files_of r' = files_of (fst rts)"
  proof (rule each_files [OF n])
    fix i r1 r2
    assume "Option.bind (get_message r1 msg ''nested_type'' i) (\<lambda>rn. rec strtod (snd rn) (Some (fst (snd rts))) (snd (snd rts)) (fst rn)) = Some r2"
    then obtain rn where "get_message r1 msg ''nested_type'' i = Some rn" "rec strtod (snd rn) (Some (fst (snd rts))) (snd (snd rts)) (fst rn) = Some r2"
      by (auto simp: bind_Some_iff)
    then show "files_of r2 = files_of r1" using IH by (cases rn) (fastforce dest!: get_message_files)
  qed
  ultimately show "files_of r' = files_of r" by (cases rts) (auto dest!: files_kept)
qed

lemma message_at_files: "message_at strtod file package sz i r = Some r' \<Longrightarrow> files_of r' = files_of r"
  by (auto simp: message_at_def ub_simps dest!: files_kept)

lemma messages_files [files_kept]: "each n 0 (message_at strtod file package sz) r = Some r' \<Longrightarrow> files_of r' = files_of r"
  by (erule each_files) (rule message_at_files)

lemma register_types_files [files_kept]: "register_types strtod addr file s pool = Some (s', pool') \<Longrightarrow> env_files (rs_env s') = env_files (rs_env s)"
  by (auto simp: register_types_def ub_simps Let_def put_env_def case_prod_beta dest!: files_kept)

subsection \<open>Properties\<close>

text \<open>
  The default for the text of a number, and the range of \<open>long long\<close>.\<close>

definition number_default :: "(cstring \<Rightarrow> u64) \<Rightarrow> int \<Rightarrow> int \<Rightarrow> byte list \<Rightarrow> int \<Rightarrow> register \<Rightarrow> pbc_var option" where
  "number_default strtod type i rest sz r = map_option snd (register_default strtod type (Some (decimal_int i @ 0 # rest)) sz r)"

definition clip64 :: "int \<Rightarrow> int" where
  "clip64 i = max (- (2 ^ 63)) (min (2 ^ 63 - 1) i)"

text \<open>
  C36: what \<open>_set_default\<close> makes of the decimal text of a number, for every type of number. INT64, UINT64, SFIXED64 and SINT64 get the
  number cut to the signed range of 64 bits, so that the upper half of the unsigned numbers is lost; INT32, FIXED32, SFIXED32 and SINT32
  get the low 32 bits of that, with the sign extended to the upper word, so that a number in range is itself; UINT32 gets a number below
  2 ^ 32 itself; DOUBLE and FLOAT get what \<open>strtod\<close> returns; BOOL gets false, even for 1; FIXED64, which has no case of its own, gets 0
  whatever the text is.\<close>

theorem default_numbers:
  assumes "sz \<noteq> 0"
  shows "(\<forall>type \<in> {PTYPE_INT64, PTYPE_UINT64, PTYPE_SFIXED64, PTYPE_SINT64}.
      \<exists>lo h. number_default strtod type i rest sz r = Some (VInt lo h) \<and> u64_of_ll lo h = of_int (clip64 i))
   \<and> (\<forall>type \<in> {PTYPE_INT32, PTYPE_FIXED32, PTYPE_SFIXED32, PTYPE_SINT32}.
      number_default strtod type i rest sz r = Some (VInt (of_int (clip64 i)) (if sint (of_int (clip64 i) :: u32) < 0 then - 1 else 0))
      \<and> (- (2 ^ 31) \<le> i \<and> i < 2 ^ 31 \<longrightarrow> number_default strtod type i rest sz r = Some (VInt (of_int i) (if i < 0 then - 1 else 0))))
   \<and> (0 \<le> i \<and> i < 2 ^ 32 \<longrightarrow> number_default strtod PTYPE_UINT32 i rest sz r = Some (VInt (of_int i) 0))
   \<and> number_default strtod PTYPE_DOUBLE i rest sz r = Some (VReal (strtod (decimal_int i))) \<and> number_default strtod PTYPE_FLOAT i rest sz r = Some (VReal (strtod (decimal_int i)))
   \<and> number_default strtod PTYPE_BOOL i rest sz r = Some (VInt 0 0) \<and> number_default strtod PTYPE_FIXED64 i rest sz r = Some (VInt 0 0)"
proof -
  have res: "number_default strtod type i rest sz r = Some (default_of_text strtod type (decimal_int i))"
    if "type \<notin> {PTYPE_STRING, PTYPE_ENUM, PTYPE_BYTES, PTYPE_MESSAGE}" for type
    using that assms(1) c_string_append [OF decimal_int_no_nul] by (simp add: number_default_def register_default_def)
  have c: "strtoll (decimal_int i) = clip64 i" by (simp add: strtoll_decimal clip64_def)
  show ?thesis
  proof (intro conjI ballI impI)
    fix type :: int assume *: "type \<in> {PTYPE_INT64, PTYPE_UINT64, PTYPE_SFIXED64, PTYPE_SINT64}"
    then have "number_default strtod type i rest sz r = Some (default_of_text strtod type (decimal_int i))" by (intro res) auto
    with default_64 [OF *, of strtod "decimal_int i"] show "\<exists>lo h. number_default strtod type i rest sz r = Some (VInt lo h) \<and> u64_of_ll lo h = of_int (clip64 i)"
      by (simp add: c)
  next
    fix type :: int assume *: "type \<in> {PTYPE_INT32, PTYPE_FIXED32, PTYPE_SFIXED32, PTYPE_SINT32}"
    then have "number_default strtod type i rest sz r = Some (default_of_text strtod type (decimal_int i))" by (intro res) auto
    with default_32 [OF *, of strtod "decimal_int i"]
    show r: "number_default strtod type i rest sz r = Some (VInt (of_int (clip64 i)) (if sint (of_int (clip64 i) :: u32) < 0 then - 1 else 0))" by (simp only: c)
    assume i: "- (2 ^ 31) \<le> i \<and> i < 2 ^ 31"
    then have "clip64 i = i" by (simp add: clip64_def)
    with r i show "number_default strtod type i rest sz r = Some (VInt (of_int i) (if i < 0 then - 1 else 0))" by (simp only: sint_of_int_u32)
  next
    assume *: "0 \<le> i \<and> i < 2 ^ 32"
    then have "nat i < nat (2 ^ 64)" by (intro nat_mono_iff [THEN iffD2]) simp_all
    then have "nat i < 2 ^ 64" "\<not> i < 0" using * by simp_all
    then have "strtoul (decimal_int i) = of_int i" by (simp add: strtoul_def signed_text_decimal)
    moreover have "ucast (of_int i :: u64) = (of_int i :: u32)"
      by transfer (simp add: take_bit_take_bit)
    ultimately show "number_default strtod PTYPE_UINT32 i rest sz r = Some (VInt (of_int i) 0)"
      using * by (simp add: res default_of_text_def)
  next
    show "number_default strtod PTYPE_BOOL i rest sz r = Some (VInt 0 0)" using decimal_int_not_true by (simp add: res default_of_text_def)
  qed (simp_all add: res default_of_text_def)
qed

lemma default_numbers_witness:
  "\<forall>r. number_default (\<lambda>_. 0) PTYPE_INT32 (- 7) [] 2 r = Some (VInt (- 7) (- 1))
   \<and> number_default (\<lambda>_. 0) PTYPE_FIXED64 (- 7) [] 2 r = Some (VInt 0 0)"
proof
  fix r
  note n = default_numbers [of 2 "\<lambda>_. 0" "- 7" "[]" r]
  show "number_default (\<lambda>_. 0) PTYPE_INT32 (- 7) [] 2 r = Some (VInt (- 7) (- 1))
   \<and> number_default (\<lambda>_. 0) PTYPE_FIXED64 (- 7) [] 2 r = Some (VInt 0 0)" using n by (simp add: clip64_def)
qed

text \<open>
  C34: the loop over the files of a set ends, whatever the files depend on: given two rounds more than there are files, it is never still
  going on; unless a round is undefined, it comes to a result, and more rounds change nothing.\<close>

theorem register_rounds_enough:
  assumes "length (rt_files t) + 2 \<le> fuel"
  shows "(\<forall>t'. register_rounds fuel strtod addr t r \<noteq> Some (t', None))
    \<and> register_rounds fuel strtod addr t r = register_rounds (length (rt_files t) + 2) strtod addr t r"
  using register_rounds_ends [of t fuel strtod addr r] pending_le [of t] assms
    register_rounds_fuel [of t fuel strtod addr r] register_rounds_fuel [of t "length (rt_files t) + 2" strtod addr r]
  by auto

lemma each_waits:
  fixes r :: nat
  assumes "\<And>j r. i \<le> j \<Longrightarrow> j < i + n \<Longrightarrow> f j (t, r) = Some (t, r + (if w j then 1 else 0))"
  shows "each n i f (t, r) = Some (t, r + length (filter w [i..<i + n]))"
  using assms
proof (induction n arbitrary: i r)
  case (Suc n)
  have "[i..<i + Suc n] = i # [Suc i..<Suc i + n]" by (simp add: upt_conv_Cons)
  moreover have "each n (i + 1) f (t, r') = Some (t, r' + length (filter w [i + 1..<i + 1 + n]))" for r'
    by (rule Suc.IH) (use Suc.prems in simp)
  ultimately show ?case using Suc.prems [of i r] by simp
qed simp

text \<open>
  C35: when no file of a set can be registered, because all wait for others or are there already, the environment stays as it is; the
  result is an error unless all files are there already.\<close>

theorem register_waits:
  assumes "rt_files t = map Some fs" and "fs \<noteq> []"
    and "\<forall>f \<in> set fs. check_file_name (rt_s t) f = Some CHECK_FILE_EXIST \<or> check_file_name (rt_s t) f = Some CHECK_FILE_DEPENDENCY"
  shows "register_rounds (length fs + 2) strtod addr t (length fs) = Some
     (if \<forall>f \<in> set fs. check_file_name (rt_s t) f = Some CHECK_FILE_EXIST then (t, Some True)
      else (t\<lparr>rt_s := rs_error ''register dependency error'' (rt_s t)\<rparr>, Some False))"
proof -
  define w where "w j \<longleftrightarrow> check_file_name (rt_s t) (fs ! j) = Some CHECK_FILE_DEPENDENCY" for j
  define d where "d = length (filter w [0..<length fs])"
  have "register_one strtod addr j (t, r) = Some (t, r + (if w j then 1 else 0))" if "j < length fs" for j r
    using bspec [OF assms(3) nth_mem [OF that]] that assms(1) by (elim disjE) (simp_all add: register_one_def rd_def w_def)
  then have round: "register_no_dependency strtod addr t = Some (t, d)"
    using each_waits [of 0 "length fs" "register_one strtod addr" t w 0] by (simp add: register_no_dependency_def assms(1) d_def)
  have "d = 0 \<longleftrightarrow> (\<forall>f \<in> set fs. check_file_name (rt_s t) f = Some CHECK_FILE_EXIST)"
    using assms(3) by (auto simp: d_def w_def filter_empty_conv all_set_conv_all_nth)
  moreover have "d \<le> length fs" unfolding d_def by (metis diff_zero length_filter_le length_upt)
  ultimately show ?thesis using round assms(2) by (cases "d = length fs") auto
qed

text \<open>A file that has a name and depends on another.\<close>

definition file_fields :: "pbc_field list" where
  "file_fields =
     [\<lparr>pf_id = 1, pf_name = cstr ''name'', pf_type = PTYPE_STRING, pf_label = LABEL_OPTIONAL, pf_default = VStr (Some [0]) 0, pf_tname = TName None\<rparr>,
      \<lparr>pf_id = 3, pf_name = cstr ''dependency'', pf_type = PTYPE_STRING, pf_label = LABEL_REPEATED, pf_default = VStr (Some [0]) 0, pf_tname = TName None\<rparr>]"

definition one_file :: "bool \<Rightarrow> (register_set \<times> rmsg) option" where
  "one_file depends = do {
     (m, p) \<leftarrow> pbc_new_tables no_mem;
     (m, p, _) \<leftarrow> push_fields p (cstr ''File'') file_fields pbcA_open m;
     (m, index) \<leftarrow> pbcM_sp_new 0 True m;
     (m, index) \<leftarrow> pbcM_sp_insert index (cstr ''name'') (Some 0) m;
     (m, index) \<leftarrow> (if depends then pbcM_sp_insert index (cstr ''dependency'') (Some 1) m else Some (m, index));
     (m, a) \<leftarrow> pbcA_push pbcA_open_heap (CVar (VStr (Some (cstr ''b.proto'' @ [0])) 7)) m;
     let f = \<lparr>rm_msg = Some 0, rm_index = Some index\<rparr>;
     Some (\<lparr>rt_s = \<lparr>rs_env = p, rs_mem = m, rs_values = [\<lparr>rv_type = 0, rv_v = RVar (VStr (Some (cstr ''a.proto'' @ [0])) 7)\<rparr>, \<lparr>rv_type = 1, rv_v = RArray a\<rparr>]\<rparr>,
           rt_pools = [], rt_files = [Some f]\<rparr>, f) }"

lemma one_file_facts:
  "case one_file True of None \<Rightarrow> False | Some (t, f) \<Rightarrow> check_file_name (rt_s t) f = Some CHECK_FILE_DEPENDENCY"
  "case one_file False of None \<Rightarrow> False
   | Some (t, f) \<Rightarrow> (case register_new (\<lambda>_. 0) (\<lambda>_. 0) (cstr ''a.proto'') f 0 t of None \<Rightarrow> False
       | Some (t') \<Rightarrow> pbc_rmessage_string False (rt_s t') f (cstr ''name'') 0 = Some (Some (cstr ''a.proto'' @ [0]), None))"
   by code_simp+

lemma one_file_files:
  assumes "one_file d = Some (t, f)"
  shows "rt_files t = [Some f]" and "sp_inv (env_files (rs_env (rt_s t)))" and "sp_abs (env_files (rs_env (rt_s t))) = Map.empty"
    and "sp_size (env_files (rs_env (rt_s t))) = 0"
proof -
  obtain m and p :: "nat pbc_env" and m1 p1 q where p: "pbc_new_tables no_mem = Some (m, p)"
    "push_fields p (cstr ''File'') file_fields pbcA_open m = Some (m1, p1, q)" "rs_env (rt_s t) = p1" "rt_files t = [Some f]"
    using assms by (auto simp: one_file_def bind_Some_iff Let_def)
  have "env_files p1 = env_files p" by (rule push_fields_files [OF p(2)])
  moreover have "sp_inv (env_files p) \<and> sp_abs (env_files p) = Map.empty \<and> sp_size (env_files p) = 0"
    using p(1) by (auto simp: pbc_new_tables_def ub_simps Let_def dest!: new_tables_map)
  ultimately show "rt_files t = [Some f]" "sp_inv (env_files (rs_env (rt_s t)))" "sp_abs (env_files (rs_env (rt_s t))) = Map.empty"
    "sp_size (env_files (rs_env (rt_s t))) = 0" using p(3,4) by simp_all
qed

lemma register_rounds_enough_witness:
  "case one_file True of None \<Rightarrow> False
   | Some (t, _) \<Rightarrow> (\<forall>t'. register_rounds 9 (\<lambda>_. 0) (\<lambda>_. 0) t 1 \<noteq> Some (t', None))
       \<and> register_rounds 9 (\<lambda>_. 0) (\<lambda>_. 0) t 1 = register_rounds 3 (\<lambda>_. 0) (\<lambda>_. 0) t 1"
proof -
  obtain t f where t: "one_file True = Some (t, f)" using one_file_facts(1) by (auto split: option.split_asm)
  have "length (rt_files t) + 2 \<le> 9" "length (rt_files t) + 2 = 3" by (simp_all add: one_file_files(1) [OF t])
  from register_rounds_enough [OF this(1), of "\<lambda>_. 0" "\<lambda>_. 0" 1, unfolded this(2)]
  show ?thesis unfolding t option.case prod.case .
qed

lemma register_waits_witness:
  "case one_file True of None \<Rightarrow> False
   | Some (t, _) \<Rightarrow> register_rounds 3 (\<lambda>_. 0) (\<lambda>_. 0) t 1 = Some (t\<lparr>rt_s := rs_error ''register dependency error'' (rt_s t)\<rparr>, Some False)"
proof -
  obtain t f where t: "one_file True = Some (t, f)" "check_file_name (rt_s t) f = Some CHECK_FILE_DEPENDENCY"
    using one_file_facts(1) by (auto split: option.split_asm)
  have "register_rounds (length [f] + 2) (\<lambda>_. 0) (\<lambda>_. 0) t (length [f]) = Some
     (if \<forall>f \<in> set [f]. check_file_name (rt_s t) f = Some CHECK_FILE_EXIST then (t, Some True)
      else (t\<lparr>rt_s := rs_error ''register dependency error'' (rt_s t)\<rparr>, Some False))"
    by (rule register_waits) (use t one_file_files(1) [OF t(1)] in simp_all)
  then show ?thesis unfolding t(1) using t(2) by (simp add: numeral_3_eq_3)
qed

text \<open>
  C37: a new environment knows no file, not even the one whose messages are built in, because its entry is a NULL pointer: a file that
  depends on any file waits.\<close>

theorem built_in_file_missing:
  assumes "pbc_new junk stack hi addr descriptor m = Some (m', p)" and "calc_hash name \<noteq> 0"
    and "rs_env s = p" and "pbc_rmessage_string False s f (cstr ''dependency'') 0 = Some (Some (name @ 0 # rest), n)" and "0 \<notin> set name"
  shows "pbcM_sp_query (Some (env_files p)) name = Some None \<and> missing_dependency s f (Suc k) 0 = Some True"
proof -
  have "pbcM_sp_query (Some (env_files p)) name = Some None"
    using conjunct2 [OF new_files [OF assms(1)], rule_format, of name] new_files [OF assms(1)] sp.query [of "env_files p" name] assms(2)
    by (elim disjE) simp_all
  then show ?thesis using assms(3,4) c_string_append [OF assms(5)] by simp
qed

text \<open>A built-in file that describes the dependencies of files, and a file that depends on it.\<close>

definition tiny_descriptor :: "byte list" where
  "tiny_descriptor = [10, 8, 100, 46, 112, 114, 111, 116, 111, 0, 26, 5, 70, 105, 108, 101, 0, 32, 1, 42, 19, 10, 11, 100, 101, 112, 101, 110, 100, 101, 110, 99, 121, 0, 16, 3, 24, 2, 32, 9]"

definition depends_on_builtin :: "(mem \<times> nat pbc_env \<times> nat rstate \<times> rmsg) option" where
  "depends_on_builtin = do {
     (m, p) \<leftarrow> pbc_new (replicate 10 0) (replicate 80 0) (\<lambda>_. 0) (\<lambda>_. 0) tiny_descriptor no_mem;
     (m1, index) \<leftarrow> pbcM_sp_new 0 True m;
     (m1, index) \<leftarrow> pbcM_sp_insert index (cstr ''dependency'') (Some 0) m1;
     (m1, a) \<leftarrow> pbcA_push pbcA_open_heap (CVar (VStr (Some (cstr ''d.proto'' @ [0])) 7)) m1;
     Some (m, p, \<lparr>rs_env = p, rs_mem = m1, rs_values = [\<lparr>rv_type = 0, rv_v = RArray a\<rparr>]\<rparr>, \<lparr>rm_msg = Some 0, rm_index = Some index\<rparr>) }"

lemma depends_on_builtin_facts:
  "case depends_on_builtin of None \<Rightarrow> False
   | Some (m, p, s, f) \<Rightarrow> pbc_rmessage_string False s f (cstr ''dependency'') 0 = Some (Some (cstr ''d.proto'' @ [0]), None)
       \<and> map pf_name (st_fields p) = [cstr ''dependency'']"
  by code_simp

lemma built_in_file_missing_witness:
  "case depends_on_builtin of None \<Rightarrow> False
   | Some (m, p, s, f) \<Rightarrow> pbcM_sp_query (Some (env_files p)) (cstr ''d.proto'') = Some None \<and> missing_dependency s f 1 0 = Some True"
proof -
  obtain m p s f where d: "depends_on_builtin = Some (m, p, s, f)"
    "pbc_rmessage_string False s f (cstr ''dependency'') 0 = Some (Some (cstr ''d.proto'' @ [0]), None)"
    using depends_on_builtin_facts by (auto split: option.split_asm)
  have n: "pbc_new (replicate 10 0) (replicate 80 0) (\<lambda>_. 0) (\<lambda>_. 0) tiny_descriptor no_mem = Some (m, p)" "rs_env s = p"
    using d(1) by (auto simp: depends_on_builtin_def bind_Some_iff)
  have h: "calc_hash (cstr ''d.proto'') \<noteq> 0" by code_simp
  show ?thesis unfolding d(1) using built_in_file_missing [OF n(1) h n(2) d(2), of 0] by (simp add: cstr_def of_char_def)
qed

text \<open>
  C10: a file that was registered is known from then on, with its own string pool at the end of the list, it is done in its set, and another
  file of that name is left out.\<close>

theorem registered_file_known:
  assumes "register_new strtod addr filename f i t = Some t'" and "sp_inv (env_files (rs_env (rt_s t)))"
    and "sp_abs (env_files (rs_env (rt_s t))) filename = None" and "sp_size (env_files (rs_env (rt_s t))) \<le> 2 ^ 20" and "calc_hash filename \<noteq> 0"
    and "pbc_rmessage_string False (rt_s t') f2 (cstr ''name'') 0 = Some (Some (filename @ 0 # rest), n)" and "0 \<notin> set filename"
  shows "pbcM_sp_query (Some (env_files (rs_env (rt_s t')))) filename = Some (Some (length (rt_pools t)))
    \<and> (\<exists>pool. rt_pools t' = rt_pools t @ [pool]) \<and> rt_files t' = (rt_files t)[i := None]
    \<and> check_file_name (rt_s t') f2 = Some CHECK_FILE_EXIST"
proof -
  let ?files = "env_files (rs_env (rt_s t))"
  obtain m m2 files s pool0 pool where new: "pbcM_sp_insert ?files filename (Some (length (rt_pools t))) m = Some (m2, files)"
    "register_types strtod addr f ((rt_s t)\<lparr>rs_mem := m2, rs_env := (rs_env (rt_s t))\<lparr>env_files := files\<rparr>\<rparr>) pool0 = Some (s, pool)"
    "t' = \<lparr>rt_s = s, rt_pools = rt_pools t @ [pool], rt_files = (rt_files t)[i := None]\<rparr>"
    using assms(1) by (auto simp: register_new_def Let_def bind_Some_iff split: prod.split_asm)
  have "sp_size ?files \<le> SP_LIMIT" using assms(4) by (simp add: SP_LIMIT_def)
  from sp.ins [OF assms(2,3) this, of "Some (length (rt_pools t))" m] new(1)
  have "sp_inv files" "sp_abs files filename = Some (Some (length (rt_pools t)))" by auto
  then have "pbcM_sp_query (Some files) filename = Some (Some (length (rt_pools t)))"
    using sp.query [of files filename] assms(5) by simp
  moreover have "env_files (rs_env s) = files" using register_types_files [OF new(2)] by simp
  ultimately show ?thesis
    using new(3) assms(6) c_string_append [OF assms(7)] by (simp add: check_file_name_def)
qed

lemma registered_file_known_witness:
  "case one_file False of None \<Rightarrow> False
   | Some (t, f) \<Rightarrow> (case register_new (\<lambda>_. 0) (\<lambda>_. 0) (cstr ''a.proto'') f 0 t of None \<Rightarrow> False
       | Some t' \<Rightarrow> check_file_name (rt_s t') f = Some CHECK_FILE_EXIST \<and> rt_files t' = [None])"
proof -
  obtain t f t' where t: "one_file False = Some (t, f)" "register_new (\<lambda>_. 0) (\<lambda>_. 0) (cstr ''a.proto'') f 0 t = Some t'"
    "pbc_rmessage_string False (rt_s t') f (cstr ''name'') 0 = Some (Some (cstr ''a.proto'' @ [0]), None)"
    using one_file_facts(2) by (auto split: option.split_asm)
  note e = one_file_files [OF t(1)]
  have h: "calc_hash (cstr ''a.proto'') \<noteq> 0" by code_simp
  have "check_file_name (rt_s t') f = Some CHECK_FILE_EXIST \<and> rt_files t' = (rt_files t)[0 := None]"
    using registered_file_known [OF t(2) e(2) _ _ h t(3)] e by (simp add: cstr_def of_char_def)
  then show ?thesis unfolding t(1) using t(2) e(1) by simp
qed

end
