(* ===== verification/Bezier.thy ===== *)
theory Bezier
  imports Complex_Main Prelude
begin

section \<open>Paths of fish (lbezier/lbezier.c) and the clock (timesp/timesp.c)\<close>

text \<open>
  \<open>init\<close> takes the points of a path and joins them by cubic curves, \<open>tick\<close> gives the place on a path at a time. The
  arithmetic is a parameter: the record \<open>fpu\<close> has the operations on \<open>float\<close> (the type \<open>'f\<close>) and on \<open>double\<close>
  (\<open>'d\<close>), the conversions between them, and \<open>to_int\<close>, which is \<open>None\<close> when the number does not fit into an \<open>int\<close>. Every
  expression of the C code is written with the operations that C chooses. What is printed is left out.
\<close>

record ('f, 'd) fpu =
  f_add :: "'f \<Rightarrow> 'f \<Rightarrow> 'f"
  f_sub :: "'f \<Rightarrow> 'f \<Rightarrow> 'f"
  f_mul :: "'f \<Rightarrow> 'f \<Rightarrow> 'f"
  f_div :: "'f \<Rightarrow> 'f \<Rightarrow> 'f"
  f_less :: "'f \<Rightarrow> 'f \<Rightarrow> bool"
  d_add :: "'d \<Rightarrow> 'd \<Rightarrow> 'd"
  d_sub :: "'d \<Rightarrow> 'd \<Rightarrow> 'd"
  d_mul :: "'d \<Rightarrow> 'd \<Rightarrow> 'd"
  d_div :: "'d \<Rightarrow> 'd \<Rightarrow> 'd"
  d_pow2 :: "'d \<Rightarrow> 'd"
  d_sqrt :: "'d \<Rightarrow> 'd"
  d_int :: "int \<Rightarrow> 'd"
  widen :: "'f \<Rightarrow> 'd"
  narrow :: "'d \<Rightarrow> 'f"
  to_int :: "'d \<Rightarrow> int option"

definition PATH_LENGTH :: int where "PATH_LENGTH = 30"
definition PATH_TYPE :: nat where "PATH_TYPE = 400"
definition STEPS :: int where "STEPS = 100"
definition SMOOTH_VALUE :: int where "SMOOTH_VALUE = 1"

record 'f point =
  px :: 'f
  py :: 'f
  pz :: 'f

record 'f inputpath =
  start_point :: "'f point"
  start_tangent :: "'f point"
  end_tangent :: "'f point"
  end_point :: "'f point"
  LastT :: 'f
  seg_length :: 'f

text \<open>The static variables; a path is its number and its segments.\<close>

record 'f bezier =
  fish_path :: "(int \<times> 'f inputpath list) list"
  bz_n :: int
  total_t :: 'f

definition f_int :: "('f, 'd) fpu \<Rightarrow> int \<Rightarrow> 'f" where
  "f_int m i = narrow m (d_int m i)"

definition zero_point :: "('f, 'd) fpu \<Rightarrow> 'f point" where
  "zero_point m = \<lparr>px = f_int m 0, py = f_int m 0, pz = f_int m 0\<rparr>"

definition zero_segment :: "('f, 'd) fpu \<Rightarrow> 'f inputpath" where
  "zero_segment m = \<lparr>start_point = zero_point m, start_tangent = zero_point m, end_tangent = zero_point m, end_point = zero_point m,
     LastT = f_int m 0, seg_length = f_int m 0\<rparr>"

definition bezier_start :: "('f, 'd) fpu \<Rightarrow> 'f bezier" where
  "bezier_start m = \<lparr>fish_path = replicate PATH_TYPE (0, replicate (nat PATH_LENGTH) (zero_segment m)), bz_n = 0, total_t = f_int m 0\<rparr>"

text \<open>A segment of a path; outside the array it is undefined.\<close>

definition get_seg :: "'f inputpath list \<Rightarrow> int \<Rightarrow> 'f inputpath option" where
  "get_seg ps i = (if 0 \<le> i \<and> i < PATH_LENGTH then rd ps (nat i) else None)"

definition upd_seg :: "'f inputpath list \<Rightarrow> int \<Rightarrow> ('f inputpath \<Rightarrow> 'f inputpath) \<Rightarrow> 'f inputpath list option" where
  "upd_seg ps i f = map_option (\<lambda>s. ps[nat i := f s]) (get_seg ps i)"

text \<open>The first path with a number.\<close>

fun find_path :: "int \<Rightarrow> (int \<times> 'f inputpath list) list \<Rightarrow> nat option" where
  "find_path pathid [] = None"
| "find_path pathid ((q, ps) # paths) = (if q = pathid then Some 0 else map_option Suc (find_path pathid paths))"

subsection \<open>Reading the points\<close>

text \<open>
  One turn of the loop over the table: the entry \<open>j\<close> goes to the segment \<open>i\<close>; the number of the segment grows with the last of
  its coordinates.\<close>

definition read_point :: "(int \<Rightarrow> 'f) \<Rightarrow> int \<Rightarrow> int \<Rightarrow> 'f inputpath list \<Rightarrow> ('f inputpath list \<times> int) option" where
  "read_point tab i j ps =
     (let v = tab j;
          set_start = (\<lambda>g. map_option (\<lambda>ps. (ps, i)) (upd_seg ps i (\<lambda>s. s\<lparr>start_point := g (start_point s)\<rparr>)));
          set_end = (\<lambda>g. map_option (\<lambda>ps. (ps, i)) (upd_seg ps i (\<lambda>s. s\<lparr>end_point := g (end_point s)\<rparr>)))
      in if i = 0
         then if j = 1 then set_start (px_update (\<lambda>_. v))
           else if j = 2 then set_start (py_update (\<lambda>_. v))
           else if j = 3 then set_start (pz_update (\<lambda>_. v))
           else if j = 4 then set_end (px_update (\<lambda>_. v))
           else if j = 5 then set_end (py_update (\<lambda>_. v))
           else if j = 6 then map_option (\<lambda>(ps, i). (ps, i + 1)) (set_end (pz_update (\<lambda>_. v)))
           else Some (ps, i)
         else if j = i * 3 + 4 then set_end (px_update (\<lambda>_. v))
         else if j = i * 3 + 5 then set_end (py_update (\<lambda>_. v))
         else if j = i * 3 + 6 then do {
           prev \<leftarrow> get_seg ps (i - 1);
           ps \<leftarrow> upd_seg ps i (\<lambda>s. s\<lparr>start_point := end_point prev, end_point := (end_point s)\<lparr>pz := v\<rparr>\<rparr>);
           Some (ps, i + 1) }
         else Some (ps, i))"

text \<open>An entry behind those of the segment would be passed over for ever.\<close>

function read_points :: "(int \<Rightarrow> 'f) \<Rightarrow> int \<Rightarrow> int \<Rightarrow> int \<Rightarrow> 'f inputpath list \<Rightarrow> 'f inputpath list option" where
  "read_points tab n i j ps =
     (if n \<le> i then Some ps
      else if i * 3 + 6 < j then None
      else do { (ps, i) \<leftarrow> read_point tab i j ps; read_points tab n i (j + 1) ps })"
  by pat_completeness auto
termination by (relation "measure (\<lambda>(tab, n, i, j, ps). nat (3 * n + 7 - j))") auto

declare read_points.simps [simp del]

subsection \<open>Control points\<close>

text \<open>\<open>(a + b) / 2.0\<close> and the distance of two points.\<close>

definition mid :: "('f, 'd) fpu \<Rightarrow> 'f \<Rightarrow> 'f \<Rightarrow> 'f" where
  "mid m a b = narrow m (d_div m (widen m (f_add m a b)) (d_int m 2))"

definition mid_point :: "('f, 'd) fpu \<Rightarrow> 'f point \<Rightarrow> 'f point \<Rightarrow> 'f point" where
  "mid_point m p q = \<lparr>px = mid m (px p) (px q), py = mid m (py p) (py q), pz = mid m (pz p) (pz q)\<rparr>"

definition dist_points :: "('f, 'd) fpu \<Rightarrow> 'f point \<Rightarrow> 'f point \<Rightarrow> 'f" where
  "dist_points m p q =
     (let sq = (\<lambda>a b. d_pow2 m (widen m (f_sub m a b)))
      in narrow m (d_sqrt m (d_add m (d_add m (sq (px p) (px q)) (sq (py p) (py q))) (sq (pz p) (pz q)))))"

text \<open>\<open>a + (b - a) * k\<close> and \<open>(c - a) * smooth_value + p\<close>.\<close>

definition toward :: "('f, 'd) fpu \<Rightarrow> 'f \<Rightarrow> 'f \<Rightarrow> 'f \<Rightarrow> 'f" where
  "toward m a b k = f_add m a (f_mul m (f_sub m b a) k)"

definition toward_point :: "('f, 'd) fpu \<Rightarrow> 'f point \<Rightarrow> 'f point \<Rightarrow> 'f \<Rightarrow> 'f point" where
  "toward_point m a b k = \<lparr>px = toward m (px a) (px b) k, py = toward m (py a) (py b) k, pz = toward m (pz a) (pz b) k\<rparr>"

definition shifted :: "('f, 'd) fpu \<Rightarrow> 'f \<Rightarrow> 'f \<Rightarrow> 'f \<Rightarrow> 'f" where
  "shifted m c a p = f_add m (f_mul m (f_sub m c a) (f_int m SMOOTH_VALUE)) p"

definition shifted_point :: "('f, 'd) fpu \<Rightarrow> 'f point \<Rightarrow> 'f point \<Rightarrow> 'f point \<Rightarrow> 'f point" where
  "shifted_point m c a p = \<lparr>px = shifted m (px c) (px a) (px p), py = shifted m (py c) (py a) (py p), pz = shifted m (pz c) (pz a) (pz p)\<rparr>"

text \<open>The control point at an end of the path, turned by a right angle around the middle.\<close>

definition turned_point :: "('f, 'd) fpu \<Rightarrow> 'f point \<Rightarrow> 'f point \<Rightarrow> 'f point" where
  "turned_point m p c = \<lparr>px = f_sub m (f_add m (px p) (py p)) (py c), py = f_add m (f_sub m (py p) (px p)) (px c), pz = pz p\<rparr>"

definition control_points :: "('f, 'd) fpu \<Rightarrow> int \<Rightarrow> int \<Rightarrow> 'f inputpath list \<Rightarrow> 'f inputpath list option" where
  "control_points m n i ps = do {
     s \<leftarrow> get_seg ps i;
     (c1, len1) \<leftarrow> (if i = 0 then Some (start_point s, f_int m 0)
       else do { prev \<leftarrow> get_seg ps (i - 1);
                 Some (mid_point m (start_point prev) (start_point s), dist_points m (start_point s) (start_point prev)) });
     let c2 = mid_point m (end_point s) (start_point s);
     let len2 = dist_points m (end_point s) (start_point s);
     (c3, len3) \<leftarrow> (if i + 1 = n then Some (end_point s, f_int m 0)
       else do { nxt \<leftarrow> get_seg ps (i + 1);
                 Some (mid_point m (start_point nxt) (end_point nxt), dist_points m (start_point nxt) (end_point nxt)) });
     let k1 = f_div m len1 (f_add m len1 len2);
     let k2 = f_div m len2 (f_add m len2 len3);
     let m1 = toward_point m c1 c2 k1;
     let m2 = toward_point m c2 c3 k2;
     ps \<leftarrow> upd_seg ps i (\<lambda>s. s\<lparr>start_tangent :=
       (if i = 0 then turned_point m (start_point s) c2 else shifted_point m c2 m1 (start_point s))\<rparr>);
     upd_seg ps i (\<lambda>s. s\<lparr>end_tangent :=
       (if i + 1 = n then turned_point m (end_point s) c2 else shifted_point m c2 m2 (end_point s))\<rparr>) }"

text \<open>A loop over the segments from \<open>i\<close> on.\<close>

function each_seg :: "(int \<Rightarrow> 's \<Rightarrow> 's option) \<Rightarrow> int \<Rightarrow> int \<Rightarrow> 's \<Rightarrow> 's option" where
  "each_seg f n i s = (if n \<le> i then Some s else do { s \<leftarrow> f i s; each_seg f n (i + 1) s })"
  by pat_completeness auto
termination by (relation "measure (\<lambda>(f, n, i, s). nat (n - i))") auto

declare each_seg.simps [simp del]

subsection \<open>The curve\<close>

text \<open>The coefficients of a coordinate, and the coordinate at \<open>t\<close>.\<close>

definition curve_at :: "('f, 'd) fpu \<Rightarrow> 'f \<Rightarrow> 'f \<Rightarrow> 'f \<Rightarrow> 'f \<Rightarrow> 'f \<Rightarrow> 'f" where
  "curve_at m p0 p1 p2 p3 t =
     (let c = narrow m (d_mul m (d_int m 3) (widen m (f_sub m p1 p0)));
          b = narrow m (d_sub m (d_mul m (d_int m 3) (widen m (f_sub m p2 p1))) (widen m c));
          a = f_sub m (f_sub m (f_sub m p3 p0) c) b
      in f_add m (f_add m (f_add m (f_mul m (f_mul m (f_mul m a t) t) t) (f_mul m (f_mul m b t) t)) (f_mul m c t)) p0)"

definition curve_point :: "('f, 'd) fpu \<Rightarrow> 'f inputpath \<Rightarrow> 'f \<Rightarrow> 'f point" where
  "curve_point m s t =
     (let coord = (\<lambda>g. curve_at m (g (start_point s)) (g (start_tangent s)) (g (end_tangent s)) (g (end_point s)) t)
      in \<lparr>px = coord px, py = coord py, pz = coord pz\<rparr>)"

text \<open>The length of a segment, as the sum of the distances of 100 points on it and its end.\<close>

definition curve_step :: "('f, 'd) fpu \<Rightarrow> 'f inputpath \<Rightarrow> int \<Rightarrow> 'f point \<times> 'f \<Rightarrow> 'f point \<times> 'f" where
  "curve_step m s j = (\<lambda>(prev, len).
     let t = narrow m (d_div m (d_add m (d_int m j) (d_int m 0)) (d_int m STEPS));
         current = curve_point m s t
     in (current, if j > 0 then f_add m len (dist_points m prev current) else len))"

definition curve_length :: "('f, 'd) fpu \<Rightarrow> 'f inputpath \<Rightarrow> 'f" where
  "curve_length m s =
     (let (current, len) = fold (curve_step m s) [0..STEPS - 1] (zero_point m, f_int m 0)
      in f_add m len (dist_points m (end_point s) current))"

definition measure_seg :: "('f, 'd) fpu \<Rightarrow> int \<Rightarrow> 'f inputpath list \<times> 'f \<Rightarrow> ('f inputpath list \<times> 'f) option" where
  "measure_seg m i = (\<lambda>(ps, len). do {
     s \<leftarrow> get_seg ps i;
     let l = curve_length m s;
     ps \<leftarrow> upd_seg ps i (\<lambda>s. s\<lparr>seg_length := l\<rparr>);
     Some (ps, f_add m len l) })"

definition last_time :: "('f, 'd) fpu \<Rightarrow> 'f \<Rightarrow> int \<Rightarrow> 'f inputpath list \<Rightarrow> 'f inputpath list option" where
  "last_time m len i ps = do {
     s \<leftarrow> get_seg ps i;
     t \<leftarrow> (if i = 0 then Some (f_div m (seg_length s) len)
       else do { prev \<leftarrow> get_seg ps (i - 1); Some (f_add m (LastT prev) (f_div m (seg_length s) len)) });
     upd_seg ps i (\<lambda>s. s\<lparr>LastT := t\<rparr>) }"

text \<open>C divides towards zero.\<close>

definition third :: "int \<Rightarrow> int" where
  "third j = (if j < 0 then - (- j div 3) else j div 3)"

definition close_path :: "int \<Rightarrow> 'f inputpath list \<Rightarrow> 'f inputpath list option" where
  "close_path n ps = do {
     prev \<leftarrow> get_seg ps (n - 1);
     ps \<leftarrow> upd_seg ps n (\<lambda>s. s\<lparr>start_point := end_point prev\<rparr>);
     s0 \<leftarrow> get_seg ps 0;
     upd_seg ps n (\<lambda>s. s\<lparr>end_point := start_point s0\<rparr>) }"

text \<open>
  The five arguments: the table (\<open>None\<close> for any other value) with what \<open>lua_tonumber\<close> gives for its entries, their number, the
  time, whether the path is closed, and its number. The result has the length, or nothing when the first argument is
  no table.\<close>

definition Linit :: "('f, 'd) fpu \<Rightarrow> (int \<Rightarrow> 'd) option \<Rightarrow> 'd \<Rightarrow> 'd \<Rightarrow> bool \<Rightarrow> 'd \<Rightarrow> 'f bezier \<Rightarrow> ('f bezier \<times> 'f option) option" where
  "Linit m table count time closePath pathid bz = do {
     type \<leftarrow> find_path 0 (fish_path bz);
     pathid \<leftarrow> to_int m pathid;
     (_, ps) \<leftarrow> rd (fish_path bz) type;
     let bz = bz\<lparr>fish_path := (fish_path bz)[type := (pathid, ps)], total_t := narrow m time\<rparr>;
     j \<leftarrow> to_int m count;
     let n = third j - 1;
     case table of None \<Rightarrow> Some (bz\<lparr>bz_n := n\<rparr>, None)
     | Some tab \<Rightarrow> do {
         ps \<leftarrow> read_points (\<lambda>j. narrow m (tab j)) n 0 1 ps;
         (ps, n) \<leftarrow> (if closePath then map_option (\<lambda>ps. (ps, n + 1)) (close_path n ps) else Some (ps, n));
         ps \<leftarrow> each_seg (control_points m n) n 0 ps;
         (ps, len) \<leftarrow> each_seg (measure_seg m) n 0 (ps, f_int m 0);
         ps \<leftarrow> each_seg (last_time m len) n 0 ps;
         Some (bz\<lparr>fish_path := (fish_path bz)[type := (pathid, ps)], bz_n := n\<rparr>, Some len) } }"

text \<open>The first segment that ends behind \<open>t\<close>, or the number of segments.\<close>

function seg_at :: "('f, 'd) fpu \<Rightarrow> 'f inputpath list \<Rightarrow> 'f \<Rightarrow> int \<Rightarrow> int \<Rightarrow> int option" where
  "seg_at m ps t n i =
     (if n \<le> i then Some i
      else do { s \<leftarrow> get_seg ps i; if f_less m t (LastT s) then Some i else seg_at m ps t n (i + 1) })"
  by pat_completeness auto
termination by (relation "measure (\<lambda>(m, ps, t, n, i). nat (n - i))") auto

declare seg_at.simps [simp del]

definition Ltick :: "('f, 'd) fpu \<Rightarrow> 'd \<Rightarrow> 'd \<Rightarrow> 'f bezier \<Rightarrow> ('f bezier \<times> 'f point) option" where
  "Ltick m time pathid bz = do {
     pathid \<leftarrow> to_int m pathid;
     type \<leftarrow> find_path pathid (fish_path bz);
     (_, ps) \<leftarrow> rd (fish_path bz) type;
     let current_t = f_div m (narrow m time) (total_t bz);
     i \<leftarrow> seg_at m ps current_t (bz_n bz) 0;
     s \<leftarrow> (if i < bz_n bz then get_seg ps i else Some (zero_segment m));
     (current_t, total) \<leftarrow>
       (if i = 0 then map_option (\<lambda>s. (current_t, LastT s)) (get_seg ps 0)
        else do {
          prev \<leftarrow> get_seg ps (i - 1);
          si \<leftarrow> get_seg ps i;
          Some (f_sub m current_t (LastT prev), f_sub m (LastT si) (LastT prev)) });
     Some (bz\<lparr>total_t := total\<rparr>, curve_point m s (f_div m current_t total)) }"

text \<open>The clock in milliseconds.\<close>

definition get_time :: "int \<Rightarrow> int \<Rightarrow> u64" where
  "get_time tv_sec tv_usec = of_int tv_sec * 1000 + of_int (tv_usec div 1000)"

subsection \<open>The segments that are read\<close>

text \<open>The points in the table, three entries each.\<close>

definition point_at :: "(int \<Rightarrow> 'f) \<Rightarrow> int \<Rightarrow> 'f point" where
  "point_at tab k = \<lparr>px = tab (3 * k + 1), py = tab (3 * k + 2), pz = tab (3 * k + 3)\<rparr>"

definition segment_ok :: "(int \<Rightarrow> 'f) \<Rightarrow> 'f inputpath list \<Rightarrow> int \<Rightarrow> bool" where
  "segment_ok tab ps k \<longleftrightarrow> start_point (ps ! nat k) = point_at tab k \<and> end_point (ps ! nat k) = point_at tab (k + 1)"

lemma get_seg_ok: "length ps = 30 \<Longrightarrow> 0 \<le> i \<Longrightarrow> i < 30 \<Longrightarrow> get_seg ps i = Some (ps ! nat i)"
  by (simp add: get_seg_def PATH_LENGTH_def rd_def)

lemma upd_seg_ok: "length ps = 30 \<Longrightarrow> 0 \<le> i \<Longrightarrow> i < 30 \<Longrightarrow> upd_seg ps i f = Some (ps[nat i := f (ps ! nat i)])"
  by (simp add: upd_seg_def get_seg_ok)

lemma get_seg_none: "30 \<le> i \<Longrightarrow> get_seg ps i = None" "30 \<le> i \<Longrightarrow> upd_seg ps i f = None"
  by (simp_all add: upd_seg_def get_seg_def PATH_LENGTH_def)

lemma point_update: "p\<lparr>px := a, py := b, pz := c\<rparr> = \<lparr>px = a, py = b, pz = c\<rparr>"
  by (cases p) simp

lemma read_first:
  assumes "length ps = 30" and "0 < n"
  shows "read_points tab n 0 1 ps = read_points tab n 1 7
    (ps[0 := (ps ! 0)\<lparr>start_point := point_at tab 0, end_point := point_at tab 1\<rparr>])"
proof -
  have "\<And>j ps. \<not> 0 * 3 + 6 < j \<Longrightarrow> read_points tab n 0 j ps = do { (ps, i) \<leftarrow> read_point tab 0 j ps; read_points tab n i (j + 1) ps }"
    using assms(2) by (subst read_points.simps) simp
  then show ?thesis using assms
    by (simp add: read_point_def upd_seg_ok point_at_def Let_def point_update)
qed

lemma read_next:
  assumes "length ps = 30" and "1 \<le> i" and "i < n" and "i < 30"
  shows "read_points tab n i (3 * i + 4) ps = read_points tab n (i + 1) (3 * (i + 1) + 4)
    (ps[nat i := (ps ! nat i)\<lparr>start_point := end_point (ps ! nat (i - 1)), end_point := point_at tab (i + 1)\<rparr>])"
proof -
  have "\<And>j ps. \<not> i * 3 + 6 < j \<Longrightarrow> read_points tab n i j ps = do { (ps, i) \<leftarrow> read_point tab i j ps; read_points tab n i (j + 1) ps }"
    using assms(3) by (subst read_points.simps) simp
  moreover have "nat (i - 1) \<noteq> nat i" using assms(2) by simp
  ultimately show ?thesis using assms
    by (simp add: read_point_def upd_seg_ok get_seg_ok point_at_def Let_def point_update algebra_simps)
qed

lemma read_rest:
  assumes "length ps = 30" and "1 \<le> i" and "i \<le> n" and "n \<le> 30" and "\<And>k. 0 \<le> k \<Longrightarrow> k < i \<Longrightarrow> segment_ok tab ps k"
  shows "\<exists>ps'. read_points tab n i (3 * i + 4) ps = Some ps' \<and> length ps' = 30 \<and> (\<forall>k. 0 \<le> k \<and> k < n \<longrightarrow> segment_ok tab ps' k)"
  using assms
proof (induction "nat (n - i)" arbitrary: i ps)
  case 0
  then show ?case by (subst read_points.simps) auto
next
  case (Suc d)
  let ?s = "(ps ! nat i)\<lparr>start_point := end_point (ps ! nat (i - 1)), end_point := point_at tab (i + 1)\<rparr>"
  let ?ps = "ps[nat i := ?s]"
  have i: "i < n" using Suc.hyps(2) by linarith
  have "end_point (ps ! nat (i - 1)) = point_at tab i" using Suc.prems(5) [of "i - 1"] Suc.prems(2) by (simp add: segment_ok_def)
  then have ok: "segment_ok tab ?ps k" if "0 \<le> k" "k < i + 1" for k
    using that Suc.prems i by (cases "k = i") (auto simp: segment_ok_def nth_list_update)
  have "\<exists>ps'. read_points tab n (i + 1) (3 * (i + 1) + 4) ?ps = Some ps' \<and> length ps' = 30 \<and> (\<forall>k. 0 \<le> k \<and> k < n \<longrightarrow> segment_ok tab ps' k)"
    by (rule Suc.hyps(1)) (use Suc.hyps(2) Suc.prems i ok in auto)
  then show ?case using read_next [OF Suc.prems(1,2) i] Suc.prems(4) i by simp
qed

lemma read_points_ok:
  assumes "length ps = 30" and "1 \<le> n" and "n \<le> 30"
  shows "\<exists>ps'. read_points tab n 0 1 ps = Some ps' \<and> length ps' = 30 \<and> (\<forall>k. 0 \<le> k \<and> k < n \<longrightarrow> segment_ok tab ps' k)"
proof -
  let ?ps = "ps[0 := (ps ! 0)\<lparr>start_point := point_at tab 0, end_point := point_at tab 1\<rparr>]"
  have "segment_ok tab ?ps k" if "0 \<le> k" "k < 1" for k
  proof -
    from that have "k = 0" by simp
    then show ?thesis using assms(1) by (simp add: segment_ok_def)
  qed
  from read_rest [of ?ps 1 n tab, OF _ _ assms(2,3) this] show ?thesis using read_first [OF assms(1)] assms by simp
qed

text \<open>Behind the thirtieth segment the next path is written.\<close>

lemma read_none:
  assumes "length ps = 30" and "1 \<le> i" and "i \<le> 30" and "30 < n"
  shows "read_points tab n i (3 * i + 4) ps = None"
  using assms(1-3)
proof (induction "nat (30 - i)" arbitrary: i ps)
  case 0
  then have i: "i = 30" by simp
  have "read_point tab 30 (3 * 30 + 4) ps = None" by (simp add: read_point_def get_seg_none)
  then show ?case using assms(4) unfolding i by (subst read_points.simps) simp
next
  case (Suc d)
  then have "i < 30" by linarith
  then show ?case using Suc.hyps(1) [of "i + 1"] Suc.hyps(2) Suc.prems read_next [OF Suc.prems(1,2), of n tab] assms(4) by simp
qed

text \<open>
  A path of 96 coordinates or more, 32 points, does not fit into the 30 segments of a path: \<open>init\<close> writes behind them.\<close>

lemma bezier_init_overrun:
  assumes "find_path 0 (fish_path bz) = Some type" and "type < length (fish_path bz)" and "length (snd (fish_path bz ! type)) = 30"
    and "to_int m count = Some j" and "96 \<le> j"
  shows "Linit m (Some tab) count time closePath pathid bz = None"
proof -
  let ?ps = "snd (fish_path bz ! type)" and ?tab = "\<lambda>j. narrow m (tab j)"
  have n: "30 < third j - 1" using assms(5) by (simp add: third_def)
  have "read_points ?tab (third j - 1) 0 1 ?ps = None"
    using read_first [OF assms(3), of "third j - 1" ?tab] read_none [of "?ps[0 := _]" 1 "third j - 1" ?tab] n assms(3) by simp
  then show ?thesis using assms by (cases "to_int m pathid") (simp_all add: Linit_def rd_def case_prod_unfold)
qed

text \<open>Exact arithmetic, with which the paths can be compared; an \<open>int\<close> is taken towards zero.\<close>

definition exact :: "(real, real) fpu" where
  "exact = \<lparr>f_add = (+), f_sub = (-), f_mul = (*), f_div = (/), f_less = (<), d_add = (+), d_sub = (-), d_mul = (*), d_div = (/),
     d_pow2 = (\<lambda>x. x\<^sup>2), d_sqrt = sqrt, d_int = of_int, widen = (\<lambda>x. x), narrow = (\<lambda>x. x),
     to_int = (\<lambda>x. let i = if x < 0 then \<lceil>x\<rceil> else \<lfloor>x\<rfloor> in if - (2 ^ 31) \<le> i \<and> i < 2 ^ 31 then Some i else None)\<rparr>"

lemma exact_sel [simp]:
  "f_add exact = (+)" "f_sub exact = (-)" "f_mul exact = (*)" "f_div exact = (/)" "f_less exact = (<)"
  "d_add exact = (+)" "d_sub exact = (-)" "d_mul exact = (*)" "d_div exact = (/)" "d_pow2 exact x = x\<^sup>2"
  "d_sqrt exact = sqrt" "d_int exact = of_int" "widen exact x = x" "narrow exact x = x" "f_int exact i = of_int i"
  by (simp_all add: exact_def f_int_def)

lemma exact_to_int: "- (2 ^ 31) \<le> i \<Longrightarrow> i < 2 ^ 31 \<Longrightarrow> to_int exact (of_int i) = Some i"
  by (simp add: exact_def Let_def)

lemma find_path_start: "find_path 0 (fish_path (bezier_start m)) = Some 0"
  by (simp add: bezier_start_def PATH_TYPE_def numeral_eq_Suc)

lemma path_start: "fish_path (bezier_start m) ! 0 = (0, replicate 30 (zero_segment m))" "length (fish_path (bezier_start m)) = 400"
  by (simp_all add: bezier_start_def PATH_TYPE_def PATH_LENGTH_def)

lemma bezier_init_overrun_witness:
  "\<forall>time closePath. Linit exact (Some (\<lambda>j. of_int j)) 96 time closePath 1 (bezier_start exact) = None"
proof (intro allI)
  fix time closePath
  show "Linit exact (Some (\<lambda>j. of_int j)) 96 time closePath 1 (bezier_start exact) = None"
    by (rule bezier_init_overrun [of _ 0 _ _ 96, OF find_path_start])
      (use exact_to_int [of 96] in \<open>simp_all add: path_start\<close>)
qed

subsection \<open>The path in exact arithmetic\<close>

lemma each_seg_inv:
  assumes "I i s" and "i \<le> n" and "\<And>k s. i \<le> k \<Longrightarrow> k < n \<Longrightarrow> I k s \<Longrightarrow> \<exists>s'. f k s = Some s' \<and> I (k + 1) s'"
  shows "\<exists>s'. each_seg f n i s = Some s' \<and> I n s'"
  using assms
proof (induction "nat (n - i)" arbitrary: i s)
  case 0
  then show ?case by (subst each_seg.simps) simp
next
  case (Suc d)
  then have "i < n" by linarith
  then obtain s' where s': "f i s = Some s'" "I (i + 1) s'" using Suc.prems(3) [of i s] Suc.prems(1) by auto
  have "\<exists>s''. each_seg f n (i + 1) s' = Some s'' \<and> I n s''"
    using Suc.hyps(1) [of "i + 1" s'] Suc.hyps(2) Suc.prems(3) s'(2) \<open>i < n\<close> by simp
  then show ?case using \<open>i < n\<close> s'(1) by (subst each_seg.simps) simp
qed

text \<open>The segments from point to point, the distance of two points, and the control points between them.\<close>

definition joins :: "(int \<Rightarrow> 'f point) \<Rightarrow> 'f inputpath list \<Rightarrow> int \<Rightarrow> bool" where
  "joins P ps k \<longleftrightarrow> start_point (ps ! nat k) = P k \<and> end_point (ps ! nat k) = P (k + 1)"

definition gap :: "(int \<Rightarrow> real point) \<Rightarrow> int \<Rightarrow> real" where
  "gap P k = dist_points exact (P k) (P (k + 1))"

definition middle :: "(int \<Rightarrow> real point) \<Rightarrow> int \<Rightarrow> real point" where
  "middle P k = mid_point exact (P k) (P (k + 1))"

definition joint :: "(int \<Rightarrow> real point) \<Rightarrow> int \<Rightarrow> real point" where
  "joint P k = toward_point exact (middle P (k - 1)) (middle P k) (gap P (k - 1) / (gap P (k - 1) + gap P k))"

definition controls :: "(int \<Rightarrow> real point) \<Rightarrow> int \<Rightarrow> real inputpath list \<Rightarrow> int \<Rightarrow> bool" where
  "controls P n ps k \<longleftrightarrow>
     (0 < k \<longrightarrow> start_tangent (ps ! nat k) = shifted_point exact (middle P k) (joint P k) (P k)) \<and>
     (k + 1 < n \<longrightarrow> end_tangent (ps ! nat k) = shifted_point exact (middle P k) (joint P (k + 1)) (P (k + 1)))"

lemma dist_sym: "dist_points exact p q = dist_points exact q p"
  by (simp add: dist_points_def power2_commute)

lemma dist_nonneg: "0 \<le> dist_points exact p q"
  by (simp add: dist_points_def)

lemma dist_zero: "dist_points exact p q = 0 \<longleftrightarrow> p = q"
  by (cases p; cases q) (simp add: dist_points_def add_nonneg_eq_0_iff)

lemma mid_sym: "mid_point exact p q = mid_point exact q p"
  by (simp add: mid_point_def mid_def add.commute)

lemma control_points_ok:
  assumes ps: "length ps = 30" "\<And>k. 0 \<le> k \<Longrightarrow> k < n \<Longrightarrow> joins P ps k" and k: "0 \<le> k" "k < n" "n \<le> 30"
  shows "\<exists>s. control_points exact n k ps = Some (ps[nat k := s]) \<and> start_point s = P k \<and> end_point s = P (k + 1) \<and>
    (0 < k \<longrightarrow> start_tangent s = shifted_point exact (middle P k) (joint P k) (P k)) \<and>
    (k + 1 < n \<longrightarrow> end_tangent s = shifted_point exact (middle P k) (joint P (k + 1)) (P (k + 1)))"
proof -
  have j: "start_point (ps ! nat k) = P k" "end_point (ps ! nat k) = P (k + 1)"
    "0 < k \<Longrightarrow> start_point (ps ! nat (k - 1)) = P (k - 1)"
    "k + 1 < n \<Longrightarrow> start_point (ps ! nat (k + 1)) = P (k + 1) \<and> end_point (ps ! nat (k + 1)) = P (k + 1 + 1)"
    using ps(2) [of k] ps(2) [of "k - 1"] ps(2) [of "k + 1"] k by (auto simp: joins_def)
  have sel: "\<And>i. 0 \<le> i \<Longrightarrow> i < n \<Longrightarrow> get_seg ps i = Some (ps ! nat i)" using ps(1) k(3) by (simp add: get_seg_ok)
  show ?thesis
    using k j by (cases "k = 0"; cases "k + 1 = n")
      (auto simp: control_points_def sel ps(1) upd_seg_ok Let_def middle_def joint_def gap_def dist_sym mid_sym add.commute)
qed

lemma all_controls:
  assumes "length ps = 30" and "\<And>k. 0 \<le> k \<Longrightarrow> k < n \<Longrightarrow> joins P ps k" and "0 \<le> n" and "n \<le> 30"
  shows "\<exists>ps'. each_seg (control_points exact n) n 0 ps = Some ps' \<and> length ps' = 30 \<and>
    (\<forall>k. 0 \<le> k \<and> k < n \<longrightarrow> joins P ps' k) \<and> (\<forall>k. 0 \<le> k \<and> k < n \<longrightarrow> controls P n ps' k)"
proof (rule each_seg_inv [where I = "\<lambda>i ps. length ps = 30 \<and> (\<forall>k. 0 \<le> k \<and> k < n \<longrightarrow> joins P ps k) \<and>
    (\<forall>k. 0 \<le> k \<and> k < i \<longrightarrow> controls P n ps k)"])
  fix i and ps :: "real inputpath list"
  assume i: "0 \<le> i" "i < n" and I: "length ps = 30 \<and> (\<forall>k. 0 \<le> k \<and> k < n \<longrightarrow> joins P ps k) \<and> (\<forall>k. 0 \<le> k \<and> k < i \<longrightarrow> controls P n ps k)"
  obtain s where s: "control_points exact n i ps = Some (ps[nat i := s])" "start_point s = P i" "end_point s = P (i + 1)"
    "0 < i \<longrightarrow> start_tangent s = shifted_point exact (middle P i) (joint P i) (P i)"
    "i + 1 < n \<longrightarrow> end_tangent s = shifted_point exact (middle P i) (joint P (i + 1)) (P (i + 1))"
    using control_points_ok [of ps n P i] I i assms(4) by auto
  have len: "nat i < length ps" using I i assms(4) by simp
  have "joins P (ps[nat i := s]) k" if "0 \<le> k" "k < n" for k
    using I s that i len by (cases "k = i") (auto simp: joins_def nth_list_update eq_nat_nat_iff)
  moreover have "controls P n (ps[nat i := s]) k" if "0 \<le> k" "k < i + 1" for k
    using I s that i len by (cases "k = i") (auto simp: controls_def nth_list_update eq_nat_nat_iff)
  ultimately show "\<exists>s'. control_points exact n i ps = Some s' \<and> (length s' = 30 \<and> (\<forall>k. 0 \<le> k \<and> k < n \<longrightarrow> joins P s' k) \<and>
    (\<forall>k. 0 \<le> k \<and> k < i + 1 \<longrightarrow> controls P n s' k))"
    using s(1) I by simp
qed (use assms in auto)

text \<open>A curve begins at its first point and ends at its last.\<close>

lemma curve_ends: "curve_point exact s 0 = start_point s" "curve_point exact s 1 = end_point s"
  by (simp_all add: curve_point_def curve_at_def Let_def)

text \<open>The length is positive unless the ends are the same.\<close>

lemma curve_length_pos:
  assumes "start_point s \<noteq> end_point s"
  shows "0 < curve_length exact s"
proof -
  have all: "[0..STEPS - 1] = 0 # [1..STEPS - 1]" by (simp add: STEPS_def upto_rec1)
  let ?I = "\<lambda>(prev, len). 0 \<le> len \<and> (len = 0 \<longrightarrow> prev = start_point s)"
  have "?I (fold (curve_step exact s) [1..STEPS - 1] (start_point s, 0))"
  proof (rule fold_invariant [where Q = "\<lambda>j. 1 \<le> j" and P = ?I])
    fix j :: int and a :: "real point \<times> real"
    assume "1 \<le> j" and "?I a"
    then show "?I (curve_step exact s j a)"
      using dist_nonneg dist_zero by (cases a) (auto simp: curve_step_def Let_def add_nonneg_eq_0_iff)
  qed auto
  moreover have "curve_step exact s 0 (zero_point exact, 0) = (start_point s, 0)" by (simp add: curve_step_def Let_def curve_ends)
  ultimately have "?I (fold (curve_step exact s) [0..STEPS - 1] (zero_point exact, 0))" by (simp add: all)
  then show ?thesis
    using assms dist_nonneg dist_zero by (cases "fold (curve_step exact s) [0..STEPS - 1] (zero_point exact, 0)")
      (force simp: curve_length_def add_nonneg_pos add_pos_nonneg order_less_le add_nonneg_eq_0_iff)
qed

text \<open>What the later loops leave alone.\<close>

definition same_curve :: "'f inputpath \<Rightarrow> 'f inputpath \<Rightarrow> bool" where
  "same_curve s t \<longleftrightarrow> start_point s = start_point t \<and> start_tangent s = start_tangent t \<and> end_tangent s = end_tangent t \<and>
     end_point s = end_point t"

definition same_curves :: "'f inputpath list \<Rightarrow> 'f inputpath list \<Rightarrow> bool" where
  "same_curves ps qs \<longleftrightarrow> length ps = 30 \<and> length qs = 30 \<and> (\<forall>k < 30. same_curve (ps ! k) (qs ! k))"

lemma same_length: "same_curve s t \<Longrightarrow> curve_length m s = curve_length m t"
proof -
  assume "same_curve s t"
  then have "curve_point m s = curve_point m t" "end_point s = end_point t" by (auto simp: same_curve_def curve_point_def)
  moreover from this have "curve_step m s = curve_step m t" by (simp add: curve_step_def fun_eq_iff Let_def)
  ultimately show ?thesis by (simp add: curve_length_def)
qed

lemma same_controls:
  assumes "same_curves ps qs" and "0 \<le> k" and "k < 30"
  shows "joins P ps k = joins P qs k" and "controls P n ps k = controls P n qs k"
  using assms nat_less_iff [of k 30] by (auto simp: same_curves_def same_curve_def joins_def controls_def)

text \<open>A segment is changed, but not its curve.\<close>

lemma same_upd:
  assumes "same_curves ps qs" and "0 \<le> k" and "k < 30" and "\<And>s. same_curve (f s) s"
  shows "\<exists>ps'. upd_seg ps k f = Some ps' \<and> same_curves ps' qs \<and> ps' ! nat k = f (ps ! nat k) \<and>
    (\<forall>j. 0 \<le> j \<and> j \<noteq> k \<longrightarrow> ps' ! nat j = ps ! nat j)"
proof -
  have k: "nat k < 30" using assms(2,3) by simp
  have "same_curve (f (ps ! nat k)) (qs ! nat k)" using assms(1,4) k by (simp add: same_curves_def same_curve_def)
  then have "same_curves (ps[nat k := f (ps ! nat k)]) qs" using assms(1) k by (auto simp: same_curves_def nth_list_update)
  then show ?thesis using assms k by (simp add: upd_seg_ok same_curves_def eq_nat_nat_iff)
qed

lemma sum_upto: "0 \<le> k \<Longrightarrow> (\<Sum>j\<in>{0..<k + 1}. g j) = (\<Sum>j\<in>{0..<k}. g j) + g k" for g :: "int \<Rightarrow> real"
proof -
  assume "0 \<le> k"
  then have "{0..<k + 1} = insert k {0..<k}" by auto
  then show ?thesis by (simp add: add.commute)
qed

lemma all_measured:
  assumes "length qs = 30" and "0 \<le> n" and "n \<le> 30"
  shows "\<exists>a. each_seg (measure_seg exact) n 0 (qs, 0) = Some a \<and> (same_curves (fst a) qs \<and>
    snd a = (\<Sum>k\<in>{0..<n}. curve_length exact (qs ! nat k)) \<and>
    (\<forall>k. 0 \<le> k \<and> k < n \<longrightarrow> seg_length (fst a ! nat k) = curve_length exact (qs ! nat k)))"
proof (rule each_seg_inv [where I = "\<lambda>i a. same_curves (fst a) qs \<and> snd a = (\<Sum>k\<in>{0..<i}. curve_length exact (qs ! nat k)) \<and>
    (\<forall>k. 0 \<le> k \<and> k < i \<longrightarrow> seg_length (fst a ! nat k) = curve_length exact (qs ! nat k))"])
  fix i and a :: "real inputpath list \<times> real"
  assume i: "0 \<le> i" "i < n" and I: "same_curves (fst a) qs \<and> snd a = (\<Sum>k\<in>{0..<i}. curve_length exact (qs ! nat k)) \<and>
    (\<forall>k. 0 \<le> k \<and> k < i \<longrightarrow> seg_length (fst a ! nat k) = curve_length exact (qs ! nat k))"
  obtain ps len where a: "a = (ps, len)" by (cases a)
  have ps: "length ps = 30" "same_curve (ps ! nat i) (qs ! nat i)" using I i assms(3) by (simp_all add: a same_curves_def)
  define l where "l = curve_length exact (qs ! nat i)"
  have l: "curve_length exact (ps ! nat i) = l" using same_length [OF ps(2)] by (simp add: l_def)
  obtain ps' where ps': "upd_seg ps i (\<lambda>s. s\<lparr>seg_length := l\<rparr>) = Some ps'" "same_curves ps' qs"
    "ps' ! nat i = (ps ! nat i)\<lparr>seg_length := l\<rparr>" "\<forall>j. 0 \<le> j \<and> j \<noteq> i \<longrightarrow> ps' ! nat j = ps ! nat j"
    using same_upd [of ps qs i "\<lambda>s. s\<lparr>seg_length := l\<rparr>"] I i assms(3) by (auto simp: a same_curve_def)
  have "seg_length (ps' ! nat k) = curve_length exact (qs ! nat k)" if "0 \<le> k" "k < i + 1" for k
    using that ps'(3,4) I by (cases "k = i") (auto simp: a l_def)
  moreover have "measure_seg exact i a = Some (ps', len + l)"
    using i assms(3) ps(1) ps'(1) l by (simp add: measure_seg_def a get_seg_ok Let_def)
  ultimately show "\<exists>b. measure_seg exact i a = Some b \<and> same_curves (fst b) qs \<and>
    snd b = (\<Sum>k\<in>{0..<i + 1}. curve_length exact (qs ! nat k)) \<and>
    (\<forall>k. 0 \<le> k \<and> k < i + 1 \<longrightarrow> seg_length (fst b ! nat k) = curve_length exact (qs ! nat k))"
    using ps'(2) I i(1) by (simp add: a sum_upto l_def)
qed (use assms in \<open>auto simp: same_curves_def same_curve_def\<close>)

lemma all_times:
  assumes "same_curves rs qs" and "0 \<le> n" and "n \<le> 30" and "\<And>k. 0 \<le> k \<Longrightarrow> k < n \<Longrightarrow> seg_length (rs ! nat k) = L k"
  shows "\<exists>ps. each_seg (last_time exact len) n 0 rs = Some ps \<and> (same_curves ps qs \<and>
    (\<forall>k. 0 \<le> k \<and> k < n \<longrightarrow> seg_length (ps ! nat k) = L k) \<and>
    (\<forall>k. 0 \<le> k \<and> k < n \<longrightarrow> LastT (ps ! nat k) = (\<Sum>j\<in>{0..<k + 1}. L j) / len))"
proof (rule each_seg_inv [where I = "\<lambda>i ps. same_curves ps qs \<and> (\<forall>k. 0 \<le> k \<and> k < n \<longrightarrow> seg_length (ps ! nat k) = L k) \<and>
    (\<forall>k. 0 \<le> k \<and> k < i \<longrightarrow> LastT (ps ! nat k) = (\<Sum>j\<in>{0..<k + 1}. L j) / len)"])
  fix i and ps :: "real inputpath list"
  assume i: "0 \<le> i" "i < n" and I: "same_curves ps qs \<and> (\<forall>k. 0 \<le> k \<and> k < n \<longrightarrow> seg_length (ps ! nat k) = L k) \<and>
    (\<forall>k. 0 \<le> k \<and> k < i \<longrightarrow> LastT (ps ! nat k) = (\<Sum>j\<in>{0..<k + 1}. L j) / len)"
  have ps: "length ps = 30" using I by (simp add: same_curves_def)
  define t where "t = (\<Sum>j\<in>{0..<i + 1}. L j) / len"
  have prev: "LastT (ps ! nat (i - 1)) + L i / len = t" if "i \<noteq> 0"
    using I [THEN conjunct2, THEN conjunct2, rule_format, of "i - 1"] i that by (simp add: t_def sum_upto add_divide_distrib)
  have first: "L i / len = t" if "i = 0" using sum_upto [of 0 L] that by (simp add: t_def)
  have li: "seg_length (ps ! nat i) = L i" using I i by simp
  obtain ps' where ps': "upd_seg ps i (\<lambda>s. s\<lparr>LastT := t\<rparr>) = Some ps'" "same_curves ps' qs"
    "ps' ! nat i = (ps ! nat i)\<lparr>LastT := t\<rparr>" "\<forall>j. 0 \<le> j \<and> j \<noteq> i \<longrightarrow> ps' ! nat j = ps ! nat j"
    using same_upd [of ps qs i "\<lambda>s. s\<lparr>LastT := t\<rparr>"] I i assms(3) by (auto simp: same_curve_def)
  have "last_time exact len i ps = Some ps'"
    using i assms(3) ps ps'(1) li first prev by (cases "i = 0") (simp_all add: last_time_def get_seg_ok)
  moreover have "seg_length (ps' ! nat k) = L k" if "0 \<le> k" "k < n" for k
    using that ps'(3,4) I by (cases "k = i") auto
  moreover have "LastT (ps' ! nat k) = (\<Sum>j\<in>{0..<k + 1}. L j) / len" if "0 \<le> k" "k < i + 1" for k
    using that ps'(3,4) I by (cases "k = i") (auto simp: t_def)
  ultimately show "\<exists>s'. last_time exact len i ps = Some s' \<and> same_curves s' qs \<and>
    (\<forall>k. 0 \<le> k \<and> k < n \<longrightarrow> seg_length (s' ! nat k) = L k) \<and>
    (\<forall>k. 0 \<le> k \<and> k < i + 1 \<longrightarrow> LastT (s' ! nat k) = (\<Sum>j\<in>{0..<k + 1}. L j) / len)"
    using ps'(2) by blast
qed (use assms in auto)

text \<open>
  What \<open>init\<close> leaves: the segments join the points, the control points are as above, and the segments' shares of the time end
  with one.\<close>

definition path_ok :: "(int \<Rightarrow> real point) \<Rightarrow> int \<Rightarrow> real inputpath list \<Rightarrow> bool" where
  "path_ok P n ps \<longleftrightarrow> length ps = 30 \<and> (\<forall>k. 0 \<le> k \<and> k < n \<longrightarrow> joins P ps k \<and> controls P n ps k) \<and>
     (\<forall>k. 0 \<le> k \<and> k < n \<longrightarrow> (if k = 0 then 0 else LastT (ps ! nat (k - 1))) < LastT (ps ! nat k)) \<and> LastT (ps ! nat (n - 1)) = 1"

lemma segments_ok:
  assumes "length ps = 30" and "\<And>k. 0 \<le> k \<Longrightarrow> k < n \<Longrightarrow> joins P ps k" and n: "1 \<le> n" "n \<le> 30"
    and apart: "\<And>k. 0 \<le> k \<Longrightarrow> k < n \<Longrightarrow> P k \<noteq> P (k + 1)"
  shows "\<exists>ps1 ps2 len ps3. each_seg (control_points exact n) n 0 ps = Some ps1 \<and> each_seg (measure_seg exact) n 0 (ps1, 0) = Some (ps2, len) \<and>
    each_seg (last_time exact len) n 0 ps2 = Some ps3 \<and> 0 < len \<and> path_ok P n ps3"
proof -
  obtain ps1 where ps1: "each_seg (control_points exact n) n 0 ps = Some ps1" "length ps1 = 30"
    "\<And>k. 0 \<le> k \<Longrightarrow> k < n \<Longrightarrow> joins P ps1 k \<and> controls P n ps1 k"
    using all_controls [of ps n P] assms by auto
  define L where "L k = curve_length exact (ps1 ! nat k)" for k
  obtain ps2 len where ps2: "each_seg (measure_seg exact) n 0 (ps1, 0) = Some (ps2, len)" "same_curves ps2 ps1"
    "len = (\<Sum>k\<in>{0..<n}. L k)" "\<And>k. 0 \<le> k \<Longrightarrow> k < n \<Longrightarrow> seg_length (ps2 ! nat k) = L k"
    using all_measured [of ps1 n] ps1(2) n by (auto simp: L_def)
  obtain ps3 where ps3: "each_seg (last_time exact len) n 0 ps2 = Some ps3" "same_curves ps3 ps1"
    "\<And>k. 0 \<le> k \<Longrightarrow> k < n \<Longrightarrow> LastT (ps3 ! nat k) = (\<Sum>j\<in>{0..<k + 1}. L j) / len"
    using all_times [of ps2 ps1 n L len] ps2(2,4) n by auto
  have pos: "0 < L k" if "0 \<le> k" "k < n" for k
    using ps1(3) [OF that] apart [OF that] curve_length_pos [of "ps1 ! nat k"] by (simp add: L_def joins_def)
  have "len = (\<Sum>k\<in>{0..<n - 1}. L k) + L (n - 1)" using ps2(3) sum_upto [of "n - 1" L] n(1) by simp
  moreover have "0 \<le> (\<Sum>k\<in>{0..<n - 1}. L k)" by (rule sum_nonneg) (use pos in \<open>simp add: less_imp_le\<close>)
  ultimately have len: "0 < len" using pos [of "n - 1"] n(1) by simp
  have "(if k = 0 then 0 else LastT (ps3 ! nat (k - 1))) < LastT (ps3 ! nat k)" if "0 \<le> k" "k < n" for k
    using that ps3(3) [of k] ps3(3) [of "k - 1"] pos [OF that] len
    using sum_upto [of 0 L] by (cases "k = 0") (auto simp: sum_upto add_divide_distrib)
  moreover have "LastT (ps3 ! nat (n - 1)) = 1" using ps3(3) [of "n - 1"] n(1) len ps2(3) by simp
  moreover have "joins P ps3 k \<and> controls P n ps3 k" if "0 \<le> k" "k < n" for k
    using same_controls [OF ps3(2) that(1)] that n(2) ps1(3) [OF that] by simp
  ultimately have "path_ok P n ps3" using ps3(2) by (simp add: path_ok_def same_curves_def)
  then show ?thesis using ps1(1) ps2(1) ps3(1) len by blast
qed

text \<open>The points of a path; a closed one comes back to the first.\<close>

definition path_point :: "(int \<Rightarrow> real) \<Rightarrow> int \<Rightarrow> bool \<Rightarrow> int \<Rightarrow> real point" where
  "path_point tab n looped k = point_at tab (if looped \<and> k = n + 1 then 0 else k)"

lemma close_path_ok:
  assumes "length ps = 30" and "1 \<le> n" and "n < 30" and "\<And>k. 0 \<le> k \<Longrightarrow> k < n \<Longrightarrow> segment_ok tab ps k"
  shows "\<exists>ps'. close_path n ps = Some ps' \<and> length ps' = 30 \<and> (\<forall>k. 0 \<le> k \<and> k < n + 1 \<longrightarrow> joins (path_point tab n True) ps' k)"
proof -
  let ?s = "(ps ! nat n)\<lparr>start_point := end_point (ps ! nat (n - 1)), end_point := start_point (ps ! 0)\<rparr>"
  have "nat n \<noteq> 0" "nat n < length ps" using assms(1-3) by simp_all
  then have "close_path n ps = Some (ps[nat n := ?s])"
    using assms(1-3) by (simp add: close_path_def get_seg_ok upd_seg_ok nth_list_update)
  moreover have "joins (path_point tab n True) (ps[nat n := ?s]) k" if "0 \<le> k" "k < n + 1" for k
  proof (cases "k = n")
    case True
    then show ?thesis using assms(2) \<open>nat n < length ps\<close> assms(4) [of "n - 1"] assms(4) [of 0]
      by (simp add: joins_def path_point_def segment_ok_def)
  next
    case False
    then show ?thesis using that assms(4) [of k] by (simp add: joins_def path_point_def segment_ok_def eq_nat_nat_iff)
  qed
  ultimately show ?thesis using assms(1) by simp
qed

lemma Linit_ok:
  assumes "find_path 0 (fish_path bz) = Some slot" and "slot < length (fish_path bz)" and "length (snd (fish_path bz ! slot)) = 30"
    and "to_int exact pathid = Some q" and "1 \<le> n" and "N = (if closePath then n + 1 else n)" and "N \<le> 30"
    and "\<And>k. 0 \<le> k \<Longrightarrow> k < N \<Longrightarrow> path_point tab n closePath k \<noteq> path_point tab n closePath (k + 1)"
  shows "\<exists>ps len. Linit exact (Some tab) (of_int (3 * (n + 1))) time closePath pathid bz =
      Some (\<lparr>fish_path = (fish_path bz)[slot := (q, ps)], bz_n = N, total_t = time\<rparr>, Some len) \<and>
    0 < len \<and> path_ok (path_point tab n closePath) N ps"
proof -
  let ?ps = "snd (fish_path bz ! slot)" and ?P = "path_point tab n closePath"
  have n: "n \<le> 30" "closePath \<Longrightarrow> n < 30" using assms(6,7) by (auto split: if_splits)
  obtain ps where ps: "read_points tab n 0 1 ?ps = Some ps" "length ps = 30" "\<And>k. 0 \<le> k \<Longrightarrow> k < n \<Longrightarrow> segment_ok tab ps k"
    using read_points_ok [OF assms(3,5) n(1), of tab] by auto
  have "\<exists>ps'. (if closePath then map_option (\<lambda>ps. (ps, n + 1)) (close_path n ps) else Some (ps, n)) = Some (ps', N) \<and>
    length ps' = 30 \<and> (\<forall>k. 0 \<le> k \<and> k < N \<longrightarrow> joins ?P ps' k)"
  proof (cases closePath)
    case True
    then show ?thesis using close_path_ok [OF ps(2) assms(5), of tab] n(2) ps(3) assms(6) by auto
  next
    case False
    then show ?thesis using ps(2,3) assms(6) by (simp add: joins_def path_point_def segment_ok_def)
  qed
  then obtain ps' where ps': "(if closePath then map_option (\<lambda>ps. (ps, n + 1)) (close_path n ps) else Some (ps, n)) = Some (ps', N)"
    "length ps' = 30" "\<And>k. 0 \<le> k \<Longrightarrow> k < N \<Longrightarrow> joins ?P ps' k" by blast
  have N: "1 \<le> N" using assms(5,6) by auto
  obtain ps1 ps2 len ps3 where run: "each_seg (control_points exact N) N 0 ps' = Some ps1"
    "each_seg (measure_seg exact) N 0 (ps1, 0) = Some (ps2, len)" "each_seg (last_time exact len) N 0 ps2 = Some ps3"
    "0 < len" "path_ok ?P N ps3"
    using segments_ok [OF ps'(2,3) N assms(7,8)] by blast
  have j: "to_int exact (of_int (3 * (n + 1))) = Some (3 * (n + 1))" by (rule exact_to_int) (use n(1) assms(5) in simp_all)
  have third: "third (3 * n + 3) = n + 1" using assms(5) by (simp add: third_def)
  have tab: "(\<lambda>j. narrow exact (tab j)) = tab" by simp
  have old: "rd (fish_path bz) slot = Some (fish_path bz ! slot)" using assms(2) by (simp add: rd_def)
  have "Linit exact (Some tab) (of_int (3 * (n + 1))) time closePath pathid bz =
      Some (bz\<lparr>fish_path := (fish_path bz)[slot := (q, ps3)], bz_n := N, total_t := time\<rparr>, Some len)"
    using assms(2) run(1-3)
    by (simp cong: if_cong split del: if_split add: ps'(1) Linit_def assms(1) [simplified] assms(4) old [simplified] j [simplified] third tab ps(1) case_prod_unfold Let_def)
  moreover have "bz\<lparr>fish_path := F, bz_n := N, total_t := time\<rparr> = \<lparr>fish_path = F, bz_n = N, total_t = time\<rparr>" for F by (cases bz) simp
  ultimately show ?thesis using run(4,5) by auto
qed

subsection \<open>The way a curve takes\<close>

text \<open>A curve leaves and arrives in the direction of its control points.\<close>

lemma curve_at_derivative:
  "((\<lambda>t. curve_at exact a b c d t) has_real_derivative 3 * (b - a)) (at 0)"
  "((\<lambda>t. curve_at exact a b c d t) has_real_derivative 3 * (d - c)) (at 1)"
  by (auto simp: curve_at_def Let_def algebra_simps intro!: derivative_eq_intros)

lemma curve_derivative:
  assumes "g \<in> {px, py, pz}"
  shows "((\<lambda>t. g (curve_point exact s t)) has_real_derivative 3 * (g (start_tangent s) - g (start_point s))) (at 0)"
    and "((\<lambda>t. g (curve_point exact s t)) has_real_derivative 3 * (g (end_point s) - g (end_tangent s))) (at 1)"
  using assms curve_at_derivative by (auto simp: curve_point_def Let_def)

text \<open>
  At the joint of two segments the speeds on the two sides are in the proportion of the distances of the points.\<close>

definition smooth_joint :: "real inputpath \<Rightarrow> real inputpath \<Rightarrow> bool" where
  "smooth_joint s t \<longleftrightarrow> (\<exists>d > 0. \<exists>e > 0. \<forall>g \<in> {px, py, pz}. \<exists>v w.
     ((\<lambda>u. g (curve_point exact s u)) has_real_derivative v) (at 1) \<and>
     ((\<lambda>u. g (curve_point exact t u)) has_real_derivative w) (at 0) \<and> e * v = d * w)"

lemma joint_proportion:
  fixes c1 c2 p d e :: real
  assumes "0 < d" and "0 < e"
  shows "e * (p - shifted exact c1 (toward exact c1 c2 (d / (d + e))) p) = d * (shifted exact c2 (toward exact c1 c2 (d / (d + e))) p - p)"
proof -
  have "e * ((c2 - c1) * (d / (d + e))) = d * ((c2 - c1) * (1 - d / (d + e)))" using assms by (simp add: field_simps)
  then show ?thesis by (simp add: shifted_def toward_def SMOOTH_VALUE_def algebra_simps)
qed

lemma joint_smooth:
  assumes "path_ok P n ps" and k: "0 \<le> k" "k + 1 < n" and "P k \<noteq> P (k + 1)" and "P (k + 1) \<noteq> P (k + 2)"
  shows "smooth_joint (ps ! nat k) (ps ! nat (k + 1))"
proof -
  let ?s = "ps ! nat k" and ?t = "ps ! nat (k + 1)"
  have gap: "0 < gap P k" "0 < gap P (k + 1)"
    using assms(4,5) dist_nonneg dist_zero by (auto simp: gap_def order_less_le add.assoc)
  have j: "joins P ps k" "controls P n ps k" "joins P ps (k + 1)" "controls P n ps (k + 1)"
    using assms(1) k by (auto simp: path_ok_def)
  have speed: "gap P (k + 1) * (3 * (g (end_point ?s) - g (end_tangent ?s))) = gap P k * (3 * (g (start_tangent ?t) - g (start_point ?t)))"
    if "g \<in> {px, py, pz}" for g
  proof -
    have "gap P (k + 1) * (g (end_point ?s) - g (end_tangent ?s)) = gap P k * (g (start_tangent ?t) - g (start_point ?t))"
      using that j k joint_proportion [OF gap] by (auto simp: joins_def controls_def joint_def shifted_point_def toward_point_def)
    then show ?thesis by (simp add: mult.left_commute del: right_diff_distrib_numeral)
  qed
  have "\<exists>v w. ((\<lambda>u. g (curve_point exact ?s u)) has_real_derivative v) (at 1) \<and>
    ((\<lambda>u. g (curve_point exact ?t u)) has_real_derivative w) (at 0) \<and> gap P (k + 1) * v = gap P k * w" if "g \<in> {px, py, pz}" for g
    using curve_derivative(2) [OF that, of ?s] curve_derivative(1) [OF that, of ?t] speed [OF that] by blast
  then show ?thesis unfolding smooth_joint_def using gap by blast
qed

text \<open>A number that is not taken, a free slot, and points that are apart from the next one.\<close>

definition may_init :: "real bezier \<Rightarrow> nat \<Rightarrow> real \<Rightarrow> int \<Rightarrow> bool" where
  "may_init bz slot pathid q \<longleftrightarrow> find_path 0 (fish_path bz) = Some slot \<and> slot < length (fish_path bz) \<and>
     length (snd (fish_path bz ! slot)) = 30 \<and> to_int exact pathid = Some q \<and> q \<noteq> 0 \<and> find_path q (fish_path bz) = None"

definition good_points :: "(int \<Rightarrow> real) \<Rightarrow> int \<Rightarrow> bool \<Rightarrow> int \<Rightarrow> bool" where
  "good_points tab n closePath N \<longleftrightarrow> 1 \<le> n \<and> N = (if closePath then n + 1 else n) \<and> N \<le> 30 \<and>
     (\<forall>k. 0 \<le> k \<and> k < N \<longrightarrow> path_point tab n closePath k \<noteq> path_point tab n closePath (k + 1))"

lemma Linit_run:
  assumes "may_init bz slot pathid q" and "good_points tab n closePath N"
  shows "\<exists>ps len. Linit exact (Some tab) (of_int (3 * (n + 1))) time closePath pathid bz =
      Some (\<lparr>fish_path = (fish_path bz)[slot := (q, ps)], bz_n = N, total_t = time\<rparr>, Some len) \<and>
    0 < len \<and> path_ok (path_point tab n closePath) N ps"
  using Linit_ok [of bz slot pathid q n N closePath tab time] assms by (simp add: may_init_def good_points_def)

text \<open>
  C21: With exact numbers, a path that is read has its points in order, closed ones the first again behind the last: every segment
  begins at a point and ends at the next, and no joint has a corner.\<close>

lemma bezier_path:
  assumes "may_init bz slot pathid q" and "good_points tab n closePath N"
  shows "\<exists>bz' len ps. Linit exact (Some tab) (of_int (3 * (n + 1))) time closePath pathid bz = Some (bz', Some len) \<and> 0 < len \<and>
    fish_path bz' ! slot = (q, ps) \<and> bz_n bz' = N \<and>
    (\<forall>k. 0 \<le> k \<and> k < N \<longrightarrow> curve_point exact (ps ! nat k) 0 = path_point tab n closePath k \<and>
       curve_point exact (ps ! nat k) 1 = path_point tab n closePath (k + 1)) \<and>
    (\<forall>k. 0 \<le> k \<and> k + 1 < N \<longrightarrow> smooth_joint (ps ! nat k) (ps ! nat (k + 1)))"
proof -
  obtain ps len where run: "Linit exact (Some tab) (of_int (3 * (n + 1))) time closePath pathid bz =
      Some (\<lparr>fish_path = (fish_path bz)[slot := (q, ps)], bz_n = N, total_t = time\<rparr>, Some len)"
    "0 < len" and ok: "path_ok (path_point tab n closePath) N ps"
    using Linit_run [OF assms] by blast
  have apart: "path_point tab n closePath k \<noteq> path_point tab n closePath (k + 1)" if "0 \<le> k" "k < N" for k
    using assms(2) that unfolding good_points_def by blast
  have "smooth_joint (ps ! nat k) (ps ! nat (k + 1))" if "0 \<le> k" "k + 1 < N" for k
  proof (rule joint_smooth [OF ok that])
    show "path_point tab n closePath k \<noteq> path_point tab n closePath (k + 1)" using apart that by simp
    have "path_point tab n closePath (k + 1) \<noteq> path_point tab n closePath (k + 1 + 1)" by (rule apart) (use that in simp_all)
    then show "path_point tab n closePath (k + 1) \<noteq> path_point tab n closePath (k + 2)" by (simp add: add.assoc)
  qed
  moreover have "slot < length (fish_path bz)" using assms(1) by (simp add: may_init_def)
  ultimately show ?thesis using run ok by (auto simp: path_ok_def joins_def curve_ends)
qed

lemma number_points: "path_point of_int 3 True k = path_point of_int 3 True l \<longleftrightarrow>
  (if k = 4 then 0 else k) = (if l = 4 then 0 else l)"
  by (auto simp: path_point_def point_at_def)

lemma may_init_start: "may_init (bezier_start exact) 0 7 7"
  using exact_to_int [of 7] find_path_start [of exact] path_start [of exact]
  by (simp add: may_init_def bezier_start_def find_path_start PATH_TYPE_def numeral_eq_Suc)

lemma good_numbers: "good_points of_int 3 True 4"
  by (simp add: good_points_def number_points)

lemma bezier_path_witness:
  "\<exists>bz' len ps. Linit exact (Some of_int) (of_int (3 * (3 + 1))) 8 True 7 (bezier_start exact) = Some (bz', Some len) \<and> 0 < len \<and>
    fish_path bz' ! 0 = (7, ps) \<and> bz_n bz' = 4 \<and>
    (\<forall>k. 0 \<le> k \<and> k < 4 \<longrightarrow> curve_point exact (ps ! nat k) 0 = path_point of_int 3 True k \<and>
       curve_point exact (ps ! nat k) 1 = path_point of_int 3 True (k + 1)) \<and>
    (\<forall>k. 0 \<le> k \<and> k + 1 < 4 \<longrightarrow> smooth_joint (ps ! nat k) (ps ! nat (k + 1)))"
  by (rule bezier_path [OF may_init_start good_numbers])

subsection \<open>Ticks\<close>

lemma find_path_set: "find_path q paths = None \<Longrightarrow> slot < length paths \<Longrightarrow> find_path q (paths[slot := (q, ps)]) = Some slot"
proof (induction paths arbitrary: slot)
  case (Cons a paths)
  then show ?case by (cases a; cases slot) (auto split: if_splits)
qed simp

lemma times_bounded:
  assumes "path_ok P n ps" and "0 \<le> k" and "k < n"
  shows "0 < LastT (ps ! nat k) \<and> LastT (ps ! nat k) \<le> 1"
proof -
  have step: "\<And>k. 0 \<le> k \<Longrightarrow> k < n \<Longrightarrow> (if k = 0 then 0 else LastT (ps ! nat (k - 1))) < LastT (ps ! nat k)" and one: "LastT (ps ! nat (n - 1)) = 1"
    using assms(1) by (simp_all add: path_ok_def)
  have "LastT (ps ! nat k) \<le> 1" using assms(2,3)
  proof (induction "nat (n - 1 - k)" arbitrary: k)
    case 0
    then have "k = n - 1" by linarith
    then show ?case using one by simp
  next
    case (Suc d)
    then have "k + 1 < n" "d = nat (n - 1 - (k + 1))" by linarith+
    then show ?case using Suc.hyps(1) [of "k + 1"] Suc.prems step [of "k + 1"] by (simp split: if_splits)
  qed
  moreover have "0 < LastT (ps ! nat k)" using assms(2,3)
  proof (induction "nat k" arbitrary: k)
    case 0
    then show ?case using step [of 0] by simp
  next
    case (Suc d)
    then have "k \<noteq> 0" "d = nat (k - 1)" by linarith+
    then show ?case using Suc.hyps(1) [of "k - 1"] Suc.prems step [of k] by simp
  qed
  ultimately show ?thesis by simp
qed

lemma seg_at_ok:
  assumes "length ps = 30" and "n \<le> 30" and "0 \<le> i" and "i \<le> n" and "i = 0 \<or> LastT (ps ! nat (i - 1)) \<le> u"
  shows "\<exists>j. seg_at exact ps u n i = Some j \<and> i \<le> j \<and> j \<le> n \<and> (j < n \<longrightarrow> u < LastT (ps ! nat j)) \<and>
    (j = 0 \<or> LastT (ps ! nat (j - 1)) \<le> u)"
  using assms(3-5)
proof (induction "nat (n - i)" arbitrary: i)
  case 0
  then show ?case by (subst seg_at.simps) auto
next
  case (Suc d)
  then have i: "i < n" by linarith
  show ?case
  proof (cases "u < LastT (ps ! nat i)")
    case True
    then show ?thesis using i Suc.prems assms(1,2) by (subst seg_at.simps) (simp add: get_seg_ok)
  next
    case False
    have "\<exists>j. seg_at exact ps u n (i + 1) = Some j \<and> i + 1 \<le> j \<and> j \<le> n \<and> (j < n \<longrightarrow> u < LastT (ps ! nat j)) \<and>
      (j = 0 \<or> LastT (ps ! nat (j - 1)) \<le> u)"
      using Suc.hyps(1) [of "i + 1"] Suc.hyps(2) Suc.prems i False by simp
    then show ?thesis using i Suc.prems False assms(1,2) by (subst seg_at.simps) (auto simp: get_seg_ok)
  qed
qed

text \<open>A tick before the end of the time finds a segment, and a place on it.\<close>

lemma Ltick_ok:
  assumes ok: "path_ok P n ps" "1 \<le> n" "n \<le> 30" and "to_int exact pathid = Some q"
    and path: "find_path q (fish_path bz) = Some slot" "slot < length (fish_path bz)" "fish_path bz ! slot = (q, ps)" "bz_n bz = n"
    and u: "0 \<le> time / total_t bz" "time / total_t bz < 1"
  shows "\<exists>i v share. 0 \<le> i \<and> i < n \<and> 0 \<le> v \<and> v < 1 \<and> 0 < share \<and> share \<le> 1 \<and>
    Ltick exact time pathid bz = Some (bz\<lparr>total_t := share\<rparr>, curve_point exact (ps ! nat i) v)"
proof -
  define u where "u = time / total_t bz"
  have len: "length ps = 30" using ok(1) by (simp add: path_ok_def)
  obtain i where i: "seg_at exact ps u n 0 = Some i" "0 \<le> i" "i \<le> n" "i < n \<longrightarrow> u < LastT (ps ! nat i)" "i = 0 \<or> LastT (ps ! nat (i - 1)) \<le> u"
    using seg_at_ok [of ps n 0 u] len ok(2,3) by auto
  have "LastT (ps ! nat (n - 1)) = 1" using ok(1) by (simp add: path_ok_def)
  then have "i \<noteq> n" using i(5) u(2) ok(2) by (auto simp: u_def)
  then have in_n: "i < n" using i(3) by simp
  define before where "before = (if i = 0 then 0 else LastT (ps ! nat (i - 1)))"
  define share where "share = LastT (ps ! nat i) - before"
  have "before < LastT (ps ! nat i)" using ok(1) i(2) in_n by (simp add: path_ok_def before_def)
  moreover have "0 \<le> before" using times_bounded [OF ok(1), of "i - 1"] i(2) in_n by (auto simp: before_def)
  moreover have "LastT (ps ! nat i) \<le> 1" using times_bounded [OF ok(1) i(2) in_n] by simp
  moreover have "before \<le> u" using i(5) u(1) by (auto simp: before_def u_def)
  ultimately have v: "0 < share" "share \<le> 1" "0 \<le> (u - before) / share" "(u - before) / share < 1"
    using i(4) in_n by (simp_all add: share_def divide_less_eq)
  have "Ltick exact time pathid bz = Some (bz\<lparr>total_t := share\<rparr>, curve_point exact (ps ! nat i) ((u - before) / share))"
    using path i(1,2) in_n len ok(3) assms(4)
    by (cases "i = 0") (simp_all add: Ltick_def rd_def u_def [symmetric] get_seg_ok before_def share_def Let_def)
  then show ?thesis using v i(2) in_n by blast
qed

text \<open>Behind the end of the time it gives the place zero.\<close>

lemma Ltick_late:
  assumes ok: "path_ok P n ps" "1 \<le> n" "n < 30" and "to_int exact pathid = Some q"
    and path: "find_path q (fish_path bz) = Some slot" "slot < length (fish_path bz)" "fish_path bz ! slot = (q, ps)" "bz_n bz = n"
    and u: "1 \<le> time / total_t bz"
  shows "\<exists>bz'. Ltick exact time pathid bz = Some (bz', zero_point exact)"
proof -
  define u where "u = time / total_t bz"
  have len: "length ps = 30" using ok(1) by (simp add: path_ok_def)
  obtain i where i: "seg_at exact ps u n 0 = Some i" "0 \<le> i" "i \<le> n" "i < n \<longrightarrow> u < LastT (ps ! nat i)"
    using seg_at_ok [of ps n 0 u] len ok(2,3) by auto
  have "i = n" using i times_bounded [OF ok(1) i(2)] u by (fastforce simp: u_def)
  moreover have "\<And>v. curve_point exact (zero_segment exact) v = zero_point exact"
    by (simp add: curve_point_def curve_at_def zero_segment_def zero_point_def Let_def)
  ultimately show ?thesis using path i(1) len ok(2,3) assms(4)
    by (simp add: Ltick_def rd_def u_def [symmetric] get_seg_ok Let_def)
qed

text \<open>
  C22: In exact arithmetic on the reals: the first tick after a path was read, at a time before its end, gives a place on
  one of its curves, if the points of the path are apart. With rounding the shares of the segments need not add up to 1,
  and \<open>bezier_second_tick\<close> shows that the claim ends with the first tick.\<close>

lemma bezier_tick:
  assumes "may_init bz slot pathid q" and "good_points tab n closePath N" and "0 \<le> t" and "t < time"
  shows "\<exists>bz' len bz'' i v. Linit exact (Some tab) (of_int (3 * (n + 1))) time closePath pathid bz = Some (bz', Some len) \<and>
    0 \<le> i \<and> i < N \<and> 0 \<le> v \<and> v < 1 \<and>
    Ltick exact t pathid bz' = Some (bz'', curve_point exact (snd (fish_path bz' ! slot) ! nat i) v)"
proof -
  obtain ps len where run: "Linit exact (Some tab) (of_int (3 * (n + 1))) time closePath pathid bz =
      Some (\<lparr>fish_path = (fish_path bz)[slot := (q, ps)], bz_n = N, total_t = time\<rparr>, Some len)"
    and ok: "path_ok (path_point tab n closePath) N ps"
    using Linit_run [OF assms(1,2)] by blast
  have N: "1 \<le> N" "N \<le> 30" using assms(2) by (auto simp: good_points_def)
  show ?thesis
    using Ltick_ok [OF ok N, of pathid q "\<lparr>fish_path = (fish_path bz)[slot := (q, ps)], bz_n = N, total_t = time\<rparr>" slot t]
      assms(1,3,4) run by (fastforce simp: may_init_def find_path_set)
qed

lemma bezier_tick_witness:
  "\<exists>bz' len bz'' i v. Linit exact (Some of_int) (of_int (3 * (3 + 1))) 8 True 7 (bezier_start exact) = Some (bz', Some len) \<and>
    0 \<le> i \<and> i < 4 \<and> 0 \<le> v \<and> v < 1 \<and>
    Ltick exact 2 7 bz' = Some (bz'', curve_point exact (snd (fish_path bz' ! 0) ! nat i) v)"
  by (rule bezier_tick [OF may_init_start good_numbers]) simp_all

text \<open>
  A tick writes the share of its segment over the time of all paths: the next tick, from the time 1 on, gives the place zero
  instead of one on the path.\<close>

lemma bezier_second_tick:
  assumes "may_init bz slot pathid q" and "good_points tab n closePath N" and "N < 30" and "1 \<le> t" and "t < time"
  shows "\<exists>bz' len bz1 p bz2. Linit exact (Some tab) (of_int (3 * (n + 1))) time closePath pathid bz = Some (bz', Some len) \<and>
    Ltick exact t pathid bz' = Some (bz1, p) \<and> Ltick exact t pathid bz1 = Some (bz2, zero_point exact)"
proof -
  obtain ps len where run: "Linit exact (Some tab) (of_int (3 * (n + 1))) time closePath pathid bz =
      Some (\<lparr>fish_path = (fish_path bz)[slot := (q, ps)], bz_n = N, total_t = time\<rparr>, Some len)"
    and ok: "path_ok (path_point tab n closePath) N ps"
    using Linit_run [OF assms(1,2)] by blast
  let ?bz = "\<lparr>fish_path = (fish_path bz)[slot := (q, ps)], bz_n = N, total_t = time\<rparr>"
  have N: "1 \<le> N" "N \<le> 30" using assms(2) by (auto simp: good_points_def)
  have q: "to_int exact pathid = Some q" "slot < length (fish_path bz)" "find_path q ((fish_path bz)[slot := (q, ps)]) = Some slot"
    using assms(1) by (simp_all add: may_init_def find_path_set)
  obtain p share where tick: "Ltick exact t pathid ?bz = Some (?bz\<lparr>total_t := share\<rparr>, p)" and share: "0 < share" "share \<le> 1"
    using Ltick_ok [OF ok N q(1), of ?bz slot t] q assms(4,5) by auto
  have "\<exists>bz2. Ltick exact t pathid (?bz\<lparr>total_t := share\<rparr>) = Some (bz2, zero_point exact)"
    by (rule Ltick_late [OF ok N(1) assms(3) q(1), of _ slot]) (use q assms(4) share in \<open>simp_all add: pos_le_divide_eq\<close>)
  then show ?thesis using run tick by blast
qed

lemma bezier_second_tick_witness:
  "\<exists>bz' len bz1 p bz2. Linit exact (Some of_int) (of_int (3 * (3 + 1))) 8 True 7 (bezier_start exact) = Some (bz', Some len) \<and>
    Ltick exact 2 7 bz' = Some (bz1, p) \<and> Ltick exact 2 7 bz1 = Some (bz2, zero_point exact)"
  by (rule bezier_second_tick [OF may_init_start good_numbers]) simp_all

end
