(* ===== verification/Spec2Isabelle.thy ===== *)
theory Spec2Isabelle
  imports Random32 Random64 StringPool Vararray ReadBack Logger JsonConfig PatternRound Register Bezier
begin

text \<open>
  Verification of the C libraries that a game server loads into Lua (\<open>src/lualib-src\<close>).

  \<^bold>\<open>The program.\<close> The server is written in Lua and loads six C libraries. \<open>pbc\<close> reads and writes Protocol Buffers messages; the server
  registers the descriptors of \<open>src/protocol\<close> with it and exchanges messages with its clients. \<open>lua-cjson\<close> converts between Lua
  values and JSON. \<open>lua-log.c\<close> is a logger with a thread of its own. \<open>lrandom\<close> has two Mersenne Twisters, \<open>lbezier\<close> the paths on which fish swim, and
  \<open>timesp\<close> the clock. The libraries do not call each other; inside \<open>pbc\<close> and \<open>lua-cjson\<close> the files build on each other as the theories here do.

  \<^bold>\<open>Conventions.\<close> \<open>Prelude\<close> has them: machine integers at their width as words, or \<open>int\<close> where the code uses \<open>int\<close> and wraps nowhere; C strings
  as bytes without their NUL and memory as the bytes from a pointer on; a pointer to something that is changed is its number in a store.
  \<open>None\<close> (or \<open>Inl Undef\<close> in \<open>lua-cjson\<close>, where \<open>Inl\<close> also has the errors thrown) is undefined behaviour of C, a loop that does not end, and nothing
  else; NULL and error codes are values. All definitions compute. \<open>malloc\<close> does not fail; \<open>_g\<close>, the counter of live blocks, is part of the state.

  \<^bold>\<open>pbc, the containers.\<close>
    \<^item> \<open>Alloc\<close> (alloc.c): the counter and the heap of pages, \<open>mem\<close> for both. Blocks of a heap are disjoint and inside their pages;
      a size whose rounding leaves the range of \<open>int\<close> is \<open>None\<close>.
    \<^item> \<open>Vararray\<close> (array.c): arrays of \<open>union _pbc_var\<close>, with two cells inside and blocks that double outside. The locale \<open>growable\<close> is what the
      message code relies on, interpreted as \<open>va\<close>.
    \<^item> \<open>StringPool\<close> (stringpool.c): pages of bytes, some never written; strings stay readable and all blocks are freed;
      a length that cannot be counted in an \<open>int\<close> is \<open>None\<close>.
    \<^item> \<open>Chains\<close>, \<open>MapSp\<close>, \<open>MapTables\<close> (map.c): the three maps with their slots and links; \<open>Chains\<close> has the argument they share, that a chain of
      links reaches every entry of its home slot. The locale \<open>string_map\<close> is the contract of the map by strings, interpreted as \<open>sp\<close>: a query
      gives what was inserted, across rehashing. Iteration ends and visits every entry once.

  \<^bold>\<open>pbc, the wire format.\<close>
    \<^item> \<open>Varint\<close> (varint.c): encoders and decoder, and the round trip of all 64-bit numbers.
    \<^item> \<open>Context\<close> (context.c, context.h): a message as a list of atoms; the slices of payloads are inside the message unless a length wraps;
      a packed field of more than 19 varints runs over the array of the context (\<open>open_packed_overflow\<close>).
    \<^item> \<open>Proto\<close> (proto.c, proto.h, \<open>union _pbc_var\<close>): the environment, with fields, messages and enums in stores, and the lookup of what was pushed.
    \<^item> \<open>Wmessage\<close>, \<open>WPacked\<close> (wmessage.c): the setters, and that what they write are the fields set. \<open>FloatBits\<close> converts between \<open>float\<close> and
      \<open>double\<close> on their bits.
    \<^item> \<open>Decode\<close> (decode.c) with \<open>Written\<close>: decoding calls the client with what was written.
    \<^item> \<open>Unpack\<close>, \<open>Rmessage\<close> (rmessage.c) with \<open>ReadBack\<close>: reading a message into a map of values, and that it gives what was written.
    \<^item> \<open>Pattern\<close> (pattern.c, pattern.h) with \<open>PatternRound\<close>: C structs as messages, and their round trip.
    \<^item> \<open>Bootstrap\<close> (bootstrap.c): the descriptors that are built in, and the last step of every registration, which resolves types.
    \<^item> \<open>Register\<close> (register.c): registering a set of files, with dependencies, nested types, extensions, enums and defaults.

  \<^bold>\<open>lua-cjson.\<close>
    \<^item> \<open>Strbuf\<close> (strbuf.c, strbuf.h): the buffer, with the bytes that were written; appending keeps what is there.
    \<^item> \<open>Fpconv\<close> (fpconv.c): numbers as text in every locale. \<open>LuaValue\<close>: the values of Lua, tables as lists of entries.
    \<^item> \<open>JsonEncode\<close>, \<open>JsonDecode\<close> (lua_cjson.c): settings, encoder and parser. \<open>JsonSafe\<close>: the decoder on any bytes. \<open>JsonText\<close> is the grammar of documents,
      the specification for \<open>JsonRead\<close>, the round trip. \<open>JsonConfig\<close>: the settings stay valid.

  \<^bold>\<open>The others.\<close>
    \<^item> \<open>LogCore\<close> (lua-log.c): the operations under the mutex and the worker cut into steps where other threads can come in between. \<open>LogInv\<close> and \<open>LogSteps\<close>
      have the invariant of the lists of buffers; \<open>Logger\<close> has the reachable states as an inductive relation, the refinement of a queue of bytes, from which the
      worker drops what is behind two buffers when more than 25 were taken at once, and that the worker writes what waits in a few steps of its own.
    \<^item> \<open>Mersenne\<close>, \<open>Ieee\<close>, \<open>Random32\<close> (lrandom.c), \<open>Random64\<close> (lrandom64.c): the generators are the published recurrences, in \<open>Random64\<close>
      also the seeding, written down apart from the code; doubles by exact rounding.
    \<^item> \<open>Bezier\<close> (lbezier.c, timesp.c): reading a path and the place on it at a time, for any arithmetic; the geometry for exact arithmetic.

  \<^bold>\<open>Bounds and fuel.\<close> Loops that run over data are structural, or have a measure. Fuel is used where the end depends on what is read, and
  running out of it is \<open>None\<close>, or a value of its own:
    \<^item> \<open>open_loop\<close> of \<open>Context\<close> gets two more than the bytes of the buffer, since each atom takes at least one; \<open>rmessage_new\<close> gets one more than
      the size, since a sub-message is shorter than its message; the round trips show that messages written are read within it.
    \<^item> The search along links (\<open>chase\<close>) gets the number of slots; the invariants of the maps show that this suffices.
    \<^item> The JSON parser gets two more than the length of the data and \<open>string_loop\<close> its length; \<open>json_decode_safe\<close> shows for every input
      that they suffice. The encoder follows the finite value.
    \<^item> The rounds of \<open>pbc_register\<close> get two more than there are files; running out of them is a result of its own, and
      \<open>register_rounds_enough\<close> shows that it never comes and that more fuel changes nothing.
    \<^item> \<open>register_message\<close> follows the nesting of a descriptor and is a partial function without fuel. \<open>roll_loop\<close> of the logger may
      really run for ever, when the size to roll at is 0.
  The lemmas on maps hold up to \<open>2 ^ 20\<close> entries (\<open>SP_LIMIT\<close>) and those on arrays up to \<open>2 ^ 26 - 2\<close> values, which keeps all block
  sizes inside an \<open>int\<close>.

  \<^bold>\<open>Parameters.\<close> What the code takes from outside is an argument of the definitions: the bytes read from the random device; \<open>snprintf\<close> and \<open>strtod\<close> of
  the C library with the decimal point of the locale (the record \<open>libc\<close>); the floating-point unit in \<open>Bezier\<close>; the file system and the clock
  in the logger; the client function of \<open>pbc_decode\<close>; the bytes of the generated \<open>descriptor.pbc.h\<close>; bytes of the stack that are
  read before they were written, and half an address where the code reads one as a number.

  \<^bold>\<open>Not modelled.\<close> The bindings \<open>pbc-lua53.c\<close> and \<open>pbc-lua.c\<close>, and the \<open>luaopen\<close> functions, only move arguments and results between Lua and the
  functions that are modelled. \<open>dtoa.c\<close> and \<open>g_fmt.c\<close> are not built, \<open>dlmalloc.c\<close> and \<open>malloc.h\<close> are the vendored allocator, \<open>tool/dump.c\<close> and the tests
  print. The failure of \<open>malloc\<close> and of the pthread functions is left out. The game itself is Lua.
\<close>

end
